(* ===== verification/Prelude.thy ===== *)
theory Prelude
  imports "HOL-Library.Word"
begin

text \<open>
  Shared vocabulary of the development: the C integer types of \<^verbatim>\<open>src/src/types.h\<close>, a
  byte-addressed RAM with little-endian doubleword accesses (RISC-V is little-endian), the
  byte loops every C file of the kernel repeats (\<^verbatim>\<open>memset\<close>, \<^verbatim>\<open>memcopy\<close>, \<^verbatim>\<open>zero\<close>,
  \<^verbatim>\<open>copybytes\<close>) with closed forms, alignment arithmetic on 64-bit addresses, and the
  interface of a fixed-width byte codec with the facts about arrays of encoded items.
\<close>

unbundle bit_operations_syntax

section \<open>Integer types and the RAM\<close>

type_synonym u8 = "8 word"
type_synonym u16 = "16 word"
type_synonym u32 = "32 word"
type_synonym u64 = "64 word"

type_synonym memory = "u64 \<Rightarrow> u8"

named_theorems frame_simps \<open>facts that say which part of the state an operation leaves alone\<close>
named_theorems addr_simps \<open>alignment and address arithmetic\<close>
named_theorems codec_simps \<open>lengths and round trips of byte encodings\<close>

subsection \<open>Little-endian scalars\<close>

definition le16 :: "u16 \<Rightarrow> u8 list" where
  "le16 v = [ucast v, ucast (drop_bit 8 v)]"

definition un_le16 :: "u8 list \<Rightarrow> u16" where
  "un_le16 bs = ucast (bs ! 0) OR push_bit 8 (ucast (bs ! 1))"

definition le32 :: "u32 \<Rightarrow> u8 list" where
  "le32 v = [ucast v, ucast (drop_bit 8 v), ucast (drop_bit 16 v), ucast (drop_bit 24 v)]"

definition un_le32 :: "u8 list \<Rightarrow> u32" where
  "un_le32 bs = ucast (bs ! 0) OR push_bit 8 (ucast (bs ! 1)) OR
     push_bit 16 (ucast (bs ! 2)) OR push_bit 24 (ucast (bs ! 3))"

definition le64 :: "u64 \<Rightarrow> u8 list" where
  "le64 v = [ucast v, ucast (drop_bit 8 v), ucast (drop_bit 16 v), ucast (drop_bit 24 v),
     ucast (drop_bit 32 v), ucast (drop_bit 40 v), ucast (drop_bit 48 v), ucast (drop_bit 56 v)]"

definition un_le64 :: "u8 list \<Rightarrow> u64" where
  "un_le64 bs = ucast (bs ! 0) OR push_bit 8 (ucast (bs ! 1)) OR
     push_bit 16 (ucast (bs ! 2)) OR push_bit 24 (ucast (bs ! 3)) OR
     push_bit 32 (ucast (bs ! 4)) OR push_bit 40 (ucast (bs ! 5)) OR
     push_bit 48 (ucast (bs ! 6)) OR push_bit 56 (ucast (bs ! 7))"

subsection \<open>Doubleword loads and stores\<close>

definition ld64 :: "memory \<Rightarrow> u64 \<Rightarrow> u64" where
  "ld64 m a = un_le64 [m a, m (a + 1), m (a + 2), m (a + 3),
     m (a + 4), m (a + 5), m (a + 6), m (a + 7)]"

definition st64 :: "memory \<Rightarrow> u64 \<Rightarrow> u64 \<Rightarrow> memory" where
  "st64 m a v = m(a := ucast v, a + 1 := ucast (drop_bit 8 v),
     a + 2 := ucast (drop_bit 16 v), a + 3 := ucast (drop_bit 24 v),
     a + 4 := ucast (drop_bit 32 v), a + 5 := ucast (drop_bit 40 v),
     a + 6 := ucast (drop_bit 48 v), a + 7 := ucast (drop_bit 56 v))"

subsection \<open>The byte loops of the C code\<close>

text \<open>
  The loops count a \<^verbatim>\<open>uint64 n\<close> down to zero, so a call runs \<open>unat n\<close> rounds; the model
  takes that number. \<open>copy_loop\<close> reads each byte from the memory as it is at that round, so
  it is right for overlapping ranges too.
\<close>

fun set_loop :: "memory \<Rightarrow> u64 \<Rightarrow> u8 \<Rightarrow> nat \<Rightarrow> memory" where
  "set_loop m d c 0 = m"
| "set_loop m d c (Suc n) = set_loop (m(d := c)) (d + 1) c n"

fun copy_loop :: "memory \<Rightarrow> u64 \<Rightarrow> u64 \<Rightarrow> nat \<Rightarrow> memory" where
  "copy_loop m d s 0 = m"
| "copy_loop m d s (Suc n) = copy_loop (m(d := m s)) (d + 1) (s + 1) n"

definition load :: "memory \<Rightarrow> u64 \<Rightarrow> nat \<Rightarrow> u8 list" where
  "load m a n = map (\<lambda>i. m (a + of_nat i)) [0..<n]"

section \<open>Bits of little-endian scalars\<close>

lemma byte_cases_64:
  fixes n :: nat
  assumes "n < 64"
  obtains "n < 8" | "8 \<le> n" "n < 16" | "16 \<le> n" "n < 24" | "24 \<le> n" "n < 32"
    | "32 \<le> n" "n < 40" | "40 \<le> n" "n < 48" | "48 \<le> n" "n < 56" | "56 \<le> n" "n < 64"
  using assms by linarith

lemma un_le16_le16 [codec_simps]: "un_le16 (le16 v) = v"
proof (rule bit_word_eqI)
  fix n assume "n < LENGTH(16)"
  then consider "n < 8" | "8 \<le> n" "n < 16" by force
  then show "bit (un_le16 (le16 v)) n = bit v n"
    by cases (auto simp: un_le16_def le16_def bit_simps)
qed

lemma un_le32_le32 [codec_simps]: "un_le32 (le32 v) = v"
proof (rule bit_word_eqI)
  fix n assume "n < LENGTH(32)"
  then consider "n < 8" | "8 \<le> n" "n < 16" | "16 \<le> n" "n < 24" | "24 \<le> n" "n < 32" by force
  then show "bit (un_le32 (le32 v)) n = bit v n"
    by cases (auto simp: un_le32_def le32_def bit_simps)
qed

lemma un_le64_le64 [codec_simps]: "un_le64 (le64 v) = v"
proof (rule bit_word_eqI)
  fix n assume "n < LENGTH(64)"
  then have "n < 64" by simp
  then show "bit (un_le64 (le64 v)) n = bit v n"
    by (cases n rule: byte_cases_64) (auto simp: un_le64_def le64_def bit_simps)
qed

lemma length_le [simp]: "length (le16 a) = 2" "length (le32 b) = 4" "length (le64 c) = 8"
  by (simp_all add: le16_def le32_def le64_def)

lemma un_le_append [codec_simps]:
  "2 \<le> length xs \<Longrightarrow> un_le16 (xs @ ys) = un_le16 xs"
  "4 \<le> length xs \<Longrightarrow> un_le32 (xs @ ys) = un_le32 xs"
  "8 \<le> length xs \<Longrightarrow> un_le64 (xs @ ys) = un_le64 xs"
  by (auto simp: un_le16_def un_le32_def un_le64_def nth_append)

section \<open>Alignment\<close>

text \<open>
  A block of \<open>2 ^ n\<close> bytes that starts at an aligned address \<open>d\<close> is the set of addresses
  with the upper bits of \<open>d\<close>. Membership is stated on those bits, so that two blocks are
  disjoint as soon as they differ there. For \<open>n = 12\<close> the upper bits are the page number.
\<close>

abbreviation page_no :: "u64 \<Rightarrow> u64" where
  "page_no a \<equiv> drop_bit 12 a"

lemma unat_drop_bit_div: "unat (drop_bit n (a :: 'a::len word)) = unat a div 2 ^ n"
  unfolding unat_drop_bit_eq by (simp only: drop_bit_eq_div)

lemma unat_less: "unat (a :: 'a::len word) < 2 ^ LENGTH('a)"
  by (rule unsigned_less)

lemma aligned_iff_dvd: "take_bit n (d :: 'a::len word) = 0 \<longleftrightarrow> 2 ^ n dvd unat d"
  by (simp add: and_mask_dvd_nat take_bit_eq_mask)

lemma div_eq_range: "0 < (k :: nat) \<Longrightarrow> x div k = q \<longleftrightarrow> k * q \<le> x \<and> x < k * q + k"
  by (metis add.commute div_nat_eqI dividend_less_times_div mult_Suc_right times_div_less_eq_dividend)

lemma aligned_range:
  fixes a d :: u64
  assumes d: "take_bit n d = 0" and n: "n < 64"
  shows "unat (a - d) < 2 ^ n \<longleftrightarrow> drop_bit n a = drop_bit n d"
proof -
  obtain q where q: "unat d = 2 ^ n * q"
    using d by (auto simp: aligned_iff_dvd)
  have top: "unat d + 2 ^ n \<le> 2 ^ 64"
  proof -
    have "2 ^ n * q < 2 ^ n * 2 ^ (64 - n)"
      using unat_less [of d] n by (simp add: q flip: power_add)
    then have "Suc q \<le> 2 ^ (64 - n)" by simp
    then have "2 ^ n * Suc q \<le> 2 ^ n * 2 ^ (64 - n)" by (rule mult_le_mono2)
    then show ?thesis
      using n by (simp add: q flip: power_add)
  qed
  have "drop_bit n a = drop_bit n d \<longleftrightarrow> unat a div 2 ^ n = q"
    by (simp only: word_unat_eq_iff unat_drop_bit_div q) simp
  also have "\<dots> \<longleftrightarrow> unat d \<le> unat a \<and> unat a < unat d + 2 ^ n"
    by (simp add: q div_eq_range)
  also have "\<dots> \<longleftrightarrow> unat (a - d) < 2 ^ n"
    using top unat_less [of a] by (auto simp: unat_sub_if_size word_size)
  finally show ?thesis by simp
qed


lemma drop_bit_add_offset [addr_simps]:
  fixes d k :: u64
  assumes "take_bit n d = 0" "unat k < 2 ^ n" "n < 64"
  shows "drop_bit n (d + k) = drop_bit n d"
  using aligned_range [OF assms(1,3), of "d + k"] assms(2) by simp

lemma aligned_eq_iff: "take_bit n a = 0 \<Longrightarrow> take_bit n b = 0 \<Longrightarrow>
    drop_bit n a = drop_bit n b \<longleftrightarrow> a = (b :: 'a::len word)"
  by (metis add_0 bits_ident)

lemma same_dword_same_page: "drop_bit 3 a = drop_bit 3 (b :: u64) \<Longrightarrow> page_no a = page_no b"
proof -
  assume "drop_bit 3 a = drop_bit 3 b"
  then have "drop_bit 9 (drop_bit 3 a) = drop_bit 9 (drop_bit 3 b)" by simp
  then show ?thesis by (simp only: drop_bit_drop_bit) simp
qed

lemma page_aligned_dword: "take_bit 12 (a :: u64) = 0 \<Longrightarrow> take_bit 3 a = 0"
proof -
  assume "take_bit 12 a = 0"
  then have "take_bit 3 (take_bit 12 a) = 0" by simp
  then show ?thesis by (simp add: take_bit_take_bit)
qed

text \<open>Rounding down to a page boundary, as the C code writes it.\<close>

lemma mask_page: "(4095 :: u64) = mask 12"
  by (simp add: mask_eq_exp_minus_1)

lemma and_not_page: "(x :: u64) AND NOT 4095 = push_bit 12 (page_no x)"
  unfolding mask_page by (rule bit_word_eqI) (auto simp: bit_simps)

lemma and_page: "(x :: u64) AND 4095 = take_bit 12 x"
  unfolding mask_page by (simp only: take_bit_eq_mask)

lemma unat_round_down: "unat ((x :: u64) AND NOT 4095) = unat x div 4096 * 4096"
proof -
  have "(unat x div 4096) * 4096 < 2 ^ 64"
    using unat_less [of x] by (simp add: le_less_trans [OF div_times_less_eq_dividend])
  moreover have "unat (page_no x) = unat x div 4096"
    by (simp only: unat_drop_bit_div) simp
  ultimately show ?thesis
    unfolding and_not_page push_bit_eq_mult by (simp add: unat_word_ariths)
qed

lemma round_down_aligned [simp]: "take_bit 12 ((x :: u64) AND NOT 4095) = 0"
  by (simp add: aligned_iff_dvd unat_round_down)

lemma round_down_page [simp]: "page_no ((x :: u64) AND NOT 4095) = page_no x"
  unfolding and_not_page by (rule bit_word_eqI) (auto simp: bit_simps dest: bit_imp_le_length)

section \<open>Closed forms and frames of the memory operations\<close>

lemma unat_sub_Suc:
  fixes a d :: u64
  assumes "a \<noteq> d"
  shows "unat (a - (d + 1)) = unat (a - d) - 1"
proof -
  have "a - d \<noteq> 0" using assms by simp
  then have "unat (a - d - 1) = unat (a - d) - 1" by (rule unat_minus_one)
  then show ?thesis by (simp add: diff_diff_eq)
qed

lemma set_loop_eq:
  "n \<le> 2 ^ 64 \<Longrightarrow> set_loop m d c n = (\<lambda>a. if unat (a - d) < n then c else m a)"
proof (induction n arbitrary: m d)
  case (Suc n)
  show ?case
  proof
    fix a
    have IH: "set_loop (m(d := c)) (d + 1) c n a = (if unat (a - (d + 1)) < n then c else (m(d := c)) a)"
      using Suc by simp
    show "set_loop m d c (Suc n) a = (if unat (a - d) < Suc n then c else m a)"
    proof (cases "a = d")
      case False
      then have "unat (a - d) \<noteq> 0" by (simp add: unat_eq_zero)
      with IH False show ?thesis by (auto simp: unat_sub_Suc)
    qed (use IH in auto)
  qed
qed simp

lemma copy_loop_eq:
  "n \<le> 2 ^ 64 \<Longrightarrow> \<forall>a. unat (a - d) < n \<longrightarrow> \<not> unat (a - s) < n \<Longrightarrow>
     copy_loop m d s n = (\<lambda>a. if unat (a - d) < n then m (s + (a - d)) else m a)"
proof (induction n arbitrary: m d s)
  case (Suc n)
  from Suc.prems(2) have ds: "d \<noteq> s" by (metis diff_self unat_0 zero_less_Suc)
  have lift: "unat (a - e) < Suc n" if "unat (a - (e + 1)) < n" "n < 2 ^ 64" for a e :: u64
    using that by (cases "a = e") (auto simp: unat_sub_Suc)
  have disj: "\<forall>a. unat (a - (d + 1)) < n \<longrightarrow> \<not> unat (a - (s + 1)) < n"
    using Suc.prems lift by auto
  have "copy_loop (m(d := m s)) (d + 1) (s + 1) n =
      (\<lambda>a. if unat (a - (d + 1)) < n then (m(d := m s)) (s + 1 + (a - (d + 1))) else (m(d := m s)) a)"
    using Suc.prems(1) disj by (intro Suc.IH) auto
  moreover have "s + 1 + (a - (d + 1)) = s + (a - d)" for a by simp
  ultimately have IH: "copy_loop (m(d := m s)) (d + 1) (s + 1) n a =
      (if unat (a - (d + 1)) < n then (m(d := m s)) (s + (a - d)) else (m(d := m s)) a)" for a
    by presburger
  show ?case
  proof
    fix a
    show "copy_loop m d s (Suc n) a = (if unat (a - d) < Suc n then m (s + (a - d)) else m a)"
    proof (cases "a = d")
      case True
      have "s \<noteq> d" using ds by simp
      with IH [of d] True show ?thesis by auto
    next
      case False
      have "s + (a - d) \<noteq> d" if "unat (a - d) < Suc n"
        using Suc.prems(2) that by (metis add_diff_cancel_left' diff_self unat_0 zero_less_Suc)
      moreover from False have "unat (a - d) \<noteq> 0" by (simp add: unat_eq_zero)
      ultimately show ?thesis using IH [of a] False by (auto simp: unat_sub_Suc)
    qed
  qed
qed simp

lemma st64_other:
  assumes "take_bit 3 a = 0" "drop_bit 3 b \<noteq> drop_bit 3 a"
  shows "st64 m a v b = m b"
proof -
  have "b \<noteq> a + k" if "unat k < 8" for k :: u64
    using drop_bit_add_offset [of 3 a k] that assms by auto
  from this [of 0] this [of 1] this [of 2] this [of 3] this [of 4] this [of 5] this [of 6] this [of 7]
  show ?thesis by (simp add: st64_def)
qed

lemma ld64_cong:
  assumes "take_bit 3 a = 0" "\<And>b. drop_bit 3 b = drop_bit 3 a \<Longrightarrow> m b = m' b"
  shows "ld64 m a = ld64 m' a"
proof -
  have "m (a + k) = m' (a + k)" if "unat k < 8" for k :: u64
    using drop_bit_add_offset [of 3 a k] that assms by auto
  from this [of 0] this [of 1] this [of 2] this [of 3] this [of 4] this [of 5] this [of 6] this [of 7]
  show ?thesis by (simp add: ld64_def)
qed

lemma ld64_st64_same [simp]: "ld64 (st64 m a v) a = v"
proof -
  have "ld64 (st64 m a v) a = un_le64 (le64 v)"
    by (simp add: ld64_def st64_def le64_def)
  then show ?thesis by (simp add: codec_simps)
qed

lemma ld64_st64_other:
  assumes "take_bit 3 a = 0" "take_bit 3 b = 0" "a \<noteq> b"
  shows "ld64 (st64 m a v) b = ld64 m b"
proof (rule ld64_cong)
  fix c assume "drop_bit 3 c = drop_bit 3 b"
  moreover have "drop_bit 3 a \<noteq> drop_bit 3 b"
    using assms by (simp add: aligned_eq_iff)
  ultimately show "st64 m a v c = m c"
    using assms by (intro st64_other) auto
qed (rule assms)


subsection \<open>Whole pages\<close>

lemma zero_page_eq:
  assumes "take_bit 12 p = 0"
  shows "set_loop m p c 4096 = (\<lambda>a. if page_no a = page_no p then c else m a)"
  using aligned_range [OF assms, of _] by (simp add: set_loop_eq)

lemma copy_page_eq:
  assumes "take_bit 12 d = 0" "take_bit 12 s = 0" "d \<noteq> s"
  shows "copy_loop m d s 4096 = (\<lambda>a. if page_no a = page_no d then m (s + (a - d)) else m a)"
proof -
  have "page_no d \<noteq> page_no s"
    using assms by (simp add: aligned_eq_iff)
  then show ?thesis
    using aligned_range [OF assms(1), of _] aligned_range [OF assms(2), of _]
    by (simp add: copy_loop_eq)
qed

lemma ld64_fill_page:
  assumes "take_bit 3 a = 0"
  shows "ld64 (\<lambda>b. if page_no b = p then 0 else m b) a = (if page_no a = p then 0 else ld64 m a)"
proof (cases "page_no a = p")
  case True
  have "ld64 (\<lambda>b. if page_no b = p then 0 else m b) a = ld64 (\<lambda>_. 0) a"
    using assms True by (intro ld64_cong) (auto dest: same_dword_same_page)
  then show ?thesis by (simp add: True ld64_def un_le64_def)
next
  case False
  have "ld64 (\<lambda>b. if page_no b = p then 0 else m b) a = ld64 m a"
    using assms False by (intro ld64_cong) (auto dest: same_dword_same_page)
  then show ?thesis by (simp add: False)
qed

lemma ld64_same_page:
  assumes "take_bit 3 a = 0" "\<And>b. page_no b = page_no a \<Longrightarrow> m b = m' b"
  shows "ld64 m a = ld64 m' a"
  using assms by (intro ld64_cong) (auto dest: same_dword_same_page)

lemma st64_page:
  assumes "take_bit 3 a = 0" "page_no b \<noteq> page_no a"
  shows "st64 m a v b = m b"
  using assms by (intro st64_other) (auto dest: same_dword_same_page)

section \<open>Fixed-width byte codecs\<close>

text \<open>
  The interface of a scalar or struct that is laid out in a fixed number of bytes: decoding
  the front of a buffer that starts with an encoding gives the item back. \<open>ok\<close> are the
  items the layout can hold. The laws give the round trip of whole arrays.
\<close>

locale codec =
  fixes enc :: "'a \<Rightarrow> u8 list" and dec :: "u8 list \<Rightarrow> 'a" and width :: nat and ok :: "'a \<Rightarrow> bool"
  assumes enc_width: "ok x \<Longrightarrow> length (enc x) = width"
    and dec_enc: "ok x \<Longrightarrow> dec (enc x @ rest) = x"
begin

lemma dec_enc_exact: "ok x \<Longrightarrow> dec (enc x) = x"
  using dec_enc [of x "[]"] by simp

lemma enc_inject: "ok x \<Longrightarrow> ok y \<Longrightarrow> enc x = enc y \<Longrightarrow> x = y"
  using dec_enc_exact by metis

lemma array_width: "\<forall>x \<in> set xs. ok x \<Longrightarrow> length (concat (map enc xs)) = length xs * width"
  by (induction xs) (auto simp: enc_width)

lemma array_nth:
  "\<forall>x \<in> set xs. ok x \<Longrightarrow> i < length xs \<Longrightarrow>
     dec (drop (i * width) (concat (map enc xs) @ rest)) = xs ! i"
proof (induction xs arbitrary: i)
  case (Cons x xs)
  then show ?case
    by (cases i) (simp_all add: dec_enc enc_width)
qed simp

lemma array_decode:
  "\<forall>x \<in> set xs. ok x \<Longrightarrow>
     map (\<lambda>i. dec (drop (i * width) (concat (map enc xs) @ rest))) [0..<length xs] = xs"
  by (rule nth_equalityI) (simp_all add: array_nth del: drop_append)

end

interpretation le16: codec le16 un_le16 2 "\<lambda>_. True"
  by unfold_locales (simp_all add: codec_simps)

interpretation le32: codec le32 un_le32 4 "\<lambda>_. True"
  by unfold_locales (simp_all add: codec_simps)

interpretation le64: codec le64 un_le64 8 "\<lambda>_. True"
  by unfold_locales (simp_all add: codec_simps)

end
