(* ===== verification/Spinlock.thy ===== *)
theory Spinlock
  imports Prelude
begin

text \<open>
  \<^verbatim>\<open>src/src/spinlock.c\<close>: the spin lock word, the per-hart interrupt nesting of
  \<^verbatim>\<open>push_off\<close>/\<^verbatim>\<open>pop_off\<close>, and what several harts do when they run critical sections
  between \<^verbatim>\<open>acquire\<close> and \<^verbatim>\<open>release\<close>. A hart's own view (\<open>acquire\<close>, \<open>release\<close>) is a
  function on its control state and the lock word; the machine with several harts is a step
  relation in which every round of the \<^verbatim>\<open>amoswap\<close> loop, every piece of a critical section and
  every release is a step of its own. The theorems: interrupts are off exactly while a lock is
  held and come back as they were, two harts are never inside together, and a state seen with
  the lock free is one that running whole critical sections one after the other produces.
\<close>

section \<open>The hart: supervisor status and interrupt nesting\<close>

definition SSTATUS_SIE :: u64 where "SSTATUS_SIE = push_bit 1 1"

text \<open>\<open>noff\<close> and \<open>intena\<close> are the entry of \<^verbatim>\<open>cpus[r_tp()]\<close>, \<open>sstatus\<close> the hart's CSR. The depth is an
  integer without bound: the C \<^verbatim>\<open>int\<close> would overflow only with 2^31 sections open on one hart.\<close>

record hart =
  sstatus :: u64
  noff :: int
  intena :: int

definition intr_get :: "hart \<Rightarrow> int" where
  "intr_get c = (if sstatus c AND SSTATUS_SIE \<noteq> 0 then 1 else 0)"

definition intr_on :: "hart \<Rightarrow> hart" where
  "intr_on c = c\<lparr>sstatus := sstatus c OR SSTATUS_SIE\<rparr>"

definition intr_off :: "hart \<Rightarrow> hart" where
  "intr_off c = c\<lparr>sstatus := sstatus c AND NOT SSTATUS_SIE\<rparr>"

definition push_off :: "hart \<Rightarrow> hart" where
  "push_off c =
     (let old = intr_get c;
          c1 = intr_off c;
          c2 = (if noff c1 = 0 then c1\<lparr>intena := old\<rparr> else c1)
      in c2\<lparr>noff := noff c2 + 1\<rparr>)"

definition pop_off :: "hart \<Rightarrow> hart" where
  "pop_off c =
     (let c1 = c\<lparr>noff := noff c - 1\<rparr>
      in if noff c1 = 0 \<and> intena c1 \<noteq> 0 then intr_on c1 else c1)"

section \<open>The lock\<close>

record spinlock = locked :: u32

definition initlock :: "spinlock \<Rightarrow> spinlock" where
  "initlock lk = lk\<lparr>locked := 0\<rparr>"

text \<open>\<^verbatim>\<open>__sync_lock_test_and_set\<close>: store the new value, return the old one, in one step.\<close>

definition test_and_set :: "spinlock \<Rightarrow> u32 \<Rightarrow> u32 \<times> spinlock" where
  "test_and_set lk v = (locked lk, lk\<lparr>locked := v\<rparr>)"

text \<open>
  One hart alone: nobody else can clear the word, so \<open>acquire\<close> returns at its first
  \<^verbatim>\<open>amoswap\<close> or never (\<open>None\<close>). What other harts do in between is the subject of the step
  relation below.
\<close>

definition acquire :: "hart \<Rightarrow> spinlock \<Rightarrow> (hart \<times> spinlock) option" where
  "acquire c lk =
     (let c1 = push_off c; (old, lk1) = test_and_set lk 1
      in if old \<noteq> 0 then None else Some (c1, lk1))"

definition release :: "hart \<Rightarrow> spinlock \<Rightarrow> hart \<times> spinlock" where
  "release c lk = (pop_off c, lk\<lparr>locked := 0\<rparr>)"

subsection \<open>Interrupt nesting\<close>

definition hart_ok :: "hart \<Rightarrow> bool" where
  "hart_ok c \<longleftrightarrow> 0 \<le> noff c \<and> (0 < noff c \<longrightarrow> intr_get c = 0)"

lemma SIE_exp: "SSTATUS_SIE = 2 ^ 1"
  by (simp add: SSTATUS_SIE_def)

lemma SIE_bit: "bit SSTATUS_SIE n \<longleftrightarrow> n = 1"
  unfolding SIE_exp bit_exp_iff by (auto simp: possible_bit_def)

lemma SIE_set_iff: "x AND SSTATUS_SIE = 0 \<longleftrightarrow> \<not> bit x 1"
  unfolding SIE_exp by (rule and_exp_eq_0_iff_not_bit)

lemma intr_get_off [simp]: "intr_get (intr_off c) = 0"
  by (simp add: intr_get_def intr_off_def SIE_set_iff bit_simps SIE_bit)

lemma intr_get_on [simp]: "intr_get (intr_on c) = 1"
  by (simp add: intr_get_def intr_on_def SIE_exp)

lemma intr_on_off_restore: "intr_get c = 1 \<Longrightarrow> sstatus (intr_on (intr_off c)) = sstatus c"
  by (rule bit_word_eqI)
    (auto simp: intr_get_def intr_on_def intr_off_def SIE_set_iff bit_simps SIE_bit split: if_splits)

lemma intr_off_idle: "intr_get c = 0 \<Longrightarrow> sstatus (intr_off c) = sstatus c"
  by (rule bit_word_eqI)
    (auto simp: intr_get_def intr_off_def SIE_set_iff bit_simps SIE_bit split: if_splits)

lemma intr_get_cases: "intr_get c = 0 \<or> intr_get c = 1"
  by (simp add: intr_get_def)

lemma intr_get_fields [simp]:
  "intr_get (c\<lparr>noff := a\<rparr>) = intr_get c" "intr_get (c\<lparr>intena := b\<rparr>) = intr_get c"
  by (simp_all add: intr_get_def)


lemma push_off_simps [simp]:
  "noff (push_off c) = noff c + 1"
  "intr_get (push_off c) = 0"
  "sstatus (push_off c) = sstatus (intr_off c)"
  "intena (push_off c) = (if noff c = 0 then intr_get c else intena c)"
  by (auto simp: push_off_def Let_def intr_off_def intr_get_def SIE_set_iff bit_simps SIE_bit)

lemma pop_off_inner: "noff c \<noteq> 1 \<Longrightarrow> pop_off c = c\<lparr>noff := noff c - 1\<rparr>"
  by (simp add: pop_off_def Let_def)

lemma pop_off_outer:
  "noff c = 1 \<Longrightarrow> pop_off c = (if intena c \<noteq> 0 then intr_on (c\<lparr>noff := 0\<rparr>) else c\<lparr>noff := 0\<rparr>)"
  by (simp add: pop_off_def Let_def)

lemma noff_pop_off [simp]: "noff (pop_off c) = noff c - 1"
  by (simp add: pop_off_def Let_def intr_on_def)

lemma intena_pop_off [simp]: "intena (pop_off c) = intena c"
  by (simp add: pop_off_def Let_def intr_on_def)

text \<open>Well-nested use: every \<open>Push\<close> has its \<open>Pop\<close>, sections may nest and follow each other.\<close>

datatype nest = Push | Pop

fun run_nest :: "nest list \<Rightarrow> hart \<Rightarrow> hart" where
  "run_nest [] c = c"
| "run_nest (Push # es) c = run_nest es (push_off c)"
| "run_nest (Pop # es) c = run_nest es (pop_off c)"

inductive well_nested :: "nest list \<Rightarrow> bool" where
  empty: "well_nested []"
| wrap: "well_nested xs \<Longrightarrow> well_nested ys \<Longrightarrow> well_nested (Push # xs @ Pop # ys)"

lemma run_nest_append: "run_nest (xs @ ys) c = run_nest ys (run_nest xs c)"
  by (induction xs c rule: run_nest.induct) auto

text \<open>
  What a finished section leaves behind: the status register and the depth as they were, and
  inside another section the remembered state \<open>intena\<close> too.
\<close>

definition nest_same :: "hart \<Rightarrow> hart \<Rightarrow> bool" where
  "nest_same c d \<longleftrightarrow> sstatus d = sstatus c \<and> noff d = noff c \<and> (0 < noff c \<longrightarrow> intena d = intena c)"

lemma hart_ok_push: "hart_ok c \<Longrightarrow> hart_ok (push_off c)"
  by (simp add: hart_ok_def)

lemma nest_same_ok: "nest_same c d \<Longrightarrow> hart_ok c \<Longrightarrow> hart_ok d"
  by (simp add: nest_same_def hart_ok_def intr_get_def)

lemma nest_same_trans: "nest_same c d \<Longrightarrow> nest_same d e \<Longrightarrow> nest_same c e"
  by (simp add: nest_same_def)

lemma pop_after_push:
  assumes "hart_ok c" "nest_same (push_off c) d"
  shows "nest_same c (pop_off d)"
proof (cases "noff c = 0")
  case True
  with assms have d: "noff d = 1" "intena d = intr_get c" "sstatus d = sstatus (intr_off c)"
    by (auto simp: nest_same_def)
  then show ?thesis
    using True intr_get_cases [of c] intr_on_off_restore [of c] intr_off_idle [of c]
    by (auto simp: nest_same_def pop_off_outer intr_on_def intr_off_def)
next
  case False
  with assms have "0 < noff c" "intr_get c = 0" by (auto simp: hart_ok_def)
  with assms show ?thesis
    by (auto simp: nest_same_def pop_off_inner intr_off_idle)
qed

lemma well_nested_same: "well_nested es \<Longrightarrow> hart_ok c \<Longrightarrow> nest_same c (run_nest es c)"
proof (induction arbitrary: c rule: well_nested.induct)
  case empty
  then show ?case by (simp add: nest_same_def)
next
  case (wrap xs ys)
  let ?d = "pop_off (run_nest xs (push_off c))"
  have d: "nest_same c ?d"
    using wrap by (intro pop_after_push wrap.IH hart_ok_push)
  then have "nest_same ?d (run_nest ys ?d)"
    using wrap nest_same_ok by blast
  with d show ?case
    by (simp add: run_nest_append nest_same_trans)
qed

lemma acquire_release:
  assumes "hart_ok c" "locked lk = 0"
  obtains c1 lk1 where "acquire c lk = Some (c1, lk1)" "intr_get c1 = 0" "locked lk1 = 1"
    "sstatus (fst (release c1 lk1)) = sstatus c" "snd (release c1 lk1) = lk"
proof -
  have "sstatus (pop_off (push_off c)) = sstatus c"
    using pop_after_push [OF assms(1), of "push_off c"] by (simp add: nest_same_def)
  then show thesis
    using assms(2) that [of "push_off c" "lk\<lparr>locked := 1\<rparr>"]
    by (simp add: acquire_def test_and_set_def release_def)
qed

lemma acquire_held: "locked lk \<noteq> 0 \<Longrightarrow> acquire c lk = None"
  by (simp add: acquire_def test_and_set_def)

lemma hart_ok_pop: "hart_ok c \<Longrightarrow> 0 < noff c \<Longrightarrow> hart_ok (pop_off c)"
  by (cases "noff c = 1") (auto simp: hart_ok_def pop_off_inner)

lemma well_nested_prefix_ok: "well_nested es \<Longrightarrow> hart_ok c \<Longrightarrow> hart_ok (run_nest (take k es) c)"
proof (induction arbitrary: c k rule: well_nested.induct)
  case (wrap xs ys)
  let ?c1 = "run_nest xs (push_off c)"
  have c1: "nest_same (push_off c) ?c1"
    using wrap by (intro well_nested_same hart_ok_push)
  have "hart_ok ?c1"
    using c1 wrap.prems by (blast intro: nest_same_ok hart_ok_push)
  moreover have "0 < noff ?c1"
    using c1 wrap.prems by (simp add: nest_same_def hart_ok_def)
  ultimately have pop: "hart_ok (pop_off ?c1)" by (rule hart_ok_pop)
  show ?case
  proof (cases k)
    case (Suc j)
    show ?thesis
    proof (cases "j \<le> length xs")
      case True
      then show ?thesis
        using Suc wrap.IH(1) [OF hart_ok_push [OF wrap.prems], of j] by simp
    next
      case False
      then obtain i where "j - length xs = Suc i" by (metis Suc_diff_Suc not_le)
      then show ?thesis
        using Suc False wrap.IH(2) [OF pop, of i] by (simp add: run_nest_append)
    qed
  qed (use wrap.prems in simp)
qed simp

text \<open>
  Claim C1. Interrupt nesting: from any hart state in which interrupts are off whenever a
  section is open, a well-nested sequence of \<^verbatim>\<open>push_off\<close> and \<^verbatim>\<open>pop_off\<close> calls (nested to any
  depth, one after another in any number) leaves the hart's \<^verbatim>\<open>sstatus\<close> and nesting depth
  exactly as it found them, and at every point of the sequence where a section is open
  interrupts are off.
\<close>

theorem push_pop_restores:
  assumes "hart_ok c" and "well_nested es"
  shows "sstatus (run_nest es c) = sstatus c \<and> noff (run_nest es c) = noff c
    \<and> (0 < noff (run_nest (take k es) c) \<longrightarrow> intr_get (run_nest (take k es) c) = 0)"
  using well_nested_same [OF assms(2,1)] well_nested_prefix_ok [OF assms(2,1), of k]
  by (simp add: nest_same_def hart_ok_def)

theorem push_pop_restores_witness:
  "sstatus (run_nest [Push, Push, Pop, Pop, Push, Pop] \<lparr>sstatus = 2, noff = 0, intena = 0\<rparr>) = 2
   \<and> intr_get (run_nest [Push, Push, Pop] \<lparr>sstatus = 2, noff = 0, intena = 0\<rparr>) = 0"
proof -
  have nested: "well_nested [Push, Push, Pop, Pop, Push, Pop]"
    using wrap [OF wrap [OF empty empty] wrap [OF empty empty]] by simp
  have ok: "hart_ok \<lparr>sstatus = 2, noff = 0, intena = 0\<rparr>"
    by (simp add: hart_ok_def)
  have "0 < noff (run_nest [Push, Push, Pop] \<lparr>sstatus = 2, noff = 0, intena = 0\<rparr>)"
    by simp
  with push_pop_restores [OF ok nested, of 3] show ?thesis by simp
qed


section \<open>Several harts\<close>

text \<open>
  A critical section is the list of the pieces its body runs in, each a function on the data
  the lock protects; between two pieces any other hart may take a step. \<open>Spin\<close> is a hart
  inside the loop of \<^verbatim>\<open>acquire\<close>, \<open>Crit\<close> a hart that holds the lock with the pieces still to
  run. \<open>ops\<close> are the sections that harts may start.
\<close>

type_synonym 's csection = "('s \<Rightarrow> 's) list"

datatype 's at = Idle | Spin "'s csection" | Crit "'s csection"

record 's smp =
  lock :: spinlock
  shared :: 's
  at :: "nat \<Rightarrow> 's at"

definition smp_init :: "'s \<Rightarrow> 's smp" where
  "smp_init s = \<lparr>lock = initlock \<lparr>locked = 1\<rparr>, shared = s, at = (\<lambda>_. Idle)\<rparr>"

inductive smp_step :: "'s csection set \<Rightarrow> 's smp \<Rightarrow> 's smp \<Rightarrow> bool" for ops where
  call: "at m h = Idle \<Longrightarrow> b \<in> ops \<Longrightarrow> smp_step ops m (m\<lparr>at := (at m)(h := Spin b)\<rparr>)"
| spin: "at m h = Spin b \<Longrightarrow> test_and_set (lock m) 1 = (old, lk) \<Longrightarrow> old \<noteq> 0 \<Longrightarrow>
     smp_step ops m (m\<lparr>lock := lk\<rparr>)"
| enter: "at m h = Spin b \<Longrightarrow> test_and_set (lock m) 1 = (old, lk) \<Longrightarrow> old = 0 \<Longrightarrow>
     smp_step ops m (m\<lparr>lock := lk, at := (at m)(h := Crit b)\<rparr>)"
| piece: "at m h = Crit (f # fs) \<Longrightarrow>
     smp_step ops m (m\<lparr>shared := f (shared m), at := (at m)(h := Crit fs)\<rparr>)"
| leave: "at m h = Crit [] \<Longrightarrow>
     smp_step ops m (m\<lparr>lock := (lock m)\<lparr>locked := 0\<rparr>, at := (at m)(h := Idle)\<rparr>)"

inductive smp_reach :: "'s csection set \<Rightarrow> 's \<Rightarrow> 's smp \<Rightarrow> bool" for ops s0 where
  start: "smp_reach ops s0 (smp_init s0)"
| step: "smp_reach ops s0 m \<Longrightarrow> smp_step ops m m' \<Longrightarrow> smp_reach ops s0 m'"

definition run_section :: "'s csection \<Rightarrow> 's \<Rightarrow> 's" where
  "run_section b s = fold (\<lambda>f s. f s) b s"

lemma run_section_simps [simp]:
  "run_section [] s = s" "run_section (f # fs) s = run_section fs (f s)"
  by (simp_all add: run_section_def)

definition run_sections :: "'s csection list \<Rightarrow> 's \<Rightarrow> 's" where
  "run_sections bs s = fold run_section bs s"

definition serial :: "'s csection set \<Rightarrow> 's \<Rightarrow> 's \<Rightarrow> bool" where
  "serial ops s0 s \<longleftrightarrow> (\<exists>bs. set bs \<subseteq> ops \<and> s = run_sections bs s0)"

lemma serial_start: "serial ops s0 s0"
  by (auto simp: serial_def run_sections_def intro!: exI [of _ "[]"])

lemma serial_section: "serial ops s0 s \<Longrightarrow> b \<in> ops \<Longrightarrow> serial ops s0 (run_section b s)"
proof -
  assume "serial ops s0 s" and b: "b \<in> ops"
  then obtain bs where "set bs \<subseteq> ops" "s = run_sections bs s0" by (auto simp: serial_def)
  with b have "set (bs @ [b]) \<subseteq> ops" "run_section b s = run_sections (bs @ [b]) s0"
    by (simp_all add: run_sections_def)
  then show ?thesis unfolding serial_def by blast
qed

text \<open>
  The invariant: the word is set exactly while some hart is inside, never two harts are, and
  the data are the result of whole sections, once the holder, if any, has finished its own.
\<close>

definition smp_inv :: "'s csection set \<Rightarrow> 's \<Rightarrow> 's smp \<Rightarrow> bool" where
  "smp_inv ops s0 m \<longleftrightarrow>
     (\<forall>h b. at m h = Spin b \<longrightarrow> b \<in> ops) \<and>
     (\<forall>h h' b b'. at m h = Crit b \<and> at m h' = Crit b' \<longrightarrow> h = h') \<and>
     (locked (lock m) \<noteq> 0 \<longleftrightarrow> (\<exists>h b. at m h = Crit b)) \<and>
     (locked (lock m) = 0 \<longrightarrow> serial ops s0 (shared m)) \<and>
     (\<forall>h b. at m h = Crit b \<longrightarrow> serial ops s0 (run_section b (shared m)))"

lemma smp_inv_init: "smp_inv ops s0 (smp_init s0)"
  by (simp add: smp_inv_def smp_init_def initlock_def serial_start)

lemma smp_inv_step: "smp_step ops m m' \<Longrightarrow> smp_inv ops s0 m \<Longrightarrow> smp_inv ops s0 m'"
proof (induction rule: smp_step.induct)
  case (call m h b)
  have crit: "at (m\<lparr>at := (at m)(h := Spin b)\<rparr>) h' = Crit c \<longleftrightarrow> at m h' = Crit c" for h' c
    using call by auto
  show ?case
    using call unfolding smp_inv_def crit by auto
next
  case (spin m h b old lk)
  then show ?case by (auto simp: test_and_set_def smp_inv_def)
next
  case (enter m h b old lk)
  then show ?case by (auto simp: test_and_set_def smp_inv_def intro: serial_section)
next
  case (piece m h f fs)
  then have "\<forall>h'. h' \<noteq> h \<longrightarrow> (\<forall>b. at m h' \<noteq> Crit b)" by (auto simp: smp_inv_def)
  moreover have "serial ops s0 (run_section (f # fs) (shared m))"
    using piece unfolding smp_inv_def by blast
  ultimately show ?case using piece by (auto simp: smp_inv_def)
next
  case (leave m h)
  then have "\<forall>h'. h' \<noteq> h \<longrightarrow> (\<forall>b. at m h' \<noteq> Crit b)" by (auto simp: smp_inv_def)
  moreover have "serial ops s0 (shared m)"
    using leave by (force simp: smp_inv_def)
  ultimately show ?case using leave by (auto simp: smp_inv_def)
qed

lemma smp_reach_inv: "smp_reach ops s0 m \<Longrightarrow> smp_inv ops s0 m"
  by (induction rule: smp_reach.induct) (blast intro: smp_inv_init smp_inv_step)+


text \<open>Progress: a hart that finds the lock free can run a whole section by itself.\<close>

lemma smp_reach_pieces:
  "smp_reach ops s0 m \<Longrightarrow> at m h = Crit fs \<Longrightarrow>
     smp_reach ops s0 (m\<lparr>shared := run_section fs (shared m), at := (at m)(h := Crit [])\<rparr>)"
proof (induction fs arbitrary: m)
  case Nil
  then have "m\<lparr>shared := run_section [] (shared m), at := (at m)(h := Crit [])\<rparr> = m"
    by (simp add: fun_upd_idem)
  with Nil show ?case by (simp only:)
next
  case (Cons f fs)
  let ?m = "m\<lparr>shared := f (shared m), at := (at m)(h := Crit fs)\<rparr>"
  have "smp_reach ops s0 ?m" using Cons.prems by (blast intro: step piece)
  from Cons.IH [OF this] show ?case by (simp cong: if_cong)
qed

lemma smp_reach_solo:
  assumes "smp_reach ops s0 m" "at m h = Idle" "locked (lock m) = 0" "b \<in> ops"
  shows "smp_reach ops s0 (m\<lparr>shared := run_section b (shared m)\<rparr>)"
proof -
  let ?m1 = "m\<lparr>at := (at m)(h := Spin b)\<rparr>"
  let ?m2 = "?m1\<lparr>lock := (lock m)\<lparr>locked := 1\<rparr>, at := (at ?m1)(h := Crit b)\<rparr>"
  let ?m3 = "?m2\<lparr>shared := run_section b (shared ?m2), at := (at ?m2)(h := Crit [])\<rparr>"
  let ?m4 = "?m3\<lparr>lock := (lock ?m3)\<lparr>locked := 0\<rparr>, at := (at ?m3)(h := Idle)\<rparr>"
  have "smp_reach ops s0 ?m1" using assms by (blast intro: step call)
  then have "smp_reach ops s0 ?m2"
    by (rule step) (rule enter [of _ h], simp_all add: test_and_set_def assms)
  then have "smp_reach ops s0 ?m3" by (rule smp_reach_pieces) simp
  then have "smp_reach ops s0 ?m4" by (rule step) (rule leave, simp)
  also have "?m4 = m\<lparr>shared := run_section b (shared m)\<rparr>"
    using assms(2,3) by (simp add: fun_upd_idem)
  finally show ?thesis .
qed

text \<open>
  Claim C2. Mutual exclusion and serialisability: in every state that harts interleaving their
  \<^verbatim>\<open>acquire\<close> loops, the pieces of their critical sections and their \<^verbatim>\<open>release\<close> can reach, at
  most one hart is inside; and whenever the lock word is clear, the protected data are what
  running some sequence of whole critical sections, one after the other, makes of the initial
  data.
\<close>

theorem spinlock_serializes:
  assumes "smp_reach ops s0 m"
  shows "(at m h = Crit b \<and> at m h' = Crit b' \<longrightarrow> h = h') \<and>
    (locked (lock m) = 0 \<longrightarrow> (\<exists>bs. set bs \<subseteq> ops \<and> shared m = run_sections bs s0))"
  using smp_reach_inv [OF assms] unfolding smp_inv_def serial_def by blast

definition two_harts :: "nat smp" where
  "two_harts = (smp_init 5)\<lparr>lock := \<lparr>locked = 1\<rparr>,
     at := (at (smp_init 5))(0 := Crit [Suc], 1 := Spin [Suc])\<rparr>"

lemma two_harts_reach: "smp_reach {[Suc]} 5 two_harts"
proof -
  let ?m1 = "(smp_init 5)\<lparr>at := (at (smp_init 5))(0 := Spin [Suc])\<rparr>"
  let ?m2 = "?m1\<lparr>at := (at ?m1)(1 := Spin [Suc])\<rparr>"
  let ?m3 = "?m2\<lparr>lock := \<lparr>locked = 1\<rparr>, at := (at ?m2)(0 := Crit [Suc])\<rparr>"
  have "smp_reach {[Suc]} 5 ?m1"
    by (rule step [OF start], rule call) (simp_all add: smp_init_def)
  then have "smp_reach {[Suc]} 5 ?m2"
    by (rule step, intro call) (simp_all add: smp_init_def)
  then have "smp_reach {[Suc]} 5 ?m3"
    by (rule step, intro enter) (simp_all add: smp_init_def test_and_set_def initlock_def)
  also have "?m3 = two_harts"
    by (simp add: two_harts_def fun_upd_twist)
  finally show ?thesis .
qed

theorem spinlock_serializes_witness:
  "at two_harts 0 = Crit [Suc] \<and> at two_harts 1 = Spin [Suc] \<and> at two_harts 1 \<noteq> Crit [Suc]"
  using spinlock_serializes [OF two_harts_reach, of 0 "[Suc]" 1 "[Suc]"]
  by (auto simp: two_harts_def smp_init_def)

end
