(* ===== verification/Kalloc.thy ===== *)
theory Kalloc
  imports Prelude Spinlock
begin

text \<open>
  \<^verbatim>\<open>src/src/kalloc.c\<close>: the physical page allocator. Free pages form a linked list through
  their own first doubleword, so the state is the RAM together with the list head, the free
  counter and the reference counts. Each operation is the body between \<^verbatim>\<open>acquire(&kmem_lock)\<close>
  and \<^verbatim>\<open>release(&kmem_lock)\<close>; the bracket itself is the subject of the theory \<open>KallocSmp\<close>, which
  runs these bodies on several harts through the lock protocol of \<open>Spinlock\<close>. The invariant
  says the list in memory is a chain of distinct unreferenced RAM pages as long as the counter
  says; the theorems give the exact effect of every operation on it, and that a client that
  frees only what it holds never gets one page twice and never loses one.
\<close>

section \<open>The model\<close>

abbreviation PGSIZE :: u64 where "PGSIZE \<equiv> 4096"
definition PHYSTOP :: u64 where "PHYSTOP = 0x88000000"
definition RAMBASE :: u64 where "RAMBASE = 0x80000000"
definition NPAGES :: int where "NPAGES = uint ((PHYSTOP - RAMBASE) div PGSIZE)"

definition PGROUNDUP :: "u64 \<Rightarrow> u64" where
  "PGROUNDUP a = (a + PGSIZE - 1) AND NOT (PGSIZE - 1)"

text \<open>
  \<^verbatim>\<open>refcnt\<close> is a C array of \<^verbatim>\<open>NPAGES\<close> bytes; it is a function of the index here, and
  \<open>refidx_ram\<close> below shows that every page of the RAM indexes inside the array.
\<close>

record kmem =
  mem :: memory
  freelist :: u64
  freecnt :: u64
  refcnt :: "int \<Rightarrow> u8"

definition refidx :: "u64 \<Rightarrow> int" where
  "refidx pa = sint (ucast (drop_bit 12 (pa - RAMBASE)) :: u32)"

definition kfree :: "u64 \<Rightarrow> 'a kmem_scheme \<Rightarrow> 'a kmem_scheme" where
  "kfree pa s =
     (let i = refidx pa
      in if 1 < refcnt s i
         then s\<lparr>refcnt := (refcnt s)(i := refcnt s i - 1)\<rparr>
         else s\<lparr>refcnt := (refcnt s)(i := 0), mem := st64 (mem s) pa (freelist s),
                freelist := pa, freecnt := freecnt s + 1\<rparr>)"

definition kref_inc :: "u64 \<Rightarrow> 'a kmem_scheme \<Rightarrow> 'a kmem_scheme" where
  "kref_inc pa s = s\<lparr>refcnt := (refcnt s)(refidx pa := refcnt s (refidx pa) + 1)\<rparr>"

definition kalloc :: "'a kmem_scheme \<Rightarrow> u64 \<times> 'a kmem_scheme" where
  "kalloc s =
     (let r = freelist s
      in if r \<noteq> 0
         then (r, s\<lparr>freelist := ld64 (mem s) r, freecnt := freecnt s - 1,
                    refcnt := (refcnt s)(refidx r := 1)\<rparr>)
         else (r, s))"

definition kfreecount :: "'a kmem_scheme \<Rightarrow> u64" where
  "kfreecount s = freecnt s"

text \<open>The loop of \<^verbatim>\<open>kinit\<close>. The words wrap, and still the distance to \<^verbatim>\<open>PHYSTOP\<close> shrinks.\<close>

lemma kinit_measure:
  assumes "p + PGSIZE \<le> PHYSTOP"
  shows "unat (PHYSTOP - (p + PGSIZE)) < unat (PHYSTOP - p)"
proof -
  define d where "d = PHYSTOP - (p + PGSIZE)"
  have "d \<le> PHYSTOP"
    unfolding d_def using assms by (simp add: word_sub_le)
  then have "unat d \<le> 0x88000000" by (simp add: word_le_nat_alt PHYSTOP_def)
  then have "unat (d + PGSIZE) = unat d + 4096" by (simp add: unat_word_ariths)
  moreover have "PHYSTOP - p = d + PGSIZE" by (simp add: d_def)
  ultimately show ?thesis unfolding d_def [symmetric] by simp
qed

function kinit_loop :: "u64 \<Rightarrow> 'a kmem_scheme \<Rightarrow> 'a kmem_scheme" where
  "kinit_loop p s =
     (if p + PGSIZE \<le> PHYSTOP
      then kinit_loop (p + PGSIZE) (kfree p (s\<lparr>refcnt := (refcnt s)(refidx p := 1)\<rparr>))
      else s)"
  by pat_completeness auto
termination
  by (relation "measure (\<lambda>(p, s). unat (PHYSTOP - p))") (auto intro: kinit_measure)

declare kinit_loop.simps [simp del]

text \<open>\<open>kend\<close> is the linker symbol \<^verbatim>\<open>end\<close>, the first address after the kernel image.\<close>

definition kinit :: "u64 \<Rightarrow> 'a kmem_scheme \<Rightarrow> 'a kmem_scheme" where
  "kinit kend s = kinit_loop (PGROUNDUP kend) s"

section \<open>Pages and reference indices\<close>

definition ram_page :: "u64 \<Rightarrow> bool" where
  "ram_page p \<longleftrightarrow> take_bit 12 p = 0 \<and> RAMBASE \<le> p \<and> p < PHYSTOP"

lemma ram_page_aligned: "ram_page p \<Longrightarrow> take_bit 12 p = 0"
  by (simp add: ram_page_def)

lemma ram_page_dword: "ram_page p \<Longrightarrow> take_bit 3 p = 0"
  by (simp add: ram_page_def page_aligned_dword)

lemma ram_page_nonzero: "ram_page p \<Longrightarrow> p \<noteq> 0"
  by (auto simp: ram_page_def RAMBASE_def)

lemma ram_page_bounds: "ram_page p \<Longrightarrow> 0x80000000 \<le> unat p \<and> unat p < 0x88000000"
  by (simp add: ram_page_def RAMBASE_def PHYSTOP_def word_le_nat_alt word_less_nat_alt)

lemma refidx_ram:
  assumes "ram_page p"
  shows "refidx p = int ((unat p - 0x80000000) div 4096)" and "0 \<le> refidx p" and "refidx p < NPAGES"
proof -
  have b: "0x80000000 \<le> unat p" "unat p < 0x88000000"
    using ram_page_bounds [OF assms] by auto
  then have sub: "unat (p - RAMBASE) = unat p - 0x80000000"
    by (simp add: RAMBASE_def unat_sub word_le_nat_alt)
  define k where "k = (unat p - 0x80000000) div 4096"
  have k: "k < 32768" unfolding k_def using b by (simp add: div_less_iff_less_mult)
  have "unat (drop_bit 12 (p - RAMBASE)) = k"
    by (simp add: unat_drop_bit_div sub k_def del: drop_bit_numeral_bit0)
  then have "(ucast (drop_bit 12 (p - RAMBASE)) :: u32) = of_nat k"
    by (metis of_nat_unat)
  then have "refidx p = sint (of_nat k :: u32)" by (simp add: refidx_def)
  also have "\<dots> = int k"
    using k by (simp add: signed_of_nat signed_take_bit_int_eq_self)
  finally show "refidx p = int ((unat p - 0x80000000) div 4096)" by (simp add: k_def)
  then show "0 \<le> refidx p" "refidx p < NPAGES"
    using k by (simp_all add: k_def NPAGES_def PHYSTOP_def RAMBASE_def)
qed

lemma refidx_inject:
  assumes "ram_page p" "ram_page q"
  shows "refidx p = refidx q \<longleftrightarrow> p = q"
proof
  assume "refidx p = refidx q"
  then have "(unat p - 0x80000000) div 4096 = (unat q - 0x80000000) div 4096"
    using assms by (simp add: refidx_ram)
  moreover obtain a b where ab: "unat p = 4096 * a" "unat q = 4096 * b"
    using assms by (auto simp: ram_page_def aligned_iff_dvd elim!: dvdE)
  moreover have "(4096 * k - 0x80000000) div 4096 = k - 0x80000" for k :: nat
    using div_mult_self1_is_m [of 4096 "k - 0x80000"] by (simp add: diff_mult_distrib2)
  ultimately have "a = b"
    using ram_page_bounds [OF assms(1)] ram_page_bounds [OF assms(2)] by auto
  with ab show "p = q" by (metis word_unat_eq_iff)
qed simp


section \<open>The free list as a chain in memory\<close>

fun chain :: "memory \<Rightarrow> u64 \<Rightarrow> u64 list \<Rightarrow> bool" where
  "chain m p [] \<longleftrightarrow> p = 0"
| "chain m p (x # xs) \<longleftrightarrow> p = x \<and> x \<noteq> 0 \<and> chain m (ld64 m x) xs"

definition kmem_ok :: "'a kmem_scheme \<Rightarrow> u64 list \<Rightarrow> bool" where
  "kmem_ok s xs \<longleftrightarrow>
     chain (mem s) (freelist s) xs \<and> distinct xs \<and>
     (\<forall>x \<in> set xs. ram_page x \<and> refcnt s (refidx x) = 0) \<and>
     freecnt s = of_nat (length xs)"

definition refs :: "'a kmem_scheme \<Rightarrow> u64 \<Rightarrow> nat" where
  "refs s p = (if ram_page p then unat (refcnt s (refidx p)) else 0)"

lemma chain_cong:
  "(\<And>x. x \<in> set xs \<Longrightarrow> ld64 m x = ld64 m' x) \<Longrightarrow> chain m p xs = chain m' p xs"
  by (induction xs arbitrary: p) auto

lemma chain_unique: "chain m p xs \<Longrightarrow> chain m p ys \<Longrightarrow> xs = ys"
proof (induction xs arbitrary: p ys)
  case Nil
  then show ?case by (cases ys) auto
next
  case (Cons x xs)
  then show ?case by (cases ys) auto
qed

lemma kmem_ok_D:
  assumes "kmem_ok s xs"
  shows "chain (mem s) (freelist s) xs" "distinct xs" "x \<in> set xs \<Longrightarrow> ram_page x"
    "x \<in> set xs \<Longrightarrow> refcnt s (refidx x) = 0" "freecnt s = of_nat (length xs)"
  using assms by (auto simp: kmem_ok_def)

lemma finite_ram_pages: "finite {p. ram_page p}"
  by (rule finite_subset [OF subset_UNIV]) simp

lemma card_ram_pages: "card {p. ram_page p} \<le> 32768"
proof -
  have "inj_on refidx {p. ram_page p}"
    by (auto simp: inj_on_def refidx_inject)
  moreover have "refidx ` {p. ram_page p} \<subseteq> {0..<32768}"
    using refidx_ram by (auto simp: NPAGES_def PHYSTOP_def RAMBASE_def)
  ultimately have "card {p. ram_page p} \<le> card {0..<32768::int}"
    by (intro card_inj_on_le) auto
  then show ?thesis by simp
qed

lemma kmem_ok_length: "kmem_ok s xs \<Longrightarrow> length xs \<le> 32768"
proof -
  assume ok: "kmem_ok s xs"
  then have "card (set xs) \<le> card {p. ram_page p}"
    by (intro card_mono finite_ram_pages) (auto simp: kmem_ok_def)
  then show ?thesis
    using ok card_ram_pages by (simp add: kmem_ok_def distinct_card)
qed

lemma unat_freecnt: "kmem_ok s xs \<Longrightarrow> unat (freecnt s) = length xs"
  using kmem_ok_length [of s xs] by (simp add: kmem_ok_D(5) unat_of_nat take_bit_nat_eq_self)

lemma kmem_ok_free_iff: "kmem_ok s xs \<Longrightarrow> x \<in> set xs \<Longrightarrow> refs s x = 0"
  by (simp add: refs_def kmem_ok_def)

subsection \<open>What each operation does\<close>

lemma kalloc_empty: "kmem_ok s [] \<Longrightarrow> kalloc s = (0, s)"
  by (simp add: kmem_ok_def kalloc_def Let_def)

lemma kalloc_Cons:
  assumes "kmem_ok s (x # xs)"
  defines "s' \<equiv> s\<lparr>freelist := ld64 (mem s) x, freecnt := freecnt s - 1,
      refcnt := (refcnt s)(refidx x := 1)\<rparr>"
  shows "kalloc s = (x, s')" "kmem_ok s' xs" "refs s' = (refs s)(x := 1)"
proof -
  note ok = assms(1) [unfolded kmem_ok_def]
  show "kalloc s = (x, s')"
    using ok by (simp add: kalloc_def Let_def s'_def)
  show "kmem_ok s' xs"
    using ok by (auto simp: kmem_ok_def s'_def refidx_inject)
  show "refs s' = (refs s)(x := 1)"
    using ok by (auto simp: refs_def s'_def refidx_inject)
qed

lemma kfree_shared:
  assumes "kmem_ok s xs" "1 < refs s p"
  shows "kmem_ok (kfree p s) xs" "refs (kfree p s) = (refs s)(p := refs s p - 1)"
    "mem (kfree p s) = mem s"
proof -
  from assms(2) have p: "ram_page p" and more: "1 < refcnt s (refidx p)"
    by (auto simp: refs_def word_less_nat_alt split: if_splits)
  then have dec: "unat (refcnt s (refidx p) - 1) = unat (refcnt s (refidx p)) - 1"
    by (intro unat_minus_one) auto
  from assms(1) more p have "\<forall>x \<in> set xs. refidx x \<noteq> refidx p"
    by (auto simp: kmem_ok_def)
  then show "kmem_ok (kfree p s) xs"
    using assms(1) more by (auto simp: kmem_ok_def kfree_def Let_def)
  show "refs (kfree p s) = (refs s)(p := refs s p - 1)"
    using more p dec by (auto simp: refs_def kfree_def Let_def refidx_inject)
  show "mem (kfree p s) = mem s"
    using more by (simp add: kfree_def Let_def)
qed

lemma kfree_last:
  assumes "kmem_ok s xs" "ram_page p" "p \<notin> set xs" "refs s p \<le> 1"
  shows "kmem_ok (kfree p s) (p # xs)" "refs (kfree p s) = (refs s)(p := 0)"
    "page_no a \<noteq> page_no p \<Longrightarrow> mem (kfree p s) a = mem s a"
proof -
  from assms(2,4) have last: "\<not> 1 < refcnt s (refidx p)"
    by (simp add: refs_def word_less_nat_alt)
  have "chain (st64 (mem s) p (freelist s)) (freelist s) xs = chain (mem s) (freelist s) xs"
    using assms by (intro chain_cong ld64_st64_other ram_page_dword) (auto simp: kmem_ok_def)
  then show "kmem_ok (kfree p s) (p # xs)"
    using assms last by (auto simp: kmem_ok_def kfree_def Let_def ram_page_nonzero)
  show "refs (kfree p s) = (refs s)(p := 0)"
    using assms(2) last by (auto simp: refs_def kfree_def Let_def refidx_inject)
  show "mem (kfree p s) a = mem s a" if "page_no a \<noteq> page_no p"
    using that last assms(2) by (simp add: kfree_def Let_def st64_page ram_page_dword)
qed

lemma kref_inc_ok:
  assumes "kmem_ok s xs" "0 < refs s p" "refs s p < 255"
  shows "kmem_ok (kref_inc p s) xs" "refs (kref_inc p s) = (refs s)(p := refs s p + 1)"
    "mem (kref_inc p s) = mem s"
proof -
  from assms(2) have p: "ram_page p" by (auto simp: refs_def split: if_splits)
  with assms have "\<forall>x \<in> set xs. refidx x \<noteq> refidx p"
    by (auto simp: kmem_ok_def refs_def refidx_inject)
  then show "kmem_ok (kref_inc p s) xs"
    using assms(1) by (auto simp: kmem_ok_def kref_inc_def)
  have "unat (refcnt s (refidx p) + 1) = unat (refcnt s (refidx p)) + 1"
    using assms(3) p by (simp add: refs_def unat_word_ariths)
  then show "refs (kref_inc p s) = (refs s)(p := refs s p + 1)"
    using p by (auto simp: refs_def kref_inc_def refidx_inject)
  show "mem (kref_inc p s) = mem s" by (simp add: kref_inc_def)
qed


section \<open>The allocator's contract\<close>

text \<open>
  What the clients (\<^verbatim>\<open>vm.c\<close>, \<^verbatim>\<open>proc.c\<close>, the drivers) rely on: \<open>refs\<close> counts the holders of
  each page, \<open>avail\<close> the pages left, \<open>byte\<close> reads the RAM. An allocation takes a page
  nobody holds and touches no byte; giving one reference back writes at most inside that page.
\<close>

locale page_pool =
  fixes alloc :: "'s \<Rightarrow> u64 \<times> 's" and free :: "u64 \<Rightarrow> 's \<Rightarrow> 's" and share :: "u64 \<Rightarrow> 's \<Rightarrow> 's"
    and good :: "'s \<Rightarrow> bool" and holders :: "'s \<Rightarrow> u64 \<Rightarrow> nat" and avail :: "'s \<Rightarrow> nat"
    and byte :: "'s \<Rightarrow> u64 \<Rightarrow> u8"
  assumes alloc_none: "good s \<Longrightarrow> avail s = 0 \<Longrightarrow> alloc s = (0, s)"
    and alloc_some: "good s \<Longrightarrow> 0 < avail s \<Longrightarrow> \<exists>p s'. alloc s = (p, s') \<and> p \<noteq> 0 \<and> good s' \<and>
          holders s p = 0 \<and> holders s' = (holders s)(p := 1) \<and> Suc (avail s') = avail s \<and> byte s' = byte s"
    and free_held: "good s \<Longrightarrow> 0 < holders s p \<Longrightarrow> good (free p s) \<and>
          holders (free p s) = (holders s)(p := holders s p - 1) \<and>
          avail (free p s) = avail s + (if holders s p = 1 then 1 else 0) \<and>
          (\<forall>a. page_no a \<noteq> page_no p \<or> 1 < holders s p \<longrightarrow> byte (free p s) a = byte s a)"
    and share_held: "good s \<Longrightarrow> 0 < holders s p \<Longrightarrow> holders s p < 255 \<Longrightarrow> good (share p s) \<and>
          holders (share p s) = (holders s)(p := holders s p + 1) \<and> avail (share p s) = avail s \<and>
          byte (share p s) = byte s"
    and finite_held: "finite {p. 0 < holders s p}"
begin

abbreviation in_use :: "'s \<Rightarrow> nat" where
  "in_use s \<equiv> card {p. 0 < holders s p}"

lemma alloc_conserves:
  assumes "good s" "alloc s = (p, s')"
  shows "good s'" "avail s' + in_use s' = avail s + in_use s" "p \<noteq> 0 \<Longrightarrow> holders s p = 0"
proof -
  consider "avail s = 0" "p = 0" "s' = s" | "p \<noteq> 0" "good s'" "holders s p = 0"
      "holders s' = (holders s)(p := 1)" "Suc (avail s') = avail s"
    using alloc_none [OF assms(1)] alloc_some [OF assms(1)] assms(2) by fastforce
  then have "good s' \<and> avail s' + in_use s' = avail s + in_use s \<and> (p \<noteq> 0 \<longrightarrow> holders s p = 0)"
  proof cases
    case 2
    then have "{q. 0 < holders s' q} = insert p {q. 0 < holders s q}" by auto
    then have "in_use s' = Suc (in_use s)"
      using 2 finite_held [of s] by simp
    with 2 show ?thesis by simp
  qed (use assms in simp)
  then show "good s'" "avail s' + in_use s' = avail s + in_use s" "p \<noteq> 0 \<Longrightarrow> holders s p = 0"
    by auto
qed

lemma free_conserves:
  assumes "good s" "0 < holders s p"
  shows "good (free p s)" "avail (free p s) + in_use (free p s) = avail s + in_use s"
proof -
  note f = free_held [OF assms]
  show "good (free p s)" using f by simp
  show "avail (free p s) + in_use (free p s) = avail s + in_use s"
  proof (cases "holders s p = 1")
    case True
    then have "{q. 0 < holders s q} = insert p {q. 0 < holders (free p s) q}"
      using f by auto
    moreover have "p \<notin> {q. 0 < holders (free p s) q}" using f True by simp
    ultimately have "in_use s = Suc (in_use (free p s))"
      using finite_held [of "free p s"] by simp
    then show ?thesis using f True by simp
  next
    case False
    then have "{q. 0 < holders (free p s) q} = {q. 0 < holders s q}"
      using f assms(2) by auto
    then show ?thesis using f False by simp
  qed
qed

lemma share_conserves:
  assumes "good s" "0 < holders s p" "holders s p < 255"
  shows "good (share p s)" "avail (share p s) + in_use (share p s) = avail s + in_use s"
proof -
  note f = share_held [OF assms]
  then have "{q. 0 < holders (share p s) q} = {q. 0 < holders s q}"
    using assms(2) by auto
  with f show "good (share p s)" "avail (share p s) + in_use (share p s) = avail s + in_use s"
    by simp_all
qed

lemma share_then_free:
  assumes "good s" "0 < holders s p" "holders s p < 255"
  shows "holders (free p (share p s)) = holders s" "byte (free p (share p s)) = byte s"
proof -
  note f = share_held [OF assms]
  have "holders (share p s) p = holders s p + 1" using f by simp
  moreover note free_held [of "share p s" p]
  ultimately show "holders (free p (share p s)) = holders s" "byte (free p (share p s)) = byte s"
    using f assms by (auto simp: fun_eq_iff)
qed

end

definition kmem_good :: "'a kmem_scheme \<Rightarrow> bool" where
  "kmem_good s \<longleftrightarrow> (\<exists>xs. kmem_ok s xs)"

lemma held_not_free: "kmem_ok s xs \<Longrightarrow> 0 < refs s p \<Longrightarrow> ram_page p \<and> p \<notin> set xs"
  using kmem_ok_free_iff [of s xs p] by (auto simp: refs_def split: if_splits)

interpretation kp: page_pool kalloc kfree kref_inc kmem_good refs "\<lambda>s. unat (kfreecount s)" mem
proof
  fix s :: "'a kmem_scheme"
  assume "kmem_good s" "unat (kfreecount s) = 0"
  then show "kalloc s = (0, s)"
    by (auto simp: kmem_good_def kfreecount_def unat_freecnt dest: kalloc_empty)
next
  fix s :: "'a kmem_scheme"
  assume "kmem_good s" "0 < unat (kfreecount s)"
  then obtain xs where ok: "kmem_ok s xs" and "xs \<noteq> []"
    by (auto simp: kmem_good_def kfreecount_def unat_freecnt)
  then obtain x ys where [simp]: "xs = x # ys" by (cases xs) auto
  define s' where "s' = s\<lparr>freelist := ld64 (mem s) x, freecnt := freecnt s - 1,
      refcnt := (refcnt s)(refidx x := 1)\<rparr>"
  note a = kalloc_Cons [of s x ys, folded s'_def]
  have "kalloc s = (x, s')" "kmem_ok s' ys" "refs s' = (refs s)(x := 1)" "x \<noteq> 0" "refs s x = 0"
    using a ok kmem_ok_D(3) [OF ok, of x] kmem_ok_free_iff [OF ok, of x] ram_page_nonzero [of x] by auto
  moreover have "Suc (unat (kfreecount s')) = unat (kfreecount s)"
    using unat_freecnt [OF ok] unat_freecnt [OF \<open>kmem_ok s' ys\<close>] by (simp add: kfreecount_def)
  moreover have "mem s' = mem s" by (simp add: s'_def)
  ultimately show "\<exists>p s'. kalloc s = (p, s') \<and> p \<noteq> 0 \<and> kmem_good s' \<and> refs s p = 0 \<and>
      refs s' = (refs s)(p := 1) \<and> Suc (unat (kfreecount s')) = unat (kfreecount s) \<and> mem s' = mem s"
    unfolding kmem_good_def by blast
next
  fix s :: "'a kmem_scheme" and p
  assume "kmem_good s" and held: "0 < refs s p"
  then obtain xs where ok: "kmem_ok s xs" by (auto simp: kmem_good_def)
  note p = held_not_free [OF ok held]
  show "kmem_good (kfree p s) \<and> refs (kfree p s) = (refs s)(p := refs s p - 1) \<and>
     unat (kfreecount (kfree p s)) = unat (kfreecount s) + (if refs s p = 1 then 1 else 0) \<and>
     (\<forall>a. page_no a \<noteq> page_no p \<or> 1 < refs s p \<longrightarrow> mem (kfree p s) a = mem s a)"
  proof (cases "1 < refs s p")
    case True
    note f = kfree_shared [OF ok True]
    with True show ?thesis
      using unat_freecnt [OF ok] unat_freecnt [OF f(1)] by (auto simp: kmem_good_def kfreecount_def)
  next
    case False
    then have one: "refs s p = 1" using held by simp
    note f = kfree_last [OF ok conjunct1 [OF p] conjunct2 [OF p], unfolded one, simplified]
    with one show ?thesis
      using unat_freecnt [OF ok] unat_freecnt [OF f(1)] by (auto simp: kmem_good_def kfreecount_def)
  qed
next
  fix s :: "'a kmem_scheme" and p
  assume "kmem_good s" "0 < refs s p" "refs s p < 255"
  then obtain xs where ok: "kmem_ok s xs" by (auto simp: kmem_good_def)
  note f = kref_inc_ok [OF ok \<open>0 < refs s p\<close> \<open>refs s p < 255\<close>]
  then show "kmem_good (kref_inc p s) \<and> refs (kref_inc p s) = (refs s)(p := refs s p + 1) \<and>
     unat (kfreecount (kref_inc p s)) = unat (kfreecount s) \<and> mem (kref_inc p s) = mem s"
    using unat_freecnt [OF ok] unat_freecnt [OF f(1)] by (auto simp: kmem_good_def kfreecount_def)
next
  fix s :: "'a kmem_scheme"
  show "finite {p. 0 < refs s p}"
    by (rule finite_subset [OF subset_UNIV]) simp
qed


section \<open>Building the pool at boot\<close>

lemma next_page:
  assumes "take_bit 12 p = 0" "RAMBASE \<le> p" "p < PHYSTOP"
  shows "take_bit 12 (p + PGSIZE) = 0" "p + PGSIZE \<le> PHYSTOP" "unat (p + PGSIZE) = unat p + 4096"
    "ram_page q \<Longrightarrow> p \<le> q \<longleftrightarrow> q = p \<or> p + PGSIZE \<le> q"
proof -
  have b: "unat p < 0x88000000" "4096 dvd unat p"
    using assms by (simp_all add: PHYSTOP_def word_less_nat_alt aligned_iff_dvd)
  then show u: "unat (p + PGSIZE) = unat p + 4096" by (simp add: unat_word_ariths)
  then show "take_bit 12 (p + PGSIZE) = 0"
    using b by (simp add: aligned_iff_dvd)
  have "(4096::nat) dvd 0x88000000" by (rule dvdI [of _ _ "0x88000"]) simp
  with b show "p + PGSIZE \<le> PHYSTOP"
    unfolding word_le_nat_alt u by (auto simp: PHYSTOP_def elim!: dvdE)
  show "p \<le> q \<longleftrightarrow> q = p \<or> p + PGSIZE \<le> q" if "ram_page q"
  proof -
    have "4096 dvd unat q" using that by (simp add: ram_page_def aligned_iff_dvd)
    with b(2) show ?thesis
      unfolding word_le_nat_alt u word_unat_eq_iff [of q p] by (auto elim!: dvdE)
  qed
qed

lemma kfree_one:
  assumes "kmem_ok s xs" "ram_page p" "p \<notin> set xs"
  shows "kmem_ok (kfree p (s\<lparr>refcnt := (refcnt s)(refidx p := 1)\<rparr>)) (p # xs)"
proof (rule kfree_last)
  show "kmem_ok (s\<lparr>refcnt := (refcnt s)(refidx p := 1)\<rparr>) xs"
    using assms by (auto simp: kmem_ok_def refidx_inject)
qed (use assms in \<open>simp_all add: refs_def\<close>)

lemma kinit_loop_ok:
  "take_bit 12 p = 0 \<Longrightarrow> RAMBASE \<le> p \<Longrightarrow> p \<le> PHYSTOP \<Longrightarrow> kmem_ok s xs \<Longrightarrow> \<forall>x \<in> set xs. x < p \<Longrightarrow>
     \<exists>ys. kmem_ok (kinit_loop p s) ys \<and> set ys = set xs \<union> {q. ram_page q \<and> p \<le> q}"
proof (induction p s arbitrary: xs rule: kinit_loop.induct)
  case (1 p s)
  show ?case
  proof (cases "p = PHYSTOP")
    case True
    then have "\<not> p + PGSIZE \<le> PHYSTOP" by (simp add: PHYSTOP_def)
    moreover have "{q. ram_page q \<and> p \<le> q} = {}" using True by (auto simp: ram_page_def)
    ultimately show ?thesis
      using "1.prems" kinit_loop.simps [of p s] by auto
  next
    case False
    then have lt: "p < PHYSTOP" using "1.prems"(3) by simp
    note np = next_page [OF "1.prems"(1,2) lt]
    let ?s = "kfree p (s\<lparr>refcnt := (refcnt s)(refidx p := 1)\<rparr>)"
    have ram: "ram_page p" using "1.prems" lt by (simp add: ram_page_def)
    have ok: "kmem_ok ?s (p # xs)"
      using "1.prems" ram by (intro kfree_one) auto
    have above: "p < p + PGSIZE" unfolding word_less_nat_alt np(3) by simp
    then have "\<forall>x \<in> set (p # xs). x < p + PGSIZE" using "1.prems"(5) by auto
    moreover have "RAMBASE \<le> p + PGSIZE" using "1.prems"(2) above by simp
    ultimately obtain ys where ys: "kmem_ok (kinit_loop (p + PGSIZE) ?s) ys"
        "set ys = set (p # xs) \<union> {q. ram_page q \<and> p + PGSIZE \<le> q}"
      using "1.IH" [OF np(2) np(1) _ np(2) ok] by blast
    moreover have "kinit_loop p s = kinit_loop (p + PGSIZE) ?s"
      using np(2) kinit_loop.simps [of p s] by simp
    moreover have "{q. ram_page q \<and> p \<le> q} = insert p {q. ram_page q \<and> p + PGSIZE \<le> q}"
      using ram np(4) by auto
    ultimately show ?thesis by auto
  qed
qed

text \<open>The links of the free list are the only bytes written.\<close>

lemma kinit_loop_mem:
  "take_bit 12 p = 0 \<Longrightarrow> RAMBASE \<le> p \<Longrightarrow> p \<le> PHYSTOP \<Longrightarrow> kmem_ok s xs \<Longrightarrow> \<forall>x \<in> set xs. x < p \<Longrightarrow>
     \<forall>q. ram_page q \<and> p \<le> q \<longrightarrow> page_no a \<noteq> page_no q \<Longrightarrow> mem (kinit_loop p s) a = mem s a"
proof (induction p s arbitrary: xs rule: kinit_loop.induct)
  case (1 p s)
  show ?case
  proof (cases "p = PHYSTOP")
    case True
    then have "\<not> p + PGSIZE \<le> PHYSTOP" by (simp add: PHYSTOP_def)
    then show ?thesis using kinit_loop.simps [of p s] by simp
  next
    case False
    then have lt: "p < PHYSTOP" using "1.prems"(3) by simp
    note np = next_page [OF "1.prems"(1,2) lt]
    let ?t = "s\<lparr>refcnt := (refcnt s)(refidx p := 1)\<rparr>"
    have ram: "ram_page p" using "1.prems" lt by (simp add: ram_page_def)
    have p: "p \<notin> set xs" using "1.prems"(5) by auto
    have ok: "kmem_ok (kfree p ?t) (p # xs)" using "1.prems"(4) ram p by (rule kfree_one)
    have above: "p < p + PGSIZE" unfolding word_less_nat_alt np(3) by simp
    then have "\<forall>x \<in> set (p # xs). x < p + PGSIZE" "RAMBASE \<le> p + PGSIZE" using "1.prems"(2,5) by auto
    moreover have "\<forall>q. ram_page q \<and> p + PGSIZE \<le> q \<longrightarrow> page_no a \<noteq> page_no q" using "1.prems"(6) above by (meson less_imp_le order_trans)
    ultimately have "mem (kinit_loop (p + PGSIZE) (kfree p ?t)) a = mem (kfree p ?t) a"
      using "1.IH" [OF np(2) np(1) _ np(2) ok] by blast
    moreover have "mem (kfree p ?t) a = mem ?t a"
    proof (rule kfree_last(3))
      show "kmem_ok ?t xs" using "1.prems"(4) ram p by (auto simp: kmem_ok_def refidx_inject)
      show "refs ?t p \<le> 1" by (simp add: refs_def)
      show "page_no a \<noteq> page_no p" using "1.prems"(6) ram by simp
    qed (use ram p in simp_all)
    moreover have "kinit_loop p s = kinit_loop (p + PGSIZE) (kfree p ?t)"
      using np(2) kinit_loop.simps [of p s] by simp
    ultimately show ?thesis by simp
  qed
qed

lemma unat_PGROUNDUP:
  assumes "a \<le> PHYSTOP"
  shows "unat (PGROUNDUP a) = (unat a + 4095) div 4096 * 4096"
proof -
  have "unat a \<le> 0x88000000" using assms by (simp add: PHYSTOP_def word_le_nat_alt)
  then have "unat (a + PGSIZE - 1) = unat a + 4095" by (simp add: unat_word_ariths)
  then show ?thesis
    using unat_round_down [of "a + PGSIZE - 1"] by (simp add: PGROUNDUP_def)
qed

lemma PGROUNDUP_props:
  assumes "RAMBASE \<le> a" "a \<le> PHYSTOP"
  shows "take_bit 12 (PGROUNDUP a) = 0" "RAMBASE \<le> PGROUNDUP a" "PGROUNDUP a \<le> PHYSTOP"
    "ram_page q \<Longrightarrow> PGROUNDUP a \<le> q \<longleftrightarrow> a \<le> q"
proof -
  have b: "0x80000000 \<le> unat a" "unat a \<le> 0x88000000"
    using assms by (simp_all add: RAMBASE_def PHYSTOP_def word_le_nat_alt)
  show "take_bit 12 (PGROUNDUP a) = 0"
    using round_down_aligned [of "a + PGSIZE - 1"] by (simp add: PGROUNDUP_def)
  show "RAMBASE \<le> PGROUNDUP a" "PGROUNDUP a \<le> PHYSTOP"
    using b by (simp_all add: word_le_nat_alt unat_PGROUNDUP assms RAMBASE_def PHYSTOP_def)
  show "PGROUNDUP a \<le> q \<longleftrightarrow> a \<le> q" if "ram_page q"
  proof -
    have "4096 dvd unat q" using that by (simp add: ram_page_def aligned_iff_dvd)
    then obtain k where "unat q = 4096 * k" by (elim dvdE)
    then show ?thesis
      by (simp add: word_le_nat_alt unat_PGROUNDUP [OF assms(2)]) linarith
  qed
qed

lemma kinit_ok:
  assumes "RAMBASE \<le> kend" "kend \<le> PHYSTOP" "freelist s = 0" "freecnt s = 0" "refcnt s = (\<lambda>_. 0)"
  shows "\<exists>xs. kmem_ok (kinit kend s) xs \<and> set xs = {q. ram_page q \<and> kend \<le> q}"
    "\<forall>q. ram_page q \<and> kend \<le> q \<longrightarrow> page_no a \<noteq> page_no q \<Longrightarrow> mem (kinit kend s) a = mem s a"
proof -
  note up = PGROUNDUP_props [OF assms(1,2)]
  have s: "kmem_ok s []" using assms by (simp add: kmem_ok_def)
  then obtain xs where "kmem_ok (kinit kend s) xs" "set xs = {q. ram_page q \<and> PGROUNDUP kend \<le> q}"
    using kinit_loop_ok [OF up(1-3)] by (fastforce simp: kinit_def)
  moreover have "{q. ram_page q \<and> PGROUNDUP kend \<le> q} = {q. ram_page q \<and> kend \<le> q}" using up(4) by auto
  ultimately show "\<exists>xs. kmem_ok (kinit kend s) xs \<and> set xs = {q. ram_page q \<and> kend \<le> q}" by auto
  assume "\<forall>q. ram_page q \<and> kend \<le> q \<longrightarrow> page_no a \<noteq> page_no q"
  then have "\<forall>q. ram_page q \<and> PGROUNDUP kend \<le> q \<longrightarrow> page_no a \<noteq> page_no q" using up(4) by blast
  then show "mem (kinit kend s) a = mem s a" using kinit_loop_mem [OF up(1-3) s, of a] by (simp add: kinit_def)
qed

text \<open>How many pages there are from an address to the end of the RAM.\<close>

lemma pages_above:
  assumes "RAMBASE \<le> e" "unat e + 4096 * n \<le> 0x88000000"
  shows "n \<le> card {q. ram_page q \<and> e \<le> q}"
proof -
  let ?g = "\<lambda>i. of_nat (0x88000000 - 4096 * Suc i) :: u64"
  have u: "unat (?g i) = 0x88000000 - 4096 * Suc i" for i
    by (simp only: unat_of_nat) (rule mod_less, simp)
  have e: "0x80000000 \<le> unat e" using assms(1) by (simp add: RAMBASE_def word_le_nat_alt)
  have "inj_on ?g {..<n}"
  proof (rule inj_onI)
    fix i j assume "i \<in> {..<n}" "j \<in> {..<n}" and eq: "?g i = ?g j"
    then have "4096 * Suc i \<le> 0x88000000" "4096 * Suc j \<le> 0x88000000" using assms(2) e by auto
    moreover have "0x88000000 - 4096 * Suc i = 0x88000000 - 4096 * Suc j" using arg_cong [OF eq, of unat] unfolding u .
    ultimately show "i = j" by simp
  qed
  then have "n = card (?g ` {..<n})" by (simp add: card_image)
  also have "\<dots> \<le> card {q. ram_page q \<and> e \<le> q}"
  proof (rule card_mono)
    show "finite {q. ram_page q \<and> e \<le> q}" using finite_ram_pages by (rule rev_finite_subset) auto
    show "?g ` {..<n} \<subseteq> {q. ram_page q \<and> e \<le> q}"
    proof
      fix q assume "q \<in> ?g ` {..<n}"
      then obtain i where i: "unat q = 0x88000000 - 4096 * Suc i" "i < n" using u by auto
      have "unat e \<le> unat q" "unat q < 0x88000000" using assms(2) e i by auto
      moreover have "4096 dvd unat q" unfolding i(1) by (intro dvd_diff_nat) simp_all
      ultimately show "q \<in> {q. ram_page q \<and> e \<le> q}"
        using e by (simp add: ram_page_def aligned_iff_dvd RAMBASE_def PHYSTOP_def word_le_nat_alt word_less_nat_alt)
    qed
  qed
  finally show ?thesis .
qed

text \<open>
  Claim C3. Boot: started with an empty list and cleared counts, \<^verbatim>\<open>kinit\<close> leaves a free list
  in memory that is a proper null-terminated chain and holds exactly the RAM pages from the end
  of the kernel image to \<^verbatim>\<open>PHYSTOP\<close>, each once, with the free counter equal to their number.
\<close>

theorem kinit_builds_pool:
  assumes "RAMBASE \<le> kend" "kend \<le> PHYSTOP"
    and "freelist s = 0" "freecnt s = 0" "refcnt s = (\<lambda>_. 0)"
  shows "\<exists>xs. chain (mem (kinit kend s)) (freelist (kinit kend s)) xs \<and> distinct xs \<and>
    set xs = {q. ram_page q \<and> kend \<le> q} \<and> unat (kfreecount (kinit kend s)) = length xs"
proof -
  obtain xs where xs: "kmem_ok (kinit kend s) xs" "set xs = {q. ram_page q \<and> kend \<le> q}" using kinit_ok(1) [OF assms] by blast
  then show ?thesis using unat_freecnt [OF xs(1)] kmem_ok_D(1,2) [OF xs(1)] by (auto simp: kfreecount_def)
qed

definition boot_kmem :: kmem where
  "boot_kmem = \<lparr>mem = (\<lambda>_. 0), freelist = 0, freecnt = 0, refcnt = (\<lambda>_. 0)\<rparr>"

theorem kinit_builds_pool_witness:
  "\<exists>xs. chain (mem (kinit 0x80234567 boot_kmem)) (freelist (kinit 0x80234567 boot_kmem)) xs \<and>
     distinct xs \<and> set xs = {q. ram_page q \<and> 0x80234567 \<le> q} \<and>
     unat (kfreecount (kinit 0x80234567 boot_kmem)) = length xs"
  by (rule kinit_builds_pool) (simp_all add: boot_kmem_def RAMBASE_def PHYSTOP_def)

section \<open>Clients that free what they hold\<close>

inductive pool_reach :: "kmem \<Rightarrow> kmem \<Rightarrow> bool" for s0 where
  pool_start: "pool_reach s0 s0"
| pool_alloc: "pool_reach s0 s \<Longrightarrow> pool_reach s0 (snd (kalloc s))"
| pool_free: "pool_reach s0 s \<Longrightarrow> 0 < refs s p \<Longrightarrow> pool_reach s0 (kfree p s)"
| pool_share: "pool_reach s0 s \<Longrightarrow> 0 < refs s p \<Longrightarrow> refs s p < 255 \<Longrightarrow> pool_reach s0 (kref_inc p s)"

lemma pool_reach_conserves:
  "pool_reach s0 s \<Longrightarrow> kmem_good s0 \<Longrightarrow>
     kmem_good s \<and> unat (kfreecount s) + kp.in_use s = unat (kfreecount s0) + kp.in_use s0"
proof (induction rule: pool_reach.induct)
  case (pool_alloc s)
  then show ?case
    using kp.alloc_conserves [of s "fst (kalloc s)" "snd (kalloc s)"] by auto
next
  case (pool_free s p)
  then show ?case using kp.free_conserves [of s p] by auto
next
  case (pool_share s p)
  then show ?case using kp.share_conserves [of s p] by auto
qed simp

text \<open>
  Claim C4. No page twice, none lost: along any sequence of \<^verbatim>\<open>kalloc\<close>, \<^verbatim>\<open>kref_inc\<close> and
  \<^verbatim>\<open>kfree\<close> calls by clients that share and free only pages they hold (and never more than 255
  times), the free pages and the pages in use always add up to the same number; and a page that
  \<^verbatim>\<open>kalloc\<close> returns had no holder, has exactly one afterwards, and no byte of RAM changed.
\<close>

theorem kalloc_exclusive:
  assumes "kmem_good s0" "pool_reach s0 s" "kalloc s = (p, s')" "p \<noteq> 0"
  shows "refs s p = 0 \<and> refs s' = (refs s)(p := 1) \<and> mem s' = mem s \<and>
    unat (kfreecount s') + card {q. 0 < refs s' q} = unat (kfreecount s0) + card {q. 0 < refs s0 q}"
proof -
  note s = pool_reach_conserves [OF assms(2,1)]
  have "unat (kfreecount s) \<noteq> 0"
    using kp.alloc_none [of s] s assms(3,4) by auto
  then have "refs s' = (refs s)(p := 1) \<and> mem s' = mem s"
    using kp.alloc_some [of s] s assms(3) by auto
  moreover have "refs s p = 0" "unat (kfreecount s') + kp.in_use s' = unat (kfreecount s) + kp.in_use s"
    using kp.alloc_conserves [OF conjunct1 [OF s] assms(3)] assms(4) by auto
  ultimately show ?thesis using s by simp
qed


text \<open>A pool of two pages, the later one first in the list.\<close>

definition two_pages :: kmem where
  "two_pages = \<lparr>mem = st64 (\<lambda>_. 0) 0x87fff000 0x87ffe000, freelist = 0x87fff000, freecnt = 2,
     refcnt = (\<lambda>_. 0)\<rparr>"

lemma two_pages_ok: "kmem_ok two_pages [0x87fff000, 0x87ffe000]"
proof -
  have "ld64 (mem two_pages) 0x87fff000 = 0x87ffe000"
    by (simp add: two_pages_def)
  moreover have "ld64 (mem two_pages) 0x87ffe000 = 0"
    unfolding two_pages_def by (simp add: ld64_st64_other) (simp add: ld64_def un_le64_def)
  ultimately show ?thesis
    by (simp add: kmem_ok_def) (simp add: two_pages_def ram_page_def RAMBASE_def PHYSTOP_def)
qed

theorem kalloc_exclusive_witness:
  "refs (snd (kalloc two_pages)) 0x87ffe000 = 0 \<and>
   refs (snd (kalloc (snd (kalloc two_pages)))) 0x87ffe000 = 1"
proof -
  have good: "kmem_good two_pages" using two_pages_ok by (auto simp: kmem_good_def)
  have reach: "pool_reach two_pages (snd (kalloc two_pages))"
    by (rule pool_alloc [OF pool_start])
  have "fst (kalloc (snd (kalloc two_pages))) = 0x87ffe000"
    by (simp add: kalloc_def two_pages_def Let_def)
  then have second: "kalloc (snd (kalloc two_pages)) = (0x87ffe000, snd (kalloc (snd (kalloc two_pages))))"
    by (metis prod.collapse)
  show ?thesis
    using kalloc_exclusive [OF good reach second] by simp
qed

end
