(* ===== verification/KallocSmp.thy ===== *)
theory KallocSmp
  imports Kalloc "HOL-Library.Multiset"
begin

text \<open>
  Several harts in the allocator (\<^verbatim>\<open>kalloc.c\<close>). The bodies of \<^verbatim>\<open>kalloc\<close>, \<^verbatim>\<open>kfree\<close> and \<^verbatim>\<open>kref_inc\<close>
  are cut at every access to the shared data and run as critical sections on the machine of
  \<open>Spinlock\<close>, any hart taking a step between two accesses of another. What the callers promise
  (\<^verbatim>\<open>vm.c\<close>, \<^verbatim>\<open>proc.c\<close> and the drivers free and share only pages they refer to) is a condition on
  starting a call, not a test inside the code.
\<close>

section \<open>The three bodies, access by access\<close>

text \<open>
  \<open>reg\<close> is the local pointer \<^verbatim>\<open>r\<close> of the hart in the section; \<open>cnt\<close> and \<open>tmp\<close> are the registers
  that hold what it has read of \<^verbatim>\<open>refcnt[i]\<close> and \<^verbatim>\<open>freecnt\<close> until the changed value is stored.
\<close>

record kshared = kmem +
  reg :: u64
  cnt :: u8
  tmp :: u64

definition kalloc_section :: "kshared csection" where
  "kalloc_section =
     [\<lambda>s. s\<lparr>reg := freelist s\<rparr>,
      \<lambda>s. if reg s \<noteq> 0 then s\<lparr>freelist := ld64 (mem s) (reg s)\<rparr> else s,
      \<lambda>s. if reg s \<noteq> 0 then s\<lparr>tmp := freecnt s\<rparr> else s,
      \<lambda>s. if reg s \<noteq> 0 then s\<lparr>freecnt := tmp s - 1\<rparr> else s,
      \<lambda>s. if reg s \<noteq> 0 then s\<lparr>refcnt := (refcnt s)(refidx (reg s) := 1)\<rparr> else s]"

definition kfree_section :: "u64 \<Rightarrow> kshared csection" where
  "kfree_section p =
     [\<lambda>s. s\<lparr>cnt := refcnt s (refidx p)\<rparr>,
      \<lambda>s. if 1 < cnt s then s\<lparr>refcnt := (refcnt s)(refidx p := cnt s - 1)\<rparr>
          else s\<lparr>refcnt := (refcnt s)(refidx p := 0)\<rparr>,
      \<lambda>s. if 1 < cnt s then s else s\<lparr>mem := st64 (mem s) p (freelist s)\<rparr>,
      \<lambda>s. if 1 < cnt s then s else s\<lparr>freelist := p\<rparr>,
      \<lambda>s. if 1 < cnt s then s else s\<lparr>tmp := freecnt s\<rparr>,
      \<lambda>s. if 1 < cnt s then s else s\<lparr>freecnt := tmp s + 1\<rparr>]"

definition kref_inc_section :: "u64 \<Rightarrow> kshared csection" where
  "kref_inc_section p =
     [\<lambda>s. s\<lparr>cnt := refcnt s (refidx p)\<rparr>,
      \<lambda>s. s\<lparr>refcnt := (refcnt s)(refidx p := cnt s + 1)\<rparr>]"

datatype kop = K_alloc | K_free u64 | K_ref_inc u64

fun ksection :: "kop \<Rightarrow> kshared csection" where
  "ksection K_alloc = kalloc_section"
| "ksection (K_free p) = kfree_section p"
| "ksection (K_ref_inc p) = kref_inc_section p"

text \<open>A section run without interruption is the operation of \<open>Kalloc\<close>, up to the local registers.\<close>

definition locals :: "u64 \<Rightarrow> u8 \<Rightarrow> u64 \<Rightarrow> kshared \<Rightarrow> kshared" where
  "locals r c t s = s\<lparr>reg := r, cnt := c, tmp := t\<rparr>"

lemma locals_ok [simp]:
  "kmem_good (locals r c t s) = kmem_good s" "refs (locals r c t s) = refs s"
  "kfreecount (locals r c t s) = kfreecount s" "reg (locals r c t s) = r"
  by (simp_all add: locals_def kmem_good_def kmem_ok_def refs_def fun_eq_iff kfreecount_def)

lemma kalloc_section_run:
  obtains c t where "run_section kalloc_section s = locals (fst (kalloc s)) c t (snd (kalloc s))"
proof (cases "freelist s = 0")
  case True
  then show thesis using that [of "cnt s" "tmp s"]
    by (simp add: kalloc_section_def kalloc_def locals_def Let_def)
next
  case False
  then show thesis using that [of "cnt s" "freecnt s"]
    by (simp add: kalloc_section_def kalloc_def locals_def Let_def)
qed

lemma kfree_section_run:
  obtains r c t where "run_section (kfree_section p) s = locals r c t (kfree p s)"
proof (cases "1 < refcnt s (refidx p)")
  case True
  then show thesis using that [of "reg s" "refcnt s (refidx p)" "tmp s"]
    by (simp add: kfree_section_def kfree_def locals_def Let_def)
next
  case False
  then show thesis using that [of "reg s" "refcnt s (refidx p)" "freecnt s"]
    by (simp add: kfree_section_def kfree_def locals_def Let_def)
qed

lemma kref_inc_section_run:
  obtains r c t where "run_section (kref_inc_section p) s = locals r c t (kref_inc p s)"
  using that [of "reg s" "refcnt s (refidx p)" "tmp s"]
  by (simp add: kref_inc_section_def kref_inc_def locals_def Let_def)

section \<open>Harts that call the allocator\<close>

text \<open>
  \<open>held\<close> are the references to pages that the kernel holds outside calls, one element for each;
  \<open>op\<close> is the call a hart is in. Starting \<^verbatim>\<open>kfree\<close> or \<^verbatim>\<open>kref_inc\<close> takes a reference out of
  \<open>held\<close> for the time of the call; returning from \<^verbatim>\<open>kalloc\<close> adds one to the new page, returning
  from \<^verbatim>\<open>kref_inc\<close> adds two.
\<close>

record kharts = "kshared smp" +
  held :: "u64 multiset"
  op :: "nat \<Rightarrow> kop option"

definition users :: "kharts \<Rightarrow> kop \<Rightarrow> nat" where
  "users k c = card {h. op k h = Some c}"

definition holding :: "kharts \<Rightarrow> u64 \<Rightarrow> nat" where
  "holding k p = count (held k) p + users k (K_free p) + users k (K_ref_inc p)"

fun claim :: "kop \<Rightarrow> u64 multiset" where
  "claim K_alloc = {#}"
| "claim (K_free p) = {#p#}"
| "claim (K_ref_inc p) = {#p#}"

fun gain :: "kop \<Rightarrow> u64 \<Rightarrow> u64 multiset" where
  "gain K_alloc r = (if r = 0 then {#} else {#r#})"
| "gain (K_free p) r = {#}"
| "gain (K_ref_inc p) r = {#p, p#}"

text \<open>The counts are bytes: a page is shared only while all shares in progress leave it below 256.\<close>

definition may_call :: "kharts \<Rightarrow> kop \<Rightarrow> bool" where
  "may_call k c \<longleftrightarrow> claim c \<subseteq># held k \<and>
     (case c of K_ref_inc p \<Rightarrow> holding k p + users k (K_ref_inc p) < 255 | _ \<Rightarrow> True)"

inductive kstep :: "kharts \<Rightarrow> kharts \<Rightarrow> bool" where
  k_call: "at k h = Idle \<Longrightarrow> may_call k c \<Longrightarrow>
     kstep k (k\<lparr>at := (at k)(h := Spin (ksection c)), op := (op k)(h := Some c), held := held k - claim c\<rparr>)"
| k_spin: "at k h = Spin b \<Longrightarrow> test_and_set (lock k) 1 = (old, lk) \<Longrightarrow> old \<noteq> 0 \<Longrightarrow>
     kstep k (k\<lparr>lock := lk\<rparr>)"
| k_enter: "at k h = Spin b \<Longrightarrow> test_and_set (lock k) 1 = (old, lk) \<Longrightarrow> old = 0 \<Longrightarrow>
     kstep k (k\<lparr>lock := lk, at := (at k)(h := Crit b)\<rparr>)"
| k_piece: "at k h = Crit (f # fs) \<Longrightarrow>
     kstep k (k\<lparr>shared := f (shared k), at := (at k)(h := Crit fs)\<rparr>)"
| k_leave: "at k h = Crit [] \<Longrightarrow> op k h = Some c \<Longrightarrow>
     kstep k (k\<lparr>lock := (lock k)\<lparr>locked := 0\<rparr>, at := (at k)(h := Idle), op := (op k)(h := None),
       held := held k + gain c (reg (shared k))\<rparr>)"

definition kharts_init :: "kshared \<Rightarrow> u64 multiset \<Rightarrow> kharts" where
  "kharts_init s H = smp.extend (smp_init s) \<lparr>held = H, op = (\<lambda>_. None)\<rparr>"

inductive kreach :: "kharts \<Rightarrow> kharts \<Rightarrow> bool" for k0 where
  k_start: "kreach k0 k0"
| k_step: "kreach k0 k \<Longrightarrow> kstep k k' \<Longrightarrow> kreach k0 k'"

section \<open>Counting the calls in progress\<close>

lemma card_call:
  assumes "f h = None" "finite (dom f)"
  shows "card {i. (f(h := Some c)) i = Some d} = card {i. f i = Some d} + (if d = c then 1 else 0)"
proof (cases "d = c")
  case True
  have "{i. (f(h := Some c)) i = Some c} = insert h {i. f i = Some c}" by auto
  moreover have "finite {i. f i = Some c}" by (rule finite_subset [OF _ assms(2)]) auto
  ultimately show ?thesis using True assms(1) by simp
next
  case False
  then have "{i. (f(h := Some c)) i = Some d} = {i. f i = Some d}" using assms(1) by auto
  with False show ?thesis by simp
qed

lemma card_return:
  assumes "f h = Some c" "finite (dom f)"
  shows "card {i. f i = Some d} = card {i. (f(h := None)) i = Some d} + (if d = c then 1 else 0)"
proof -
  have "finite (dom (f(h := None)))" using assms(2) by simp
  from card_call [of "f(h := None)" h, OF _ this, of c d] assms(1) show ?thesis by (simp add: fun_upd_idem)
qed

lemma holding_call:
  assumes "op k h = None" "finite (dom (op k))" "claim c \<subseteq># held k"
  shows "holding (k\<lparr>at := a, op := (op k)(h := Some c), held := held k - claim c\<rparr>) = holding k"
proof
  fix p
  have "count (claim c) p \<le> count (held k) p" using assms(3) by (rule mset_subset_eq_count)
  then show "holding (k\<lparr>at := a, op := (op k)(h := Some c), held := held k - claim c\<rparr>) p = holding k p"
    using card_call [OF assms(1,2)] by (cases c) (auto simp: holding_def users_def)
qed

lemma holding_return:
  assumes "op k h = Some c" "finite (dom (op k))"
  shows "holding (k\<lparr>lock := l, at := a, op := (op k)(h := None), held := held k + gain c r\<rparr>) p =
    holding k p - count (claim c) p + count (gain c r) p"
  using card_return [OF assms, of "K_free p"] card_return [OF assms, of "K_ref_inc p"]
  by (cases c) (auto simp: holding_def users_def)

lemma users_pos:
  assumes "op k h = Some c" "finite (dom (op k))"
  shows "0 < users k c"
  using card_return [OF assms, of c] by (simp add: users_def)

section \<open>The invariant\<close>

definition pool_data :: "nat \<Rightarrow> (u64 \<Rightarrow> nat) \<Rightarrow> kshared \<Rightarrow> bool" where
  "pool_data N f s \<longleftrightarrow> kmem_good s \<and> refs s = f \<and> unat (kfreecount s) + kp.in_use s = N"

definition after :: "kharts \<Rightarrow> kop \<Rightarrow> u64 \<Rightarrow> u64 \<Rightarrow> nat" where
  "after k c r p = holding k p - count (claim c) p + count (gain c r) p"

definition calls_ok :: "kharts \<Rightarrow> bool" where
  "calls_ok k \<longleftrightarrow> finite (dom (op k)) \<and> (\<forall>h. op k h = None \<longleftrightarrow> at k h = Idle) \<and>
     (\<forall>h b c. at k h = Spin b \<and> op k h = Some c \<longrightarrow> b = ksection c)"

definition data_at :: "nat \<Rightarrow> kharts \<Rightarrow> kop \<Rightarrow> kshared \<Rightarrow> bool" where
  "data_at N k c s \<longleftrightarrow> pool_data N (after k c (reg s)) s \<and>
     (c = K_alloc \<and> reg s \<noteq> 0 \<longrightarrow> holding k (reg s) = 0)"

definition kinv :: "nat \<Rightarrow> kharts \<Rightarrow> bool" where
  "kinv N k \<longleftrightarrow> calls_ok k \<and> (\<forall>p. holding k p + users k (K_ref_inc p) \<le> 255) \<and>
     (locked (lock k) \<noteq> 0 \<longleftrightarrow> (\<exists>h b. at k h = Crit b)) \<and>
     (\<forall>h h' b b'. at k h = Crit b \<and> at k h' = Crit b' \<longrightarrow> h = h') \<and>
     (locked (lock k) = 0 \<longrightarrow> pool_data N (holding k) (shared k)) \<and>
     (\<forall>h b c. at k h = Crit b \<and> op k h = Some c \<longrightarrow> data_at N k c (run_section b (shared k)))"

lemma pool_data_locals [simp]: "pool_data N f (locals r c t s) = pool_data N f s"
  by (simp add: pool_data_def)

text \<open>What a whole section makes of good data, whichever the call.\<close>

lemma section_data:
  assumes "pool_data N (holding k) s" "calls_ok k" "op k h = Some c"
    "\<And>p. holding k p + users k (K_ref_inc p) \<le> 255"
  shows "data_at N k c (run_section (ksection c) s)"
proof (cases c)
  case K_alloc
  obtain c' t where r: "run_section kalloc_section s = locals (fst (kalloc s)) c' t (snd (kalloc s))"
    by (rule kalloc_section_run)
  obtain p s' where a: "kalloc s = (p, s')" by (cases "kalloc s")
  have g: "kmem_good s" "refs s = holding k" using assms(1) by (simp_all add: pool_data_def)
  note cons = kp.alloc_conserves [OF g(1) a]
  have "refs s' = after k K_alloc p \<and> (p \<noteq> 0 \<longrightarrow> holding k p = 0)"
  proof (cases "unat (kfreecount s) = 0")
    case True
    then show ?thesis using kp.alloc_none [OF g(1)] a g(2) by (auto simp: after_def fun_eq_iff)
  next
    case False
    then show ?thesis using kp.alloc_some [OF g(1)] a g(2) by (auto simp: after_def fun_eq_iff)
  qed
  with cons a r K_alloc assms(1) show ?thesis by (auto simp: data_at_def pool_data_def)
next
  case (K_free p)
  obtain r c' t where r: "run_section (kfree_section p) s = locals r c' t (kfree p s)"
    by (rule kfree_section_run)
  have g: "kmem_good s" "refs s = holding k" using assms(1) by (simp_all add: pool_data_def)
  have "0 < refs s p"
    using users_pos [OF assms(3)] assms(2) K_free g(2) unfolding calls_ok_def by (simp add: holding_def)
  note f = kp.free_held [OF g(1) this] kp.free_conserves [OF g(1) this]
  have "refs (kfree p s) = after k c r" using f(1) g(2) K_free by (simp add: after_def fun_eq_iff)
  with f(2,3) r K_free assms(1) show ?thesis by (auto simp: data_at_def pool_data_def)
next
  case (K_ref_inc p)
  obtain r c' t where r: "run_section (kref_inc_section p) s = locals r c' t (kref_inc p s)"
    by (rule kref_inc_section_run)
  have g: "kmem_good s" "refs s = holding k" using assms(1) by (simp_all add: pool_data_def)
  have u: "0 < users k (K_ref_inc p)"
    using users_pos [OF assms(3)] assms(2) K_ref_inc unfolding calls_ok_def by simp
  then have "0 < refs s p" "refs s p < 255"
    using assms(4) [of p] g(2) by (simp_all add: holding_def)
  note f = kp.share_held [OF g(1) this] kp.share_conserves [OF g(1) this]
  have "refs (kref_inc p s) = after k c r"
    using f(1) g(2) K_ref_inc u by (auto simp: after_def fun_eq_iff holding_def)
  with f(2,3) r K_ref_inc assms(1) show ?thesis by (auto simp: data_at_def pool_data_def)
qed

lemma ghost_same:
  assumes "held k' = held k" "op k' = op k"
  shows "holding k' = holding k" "users k' = users k" "after k' = after k" "data_at N k' = data_at N k"
proof -
  show u: "users k' = users k" by (simp add: fun_eq_iff users_def assms)
  show h: "holding k' = holding k" by (simp add: fun_eq_iff holding_def u assms)
  show a: "after k' = after k" by (simp add: fun_eq_iff after_def h)
  show "data_at N k' = data_at N k" by (simp add: fun_eq_iff data_at_def h a)
qed

lemma kinv_call:
  assumes inv: "kinv N k" and h: "at k h = Idle" and c: "may_call k c"
  shows "kinv N (k\<lparr>at := (at k)(h := Spin (ksection c)), op := (op k)(h := Some c), held := held k - claim c\<rparr>)"
    (is "kinv N ?k")
proof -
  have ok: "calls_ok k" using inv by (simp add: kinv_def)
  have o: "op k h = None" using ok h by (simp add: calls_ok_def)
  have fin: "finite (dom (op k))" using ok unfolding calls_ok_def by blast
  have hold: "holding ?k = holding k"
    using holding_call [OF o fin, of c] c by (simp add: may_call_def)
  have users: "users ?k d = users k d + (if d = c then 1 else 0)" for d
    using card_call [OF o fin] by (simp add: users_def)
  have "finite (dom (op ?k))" using fin by simp
  then have "calls_ok ?k" using ok unfolding calls_ok_def by auto
  moreover have "holding ?k p + users ?k (K_ref_inc p) \<le> 255" for p
    using inv c unfolding hold users by (auto simp: kinv_def may_call_def split: kop.splits)
  moreover have crit: "at ?k i = Crit b \<longleftrightarrow> at k i = Crit b" for i b using h by auto
  moreover have "data_at N ?k d s = data_at N k d s" for d s
    by (simp add: data_at_def after_def [abs_def] hold)
  moreover have "op ?k i = op k i" if "at k i = Crit b" for i b using that h by auto
  ultimately show ?thesis using inv unfolding kinv_def crit hold by auto
qed

lemma kinv_enter:
  assumes inv: "kinv N k" and h: "at k h = Spin b" and l: "locked (lock k) = 0" "locked lk = 1"
  shows "kinv N (k\<lparr>lock := lk, at := (at k)(h := Crit b)\<rparr>)" (is "kinv N ?k")
proof -
  have ok: "calls_ok k" using inv by (simp add: kinv_def)
  then obtain c where c: "op k h = Some c" "b = ksection c"
    using h by (metis at.distinct(1) calls_ok_def not_Some_eq)
  have same: "holding ?k = holding k" "users ?k = users k" "data_at N ?k = data_at N k"
    by (rule ghost_same; simp)+
  have none: "at k i \<noteq> Crit b'" for i b' using inv l by (auto simp: kinv_def)
  have "pool_data N (holding k) (shared k)" using inv l by (simp add: kinv_def)
  then have "data_at N k c (run_section b (shared k))"
    using section_data [OF _ ok c(1)] inv c(2) by (simp add: kinv_def)
  moreover have "calls_ok ?k" using ok h by (auto simp: calls_ok_def)
  ultimately show ?thesis using inv none l c unfolding kinv_def same by auto
qed

lemma kinv_piece:
  assumes inv: "kinv N k" and h: "at k h = Crit (f # fs)"
  shows "kinv N (k\<lparr>shared := f (shared k), at := (at k)(h := Crit fs)\<rparr>)" (is "kinv N ?k")
proof -
  have ok: "calls_ok k" using inv by (simp add: kinv_def)
  have same: "holding ?k = holding k" "users ?k = users k" "data_at N ?k = data_at N k"
    by (rule ghost_same; simp)+
  have only: "at k i = Crit b' \<Longrightarrow> i = h" for i b' using inv h unfolding kinv_def by blast
  have locked: "locked (lock k) \<noteq> 0" using inv h unfolding kinv_def by blast
  have "data_at N k c (run_section fs (f (shared k)))" if "op k h = Some c" for c
  proof -
    have "data_at N k c (run_section (f # fs) (shared k))"
      using inv h that unfolding kinv_def by blast
    then show ?thesis by simp
  qed
  moreover have "calls_ok ?k" using ok h by (auto simp: calls_ok_def)
  moreover have "(\<exists>i b. at ?k i = Crit b)" by (auto intro!: exI [of _ h])
  ultimately show ?thesis using inv only locked unfolding kinv_def same by auto
qed

lemma kinv_leave:
  assumes inv: "kinv N k" and h: "at k h = Crit []" and c: "op k h = Some c"
  shows "kinv N (k\<lparr>lock := (lock k)\<lparr>locked := 0\<rparr>, at := (at k)(h := Idle), op := (op k)(h := None),
       held := held k + gain c (reg (shared k))\<rparr>)" (is "kinv N ?k")
proof -
  have ok: "calls_ok k" using inv by (simp add: kinv_def)
  have fin: "finite (dom (op k))" using ok unfolding calls_ok_def by blast
  have hold: "holding ?k = after k c (reg (shared k))"
    by (rule ext) (simp add: after_def holding_return [OF c fin])
  have users: "users k d = users ?k d + (if d = c then 1 else 0)" for d
    using card_return [OF c fin] by (simp add: users_def)
  have "data_at N k c (run_section [] (shared k))" using inv h c unfolding kinv_def by blast
  then have d: "pool_data N (after k c (reg (shared k))) (shared k)"
      "c = K_alloc \<Longrightarrow> reg (shared k) \<noteq> 0 \<Longrightarrow> holding k (reg (shared k)) = 0"
    by (simp_all add: data_at_def)
  have le: "holding k p + users k (K_ref_inc p) \<le> 255" for p using inv by (simp add: kinv_def)
  have "holding ?k p + users ?k (K_ref_inc p) \<le> 255" for p
    using le [of p] users [of "K_ref_inc p"] d(2) unfolding hold
    by (cases c) (auto simp: after_def holding_def)
  moreover have none: "at ?k i \<noteq> Crit b" for i b
    using inv h unfolding kinv_def by auto
  moreover have "finite (dom (op ?k))" using fin by simp
  then have "calls_ok ?k" using ok unfolding calls_ok_def by auto
  ultimately show ?thesis using d(1) unfolding kinv_def hold by simp
qed

lemma kinv_step: "kstep k k' \<Longrightarrow> kinv N k \<Longrightarrow> kinv N k'"
proof (induction rule: kstep.induct)
  case (k_spin k h b old lk)
  have "kinv N (k\<lparr>lock := lk\<rparr>) = kinv N k"
  proof -
    have "holding (k\<lparr>lock := lk\<rparr>) = holding k" "users (k\<lparr>lock := lk\<rparr>) = users k"
        "data_at N (k\<lparr>lock := lk\<rparr>) = data_at N k"
      by (rule ghost_same; simp)+
    moreover have "calls_ok (k\<lparr>lock := lk\<rparr>) = calls_ok k" by (simp add: calls_ok_def)
    ultimately show ?thesis using k_spin(2,3) by (auto simp: kinv_def test_and_set_def)
  qed
  with k_spin show ?case by simp
qed (auto simp: test_and_set_def intro: kinv_call kinv_enter kinv_piece kinv_leave)

lemma kinv_init:
  assumes "kmem_good s" "\<And>p. refs s p = count H p" "\<And>p. count H p \<le> 255"
  shows "kinv (unat (kfreecount s) + card {p. 0 < refs s p}) (kharts_init s H)"
proof -
  have "users (kharts_init s H) c = 0" for c
    by (simp add: users_def kharts_init_def smp.extend_def)
  then have "holding (kharts_init s H) = refs s" "users (kharts_init s H) = (\<lambda>_. 0)"
    by (simp_all add: fun_eq_iff holding_def assms(2)) (simp add: kharts_init_def smp.extend_def)
  then show ?thesis
    using assms by (simp add: kinv_def calls_ok_def pool_data_def)
      (simp add: kharts_init_def smp.extend_def smp_init_def initlock_def)
qed

lemma kreach_inv: "kreach k0 k \<Longrightarrow> kinv N k0 \<Longrightarrow> kinv N k"
  by (induction rule: kreach.induct) (auto intro: kinv_step)


text \<open>A hart that finds the lock free can run a whole call by itself.\<close>

lemma kreach_pieces:
  "kreach k0 k \<Longrightarrow> at k h = Crit fs \<Longrightarrow>
     kreach k0 (k\<lparr>shared := run_section fs (shared k), at := (at k)(h := Crit [])\<rparr>)"
proof (induction fs arbitrary: k)
  case Nil
  then have "k\<lparr>shared := run_section [] (shared k), at := (at k)(h := Crit [])\<rparr> = k"
    by (simp add: fun_upd_idem)
  with Nil show ?case by (simp only:)
next
  case (Cons f fs)
  let ?k = "k\<lparr>shared := f (shared k), at := (at k)(h := Crit fs)\<rparr>"
  have "kreach k0 ?k" using Cons.prems by (blast intro: k_step k_piece)
  from Cons.IH [OF this] show ?case by (simp cong: if_cong)
qed

definition solo :: "kop \<Rightarrow> kharts \<Rightarrow> kharts" where
  "solo c k = (let s = run_section (ksection c) (shared k)
     in k\<lparr>shared := s, held := held k - claim c + gain c (reg s)\<rparr>)"

lemma kreach_solo:
  assumes "kreach k0 k" "at k h = Idle" "op k h = None" "locked (lock k) = 0" "may_call k c"
  shows "kreach k0 (solo c k)"
proof -
  let ?k1 = "k\<lparr>at := (at k)(h := Spin (ksection c)), op := (op k)(h := Some c), held := held k - claim c\<rparr>"
  let ?k2 = "?k1\<lparr>lock := (lock k)\<lparr>locked := 1\<rparr>, at := (at ?k1)(h := Crit (ksection c))\<rparr>"
  let ?k3 = "?k2\<lparr>shared := run_section (ksection c) (shared ?k2), at := (at ?k2)(h := Crit [])\<rparr>"
  let ?k4 = "?k3\<lparr>lock := (lock ?k3)\<lparr>locked := 0\<rparr>, at := (at ?k3)(h := Idle), op := (op ?k3)(h := None),
       held := held ?k3 + gain c (reg (shared ?k3))\<rparr>"
  have "kreach k0 ?k1" using assms by (blast intro: k_step k_call)
  then have "kreach k0 ?k2"
    by (rule k_step) (rule k_enter [of _ h], simp_all add: test_and_set_def assms)
  then have "kreach k0 ?k3" by (rule kreach_pieces) simp
  then have "kreach k0 ?k4" by (rule k_step) (rule k_leave, simp_all)
  also have "?k4 = solo c k"
    using assms(2-4) by (simp add: solo_def Let_def fun_upd_idem)
  finally show ?thesis .
qed

text \<open>
  Claim C5. The allocator under concurrency: harts call \<^verbatim>\<open>kalloc\<close>, \<^verbatim>\<open>kfree\<close> and \<^verbatim>\<open>kref_inc\<close> in any
  interleaving, each body interrupted between any two of its accesses to the shared data; they
  free and share only pages to which they hold a reference, and start no share that would bring a
  page over 255 references. Then
  whenever the lock is free, the count of every page is the number of references to it, those
  that calls in progress work on included, so that shared pages stay out and a page goes back
  to the list with its last reference; the list in memory is a proper chain; and free pages and
  pages in use add up to what they were at the start: none is lost. A hart that comes back from
  \<^verbatim>\<open>kalloc\<close> with a page is the only one to refer to it.
\<close>

theorem kalloc_concurrent:
  assumes "kmem_good s" "refs s = count H" "kreach (kharts_init s H) k"
  shows "(locked (lock k) = 0 \<longrightarrow> kmem_good (shared k) \<and>
      (\<forall>p. refs (shared k) p = count (held k) p + users k (K_free p) + users k (K_ref_inc p)) \<and>
      unat (kfreecount (shared k)) + card {p. 0 < refs (shared k) p} = unat (kfreecount s) + card {p. 0 < refs s p}) \<and>
    (at k h = Crit [] \<and> op k h = Some K_alloc \<and> reg (shared k) \<noteq> 0 \<longrightarrow>
      reg (shared k) \<notin># held k \<and> users k (K_free (reg (shared k))) = 0 \<and> users k (K_ref_inc (reg (shared k))) = 0)"
proof -
  have byte: "unat b \<le> 255" for b :: u8
  proof -
    have "unat b < 256" using unsigned_less [of b] by simp
    then show ?thesis by simp
  qed
  have "refs s p \<le> 255" for p
    using byte [of "refcnt s (refidx p)"] by (simp add: refs_def)
  then have "count H p \<le> 255" for p using assms(2) by metis
  then have inv: "kinv (unat (kfreecount s) + card {p. 0 < refs s p}) k"
    using kreach_inv [OF assms(3) kinv_init] assms(1,2) by simp
  moreover have "data_at (unat (kfreecount s) + card {p. 0 < refs s p}) k K_alloc (run_section [] (shared k))"
    if "at k h = Crit []" "op k h = Some K_alloc" using inv that unfolding kinv_def by blast
  ultimately show ?thesis
    by (auto simp: kinv_def pool_data_def data_at_def holding_def not_in_iff)
qed

definition two_pages_shared :: kshared where
  "two_pages_shared = kmem.extend two_pages \<lparr>reg = 0, cnt = 0, tmp = 0\<rparr>"

text \<open>One hart takes a page, a second shares it, the first gives its reference back.\<close>

theorem kalloc_concurrent_witness:
  "let k = solo (K_free 0x87fff000) (solo (K_ref_inc 0x87fff000) (solo K_alloc (kharts_init two_pages_shared {#})))
   in kreach (kharts_init two_pages_shared {#}) k \<and> held k = {#0x87fff000#} \<and> refs (shared k) 0x87fff000 = 1"
proof -
  let ?k0 = "kharts_init two_pages_shared {#}"
  let ?k1 = "solo K_alloc ?k0"
  let ?k2 = "solo (K_ref_inc 0x87fff000) ?k1"
  let ?k3 = "solo (K_free 0x87fff000) ?k2"
  have ok: "kmem_ok two_pages_shared [0x87fff000, 0x87ffe000]"
    using two_pages_ok by (simp add: kmem_ok_def two_pages_shared_def two_pages_def kmem.extend_def)
  have free: "refs two_pages_shared = count {#}"
    by (simp add: fun_eq_iff refs_def two_pages_shared_def two_pages_def kmem.extend_def)
  note defs = solo_def Let_def kharts_init_def smp.extend_def smp_init_def initlock_def
  have idle: "at ?k3 = (\<lambda>_. Idle)" "op ?k3 = (\<lambda>_. None)" "locked (lock ?k3) = 0"
      "at ?k2 = (\<lambda>_. Idle)" "op ?k2 = (\<lambda>_. None)" "locked (lock ?k2) = 0"
      "at ?k1 = (\<lambda>_. Idle)" "op ?k1 = (\<lambda>_. None)" "locked (lock ?k1) = 0"
      "at ?k0 = (\<lambda>_. Idle)" "op ?k0 = (\<lambda>_. None)" "locked (lock ?k0) = 0"
    by (simp_all add: defs)
  have reg1: "reg (run_section kalloc_section two_pages_shared) = 0x87fff000"
    by (simp add: kalloc_section_def two_pages_shared_def two_pages_def kmem.extend_def)
  have held: "held ?k1 = {#0x87fff000#}" "held ?k2 = {#0x87fff000, 0x87fff000#}" "held ?k3 = {#0x87fff000#}"
    using reg1 by (simp_all add: defs)
  have r1: "kreach ?k0 ?k1"
    by (rule kreach_solo [OF k_start, of _ 0]) (simp_all add: idle may_call_def)
  then have r2: "kreach ?k0 ?k2"
    by (rule kreach_solo [of _ _ 1]) (simp_all add: idle may_call_def held holding_def users_def)
  then have r3: "kreach ?k0 ?k3"
    by (rule kreach_solo [of _ _ 0]) (simp_all add: idle may_call_def held)
  have "kmem_good two_pages_shared" using ok by (auto simp: kmem_good_def)
  then have "refs (shared ?k3) 0x87fff000 = 1"
    using kalloc_concurrent [OF _ free r3] idle held by (simp add: users_def)
  with r3 held show ?thesis by (simp add: Let_def)
qed

end
