(* ===== verification/Uart.thy ===== *)
theory Uart
  imports Prelude
begin

text \<open>
  \<^verbatim>\<open>src/src/uart.c\<close>: the NS16550 driver. The chip is a parameter with two operations, \<open>rd\<close> and
  \<open>wr\<close>, on a register offset; the driver's loops run against it as they are written, so a
  transmitter that never becomes idle makes \<^verbatim>\<open>putc_raw\<close> poll for ever, which is \<open>None\<close>. The
  locale \<open>ns16550\<close> holds what the chip's data sheet promises; under it every printing
  function sends exactly the bytes its pure counterpart computes. The rest of the kernel
  prints through those counterparts. The lock that the public functions take is the one of
  theory \<open>Spinlock\<close>.
\<close>

section \<open>Registers and the polling primitives\<close>

definition UART_RBR :: u64 where "UART_RBR = 0"
definition UART_THR :: u64 where "UART_THR = 0"
definition UART_IER :: u64 where "UART_IER = 1"
definition UART_LSR :: u64 where "UART_LSR = 5"
definition LSR_RX_READY :: u8 where "LSR_RX_READY = push_bit 0 1"
definition LSR_TX_IDLE :: u8 where "LSR_TX_IDLE = push_bit 5 1"

type_synonym 'u reg_read = "u64 \<Rightarrow> 'u \<Rightarrow> u8 \<times> 'u"
type_synonym 'u reg_write = "u64 \<Rightarrow> u8 \<Rightarrow> 'u \<Rightarrow> 'u"

partial_function (option) wait_idle :: "'u reg_read \<Rightarrow> 'u \<Rightarrow> 'u option" where
  "wait_idle rd u =
     (case rd UART_LSR u of (l, u') \<Rightarrow>
        if l AND LSR_TX_IDLE = 0 then wait_idle rd u' else Some u')"

definition putc_raw :: "'u reg_read \<Rightarrow> 'u reg_write \<Rightarrow> u8 \<Rightarrow> 'u \<Rightarrow> 'u option" where
  "putc_raw rd wr c u = map_option (wr UART_THR c) (wait_idle rd u)"

fun puts_raw :: "'u reg_read \<Rightarrow> 'u reg_write \<Rightarrow> u8 list \<Rightarrow> 'u \<Rightarrow> 'u option" where
  "puts_raw rd wr [] u = Some u"
| "puts_raw rd wr (c # cs) u = Option.bind (putc_raw rd wr c u) (puts_raw rd wr cs)"

section \<open>The printing functions\<close>

definition uart_putc :: "'u reg_read \<Rightarrow> 'u reg_write \<Rightarrow> u8 \<Rightarrow> 'u \<Rightarrow> 'u option" where
  "uart_putc rd wr c u = putc_raw rd wr c u"

text \<open>A C string is the list of its bytes; the end of the list is its terminating zero.\<close>

fun uart_puts :: "'u reg_read \<Rightarrow> 'u reg_write \<Rightarrow> u8 list \<Rightarrow> 'u \<Rightarrow> 'u option" where
  "uart_puts rd wr [] u = Some u"
| "uart_puts rd wr (c # s) u =
     (if c = 0 then Some u
      else Option.bind (if c = 10 then putc_raw rd wr 13 u else Some u)
        (\<lambda>u. Option.bind (putc_raw rd wr c u) (uart_puts rd wr s)))"

text \<open>The digit loop of \<^verbatim>\<open>uart_dec\<close> fills \<^verbatim>\<open>buf\<close> from the low digit up.\<close>

function dec_loop :: "u64 \<Rightarrow> u8 list \<Rightarrow> u8 list" where
  "dec_loop n buf = (if n > 0 then dec_loop (n div 10) (buf @ [48 + ucast (n mod 10)]) else buf)"
  by auto

termination dec_loop
proof (relation "measure (\<lambda>(n, _). unat n)")
  fix n :: u64
  assume "n > 0"
  then have "0 < unat n" by (simp add: word_less_nat_alt)
  then show "((n div 10, buf @ [48 + ucast (n mod 10)]), n, buf) \<in> measure (\<lambda>(n, _). unat n)" for buf
    by (simp add: unat_div)
qed simp

declare dec_loop.simps [simp del]

definition uart_dec :: "'u reg_read \<Rightarrow> 'u reg_write \<Rightarrow> u64 \<Rightarrow> 'u \<Rightarrow> 'u option" where
  "uart_dec rd wr n u =
     (if n = 0 then putc_raw rd wr 48 u else puts_raw rd wr (rev (dec_loop n [])) u)"

definition hex_digit :: "u64 \<Rightarrow> int \<Rightarrow> u8" where
  "hex_digit n shift =
     (let d = drop_bit (nat shift) n AND 0xf in if d < 10 then 48 + ucast d else 97 + ucast d - 10)"

definition uart_hex :: "'u reg_read \<Rightarrow> 'u reg_write \<Rightarrow> u64 \<Rightarrow> 'u \<Rightarrow> 'u option" where
  "uart_hex rd wr n u =
     Option.bind (putc_raw rd wr 48 u) (\<lambda>u. Option.bind (putc_raw rd wr 120 u)
       (puts_raw rd wr (map (\<lambda>k. hex_digit n (60 - 4 * int k)) [0..<16])))"

definition uart_enable_rx :: "'u reg_read \<Rightarrow> 'u reg_write \<Rightarrow> 'u \<Rightarrow> 'u" where
  "uart_enable_rx rd wr u = (case rd UART_IER u of (v, u') \<Rightarrow> wr UART_IER (v OR 0x01) u')"

definition uart_getc :: "'u reg_read \<Rightarrow> 'u \<Rightarrow> int \<times> 'u" where
  "uart_getc rd u =
     (case rd UART_LSR u of (l, u1) \<Rightarrow>
        if l AND LSR_RX_READY \<noteq> 0 then (case rd UART_RBR u1 of (c, u2) \<Rightarrow> (uint c, u2))
        else (-1, u1))"

section \<open>What is sent\<close>

fun puts_bytes :: "u8 list \<Rightarrow> u8 list" where
  "puts_bytes [] = []"
| "puts_bytes (c # s) = (if c = 0 then [] else (if c = 10 then [13, 10] else [c]) @ puts_bytes s)"

definition dec_bytes :: "u64 \<Rightarrow> u8 list" where
  "dec_bytes n = (if n = 0 then [48] else rev (dec_loop n []))"

definition hex_bytes :: "u64 \<Rightarrow> u8 list" where
  "hex_bytes n = [48, 120] @ map (\<lambda>k. hex_digit n (60 - 4 * int k)) [0..<16]"

text \<open>C string literals of the source.\<close>

definition bytes_of :: "string \<Rightarrow> u8 list" where
  "bytes_of s = map of_char s"

subsection \<open>Decimal and hexadecimal numerals\<close>

definition digit_value :: "u8 \<Rightarrow> nat" where
  "digit_value c = (if 97 \<le> c then unat c - 87 else unat c - 48)"

definition numeral_value :: "nat \<Rightarrow> u8 list \<Rightarrow> nat" where
  "numeral_value base ds = foldl (\<lambda>v c. base * v + digit_value c) 0 ds"

lemma numeral_value_snoc: "numeral_value base (ds @ [c]) = base * numeral_value base ds + digit_value c"
  by (simp add: numeral_value_def)

lemma unat_ucast_small: "unat (x :: u64) < 256 \<Longrightarrow> unat (ucast x :: u8) = unat x"
  by (simp add: unsigned_ucast_eq take_bit_nat_eq_self)

lemma dec_digit: "digit_value (48 + ucast (n mod 10 :: u64)) = unat n mod 10"
    "unat (48 + ucast (n mod 10 :: u64) :: u8) = 48 + unat n mod 10"
proof -
  have m: "unat (n mod 10) = unat n mod 10" by (simp add: unat_mod)
  then have "unat (ucast (n mod 10) :: u8) = unat n mod 10" by (simp add: unat_ucast_small)
  moreover have "unat n mod 10 < 10" by simp
  ultimately show *: "unat (48 + ucast (n mod 10 :: u64) :: u8) = 48 + unat n mod 10"
    by (simp add: unat_word_ariths)
  then show "digit_value (48 + ucast (n mod 10 :: u64)) = unat n mod 10"
    by (simp add: digit_value_def word_le_nat_alt)
qed

lemma dec_loop_step:
  assumes "n > 0"
  shows "dec_loop n buf = dec_loop (n div 10) (buf @ [48 + ucast (n mod 10)])"
  using assms by (simp add: dec_loop.simps [of n])

lemma dec_loop_append: "dec_loop n buf = buf @ dec_loop n []"
proof (induction "unat n" arbitrary: n buf rule: less_induct)
  case less
  show ?case
  proof (cases "n > 0")
    case True
    then have "unat (n div 10) < unat n" by (simp add: unat_div word_less_nat_alt)
    from less [OF this, of "buf @ [48 + ucast (n mod 10)]"] less [OF this, of "[48 + ucast (n mod 10)]"]
    show ?thesis using True by (simp add: dec_loop_step)
  qed (simp add: dec_loop.simps [of n])
qed

lemma dec_loop_value:
  "numeral_value 10 (rev (dec_loop n [])) = unat n \<and>
   (\<forall>c \<in> set (dec_loop n []). 48 \<le> c \<and> c \<le> 57) \<and>
   (\<forall>k. unat n < 10 ^ k \<longrightarrow> length (dec_loop n []) \<le> k)"
proof (induction "unat n" arbitrary: n rule: less_induct)
  case less
  show ?case
  proof (cases "n > 0")
    case True
    let ?c = "48 + ucast (n mod 10) :: u8" and ?ds = "dec_loop (n div 10) []"
    have d: "dec_loop n [] = ?c # ?ds"
      using True dec_loop_append [of "n div 10" "[?c]"] by (simp add: dec_loop_step)
    have "unat (n div 10) < unat n" using True by (simp add: unat_div word_less_nat_alt)
    note IH = less [OF this]
    have div: "unat (n div 10) = unat n div 10" by (simp add: unat_div)
    have "numeral_value 10 (rev ?ds @ [?c]) = unat n"
      using IH by (simp add: numeral_value_snoc dec_digit div)
    moreover have "48 \<le> ?c \<and> ?c \<le> 57"
      using dec_digit(2) [of n] by (simp add: word_le_nat_alt)
    moreover have "length ?ds < k" if "unat n < 10 ^ k" for k
    proof (cases k)
      case 0
      with that True show ?thesis by (simp add: word_less_nat_alt)
    next
      case (Suc j)
      with that have "unat (n div 10) < 10 ^ j" by (simp add: div)
      with IH Suc show ?thesis by (auto simp: less_Suc_eq_le)
    qed
    ultimately show ?thesis using IH by (auto simp: d Suc_le_eq)
  qed (simp add: dec_loop.simps [of n] numeral_value_def word_less_nat_alt)
qed

lemma hex_digit_byte:
  assumes "k < 16"
  shows "hex_digit n (60 - 4 * int k) = (let d = unat n div 16 ^ (15 - k) mod 16
    in if d < 10 then 48 + of_nat d else 87 + of_nat d)"
proof -
  let ?d = "drop_bit (4 * (15 - k)) n AND 0xf"
  have s: "nat (60 - 4 * int k) = 4 * (15 - k)" using assms by simp
  have "(0xf :: u64) = mask 4" by (simp add: mask_eq_exp_minus_1)
  then have "?d = take_bit 4 (drop_bit (4 * (15 - k)) n)"
    by (simp only: take_bit_eq_mask)
  then have d: "unat ?d = unat n div 16 ^ (15 - k) mod 16"
    by (simp only: unsigned_take_bit_eq unat_drop_bit_div take_bit_nat_def) (simp add: power_mult)
  then have "unat ?d < 16" by simp
  then have "unat (ucast ?d :: u8) = unat (of_nat (unat n div 16 ^ (15 - k) mod 16) :: u8)"
    using d by (simp add: unat_ucast_small unat_of_nat)
  then have "ucast ?d = (of_nat (unat n div 16 ^ (15 - k) mod 16) :: u8)"
    by (simp only: word_unat_eq_iff)
  moreover have "?d < 10 \<longleftrightarrow> unat n div 16 ^ (15 - k) mod 16 < 10"
    using d by (simp add: word_less_nat_alt)
  ultimately show ?thesis by (simp add: hex_digit_def s Let_def)
qed

lemma hex_digit_value:
  assumes "k < 16"
  shows "digit_value (hex_digit n (60 - 4 * int k)) = unat n div 16 ^ (15 - k) mod 16"
proof -
  define d where "d = unat n div 16 ^ (15 - k) mod 16"
  have "d < 16" by (simp add: d_def)
  then have "digit_value (if d < 10 then 48 + of_nat d else 87 + of_nat d) = d"
    by (auto simp: digit_value_def word_le_nat_alt unat_word_ariths unat_of_nat)
  then show ?thesis
    using hex_digit_byte [OF assms, of n] by (simp only: d_def [symmetric] Let_def)
qed

lemma hex_prefix_value:
  "m \<le> 16 \<Longrightarrow> numeral_value 16 (map (\<lambda>k. hex_digit n (60 - 4 * int k)) [0..<m]) = unat n div 16 ^ (16 - m)"
proof (induction m)
  case 0
  then show ?case using unat_less [of n] by (simp add: numeral_value_def)
next
  case (Suc m)
  have "16 - m = Suc (15 - m)" using Suc.prems by simp
  moreover have "16 * (a div (16 * b)) + a div b mod 16 = a div b" for a b :: nat
    by (metis div_mult2_eq mult.commute mult_div_mod_eq)
  ultimately show ?case
    using Suc by (simp add: numeral_value_snoc hex_digit_value)
qed

section \<open>The chip's promises and what the driver makes of them\<close>

text \<open>
  \<open>sent\<close> is what has left the transmitter, \<open>rx\<close> the receive queue, \<open>busy\<close> how many more
  reads of the status register see the transmitter occupied. The laws speak of a chip on
  which no new byte arrives while the driver runs.
\<close>

locale ns16550 =
  fixes rd :: "'u reg_read" and wr :: "'u reg_write"
    and sent :: "'u \<Rightarrow> u8 list" and rx :: "'u \<Rightarrow> u8 list" and busy :: "'u \<Rightarrow> nat"
  assumes lsr: "rd UART_LSR u = (l, u') \<Longrightarrow> sent u' = sent u \<and> rx u' = rx u \<and>
      (bit l 0 \<longleftrightarrow> rx u \<noteq> []) \<and> (bit l 5 \<longleftrightarrow> busy u = 0) \<and>
      (if busy u = 0 then busy u' = 0 else busy u' < busy u)"
    and thr: "busy u = 0 \<Longrightarrow> sent (wr UART_THR c u) = sent u @ [c] \<and> rx (wr UART_THR c u) = rx u"
    and rbr: "rx u = c # cs \<Longrightarrow> rd UART_RBR u = (v, u') \<Longrightarrow> v = c \<and> rx u' = cs \<and> sent u' = sent u"
begin

lemma wait_idle_ok: "\<exists>u'. wait_idle rd u = Some u' \<and> busy u' = 0 \<and> sent u' = sent u \<and> rx u' = rx u"
proof (induction "busy u" arbitrary: u rule: less_induct)
  case less
  obtain l u1 where r: "rd UART_LSR u = (l, u1)" by (cases "rd UART_LSR u")
  note law = lsr [OF r]
  have b: "l AND LSR_TX_IDLE = 0 \<longleftrightarrow> \<not> bit l 5"
    by (simp only: LSR_TX_IDLE_def bit_iff_and_push_bit_not_eq_0) simp
  show ?case
  proof (cases "busy u = 0")
    case True
    with law show ?thesis by (subst wait_idle.simps) (simp add: r b)
  next
    case False
    with law have "busy u1 < busy u" by simp
    from less [OF this] False law show ?thesis
      by (subst wait_idle.simps) (simp add: r b)
  qed
qed

lemma putc_raw_ok: "\<exists>u'. putc_raw rd wr c u = Some u' \<and> sent u' = sent u @ [c] \<and> rx u' = rx u"
  using wait_idle_ok [of u] thr by (auto simp: putc_raw_def)

lemma puts_raw_ok: "\<exists>u'. puts_raw rd wr cs u = Some u' \<and> sent u' = sent u @ cs \<and> rx u' = rx u"
proof (induction cs arbitrary: u)
  case (Cons c cs)
  obtain u1 where "putc_raw rd wr c u = Some u1" "sent u1 = sent u @ [c]" "rx u1 = rx u"
    using putc_raw_ok by blast
  with Cons [of u1] show ?case by auto
qed simp

lemma uart_puts_ok: "\<exists>u'. uart_puts rd wr s u = Some u' \<and> sent u' = sent u @ puts_bytes s \<and> rx u' = rx u"
proof (induction s arbitrary: u)
  case (Cons c s)
  obtain u1 where 1: "(if c = 10 then putc_raw rd wr 13 u else Some u) = Some u1"
      "sent u1 = sent u @ (if c = 10 then [13] else [])" "rx u1 = rx u"
    using putc_raw_ok [of 13 u] by (cases "c = 10") auto
  obtain u2 where "putc_raw rd wr c u1 = Some u2" "sent u2 = sent u1 @ [c]" "rx u2 = rx u1"
    using putc_raw_ok by blast
  with 1 Cons [of u2] show ?case by auto
qed simp

lemma uart_dec_ok: "\<exists>u'. uart_dec rd wr n u = Some u' \<and> sent u' = sent u @ dec_bytes n \<and> rx u' = rx u"
  using puts_raw_ok putc_raw_ok by (auto simp: uart_dec_def dec_bytes_def)

lemma uart_hex_ok: "\<exists>u'. uart_hex rd wr n u = Some u' \<and> sent u' = sent u @ hex_bytes n \<and> rx u' = rx u"
proof -
  have "uart_hex rd wr n u = puts_raw rd wr (hex_bytes n) u"
    unfolding uart_hex_def hex_bytes_def
    by (cases "putc_raw rd wr 48 u") (simp_all only: append.simps puts_raw.simps bind.simps)
  then show ?thesis using puts_raw_ok by simp
qed

lemma uart_getc_ok:
  "uart_getc rd u = (v, u') \<Longrightarrow> sent u' = sent u \<and>
     (case rx u of [] \<Rightarrow> v = -1 \<and> rx u' = [] | c # cs \<Rightarrow> v = uint c \<and> rx u' = cs)"
proof -
  obtain l u1 where r: "rd UART_LSR u = (l, u1)" by (cases "rd UART_LSR u")
  obtain c u2 where q: "rd UART_RBR u1 = (c, u2)" by (cases "rd UART_RBR u1")
  have b: "l AND LSR_RX_READY \<noteq> 0 \<longleftrightarrow> bit l 0"
    by (simp only: LSR_RX_READY_def bit_iff_and_push_bit_not_eq_0)
  assume "uart_getc rd u = (v, u')"
  then show ?thesis
    using lsr [OF r] rbr [OF _ q] by (cases "rx u") (auto simp: uart_getc_def r q b split: if_splits)
qed

end

section \<open>A chip that keeps the promises\<close>

text \<open>
  The chip's state is how often the transmitter still reports busy, its pause after each byte,
  the receive queue and what was sent. It is the instance on which theorems about the driver
  are evaluated.
\<close>

type_synonym sim_uart = "nat \<times> nat \<times> u8 list \<times> u8 list"

fun sim_rd :: "sim_uart reg_read" where
  "sim_rd r (b, p, q, s) =
     (if r = UART_LSR then ((if q = [] then 0 else 1) OR (if b = 0 then 0x20 else 0), (b - 1, p, q, s))
      else if r = UART_RBR then (case q of [] \<Rightarrow> (0, (b, p, q, s)) | c # cs \<Rightarrow> (c, (b, p, cs, s)))
      else (0, (b, p, q, s)))"

fun sim_wr :: "sim_uart reg_write" where
  "sim_wr r c (b, p, q, s) = (if r = UART_THR then (p, p, q, if b = 0 then s @ [c] else s) else (b, p, q, s))"

interpretation sim: ns16550 sim_rd sim_wr "\<lambda>(b, p, q, s). s" "\<lambda>(b, p, q, s). q" "\<lambda>(b, p, q, s). b"
proof
  fix u :: sim_uart and l u'
  assume "sim_rd UART_LSR u = (l, u')"
  moreover obtain b p q s where "u = (b, p, q, s)" by (cases u)
  ultimately show "(case u' of (b, p, q, s) \<Rightarrow> s) = (case u of (b, p, q, s) \<Rightarrow> s) \<and>
     (case u' of (b, p, q, s) \<Rightarrow> q) = (case u of (b, p, q, s) \<Rightarrow> q) \<and>
     bit l 0 = ((case u of (b, p, q, s) \<Rightarrow> q) \<noteq> []) \<and> bit l 5 = ((case u of (b, p, q, s) \<Rightarrow> b) = 0) \<and>
     (if (case u of (b, p, q, s) \<Rightarrow> b) = 0 then (case u' of (b, p, q, s) \<Rightarrow> b) = 0
      else (case u' of (b, p, q, s) \<Rightarrow> b) < (case u of (b, p, q, s) \<Rightarrow> b))"
    by (auto simp: bit_simps bit_numeral_rec bit_0 split: if_splits)
next
  fix u :: sim_uart and c
  assume "(case u of (b, p, q, s) \<Rightarrow> b) = 0"
  then show "(case sim_wr UART_THR c u of (b, p, q, s) \<Rightarrow> s) = (case u of (b, p, q, s) \<Rightarrow> s) @ [c] \<and>
     (case sim_wr UART_THR c u of (b, p, q, s) \<Rightarrow> q) = (case u of (b, p, q, s) \<Rightarrow> q)"
    by (cases u) auto
next
  fix u :: sim_uart and c cs v u'
  assume "(case u of (b, p, q, s) \<Rightarrow> q) = c # cs" "sim_rd UART_RBR u = (v, u')"
  then show "v = c \<and> (case u' of (b, p, q, s) \<Rightarrow> q) = cs \<and>
     (case u' of (b, p, q, s) \<Rightarrow> s) = (case u of (b, p, q, s) \<Rightarrow> s)"
    by (cases u) (auto simp: UART_RBR_def UART_LSR_def)
qed

section \<open>Properties\<close>

text \<open>
  The numerals a reader expects: the decimal one without leading zeros, a single 0 for zero, and
  the hexadecimal one of sixteen digits, most significant digit first.
\<close>

definition digit_char :: "nat \<Rightarrow> char" where
  "digit_char d = ''0123456789abcdef'' ! d"

fun decimal :: "nat \<Rightarrow> string" where
  "decimal n = (if n < 10 then [] else decimal (n div 10)) @ [digit_char (n mod 10)]"

declare decimal.simps [simp del]

definition hexadecimal :: "nat \<Rightarrow> string" where
  "hexadecimal n = map (\<lambda>i. digit_char (n div 16 ^ (15 - i) mod 16)) [0..<16]"

lemma less_16_cases: "d < (16 :: nat) \<Longrightarrow> d \<in> {0, 1, 2, 3, 4, 5, 6, 7, 8, 9, 10, 11, 12, 13, 14, 15}"
  by (simp, presburger)

lemma digit_char_byte:
  assumes "d < 16"
  shows "of_char (digit_char d) = (if d < 10 then 48 + of_nat d else 87 + of_nat d :: u8)"
  using less_16_cases [OF assms] by (elim insertE; simp add: digit_char_def)

lemma digit_char_value: "d < 16 \<Longrightarrow> digit_value (of_char (digit_char d)) = d"
  by (drule less_16_cases) (elim insertE; simp add: digit_char_def digit_value_def)

lemma decimal_value: "numeral_value 10 (bytes_of (decimal n)) = n"
proof (induction n rule: decimal.induct)
  case (1 n)
  have d: "digit_value (of_char (digit_char (n mod 10))) = n mod 10"
    by (rule digit_char_value) (rule less_trans [of _ 10], simp_all)
  then show ?case
    using 1 by (cases "n < 10") (simp_all add: decimal.simps [of n] bytes_of_def numeral_value_def)
qed

lemma dec_loop_decimal: "n > 0 \<Longrightarrow> rev (dec_loop n []) = bytes_of (decimal (unat n))"
proof (induction "unat n" arbitrary: n rule: less_induct)
  case less
  let ?c = "48 + ucast (n mod 10) :: u8"
  have d: "rev (dec_loop n []) = rev (dec_loop (n div 10) []) @ [?c]"
    using less.prems dec_loop_append [of "n div 10" "[?c]"] by (simp add: dec_loop_step)
  have m: "unat n mod 10 < 10" by simp
  have "unat ?c = unat (48 + of_nat (unat n mod 10) :: u8)"
    using dec_digit(2) [of n] m by (simp add: unat_word_ariths unat_of_nat)
  then have "?c = 48 + of_nat (unat n mod 10)" by (simp only: word_unat_eq_iff)
  then have c: "?c = of_char (digit_char (unat n mod 10))"
    using digit_char_byte [of "unat n mod 10"] m by simp
  have div: "unat (n div 10) = unat n div 10" by (simp add: unat_div)
  show ?case
  proof (cases "unat n < 10")
    case True
    then have "\<not> n div 10 > 0" by (simp add: word_less_nat_alt div)
    then show ?thesis using True by (simp add: d c dec_loop.simps [of "n div 10"] decimal.simps [of "unat n"] bytes_of_def)
  next
    case False
    then have "n div 10 > 0" "unat (n div 10) < unat n"
      using less.prems by (simp_all add: word_less_nat_alt div)
    from less.hyps [OF this(2,1)] show ?thesis
      using False by (simp add: d c div decimal.simps [of "unat n"] bytes_of_def)
  qed
qed

lemma dec_bytes_decimal: "dec_bytes n = bytes_of (decimal (unat n))"
  using dec_loop_decimal [of n]
  by (cases "n = 0") (simp_all add: dec_bytes_def decimal.simps [of 0] bytes_of_def digit_char_def word_gt_0)

lemma hex_bytes_hexadecimal: "hex_bytes n = bytes_of (''0x'' @ hexadecimal (unat n))"
proof -
  have "hex_digit n (60 - 4 * int k) = of_char (digit_char (unat n div 16 ^ (15 - k) mod 16))" if "k < 16" for k
    using hex_digit_byte [OF that, of n] digit_char_byte [of "unat n div 16 ^ (15 - k) mod 16"] by simp
  then show ?thesis by (simp add: hex_bytes_def hexadecimal_def bytes_of_def del: upt_Suc)
qed

text \<open>
  Claim C18. On a chip that keeps its data sheet \<^verbatim>\<open>uart_dec\<close> always returns and has sent exactly
  the decimal numeral of its argument, without leading zeros and as a single 0 for zero, and the
  digits it collects fit into \<^verbatim>\<open>buf[21]\<close>; \<^verbatim>\<open>uart_hex\<close> likewise sends exactly \<^verbatim>\<open>0x\<close> and the sixteen
  digits, 0 to 9 and a to f, of its argument. Both numerals read back as the number.
\<close>
theorem uart_prints_numbers:
  assumes "ns16550 rd wr sent rx busy"
  shows "(\<exists>u'. uart_dec rd wr n u = Some u' \<and> sent u' = sent u @ bytes_of (decimal (unat n))) \<and>
         length (dec_loop n []) \<le> 20 \<and>
         (\<exists>u'. uart_hex rd wr n u = Some u' \<and> sent u' = sent u @ bytes_of (''0x'' @ hexadecimal (unat n))) \<and>
         numeral_value 10 (bytes_of (decimal (unat n))) = unat n \<and>
         numeral_value 16 (bytes_of (hexadecimal (unat n))) = unat n"
proof -
  have len: "length (dec_loop n []) \<le> 20"
    using dec_loop_value [of n] unat_less [of n] by (auto dest!: spec [of _ 20])
  have "bytes_of (hexadecimal (unat n)) = map (\<lambda>k. hex_digit n (60 - 4 * int k)) [0..<16]"
    using hex_bytes_hexadecimal [of n] by (simp add: hex_bytes_def bytes_of_def del: upt_Suc)
  then have hex: "numeral_value 16 (bytes_of (hexadecimal (unat n))) = unat n"
    using hex_prefix_value [of 16 n] by simp
  show ?thesis
    using ns16550.uart_dec_ok [OF assms, of n u] ns16550.uart_hex_ok [OF assms, of n u] len hex
    unfolding dec_bytes_decimal hex_bytes_hexadecimal by (auto simp: decimal_value)
qed

theorem uart_prints_numbers_witness:
  "(\<exists>u'. uart_dec sim_rd sim_wr 1230 (2, 1, [], []) = Some u' \<and> (\<lambda>(b, p, q, s). s) u' = bytes_of ''1230'') \<and>
   (\<exists>u'. uart_dec sim_rd sim_wr 0 (2, 1, [], []) = Some u' \<and> (\<lambda>(b, p, q, s). s) u' = bytes_of ''0'') \<and>
   (\<exists>u'. uart_hex sim_rd sim_wr 0xab (2, 1, [], []) = Some u' \<and> (\<lambda>(b, p, q, s). s) u' = bytes_of ''0x00000000000000ab'')"
proof -
  have "decimal 1230 = ''1230''" "decimal 0 = ''0''"
    by (simp_all add: decimal.simps digit_char_def)
  moreover have "hexadecimal 0xab = ''00000000000000ab''"
    by (simp add: hexadecimal_def upt_rec digit_char_def)
  ultimately show ?thesis
    using uart_prints_numbers [OF sim.ns16550_axioms, where n = 1230 and u = "(2, 1, [], [])"]
      uart_prints_numbers [OF sim.ns16550_axioms, where n = 0 and u = "(2, 1, [], [])"]
      uart_prints_numbers [OF sim.ns16550_axioms, where n = "0xab" and u = "(2, 1, [], [])"] by simp
qed

end
