(* ===== verification/Console.thy ===== *)
theory Console
  imports Uart
begin

text \<open>
  \<^verbatim>\<open>src/src/console.c\<close> and the receive path of \<^verbatim>\<open>src/src/uart.c\<close>: the input ring of 128 bytes
  between the UART interrupt and \<^verbatim>\<open>console_read\<close>. The ring refines a bounded line editor on
  a list (\<open>edit\<close>): the interrupt handler is \<open>edit\<close>, a read takes a line off the front.
\<close>

section \<open>State and operations\<close>

definition INBUF :: u64 where "INBUF = 128"

text \<open>\<open>wakes\<close> counts the calls \<^verbatim>\<open>wakeup(&inbuf)\<close>.\<close>

record 'u console =
  inbuf :: "u8 list"
  in_w :: u64
  in_r :: u64
  wakes :: nat
  uart :: 'u

definition console_intr :: "'u reg_read \<Rightarrow> 'u reg_write \<Rightarrow> u8 \<Rightarrow> 'u console \<Rightarrow> 'u console option" where
  "console_intr rd wr c0 s =
     (let c = (if c0 = 13 then 10 else c0) in
      if c = 0x7f \<or> c = 0x08 then
        (if in_w s > in_r s \<and> inbuf s ! unat ((in_w s - 1) mod INBUF) \<noteq> 10
         then map_option (\<lambda>u. s\<lparr>in_w := in_w s - 1, uart := u\<rparr>) (uart_puts rd wr [8, 32, 8] (uart s))
         else Some s)
      else if in_w s - in_r s \<ge> INBUF then Some s
      else
        map_option (\<lambda>u. s\<lparr>inbuf := (inbuf s)[unat (in_w s mod INBUF) := c], in_w := in_w s + 1,
                         wakes := (if c = 10 then wakes s + 1 else wakes s), uart := u\<rparr>)
          (uart_putc rd wr c (uart s)))"

text \<open>\<^verbatim>\<open>uart_intr\<close>: hand every received byte to the console.\<close>

partial_function (option) uart_intr :: "'u reg_read \<Rightarrow> 'u reg_write \<Rightarrow> 'u console \<Rightarrow> 'u console option" where
  "uart_intr rd wr s =
     (case uart_getc rd (uart s) of (c, u) \<Rightarrow>
        if c \<ge> 0 then Option.bind (console_intr rd wr (word_of_int c) (s\<lparr>uart := u\<rparr>)) (uart_intr rd wr)
        else Some (s\<lparr>uart := u\<rparr>))"

text \<open>
  \<^verbatim>\<open>console_read\<close> gives up the processor in \<^verbatim>\<open>sleep(&inbuf)\<close> when the ring is empty. What happens
  meanwhile is the argument \<open>naps\<close>: the bytes that interrupts delivered before the scheduler
  looks at the process for the first time, before it looks for the second time, and so on. Only
  \<^verbatim>\<open>wakeup(&inbuf)\<close> makes the process runnable; if the bytes brought no such call it sleeps on.
  When \<open>naps\<close> is used up the reader is still asleep. The destination is the list of bytes stored
  so far, \<open>i\<close> its length.
\<close>

datatype 'u read_outcome = Asleep "u8 list" "'u console" | Returned int "u8 list" "'u console"

fun deliver :: "'u reg_read \<Rightarrow> 'u reg_write \<Rightarrow> u8 list \<Rightarrow> 'u console \<Rightarrow> 'u console option" where
  "deliver rd wr [] s = Some s"
| "deliver rd wr (c # cs) s = Option.bind (console_intr rd wr c s) (deliver rd wr cs)"

text \<open>The state after the sleep and, if the process was woken, what is left of \<open>naps\<close>.\<close>

fun sleep_inbuf :: "'u reg_read \<Rightarrow> 'u reg_write \<Rightarrow> u8 list list \<Rightarrow> 'u console \<Rightarrow>
    (u8 list list option \<times> 'u console) option" where
  "sleep_inbuf rd wr [] s = Some (None, s)"
| "sleep_inbuf rd wr (b # bs) s =
     Option.bind (deliver rd wr b s)
       (\<lambda>s1. if wakes s < wakes s1 then Some (Some bs, s1) else sleep_inbuf rd wr bs s1)"

lemma sleep_inbuf_length: "sleep_inbuf rd wr naps s = Some (Some bs, s1) \<Longrightarrow> length bs < length naps"
  by (induction naps arbitrary: s) (fastforce split: bind_splits if_splits)+

function read_loop :: "'u reg_read \<Rightarrow> 'u reg_write \<Rightarrow> int \<Rightarrow> int \<Rightarrow> u8 list \<Rightarrow> u8 list list \<Rightarrow>
    'u console \<Rightarrow> 'u read_outcome option" where
  "read_loop rd wr n i dst naps s =
     (if i < n then
        if in_r s = in_w s then
          (case sleep_inbuf rd wr naps s of
             None \<Rightarrow> None
           | Some (None, s1) \<Rightarrow> Some (Asleep dst s1)
           | Some (Some bs, s1) \<Rightarrow> read_loop rd wr n i dst bs s1)
        else
          let c = inbuf s ! unat (in_r s mod INBUF); s1 = s\<lparr>in_r := in_r s + 1\<rparr> in
          if c = 10 then Some (Returned (i + 1) (dst @ [c]) s1)
          else read_loop rd wr n (i + 1) (dst @ [c]) naps s1
      else Some (Returned i dst s))"
  by pat_completeness auto

termination read_loop
  by (relation "measures [\<lambda>(rd, wr, n, i, dst, naps, s). nat (n - i),
                          \<lambda>(rd, wr, n, i, dst, naps, s). length naps]") (auto dest: sleep_inbuf_length)

declare read_loop.simps [simp del]

definition console_read :: "'u reg_read \<Rightarrow> 'u reg_write \<Rightarrow> int \<Rightarrow> u8 list list \<Rightarrow> 'u console \<Rightarrow>
    'u read_outcome option" where
  "console_read rd wr n naps s = read_loop rd wr n 0 [] naps s"

section \<open>The line editor it implements\<close>

text \<open>\<open>edit c q\<close>: the queue after byte \<open>c\<close>, and the echo.\<close>

definition edit :: "u8 \<Rightarrow> u8 list \<Rightarrow> u8 list \<times> u8 list" where
  "edit c0 q =
     (let c = (if c0 = 13 then 10 else c0) in
      if c = 0x7f \<or> c = 0x08 then
        if q \<noteq> [] \<and> last q \<noteq> 10 then (butlast q, [8, 32, 8]) else (q, [])
      else if length q \<ge> 128 then (q, []) else (q @ [c], [c]))"

fun edits :: "u8 list \<Rightarrow> u8 list \<Rightarrow> u8 list \<times> u8 list" where
  "edits [] q = (q, [])"
| "edits (c # cs) q = (let (q1, e1) = edit c q; (q2, e2) = edits cs q1 in (q2, e1 @ e2))"

text \<open>The first line of a queue, or its first \<open>n\<close> bytes if the line is longer.\<close>

fun line :: "nat \<Rightarrow> u8 list \<Rightarrow> u8 list" where
  "line 0 q = []"
| "line (Suc n) [] = []"
| "line (Suc n) (c # q) = (if c = 10 then [c] else c # line n q)"

definition con_queue :: "'u console \<Rightarrow> u8 list" where
  "con_queue s = map (\<lambda>k. inbuf s ! (k mod 128)) [unat (in_r s)..<unat (in_w s)]"

definition con_ok :: "'u console \<Rightarrow> bool" where
  "con_ok s \<longleftrightarrow> length (inbuf s) = 128 \<and> in_r s \<le> in_w s \<and> unat (in_w s) - unat (in_r s) \<le> 128"

lemma edit_length: "length q \<le> 128 \<Longrightarrow> length (fst (edit c q)) \<le> 128"
  by (auto simp: edit_def Let_def)

text \<open>A newline in the queue is never erased, and each one has been echoed as such when it came.\<close>

lemma edit_newlines:
  "count_list (fst (edit c q)) 10 = count_list q 10 + (if snd (edit c q) = [10] then 1 else 0)"
proof -
  have "count_list (butlast q) 10 = count_list q 10" if "q \<noteq> []" "last q \<noteq> 10"
  proof -
    have "q = butlast q @ [last q]" using that by simp
    then have "count_list q 10 = count_list (butlast q) 10 + count_list [last q] 10"
      by (metis count_list_append)
    with that show ?thesis by simp
  qed
  then show ?thesis by (auto simp: edit_def Let_def)
qed

lemma fst_edits_append: "fst (edits (xs @ ys) q) = fst (edits ys (fst (edits xs q)))"
  by (induction xs arbitrary: q) (simp_all add: split_beta)

section \<open>Refinement\<close>

lemma con_queue_length: "con_ok s \<Longrightarrow> length (con_queue s) = unat (in_w s) - unat (in_r s)"
  by (simp add: con_queue_def)

lemma con_queue_empty: "con_ok s \<Longrightarrow> con_queue s = [] \<longleftrightarrow> in_r s = in_w s"
  by (auto simp: con_queue_def con_ok_def word_le_nat_alt word_unat_eq_iff)

lemma ring_index: "unat (x mod INBUF) = unat x mod 128"
  by (simp add: INBUF_def unat_mod)

lemma ring_slot_free:
  fixes k w :: nat
  assumes "k < w" "w - k < 128"
  shows "k mod 128 \<noteq> w mod 128"
proof
  assume "k mod 128 = w mod 128"
  then have "128 dvd w - k" using assms(1) by (metis mod_eq_dvd_iff_nat less_imp_le)
  with assms show False by (auto dest: dvd_imp_le)
qed

lemma console_put:
  fixes s :: "'u console" and c and n :: nat and u :: 'u
  assumes s: "con_ok s" and room: "unat (in_w s) - unat (in_r s) < 128" and top: "in_w s \<noteq> -1"
  defines "s' \<equiv> s\<lparr>inbuf := (inbuf s)[unat (in_w s mod INBUF) := c], in_w := in_w s + 1, wakes := n, uart := u\<rparr>"
  shows "con_ok s' \<and> con_queue s' = con_queue s @ [c]"
proof -
  have w: "unat (in_w s + 1) = Suc (unat (in_w s))"
    using top by (metis add.commute add_eq_0_iff2 unatSuc)
  have le: "unat (in_r s) \<le> unat (in_w s)" using s by (simp add: con_ok_def word_le_nat_alt)
  have "unat (in_w s) mod 128 \<noteq> k mod 128" if "k < unat (in_w s)" "unat (in_r s) \<le> k" for k
    using that room by (intro ring_slot_free [of k "unat (in_w s)", symmetric]) auto
  then have "con_queue s' = con_queue s @ [c]"
    using s le by (simp add: con_queue_def s'_def w ring_index con_ok_def nth_list_update)
  moreover have "con_ok s'"
    using s room le w by (auto simp: con_ok_def s'_def word_le_nat_alt)
  ultimately show ?thesis by simp
qed

lemma console_erase:
  fixes s :: "'u console" and u :: 'u
  assumes s: "con_ok s" and ne: "in_r s < in_w s"
  defines "s' \<equiv> s\<lparr>in_w := in_w s - 1, uart := u\<rparr>"
  shows "con_ok s' \<and> con_queue s = con_queue s' @ [inbuf s ! unat ((in_w s - 1) mod INBUF)]"
proof -
  have "in_w s \<noteq> 0" using ne by auto
  then have w: "unat (in_w s) = Suc (unat (in_w s - 1))" by (simp add: unat_minus_one unat_gt_0)
  have le: "unat (in_r s) \<le> unat (in_w s - 1)"
    using ne w by (simp add: word_less_nat_alt)
  have "con_queue s = con_queue s' @ [inbuf s ! unat ((in_w s - 1) mod INBUF)]"
    using le by (simp add: con_queue_def s'_def w ring_index)
  moreover have "con_ok s'"
    using s le w by (auto simp: con_ok_def s'_def word_le_nat_alt)
  ultimately show ?thesis by simp
qed

lemma console_get:
  assumes s: "con_ok s" and ne: "in_r s \<noteq> in_w s"
  defines "s' \<equiv> s\<lparr>in_r := in_r s + 1\<rparr>"
  shows "con_ok s' \<and> con_queue s = inbuf s ! unat (in_r s mod INBUF) # con_queue s'"
proof -
  have lt: "unat (in_r s) < unat (in_w s)"
    using s ne by (simp add: con_ok_def word_le_nat_alt word_unat_eq_iff)
  then have r: "unat (in_r s + 1) = Suc (unat (in_r s))"
    using unat_less [of "in_w s"] by (simp add: unat_word_ariths)
  have "con_queue s = inbuf s ! unat (in_r s mod INBUF) # con_queue s'"
    using lt by (simp add: con_queue_def s'_def r ring_index upt_conv_Cons)
  moreover have "con_ok s'"
    using s lt r by (auto simp: con_ok_def s'_def word_le_nat_alt)
  ultimately show ?thesis by simp
qed

lemma unat_max: "unat (- 1 :: u64) = 2 ^ 64 - 1"
  by (simp add: unsigned_minus_1_eq_mask mask_eq_exp_minus_1)

lemma edits_newline: "10 \<in> set q \<Longrightarrow> 10 \<in> set (fst (edits cs q))"
proof (induction cs arbitrary: q)
  case (Cons c cs)
  then have "count_list (fst (edit c q)) 10 \<noteq> 0"
    using edit_newlines [of c q] by (simp add: count_list_0_iff)
  then have "10 \<in> set (fst (edit c q))" by (simp add: count_list_0_iff)
  from Cons.IH [OF this] show ?case by (simp add: split_beta)
qed simp

context ns16550
begin

lemma console_intr_ok:
  assumes s: "con_ok s" and top: "in_w s \<noteq> -1"
  shows "\<exists>s'. console_intr rd wr c s = Some s' \<and> con_ok s' \<and> con_queue s' = fst (edit c (con_queue s)) \<and>
     sent (uart s') = sent (uart s) @ snd (edit c (con_queue s)) \<and> rx (uart s') = rx (uart s) \<and>
     in_r s' = in_r s \<and> unat (in_w s') \<le> Suc (unat (in_w s)) \<and>
     wakes s' = wakes s + (if snd (edit c (con_queue s)) = [10] then 1 else 0)"
proof -
  define d where "d = (if c = 13 then 10 else c)"
  have len: "length (con_queue s) = unat (in_w s - in_r s)"
    using s con_queue_length [OF s] by (simp add: con_ok_def unat_sub)
  consider (erase) "d = 0x7f \<or> d = 0x08" | (full) "\<not> (d = 0x7f \<or> d = 0x08)" "in_w s - in_r s \<ge> INBUF"
    | (put) "\<not> (d = 0x7f \<or> d = 0x08)" "\<not> in_w s - in_r s \<ge> INBUF" by blast
  then show ?thesis
  proof cases
    case erase
    show ?thesis
    proof (cases "in_r s < in_w s")
      case True
      obtain u where u: "uart_puts rd wr [8, 32, 8] (uart s) = Some u"
          "sent u = sent (uart s) @ [8, 32, 8]" "rx u = rx (uart s)"
        using uart_puts_ok [of "[8, 32, 8]" "uart s"] by auto
      have "unat (in_w s - 1) \<le> unat (in_w s)"
        using True by (simp add: unat_minus_one word_neq_0_conv order_le_less_trans [OF word_zero_le True])
      with True erase u s console_erase [OF s True, of u] show ?thesis
        by (auto simp: console_intr_def edit_def Let_def simp flip: d_def simp del: uart_puts.simps)
    next
      case False
      then have "con_queue s = []" using s by (simp add: con_queue_empty con_ok_def)
      with False erase s show ?thesis
        by (auto simp: console_intr_def edit_def Let_def simp flip: d_def)
    qed
  next
    case full
    then have "128 \<le> length (con_queue s)" by (simp add: len INBUF_def word_le_nat_alt)
    with full s show ?thesis
      by (auto simp: console_intr_def edit_def Let_def simp flip: d_def)
  next
    case put
    then have room: "length (con_queue s) < 128" by (simp add: len INBUF_def word_le_nat_alt)
    obtain u where u: "uart_putc rd wr d (uart s) = Some u" "sent u = sent (uart s) @ [d]" "rx u = rx (uart s)"
      using putc_raw_ok [of d "uart s"] by (auto simp: uart_putc_def)
    have "unat (in_w s + 1) = Suc (unat (in_w s))"
      using top by (metis add.commute add_eq_0_iff2 unatSuc)
    with put room u console_put [OF s _ top] con_queue_length [OF s] show ?thesis
      by (auto simp: console_intr_def edit_def Let_def simp flip: d_def)
  qed
qed

lemma deliver_ok:
  "con_ok s \<Longrightarrow> unat (in_w s) + length cs < 2 ^ 64 \<Longrightarrow>
   \<exists>s'. deliver rd wr cs s = Some s' \<and> con_ok s' \<and> con_queue s' = fst (edits cs (con_queue s)) \<and>
     sent (uart s') = sent (uart s) @ snd (edits cs (con_queue s)) \<and> in_r s' = in_r s \<and>
     unat (in_w s') \<le> unat (in_w s) + length cs \<and>
     wakes s' + count_list (con_queue s) 10 = wakes s + count_list (con_queue s') 10"
proof (induction cs arbitrary: s)
  case (Cons c cs)
  have "in_w s \<noteq> -1" using Cons.prems(2) by (auto simp: unat_max)
  from console_intr_ok [OF Cons.prems(1) this, of c]
  obtain s1 where s1: "console_intr rd wr c s = Some s1" "con_ok s1" "con_queue s1 = fst (edit c (con_queue s))"
      "sent (uart s1) = sent (uart s) @ snd (edit c (con_queue s))" "in_r s1 = in_r s"
      "unat (in_w s1) \<le> Suc (unat (in_w s))"
      "wakes s1 = wakes s + (if snd (edit c (con_queue s)) = [10] then 1 else 0)" by blast
  have "wakes s1 + count_list (con_queue s) 10 = wakes s + count_list (con_queue s1) 10"
    using s1(3,7) edit_newlines [of c "con_queue s"] by simp
  with s1 Cons.IH [of s1] Cons.prems(2) show ?case by (auto simp: split_beta)
qed simp

text \<open>A sleep on a ring without a newline ends exactly with the first bytes that bring one.\<close>

lemma sleep_inbuf_ok:
  assumes "con_ok s" "unat (in_w s) + length (concat naps) < 2 ^ 64" "10 \<notin> set (con_queue s)"
  shows "(10 \<notin> set (fst (edits (concat naps) (con_queue s))) \<longrightarrow>
       (\<exists>s'. sleep_inbuf rd wr naps s = Some (None, s') \<and> con_ok s' \<and>
          con_queue s' = fst (edits (concat naps) (con_queue s)))) \<and>
     (naps = idle @ b # rest \<and> 10 \<notin> set (fst (edits (concat idle) (con_queue s))) \<and>
        10 \<in> set (fst (edits (concat idle @ b) (con_queue s))) \<longrightarrow>
       (\<exists>s'. sleep_inbuf rd wr naps s = Some (Some rest, s') \<and> con_ok s' \<and>
          con_queue s' = fst (edits (concat idle @ b) (con_queue s))))"
  using assms
proof (induction naps arbitrary: s idle)
  case (Cons x xs)
  have "unat (in_w s) + length x < 2 ^ 64" using Cons.prems(2) by simp
  from deliver_ok [OF Cons.prems(1) this]
  obtain s1 where s1: "deliver rd wr x s = Some s1" "con_ok s1" "con_queue s1 = fst (edits x (con_queue s))"
      "unat (in_w s1) \<le> unat (in_w s) + length x"
      "wakes s1 + count_list (con_queue s) 10 = wakes s + count_list (con_queue s1) 10" by blast
  have woken: "wakes s < wakes s1 \<longleftrightarrow> 10 \<in> set (con_queue s1)"
    using s1(5) Cons.prems(3) by (simp add: count_list_0_iff) (metis count_list_0_iff neq0_conv)
  have sleep: "sleep_inbuf rd wr (x # xs) s =
      (if 10 \<in> set (con_queue s1) then Some (Some xs, s1) else sleep_inbuf rd wr xs s1)"
    by (simp add: s1(1) woken)
  have fit: "unat (in_w s1) + length (concat xs) < 2 ^ 64" using s1(4) Cons.prems(2) by simp
  show ?case
  proof (cases "10 \<in> set (con_queue s1)")
    case True
    have "10 \<in> set (fst (edits (concat xs) (con_queue s1)))"
      using edits_newline [OF True] .
    then have first: "10 \<in> set (fst (edits (concat (x # xs)) (con_queue s)))"
      by (simp add: fst_edits_append s1(3))
    have "idle = []" if "x # xs = idle @ b # rest" "10 \<notin> set (fst (edits (concat idle) (con_queue s)))"
    proof (cases idle)
      case (Cons y ys)
      then have "10 \<in> set (fst (edits (concat idle) (con_queue s)))"
        using that(1) edits_newline [OF True, of "concat ys"] by (simp add: fst_edits_append s1(3))
      with that(2) show ?thesis by simp
    qed
    with first True s1(2,3) show ?thesis unfolding sleep by auto
  next
    case False
    have "(x # xs = idle @ b # rest \<and> 10 \<in> set (fst (edits (concat idle @ b) (con_queue s)))) \<longrightarrow>
        (\<exists>ys. idle = x # ys \<and> xs = ys @ b # rest)"
      using False s1(3) by (cases idle) auto
    with Cons.IH [OF s1(2) fit False, of "tl idle"] False show ?thesis
      unfolding sleep by (auto simp: fst_edits_append s1(3))
  qed
qed simp

lemma uart_intr_ok:
  "con_ok s \<Longrightarrow> unat (in_w s) + length (rx (uart s)) < 2 ^ 64 \<Longrightarrow>
   \<exists>s'. uart_intr rd wr s = Some s' \<and> con_ok s' \<and> rx (uart s') = [] \<and>
     con_queue s' = fst (edits (rx (uart s)) (con_queue s)) \<and>
     sent (uart s') = sent (uart s) @ snd (edits (rx (uart s)) (con_queue s)) \<and> in_r s' = in_r s"
proof (induction "rx (uart s)" arbitrary: s)
  case Nil
  obtain v u where g: "uart_getc rd (uart s) = (v, u)" by (cases "uart_getc rd (uart s)")
  have "con_ok (s\<lparr>uart := u\<rparr>) = con_ok s" "con_queue (s\<lparr>uart := u\<rparr>) = con_queue s"
    by (simp_all add: con_ok_def con_queue_def)
  with uart_getc_ok [OF g] Nil show ?case
    by (subst uart_intr.simps) (simp add: g flip: Nil(1))
next
  case (Cons c cs)
  obtain v u where g: "uart_getc rd (uart s) = (v, u)" by (cases "uart_getc rd (uart s)")
  define t where "t = s\<lparr>uart := u\<rparr>"
  have t: "con_ok t" "con_queue t = con_queue s" "in_w t = in_w s" "in_r t = in_r s"
      "sent (uart t) = sent (uart s)" "rx (uart t) = cs" and v: "v = uint c"
    using Cons.prems(1) uart_getc_ok [OF g] by (simp_all add: t_def con_ok_def con_queue_def flip: Cons(2))
  have "in_w t \<noteq> -1"
    using Cons.prems(2) by (auto simp: t(3) unat_max simp flip: Cons(2))
  from console_intr_ok [OF t(1) this, of c]
  obtain s1 where s1: "console_intr rd wr c t = Some s1" "con_ok s1" "con_queue s1 = fst (edit c (con_queue s))"
      "sent (uart s1) = sent (uart s) @ snd (edit c (con_queue s))" "in_r s1 = in_r s" "rx (uart s1) = cs"
      "unat (in_w s1) \<le> Suc (unat (in_w s))" unfolding t by blast
  have "uart_intr rd wr s = uart_intr rd wr s1"
    by (subst uart_intr.simps) (simp add: g v s1(1) flip: t_def)
  with s1 Cons(1) [of s1] Cons.prems(2) show ?case by (auto simp: split_beta simp flip: Cons(2))
qed

end

section \<open>Reading\<close>

lemma read_line:
  "con_ok s \<Longrightarrow> 10 \<in> set (take k (con_queue s)) \<or> k \<le> length (con_queue s) \<Longrightarrow> n = i + int k \<Longrightarrow>
   \<exists>s'. read_loop rd wr n i dst naps s =
       Some (Returned (i + int (length (line k (con_queue s)))) (dst @ line k (con_queue s)) s') \<and>
     con_ok s' \<and> con_queue s' = drop (length (line k (con_queue s))) (con_queue s) \<and> uart s' = uart s"
proof (induction k arbitrary: i dst s)
  case 0
  then show ?case by (simp add: read_loop.simps [of _ _ _ i])
next
  case (Suc k)
  have ne: "in_r s \<noteq> in_w s" using Suc.prems(1,2) by (auto simp flip: con_queue_empty)
  define s1 where "s1 = s\<lparr>in_r := in_r s + 1\<rparr>"
  define c where "c = inbuf s ! unat (in_r s mod INBUF)"
  have q: "con_ok s1" "con_queue s = c # con_queue s1"
    using console_get [OF Suc.prems(1) ne] by (simp_all add: s1_def c_def)
  have u: "uart s1 = uart s" by (simp add: s1_def)
  have r: "read_loop rd wr n i dst naps s = (if c = 10 then Some (Returned (i + 1) (dst @ [c]) s1)
      else read_loop rd wr n (i + 1) (dst @ [c]) naps s1)"
    using ne Suc.prems(3) by (simp add: read_loop.simps [of _ _ _ i] Let_def flip: s1_def c_def)
  show ?case
  proof (cases "c = 10")
    case True
    then show ?thesis using q u unfolding r by simp
  next
    case False
    with Suc.IH [OF q(1), of "i + 1" "dst @ [c]"] Suc.prems(2,3) q u show ?thesis
      unfolding r by auto
  qed
qed

section \<open>Properties\<close>

text \<open>
  Claim C16. Interrupt to reader: \<^verbatim>\<open>uart_intr\<close> returns, leaves nothing in the chip's receive
  queue, and has applied the line editor to every byte that was there, echoing as the editor
  says; a following \<^verbatim>\<open>console_read\<close> that finds a whole line or \<open>n\<close> bytes returns exactly the
  first line (cut at \<open>n\<close> bytes) and leaves the rest for the next call.
\<close>
theorem console_delivers_lines:
  assumes dev: "ns16550 rd wr sent rx busy" and s: "con_ok s"
    and top: "unat (in_w s) + length (rx (uart s)) < 2 ^ 64"
    and q: "q = fst (edits (rx (uart s)) (con_queue s))"
    and line: "10 \<in> set (take n q) \<or> n \<le> length q"
  shows "\<exists>s1 s2. uart_intr rd wr s = Some s1 \<and> rx (uart s1) = [] \<and>
     sent (uart s1) = sent (uart s) @ snd (edits (rx (uart s)) (con_queue s)) \<and>
     console_read rd wr (int n) naps s1 = Some (Returned (int (length (line n q))) (line n q) s2) \<and>
     con_ok s2 \<and> con_queue s2 = drop (length (line n q)) q"
proof -
  obtain s1 where "uart_intr rd wr s = Some s1" "con_ok s1" "rx (uart s1) = []" "con_queue s1 = q"
      "sent (uart s1) = sent (uart s) @ snd (edits (rx (uart s)) (con_queue s))"
    using ns16550.uart_intr_ok [OF dev s top] q by blast
  with read_line [of s1 n "int n" 0 rd wr "[]" naps] line show ?thesis
    by (auto simp: console_read_def)
qed

theorem console_delivers_lines_witness:
  "\<exists>s1 s2. uart_intr sim_rd sim_wr \<lparr>inbuf = replicate 128 0, in_w = 0, in_r = 0, wakes = 0,
       uart = (0, 2, [104, 105, 120, 127, 13, 106], [])\<rparr> = Some s1 \<and>
     console_read sim_rd sim_wr (int 64) [] s1 = Some (Returned 3 [104, 105, 10] s2) \<and> con_queue s2 = [106]"
proof -
  let ?s = "\<lparr>inbuf = replicate 128 0, in_w = 0, in_r = 0, wakes = 0,
      uart = (0 :: nat, 2 :: nat, [104, 105, 120, 127, 13, 106], [] :: u8 list)\<rparr>"
  have 1: "con_ok ?s" "con_queue ?s = []" by (simp_all add: con_ok_def con_queue_def)
  have 2: "fst (edits [104, 105, 120, 127, 13, 106] []) = [104, 105, 10, 106]" by code_simp
  have 3: "line 64 [104, 105, 10, 106] = [104, 105, 10]" by code_simp
  from console_delivers_lines [OF sim.ns16550_axioms 1(1), of "[104, 105, 10, 106]" 64 "[]"]
  show ?thesis by (simp add: 1(2) 2 3 del: of_nat_numeral edits.simps) blast
qed

text \<open>
  Claim C17. A reader that finds the ring empty sleeps until interrupts have completed a line,
  however the bytes they deliver are split over the time it sleeps. While the line editor has no
  newline in its queue the reader stays asleep, even with enough bytes there for the whole
  request; with the first bytes that bring a newline it is woken and \<^verbatim>\<open>console_read\<close> returns the
  first line of what the editor made of all of them, cut at \<open>n\<close> bytes, and leaves the rest.
\<close>
theorem console_read_blocks:
  assumes dev: "ns16550 rd wr sent rx busy" and s: "con_ok s" and empty: "con_queue s = []"
    and top: "unat (in_w s) + length (concat naps) < 2 ^ 64" and n: "0 < n"
  shows "(10 \<notin> set (fst (edits (concat naps) [])) \<longrightarrow>
       (\<exists>s'. console_read rd wr (int n) naps s = Some (Asleep [] s') \<and>
          con_queue s' = fst (edits (concat naps) []))) \<and>
     (naps = idle @ b # rest \<and> 10 \<notin> set (fst (edits (concat idle) [])) \<and>
        q = fst (edits (concat idle @ b) []) \<and> 10 \<in> set q \<longrightarrow>
       (\<exists>s'. console_read rd wr (int n) naps s =
               Some (Returned (int (length (line n q))) (line n q) s') \<and>
             con_ok s' \<and> con_queue s' = drop (length (line n q)) q))"
proof -
  have e: "in_r s = in_w s" using empty s by (simp add: con_queue_empty)
  have r: "console_read rd wr (int n) naps s = (case sleep_inbuf rd wr naps s of None \<Rightarrow> None
      | Some (None, s1) \<Rightarrow> Some (Asleep [] s1)
      | Some (Some bs, s1) \<Rightarrow> read_loop rd wr (int n) 0 [] bs s1)"
    using n e by (simp add: console_read_def read_loop.simps [of _ _ "int n"])
  have sl: "10 \<notin> set (con_queue s)" by (simp add: empty)
  note sleep = ns16550.sleep_inbuf_ok [OF dev s top sl, of idle b rest, unfolded empty]
  have whole: "10 \<in> set (take n q) \<or> n \<le> length q" if "10 \<in> set q"
    using that by (cases "n \<le> length q") simp_all
  have "\<exists>s'. console_read rd wr (int n) naps s = Some (Returned (int (length (line n q))) (line n q) s') \<and>
      con_ok s' \<and> con_queue s' = drop (length (line n q)) q"
    if "naps = idle @ b # rest" "10 \<notin> set (fst (edits (concat idle) []))"
      "q = fst (edits (concat idle @ b) [])" "10 \<in> set q"
  proof -
    note first = that
    obtain s1 where "sleep_inbuf rd wr naps s = Some (Some rest, s1)" "con_ok s1" "con_queue s1 = q"
      using sleep first by blast
    with read_line [of s1 n "int n" 0 rd wr "[]" rest] whole [OF first(4)] show ?thesis
      by (auto simp: r)
  qed
  moreover have "\<exists>s'. console_read rd wr (int n) naps s = Some (Asleep [] s') \<and>
      con_queue s' = fst (edits (concat naps) [])" if "10 \<notin> set (fst (edits (concat naps) []))"
    using sleep that by (auto simp: r)
  ultimately show ?thesis by blast
qed

theorem console_read_blocks_witness:
  "(\<exists>s'. console_read sim_rd sim_wr (int 2) [[108, 115], [32, 97, 13], [10]] \<lparr>inbuf = replicate 128 0, in_w = 7,
      in_r = 7, wakes = 0, uart = (0, 0, [], [])\<rparr> = Some (Returned 2 [108, 115] s')) \<and>
   (\<exists>s'. console_read sim_rd sim_wr (int 2) [[108, 115], [32, 97]] \<lparr>inbuf = replicate 128 0, in_w = 7,
      in_r = 7, wakes = 0, uart = (0, 0, [], [])\<rparr> = Some (Asleep [] s'))"
proof -
  let ?s = "\<lparr>inbuf = replicate 128 0, in_w = 7, in_r = 7, wakes = 0,
      uart = (0 :: nat, 0 :: nat, [] :: u8 list, [] :: u8 list)\<rparr>"
  have 1: "con_ok ?s" "con_queue ?s = []" by (simp_all add: con_ok_def con_queue_def)
  have 2: "fst (edits [108, 115, 32, 97, 13] []) = [108, 115, 32, 97, 10]" by code_simp
  have 3: "fst (edits [108, 115] []) = [108, 115]" by code_simp
  have 4: "fst (edits [108, 115, 32, 97] []) = [108, 115, 32, 97]" by code_simp
  have 5: "line 2 [108, 115, 32, 97, 10] = [108, 115]" by code_simp
  note blocks = console_read_blocks [OF sim.ns16550_axioms 1]
  have "\<exists>s'. console_read sim_rd sim_wr (int 2) [[108, 115], [32, 97, 13], [10]] ?s = Some (Returned 2 [108, 115] s')"
    using blocks [where naps = "[[108, 115], [32, 97, 13], [10]]" and n = 2 and idle = "[[108, 115]]"
        and b = "[32, 97, 13]" and rest = "[[10]]" and q = "[108, 115, 32, 97, 10]"]
    by (simp add: 2 3 5 del: of_nat_numeral edits.simps) blast
  moreover have "\<exists>s'. console_read sim_rd sim_wr (int 2) [[108, 115], [32, 97]] ?s = Some (Asleep [] s')"
    using blocks [where naps = "[[108, 115], [32, 97]]" and n = 2]
    by (simp add: 4 del: of_nat_numeral edits.simps) blast
  ultimately show ?thesis by blast
qed

section \<open>A full ring\<close>

text \<open>
  When 128 bytes have been typed without a newline, no further byte but a backspace has any effect: the newline
  that would end the line is dropped before \<^verbatim>\<open>wakeup\<close> is reached, so a process asleep in \<^verbatim>\<open>console_read\<close> is not woken
  however many newlines follow.
\<close>

theorem full_ring_never_wakes:
  assumes "con_ok s" "length (con_queue s) = 128" "8 \<notin> set cs" "127 \<notin> set cs"
  shows "deliver rd wr cs s = Some s"
proof -
  have "in_w s - in_r s \<ge> INBUF"
    using assms(1,2) con_queue_length [OF assms(1)]
    by (simp add: con_ok_def INBUF_def word_le_nat_alt unat_sub)
  then have "console_intr rd wr c s = Some s" if "c \<in> set cs" for c
    using that assms(3,4) by (auto simp: console_intr_def Let_def)
  then show ?thesis by (induction cs) auto
qed

theorem full_ring_never_wakes_witness:
  "deliver sim_rd sim_wr [10, 13, 10] \<lparr>inbuf = replicate 128 97, in_w = 128, in_r = 0, wakes = 0, uart = (0, 0, [], [])\<rparr> =
     Some \<lparr>inbuf = replicate 128 97, in_w = 128, in_r = 0, wakes = 0, uart = (0, 0, [], [])\<rparr>"
proof (rule full_ring_never_wakes)
  let ?s = "\<lparr>inbuf = replicate 128 97, in_w = 128, in_r = 0, wakes = 0, uart = (0, 0, [], [])\<rparr> :: sim_uart console"
  show "con_ok ?s" unfolding con_ok_def console.simps length_replicate by simp
  show "length (con_queue ?s) = 128" unfolding con_queue_def console.simps length_map length_upt by simp
qed simp_all

end
