(* ===== verification/FsFormat.thy ===== *)
theory FsFormat
  imports Prelude
begin

text \<open>
  \<^verbatim>\<open>src/src/fsformat.h\<close>: the on-disk structures shared by the kernel (\<^verbatim>\<open>fs.c\<close>) and the image
  builder (\<^verbatim>\<open>tools/mkfs.c\<close>), as records, and their byte layout. The C code converts by casting
  a buffer to a struct pointer; \<open>enc_\<dots>\<close> and \<open>dec_\<dots>\<close> are that cast on a little-endian machine
  with 4-byte \<^verbatim>\<open>unsigned int\<close>, where none of the three structs has padding. Each pair is an
  instance of the locale \<open>codec\<close>.
\<close>

section \<open>Layout constants\<close>

definition FS_MAGIC :: u32 where "FS_MAGIC = 0x52465332"
definition BSIZE :: nat where "BSIZE = 512"
definition MAXFILES :: nat where "MAXFILES = 8"
definition NAMELEN :: nat where "NAMELEN = 56"
definition DIRBLOCK :: nat where "DIRBLOCK = 1"
definition LOGHDR :: nat where "LOGHDR = 2"
definition LOGSTART :: nat where "LOGSTART = 3"
definition LOGN :: nat where "LOGN = 16"
definition DATASTART :: nat where "DATASTART = LOGSTART + LOGN"

lemmas layout_defs = BSIZE_def MAXFILES_def NAMELEN_def DIRBLOCK_def LOGHDR_def LOGSTART_def LOGN_def
  DATASTART_def

section \<open>The structures\<close>

record fs_superblock =
  sb_magic :: u32
  sb_nfiles :: u32
  sb_next_free :: u32
  sb_total_blocks :: u32

record fs_dirent =
  name :: "u8 list"
  fsize :: u32
  start :: u32

record fs_loghdr =
  committed :: u32
  hn :: u32
  blk :: "u32 list"

definition enc_superblock :: "fs_superblock \<Rightarrow> u8 list" where
  "enc_superblock sb = le32 (sb_magic sb) @ le32 (sb_nfiles sb) @ le32 (sb_next_free sb) @ le32 (sb_total_blocks sb)"

definition dec_superblock :: "u8 list \<Rightarrow> fs_superblock" where
  "dec_superblock b = \<lparr>sb_magic = un_le32 b, sb_nfiles = un_le32 (drop 4 b),
     sb_next_free = un_le32 (drop 8 b), sb_total_blocks = un_le32 (drop 12 b)\<rparr>"

definition enc_dirent :: "fs_dirent \<Rightarrow> u8 list" where
  "enc_dirent e = name e @ le32 (fsize e) @ le32 (start e)"

definition dec_dirent :: "u8 list \<Rightarrow> fs_dirent" where
  "dec_dirent b = \<lparr>name = take NAMELEN b, fsize = un_le32 (drop NAMELEN b), start = un_le32 (drop (NAMELEN + 4) b)\<rparr>"

definition enc_loghdr :: "fs_loghdr \<Rightarrow> u8 list" where
  "enc_loghdr h = le32 (committed h) @ le32 (hn h) @ concat (map le32 (blk h))"

definition dec_loghdr :: "u8 list \<Rightarrow> fs_loghdr" where
  "dec_loghdr b = \<lparr>committed = un_le32 b, hn = un_le32 (drop 4 b),
     blk = map (\<lambda>i. un_le32 (drop (i * 4) (drop 8 b))) [0..<LOGN]\<rparr>"

definition dirent_ok :: "fs_dirent \<Rightarrow> bool" where
  "dirent_ok e \<longleftrightarrow> length (name e) = NAMELEN"

definition loghdr_ok :: "fs_loghdr \<Rightarrow> bool" where
  "loghdr_ok h \<longleftrightarrow> length (blk h) = LOGN"

interpretation superblock: codec enc_superblock dec_superblock 16 "\<lambda>_. True"
  by unfold_locales (simp_all add: enc_superblock_def dec_superblock_def codec_simps)

interpretation dirent: codec enc_dirent dec_dirent 64 dirent_ok
  by unfold_locales (simp_all add: enc_dirent_def dec_dirent_def dirent_ok_def NAMELEN_def codec_simps)

interpretation loghdr: codec enc_loghdr dec_loghdr 72 loghdr_ok
proof
  fix h :: fs_loghdr and rest
  assume ok: "loghdr_ok h"
  show "length (enc_loghdr h) = 72"
    using ok le32.array_width [of "blk h"] by (simp add: enc_loghdr_def loghdr_ok_def LOGN_def)
  have "map (\<lambda>i. un_le32 (drop (i * 4) (concat (map le32 (blk h)) @ rest))) [0..<LOGN] = blk h"
    using ok le32.array_decode [of "blk h" rest] by (simp add: loghdr_ok_def del: drop_append)
  moreover have "drop 4 (enc_loghdr h @ rest) = le32 (hn h) @ concat (map le32 (blk h)) @ rest"
    "drop 8 (enc_loghdr h @ rest) = concat (map le32 (blk h)) @ rest"
    by (simp_all add: enc_loghdr_def)
  ultimately show "dec_loghdr (enc_loghdr h @ rest) = h"
    by (simp only: dec_loghdr_def) (simp add: enc_loghdr_def codec_simps)
qed

section \<open>One block\<close>

text \<open>The loop that copies a struct into a zero-padded block.\<close>

definition block_image :: "u8 list \<Rightarrow> u8 list" where
  "block_image p = map (\<lambda>j. if j < length p then p ! j else 0) [0..<BSIZE]"

lemma block_image_length [simp]: "length (block_image p) = 512"
  by (simp add: block_image_def BSIZE_def)

lemma block_image_eq: "length p \<le> 512 \<Longrightarrow> block_image p = p @ replicate (512 - length p) 0"
  by (rule nth_equalityI) (auto simp: block_image_def BSIZE_def nth_append)

lemma dec_superblock_image: "dec_superblock (block_image (enc_superblock sb)) = sb"
  using superblock.enc_width [of sb] by (simp add: block_image_eq superblock.dec_enc)

lemma dec_loghdr_image: "loghdr_ok h \<Longrightarrow> dec_loghdr (block_image (enc_loghdr h)) = h"
  using loghdr.enc_width [of h] by (simp add: block_image_eq loghdr.dec_enc)

text \<open>A directory is eight entries, which fill one block.\<close>

definition dec_dir :: "u8 list \<Rightarrow> fs_dirent list" where
  "dec_dir b = map (\<lambda>i. dec_dirent (drop (i * 64) b)) [0..<MAXFILES]"

definition dir_bytes :: "fs_dirent list \<Rightarrow> u8 list" where
  "dir_bytes d = concat (map enc_dirent d)"

lemma dec_dir_image:
  assumes "length d = MAXFILES" "\<forall>e \<in> set d. dirent_ok e"
  shows "dec_dir (block_image (dir_bytes d)) = d"
proof -
  have "block_image (dir_bytes d) = dir_bytes d @ []"
    using assms dirent.array_width [of d] by (simp add: dir_bytes_def block_image_eq MAXFILES_def)
  then show ?thesis
    using assms dirent.array_decode [of d "[]"] by (simp add: dec_dir_def dir_bytes_def del: drop_append)
qed

lemma dec_dir_ok: "length b = 512 \<Longrightarrow> length (dec_dir b) = MAXFILES \<and> (\<forall>e \<in> set (dec_dir b). dirent_ok e)"
  by (auto simp: dec_dir_def dec_dirent_def dirent_ok_def MAXFILES_def NAMELEN_def)

section \<open>C strings in fixed buffers\<close>

text \<open>
  \<^verbatim>\<open>streq\<close> walks two zero-terminated strings. A list stands for the memory from the pointer
  on; its end counts as a zero byte. For a directory name the list is the rest of the
  directory array from that entry, so a name with no zero in its 56 bytes runs on into
  \<^verbatim>\<open>size\<close> as it does in memory.
\<close>

definition hd0 :: "u8 list \<Rightarrow> u8" where
  "hd0 a = (case a of [] \<Rightarrow> 0 | c # _ \<Rightarrow> c)"

fun streq :: "u8 list \<Rightarrow> u8 list \<Rightarrow> bool" where
  "streq (a # as) (b # bs) =
     (if a \<noteq> 0 \<and> b \<noteq> 0 then if a \<noteq> b then False else streq as bs else a = b)"
| "streq as bs = (hd0 as = hd0 bs)"

definition cstr :: "u8 list \<Rightarrow> u8 list" where
  "cstr a = takeWhile (\<lambda>c. c \<noteq> 0) a"

lemma streq_cstr: "streq a b \<longleftrightarrow> cstr a = cstr b"
  by (induction a b rule: streq.induct) (auto simp: cstr_def hd0_def split: list.splits)

lemma cstr_append: "0 \<in> set a \<Longrightarrow> cstr (a @ b) = cstr a"
  by (induction a) (auto simp: cstr_def)

lemma cstr_take: "0 \<notin> set (cstr a)" "cstr (cstr a) = cstr a"
  by (auto simp: cstr_def dest: set_takeWhileD)

end
