(* ===== verification/Virtio.thy ===== *)
theory Virtio
  imports FsFormat
begin

text \<open>
  \<^verbatim>\<open>src/src/virtio.c\<close>: the polling virtio-blk driver. The device is not code of the
  repository: it is the parameter \<open>dev\<close>, a function that is run when the driver rings
  \<^verbatim>\<open>QUEUE_NOTIFY\<close> and sees what the driver has put into memory by then. What the virtio
  specification promises of a block device for a well-formed request is the locale
  \<open>blk_device\<close>; the driver's theorem is that \<^verbatim>\<open>virtio_disk_rw\<close> submits such a request and
  so reads or writes one block. A device may also stop answering: the driver then polls for
  ever, which is the outcome \<open>Inl\<close> with the state the device was left in. That outcome is how
  a power failure in the middle of a file system operation appears.
\<close>

section \<open>Outcomes of code that waits for a device\<close>

type_synonym ('d, 'a) io = "'d + 'a"

definition io_bind :: "('d, 'a) io \<Rightarrow> ('a \<Rightarrow> ('d, 'b) io) \<Rightarrow> ('d, 'b) io" where
  "io_bind m f = (case m of Inl d \<Rightarrow> Inl d | Inr x \<Rightarrow> f x)"

text \<open>
  \<open>io_post C R m\<close>: if \<open>m\<close> returns \<open>x\<close> then \<open>R x\<close>, and if it hangs with the device in state
  \<open>d\<close> then \<open>C d\<close>.
\<close>

definition io_post :: "('d \<Rightarrow> bool) \<Rightarrow> ('a \<Rightarrow> bool) \<Rightarrow> ('d, 'a) io \<Rightarrow> bool" where
  "io_post C R m = (case m of Inl d \<Rightarrow> C d | Inr x \<Rightarrow> R x)"

lemma io_bind_simps [simp]: "io_bind (Inl d) f = Inl d" "io_bind (Inr x) f = f x"
  by (simp_all add: io_bind_def)

lemma io_post_simps [simp]: "io_post C R (Inl d) = C d" "io_post C R (Inr x) = R x"
  by (simp_all add: io_post_def)

lemma io_post_bind:
  assumes "io_post C R m" "\<And>x. R x \<Longrightarrow> io_post C Q (f x)"
  shows "io_post C Q (io_bind m f)"
  using assms by (cases m) auto

lemma io_post_mono:
  assumes "io_post C R m" "\<And>d. C d \<Longrightarrow> C' d" "\<And>x. R x \<Longrightarrow> R' x"
  shows "io_post C' R' m"
  using assms by (cases m) auto

lemma io_post_false: "io_post (\<lambda>_. False) R m \<longleftrightarrow> (\<exists>x. m = Inr x \<and> R x)"
  by (cases m) auto

text \<open>A counted loop whose body waits for the device.\<close>

fun io_fold :: "('i \<Rightarrow> 's \<Rightarrow> ('d, 's) io) \<Rightarrow> 'i list \<Rightarrow> 's \<Rightarrow> ('d, 's) io" where
  "io_fold f [] s = Inr s"
| "io_fold f (i # is) s = io_bind (f i s) (io_fold f is)"

lemma io_fold_upt:
  assumes "P 0 s" "\<And>i s. i < n \<Longrightarrow> P i s \<Longrightarrow> io_post C (P (Suc i)) (f i s)"
  shows "io_post C (P n) (io_fold f [0..<n] s)"
proof -
  have "io_post C (P n) (io_fold f [k..<n] s)" if "P k s" "k \<le> n" for k s
    using that
  proof (induction "n - k" arbitrary: k s)
    case (Suc m)
    then have "k < n" by simp
    with Suc assms(2) [of k s] show ?case
      by (auto simp: upt_conv_Cons intro!: io_post_bind [where R = "P (Suc k)"])
  qed simp
  from this [of 0 s] assms(1) show ?thesis by simp
qed

section \<open>The driver\<close>

definition NUM :: u16 where "NUM = 8"
definition VRING_DESC_F_NEXT :: u16 where "VRING_DESC_F_NEXT = 1"
definition VRING_DESC_F_WRITE :: u16 where "VRING_DESC_F_WRITE = 2"
definition VIRTIO_BLK_T_IN :: u32 where "VIRTIO_BLK_T_IN = 0"
definition VIRTIO_BLK_T_OUT :: u32 where "VIRTIO_BLK_T_OUT = 1"

text \<open>
  The three objects a chain points to are kernel variables, so a descriptor's \<^verbatim>\<open>addr\<close> is the
  name of the object.
\<close>

datatype dma_ptr = At_null | At_breq | At_buf | At_bstatus

record virtq_desc =
  addr :: dma_ptr
  dlen :: u32
  flags :: u16
  dnext :: u16

record virtio_blk_req =
  rtype :: u32
  reserved :: u32
  sector :: u64

record 'd vdisk =
  disk_ok :: bool
  desc :: "virtq_desc list"
  avail_ring :: "u16 list"
  avail_idx :: u16
  used_idx :: u16
  used_seen :: u16
  breq :: virtio_blk_req
  bstatus :: u8
  device :: 'd

text \<open>What the device finds in memory at the notification, and what it may leave there.\<close>

record submission =
  sdesc :: "virtq_desc list"
  savail_ring :: "u16 list"
  savail_idx :: u16
  sused_idx :: u16
  sreq :: virtio_blk_req
  sbuf :: "u8 list"

record completion =
  cbuf :: "u8 list"
  cstatus :: u8
  cused_idx :: u16

type_synonym 'd blkdev = "submission \<Rightarrow> 'd \<Rightarrow> 'd \<times> completion option"

definition virtio_disk_rw ::
    "'d blkdev \<Rightarrow> u64 \<Rightarrow> u8 list \<Rightarrow> bool \<Rightarrow> 'd vdisk \<Rightarrow> ('d, int \<times> u8 list \<times> 'd vdisk) io" where
  "virtio_disk_rw dev block buf write v =
     (if \<not> disk_ok v then Inr (-1, buf, v)
      else
        let req = \<lparr>rtype = (if write then VIRTIO_BLK_T_OUT else VIRTIO_BLK_T_IN),
                   reserved = 0, sector = block\<rparr>;
            d0 = \<lparr>addr = At_breq, dlen = 16, flags = VRING_DESC_F_NEXT, dnext = 1\<rparr>;
            d1 = \<lparr>addr = At_buf, dlen = of_nat BSIZE,
                   flags = (if write then 0 else VRING_DESC_F_WRITE) OR VRING_DESC_F_NEXT, dnext = 2\<rparr>;
            d2 = \<lparr>addr = At_bstatus, dlen = 1, flags = VRING_DESC_F_WRITE, dnext = 0\<rparr>;
            v1 = v\<lparr>breq := req, desc := (desc v)[0 := d0, 1 := d1, 2 := d2], bstatus := 0xff,
                   avail_ring := (avail_ring v)[unat (avail_idx v mod NUM) := 0],
                   avail_idx := avail_idx v + 1\<rparr>;
            q = \<lparr>sdesc = desc v1, savail_ring = avail_ring v1, savail_idx = avail_idx v1,
                 sused_idx = used_idx v1, sreq = breq v1, sbuf = buf\<rparr>;
            (d', r) = dev q (device v1)
        in case r of
             None \<Rightarrow> Inl d'
           | Some c \<Rightarrow>
               if cused_idx c = used_seen v1 then Inl d'
               else Inr (if cstatus c = 0 then 0 else -1, cbuf c,
                         v1\<lparr>device := d', bstatus := cstatus c, used_idx := cused_idx c,
                            used_seen := cused_idx c\<rparr>))"

section \<open>The device's side of the contract\<close>

text \<open>
  A request the specification gives a meaning to: the newest entry of the available ring names
  the head of a chain of three descriptors, a 16-byte header the device reads, one sector of
  data, which the device may write exactly when the request is a read, and one status byte the
  device writes.
\<close>

definition chain_ok :: "submission \<Rightarrow> bool \<Rightarrow> bool" where
  "chain_ok q write \<longleftrightarrow>
     (let head = savail_ring q ! unat ((savail_idx q - 1) mod NUM);
          a = sdesc q ! unat head; b = sdesc q ! unat (dnext a); c = sdesc q ! unat (dnext b)
      in unat head < length (sdesc q) \<and> unat (dnext a) < length (sdesc q) \<and> unat (dnext b) < length (sdesc q) \<and>
         addr a = At_breq \<and> dlen a = 16 \<and> flags a = VRING_DESC_F_NEXT \<and>
         addr b = At_buf \<and> dlen b = 512 \<and>
         flags b = (if write then VRING_DESC_F_NEXT else VRING_DESC_F_NEXT OR VRING_DESC_F_WRITE) \<and>
         addr c = At_bstatus \<and> dlen c = 1 \<and> flags c = VRING_DESC_F_WRITE \<and>
         rtype (sreq q) = (if write then VIRTIO_BLK_T_OUT else VIRTIO_BLK_T_IN) \<and> reserved (sreq q) = 0)"

locale blk_device =
  fixes dev :: "'d blkdev" and content :: "'d \<Rightarrow> nat \<Rightarrow> u8 list" and cap :: nat and dies :: bool
  assumes content_length: "length (content d b) = 512"
    and dev_read: "chain_ok q False \<Longrightarrow> unat (sector (sreq q)) < cap \<Longrightarrow> dev q d = (d', r) \<Longrightarrow>
          content d' = content d \<and>
          (case r of None \<Rightarrow> dies
           | Some c \<Rightarrow> cbuf c = content d (unat (sector (sreq q))) \<and> cstatus c = 0 \<and>
                       cused_idx c = sused_idx q + 1)"
    and dev_write: "chain_ok q True \<Longrightarrow> unat (sector (sreq q)) < cap \<Longrightarrow> length (sbuf q) = 512 \<Longrightarrow>
          dev q d = (d', r) \<Longrightarrow>
          (case r of None \<Rightarrow> dies \<and> (content d' = content d \<or>
                       content d' = (content d)(unat (sector (sreq q)) := sbuf q))
           | Some c \<Rightarrow> content d' = (content d)(unat (sector (sreq q)) := sbuf q) \<and>
                       cbuf c = sbuf q \<and> cstatus c = 0 \<and> cused_idx c = sused_idx q + 1)"

definition vdisk_ok :: "'d vdisk \<Rightarrow> bool" where
  "vdisk_ok v \<longleftrightarrow> disk_ok v \<and> length (desc v) = 8 \<and> length (avail_ring v) = 8 \<and> used_seen v = used_idx v"

lemma submission_ok:
  assumes "vdisk_ok v"
  shows "chain_ok \<lparr>sdesc = (desc v)[0 := \<lparr>addr = At_breq, dlen = 16, flags = VRING_DESC_F_NEXT, dnext = 1\<rparr>,
            1 := \<lparr>addr = At_buf, dlen = of_nat BSIZE,
                  flags = (if write then 0 else VRING_DESC_F_WRITE) OR VRING_DESC_F_NEXT, dnext = 2\<rparr>,
            2 := \<lparr>addr = At_bstatus, dlen = 1, flags = VRING_DESC_F_WRITE, dnext = 0\<rparr>],
          savail_ring = (avail_ring v)[unat (avail_idx v mod NUM) := 0], savail_idx = avail_idx v + 1,
          sused_idx = i, sreq = \<lparr>rtype = (if write then VIRTIO_BLK_T_OUT else VIRTIO_BLK_T_IN),
          reserved = 0, sector = b\<rparr>, sbuf = buf\<rparr> write"
proof -
  have "unat (avail_idx v mod NUM) < 8"
    by (simp add: NUM_def unat_mod)
  then show ?thesis
    using assms by (simp add: chain_ok_def vdisk_ok_def Let_def BSIZE_def
        VRING_DESC_F_NEXT_def VRING_DESC_F_WRITE_def)
qed

context blk_device
begin

text \<open>One block read, one block write: the driver's contract, from the device's.\<close>

lemma rw_read:
  assumes "vdisk_ok v" "unat b < cap"
  shows "io_post (\<lambda>d. dies \<and> content d = content (device v))
    (\<lambda>(r, buf', v'). r = 0 \<and> buf' = content (device v) (unat b) \<and> vdisk_ok v' \<and>
       content (device v') = content (device v))
    (virtio_disk_rw dev b buf False v)"
proof -
  let ?q = "\<lparr>sdesc = (desc v)[0 := \<lparr>addr = At_breq, dlen = 16, flags = VRING_DESC_F_NEXT, dnext = 1\<rparr>,
            1 := \<lparr>addr = At_buf, dlen = of_nat BSIZE,
                  flags = VRING_DESC_F_WRITE OR VRING_DESC_F_NEXT, dnext = 2\<rparr>,
            2 := \<lparr>addr = At_bstatus, dlen = 1, flags = VRING_DESC_F_WRITE, dnext = 0\<rparr>],
          savail_ring = (avail_ring v)[unat (avail_idx v mod NUM) := 0], savail_idx = avail_idx v + 1,
          sused_idx = used_idx v, sreq = \<lparr>rtype = VIRTIO_BLK_T_IN, reserved = 0, sector = b\<rparr>, sbuf = buf\<rparr>"
  obtain d' r where dv: "dev ?q (device v) = (d', r)" by (cases "dev ?q (device v)")
  have "chain_ok ?q False" using submission_ok [OF assms(1), of False] by simp
  note dev_read [OF this _ dv]
  with assms dv show ?thesis
    by (cases r) (auto simp: virtio_disk_rw_def Let_def vdisk_ok_def)
qed

lemma rw_write:
  assumes "vdisk_ok v" "unat b < cap" "length buf = 512"
  shows "io_post (\<lambda>d. dies \<and> (content d = content (device v) \<or> content d = (content (device v))(unat b := buf)))
    (\<lambda>(r, buf', v'). r = 0 \<and> buf' = buf \<and> vdisk_ok v' \<and>
       content (device v') = (content (device v))(unat b := buf))
    (virtio_disk_rw dev b buf True v)"
proof -
  let ?q = "\<lparr>sdesc = (desc v)[0 := \<lparr>addr = At_breq, dlen = 16, flags = VRING_DESC_F_NEXT, dnext = 1\<rparr>,
            1 := \<lparr>addr = At_buf, dlen = of_nat BSIZE, flags = 0 OR VRING_DESC_F_NEXT, dnext = 2\<rparr>,
            2 := \<lparr>addr = At_bstatus, dlen = 1, flags = VRING_DESC_F_WRITE, dnext = 0\<rparr>],
          savail_ring = (avail_ring v)[unat (avail_idx v mod NUM) := 0], savail_idx = avail_idx v + 1,
          sused_idx = used_idx v, sreq = \<lparr>rtype = VIRTIO_BLK_T_OUT, reserved = 0, sector = b\<rparr>, sbuf = buf\<rparr>"
  obtain d' r where dv: "dev ?q (device v) = (d', r)" by (cases "dev ?q (device v)")
  have "chain_ok ?q True" using submission_ok [OF assms(1), of True] by simp
  note dev_write [OF this _ _ dv]
  with assms dv show ?thesis
    by (cases r) (auto simp: virtio_disk_rw_def Let_def vdisk_ok_def)
qed

end

end
