(* ===== verification/Fs.thy ===== *)
theory Fs
  imports Virtio Uart "HOL-Library.Signed_Division"
begin

text \<open>
  \<^verbatim>\<open>src/src/fs.c\<close>: the journaled file system, function by function. The state record holds the
  file's static variables, the driver's state and the text printed so far. Block I/O goes
  through \<^verbatim>\<open>virtio_disk_rw\<close> on a device given as the parameter \<open>dev\<close>, so every operation that
  touches the disk has the two outcomes of theory \<open>Virtio\<close>: it returns, or the device stops in
  the middle of it. A C \<^verbatim>\<open>int\<close> is an \<open>int\<close> in range, with the wrap of 32-bit arithmetic written
  out (\<open>i32\<close>) where the source computes with unchecked values.
\<close>

section \<open>State\<close>

definition MAXBLK :: nat where "MAXBLK = 8192"

record 'd fs =
  dir :: "fs_dirent list"
  nfiles :: int
  mounted :: bool
  next_free :: u32
  total_blocks :: u32
  fsbuf :: "u8 list"
  used :: "nat \<Rightarrow> u8"
  log_blk :: "u32 list"
  log_n :: int
  log_overflow :: bool
  disk :: "'d vdisk"
  out :: "u8 list"

definition i32 :: "int \<Rightarrow> int" where
  "i32 x = sint (word_of_int x :: u32)"

text \<open>Printing, as theory \<open>Uart\<close> shows it to come out.\<close>

definition puts :: "string \<Rightarrow> 'd fs \<Rightarrow> 'd fs" where
  "puts t s = s\<lparr>out := out s @ puts_bytes (bytes_of t)\<rparr>"

definition puts_mem :: "u8 list \<Rightarrow> 'd fs \<Rightarrow> 'd fs" where
  "puts_mem b s = s\<lparr>out := out s @ puts_bytes b\<rparr>"

definition put_dec :: "u64 \<Rightarrow> 'd fs \<Rightarrow> 'd fs" where
  "put_dec n s = s\<lparr>out := out s @ dec_bytes n\<rparr>"

text \<open>\<^verbatim>\<open>virtio_disk_rw(b, fsbuf, write)\<close>; block numbers are \<^verbatim>\<open>uint32\<close> widened to \<^verbatim>\<open>uint64\<close>.\<close>

definition fs_rw :: "'d blkdev \<Rightarrow> u32 \<Rightarrow> bool \<Rightarrow> 'd fs \<Rightarrow> ('d, int \<times> 'd fs) io" where
  "fs_rw dev b write s =
     io_bind (virtio_disk_rw dev (ucast b) (fsbuf s) write (disk s))
       (\<lambda>(r, buf, v). Inr (r, s\<lparr>fsbuf := buf, disk := v\<rparr>))"

text \<open>Most call sites ignore the result.\<close>

definition fs_io :: "'d blkdev \<Rightarrow> u32 \<Rightarrow> bool \<Rightarrow> 'd fs \<Rightarrow> ('d, 'd fs) io" where
  "fs_io dev b write s = io_bind (fs_rw dev b write s) (\<lambda>(r, s). Inr s)"

section \<open>Journal\<close>

definition write_loghdr :: "'d blkdev \<Rightarrow> u32 \<Rightarrow> u32 \<Rightarrow> u32 list \<Rightarrow> 'd fs \<Rightarrow> ('d, 'd fs) io" where
  "write_loghdr dev com n blks s =
     (let h = \<lparr>committed = com, hn = n,
               blk = map (\<lambda>i. if int i < sint n then blks ! i else 0) [0..<LOGN]\<rparr>
      in fs_io dev (of_nat LOGHDR) True (s\<lparr>fsbuf := block_image (enc_loghdr h)\<rparr>))"

definition log_begin :: "'d fs \<Rightarrow> 'd fs" where
  "log_begin s = s\<lparr>log_n := 0, log_overflow := False\<rparr>"

definition log_write :: "'d blkdev \<Rightarrow> u32 \<Rightarrow> u8 list \<Rightarrow> 'd fs \<Rightarrow> ('d, 'd fs) io" where
  "log_write dev dst data s =
     (if log_n s \<ge> int LOGN then Inr (s\<lparr>log_overflow := True\<rparr>)
      else io_bind (fs_io dev (of_int (int LOGSTART + log_n s)) True
                     (s\<lparr>fsbuf := map (\<lambda>j. data ! j) [0..<BSIZE]\<rparr>))
             (\<lambda>s. Inr (s\<lparr>log_blk := (log_blk s)[nat (log_n s) := dst], log_n := log_n s + 1\<rparr>)))"

definition log_install :: "'d blkdev \<Rightarrow> int \<Rightarrow> u32 list \<Rightarrow> 'd fs \<Rightarrow> ('d, 'd fs) io" where
  "log_install dev n blks s =
     io_fold (\<lambda>i s. io_bind (fs_io dev (of_nat (LOGSTART + i)) False s)
                       (fs_io dev (blks ! i) True)) [0..<nat n] s"

definition log_commit :: "'d blkdev \<Rightarrow> 'd fs \<Rightarrow> ('d, 'd fs) io" where
  "log_commit dev s =
     (if log_n s = 0 then Inr s
      else if log_overflow s then
        Inr ((puts (''[fs] transaction too large -- aborted (no partial commit)'' @ [CHR 0x0A]) s)
               \<lparr>log_n := 0, log_overflow := False\<rparr>)
      else io_bind (write_loghdr dev 1 (of_int (log_n s)) (log_blk s) s)
        (\<lambda>s. io_bind (log_install dev (log_n s) (log_blk s) s)
        (\<lambda>s. io_bind (write_loghdr dev 0 0 [] s)
        (\<lambda>s. Inr (s\<lparr>log_n := 0\<rparr>)))))"

definition recover :: "'d blkdev \<Rightarrow> 'd fs \<Rightarrow> ('d, 'd fs) io" where
  "recover dev s =
     io_bind (fs_io dev (of_nat LOGHDR) False s)
       (\<lambda>s. let h = dec_loghdr (fsbuf s) in
          if committed h = 0 then Inr s
          else
            let n = (if hn h > of_nat LOGN then of_nat LOGN else hn h);
                blks = map (\<lambda>i. blk h ! i) [0..<unat n]
            in io_bind (log_install dev (sint n) blks s)
                 (\<lambda>s. io_bind (write_loghdr dev 0 0 [] s)
                 (\<lambda>s. Inr (puts (''[fs] recovered a committed log transaction'' @ [CHR 0x0A]) s))))"

section \<open>Free-block map\<close>

text \<open>\<^verbatim>\<open>(size + BSIZE - 1) / BSIZE\<close> in unsigned arithmetic.\<close>

definition nblocks_of :: "u32 \<Rightarrow> nat" where
  "nblocks_of sz = unat ((sz + of_nat BSIZE - 1) div of_nat BSIZE)"

text \<open>Set or clear the map bytes of the blocks \<open>b0 + k\<close>, \<open>k < n\<close>, that are below \<^verbatim>\<open>MAXBLK\<close>.\<close>

definition mark :: "u8 \<Rightarrow> u32 \<Rightarrow> nat \<Rightarrow> (nat \<Rightarrow> u8) \<Rightarrow> nat \<Rightarrow> u8" where
  "mark v b0 n = fold (\<lambda>k m. if unat (b0 + of_nat k) < MAXBLK then m(unat (b0 + of_nat k) := v) else m) [0..<n]"

definition build_bitmap :: "'d fs \<Rightarrow> 'd fs" where
  "build_bitmap s =
     (let m0 = fold (\<lambda>i m. m(i := 0)) [0..<MAXBLK] (used s);
          m1 = m0(0 := 1, DIRBLOCK := 1, LOGHDR := 1);
          m2 = fold (\<lambda>i m. m(LOGSTART + i := 1)) [0..<LOGN] m1;
          m3 = fold (\<lambda>f m. mark 1 (start (dir s ! f)) (nblocks_of (fsize (dir s ! f))) m) [0..<nat (nfiles s)] m2
      in s\<lparr>used := m3\<rparr>)"

text \<open>
  The search loop of \<^verbatim>\<open>balloc_contig\<close>. \<^verbatim>\<open>s + nblocks\<close> is unsigned in the source, so a negative
  \<^verbatim>\<open>nblocks\<close> becomes a huge one; it grows by one each round and the loop stops above \<^verbatim>\<open>MAXBLK\<close>.
\<close>

function balloc_loop :: "'d fs \<Rightarrow> int \<Rightarrow> u32 \<Rightarrow> int" where
  "balloc_loop s nblocks b =
     (if b + of_int nblocks \<le> total_blocks s \<and> b + of_int nblocks \<le> of_nat MAXBLK then
        if (\<forall>k \<in> set [0..<nat nblocks]. used s (unat (b + of_nat k)) = 0) then sint b
        else balloc_loop s nblocks (b + 1)
      else -1)"
  by pat_completeness auto

termination balloc_loop
proof (relation "measure (\<lambda>(s, n, b). 8193 - unat (b + of_int n))")
  fix s :: "'d fs" and n :: int and b :: u32
  assume "b + of_int n \<le> total_blocks s \<and> b + of_int n \<le> of_nat MAXBLK"
  then have le: "unat (b + of_int n) \<le> 8192" by (simp add: MAXBLK_def word_le_nat_alt)
  have "b + 1 + of_int n = (b + of_int n) + 1" by simp
  moreover have "unat ((b + of_int n) + 1) = Suc (unat (b + of_int n))"
    using le by (simp add: unat_word_ariths)
  ultimately have "unat (b + 1 + of_int n) = Suc (unat (b + of_int n))" by (simp only:)
  with le show "((s, n, b + 1), s, n, b) \<in> measure (\<lambda>(s, n, b). 8193 - unat (b + of_int n))"
    by simp
qed simp

declare balloc_loop.simps [simp del]

definition balloc_contig :: "'d fs \<Rightarrow> int \<Rightarrow> int" where
  "balloc_contig s nblocks =
     (if nblocks = 0 then int DATASTART else balloc_loop s nblocks (of_nat DATASTART))"

section \<open>Mounting\<close>

text \<open>The second half of \<^verbatim>\<open>fs_init\<close>: load superblock and directory, build the map.\<close>

definition load_meta :: "'d blkdev \<Rightarrow> 'd fs \<Rightarrow> ('d, 'd fs) io" where
  "load_meta dev s = io_bind (fs_io dev 0 False s) (\<lambda>s.
     let sb = dec_superblock (fsbuf s); nf = sint (sb_nfiles sb);
         s = s\<lparr>nfiles := (if nf > int MAXFILES then int MAXFILES else nf), next_free := sb_next_free sb\<rparr>
     in io_bind (fs_io dev (of_nat DIRBLOCK) False s) (\<lambda>s.
     let s = build_bitmap (s\<lparr>dir := dec_dir (fsbuf s)\<rparr>)
     in Inr (puts ('' files'' @ [CHR 0x0A]) (put_dec (of_int (nfiles s))
                (puts ''[ok] filesystem mounted (journaled): '' (s\<lparr>mounted := True\<rparr>))))))"

definition fs_init :: "'d blkdev \<Rightarrow> 'd fs \<Rightarrow> ('d, 'd fs) io" where
  "fs_init dev s =
     io_bind (fs_rw dev 0 False s) (\<lambda>(r, s).
       if r \<noteq> 0 then Inr (puts (''[fs] cannot read superblock'' @ [CHR 0x0A]) s)
       else let sb = dec_superblock (fsbuf s) in
       if sb_magic sb \<noteq> FS_MAGIC then Inr (puts (''[fs] bad magic (no filesystem)'' @ [CHR 0x0A]) s)
       else
         let t = sb_total_blocks sb;
             t = (if t = 0 \<or> t > of_nat MAXBLK then of_nat MAXBLK else t)
         in io_bind (recover dev (s\<lparr>total_blocks := t\<rparr>)) (load_meta dev))"

section \<open>Reading\<close>

text \<open>The memory from \<^verbatim>\<open>dir[i].name\<close> on.\<close>

definition name_at :: "'d fs \<Rightarrow> nat \<Rightarrow> u8 list" where
  "name_at s i = dir_bytes (drop i (dir s))"

text \<open>The search loops: the first \<open>i < nfiles\<close> with \<^verbatim>\<open>streq(dir[i].name, nm)\<close>.\<close>

definition lookup :: "'d fs \<Rightarrow> u8 list \<Rightarrow> nat option" where
  "lookup s nm = find (\<lambda>i. streq (name_at s i) nm) [0..<nat (nfiles s)]"

definition fs_ls :: "'d fs \<Rightarrow> 'd fs" where
  "fs_ls s =
     (if \<not> mounted s then puts (''ls: no filesystem'' @ [CHR 0x0A]) s
      else fold (\<lambda>i s. puts ('' bytes)'' @ [CHR 0x0A]) (put_dec (ucast (fsize (dir s ! i)))
                   (puts ''  ('' (puts_mem (name_at s i) (puts ''  '' s)))))
             [0..<nat (nfiles s)] s)"

text \<open>
  The caller's buffer is a function of the offset, so that a write past \<open>mx\<close> would show.
\<close>

function read_blocks :: "'d blkdev \<Rightarrow> u32 \<Rightarrow> u32 \<Rightarrow> u32 \<Rightarrow> (nat \<Rightarrow> u8) \<Rightarrow> 'd fs \<Rightarrow>
    ('d, (nat \<Rightarrow> u8) \<times> 'd fs) io" where
  "read_blocks dev b off remaining buf s =
     (if remaining > 0 then
        io_bind (fs_io dev b False s) (\<lambda>s.
          let n = (if remaining > of_nat BSIZE then of_nat BSIZE else remaining);
              buf = fold (\<lambda>j m. m(unat (off + of_nat j) := fsbuf s ! j)) [0..<unat n] buf
          in read_blocks dev (b + 1) (off + n) (remaining - n) buf s)
      else Inr (buf, s))"
  by pat_completeness auto

lemma chunk_less:
  assumes "(remaining :: u32) > 0"
  shows "unat (remaining - (if remaining > of_nat BSIZE then of_nat BSIZE else remaining)) < unat remaining"
  using assms by (auto simp: BSIZE_def unat_sub_if' word_less_nat_alt)

termination read_blocks
  by (relation "measure (\<lambda>(dev, b, off, remaining, buf, s). unat remaining)")
     (simp_all only: in_measure prod.case chunk_less wf_measure)

declare read_blocks.simps [simp del]

definition fs_read :: "'d blkdev \<Rightarrow> u8 list \<Rightarrow> (nat \<Rightarrow> u8) \<Rightarrow> int \<Rightarrow> 'd fs \<Rightarrow>
    ('d, int \<times> (nat \<Rightarrow> u8) \<times> 'd fs) io" where
  "fs_read dev nm buf mx s =
     (if \<not> mounted s then Inr (-1, buf, s)
      else case lookup s nm of
        None \<Rightarrow> Inr (-1, buf, s)
      | Some i \<Rightarrow>
          let sz = fsize (dir s ! i) in
          if sint sz > mx then Inr (-1, buf, s)
          else io_bind (read_blocks dev (start (dir s ! i)) 0 sz buf s)
                 (\<lambda>(buf, s). Inr (sint sz, buf, s)))"

definition fs_stat :: "u8 list \<Rightarrow> 'd fs \<Rightarrow> (u32 \<times> u32) option" where
  "fs_stat nm s =
     (if \<not> mounted s then None
      else map_option (\<lambda>i. (start (dir s ! i), fsize (dir s ! i))) (lookup s nm))"

function page_blocks :: "'d blkdev \<Rightarrow> u32 \<Rightarrow> u32 \<Rightarrow> u32 \<Rightarrow> u32 \<Rightarrow> (nat \<Rightarrow> u8) \<Rightarrow> 'd fs \<Rightarrow>
    ('d, (nat \<Rightarrow> u8) \<times> 'd fs) io" where
  "page_blocks dev b sz offset done1 buf s =
     (if done1 < 4096 \<and> offset + done1 < sz then
        io_bind (fs_io dev b False s) (\<lambda>s.
          let n = sz - (offset + done1);
              n = (if n > of_nat BSIZE then of_nat BSIZE else n);
              buf = fold (\<lambda>j m. m(unat (done1 + of_nat j) := fsbuf s ! j)) [0..<unat n] buf
          in page_blocks dev (b + 1) sz offset (done1 + of_nat BSIZE) buf s)
      else Inr (buf, s))"
  by pat_completeness auto

lemma page_step: "(done1 :: u32) < 4096 \<Longrightarrow> unat (done1 + of_nat BSIZE) = unat done1 + 512"
  by (simp add: BSIZE_def word_less_nat_alt unat_word_ariths)

termination page_blocks
proof (relation "measure (\<lambda>(dev, b, sz, offset, done1, buf, s). 4608 - unat done1)")
  fix done1 :: u32 and n1 n2 b sz offset and s s' :: "'d fs" and dev :: "'d blkdev" and buf :: "nat \<Rightarrow> u8" and x y
  assume "done1 < 4096 \<and> offset + done1 < sz"
  then have "unat done1 < 4096" "done1 < 4096" by (simp_all add: word_less_nat_alt)
  then show "((dev, b + 1, sz, offset, done1 + of_nat BSIZE, y, s'), dev, b, sz, offset, done1, buf, s)
      \<in> measure (\<lambda>(dev, b, sz, offset, done1, buf, s). 4608 - unat done1)"
    by (simp add: page_step)
qed simp

declare page_blocks.simps [simp del]

definition fs_read_page :: "'d blkdev \<Rightarrow> u32 \<Rightarrow> u32 \<Rightarrow> u32 \<Rightarrow> (nat \<Rightarrow> u8) \<Rightarrow> 'd fs \<Rightarrow>
    ('d, (nat \<Rightarrow> u8) \<times> 'd fs) io" where
  "fs_read_page dev start_block sz offset buf s =
     page_blocks dev (start_block + offset div of_nat BSIZE) sz offset 0
       (fold (\<lambda>i m. m(i := 0)) [0..<4096] buf) s"

function cat_blocks :: "'d blkdev \<Rightarrow> u32 \<Rightarrow> u32 \<Rightarrow> 'd fs \<Rightarrow> ('d, 'd fs) io" where
  "cat_blocks dev b remaining s =
     (if remaining > 0 then
        io_bind (fs_io dev b False s) (\<lambda>s.
          let n = (if remaining > of_nat BSIZE then of_nat BSIZE else remaining)
          in cat_blocks dev (b + 1) (remaining - n)
               (s\<lparr>out := out s @ map (\<lambda>j. fsbuf s ! j) [0..<unat n]\<rparr>))
      else Inr s)"
  by pat_completeness auto

termination cat_blocks
  by (relation "measure (\<lambda>(dev, b, remaining, s). unat remaining)")
     (simp_all only: in_measure prod.case chunk_less wf_measure)

declare cat_blocks.simps [simp del]

definition fs_cat :: "'d blkdev \<Rightarrow> u8 list \<Rightarrow> 'd fs \<Rightarrow> ('d, 'd fs) io" where
  "fs_cat dev nm s =
     (if \<not> mounted s then Inr (puts (''cat: no filesystem'' @ [CHR 0x0A]) s)
      else case lookup s nm of
        Some i \<Rightarrow> cat_blocks dev (start (dir s ! i)) (fsize (dir s ! i)) s
      | None \<Rightarrow>
          let s = puts_mem nm (puts ''cat: no such file: '' s) in Inr (s\<lparr>out := out s @ [10]\<rparr>))"

section \<open>Writing\<close>

definition log_dir :: "'d blkdev \<Rightarrow> 'd fs \<Rightarrow> ('d, 'd fs) io" where
  "log_dir dev s = log_write dev (of_nat DIRBLOCK) (block_image (dir_bytes (dir s))) s"

definition sb_of :: "'d fs \<Rightarrow> fs_superblock" where
  "sb_of s = \<lparr>sb_magic = FS_MAGIC, sb_nfiles = of_int (nfiles s), sb_next_free = next_free s,
     sb_total_blocks = total_blocks s\<rparr>"

definition log_super :: "'d blkdev \<Rightarrow> 'd fs \<Rightarrow> ('d, 'd fs) io" where
  "log_super dev s = log_write dev 0 (block_image (enc_superblock (sb_of s))) s"

text \<open>The bytes \<^verbatim>\<open>data[off..size)\<close>, at most one block, zero padded: one round of the data loop.\<close>

definition data_block :: "u8 list \<Rightarrow> int \<Rightarrow> int \<Rightarrow> u8 list" where
  "data_block data sz off =
     (let n = sz - off; n = (if n > int BSIZE then int BSIZE else n)
      in map (\<lambda>j. if int j < n then data ! nat (off + int j) else 0) [0..<BSIZE])"

text \<open>The name field of a slot after the copy loop: the bytes after the zero keep their old value.\<close>

definition store_name :: "u8 list \<Rightarrow> u8 list \<Rightarrow> u8 list" where
  "store_name nm old = (let k = min (length (cstr nm)) (NAMELEN - 1) in take k nm @ 0 # drop (Suc k) old)"

definition fs_create :: "'d blkdev \<Rightarrow> u8 list \<Rightarrow> u8 list \<Rightarrow> int \<Rightarrow> 'd fs \<Rightarrow> ('d, int \<times> 'd fs) io" where
  "fs_create dev nm data sz s =
     (if \<not> mounted s \<or> nfiles s \<ge> int MAXFILES \<or> sz < 0 then Inr (-1, s)
      else if lookup s nm \<noteq> None then Inr (-1, s)
      else
        let nblocks = i32 (sz + int BSIZE - 1) sdiv int BSIZE in
        if nblocks + 2 > int LOGN then Inr (-1, s)
        else
          let st = balloc_contig s nblocks in
          if st < 0 then Inr (-1, s)
          else
            io_bind (io_fold (\<lambda>b. log_write dev (of_int (st + int b)) (data_block data sz (int b * int BSIZE)))
                       [0..<nat nblocks] (log_begin s)) (\<lambda>s.
            let slot = nat (nfiles s); old = dir s ! slot;
                s = s\<lparr>dir := (dir s)[slot := old\<lparr>name := store_name nm (name old), fsize := of_int sz,
                                                start := of_int st\<rparr>],
                      nfiles := nfiles s + 1,
                      used := fold (\<lambda>b m. m(nat (st + int b) := 1)) [0..<nat nblocks] (used s),
                      next_free := (if of_int (st + nblocks) > next_free s then of_int (st + nblocks)
                                    else next_free s)\<rparr>
            in io_bind (log_dir dev s) (\<lambda>s.
               io_bind (log_super dev s) (\<lambda>s.
               io_bind (log_commit dev s) (\<lambda>s. Inr (0, s))))))"

text \<open>Deleting entry \<open>idx\<close> of \<open>n\<close>: move the later ones down and clear the last.\<close>

definition dir_remove :: "nat \<Rightarrow> nat \<Rightarrow> fs_dirent list \<Rightarrow> fs_dirent list" where
  "dir_remove idx n d =
     (let d = fold (\<lambda>j d. d[j := d ! (j + 1)]) [idx..<n - 1] d
      in d[n - 1 := (d ! (n - 1))\<lparr>name := replicate NAMELEN 0, fsize := 0, start := 0\<rparr>])"

definition fs_delete :: "'d blkdev \<Rightarrow> u8 list \<Rightarrow> 'd fs \<Rightarrow> ('d, int \<times> 'd fs) io" where
  "fs_delete dev nm s =
     (if \<not> mounted s then Inr (-1, s)
      else case lookup s nm of
        None \<Rightarrow> Inr (-1, s)
      | Some idx \<Rightarrow>
          let e = dir s ! idx;
              s = s\<lparr>used := mark 0 (start e) (nblocks_of (fsize e)) (used s),
                    dir := dir_remove idx (nat (nfiles s)) (dir s), nfiles := nfiles s - 1\<rparr>
          in io_bind (log_dir dev (log_begin s)) (\<lambda>s.
             io_bind (log_super dev s) (\<lambda>s.
             io_bind (log_commit dev s) (\<lambda>s. Inr (0, s)))))"

end
