(* ===== verification/FsLog.thy ===== *)
theory FsLog
  imports Fs
begin

text \<open>
  The journal of \<^verbatim>\<open>fs.c\<close>. A disk image maps a block number to its 512 bytes. \<open>pending\<close> reads the
  committed transaction off the log area of an image, \<open>recovered\<close> is the image that replaying
  it gives: the abstract value of the disk, which every crash must keep equal to the old or
  the new one. The lemmas follow the code's phases (log the blocks, write the commit header,
  install, clear the header) with the crash rule of theory \<open>Virtio\<close>.
\<close>

section \<open>Images and transactions\<close>

type_synonym image = "nat \<Rightarrow> u8 list"
type_synonym txn = "(nat \<times> u8 list) list"

definition log_area :: "nat set" where
  "log_area = {LOGHDR..<DATASTART}"

lemma log_area_iff [simp]: "b \<in> log_area \<longleftrightarrow> 2 \<le> b \<and> b < 19"
  by (simp add: log_area_def layout_defs)

definition home_eq :: "image \<Rightarrow> image \<Rightarrow> bool" where
  "home_eq c c' \<longleftrightarrow> (\<forall>b. b \<notin> log_area \<longrightarrow> c b = c' b)"

definition apply_txn :: "txn \<Rightarrow> image \<Rightarrow> image" where
  "apply_txn t c = fold (\<lambda>(b, x) c. c(b := x)) t c"

definition pending :: "image \<Rightarrow> txn" where
  "pending c =
     (let h = dec_loghdr (c LOGHDR) in
      if committed h = 0 then []
      else map (\<lambda>i. (unat (blk h ! i), c (LOGSTART + i))) [0..<min (unat (hn h)) LOGN])"

definition recovered :: "image \<Rightarrow> image" where
  "recovered c = apply_txn (pending c) c"

text \<open>Destinations lie on the disk and outside the log.\<close>

definition txn_ok :: "nat \<Rightarrow> txn \<Rightarrow> bool" where
  "txn_ok cap t \<longleftrightarrow> length t \<le> LOGN \<and> (\<forall>(b, x) \<in> set t. b < cap \<and> b \<notin> log_area)"

text \<open>
  The two shapes a disk can have around a transaction \<open>t\<close> on \<open>c\<close>: no transaction pending, or
  \<open>t\<close> pending and some of its blocks already in place.
\<close>

definition settled :: "image \<Rightarrow> image \<Rightarrow> bool" where
  "settled c x \<longleftrightarrow> pending x = [] \<and> home_eq x c"

definition in_flight :: "image \<Rightarrow> txn \<Rightarrow> image \<Rightarrow> bool" where
  "in_flight c t x \<longleftrightarrow> pending x = t \<and> (\<forall>b. b \<notin> log_area \<longrightarrow> x b = c b \<or> (b, x b) \<in> set t)"

lemma home_eq_refl [simp]: "home_eq c c"
  and home_eq_sym: "home_eq c d \<Longrightarrow> home_eq d c"
  and home_eq_trans: "home_eq c d \<Longrightarrow> home_eq d e \<Longrightarrow> home_eq c e"
  by (auto simp: home_eq_def)

lemma apply_txn_simps [simp]: "apply_txn [] c = c" "apply_txn ((b, x) # t) c = apply_txn t (c(b := x))"
  by (simp_all add: apply_txn_def)

lemma apply_txn_append: "apply_txn (t @ u) c = apply_txn u (apply_txn t c)"
  by (simp add: apply_txn_def)

lemma apply_txn_snoc: "apply_txn (t @ [(b, x)]) c = (apply_txn t c)(b := x)"
  by (simp add: apply_txn_append)

lemma apply_txn_cong:
  "c b = c' b \<or> b \<in> fst ` set t \<Longrightarrow> apply_txn t c b = apply_txn t c' b"
proof (induction t arbitrary: c c')
  case (Cons a t)
  then show ?case by (cases a) (auto intro!: Cons.IH)
qed auto

lemma apply_txn_other: "b \<notin> fst ` set t \<Longrightarrow> apply_txn t c b = c b"
proof (induction t arbitrary: c)
  case (Cons a t)
  then show ?case by (cases a) auto
qed simp

lemma apply_txn_cases: "apply_txn t c b = c b \<or> (b, apply_txn t c b) \<in> set t"
proof (induction t rule: rev_induct)
  case (snoc a t)
  then show ?case by (cases a) (auto simp: apply_txn_snoc)
qed simp

lemma apply_txn_distinct:
  "distinct (map fst t) \<Longrightarrow> (b, x) \<in> set t \<Longrightarrow> apply_txn t c b = x"
proof (induction t rule: rev_induct)
  case (snoc a t)
  then show ?case by (cases a) (auto simp: apply_txn_snoc, force)
qed simp

lemma home_eq_apply: "home_eq c c' \<Longrightarrow> home_eq (apply_txn t c) (apply_txn t c')"
  by (auto simp: home_eq_def intro: apply_txn_cong)

lemma apply_txn_log: "txn_ok cap t \<Longrightarrow> b \<in> log_area \<Longrightarrow> apply_txn t c b = c b"
  by (rule apply_txn_other) (auto simp: txn_ok_def)

lemma txn_ok_take: "txn_ok cap t \<Longrightarrow> txn_ok cap (take i t)"
  by (auto simp: txn_ok_def dest: in_set_takeD)

lemma pending_cong:
  assumes "\<forall>b \<in> log_area. c b = c' b"
  shows "pending c = pending c'"
proof -
  have "c LOGHDR = c' LOGHDR" "\<And>i. i < LOGN \<Longrightarrow> c (LOGSTART + i) = c' (LOGSTART + i)"
    using assms by (simp_all add: layout_defs)
  then show ?thesis by (auto simp: pending_def Let_def)
qed

lemma pending_length: "length (pending c) \<le> LOGN"
  by (simp add: pending_def Let_def)

lemma in_flight_recovered: "in_flight c t x \<Longrightarrow> home_eq (recovered x) (apply_txn t c)"
  unfolding recovered_def in_flight_def home_eq_def by (metis apply_txn_cong fst_conv image_eqI)

lemma settled_recovered: "settled c x \<Longrightarrow> home_eq (recovered x) c"
  by (simp add: settled_def recovered_def)

lemma settled_trans: "settled c x \<Longrightarrow> home_eq c c' \<Longrightarrow> settled c' x"
  by (auto simp: settled_def intro: home_eq_trans)

section \<open>Headers\<close>

definition hdr :: "u32 \<Rightarrow> u32 \<Rightarrow> u32 list \<Rightarrow> u8 list" where
  "hdr com n blks = block_image (enc_loghdr \<lparr>committed = com, hn = n,
     blk = map (\<lambda>i. if int i < sint n then blks ! i else 0) [0..<LOGN]\<rparr>)"

lemma hdr_length [simp]: "length (hdr com n blks) = 512"
  by (simp add: hdr_def)

lemma dec_hdr: "dec_loghdr (hdr com n blks) = \<lparr>committed = com, hn = n,
     blk = map (\<lambda>i. if int i < sint n then blks ! i else 0) [0..<LOGN]\<rparr>"
  unfolding hdr_def by (rule dec_loghdr_image) (simp add: loghdr_ok_def)

lemma pending_clear [simp]: "pending (c(LOGHDR := hdr 0 n blks)) = []"
  by (simp add: pending_def dec_hdr)

lemma sint_small: "0 \<le> k \<Longrightarrow> k < 2 ^ 31 \<Longrightarrow> sint (of_int k :: u32) = k"
  by (simp add: signed_of_int signed_take_bit_int_eq_self)

lemma sint_unat:
  assumes "unat (x :: u32) < 2 ^ 31"
  shows "sint x = int (unat x)"
proof -
  have "int (unat x) < 2 ^ 31"
    using assms by (metis of_nat_less_iff of_nat_numeral of_nat_power)
  then show ?thesis using sint_small [of "int (unat x)"] by simp
qed

lemma unat_small: "0 \<le> k \<Longrightarrow> k < 2 ^ 32 \<Longrightarrow> unat (of_int k :: u32) = nat k"
  by (simp add: unsigned_of_int take_bit_int_eq_self)

lemma unat_nat32: "k < 2 ^ 32 \<Longrightarrow> unat (of_nat k :: u32) = k"
  by (simp add: unsigned_of_nat take_bit_nat_eq_self)

lemma pending_commit:
  assumes n: "n = int (length t)" "length t \<le> LOGN"
    and t: "\<forall>i < length t. unat (blks ! i) = fst (t ! i) \<and> c (LOGSTART + i) = snd (t ! i)"
  shows "pending (c(LOGHDR := hdr 1 (of_int n) blks)) = t"
proof -
  have n16: "length t \<le> 16" using n(2) by (simp add: LOGN_def)
  then have u: "unat (of_int n :: u32) = length t" and i: "sint (of_int n :: u32) = int (length t)"
    using unat_small [of n] sint_small [of n] by (auto simp: n(1) simp del: of_int_of_nat_eq)
  have "LOGSTART + i \<noteq> LOGHDR" for i by (simp add: layout_defs)
  with t n(2) show ?thesis
    by (intro nth_equalityI) (auto simp: pending_def dec_hdr u i Let_def)
qed

section \<open>Block I/O\<close>

abbreviation img :: "('d \<Rightarrow> image) \<Rightarrow> 'd fs \<Rightarrow> image" where
  "img content s \<equiv> content (device (disk s))"

lemma unat_ucast_block: "unat (ucast (b :: u32) :: u64) = unat b"
  by (simp add: unsigned_ucast_eq take_bit_nat_eq_self order_less_trans [OF unat_less])

context blk_device
begin

lemma io_read:
  assumes "vdisk_ok (disk s)" "unat b < cap"
  shows "io_post (\<lambda>d. dies \<and> content d = img content s)
    (\<lambda>s'. \<exists>v. s' = s\<lparr>fsbuf := img content s (unat b), disk := v\<rparr> \<and> vdisk_ok v \<and>
       content (device v) = img content s) (fs_io dev b False s)"
proof -
  have "io_post (\<lambda>d. dies \<and> content d = img content s)
    (\<lambda>(r, buf', v'). r = 0 \<and> buf' = img content s (unat b) \<and> vdisk_ok v' \<and>
       content (device v') = img content s)
    (virtio_disk_rw dev (ucast b) (fsbuf s) False (disk s))"
    using rw_read [OF assms(1), of "ucast b" "fsbuf s"] assms(2) by (simp add: unat_ucast_block)
  then show ?thesis
    by (cases "virtio_disk_rw dev (ucast b) (fsbuf s) False (disk s)") (auto simp: fs_io_def fs_rw_def)
qed

lemma io_write:
  assumes "vdisk_ok (disk s)" "unat b < cap" "length (fsbuf s) = 512"
  shows "io_post (\<lambda>d. dies \<and> (content d = img content s \<or> content d = (img content s)(unat b := fsbuf s)))
    (\<lambda>s'. \<exists>v. s' = s\<lparr>disk := v\<rparr> \<and> vdisk_ok v \<and>
       content (device v) = (img content s)(unat b := fsbuf s)) (fs_io dev b True s)"
proof -
  have "io_post (\<lambda>d. dies \<and> (content d = img content s \<or> content d = (img content s)(unat b := fsbuf s)))
    (\<lambda>(r, buf', v'). r = 0 \<and> buf' = fsbuf s \<and> vdisk_ok v' \<and>
       content (device v') = (img content s)(unat b := fsbuf s))
    (virtio_disk_rw dev (ucast b) (fsbuf s) True (disk s))"
    using rw_write [OF assms(1) _ assms(3), of "ucast b"] assms(2) by (simp add: unat_ucast_block)
  then show ?thesis
    by (cases "virtio_disk_rw dev (ucast b) (fsbuf s) True (disk s)") (auto simp: fs_io_def fs_rw_def)
qed

lemma write_loghdr_ok:
  assumes "vdisk_ok (disk s)" "LOGHDR < cap"
  shows "io_post (\<lambda>d. dies \<and> (content d = img content s \<or> content d = (img content s)(LOGHDR := hdr com n blks)))
    (\<lambda>s'. \<exists>v. s' = s\<lparr>fsbuf := hdr com n blks, disk := v\<rparr> \<and> vdisk_ok v \<and>
       content (device v) = (img content s)(LOGHDR := hdr com n blks)) (write_loghdr dev com n blks s)"
  using io_write [of "s\<lparr>fsbuf := hdr com n blks\<rparr>" "of_nat LOGHDR"] assms
  by (simp add: write_loghdr_def LOGHDR_def flip: hdr_def)

lemma log_install_ok:
  assumes s: "vdisk_ok (disk s)" and cap: "DATASTART \<le> cap" and t: "txn_ok cap t"
    and log: "\<forall>i < length t. unat (blks ! i) = fst (t ! i) \<and> img content s (LOGSTART + i) = snd (t ! i)"
  shows "io_post (\<lambda>d. dies \<and> (\<exists>i. content d = apply_txn (take i t) (img content s)))
    (\<lambda>s'. \<exists>v buf. s' = s\<lparr>fsbuf := buf, disk := v\<rparr> \<and> vdisk_ok v \<and>
       content (device v) = apply_txn t (img content s)) (log_install dev (int (length t)) blks s)"
proof -
  let ?P = "\<lambda>i s'. \<exists>v buf. s' = s\<lparr>fsbuf := buf, disk := v\<rparr> \<and> vdisk_ok v \<and>
       content (device v) = apply_txn (take i t) (img content s)"
  have "io_post (\<lambda>d. dies \<and> (\<exists>i. content d = apply_txn (take i t) (img content s))) (?P (length t))
     (io_fold (\<lambda>i s. io_bind (fs_io dev (of_nat (LOGSTART + i)) False s) (fs_io dev (blks ! i) True))
        [0..<length t] s)"
  proof (rule io_fold_upt)
    have "s = s\<lparr>fsbuf := fsbuf s, disk := disk s\<rparr>" by simp
    with s show "?P 0 s" by (intro exI [of _ "disk s"] exI [of _ "fsbuf s"]) auto
  next
    fix i s' assume i: "i < length t" and "?P i s'"
    then obtain v buf where s': "s' = s\<lparr>fsbuf := buf, disk := v\<rparr>" "vdisk_ok v"
        "content (device v) = apply_txn (take i t) (img content s)" by blast
    obtain b x where bx: "t ! i = (b, x)" by (cases "t ! i")
    then have "(b, x) \<in> set t" using i by (metis nth_mem)
    then have b: "b < cap" "b \<notin> log_area" using t by (auto simp: txn_ok_def)
    have i16: "i < 16" using i t by (simp add: txn_ok_def LOGN_def)
    then have blkno: "unat (of_nat (LOGSTART + i) :: u32) = LOGSTART + i"
      by (intro unat_nat32) (simp add: layout_defs)
    have "apply_txn (take i t) (img content s) (LOGSTART + i) = x"
      using log i bx i16 apply_txn_log [OF txn_ok_take [OF t], of "LOGSTART + i" i "img content s"]
      by (simp add: layout_defs)
    then have rd: "content (device v) (LOGSTART + i) = x" using s' by simp
    have step: "apply_txn (take (Suc i) t) (img content s) = (content (device v))(b := x)"
      using i bx by (simp add: s' take_Suc_conv_app_nth apply_txn_snoc)
    have len: "length x = 512" using rd content_length by metis
    show "io_post (\<lambda>d. dies \<and> (\<exists>i. content d = apply_txn (take i t) (img content s))) (?P (Suc i))
       (io_bind (fs_io dev (of_nat (LOGSTART + i)) False s') (fs_io dev (blks ! i) True))"
    proof (rule io_post_bind)
      have "io_post (\<lambda>d. dies \<and> content d = img content s')
        (\<lambda>s''. \<exists>w. s'' = s'\<lparr>fsbuf := x, disk := w\<rparr> \<and> vdisk_ok w \<and> content (device w) = img content s')
        (fs_io dev (of_nat (LOGSTART + i)) False s')"
        using io_read [of s' "of_nat (LOGSTART + i)"] s' rd cap i16 unfolding blkno by (simp add: layout_defs)
      then show "io_post (\<lambda>d. dies \<and> (\<exists>i. content d = apply_txn (take i t) (img content s)))
        (\<lambda>s''. \<exists>w. s'' = s'\<lparr>fsbuf := x, disk := w\<rparr> \<and> vdisk_ok w \<and> content (device w) = img content s')
        (fs_io dev (of_nat (LOGSTART + i)) False s')"
        by (rule io_post_mono) (use s' in auto)
    next
      fix s'' assume "\<exists>w. s'' = s'\<lparr>fsbuf := x, disk := w\<rparr> \<and> vdisk_ok w \<and> content (device w) = img content s'"
      then obtain w where w: "s'' = s'\<lparr>fsbuf := x, disk := w\<rparr>" "vdisk_ok w" "content (device w) = img content s'"
        by blast
      have u: "unat (blks ! i) = b" using log i bx by simp
      show "io_post (\<lambda>d. dies \<and> (\<exists>i. content d = apply_txn (take i t) (img content s))) (?P (Suc i))
          (fs_io dev (blks ! i) True s'')"
      proof (rule io_post_mono [OF io_write])
        fix d assume "dies \<and> (content d = img content s'' \<or>
            content d = (img content s'')(unat (blks ! i) := fsbuf s''))"
        then show "dies \<and> (\<exists>i. content d = apply_txn (take i t) (img content s))"
          using w s' step u by auto metis
      qed (use w s' u b len step in auto)
    qed
  qed
  then show ?thesis by (simp add: log_install_def)
qed

end

section \<open>Transactions\<close>

text \<open>A transaction \<open>t\<close> on the settled image \<open>c\<close> is being collected.\<close>

definition logging :: "('d \<Rightarrow> image) \<Rightarrow> image \<Rightarrow> txn \<Rightarrow> 'd fs \<Rightarrow> bool" where
  "logging content c t s \<longleftrightarrow> vdisk_ok (disk s) \<and> length (log_blk s) = LOGN \<and> settled c (img content s) \<and>
     log_n s = int (length t) \<and> length t \<le> LOGN \<and>
     (\<forall>i < length t. unat (log_blk s ! i) = fst (t ! i) \<and> img content s (LOGSTART + i) = snd (t ! i))"

text \<open>The parts of the state that the journal code may write.\<close>

definition only_log :: "'d fs \<Rightarrow> 'd fs \<Rightarrow> bool" where
  "only_log s s' \<longleftrightarrow> dir s' = dir s \<and> nfiles s' = nfiles s \<and> mounted s' = mounted s \<and>
     next_free s' = next_free s \<and> total_blocks s' = total_blocks s \<and> used s' = used s"

lemma only_log_refl [simp]: "only_log s s"
  and only_log_trans: "only_log s s' \<Longrightarrow> only_log s' s'' \<Longrightarrow> only_log s s''"
  by (simp_all add: only_log_def)

lemma settled_clear: "home_eq x c \<Longrightarrow> settled c (x(LOGHDR := hdr 0 n blks))"
  unfolding settled_def pending_clear by (auto simp: home_eq_def LOGHDR_def)

lemma pending_nil_upd: "pending c = [] \<Longrightarrow> b \<noteq> LOGHDR \<Longrightarrow> pending (c(b := x)) = []"
  by (auto simp: pending_def Let_def)

lemma settled_log_upd: "settled c x \<Longrightarrow> b \<in> log_area \<Longrightarrow> b \<noteq> LOGHDR \<Longrightarrow> settled c (x(b := y))"
  by (auto simp: settled_def home_eq_def pending_nil_upd)

lemma logging_begin:
  "vdisk_ok (disk s) \<Longrightarrow> length (log_blk s) = LOGN \<Longrightarrow> settled c (img content s) \<Longrightarrow>
   logging content c [] (log_begin s) \<and> only_log s (log_begin s) \<and> \<not> log_overflow (log_begin s)"
  by (simp add: logging_def log_begin_def only_log_def)

lemma copy_id: "length data = 512 \<Longrightarrow> map (\<lambda>j. data ! j) [0..<BSIZE] = data"
  using map_nth [of data] by (simp add: BSIZE_def)

text \<open>A transaction that is being installed is still pending.\<close>

lemma installing_in_flight:
  assumes "txn_ok cap (pending c)"
  shows "in_flight c (pending c) (apply_txn (take i (pending c)) c)"
proof -
  have "pending (apply_txn (take i (pending c)) c) = pending c"
    using apply_txn_log [OF txn_ok_take [OF assms]] by (metis pending_cong)
  then show ?thesis
    using apply_txn_cases [of "take i (pending c)" c] in_set_takeD unfolding in_flight_def by fast
qed

context blk_device
begin

lemma log_write_ok:
  assumes s: "logging content c t s" and cap: "DATASTART \<le> cap" and room: "length t < LOGN"
    and data: "length data = 512"
  shows "io_post (\<lambda>d. dies \<and> settled c (content d))
    (\<lambda>s'. logging content c (t @ [(unat dst, data)]) s' \<and> only_log s s' \<and> log_overflow s' = log_overflow s)
    (log_write dev dst data s)"
proof -
  define b :: u32 where "b = of_int (int LOGSTART + log_n s)"
  let ?s = "s\<lparr>fsbuf := data\<rparr>" and ?I = "(img content s)(LOGSTART + length t := data)"
  have t: "length t < 16" using room by (simp add: LOGN_def)
  have b: "unat b = LOGSTART + length t"
    using s t unat_small [of "int LOGSTART + log_n s"]
    by (simp add: b_def logging_def layout_defs nat_add_distrib)
  have I: "settled c ?I"
    using s t settled_log_upd [of c "img content s" "LOGSTART + length t" data]
    by (simp add: logging_def layout_defs)
  have bc: "unat b < cap" using b t cap by (simp add: layout_defs)
  have w: "io_post (\<lambda>d. dies \<and> settled c (content d))
      (\<lambda>s'. \<exists>v. s' = ?s\<lparr>disk := v\<rparr> \<and> vdisk_ok v \<and> content (device v) = ?I) (fs_io dev b True ?s)"
  proof (rule io_post_mono [OF io_write])
    show "dies \<and> settled c (content d)" if "dies \<and> (content d = img content ?s \<or>
        content d = (img content ?s)(unat b := fsbuf ?s))" for d
      using that s I unfolding b by (auto simp: logging_def)
  qed (use s data bc b in \<open>auto simp: logging_def\<close>)
  have idx: "nat (log_n s) = length t" and ln: "\<not> log_n s \<ge> int LOGN" using s room by (simp_all add: logging_def)
  have post: "logging content c (t @ [(unat dst, data)])
       (?s\<lparr>disk := v, log_blk := (log_blk s)[length t := dst], log_n := log_n s + 1\<rparr>)"
    if "vdisk_ok v" "content (device v) = ?I" for v
    using s room that I by (auto simp: logging_def nth_append less_Suc_eq)
  show ?thesis
    unfolding log_write_def copy_id [OF data] b_def [symmetric] using ln
    by (auto intro!: io_post_bind [OF w] post simp: idx only_log_def)
qed

lemma log_commit_ok:
  assumes s: "logging content c t s" and ov: "\<not> log_overflow s" and cap: "DATASTART \<le> cap" and t: "txn_ok cap t"
  shows "io_post (\<lambda>d. dies \<and> (settled c (content d) \<or> in_flight c t (content d) \<or> settled (apply_txn t c) (content d)))
    (\<lambda>s'. only_log s s' \<and> logging content (apply_txn t c) [] s' \<and> \<not> log_overflow s') (log_commit dev s)"
    (is "io_post ?C ?R _")
proof (cases "t = []")
  case True
  with s ov show ?thesis by (simp add: log_commit_def logging_def only_log_refl)
next
  case False
  let ?I = "img content s" and ?h = "hdr 1 (of_int (log_n s)) (log_blk s)"
  let ?J = "?I(LOGHDR := ?h)"
  note log = s [unfolded logging_def]
  have pj: "pending ?J = t" using log by (intro pending_commit) auto
  have hj: "home_eq ?J c" using log by (auto simp: settled_def home_eq_def layout_defs)
  have jlog: "\<forall>i < length t. unat (log_blk s ! i) = fst (t ! i) \<and> ?J (LOGSTART + i) = snd (t ! i)"
    using log by (auto simp: layout_defs)
  have fly: "in_flight c t (apply_txn (take i t) ?J)" for i
  proof -
    have "pending (apply_txn (take i t) ?J) = t"
      using pj apply_txn_log [OF txn_ok_take [OF t]] by (metis pending_cong)
    moreover have "apply_txn (take i t) ?J b = ?J b \<or> (b, apply_txn (take i t) ?J b) \<in> set t" for b
      using apply_txn_cases [of "take i t" ?J b] in_set_takeD by fast
    ultimately show ?thesis using hj unfolding in_flight_def home_eq_def by metis
  qed
  have done1: "settled (apply_txn t c) ((apply_txn t ?J)(LOGHDR := hdr 0 0 []))"
    using home_eq_apply [OF hj, of t] by (rule settled_clear)
  have n0: "log_n s \<noteq> 0" using log False by simp
  show ?thesis
    unfolding log_commit_def using n0 ov
  proof (simp, intro io_post_bind)
    show "io_post ?C (\<lambda>s1. \<exists>v. s1 = s\<lparr>fsbuf := ?h, disk := v\<rparr> \<and> vdisk_ok v \<and> content (device v) = ?J)
        (write_loghdr dev 1 (of_int (log_n s)) (log_blk s) s)"
      by (rule io_post_mono [OF write_loghdr_ok])
         (use log cap fly [of 0] in \<open>auto simp: layout_defs\<close>)
  next
    fix s1 assume "\<exists>v. s1 = s\<lparr>fsbuf := ?h, disk := v\<rparr> \<and> vdisk_ok v \<and> content (device v) = ?J"
    then obtain v where s1: "s1 = s\<lparr>fsbuf := ?h, disk := v\<rparr>" "vdisk_ok v" "content (device v) = ?J" by blast
    have n1: "log_n s1 = int (length t)" and b1: "log_blk s1 = log_blk s" using s1 log by auto
    show "io_post ?C (\<lambda>s2. \<exists>w buf. s2 = s1\<lparr>fsbuf := buf, disk := w\<rparr> \<and> vdisk_ok w \<and>
        content (device w) = apply_txn t ?J) (log_install dev (log_n s1) (log_blk s1) s1)"
      unfolding n1 b1
      by (rule io_post_mono [OF log_install_ok]) (use s1 cap t jlog fly in auto)
  next
    fix s1 s2 assume "\<exists>v. s1 = s\<lparr>fsbuf := ?h, disk := v\<rparr> \<and> vdisk_ok v \<and> content (device v) = ?J"
      and "\<exists>w buf. s2 = s1\<lparr>fsbuf := buf, disk := w\<rparr> \<and> vdisk_ok w \<and> content (device w) = apply_txn t ?J"
    then obtain w buf where s2: "s2 = s\<lparr>fsbuf := buf, disk := w\<rparr>" "vdisk_ok w" "content (device w) = apply_txn t ?J"
      by auto
    show "io_post ?C (\<lambda>s3. \<exists>x. s3 = s2\<lparr>fsbuf := hdr 0 0 [], disk := x\<rparr> \<and> vdisk_ok x \<and>
        content (device x) = (apply_txn t ?J)(LOGHDR := hdr 0 0 [])) (write_loghdr dev 0 0 [] s2)"
      by (rule io_post_mono [OF write_loghdr_ok])
         (use s2 cap done1 fly [of "length t"] in \<open>auto simp: layout_defs\<close>)
    fix s3 assume "\<exists>x. s3 = s2\<lparr>fsbuf := hdr 0 0 [], disk := x\<rparr> \<and> vdisk_ok x \<and>
        content (device x) = (apply_txn t ?J)(LOGHDR := hdr 0 0 [])"
    then show "io_post ?C ?R (Inr (s3\<lparr>log_n := 0\<rparr>))"
      using s2 log ov done1 by (auto simp: logging_def only_log_def)
  qed
qed

lemma recover_finish:
  assumes cap: "DATASTART \<le> cap" and t: "txn_ok cap (pending c)" and s: "vdisk_ok (disk s)" "img content s = recovered c"
  shows "io_post (\<lambda>d. dies \<and> (in_flight c (pending c) (content d) \<or> settled (recovered c) (content d)))
    (\<lambda>s'. only_log s s' \<and> log_blk s' = log_blk s \<and> length (fsbuf s') = 512 \<and> vdisk_ok (disk s') \<and> settled (recovered c) (img content s'))
    (io_bind (write_loghdr dev 0 0 [] s) (\<lambda>s. Inr (puts msg s)))" (is "io_post ?C ?R _")
proof (rule io_post_bind)
  have d: "settled (recovered c) ((recovered c)(LOGHDR := hdr 0 0 []))" by (rule settled_clear) simp
  have "in_flight c (pending c) (recovered c)" using installing_in_flight [OF t, of "length (pending c)"] by (simp add: recovered_def)
  then show "io_post ?C (\<lambda>s3. \<exists>x. s3 = s\<lparr>fsbuf := hdr 0 0 [], disk := x\<rparr> \<and> vdisk_ok x \<and>
      content (device x) = (recovered c)(LOGHDR := hdr 0 0 [])) (write_loghdr dev 0 0 [] s)"
    by (intro io_post_mono [OF write_loghdr_ok]) (use s cap d in \<open>auto simp: layout_defs\<close>)
  show "io_post ?C ?R (Inr (puts msg s3))" if "\<exists>x. s3 = s\<lparr>fsbuf := hdr 0 0 [], disk := x\<rparr> \<and> vdisk_ok x \<and>
      content (device x) = (recovered c)(LOGHDR := hdr 0 0 [])" for s3
    using that d by (auto simp: puts_def only_log_def)
qed

lemma recover_ok:
  assumes s: "vdisk_ok (disk s)" "length (fsbuf s) = 512" and cap: "DATASTART \<le> cap"
    and c: "img content s = c" and t: "txn_ok cap (pending c)"
  shows "io_post (\<lambda>d. dies \<and> (in_flight c (pending c) (content d) \<or> settled (recovered c) (content d)))
    (\<lambda>s'. only_log s s' \<and> log_blk s' = log_blk s \<and> length (fsbuf s') = 512 \<and> vdisk_ok (disk s') \<and>
       settled (recovered c) (img content s')) (recover dev s)"
    (is "io_post ?C ?R _")
proof -
  let ?h = "dec_loghdr (c LOGHDR)"
  have hdrno: "unat (of_nat LOGHDR :: u32) = LOGHDR" by (simp add: LOGHDR_def)
  note fly = installing_in_flight [OF t]
  show ?thesis
    unfolding recover_def
  proof (rule io_post_bind)
    show "io_post ?C (\<lambda>s1. \<exists>v. s1 = s\<lparr>fsbuf := c LOGHDR, disk := v\<rparr> \<and> vdisk_ok v \<and> content (device v) = c)
        (fs_io dev (of_nat LOGHDR) False s)"
    proof (rule io_post_mono [OF io_read])
      show "unat (of_nat LOGHDR :: u32) < cap" using cap unfolding hdrno by (simp add: layout_defs)
    qed (use s c fly [of 0] in \<open>auto simp: hdrno simp del: of_nat_numeral\<close>)
  next
    fix s1 assume "\<exists>v. s1 = s\<lparr>fsbuf := c LOGHDR, disk := v\<rparr> \<and> vdisk_ok v \<and> content (device v) = c"
    then obtain v where s1: "s1 = s\<lparr>fsbuf := c LOGHDR, disk := v\<rparr>" "vdisk_ok v" "content (device v) = c" by blast
    define n :: u32 where "n = (if hn ?h > of_nat LOGN then of_nat LOGN else hn ?h)"
    define blks where "blks = map (\<lambda>i. blk ?h ! i) [0..<unat n]"
    have un: "unat n = min (unat (hn ?h)) LOGN"
      by (auto simp: n_def LOGN_def word_less_nat_alt)
    show "io_post ?C ?R (let h = dec_loghdr (fsbuf s1) in if committed h = 0 then Inr s1
          else let n = (if hn h > of_nat LOGN then of_nat LOGN else hn h); blks = map (\<lambda>i. blk h ! i) [0..<unat n]
            in io_bind (log_install dev (sint n) blks s1) (\<lambda>s. io_bind (write_loghdr dev 0 0 [] s)
                 (\<lambda>s. Inr (puts (''[fs] recovered a committed log transaction'' @ [CHR 0x0A]) s))))"
    proof (cases "committed ?h = 0")
      case True
      then have "pending c = []" by (simp add: pending_def)
      then have "settled (recovered c) c" by (simp add: settled_def recovered_def)
      moreover have "length (c LOGHDR) = 512" using c content_length by metis
      ultimately have "?R s1"
        using s1 by (simp add: only_log_def)
      with True s1 show ?thesis by simp
    next
      case False
      then have p: "pending c = map (\<lambda>i. (unat (blk ?h ! i), c (LOGSTART + i))) [0..<unat n]"
        by (simp add: pending_def un Let_def)
      have "int (unat n) < 2 ^ 31" by (simp only: un) (simp add: LOGN_def)
      then have sn: "sint n = int (length (pending c))"
        using sint_small [of "int (unat n)"] by (simp add: p)
      have i1: "img content s1 = c" "vdisk_ok (disk s1)" using s1 by simp_all
      have pl: "\<forall>i < length (pending c). unat (blks ! i) = fst (pending c ! i) \<and> c (LOGSTART + i) = snd (pending c ! i)"
        by (simp add: p blks_def)
      have "io_post ?C (\<lambda>s'. \<exists>w buf. s' = s1\<lparr>fsbuf := buf, disk := w\<rparr> \<and> vdisk_ok w \<and>
          content (device w) = recovered c) (log_install dev (sint n) blks s1)"
        unfolding sn
        by (rule io_post_mono [OF log_install_ok [of s1 "pending c" blks, unfolded i1(1), OF i1(2) cap t pl]])
           (use fly in \<open>auto simp: recovered_def\<close>)
      moreover have "io_post ?C ?R (io_bind (write_loghdr dev 0 0 [] s2)
          (\<lambda>s. Inr (puts (''[fs] recovered a committed log transaction'' @ [CHR 0x0A]) s)))"
        if "\<exists>w buf. s2 = s1\<lparr>fsbuf := buf, disk := w\<rparr> \<and> vdisk_ok w \<and> content (device w) = recovered c" for s2
        by (rule io_post_mono [OF recover_finish [OF cap t]]) (use that s1 in \<open>auto simp: only_log_def\<close>)
      ultimately have step: "io_post ?C ?R (io_bind (log_install dev (sint n) blks s1)
          (\<lambda>s. io_bind (write_loghdr dev 0 0 [] s)
             (\<lambda>s. Inr (puts (''[fs] recovered a committed log transaction'' @ [CHR 0x0A]) s))))"
        by (rule io_post_bind)
      have b1: "fsbuf s1 = c LOGHDR" using s1 by simp
      show ?thesis
        unfolding Let_def b1 n_def [symmetric] blks_def [symmetric] using step False by (simp only: if_False)
    qed
  qed
qed

end

section \<open>A whole transaction\<close>

text \<open>The shape every writer of \<^verbatim>\<open>fs.c\<close> has: begin, log some blocks, commit.\<close>

definition transaction :: "'d blkdev \<Rightarrow> (u32 \<times> u8 list) list \<Rightarrow> 'd fs \<Rightarrow> ('d, 'd fs) io" where
  "transaction dev ws s = io_bind (io_fold (\<lambda>(b, x). log_write dev b x) ws (log_begin s)) (log_commit dev)"

definition txn_of :: "(u32 \<times> u8 list) list \<Rightarrow> txn" where
  "txn_of ws = map (\<lambda>(b, x). (unat b, x)) ws"

lemma log_overflow_commit:
  assumes "logging content c t s" "length t = LOGN" "log_overflow s"
  shows "\<exists>s'. log_commit dev s = Inr s' \<and> only_log s s' \<and> logging content c [] s'"
  using assms by (auto simp: log_commit_def logging_def puts_def only_log_def LOGN_def)

context blk_device
begin

lemma log_writes_ok:
  assumes "logging content c t s" "DATASTART \<le> cap" "\<forall>(b, x) \<in> set ws. length x = 512"
    "log_overflow s \<longrightarrow> length t = LOGN"
  shows "io_post (\<lambda>d. dies \<and> settled c (content d))
    (\<lambda>s'. only_log s s' \<and> logging content c (take LOGN (t @ txn_of ws)) s' \<and>
       (log_overflow s' \<longleftrightarrow> log_overflow s \<or> length t + length ws > LOGN))
    (io_fold (\<lambda>(b, x). log_write dev b x) ws s)"
  using assms
proof (induction ws arbitrary: t s)
  case Nil
  then show ?case by (simp add: txn_of_def logging_def)
next
  case (Cons w ws)
  obtain b x where w: "w = (b, x)" by (cases w)
  show ?case
  proof (cases "length t < LOGN")
    case True
    then have ov: "\<not> log_overflow s" using Cons.prems(4) by auto
    show ?thesis
      unfolding w io_fold.simps prod.case
    proof (rule io_post_bind [OF log_write_ok [OF Cons.prems(1,2) True]])
      show "length x = 512" using Cons.prems(3) w by auto
    next
      fix s1 assume s1: "logging content c (t @ [(unat b, x)]) s1 \<and> only_log s s1 \<and> log_overflow s1 = log_overflow s"
      show "io_post (\<lambda>d. dies \<and> settled c (content d))
          (\<lambda>s'. only_log s s' \<and> logging content c (take LOGN (t @ txn_of ((b, x) # ws))) s' \<and>
             (log_overflow s' \<longleftrightarrow> log_overflow s \<or> length t + length ((b, x) # ws) > LOGN))
          (io_fold (\<lambda>(b, x). log_write dev b x) ws s1)"
        by (rule io_post_mono [OF Cons.IH [of "t @ [(unat b, x)]" s1]])
           (use s1 ov Cons.prems in \<open>auto simp: txn_of_def intro: only_log_trans\<close>)
    qed
  next
    case False
    then have full: "length t = LOGN" using Cons.prems(1) by (auto simp: logging_def)
    let ?s = "s\<lparr>log_overflow := True\<rparr>"
    have "log_write dev b x s = Inr ?s" using Cons.prems(1) full by (simp add: log_write_def logging_def)
    moreover have "logging content c t ?s" "only_log s ?s" using Cons.prems(1) by (simp_all add: logging_def only_log_def)
    ultimately show ?thesis
      using Cons.IH [of t ?s] Cons.prems full by (auto simp: w txn_of_def elim!: io_post_mono intro: only_log_trans)
  qed
qed

lemma transaction_ok:
  assumes s: "vdisk_ok (disk s)" "length (log_blk s) = LOGN" "settled c (img content s)" and cap: "DATASTART \<le> cap"
    and ws: "\<forall>(b, x) \<in> set ws. length x = 512 \<and> unat b < cap \<and> unat b \<notin> log_area"
  shows "io_post (\<lambda>d. dies \<and> (settled c (content d) \<or> (length ws \<le> LOGN \<and>
        (in_flight c (txn_of ws) (content d) \<or> settled (apply_txn (txn_of ws) c) (content d)))))
    (\<lambda>s'. only_log s s' \<and> logging content (if length ws \<le> LOGN then apply_txn (txn_of ws) c else c) [] s')
    (transaction dev ws s)" (is "io_post ?C ?R _")
  unfolding transaction_def
proof (rule io_post_bind)
  note b = logging_begin [where content = content, OF s]
  show "io_post ?C (\<lambda>s'. only_log s s' \<and> logging content c (take LOGN (txn_of ws)) s' \<and>
       (log_overflow s' \<longleftrightarrow> length ws > LOGN)) (io_fold (\<lambda>(b, x). log_write dev b x) ws (log_begin s))"
    by (rule io_post_mono [OF log_writes_ok [of c "[]" "log_begin s" ws]])
       (use b cap ws in \<open>auto intro: only_log_trans\<close>)
next
  fix s1 assume s1: "only_log s s1 \<and> logging content c (take LOGN (txn_of ws)) s1 \<and> (log_overflow s1 \<longleftrightarrow> length ws > LOGN)"
  show "io_post ?C ?R (log_commit dev s1)"
  proof (cases "length ws > LOGN")
    case True
    then have "length (take LOGN (txn_of ws)) = LOGN" by (simp add: txn_of_def)
    with log_overflow_commit [of content c "take LOGN (txn_of ws)" s1 dev] s1 True show ?thesis
      by (auto intro: only_log_trans)
  next
    case False
    then have "take LOGN (txn_of ws) = txn_of ws" "txn_ok cap (txn_of ws)"
      using ws by (auto simp: txn_of_def txn_ok_def)
    with log_commit_ok [of c "txn_of ws" s1] s1 cap False show ?thesis
      by (auto elim!: io_post_mono intro: only_log_trans)
  qed
qed

end

end
