(* ===== verification/FsSpec.thy ===== *)
theory FsSpec
  imports FsLog
begin

text \<open>
  What \<^verbatim>\<open>fs.c\<close> promises. The abstract file system is a partial map from names to contents,
  read off a disk image (\<open>disk_files\<close>). \<open>fs_ok\<close> ties the mounted state to the disk: directory
  and superblock agree with their blocks, extents lie in the data area and are disjoint,
  names are distinct, the free-block map is exact. The operations keep it and act on the map
  as expected; when the device stops in the middle, replaying the log gives the old map or
  the new one.
\<close>

section \<open>Files on an image\<close>

definition extent :: "fs_dirent \<Rightarrow> nat set" where
  "extent e = {unat (start e)..<unat (start e) + nblocks_of (fsize e)}"

definition fname :: "fs_dirent \<Rightarrow> u8 list" where
  "fname e = cstr (name e)"

definition file_data :: "image \<Rightarrow> fs_dirent \<Rightarrow> u8 list" where
  "file_data c e = map (\<lambda>k. c (unat (start e) + k div 512) ! (k mod 512)) [0..<unat (fsize e)]"

definition files_of :: "fs_dirent list \<Rightarrow> image \<Rightarrow> u8 list \<rightharpoonup> u8 list" where
  "files_of es c = map_of (map (\<lambda>e. (fname e, file_data c e)) es)"

definition entry_ok :: "nat \<Rightarrow> fs_dirent \<Rightarrow> bool" where
  "entry_ok T e \<longleftrightarrow> 0 \<in> set (name e) \<and> unat (fsize e) < 2 ^ 31 \<and> DATASTART \<le> unat (start e) \<and>
     unat (start e) + nblocks_of (fsize e) \<le> T"

definition apart :: "fs_dirent \<Rightarrow> fs_dirent \<Rightarrow> bool" where
  "apart e f \<longleftrightarrow> extent e \<inter> extent f = {} \<and> fname e \<noteq> fname f"

definition layout_ok :: "nat \<Rightarrow> nat \<Rightarrow> fs_dirent list \<Rightarrow> bool" where
  "layout_ok cap T es \<longleftrightarrow> DATASTART \<le> T \<and> T \<le> MAXBLK \<and> T \<le> cap \<and>
     (\<forall>e \<in> set es. entry_ok T e) \<and> sorted_wrt apart es"

definition live :: "'d fs \<Rightarrow> fs_dirent list" where
  "live s = take (nat (nfiles s)) (dir s)"

definition used_exact :: "'d fs \<Rightarrow> bool" where
  "used_exact s \<longleftrightarrow> (\<forall>b < MAXBLK. used s b \<noteq> 0 \<longleftrightarrow> b < DATASTART \<or> (\<exists>e \<in> set (live s). b \<in> extent e))"

definition mem_ok :: "nat \<Rightarrow> 'd fs \<Rightarrow> bool" where
  "mem_ok cap s \<longleftrightarrow> mounted s \<and> length (dir s) = MAXFILES \<and> (\<forall>e \<in> set (dir s). dirent_ok e) \<and>
     0 \<le> nfiles s \<and> nfiles s \<le> int MAXFILES \<and> layout_ok cap (unat (total_blocks s)) (live s) \<and> used_exact s"

definition fs_ok :: "('d \<Rightarrow> image) \<Rightarrow> nat \<Rightarrow> 'd fs \<Rightarrow> bool" where
  "fs_ok content cap s \<longleftrightarrow> mem_ok cap s \<and> vdisk_ok (disk s) \<and> length (log_blk s) = LOGN \<and>
     pending (img content s) = [] \<and> dec_superblock (img content s 0) = sb_of s \<and>
     dec_dir (img content s DIRBLOCK) = dir s"

definition fs_files :: "('d \<Rightarrow> image) \<Rightarrow> 'd fs \<Rightarrow> u8 list \<rightharpoonup> u8 list" where
  "fs_files content s = files_of (live s) (img content s)"

text \<open>The same, read off the disk alone.\<close>

definition disk_live :: "image \<Rightarrow> fs_dirent list" where
  "disk_live c = take (unat (sb_nfiles (dec_superblock (c 0)))) (dec_dir (c DIRBLOCK))"

definition disk_files :: "image \<Rightarrow> u8 list \<rightharpoonup> u8 list" where
  "disk_files c = files_of (disk_live c) c"

definition image_ok :: "nat \<Rightarrow> image \<Rightarrow> bool" where
  "image_ok cap c \<longleftrightarrow> sb_magic (dec_superblock (c 0)) = FS_MAGIC \<and>
     unat (sb_nfiles (dec_superblock (c 0))) \<le> MAXFILES \<and>
     layout_ok cap (unat (sb_total_blocks (dec_superblock (c 0)))) (disk_live c)"

text \<open>A disk the kernel can mount, after a crash or not.\<close>

definition mountable :: "nat \<Rightarrow> image \<Rightarrow> bool" where
  "mountable cap c \<longleftrightarrow> txn_ok cap (pending c) \<and> image_ok cap (recovered c) \<and>
     (\<forall>(b, x) \<in> set ((0, c 0) # pending c). b = 0 \<longrightarrow> sb_magic (dec_superblock x) = FS_MAGIC \<and>
        sb_total_blocks (dec_superblock x) = sb_total_blocks (dec_superblock (recovered c 0)))"

section \<open>Elementary facts\<close>

lemma nblocks_bounds:
  assumes "unat sz < 2 ^ 31"
  shows "nblocks_of sz = (unat sz + 511) div 512" "unat sz \<le> 512 * nblocks_of sz"
proof -
  have e: "nblocks_of sz = unat ((sz + 511) div 512)" by (simp add: nblocks_of_def BSIZE_def add.commute)
  have u: "unat (sz + 511) = unat sz + 511" using assms by (simp add: unat_word_ariths)
  show n: "nblocks_of sz = (unat sz + 511) div 512" by (simp only: e unat_div u) simp
  show "unat sz \<le> 512 * nblocks_of sz" unfolding n by simp
qed

lemma files_of_Nil [simp]: "files_of [] c = Map.empty"
  by (simp add: files_of_def)

lemma files_of_Cons [simp]: "files_of (e # es) c = (files_of es c)(fname e \<mapsto> file_data c e)"
  by (simp add: files_of_def)

lemma files_of_dom: "dom (files_of es c) = fname ` set es"
  by (simp add: files_of_def dom_map_of_conv_image_fst image_image)

lemma files_of_snoc:
  assumes "fname e \<notin> fname ` set es"
  shows "files_of (es @ [e]) c = (files_of es c)(fname e \<mapsto> file_data c e)"
  using assms by (induction es) (auto simp: fun_upd_twist)

lemma files_of_nth:
  assumes "sorted_wrt apart es" "i < length es"
  shows "files_of es c (fname (es ! i)) = Some (file_data c (es ! i))"
  using assms
proof (induction es arbitrary: i)
  case (Cons e es)
  then show ?case by (cases i) (auto simp: apart_def dest!: bspec [of _ _ "es ! (i - 1)"])
qed simp

lemma files_of_remove:
  assumes "sorted_wrt apart es" "i < length es"
  shows "files_of (take i es @ drop (Suc i) es) c = (files_of es c)(fname (es ! i) := None)"
  using assms
proof (induction es arbitrary: i)
  case (Cons e es)
  have d: "fname e \<notin> dom (files_of es c)" using Cons.prems(1) by (auto simp: files_of_dom apart_def)
  show ?case
  proof (cases i)
    case 0
    with d show ?thesis by (auto simp: domIff)
  next
    case (Suc j)
    then have "fname e \<noteq> fname (es ! j)" using Cons.prems by (auto simp: apart_def)
    with Suc Cons show ?thesis by (auto simp: fun_upd_twist)
  qed
qed simp

text \<open>A file's bytes are in its extent.\<close>

lemma file_block:
  assumes "unat (fsize e) < 2 ^ 31" "k < unat (fsize e)"
  shows "unat (start e) + k div 512 \<in> extent e"
proof -
  have "k div 512 < nblocks_of (fsize e)"
    using assms nblocks_bounds(2) [OF assms(1)] by (auto intro: less_mult_imp_div_less simp: mult.commute)
  then show ?thesis by (simp add: extent_def)
qed

lemma file_data_cong:
  assumes "unat (fsize e) < 2 ^ 31" "\<forall>b \<in> extent e. c b = c' b"
  shows "file_data c e = file_data c' e"
  using assms file_block by (auto simp: file_data_def)

lemma files_of_cong:
  assumes "\<forall>e \<in> set es. unat (fsize e) < 2 ^ 31 \<and> (\<forall>b \<in> extent e. c b = c' b)"
  shows "files_of es c = files_of es c'"
  using assms file_data_cong by (auto simp: files_of_def intro!: arg_cong [where f = map_of])

lemma extent_home: "entry_ok T e \<Longrightarrow> b \<in> extent e \<Longrightarrow> b \<notin> log_area \<and> DATASTART \<le> b \<and> b < T"
  by (auto simp: entry_ok_def extent_def DATASTART_def LOGSTART_def LOGN_def)

lemma image_home:
  assumes "home_eq c c'"
  shows "image_ok cap c \<longleftrightarrow> image_ok cap c'" "image_ok cap c \<Longrightarrow> disk_files c = disk_files c'"
proof -
  have 01: "c 0 = c' 0" "c DIRBLOCK = c' DIRBLOCK" using assms by (simp_all add: home_eq_def DIRBLOCK_def)
  then have l: "disk_live c = disk_live c'" by (simp add: disk_live_def)
  with 01 show "image_ok cap c \<longleftrightarrow> image_ok cap c'" by (simp add: image_ok_def)
  assume "image_ok cap c"
  then have "\<forall>e \<in> set (disk_live c). entry_ok (unat (sb_total_blocks (dec_superblock (c 0)))) e"
    by (simp add: image_ok_def layout_ok_def)
  then show "disk_files c = disk_files c'"
    unfolding disk_files_def l [symmetric]
  proof (intro files_of_cong ballI conjI)
    fix e b assume "\<forall>e \<in> set (disk_live c). entry_ok (unat (sb_total_blocks (dec_superblock (c 0)))) e"
      "e \<in> set (disk_live c)"
    then have e: "entry_ok (unat (sb_total_blocks (dec_superblock (c 0)))) e" by blast
    then show "unat (fsize e) < 2 ^ 31" by (simp add: entry_ok_def)
    assume "b \<in> extent e"
    with e have "b \<notin> log_area" using extent_home by blast
    with assms show "c b = c' b" unfolding home_eq_def by blast
  qed
qed

section \<open>Lookup\<close>

lemma name_at_cstr:
  assumes "mem_ok cap s" "i < nat (nfiles s)"
  shows "cstr (name_at s i) = fname (live s ! i)" "live s ! i = dir s ! i" "i < length (live s)"
proof -
  have i: "i < length (dir s)" using assms by (auto simp: mem_ok_def)
  then have "drop i (dir s) = dir s ! i # drop (Suc i) (dir s)" by (rule Cons_nth_drop_Suc [symmetric])
  moreover have "0 \<in> set (name (dir s ! i))"
  proof -
    have "dir s ! i \<in> set (live s)" using assms(2) i by (auto simp: live_def in_set_conv_nth)
    then show ?thesis using assms(1) by (auto simp: mem_ok_def layout_ok_def entry_ok_def)
  qed
  ultimately show "cstr (name_at s i) = fname (live s ! i)"
    using assms(2) i by (simp add: name_at_def dir_bytes_def enc_dirent_def cstr_append fname_def live_def)
  show "live s ! i = dir s ! i" "i < length (live s)" using assms(2) i by (simp_all add: live_def)
qed

lemma live_length: "mem_ok cap s \<Longrightarrow> length (live s) = nat (nfiles s)"
  by (auto simp: mem_ok_def live_def)

lemma lookup_Some:
  assumes "mem_ok cap s" "lookup s nm = Some i"
  shows "i < length (live s)" "i < nat (nfiles s)" "fname (live s ! i) = cstr nm" "dir s ! i = live s ! i"
proof -
  obtain k where k: "k < nat (nfiles s)" "streq (name_at s ([0..<nat (nfiles s)] ! k)) nm" "i = [0..<nat (nfiles s)] ! k"
    using assms(2) by (auto simp: lookup_def find_Some_iff)
  then have "i < nat (nfiles s)" "streq (name_at s i) nm" by simp_all
  then show "i < length (live s)" "i < nat (nfiles s)" "fname (live s ! i) = cstr nm" "dir s ! i = live s ! i"
    using name_at_cstr [OF assms(1)] by (simp_all add: streq_cstr)
qed

lemma lookup_None:
  assumes "mem_ok cap s"
  shows "lookup s nm = None \<longleftrightarrow> cstr nm \<notin> fname ` set (live s)"
proof -
  have "lookup s nm = None \<longleftrightarrow> (\<forall>i < nat (nfiles s). fname (live s ! i) \<noteq> cstr nm)"
    using name_at_cstr(1) [OF assms] by (auto simp: lookup_def find_None_iff streq_cstr)
  also have "\<dots> \<longleftrightarrow> cstr nm \<notin> fname ` set (live s)"
    using live_length [OF assms] by (auto simp: all_set_conv_all_nth image_iff)
  finally show ?thesis .
qed

section \<open>Reading\<close>

definition same_disk :: "('d \<Rightarrow> image) \<Rightarrow> 'd fs \<Rightarrow> 'd fs \<Rightarrow> bool" where
  "same_disk content s s' \<longleftrightarrow> only_log s s' \<and> log_blk s' = log_blk s \<and> vdisk_ok (disk s') \<and>
     img content s' = img content s"

lemma same_disk_trans: "same_disk content s s' \<Longrightarrow> same_disk content s' s'' \<Longrightarrow> same_disk content s s''"
  by (auto simp: same_disk_def intro: only_log_trans)

lemma live_only_log: "only_log s s' \<Longrightarrow> live s' = live s \<and> mem_ok cap s' = mem_ok cap s \<and> sb_of s' = sb_of s"
  by (simp add: only_log_def mem_ok_def live_def used_exact_def sb_of_def)

lemma same_disk_fs:
  "same_disk content s s' \<Longrightarrow> fs_ok content cap s \<Longrightarrow> fs_ok content cap s' \<and> fs_files content s' = fs_files content s"
  using live_only_log [of s s' cap] by (auto simp: same_disk_def fs_ok_def fs_files_def only_log_def)

lemma fold_upd:
  "fold (\<lambda>j m. m(a + j := f j)) [0..<n] m = (\<lambda>k. if a \<le> k \<and> k < a + n then f (k - a) else m k)" for a n :: nat
  by (induction n) (auto simp: fun_eq_iff less_Suc_eq)

lemma fold_upd_word:
  assumes "unat off + n \<le> 2 ^ 32"
  shows "fold (\<lambda>j m. m(unat (off + of_nat j :: u32) := f j)) [0..<n] m =
    (\<lambda>k. if unat off \<le> k \<and> k < unat off + n then f (k - unat off) else m k)"
proof -
  have "unat (off + of_nat j) = unat off + j" if "j < n" for j
    using assms that by (simp add: unat_word_ariths unat_nat32)
  then have "fold (\<lambda>j m. m(unat (off + of_nat j :: u32) := f j)) [0..<n] m =
      fold (\<lambda>j m. m(unat off + j := f j)) [0..<n] m"
    by (intro fold_cong) auto
  then show ?thesis by (simp add: fold_upd)
qed

lemma min_block: "unat (if r > of_nat BSIZE then of_nat BSIZE else r :: u32) = min 512 (unat r)"
  by (simp add: BSIZE_def word_less_nat_alt min_def)

lemma rest_block:
  "unat (r - (if r > of_nat BSIZE then of_nat BSIZE else r) :: u32) = unat r - min 512 (unat r)"
  by (auto simp: BSIZE_def word_less_nat_alt unat_sub_if')

text \<open>The bytes of the first block and those of the later ones, together.\<close>

lemma blocks_glue:
  fixes c :: "nat \<Rightarrow> u8 list"
  assumes N: "N = min 512 R"
  shows "(\<lambda>k. if off + N \<le> k \<and> k < off + N + (R - N) then c (Suc b + (k - (off + N)) div 512) ! ((k - (off + N)) mod 512)
      else if off \<le> k \<and> k < off + N then c b ! (k - off) else buf k) =
    (\<lambda>k. if off \<le> k \<and> k < off + R then c (b + (k - off) div 512) ! ((k - off) mod 512) else buf k)" (is "?f = ?g")
proof
  fix k
  consider "k < off" | (now) "off \<le> k" "k < off + N" | (later) "off + N \<le> k" by linarith
  then show "?f k = ?g k"
  proof cases
    case later
    show ?thesis
    proof (cases "R \<le> 512")
      case False
      then have "N = 512" "off + 512 \<le> k" using N later by simp_all
      then obtain j where j: "k = off + 512 + j" by (metis le_Suc_ex)
      have "(512 + j) div 512 = Suc (j div 512)" by simp
      then show ?thesis using \<open>N = 512\<close> False by (simp add: j)
    qed (use later N in simp)
  next
    case now
    with N have "k < off + R" "k - off < 512" by auto
    with now show ?thesis by simp
  qed simp
qed

context blk_device
begin

lemma io_read_same:
  assumes "vdisk_ok (disk s)" "unat b < cap"
  shows "io_post (\<lambda>d. dies \<and> content d = img content s)
    (\<lambda>s'. same_disk content s s' \<and> fsbuf s' = img content s (unat b) \<and> out s' = out s) (fs_io dev b False s)"
  by (rule io_post_mono [OF io_read [OF assms]]) (auto simp: same_disk_def only_log_def)

lemma read_blocks_ok:
  assumes "vdisk_ok (disk s)" "unat b + (unat r + 511) div 512 \<le> cap" "unat b + (unat r + 511) div 512 < 2 ^ 32"
    "unat off + unat r < 2 ^ 32"
  shows "io_post (\<lambda>d. dies \<and> content d = img content s)
    (\<lambda>(buf', s'). same_disk content s s' \<and> buf' = (\<lambda>k. if unat off \<le> k \<and> k < unat off + unat r
        then img content s (unat b + (k - unat off) div 512) ! ((k - unat off) mod 512) else buf k))
    (read_blocks dev b off r buf s)"
  using assms
proof (induction "unat r" arbitrary: b off r buf s rule: less_induct)
  case less
  show ?case
  proof (cases "r > 0")
    case False
    then have r0: "r = 0" by (simp add: word_less_nat_alt word_unat_eq_iff)
    then have "read_blocks dev b off r buf s = Inr (buf, s)" by (simp add: read_blocks.simps)
    with less.prems show ?thesis by (auto simp: same_disk_def r0 fun_eq_iff)
  next
    case True
    define n where "n = (if r > of_nat BSIZE then of_nat BSIZE else r)"
    have n: "unat n = min 512 (unat r)" "unat (r - n) = unat r - min 512 (unat r)"
      unfolding n_def by (rule min_block, rule rest_block)
    have r0: "0 < unat r" using True by (simp add: word_less_nat_alt)
    have q: "(unat r + 511) div 512 = Suc ((unat (r - n) + 511) div 512)"
      using r0 n by (cases "unat r \<le> 512") (auto simp: div_add_self2 [symmetric] min_def)
    have b1: "unat (b + 1) = Suc (unat b)"
      using less.prems(3) q by (simp add: unat_word_ariths)
    have o1: "unat (off + n) = unat off + unat n"
      using less.prems(4) n r0 by (simp add: unat_word_ariths)
    show ?thesis
      unfolding read_blocks.simps [of _ _ _ r] using True
    proof (simp add: Let_def flip: n_def, intro io_post_bind [OF io_read_same])
      show "vdisk_ok (disk s)" "unat b < cap" using less.prems(1,2) q by auto
    next
      fix s1 assume s1: "same_disk content s s1 \<and> fsbuf s1 = img content s (unat b) \<and> out s1 = out s"
      let ?buf = "fold (\<lambda>j m. m(unat (off + of_nat j) := fsbuf s1 ! j)) [0..<unat n] buf"
      have IH: "io_post (\<lambda>d. dies \<and> content d = img content s1)
        (\<lambda>(buf', s'). same_disk content s1 s' \<and> buf' = (\<lambda>k. if unat (off + n) \<le> k \<and> k < unat (off + n) + unat (r - n)
            then img content s1 (unat (b + 1) + (k - unat (off + n)) div 512) ! ((k - unat (off + n)) mod 512)
            else ?buf k)) (read_blocks dev (b + 1) (off + n) (r - n) ?buf s1)"
        using s1 less.prems n r0 q by (intro less.hyps) (auto simp: b1 o1 same_disk_def)
      have buf: "?buf = (\<lambda>k. if unat off \<le> k \<and> k < unat off + unat n then img content s (unat b) ! (k - unat off) else buf k)"
        using s1 n less.prems(4) by (subst fold_upd_word) auto
      have i1: "img content s1 = img content s" using s1 by (simp add: same_disk_def)
      have full: "(\<lambda>k. if unat (off + n) \<le> k \<and> k < unat (off + n) + unat (r - n)
            then img content s1 (unat (b + 1) + (k - unat (off + n)) div 512) ! ((k - unat (off + n)) mod 512)
            else ?buf k) = (\<lambda>k. if unat off \<le> k \<and> k < unat off + unat r
          then img content s (unat b + (k - unat off) div 512) ! ((k - unat off) mod 512) else buf k)"
        unfolding o1 b1 i1 buf n(2) [folded n(1)] by (rule blocks_glue [OF n(1)])
      show "io_post (\<lambda>d. dies \<and> content d = img content s)
        (\<lambda>(buf', s'). same_disk content s s' \<and> buf' = (\<lambda>k. if unat off \<le> k \<and> k < unat off + unat r
          then img content s (unat b + (k - unat off) div 512) ! ((k - unat off) mod 512) else buf k))
        (read_blocks dev (b + 1) (off + n) (r - n) ?buf s1)"
        by (rule io_post_mono [OF IH [unfolded full]]) (use s1 i1 in \<open>auto intro: same_disk_trans\<close>)
    qed
  qed
qed

lemma cat_blocks_ok:
  assumes "vdisk_ok (disk s)" "unat b + (unat r + 511) div 512 \<le> cap" "unat b + (unat r + 511) div 512 < 2 ^ 32"
  shows "io_post (\<lambda>d. dies \<and> content d = img content s)
    (\<lambda>s'. same_disk content s s' \<and>
       out s' = out s @ map (\<lambda>k. img content s (unat b + k div 512) ! (k mod 512)) [0..<unat r])
    (cat_blocks dev b r s)"
  using assms
proof (induction "unat r" arbitrary: b r s rule: less_induct)
  case less
  show ?case
  proof (cases "r > 0")
    case False
    then have r0: "r = 0" by (simp add: word_less_nat_alt word_unat_eq_iff)
    then have "cat_blocks dev b r s = Inr s" by (simp add: cat_blocks.simps)
    with less.prems show ?thesis by (auto simp: same_disk_def r0)
  next
    case True
    define n where "n = (if r > of_nat BSIZE then of_nat BSIZE else r)"
    have n: "unat n = min 512 (unat r)" "unat (r - n) = unat r - min 512 (unat r)"
      unfolding n_def by (rule min_block, rule rest_block)
    have r0: "0 < unat r" using True by (simp add: word_less_nat_alt)
    have q: "(unat r + 511) div 512 = Suc ((unat (r - n) + 511) div 512)"
      using r0 n by (cases "unat r \<le> 512") (auto simp: div_add_self2 [symmetric] min_def)
    have b1: "unat (b + 1) = Suc (unat b)"
      using less.prems(3) q by (simp add: unat_word_ariths)
    show ?thesis
      unfolding cat_blocks.simps [of _ _ r] using True
    proof (simp add: Let_def flip: n_def, intro io_post_bind [OF io_read_same])
      show "vdisk_ok (disk s)" "unat b < cap" using less.prems(1,2) q by auto
    next
      fix s1 assume s1: "same_disk content s s1 \<and> fsbuf s1 = img content s (unat b) \<and> out s1 = out s"
      let ?s = "s1\<lparr>out := out s1 @ map ((!) (fsbuf s1)) [0..<unat n]\<rparr>"
      let ?f = "\<lambda>k. img content s (unat b + k div 512) ! (k mod 512)"
      have i: "vdisk_ok (disk ?s)" "img content ?s = img content s" "same_disk content s ?s"
        using s1 by (auto simp: same_disk_def only_log_def)
      have IH: "io_post (\<lambda>d. dies \<and> content d = img content s)
          (\<lambda>s'. same_disk content ?s s' \<and> out s' = out ?s @
             map (\<lambda>k. img content s (unat (b + 1) + k div 512) ! (k mod 512)) [0..<unat (r - n)])
          (cat_blocks dev (b + 1) (r - n) ?s)"
        using less.hyps [of "r - n" ?s "b + 1"] i less.prems n r0 q by (simp add: b1)
      have "map ((!) (fsbuf s1)) [0..<unat n] @
          map (\<lambda>k. img content s (unat (b + 1) + k div 512) ! (k mod 512)) [0..<unat (r - n)] = map ?f [0..<unat r]"
        by (rule nth_equalityI) (use s1 n in \<open>auto simp: b1 nth_append min_def le_div_geq le_mod_geq\<close>)
      with s1 i(3) show "io_post (\<lambda>d. dies \<and> content d = img content s)
          (\<lambda>s'. same_disk content s s' \<and> out s' = out s @ map ?f [0..<unat r])
          (cat_blocks dev (b + 1) (r - n) ?s)"
        by (intro io_post_mono [OF IH]) (auto intro: same_disk_trans)
    qed
  qed
qed

lemma entry_blocks:
  assumes "fs_ok content cap s" "e \<in> set (live s)"
  shows "unat (fsize e) < 2 ^ 31" "unat (start e) + (unat (fsize e) + 511) div 512 \<le> cap"
    "unat (start e) + (unat (fsize e) + 511) div 512 < 2 ^ 32"
proof -
  have l: "entry_ok (unat (total_blocks s)) e" "unat (total_blocks s) \<le> cap" "unat (total_blocks s) \<le> MAXBLK"
    using assms by (auto simp: fs_ok_def mem_ok_def layout_ok_def)
  then show sz: "unat (fsize e) < 2 ^ 31" by (simp add: entry_ok_def)
  show "unat (start e) + (unat (fsize e) + 511) div 512 \<le> cap"
    "unat (start e) + (unat (fsize e) + 511) div 512 < 2 ^ 32"
    using l nblocks_bounds(1) [OF sz] by (auto simp: entry_ok_def MAXBLK_def)
qed

lemma fs_read_ok:
  assumes s: "fs_ok content cap s"
  shows "io_post (\<lambda>d. dies \<and> content d = img content s)
    (\<lambda>(r, buf', s'). fs_ok content cap s' \<and> fs_files content s' = fs_files content s \<and> same_disk content s s' \<and>
       (case fs_files content s (cstr nm) of
          None \<Rightarrow> r = -1 \<and> buf' = buf
        | Some data \<Rightarrow>
            if int (length data) > mx then r = -1 \<and> buf' = buf
            else r = int (length data) \<and> buf' = (\<lambda>k. if k < length data then data ! k else buf k)))
    (fs_read dev nm buf mx s)"
proof -
  have m: "mem_ok cap s" "mounted s" "vdisk_ok (disk s)" "sorted_wrt apart (live s)"
    using s by (auto simp: fs_ok_def mem_ok_def layout_ok_def)
  have same: "same_disk content s s" using m by (simp add: same_disk_def)
  show ?thesis
  proof (cases "lookup s nm")
    case None
    then have "fs_files content s (cstr nm) = None"
      using lookup_None [OF m(1)] files_of_dom [of "live s" "img content s"] unfolding fs_files_def by blast
    with None s m same show ?thesis by (simp add: fs_read_def)
  next
    case (Some i)
    note i = lookup_Some [OF m(1) Some]
    define e where "e = live s ! i"
    have e: "e \<in> set (live s)" "dir s ! i = e" "fname e = cstr nm" using i by (simp_all add: e_def)
    note b = entry_blocks [OF s e(1)]
    have f: "fs_files content s (cstr nm) = Some (file_data (img content s) e)"
      using files_of_nth [OF m(4) i(1)] i(3) by (simp add: fs_files_def e_def)
    have len: "length (file_data (img content s) e) = unat (fsize e)" by (simp add: file_data_def)
    have sz: "sint (fsize e) = int (unat (fsize e))"
      using b(1) by (rule sint_unat)
    have rb: "io_post (\<lambda>d. dies \<and> content d = img content s)
        (\<lambda>(buf', s'). same_disk content s s' \<and>
           buf' = (\<lambda>k. if k < unat (fsize e) then file_data (img content s) e ! k else buf k))
        (read_blocks dev (start e) 0 (fsize e) buf s)"
      by (rule io_post_mono [OF read_blocks_ok])
         (use m b in \<open>auto simp: file_data_def fun_eq_iff\<close>)
    show ?thesis
    proof (cases "int (unat (fsize e)) > mx")
      case True
      with Some m s same f sz len show ?thesis by (simp add: fs_read_def e(2))
    next
      case False
      have "io_post (\<lambda>d. dies \<and> content d = img content s)
        (\<lambda>(r, buf', s'). fs_ok content cap s' \<and> fs_files content s' = fs_files content s \<and> same_disk content s s' \<and>
          r = int (unat (fsize e)) \<and> buf' = (\<lambda>k. if k < unat (fsize e) then file_data (img content s) e ! k else buf k))
        (io_bind (read_blocks dev (start e) 0 (fsize e) buf s) (\<lambda>(buf, s). Inr (sint (fsize e), buf, s)))"
        by (rule io_post_bind [OF rb]) (use same_disk_fs [OF _ s] in \<open>auto simp: sz\<close>)
      with False Some m f sz len show ?thesis by (simp add: fs_read_def e(2) Let_def)
    qed
  qed
qed

lemma fs_cat_ok:
  assumes s: "fs_ok content cap s" and f: "fs_files content s (cstr nm) = Some data"
  shows "io_post (\<lambda>d. dies \<and> content d = img content s)
    (\<lambda>s'. fs_ok content cap s' \<and> fs_files content s' = fs_files content s \<and> out s' = out s @ data)
    (fs_cat dev nm s)"
proof -
  have m: "mem_ok cap s" "mounted s" "vdisk_ok (disk s)" "sorted_wrt apart (live s)"
    using s by (auto simp: fs_ok_def mem_ok_def layout_ok_def)
  obtain i where i0: "lookup s nm = Some i"
    using f lookup_None [OF m(1)] files_of_dom [of "live s" "img content s"] unfolding fs_files_def
    by (metis domI option.exhaust)
  note i = lookup_Some [OF m(1) i0]
  define e where "e = live s ! i"
  have e: "e \<in> set (live s)" "dir s ! i = e" "fname e = cstr nm" using i by (simp_all add: e_def)
  have "file_data (img content s) e = data"
    using f files_of_nth [OF m(4) i(1), of "img content s"] i(3) by (simp add: fs_files_def e_def)
  then have d: "data = map (\<lambda>k. img content s (unat (start e) + k div 512) ! (k mod 512)) [0..<unat (fsize e)]"
    by (simp add: file_data_def)
  have "fs_cat dev nm s = cat_blocks dev (start e) (fsize e) s"
    using m i0 e by (simp add: fs_cat_def)
  then show ?thesis
    unfolding d using entry_blocks [OF s e(1)] m same_disk_fs [OF _ s]
    by (auto intro!: io_post_mono [OF cat_blocks_ok])
qed

end

end
