(* ===== verification/FsOps.thy ===== *)
theory FsOps
  imports FsSpec
begin

text \<open>
  The writing operations and the mount of \<^verbatim>\<open>fs.c\<close> against the abstract file map of theory
  \<open>FsSpec\<close>: block allocation, creation, deletion, mounting, and what a power failure inside
  any of them leaves.
\<close>

section \<open>Mountable images\<close>

lemma crash_mountable:
  assumes c: "image_ok cap c" and c': "image_ok cap (apply_txn t c)" and t: "txn_ok cap t"
    and sb: "\<forall>(b, x) \<in> set t. b = 0 \<longrightarrow> sb_magic (dec_superblock x) = FS_MAGIC \<and>
       sb_total_blocks (dec_superblock x) = sb_total_blocks (dec_superblock (c 0))"
    and x: "settled c x \<or> in_flight c t x \<or> settled (apply_txn t c) x"
  shows "mountable cap x \<and> (disk_files (recovered x) = disk_files c \<or> disk_files (recovered x) = disk_files (apply_txn t c))"
proof -
  have whole: "mountable cap x \<and> disk_files (recovered x) = disk_files d" if "settled d x" "image_ok cap d" for d
  proof -
    have "pending x = []" "home_eq x d" using that(1) by (auto simp: settled_def)
    moreover from this have "image_ok cap x" "disk_files x = disk_files d"
      using image_home [of x d cap] that(2) by auto
    ultimately show ?thesis by (simp add: mountable_def recovered_def txn_ok_def image_ok_def)
  qed
  show ?thesis
  proof (cases "in_flight c t x")
    case True
    have h: "home_eq (recovered x) (apply_txn t c)" using True by (rule in_flight_recovered)
    have r: "image_ok cap (recovered x)" "disk_files (recovered x) = disk_files (apply_txn t c)"
      using image_home [OF h, of cap] c' by auto
    have "x 0 = c 0 \<or> (0, x 0) \<in> set t" using True by (simp add: in_flight_def)
    then have x0: "sb_magic (dec_superblock (x 0)) = FS_MAGIC"
        "sb_total_blocks (dec_superblock (x 0)) = sb_total_blocks (dec_superblock (c 0))"
      using sb c by (auto simp: image_ok_def)
    have "recovered x 0 = apply_txn t c 0" using h by (simp add: home_eq_def)
    moreover have "apply_txn t c 0 = c 0 \<or> (0, apply_txn t c 0) \<in> set t" by (rule apply_txn_cases)
    ultimately have "sb_total_blocks (dec_superblock (recovered x 0)) = sb_total_blocks (dec_superblock (c 0))"
      using sb by auto
    with True t r x0 sb show ?thesis by (auto simp: mountable_def in_flight_def)
  qed (use x whole c c' in blast)
qed

lemma fs_ok_image:
  assumes "fs_ok content cap s"
  shows "image_ok cap (img content s)" "disk_files (img content s) = fs_files content s"
    "disk_live (img content s) = live s" "settled (img content s) (img content s)"
proof -
  have n: "unat (of_int (nfiles s) :: u32) = nat (nfiles s)" "nat (nfiles s) \<le> MAXFILES"
    using assms by (auto simp: fs_ok_def mem_ok_def MAXFILES_def intro!: unat_small)
  with assms show l: "disk_live (img content s) = live s"
    by (simp add: disk_live_def live_def fs_ok_def sb_of_def)
  with assms n show "image_ok cap (img content s)" "disk_files (img content s) = fs_files content s"
    by (simp_all add: image_ok_def disk_files_def fs_files_def fs_ok_def mem_ok_def sb_of_def)
  show "settled (img content s) (img content s)" using assms by (simp add: settled_def fs_ok_def)
qed

text \<open>The metadata blocks of a state, and the image they give.\<close>

definition meta_txn :: "'d fs \<Rightarrow> txn" where
  "meta_txn s = [(DIRBLOCK, block_image (dir_bytes (dir s))), (0, block_image (enc_superblock (sb_of s)))]"

lemma meta_image:
  fixes c :: image and s :: "'d fs"
  assumes s: "mem_ok cap s" and t: "\<forall>(b, x) \<in> set t. DATASTART \<le> b"
  defines "c' \<equiv> apply_txn (t @ meta_txn s) c"
  shows "dec_superblock (c' 0) = sb_of s" "dec_dir (c' DIRBLOCK) = dir s" "image_ok cap c'"
    "disk_files c' = files_of (live s) (apply_txn t c)" "files_of (live s) c' = files_of (live s) (apply_txn t c)"
proof -
  have c': "c' = (apply_txn t c)(DIRBLOCK := block_image (dir_bytes (dir s)), 0 := block_image (enc_superblock (sb_of s)))"
    by (simp add: c'_def meta_txn_def apply_txn_append)
  show 0: "dec_superblock (c' 0) = sb_of s" by (simp add: c' dec_superblock_image)
  show 1: "dec_dir (c' DIRBLOCK) = dir s" using s by (simp add: c' DIRBLOCK_def dec_dir_image mem_ok_def)
  have n: "unat (of_int (nfiles s) :: u32) = nat (nfiles s)" "nat (nfiles s) \<le> MAXFILES"
    using s by (auto simp: mem_ok_def MAXFILES_def intro!: unat_small)
  then have l: "disk_live c' = live s" by (simp add: disk_live_def 0 1 live_def sb_of_def)
  with 0 n s show "image_ok cap c'" by (simp add: image_ok_def mem_ok_def sb_of_def)
  show f: "files_of (live s) c' = files_of (live s) (apply_txn t c)"
  proof (intro files_of_cong ballI conjI)
    fix e b assume "e \<in> set (live s)"
    then have e: "entry_ok (unat (total_blocks s)) e" using s by (simp add: mem_ok_def layout_ok_def)
    then show "unat (fsize e) < 2 ^ 31" by (simp add: entry_ok_def)
    assume "b \<in> extent e"
    then have "19 \<le> b" using extent_home [OF e] by (simp add: layout_defs)
    then show "c' b = apply_txn t c b" by (simp add: c' DIRBLOCK_def)
  qed
  with l show "disk_files c' = files_of (live s) (apply_txn t c)" by (simp add: disk_files_def)
qed

context blk_device
begin

text \<open>The common tail of \<^verbatim>\<open>fs_create\<close> and \<^verbatim>\<open>fs_delete\<close>: log directory and superblock, commit.\<close>

lemma meta_commit:
  assumes log: "logging content c t s" "\<not> log_overflow s" "length t + 2 \<le> LOGN" and cap: "DATASTART \<le> cap"
    and t: "txn_ok cap t" "\<forall>(b, x) \<in> set t. DATASTART \<le> b"
    and c: "image_ok cap c" "sb_total_blocks (dec_superblock (c 0)) = total_blocks s" and mem: "mem_ok cap s"
  shows "io_post (\<lambda>d. dies \<and> mountable cap (content d) \<and> (disk_files (recovered (content d)) = disk_files c \<or>
        disk_files (recovered (content d)) = files_of (live s) (apply_txn t c)))
    (\<lambda>(r, s'). r = 0 \<and> fs_ok content cap s' \<and> fs_files content s' = files_of (live s) (apply_txn t c))
    (io_bind (log_dir dev s) (\<lambda>s. io_bind (log_super dev s) (\<lambda>s. io_bind (log_commit dev s) (\<lambda>s. Inr (0, s)))))"
    (is "io_post ?C ?R _")
proof -
  let ?t = "t @ meta_txn s" and ?d = "(DIRBLOCK, block_image (dir_bytes (dir s)))"
  note m = meta_image [OF mem t(2), of c]
  have tok: "txn_ok cap ?t"
    using t(1) log(3) cap by (auto simp: txn_ok_def meta_txn_def layout_defs)
  have sbs: "\<forall>(b, x) \<in> set ?t. b = 0 \<longrightarrow> sb_magic (dec_superblock x) = FS_MAGIC \<and>
       sb_total_blocks (dec_superblock x) = sb_total_blocks (dec_superblock (c 0))"
    using t(2) c(2) by (fastforce simp: meta_txn_def DIRBLOCK_def dec_superblock_image sb_of_def layout_defs)
  have crash: "?C d" if "dies" "settled c (content d) \<or> in_flight c ?t (content d) \<or> settled (apply_txn ?t c) (content d)" for d
    using crash_mountable [OF c(1) m(3) tok sbs that(2)] that(1) m(4) by auto
  have dno: "unat (of_nat DIRBLOCK :: u32) = DIRBLOCK" by (simp add: DIRBLOCK_def)
  show ?thesis
  proof (intro io_post_bind)
    show "io_post ?C (\<lambda>s1. logging content c (t @ [?d]) s1 \<and> only_log s s1 \<and> log_overflow s1 = log_overflow s)
        (log_dir dev s)"
      unfolding log_dir_def
      by (rule io_post_mono [OF log_write_ok [OF log(1) cap]]) (use log(3) crash dno in \<open>auto simp: LOGN_def\<close>)
  next
    fix s1 assume s1: "logging content c (t @ [?d]) s1 \<and> only_log s s1 \<and> log_overflow s1 = log_overflow s"
    then have sb: "sb_of s1 = sb_of s" by (simp add: only_log_def sb_of_def)
    show "io_post ?C (\<lambda>s2. logging content c ?t s2 \<and> only_log s s2 \<and> \<not> log_overflow s2) (log_super dev s1)"
      unfolding log_super_def sb
      by (rule io_post_mono [OF log_write_ok [where t = "t @ [?d]" and c = c]])
         (use s1 log(2,3) cap crash in \<open>auto simp: LOGN_def meta_txn_def intro: only_log_trans\<close>)
  next
    fix s2 assume s2: "logging content c ?t s2 \<and> only_log s s2 \<and> \<not> log_overflow s2"
    show "io_post ?C (\<lambda>s3. only_log s s3 \<and> logging content (apply_txn ?t c) [] s3) (log_commit dev s2)"
      by (rule io_post_mono [OF log_commit_ok [where t = ?t and c = c]])
         (use s2 cap tok crash in \<open>auto intro: only_log_trans\<close>)
  next
    fix s3 assume s3: "only_log s s3 \<and> logging content (apply_txn ?t c) [] s3"
    then have h: "pending (img content s3) = []" "home_eq (img content s3) (apply_txn ?t c)"
      by (auto simp: logging_def settled_def)
    note l = live_only_log [of s s3 cap]
    have "dec_superblock (img content s3 0) = sb_of s3" "dec_dir (img content s3 DIRBLOCK) = dir s3"
      using h(2) m(1,2) l s3 by (simp_all add: home_eq_def DIRBLOCK_def only_log_def)
    with s3 mem l h have ok: "fs_ok content cap s3" by (simp add: fs_ok_def logging_def)
    moreover have "fs_files content s3 = files_of (live s) (apply_txn t c)"
      using fs_ok_image(1,2) [OF ok] image_home(2) [OF h(2)] m(4) by metis
    ultimately show "io_post ?C ?R (Inr (0, s3))" by simp
  qed
qed

end

section \<open>Allocation\<close>

definition fits :: "'d fs \<Rightarrow> nat \<Rightarrow> nat \<Rightarrow> bool" where
  "fits s n p \<longleftrightarrow> DATASTART \<le> p \<and> p + n \<le> unat (total_blocks s) \<and> p + n \<le> MAXBLK \<and> (\<forall>k < n. used s (p + k) = 0)"

lemma balloc_loop_ok:
  assumes "0 < n" "n < 2 ^ 31" "DATASTART \<le> unat b" "unat b \<le> 2 ^ 14"
  shows "(balloc_loop s (int n) b = -1 \<and> (\<forall>p \<ge> unat b. \<not> fits s n p)) \<or>
    (\<exists>p \<ge> unat b. balloc_loop s (int n) b = int p \<and> fits s n p \<and> (\<forall>q. unat b \<le> q \<and> q < p \<longrightarrow> \<not> fits s n q))"
  using assms(3,4)
proof (induction s "int n" b rule: balloc_loop.induct)
  case (1 s b)
  have n32: "unat (of_nat n :: u32) = n" using assms(2) by (intro unat_nat32) simp
  have bn: "unat (b + of_int (int n)) = unat b + n"
    using 1(3) assms(2) n32 by (simp add: unat_word_ariths)
  have run: "b + of_int (int n) \<le> total_blocks s \<and> b + of_int (int n) \<le> of_nat MAXBLK \<longleftrightarrow>
      unat b + n \<le> unat (total_blocks s) \<and> unat b + n \<le> MAXBLK"
    unfolding word_le_nat_alt bn by (simp add: MAXBLK_def)
  have free: "(\<forall>k \<in> set [0..<nat (int n)]. used s (unat (b + of_nat k)) = 0) \<longleftrightarrow> (\<forall>k < n. used s (unat b + k) = 0)"
    if "unat b + n \<le> MAXBLK"
  proof -
    have "unat (b + of_nat k) = unat b + k" if "k < n" for k
      using that \<open>unat b + n \<le> MAXBLK\<close> by (simp add: unat_word_ariths unat_nat32 MAXBLK_def)
    then show ?thesis by auto
  qed
  have "unat b < 2 ^ 31" using 1(3) by simp
  then have unf: "balloc_loop s (int n) b =
      (if unat b + n \<le> unat (total_blocks s) \<and> unat b + n \<le> MAXBLK then
         if \<forall>k < n. used s (unat b + k) = 0 then int (unat b) else balloc_loop s (int n) (b + 1)
       else -1)"
    unfolding balloc_loop.simps [of s "int n" b] run using free by (simp only: sint_unat cong: if_cong conj_cong)
  show ?case
  proof (cases "unat b + n \<le> unat (total_blocks s) \<and> unat b + n \<le> MAXBLK")
    case False
    then have "balloc_loop s (int n) b = -1" by (simp only: unf if_False)
    moreover from False have "\<forall>p \<ge> unat b. \<not> fits s n p" by (auto simp: fits_def)
    ultimately show ?thesis by blast
  next
    case True
    then have fit: "fits s n (unat b) \<longleftrightarrow> (\<forall>k < n. used s (unat b + k) = 0)" using 1(2) by (simp add: fits_def)
    show ?thesis
    proof (cases "fits s n (unat b)")
      case yes: True
      have "balloc_loop s (int n) b = int (unat b)" using True yes fit by (simp add: unf)
      with yes show ?thesis by auto
    next
      case no: False
      have b1: "unat (b + 1) = Suc (unat b)" using 1(3) by (simp add: unat_word_ariths)
      have "balloc_loop s (int n) b = balloc_loop s (int n) (b + 1)"
        using True no fit by (auto simp: unf)
      moreover have IH: "(balloc_loop s (int n) (b + 1) = -1 \<and> (\<forall>p \<ge> unat (b + 1). \<not> fits s n p)) \<or>
        (\<exists>p \<ge> unat (b + 1). balloc_loop s (int n) (b + 1) = int p \<and> fits s n p \<and>
           (\<forall>q. unat (b + 1) \<le> q \<and> q < p \<longrightarrow> \<not> fits s n q))"
      proof (rule 1(1))
        show "b + of_int (int n) \<le> total_blocks s \<and> b + of_int (int n) \<le> of_nat MAXBLK"
          using True run by blast
        show "\<not> (\<forall>k \<in> set [0..<nat (int n)]. used s (unat (b + of_nat k)) = 0)"
          using True no fit free by blast
        show "DATASTART \<le> unat (b + 1)" "unat (b + 1) \<le> 2 ^ 14"
          using True assms(1) 1(2) by (auto simp: b1 MAXBLK_def)
      qed
      moreover have "unat b \<le> q \<longleftrightarrow> q = unat b \<or> unat (b + 1) \<le> q" for q using b1 by auto
      ultimately show ?thesis using no by auto
    qed
  qed
qed

lemma balloc_ok:
  assumes "n < 2 ^ 31"
  shows "(balloc_contig s (int n) = -1 \<and> 0 < n \<and> (\<forall>p. \<not> fits s n p)) \<or>
    (\<exists>p. balloc_contig s (int n) = int p \<and> DATASTART \<le> p \<and> (0 < n \<longrightarrow> fits s n p \<and> (\<forall>q < p. \<not> fits s n q)))"
proof (cases "n = 0")
  case False
  have d: "unat (of_nat DATASTART :: u32) = DATASTART" by (simp add: layout_defs)
  have "\<not> fits s n q" if "q < DATASTART" for q using that by (simp add: fits_def)
  moreover have "DATASTART \<le> (2 ^ 14 :: nat)" by (simp add: layout_defs)
  ultimately show ?thesis
    using False balloc_loop_ok [of n "of_nat DATASTART" s] assms unfolding d
    by (simp add: balloc_contig_def) (metis not_le)
qed (simp add: balloc_contig_def)

section \<open>Creation\<close>

lemma cstr_terminated: "0 \<notin> set xs \<Longrightarrow> cstr (xs @ 0 # ys) = xs"
  by (induction xs) (auto simp: cstr_def)

lemma store_name_ok:
  assumes "length old = NAMELEN"
  shows "length (store_name nm old) = NAMELEN" "0 \<in> set (store_name nm old)"
    "cstr (store_name nm old) = take (NAMELEN - 1) (cstr nm)"
proof -
  define k where "k = min (length (cstr nm)) (NAMELEN - 1)"
  have le: "length (cstr nm) \<le> length nm" by (simp add: cstr_def length_takeWhile_le)
  have pre: "cstr nm = take (length (cstr nm)) nm" unfolding cstr_def by (rule takeWhile_eq_take)
  have "take k nm = take (NAMELEN - 1) (take (length (cstr nm)) nm)" by (simp add: k_def min.commute)
  then have tk: "take k nm = take (NAMELEN - 1) (cstr nm)" by (simp only: pre [symmetric])
  have st: "store_name nm old = take (NAMELEN - 1) (cstr nm) @ 0 # drop (Suc k) old"
    using tk by (simp only: store_name_def Let_def k_def)
  show "length (store_name nm old) = NAMELEN" using assms le by (simp add: st k_def NAMELEN_def min_def)
  show "0 \<in> set (store_name nm old)" by (simp add: st)
  have "0 \<notin> set (take (NAMELEN - 1) (cstr nm))" using cstr_take(1) [of nm] in_set_takeD by fast
  then show "cstr (store_name nm old) = take (NAMELEN - 1) (cstr nm)"
    unfolding st by (rule cstr_terminated)
qed

lemma create_nblocks:
  assumes "0 \<le> sz" "sz \<le> 7168"
  shows "i32 (sz + int BSIZE - 1) sdiv int BSIZE = int ((nat sz + 511) div 512)" "(nat sz + 511) div 512 \<le> 14"
proof -
  have "i32 (sz + int BSIZE - 1) = sz + 511"
    using assms sint_small [of "sz + 511"] by (simp add: i32_def BSIZE_def add.commute)
  then show "i32 (sz + int BSIZE - 1) sdiv int BSIZE = int ((nat sz + 511) div 512)"
    using assms by (simp add: BSIZE_def signed_divide_int_def zdiv_int)
  show "(nat sz + 511) div 512 \<le> 14" using assms by simp
qed

lemma data_block_length [simp]: "length (data_block data sz off) = 512"
  by (simp add: data_block_def Let_def BSIZE_def)

lemma data_block_nth:
  assumes "k < nat sz" "0 \<le> sz"
  shows "data_block data sz (int (k div 512) * int BSIZE) ! (k mod 512) = data ! k"
proof -
  have k: "k = k div 512 * 512 + k mod 512" by simp
  then have i: "int k = int (k div 512) * 512 + int (k mod 512)" by (metis of_nat_add of_nat_mult of_nat_numeral)
  have "k mod 512 < 512" by simp
  moreover have "int (k mod 512) < sz - int (k div 512) * 512" using assms i by linarith
  moreover have "nat (int (k div 512) * 512 + int (k mod 512)) = k" using i by (metis nat_int)
  ultimately show ?thesis by (simp add: data_block_def Let_def BSIZE_def)
qed

lemma io_fold_map: "io_fold f (map g xs) s = io_fold (\<lambda>x. f (g x)) xs s"
  by (induction xs arbitrary: s) (auto simp: io_bind_def split: sum.splits)

text \<open>The memory state after the directory entry was added.\<close>

definition add_entry :: "u8 list \<Rightarrow> int \<Rightarrow> nat \<Rightarrow> nat \<Rightarrow> 'd fs \<Rightarrow> 'd fs" where
  "add_entry nm sz st nb s =
     (let slot = nat (nfiles s); old = dir s ! slot in
      s\<lparr>dir := (dir s)[slot := old\<lparr>name := store_name nm (name old), fsize := of_int sz, start := of_int (int st)\<rparr>],
        nfiles := nfiles s + 1,
        used := fold (\<lambda>b m. m(nat (int st + int b) := 1)) [0..<nb] (used s),
        next_free := (if of_int (int st + int nb) > next_free s then of_int (int st + int nb) else next_free s)\<rparr>)"

text \<open>The name under which a file is stored: what fits in the directory entry before the zero.\<close>

definition cut_name :: "u8 list \<Rightarrow> u8 list" where
  "cut_name nm = take (NAMELEN - 1) (cstr nm)"

lemma cut_name_short: "length (cstr nm) < NAMELEN \<Longrightarrow> cut_name nm = cstr nm"
  by (simp add: cut_name_def)

lemma add_entry_ok:
  assumes s: "mem_ok cap s" and room: "nfiles s < int MAXFILES" and sz: "0 \<le> sz" "sz \<le> 7168"
    and nb: "nb = (nat sz + 511) div 512"
    and st: "DATASTART \<le> st" "0 < nb \<longrightarrow> fits s nb st" "st \<le> unat (total_blocks s)"
    and nm: "cut_name nm \<notin> fname ` set (live s)"
  shows "\<exists>e. live (add_entry nm sz st nb s) = live s @ [e] \<and> fname e = cut_name nm \<and> unat (start e) = st \<and>
     unat (fsize e) = nat sz \<and> mem_ok cap (add_entry nm sz st nb s) \<and>
     extent e = {st..<st + nb} \<and> (\<forall>f \<in> set (live s). extent f \<inter> {st..<st + nb} = {})"
proof -
  define slot where "slot = nat (nfiles s)"
  define e where "e = (dir s ! slot)\<lparr>name := store_name nm (name (dir s ! slot)), fsize := of_int sz, start := of_nat st\<rparr>"
  let ?s = "add_entry nm sz st nb s"
  have d: "length (dir s) = 8" "slot < length (dir s)" "\<forall>e \<in> set (dir s). dirent_ok e" "0 \<le> nfiles s"
    using s room by (auto simp: mem_ok_def slot_def MAXFILES_def)
  have nf: "nat (nfiles s + 1) = Suc slot" using d by (simp add: slot_def)
  have T: "unat (total_blocks s) \<le> 8192" using s by (simp add: mem_ok_def layout_ok_def MAXBLK_def)
  have old: "length (name (dir s ! slot)) = NAMELEN" using d by (simp add: dirent_ok_def)
  note name = store_name_ok [OF old, of nm]
  have f: "fname e = cut_name nm" using name(3) by (simp add: e_def fname_def cut_name_def)
  have ust: "unat (start e) = st" using st(3) T by (simp add: e_def unat_nat32)
  have usz: "unat (fsize e) = nat sz" using sz unat_small [of sz] by (simp add: e_def)
  have nbe: "nblocks_of (fsize e) = nb" using sz nb nblocks_bounds(1) [of "fsize e"] by (simp add: usz)
  have ext: "extent e = {st..<st + nb}" by (simp add: extent_def ust nbe)
  have disj: "extent g \<inter> {st..<st + nb} = {}" if g: "g \<in> set (live s)" for g
  proof (rule ccontr)
    assume "extent g \<inter> {st..<st + nb} \<noteq> {}"
    then obtain b where b: "b \<in> extent g" "st \<le> b" "b < st + nb" by auto
    then have F: "fits s nb st" using st(2) by auto
    have "b < MAXBLK" using b(3) F by (simp add: fits_def)
    then have "used s b \<noteq> 0" using s g b(1) by (auto simp: mem_ok_def used_exact_def)
    moreover have "b - st < nb" using b by linarith
    then have "used s (st + (b - st)) = 0" using F unfolding fits_def by blast
    ultimately show False using b(2) by simp
  qed
  have live': "live ?s = live s @ [e]"
    using d by (simp add: add_entry_def Let_def live_def nf take_Suc_conv_app_nth flip: slot_def e_def)
  have ent: "entry_ok (unat (total_blocks s)) e"
    using name(2) sz st s by (auto simp: entry_ok_def ust usz nbe e_def [symmetric] fits_def)
       (auto simp: e_def)
  have lay: "layout_ok cap (unat (total_blocks s)) (live s @ [e])"
  proof -
    have "fname g \<noteq> fname e" if "g \<in> set (live s)" for g using nm f that by (metis image_eqI)
    then have "\<forall>g \<in> set (live s). apart g e" using disj by (auto simp: apart_def ext)
    then show ?thesis using s ent by (auto simp: mem_ok_def layout_ok_def sorted_wrt_append)
  qed
  have u: "used ?s = (\<lambda>b. if st \<le> b \<and> b < st + nb then 1 else used s b)"
    by (simp add: add_entry_def Let_def fold_upd nat_add_distrib fun_eq_iff flip: of_nat_add)
  have ue: "used_exact ?s"
    using s st(1) unfolding used_exact_def mem_ok_def live' u by (auto simp: used_exact_def ext)
  have fl: "dir ?s = (dir s)[slot := e]" "mounted ?s = mounted s" "nfiles ?s = nfiles s + 1"
      "total_blocks ?s = total_blocks s"
    by (simp_all add: add_entry_def Let_def slot_def e_def)
  have "dirent_ok e" using name(1) by (simp add: dirent_ok_def e_def)
  then have "\<forall>x \<in> set ((dir s)[slot := e]). dirent_ok x"
    using d(3) set_update_subset_insert [of "dir s" slot e] by blast
  then have "mem_ok cap ?s"
    using s lay ue room by (simp add: mem_ok_def live' fl)
  with live' f ust usz ext disj show ?thesis by blast
qed

lemma create_data:
  assumes t: "t = map (\<lambda>b. (st + b, data_block data sz (int b * int BSIZE))) [0..<nb]"
    and sz: "0 \<le> sz" "sz \<le> int (length data)" "nb = (nat sz + 511) div 512"
    and e: "unat (start e) = st" "unat (fsize e) = nat sz"
  shows "file_data (apply_txn t c) e = take (nat sz) data"
proof (rule nth_equalityI)
  show "length (file_data (apply_txn t c) e) = length (take (nat sz) data)"
    using sz e by (simp add: file_data_def)
next
  fix k assume "k < length (file_data (apply_txn t c) e)"
  then have k: "k < nat sz" using e by (simp add: file_data_def)
  have d: "distinct (map fst t)" by (simp add: t comp_def distinct_map)
  have "k div 512 < nb" using k sz(3) by simp
  then have "(st + k div 512, data_block data sz (int (k div 512) * int BSIZE)) \<in> set t" by (auto simp: t)
  from apply_txn_distinct [OF d this] k show "file_data (apply_txn t c) e ! k = take (nat sz) data ! k"
    using data_block_nth [OF k sz(1), of data] by (simp add: file_data_def e)
qed

lemma fs_create_unfold:
  assumes s: "mem_ok cap s" "nfiles s < int MAXFILES" "lookup s nm = None" and sz: "0 \<le> sz" "sz \<le> 7168"
    and nb: "nb = (nat sz + 511) div 512"
  shows "balloc_contig s (int nb) = -1 \<Longrightarrow> fs_create dev nm data sz s = Inr (-1, s)"
    "balloc_contig s (int nb) = int st \<Longrightarrow> fs_create dev nm data sz s =
       io_bind (io_fold (\<lambda>(b, x). log_write dev b x)
          (map (\<lambda>b. (of_int (int st + int b), data_block data sz (int b * int BSIZE))) [0..<nb]) (log_begin s))
         (\<lambda>s. let s = add_entry nm sz st nb s in io_bind (log_dir dev s) (\<lambda>s. io_bind (log_super dev s)
            (\<lambda>s. io_bind (log_commit dev s) (\<lambda>s. Inr (0, s)))))"
proof -
  note n = create_nblocks [OF sz, folded nb]
  have m: "mounted s" using s by (simp add: mem_ok_def)
  show "balloc_contig s (int nb) = -1 \<Longrightarrow> fs_create dev nm data sz s = Inr (-1, s)"
    using m s sz n by (simp add: fs_create_def Let_def)
  assume "balloc_contig s (int nb) = int st"
  then show "fs_create dev nm data sz s =
       io_bind (io_fold (\<lambda>(b, x). log_write dev b x)
          (map (\<lambda>b. (of_int (int st + int b), data_block data sz (int b * int BSIZE))) [0..<nb]) (log_begin s))
         (\<lambda>s. let s = add_entry nm sz st nb s in io_bind (log_dir dev s) (\<lambda>s. io_bind (log_super dev s)
            (\<lambda>s. io_bind (log_commit dev s) (\<lambda>s. Inr (0, s)))))"
    using m s sz n(2) unfolding fs_create_def n(1) io_fold_map prod.case
    by (simp add: LOGN_def add_entry_def Let_def)
qed

context blk_device
begin

lemma fs_create_ok:
  assumes s: "fs_ok content cap s" and room: "nfiles s < int MAXFILES" and sz: "0 \<le> sz" "sz \<le> 7168" "sz \<le> int (length data)"
    and nm: "fs_files content s (cstr nm) = None" "fs_files content s (cut_name nm) = None"
    and st: "balloc_contig s (int ((nat sz + 511) div 512)) = int st"
  shows "io_post (\<lambda>d. dies \<and> mountable cap (content d) \<and> (disk_files (recovered (content d)) = fs_files content s \<or>
        disk_files (recovered (content d)) = (fs_files content s)(cut_name nm \<mapsto> take (nat sz) data)))
    (\<lambda>(r, s'). r = 0 \<and> fs_ok content cap s' \<and> fs_files content s' = (fs_files content s)(cut_name nm \<mapsto> take (nat sz) data))
    (fs_create dev nm data sz s)" (is "io_post ?C ?R _")
proof -
  define nb where "nb = (nat sz + 511) div 512"
  define c where "c = img content s"
  define ws where "ws = map (\<lambda>b. (of_int (int st + int b) :: u32, data_block data sz (int b * int BSIZE))) [0..<nb]"
  let ?t = "map (\<lambda>b. (st + b, data_block data sz (int b * int BSIZE))) [0..<nb]"
  have mem: "mem_ok cap s" and v: "vdisk_ok (disk s)" "length (log_blk s) = LOGN" using s by (auto simp: fs_ok_def)
  have nm': "cstr nm \<notin> fname ` set (live s)" "cut_name nm \<notin> fname ` set (live s)"
    using nm files_of_dom [of "live s" "img content s"] unfolding fs_files_def by blast+
  have look: "lookup s nm = None" using lookup_None [OF mem] nm'(1) by blast
  have n14: "nb \<le> 14" using create_nblocks(2) [OF sz(1,2)] by (simp add: nb_def)
  have lay: "DATASTART \<le> unat (total_blocks s)" "unat (total_blocks s) \<le> cap" "unat (total_blocks s) \<le> 8192"
    using mem by (auto simp: mem_ok_def layout_ok_def MAXBLK_def)
  have fit: "DATASTART \<le> st" "0 < nb \<longrightarrow> fits s nb st" "st + nb \<le> unat (total_blocks s)"
  proof -
    from balloc_ok [of nb s] st n14 show "DATASTART \<le> st" and f: "0 < nb \<longrightarrow> fits s nb st" by (auto simp: nb_def)
    from f st lay show "st + nb \<le> unat (total_blocks s)"
      by (cases "nb = 0") (auto simp: fits_def balloc_contig_def nb_def)
  qed
  have stb: "unat (of_int (int st + int b) :: u32) = st + b" if "b < nb" for b
    using fit(3) lay that unat_small [of "int st + int b"] by simp
  then have "txn_of ws = ?t" by (auto simp: txn_of_def ws_def)
  then have tx: "take LOGN ([] @ txn_of ws) = ?t" using n14 by (simp add: LOGN_def)
  have ws: "\<forall>(b, x) \<in> set ws. length x = 512" "length ws = nb" by (auto simp: ws_def)
  have tok: "txn_ok cap ?t" "\<forall>(b, x) \<in> set ?t. DATASTART \<le> b"
    using n14 fit lay by (auto simp: txn_ok_def LOGN_def layout_defs)
  note i = fs_ok_image [OF s, folded c_def]
  note b = logging_begin [where content = content, OF v i(4) [unfolded c_def], folded c_def]
  have crash: "?C d" if "dies" "settled c (content d)" for d
    using crash_mountable [of cap c "[]" "content d"] that i by (simp add: txn_ok_def)
  show ?thesis
    unfolding fs_create_unfold(2) [where dev = dev and data = data, OF mem room look sz(1,2) nb_def st [folded nb_def], folded ws_def]
  proof (rule io_post_bind)
    show "io_post ?C (\<lambda>s1. only_log s s1 \<and> logging content c ?t s1 \<and> \<not> log_overflow s1)
        (io_fold (\<lambda>(b, x). log_write dev b x) ws (log_begin s))"
      by (rule io_post_mono [OF log_writes_ok [of c "[]" "log_begin s" ws, unfolded tx]])
         (use b lay crash n14 ws in \<open>auto simp: LOGN_def intro: only_log_trans\<close>)
  next
    fix s1 assume s1: "only_log s s1 \<and> logging content c ?t s1 \<and> \<not> log_overflow s1"
    let ?s = "add_entry nm sz st nb s1"
    have m1: "mem_ok cap s1" "live s1 = live s" "nfiles s1 = nfiles s" "total_blocks s1 = total_blocks s"
        "fits s1 nb st = fits s nb st"
      using s1 mem live_only_log [of s s1 cap] by (auto simp: only_log_def fits_def)
    obtain e where e: "live ?s = live s @ [e]" "fname e = cut_name nm" "unat (start e) = st" "unat (fsize e) = nat sz"
        "mem_ok cap ?s" "\<forall>f \<in> set (live s). extent f \<inter> {st..<st + nb} = {}"
      using add_entry_ok [OF m1(1), of sz nb st nm] room sz nb_def fit nm'(2) m1 by auto
    have "log_n ?s = log_n s1" "log_blk ?s = log_blk s1" "disk ?s = disk s1" "log_overflow ?s = log_overflow s1"
        "total_blocks ?s = total_blocks s"
      using m1 by (simp_all add: add_entry_def Let_def)
    then have l: "logging content c ?t ?s" "\<not> log_overflow ?s"
        "sb_total_blocks (dec_superblock (c 0)) = total_blocks ?s"
      using s1 s by (simp_all add: logging_def fs_ok_def c_def sb_of_def)
    have old: "files_of (live s) (apply_txn ?t c) = files_of (live s) c"
    proof (intro files_of_cong ballI conjI)
      fix f b assume f: "f \<in> set (live s)"
      then show "unat (fsize f) < 2 ^ 31" using mem by (auto simp: mem_ok_def layout_ok_def entry_ok_def)
      assume "b \<in> extent f"
      with f e(6) have "b \<notin> {st..<st + nb}" by blast
      then show "apply_txn ?t c b = c b" by (intro apply_txn_other) auto
    qed
    have new: "files_of (live ?s) (apply_txn ?t c) = (fs_files content s)(cut_name nm \<mapsto> take (nat sz) data)"
      using e(2) nm'(2) create_data [OF refl sz(1,3) nb_def e(3,4), of c]
      by (simp add: e(1) files_of_snoc old fs_files_def flip: c_def)
    show "io_post ?C ?R (let s = ?s in io_bind (log_dir dev s) (\<lambda>s. io_bind (log_super dev s)
            (\<lambda>s. io_bind (log_commit dev s) (\<lambda>s. Inr (0, s)))))"
      using meta_commit [OF l(1,2) _ _ tok i(1) l(3) e(5)] n14 lay i(2) unfolding new
      by (simp add: LOGN_def)
  qed
qed

end

text \<open>Every refusal leaves state and disk alone.\<close>

lemma wrap32: "word_of_int (k + 2 ^ 32) = (word_of_int k :: u32)"
  by (simp add: word_of_int_eq_iff take_bit_eq_mod)

lemma create_wrap:
  assumes "7168 < sz" "sz < 2 ^ 31"
  shows "fs_create dev nm data sz s = Inr (-1, s)"
proof (cases "sz + 511 < 2 ^ 31")
  case True
  then have "i32 (sz + int BSIZE - 1) = sz + 511"
    using assms sint_small [of "sz + 511"] by (simp add: i32_def BSIZE_def add.commute)
  then have "i32 (sz + int BSIZE - 1) sdiv int BSIZE = (sz + 511) div 512"
    using assms by (simp add: BSIZE_def signed_divide_int_def)
  moreover have "14 < (sz + 511) div 512" using assms by simp
  ultimately show ?thesis by (simp add: fs_create_def LOGN_def)
next
  case False
  define n where "n = sz + 511 - 2 ^ 32"
  have n: "- (2 ^ 31) \<le> n" "n < - (2 ^ 31) + 511" using False assms by (simp_all add: n_def)
  have "sz + int BSIZE - 1 = n + 2 ^ 32" by (simp add: n_def BSIZE_def)
  then have "word_of_int (sz + int BSIZE - 1) = (word_of_int n :: u32)" by (simp only: wrap32)
  then have "i32 (sz + int BSIZE - 1) = n"
    using n by (simp only: i32_def) (simp add: signed_of_int signed_take_bit_int_eq_self)
  moreover define m where "m = n sdiv 512"
  ultimately have i: "i32 (sz + int BSIZE - 1) sdiv int BSIZE = m" by (simp add: BSIZE_def)
  have m: "- 4194304 \<le> m" "m \<le> - 4194303" using n by (simp_all add: m_def signed_divide_int_def)
  have "uint (of_nat DATASTART + of_int m :: u32) = 19 + m + 2 ^ 32"
  proof -
    have "(of_nat DATASTART + of_int m :: u32) = of_int (19 + m + 2 ^ 32)" by (simp add: layout_defs)
    then show ?thesis using m by (simp only: unsigned_of_int) (simp add: take_bit_int_eq_self)
  qed
  then have "\<not> of_nat DATASTART + of_int m \<le> (of_nat MAXBLK :: u32)"
    using m by (simp add: word_le_def MAXBLK_def)
  then have "balloc_contig s m = -1"
    using m unfolding balloc_contig_def by (subst balloc_loop.simps) simp
  with m i show ?thesis by (simp add: fs_create_def LOGN_def)
qed

lemma create_refused:
  assumes "mem_ok cap s" "nfiles s = int MAXFILES \<or> sz < 0 \<or> (7168 < sz \<and> sz < 2 ^ 31) \<or> cstr nm \<in> fname ` set (live s) \<or>
     (0 \<le> sz \<and> sz \<le> 7168 \<and> balloc_contig s (int ((nat sz + 511) div 512)) = -1)"
  shows "fs_create dev nm data sz s = Inr (-1, s)"
proof -
  have "lookup s nm \<noteq> None \<longleftrightarrow> cstr nm \<in> fname ` set (live s)" using lookup_None [OF assms(1), of nm] by auto
  then show ?thesis
    using assms(2) create_nblocks [of sz] create_wrap [of sz dev nm data s]
    by (cases "7168 < sz \<and> sz < 2 ^ 31") (auto simp: fs_create_def Let_def)
qed

section \<open>Deletion\<close>

lemma shift_down:
  assumes "idx \<le> m" "m < length d"
  shows "fold (\<lambda>j d. d[j := d ! (j + 1)]) [idx..<m] d = take idx d @ drop (Suc idx) (take (Suc m) d) @ drop m d"
  using assms
proof (induction m)
  case 0
  then show ?case by simp
next
  case (Suc m)
  show ?case
  proof (cases "idx = Suc m")
    case False
    let ?d = "take idx d @ drop (Suc idx) (take (Suc m) d) @ drop m d"
    have IH: "fold (\<lambda>j d. d[j := d ! (j + 1)]) [idx..<m] d = ?d" using Suc False by simp
    have l: "length ?d = length d" using Suc.prems False by simp
    have "?d[m := ?d ! (m + 1)] = take idx d @ drop (Suc idx) (take (Suc (Suc m)) d) @ drop (Suc m) d"
      by (rule nth_equalityI) (use Suc.prems False in \<open>auto simp: nth_append nth_list_update less_diff_conv\<close>)
    with IH Suc.prems False show ?thesis by (simp add: upt_Suc_append)
  qed (use Suc in simp)
qed

lemma dir_remove_ok:
  assumes "idx < n" "n \<le> length d"
  shows "take (n - 1) (dir_remove idx n d) = take idx (take n d) @ drop (Suc idx) (take n d)"
    "length (dir_remove idx n d) = length d"
    "\<forall>e \<in> set d. dirent_ok e \<Longrightarrow> \<forall>e \<in> set (dir_remove idx n d). dirent_ok e"
proof -
  define d1 where "d1 = take idx d @ drop (Suc idx) (take n d) @ drop (n - 1) d"
  define z where "z = (d1 ! (n - 1))\<lparr>name := replicate NAMELEN 0, fsize := 0, start := 0\<rparr>"
  have r: "dir_remove idx n d = d1[n - 1 := z]"
    using shift_down [of idx "n - 1" d] assms by (simp add: dir_remove_def d1_def z_def Let_def)
  obtain A where A: "A = take idx (take n d) @ drop (Suc idx) (take n d)" "length A = n - 1" using assms by simp
  have "d1 = A @ drop (n - 1) d" using assms by (simp add: d1_def A(1) min_def)
  then show "take (n - 1) (dir_remove idx n d) = take idx (take n d) @ drop (Suc idx) (take n d)"
    unfolding r A(1) [symmetric] by (simp add: A(2) del: One_nat_def)
  show "length (dir_remove idx n d) = length d" using assms by (simp add: r d1_def)
  assume ok: "\<forall>e \<in> set d. dirent_ok e"
  have "set d1 \<subseteq> set d" unfolding d1_def by (auto dest: in_set_takeD in_set_dropD)
  moreover have "dirent_ok z" by (simp add: z_def dirent_ok_def)
  ultimately show "\<forall>e \<in> set (dir_remove idx n d). dirent_ok e"
    using ok set_update_subset_insert [of d1 "n - 1" z] unfolding r by blast
qed

lemma mark_eq:
  assumes "unat b0 + n < 2 ^ 32"
  shows "mark v b0 n m = (\<lambda>b. if unat b0 \<le> b \<and> b < unat b0 + n \<and> b < MAXBLK then v else m b)"
proof -
  have u: "unat (b0 + of_nat k) = unat b0 + k" if "k < n" for k
    using assms that by (simp add: unat_word_ariths unat_nat32)
  have "mark v b0 n m = fold (\<lambda>k m. if unat b0 + k < MAXBLK then m(unat b0 + k := v) else m) [0..<n] m"
    unfolding mark_def by (rule fold_cong) (auto simp: u)
  also have "\<dots> = (\<lambda>b. if unat b0 \<le> b \<and> b < unat b0 + n \<and> b < MAXBLK then v else m b)"
    by (induction n) (auto simp: fun_eq_iff less_Suc_eq)
  finally show ?thesis .
qed

lemma sorted_wrt_remove:
  assumes "sorted_wrt P es" "i < length es"
  shows "sorted_wrt P (take i es @ drop (Suc i) es)"
proof -
  have "es = take i es @ es ! i # drop (Suc i) es" using assms(2) by (rule id_take_nth_drop)
  then show ?thesis using assms(1) by (metis (no_types, lifting) sorted_wrt.simps(2) sorted_wrt_append list.set_intros(2))
qed

definition remove_entry :: "nat \<Rightarrow> 'd fs \<Rightarrow> 'd fs" where
  "remove_entry idx s =
     (let e = dir s ! idx in
      s\<lparr>used := mark 0 (start e) (nblocks_of (fsize e)) (used s),
        dir := dir_remove idx (nat (nfiles s)) (dir s), nfiles := nfiles s - 1\<rparr>)"

lemma remove_entry_ok:
  assumes s: "mem_ok cap s" and i: "idx < nat (nfiles s)"
  shows "live (remove_entry idx s) = take idx (live s) @ drop (Suc idx) (live s)" "mem_ok cap (remove_entry idx s)"
proof -
  let ?s = "remove_entry idx s"
  have n: "nat (nfiles s) \<le> length (dir s)" using s by (auto simp: mem_ok_def)
  note d = dir_remove_ok [OF i n]
  have nn: "nat (nfiles s - 1) = nat (nfiles s) - 1" by simp
  show l: "live ?s = take idx (live s) @ drop (Suc idx) (live s)"
    using d(1) by (simp add: live_def remove_entry_def Let_def nn)
  have il: "idx < length (live s)" "live s ! idx = dir s ! idx" using i n by (simp_all add: live_def)
  define e where "e = dir s ! idx"
  have split: "live s = take idx (live s) @ e # drop (Suc idx) (live s)"
    using id_take_nth_drop [OF il(1)] il(2) by (simp add: e_def)
  have mem: "set (live s) = insert e (set (live ?s))" by (subst split) (simp add: l)
  have sw: "sorted_wrt apart (live s)" using s by (simp add: mem_ok_def layout_ok_def)
  have apart: "extent e \<inter> extent f = {}" if "f \<in> set (live ?s)" for f
  proof -
    have "sorted_wrt apart (take idx (live s) @ e # drop (Suc idx) (live s))" using sw split by simp
    then show ?thesis using that by (auto simp: l sorted_wrt_append apart_def)
  qed
  have lay: "layout_ok cap (unat (total_blocks s)) (live ?s)"
    using s mem sorted_wrt_remove [OF sw il(1)] by (simp add: mem_ok_def layout_ok_def l)
  have ent: "entry_ok (unat (total_blocks s)) e" "unat (total_blocks s) \<le> MAXBLK"
    using s mem by (auto simp: mem_ok_def layout_ok_def)
  then have mk: "used ?s = (\<lambda>b. if b \<in> extent e \<and> b < MAXBLK then 0 else used s b)"
    by (auto simp: remove_entry_def Let_def mark_eq entry_ok_def MAXBLK_def extent_def e_def fun_eq_iff)
  have ue: "used_exact ?s"
    unfolding used_exact_def mk
  proof (intro allI impI)
    fix b assume b: "b < MAXBLK"
    have "used s b \<noteq> 0 \<longleftrightarrow> b < DATASTART \<or> b \<in> extent e \<or> (\<exists>f \<in> set (live ?s). b \<in> extent f)"
      using s b mem by (simp add: mem_ok_def used_exact_def)
    moreover have "DATASTART \<le> b" if "b \<in> extent e" using extent_home [OF ent(1) that] by simp
    ultimately show "((if b \<in> extent e \<and> b < MAXBLK then 0 else used s b) \<noteq> 0) =
        (b < DATASTART \<or> (\<exists>e \<in> set (live ?s). b \<in> extent e))"
      using b apart by (auto simp: disjoint_iff)
  qed
  have fl: "dir ?s = dir_remove idx (nat (nfiles s)) (dir s)" "mounted ?s = mounted s" "nfiles ?s = nfiles s - 1"
      "total_blocks ?s = total_blocks s"
    by (simp_all add: remove_entry_def Let_def)
  show "mem_ok cap ?s"
    using s lay ue d(2,3) i by (auto simp: mem_ok_def fl)
qed

context blk_device
begin

lemma fs_delete_ok:
  assumes s: "fs_ok content cap s"
  shows "fs_files content s (cstr nm) = None \<Longrightarrow> fs_delete dev nm s = Inr (-1, s)"
    "fs_files content s (cstr nm) \<noteq> None \<Longrightarrow>
       io_post (\<lambda>d. dies \<and> mountable cap (content d) \<and> (disk_files (recovered (content d)) = fs_files content s \<or>
          disk_files (recovered (content d)) = (fs_files content s)(cstr nm := None)))
        (\<lambda>(r, s'). r = 0 \<and> fs_ok content cap s' \<and> fs_files content s' = (fs_files content s)(cstr nm := None))
        (fs_delete dev nm s)"
proof -
  have mem: "mem_ok cap s" and v: "vdisk_ok (disk s)" "length (log_blk s) = LOGN" and mt: "mounted s"
    using s by (auto simp: fs_ok_def mem_ok_def)
  have look: "lookup s nm = None \<longleftrightarrow> fs_files content s (cstr nm) = None"
    using lookup_None [OF mem] files_of_dom [of "live s" "img content s"] unfolding fs_files_def by blast
  show "fs_files content s (cstr nm) = None \<Longrightarrow> fs_delete dev nm s = Inr (-1, s)"
    using look mt by (simp add: fs_delete_def)
  assume "fs_files content s (cstr nm) \<noteq> None"
  then obtain idx where idx: "lookup s nm = Some idx" using look by auto
  note i = lookup_Some [OF mem idx]
  let ?s = "log_begin (remove_entry idx s)" and ?c = "img content s"
  note r = remove_entry_ok [OF mem i(2)]
  note im = fs_ok_image [OF s]
  have "settled ?c (img content (remove_entry idx s))" "vdisk_ok (disk (remove_entry idx s))"
      "length (log_blk (remove_entry idx s)) = LOGN"
    using im(4) v by (simp_all add: remove_entry_def Let_def)
  then have b: "logging content ?c [] ?s" "only_log (remove_entry idx s) ?s" "\<not> log_overflow ?s"
    using logging_begin [where content = content and s = "remove_entry idx s" and c = ?c] by auto
  note l = live_only_log [OF b(2), of cap]
  have tb: "sb_total_blocks (dec_superblock (?c 0)) = total_blocks ?s"
    using s b(2) by (simp add: fs_ok_def sb_of_def only_log_def remove_entry_def Let_def)
  have cap: "DATASTART \<le> cap" using mem by (auto simp: mem_ok_def layout_ok_def)
  have new: "files_of (live ?s) (apply_txn [] ?c) = (fs_files content s)(cstr nm := None)"
    using files_of_remove [of "live s" idx ?c] mem i l r by (simp add: mem_ok_def layout_ok_def fs_files_def)
  have "fs_delete dev nm s = io_bind (log_dir dev ?s) (\<lambda>s. io_bind (log_super dev s)
            (\<lambda>s. io_bind (log_commit dev s) (\<lambda>s. Inr (0, s))))"
    using mt idx by (simp add: fs_delete_def remove_entry_def Let_def)
  then show "io_post (\<lambda>d. dies \<and> mountable cap (content d) \<and> (disk_files (recovered (content d)) = fs_files content s \<or>
          disk_files (recovered (content d)) = (fs_files content s)(cstr nm := None)))
        (\<lambda>(r, s'). r = 0 \<and> fs_ok content cap s' \<and> fs_files content s' = (fs_files content s)(cstr nm := None))
        (fs_delete dev nm s)"
    using meta_commit [OF b(1,3) _ cap _ _ im(1) tb] l r(2) unfolding new im(2)
    by (simp add: LOGN_def txn_ok_def)
qed

end

section \<open>Mounting\<close>

lemma build_bitmap_ok:
  assumes "T \<le> MAXBLK" "\<forall>e \<in> set (live s). entry_ok T e" "nat (nfiles s) \<le> length (dir s)"
  shows "used_exact (build_bitmap s)" "only_log (s\<lparr>used := used (build_bitmap s)\<rparr>) (build_bitmap s)"
    "build_bitmap s = s\<lparr>used := used (build_bitmap s)\<rparr>"
proof -
  let ?n = "nat (nfiles s)" and ?ext = "\<lambda>f. extent (dir s ! f)"
  define m2 where "m2 = fold (\<lambda>i m. m(LOGSTART + i := 1)) [0..<LOGN]
    ((fold (\<lambda>i m. m(i := 0)) [0..<MAXBLK] (used s))(0 := 1, DIRBLOCK := 1, LOGHDR := 1))"
  have live: "set (live s) = (\<lambda>f. dir s ! f) ` {0..<?n}"
    using assms(3) by (simp add: live_def nth_image)
  have ent: "entry_ok T (dir s ! f)" if "f < ?n" for f using assms(2) that unfolding live by simp
  have "fold (\<lambda>i m. m(i := 0)) [0..<MAXBLK] (used s) = (\<lambda>k. if k < MAXBLK then 0 else used s k)"
    using fold_upd [of 0 "\<lambda>_. 0" MAXBLK "used s"] by simp
  then have m2: "m2 b \<noteq> 0 \<longleftrightarrow> b < DATASTART" if "b < MAXBLK" for b
    using that by (auto simp: m2_def fold_upd layout_defs)
  have step: "mark 1 (start (dir s ! f)) (nblocks_of (fsize (dir s ! f))) m =
      (\<lambda>b. if b \<in> ?ext f \<and> b < MAXBLK then 1 else m b)" if "f < ?n" for f m
    using ent [OF that] assms(1) by (subst mark_eq) (auto simp: entry_ok_def extent_def MAXBLK_def fun_eq_iff)
  have "fold (\<lambda>f m. mark 1 (start (dir s ! f)) (nblocks_of (fsize (dir s ! f))) m) [0..<k] m2 =
      (\<lambda>b. if b < MAXBLK \<and> (\<exists>f < k. b \<in> ?ext f) then 1 else m2 b)" if "k \<le> ?n" for k
    using that by (induction k) (auto simp: step fun_eq_iff less_Suc_eq)
  then have "used (build_bitmap s) = (\<lambda>b. if b < MAXBLK \<and> (\<exists>f < ?n. b \<in> ?ext f) then 1 else m2 b)"
    by (simp add: build_bitmap_def Let_def flip: m2_def)
  moreover have "live (build_bitmap s) = live s" by (simp add: build_bitmap_def live_def Let_def)
  ultimately show "used_exact (build_bitmap s)"
    using m2 by (auto simp: used_exact_def live)
  show "build_bitmap s = s\<lparr>used := used (build_bitmap s)\<rparr>" by (simp add: build_bitmap_def Let_def)
  then show "only_log (s\<lparr>used := used (build_bitmap s)\<rparr>) (build_bitmap s)" by simp
qed

lemma mountable_recovering:
  assumes c: "mountable cap c" and x: "in_flight c (pending c) x \<or> settled (recovered c) x"
  shows "mountable cap x \<and> disk_files (recovered x) = disk_files (recovered c)"
proof (cases "in_flight c (pending c) x")
  case True
  then have h: "home_eq (recovered x) (recovered c)" using in_flight_recovered by (fastforce simp: recovered_def)
  have r: "image_ok cap (recovered x)" "disk_files (recovered x) = disk_files (recovered c)"
    using image_home [OF h, of cap] c by (auto simp: mountable_def)
  have "recovered x 0 = recovered c 0" using h by (simp add: home_eq_def)
  moreover have "x 0 = c 0 \<or> (0, x 0) \<in> set (pending c)" "pending x = pending c" using True by (simp_all add: in_flight_def)
  ultimately show ?thesis using c r by (auto simp: mountable_def)
next
  case False
  then have "pending x = []" "home_eq x (recovered c)" using x by (auto simp: settled_def)
  moreover from this have "image_ok cap x" "disk_files x = disk_files (recovered c)"
    using image_home [of x "recovered c" cap] c by (auto simp: mountable_def)
  ultimately show ?thesis by (simp add: mountable_def recovered_def txn_ok_def image_ok_def)
qed

context blk_device
begin

lemma rw_read_result:
  assumes "vdisk_ok (disk s)" "unat b < cap"
  shows "io_post (\<lambda>d. dies \<and> content d = img content s)
    (\<lambda>(r, s'). r = 0 \<and> same_disk content s s' \<and> fsbuf s' = img content s (unat b)) (fs_rw dev b False s)"
proof -
  have "io_post (\<lambda>d. dies \<and> content d = img content s)
    (\<lambda>(r, buf', v'). r = 0 \<and> buf' = img content s (unat b) \<and> vdisk_ok v' \<and>
       content (device v') = img content s)
    (virtio_disk_rw dev (ucast b) (fsbuf s) False (disk s))"
    using rw_read [OF assms(1), of "ucast b" "fsbuf s"] assms(2) by (simp add: unat_ucast_block)
  then show ?thesis
    by (cases "virtio_disk_rw dev (ucast b) (fsbuf s) False (disk s)")
       (auto simp: fs_rw_def same_disk_def only_log_def)
qed

text \<open>The state with the directory and the superblock of an image loaded, and the bitmap built from them.\<close>

lemma mounted_ok:
  assumes r: "image_ok cap r" "settled r (img content s)" and n: "n = unat (sb_nfiles (dec_superblock (r 0)))"
    and s: "nfiles s = int n" "total_blocks s = sb_total_blocks (dec_superblock (r 0))" "next_free s = sb_next_free (dec_superblock (r 0))"
      "vdisk_ok (disk s)" "length (log_blk s) = LOGN" "dir s = dec_dir (r DIRBLOCK)"
  obtains u where "build_bitmap s = s\<lparr>used := u\<rparr>" "fs_ok content cap (s\<lparr>used := u, mounted := True\<rparr>)"
    "fs_files content (s\<lparr>used := u, mounted := True\<rparr>) = disk_files r"
proof -
  let ?sb = "dec_superblock (r 0)"
  have lay: "sb_magic ?sb = FS_MAGIC" "n \<le> MAXFILES" "layout_ok cap (unat (sb_total_blocks ?sb)) (disk_live r)"
    using r(1) by (auto simp: image_ok_def n)
  have home: "img content s 0 = r 0" "img content s DIRBLOCK = r DIRBLOCK"
    using r(2) by (simp_all add: settled_def home_eq_def DIRBLOCK_def)
  have T: "unat (sb_total_blocks ?sb) \<le> MAXBLK" using lay(3) by (auto simp: layout_ok_def)
  have dl: "length (r DIRBLOCK) = 512" using home(2) content_length by metis
  have l: "live s = disk_live r" by (simp add: live_def s disk_live_def n)
  have pre: "\<forall>e \<in> set (disk_live r). entry_ok (unat (sb_total_blocks ?sb)) e" "nat (nfiles s) \<le> length (dir s)"
    using lay(2,3) dec_dir_ok [OF dl] by (auto simp: layout_ok_def s)
  obtain u where u: "build_bitmap s = s\<lparr>used := u\<rparr>" "used_exact (s\<lparr>used := u\<rparr>)"
    using build_bitmap_ok(1,3) [of "unat (sb_total_blocks ?sb)" s, unfolded l, OF T pre] by metis
  let ?t = "s\<lparr>used := u, mounted := True\<rparr>"
  have nw: "(of_int (int n) :: u32) = sb_nfiles ?sb" by (simp add: n)
  have "fs_ok content cap ?t"
    using u(2) s lay dec_dir_ok [OF dl] r(2) home l nw
    by (simp add: fs_ok_def mem_ok_def used_exact_def live_def sb_of_def settled_def)
  moreover have "fs_files content ?t = disk_files r"
  proof -
    have "disk_files (img content s) = disk_files r" using image_home [of "img content s" r cap] r by (auto simp: settled_def)
    moreover have "disk_live (img content s) = disk_live r" by (simp add: disk_live_def home)
    moreover have "live ?t = disk_live r" using l by (simp add: live_def)
    ultimately show ?thesis by (simp add: fs_files_def disk_files_def)
  qed
  ultimately show thesis using u(1) by (intro that)
qed

lemma load_meta_ok:
  assumes r: "image_ok cap r" and s: "total_blocks s = sb_total_blocks (dec_superblock (r 0))"
      "length (log_blk s) = LOGN" "vdisk_ok (disk s)" "settled r (img content s)"
  shows "io_post (\<lambda>d. dies \<and> settled r (content d))
    (\<lambda>s'. fs_ok content cap s' \<and> fs_files content s' = disk_files r \<and>
       total_blocks s' = sb_total_blocks (dec_superblock (r 0))) (load_meta dev s)" (is "io_post ?C ?R _")
proof -
  let ?sb = "dec_superblock (r 0)"
  define n where "n = unat (sb_nfiles ?sb)"
  have lay: "sb_magic ?sb = FS_MAGIC" "n \<le> MAXFILES" "layout_ok cap (unat (sb_total_blocks ?sb)) (disk_live r)"
    using r by (auto simp: image_ok_def n_def)
  have nf: "sint (sb_nfiles ?sb) = int n" "\<not> int n > int MAXFILES"
    using lay(2) sint_unat [of "sb_nfiles ?sb", folded n_def] by (simp_all add: MAXFILES_def)
  have home: "img content s 0 = r 0" "img content s DIRBLOCK = r DIRBLOCK"
    using s(4) by (simp_all add: settled_def home_eq_def DIRBLOCK_def)
  have T: "unat (sb_total_blocks ?sb) \<le> MAXBLK" "DATASTART \<le> cap" using lay(3) by (auto simp: layout_ok_def)
  have cap: "unat (0 :: u32) < cap" "unat (of_nat DIRBLOCK :: u32) < cap" "unat (of_nat DIRBLOCK :: u32) = DIRBLOCK"
    using T by (simp_all add: layout_defs)
  show ?thesis
    unfolding load_meta_def
  proof (rule io_post_bind [OF io_post_mono [OF io_read_same [OF s(3) cap(1)]]])
    fix s4 assume s4: "same_disk content s s4 \<and> fsbuf s4 = img content s (unat (0 :: u32)) \<and> out s4 = out s"
    define s5 where "s5 = s4\<lparr>nfiles := int n, next_free := sb_next_free ?sb\<rparr>"
    have v5: "vdisk_ok (disk s5)" "img content s5 = img content s" "length (log_blk s5) = LOGN"
        "total_blocks s5 = sb_total_blocks ?sb" "nfiles s5 = int n" "next_free s5 = sb_next_free ?sb"
      using s4 s by (simp_all add: s5_def same_disk_def only_log_def)
    have "io_post ?C ?R (io_bind (fs_io dev (of_nat DIRBLOCK) False s5) (\<lambda>s.
       let s = build_bitmap (s\<lparr>dir := dec_dir (fsbuf s)\<rparr>)
       in Inr (puts ('' files'' @ [CHR 0x0A]) (put_dec (of_int (nfiles s))
                (puts ''[ok] filesystem mounted (journaled): '' (s\<lparr>mounted := True\<rparr>))))))"
    proof (rule io_post_bind [OF io_post_mono [OF io_read_same [OF v5(1) cap(2)]]])
      fix s6 assume s6: "same_disk content s5 s6 \<and> fsbuf s6 = img content s5 (unat (of_nat DIRBLOCK :: u32)) \<and> out s6 = out s5"
      define s7 where "s7 = s6\<lparr>dir := dec_dir (r DIRBLOCK)\<rparr>"
      have fb: "fsbuf s6 = r DIRBLOCK" using s6 v5(2) home(2) unfolding cap(3) by simp
      have f7: "nfiles s7 = int n" "total_blocks s7 = sb_total_blocks ?sb" "next_free s7 = sb_next_free ?sb"
          "vdisk_ok (disk s7)" "length (log_blk s7) = LOGN" "dir s7 = dec_dir (r DIRBLOCK)" and i7: "settled r (img content s7)"
        using s6 v5 s(4) by (simp_all add: s7_def same_disk_def only_log_def)
      obtain u where u: "build_bitmap s7 = s7\<lparr>used := u\<rparr>" "fs_ok content cap (s7\<lparr>used := u, mounted := True\<rparr>)"
          "fs_files content (s7\<lparr>used := u, mounted := True\<rparr>) = disk_files r"
        by (rule mounted_ok [OF r i7 n_def f7])
      then have "?R (puts x (put_dec y (puts z (s7\<lparr>used := u, mounted := True\<rparr>))))" for x y z
        using same_disk_fs [of content "s7\<lparr>used := u, mounted := True\<rparr>" "puts x (put_dec y (puts z (s7\<lparr>used := u, mounted := True\<rparr>)))" cap] f7(2)
        by (simp add: same_disk_def only_log_def puts_def put_dec_def fs_ok_def)
      then show "io_post ?C ?R (let s = build_bitmap (s6\<lparr>dir := dec_dir (fsbuf s6)\<rparr>)
         in Inr (puts ('' files'' @ [CHR 0x0A]) (put_dec (of_int (nfiles s))
                (puts ''[ok] filesystem mounted (journaled): '' (s\<lparr>mounted := True\<rparr>)))))"
        by (simp add: fb u(1) Let_def flip: s7_def)
    qed (use v5 s in auto)
    then show "io_post ?C ?R (let sb = dec_superblock (fsbuf s4); nf = sint (sb_nfiles sb);
         s = s4\<lparr>nfiles := (if nf > int MAXFILES then int MAXFILES else nf), next_free := sb_next_free sb\<rparr>
       in io_bind (fs_io dev (of_nat DIRBLOCK) False s) (\<lambda>s.
         let s = build_bitmap (s\<lparr>dir := dec_dir (fsbuf s)\<rparr>)
         in Inr (puts ('' files'' @ [CHR 0x0A]) (put_dec (of_int (nfiles s))
                (puts ''[ok] filesystem mounted (journaled): '' (s\<lparr>mounted := True\<rparr>))))))"
      using s4 home(1) nf by (simp add: Let_def flip: s5_def)
  qed (use s in auto)
qed

lemma fs_init_ok:
  assumes s: "vdisk_ok (disk s)" "length (log_blk s) = LOGN" and c: "mountable cap c" "img content s = c"
  shows "io_post (\<lambda>d. dies \<and> mountable cap (content d) \<and> disk_files (recovered (content d)) = disk_files (recovered c))
    (\<lambda>s'. fs_ok content cap s' \<and> fs_files content s' = disk_files (recovered c) \<and>
       total_blocks s' = sb_total_blocks (dec_superblock (recovered c 0))) (fs_init dev s)"
    (is "io_post ?C ?R _")
proof -
  let ?r = "recovered c"
  let ?sb = "dec_superblock (?r 0)"
  have im: "image_ok cap ?r" and c0: "sb_magic (dec_superblock (c 0)) = FS_MAGIC"
      "sb_total_blocks (dec_superblock (c 0)) = sb_total_blocks ?sb" and tx: "txn_ok cap (pending c)"
    using c(1) by (auto simp: mountable_def)
  have T: "DATASTART \<le> unat (sb_total_blocks ?sb)" "unat (sb_total_blocks ?sb) \<le> MAXBLK" "DATASTART \<le> cap"
    using im by (auto simp: image_ok_def layout_ok_def)
  have T': "\<not> (sb_total_blocks ?sb = 0 \<or> sb_total_blocks ?sb > of_nat MAXBLK)"
    using T by (auto simp: layout_defs MAXBLK_def word_less_nat_alt)
  have crash: "?C d" if "dies" "in_flight c (pending c) (content d) \<or> settled ?r (content d)" for d
    using mountable_recovering [OF c(1) that(2)] that(1) by simp
  have self: "in_flight c (pending c) c" by (simp add: in_flight_def)
  have cap: "unat (0 :: u32) < cap" "unat (of_nat DIRBLOCK :: u32) < cap" using T by (simp_all add: layout_defs)
  show ?thesis
    unfolding fs_init_def
  proof (rule io_post_bind)
    show "io_post ?C (\<lambda>(r, s1). r = 0 \<and> same_disk content s s1 \<and> fsbuf s1 = c 0) (fs_rw dev 0 False s)"
      by (rule io_post_mono [OF rw_read_result [OF s(1) cap(1)]]) (use c(2) crash self in auto)
  next
    fix x assume x: "case x of (r, s1) \<Rightarrow> r = 0 \<and> same_disk content s s1 \<and> fsbuf s1 = c 0"
    obtain r s1 where xs: "x = (r, s1)" by (cases x)
    define s2 where "s2 = s1\<lparr>total_blocks := sb_total_blocks ?sb\<rparr>"
    have s1: "r = 0" "fsbuf s1 = c 0" "same_disk content s s1" using x xs by auto
    have s2: "vdisk_ok (disk s2)" "img content s2 = c" "length (fsbuf s2) = 512" "length (log_blk s2) = LOGN"
      using s1 s c(2) content_length by (auto simp: s2_def same_disk_def)
    have "io_post ?C (\<lambda>s3. total_blocks s3 = sb_total_blocks ?sb \<and> length (log_blk s3) = LOGN \<and> vdisk_ok (disk s3) \<and>
        settled ?r (img content s3)) (recover dev s2)"
      by (rule io_post_mono [OF recover_ok [OF s2(1,3) T(3) s2(2) tx]])
         (use s2 crash in \<open>auto simp: only_log_def s2_def\<close>)
    moreover have "io_post ?C ?R (load_meta dev s3)"
      if s3: "total_blocks s3 = sb_total_blocks ?sb \<and> length (log_blk s3) = LOGN \<and> vdisk_ok (disk s3) \<and>
        settled ?r (img content s3)" for s3
      by (rule io_post_mono [OF load_meta_ok [OF im, of s3]]) (use s3 crash in auto)
    ultimately have "io_post ?C ?R (io_bind (recover dev s2) (load_meta dev))" by (rule io_post_bind)
    then show "io_post ?C ?R (case x of (r, s) \<Rightarrow>
       if r \<noteq> 0 then Inr (puts (''[fs] cannot read superblock'' @ [CHR 0x0A]) s)
       else let sb = dec_superblock (fsbuf s) in
       if sb_magic sb \<noteq> FS_MAGIC then Inr (puts (''[fs] bad magic (no filesystem)'' @ [CHR 0x0A]) s)
       else
         let t = sb_total_blocks sb;
             t = (if t = 0 \<or> t > of_nat MAXBLK then of_nat MAXBLK else t)
         in io_bind (recover dev (s\<lparr>total_blocks := t\<rparr>)) (load_meta dev))"
      using s1 c0 T' unfolding xs s2_def by (simp add: Let_def)
  qed
qed

end

end
