(* ===== verification/FsThms.thy ===== *)
theory FsThms
  imports FsOps
begin

text \<open>
  The theorems about the file system as its users see it, over any device that keeps the
  block-device contract \<open>blk_device\<close>, and two disks that keep it, one reliable and one that
  stops after a number of requests, on which the theorems are exercised.
\<close>

section \<open>Two disks\<close>

definition pad :: "u8 list \<Rightarrow> u8 list" where
  "pad x = take 512 (x @ replicate 512 0)"

lemma pad_length [simp]: "length (pad x) = 512"
  by (simp add: pad_def)

lemma pad_id [simp]: "length x = 512 \<Longrightarrow> pad x = x"
  by (simp add: pad_def)

definition ram_content :: "image \<Rightarrow> image" where
  "ram_content m b = pad (m b)"

definition ram_dev :: "image blkdev" where
  "ram_dev q m =
     (let b = unat (sector (sreq q)) in
      if rtype (sreq q) = VIRTIO_BLK_T_IN
      then (m, Some \<lparr>cbuf = ram_content m b, cstatus = 0, cused_idx = sused_idx q + 1\<rparr>)
      else (m(b := sbuf q), Some \<lparr>cbuf = sbuf q, cstatus = 0, cused_idx = sused_idx q + 1\<rparr>))"

lemma ram_content_upd: "length x = 512 \<Longrightarrow> ram_content (m(b := x)) = (ram_content m)(b := x)"
  by (auto simp: ram_content_def)

interpretation ram: blk_device ram_dev ram_content cap False
proof
  show "length (ram_content d b) = 512" for d b by (simp add: ram_content_def)
next
  fix q d d' r
  assume "chain_ok q False" "ram_dev q d = (d', r)"
  then show "ram_content d' = ram_content d \<and>
      (case r of None \<Rightarrow> False
       | Some c \<Rightarrow> cbuf c = ram_content d (unat (sector (sreq q))) \<and> cstatus c = 0 \<and> cused_idx c = sused_idx q + 1)"
    by (auto simp: ram_dev_def chain_ok_def Let_def)
next
  fix q d d' r
  assume "chain_ok q True" "length (sbuf q) = 512" "ram_dev q d = (d', r)"
  moreover from this have "rtype (sreq q) \<noteq> VIRTIO_BLK_T_IN"
    by (simp add: chain_ok_def Let_def VIRTIO_BLK_T_IN_def VIRTIO_BLK_T_OUT_def)
  ultimately show "case r of None \<Rightarrow> False \<and> (ram_content d' = ram_content d \<or>
        ram_content d' = (ram_content d)(unat (sector (sreq q)) := sbuf q))
      | Some c \<Rightarrow> ram_content d' = (ram_content d)(unat (sector (sreq q)) := sbuf q) \<and>
          cbuf c = sbuf q \<and> cstatus c = 0 \<and> cused_idx c = sused_idx q + 1"
    by (auto simp: ram_dev_def Let_def ram_content_upd)
qed

text \<open>The second disk loses power before request number \<open>n\<close>.\<close>

definition frail_dev :: "(nat \<times> image) blkdev" where
  "frail_dev q d =
     (case d of (0, m) \<Rightarrow> ((0, m), None)
      | (Suc n, m) \<Rightarrow> (case ram_dev q m of (m', r) \<Rightarrow> ((n, m'), r)))"

definition frail_content :: "nat \<times> image \<Rightarrow> image" where
  "frail_content d = ram_content (snd d)"

interpretation frail: blk_device frail_dev frail_content cap True
proof
  show "length (frail_content d b) = 512" for d b by (simp add: frail_content_def ram_content_def)
next
  fix q d d' r
  assume a: "chain_ok q False" "unat (sector (sreq q)) < cap" "frail_dev q d = (d', r)"
  obtain n m where d: "d = (n, m)" by (cases d)
  obtain m' r' where q: "ram_dev q m = (m', r')" by (cases "ram_dev q m")
  show "frail_content d' = frail_content d \<and>
      (case r of None \<Rightarrow> True
       | Some c \<Rightarrow> cbuf c = frail_content d (unat (sector (sreq q))) \<and> cstatus c = 0 \<and> cused_idx c = sused_idx q + 1)"
    using a(3) ram.dev_read [OF a(1,2) q] by (cases n) (auto simp: frail_dev_def d q frail_content_def split: option.splits)
next
  fix q d d' r
  assume a: "chain_ok q True" "unat (sector (sreq q)) < cap" "length (sbuf q) = 512" "frail_dev q d = (d', r)"
  obtain n m where d: "d = (n, m)" by (cases d)
  obtain m' r' where q: "ram_dev q m = (m', r')" by (cases "ram_dev q m")
  show "case r of None \<Rightarrow> True \<and> (frail_content d' = frail_content d \<or>
        frail_content d' = (frail_content d)(unat (sector (sreq q)) := sbuf q))
      | Some c \<Rightarrow> frail_content d' = (frail_content d)(unat (sector (sreq q)) := sbuf q) \<and>
          cbuf c = sbuf q \<and> cstatus c = 0 \<and> cused_idx c = sused_idx q + 1"
    using a(4) ram.dev_write [OF a(1-3) q] by (cases n) (auto simp: frail_dev_def d q frail_content_def split: option.splits)
qed

text \<open>The same disk back on power.\<close>

definition steady_dev :: "(nat \<times> image) blkdev" where
  "steady_dev q d = (case d of (n, m) \<Rightarrow> case ram_dev q m of (m', r) \<Rightarrow> ((n, m'), r))"

interpretation steady: blk_device steady_dev frail_content cap False
proof
  show "length (frail_content d b) = 512" for d b by (rule frail.content_length)
next
  fix q d d' r
  assume a: "chain_ok q False" "unat (sector (sreq q)) < cap" "steady_dev q d = (d', r)"
  obtain n m where d: "d = (n, m)" by (cases d)
  obtain m' r' where q: "ram_dev q m = (m', r')" by (cases "ram_dev q m")
  show "frail_content d' = frail_content d \<and>
      (case r of None \<Rightarrow> False
       | Some c \<Rightarrow> cbuf c = frail_content d (unat (sector (sreq q))) \<and> cstatus c = 0 \<and> cused_idx c = sused_idx q + 1)"
    using a(3) ram.dev_read [OF a(1,2) q] by (auto simp: steady_dev_def d q frail_content_def split: option.splits)
next
  fix q d d' r
  assume a: "chain_ok q True" "unat (sector (sreq q)) < cap" "length (sbuf q) = 512" "steady_dev q d = (d', r)"
  obtain n m where d: "d = (n, m)" by (cases d)
  obtain m' r' where q: "ram_dev q m = (m', r')" by (cases "ram_dev q m")
  show "case r of None \<Rightarrow> False \<and> (frail_content d' = frail_content d \<or>
        frail_content d' = (frail_content d)(unat (sector (sreq q)) := sbuf q))
      | Some c \<Rightarrow> frail_content d' = (frail_content d)(unat (sector (sreq q)) := sbuf q) \<and>
          cbuf c = sbuf q \<and> cstatus c = 0 \<and> cused_idx c = sused_idx q + 1"
    using a(4) ram.dev_write [OF a(1-3) q] by (auto simp: steady_dev_def d q frail_content_def split: option.splits)
qed

subsection \<open>A disk with an empty file system\<close>

definition blank_image :: image where
  "blank_image b = (if b = 0 then block_image (enc_superblock \<lparr>sb_magic = FS_MAGIC, sb_nfiles = 0,
     sb_next_free = of_nat DATASTART, sb_total_blocks = 256\<rparr>) else replicate 512 0)"

text \<open>The kernel's state when it starts to mount a disk in state \<open>d\<close>.\<close>

definition boot_fs :: "'d \<Rightarrow> 'd fs" where
  "boot_fs d = \<lparr>dir = replicate MAXFILES \<lparr>name = replicate NAMELEN 0, fsize = 0, start = 0\<rparr>, nfiles = 0,
     mounted = False, next_free = 0, total_blocks = 0, fsbuf = replicate 512 0, used = (\<lambda>_. 0),
     log_blk = replicate LOGN 0, log_n = 0, log_overflow = False,
     disk = \<lparr>disk_ok = True, desc = replicate 8 \<lparr>addr = At_null, dlen = 0, flags = 0, dnext = 0\<rparr>,
             avail_ring = replicate 8 0, avail_idx = 0, used_idx = 0, used_seen = 0,
             breq = \<lparr>rtype = 0, reserved = 0, sector = 0\<rparr>, bstatus = 0, device = d\<rparr>, out = []\<rparr>"

lemma boot_fs_ok: "vdisk_ok (disk (boot_fs d))" "length (log_blk (boot_fs d)) = LOGN" "device (disk (boot_fs d)) = d"
  by (simp_all add: boot_fs_def vdisk_ok_def)

lemma blank_lengths: "length (blank_image b) = 512"
  by (simp add: blank_image_def)

lemma blank_mountable: "mountable 256 (ram_content blank_image)" "disk_files (recovered (ram_content blank_image)) = Map.empty"
  "sb_total_blocks (dec_superblock (recovered (ram_content blank_image) 0)) = 256"
proof -
  have c: "ram_content blank_image = blank_image" by (simp add: fun_eq_iff ram_content_def blank_lengths)
  have "committed (dec_loghdr (replicate 512 0)) = 0" by (simp add: dec_loghdr_def un_le32_def)
  then have p: "pending blank_image = []" by (simp add: pending_def blank_image_def LOGHDR_def)
  then have r: "recovered blank_image = blank_image" by (simp add: recovered_def)
  have s: "dec_superblock (blank_image 0) = \<lparr>sb_magic = FS_MAGIC, sb_nfiles = 0,
     sb_next_free = of_nat DATASTART, sb_total_blocks = 256\<rparr>"
    by (simp add: blank_image_def dec_superblock_image)
  then have l: "disk_live blank_image = []" by (simp add: disk_live_def)
  show "mountable 256 (ram_content blank_image)"
    by (simp add: c mountable_def p r s image_ok_def l layout_ok_def txn_ok_def layout_defs MAXBLK_def)
  show "disk_files (recovered (ram_content blank_image)) = Map.empty"
    by (simp add: c r disk_files_def l)
  show "sb_total_blocks (dec_superblock (recovered (ram_content blank_image) 0)) = 256" by (simp add: c r s)
qed

lemma frail_blank: "frail_content (n, blank_image) = ram_content blank_image"
  by (simp add: frail_content_def)

definition creatable :: "('d \<Rightarrow> image) \<Rightarrow> 'd fs \<Rightarrow> u8 list \<Rightarrow> int \<Rightarrow> bool" where
  "creatable content s nm sz \<longleftrightarrow> nfiles s < int MAXFILES \<and> 0 \<le> sz \<and> sz \<le> 7168 \<and>
     fs_files content s (cstr nm) = None \<and>
     (sz = 0 \<or> (\<exists>p. fits s ((nat sz + 511) div 512) p))"

lemma mount_total:
  assumes "blk_device dev content cap False" "mountable cap (content d)"
  shows "\<exists>s. fs_init dev (boot_fs d) = Inr s \<and> fs_ok content cap s \<and>
    fs_files content s = disk_files (recovered (content d)) \<and>
    total_blocks s = sb_total_blocks (dec_superblock (recovered (content d) 0))"
  using blk_device.fs_init_ok [OF assms(1) boot_fs_ok(1,2) assms(2), of d] boot_fs_ok(3) [of d]
  by (auto simp: io_post_def split: sum.splits)

text \<open>The same kernel state in front of another device.\<close>

definition transplant :: "'e \<Rightarrow> 'd fs \<Rightarrow> 'e fs" where
  "transplant e s = \<lparr>dir = dir s, nfiles = nfiles s, mounted = mounted s, next_free = next_free s,
     total_blocks = total_blocks s, fsbuf = fsbuf s, used = used s, log_blk = log_blk s, log_n = log_n s,
     log_overflow = log_overflow s,
     disk = \<lparr>disk_ok = disk_ok (disk s), desc = desc (disk s), avail_ring = avail_ring (disk s),
             avail_idx = avail_idx (disk s), used_idx = used_idx (disk s), used_seen = used_seen (disk s),
             breq = breq (disk s), bstatus = bstatus (disk s), device = e\<rparr>, out = out s\<rparr>"

lemma transplant_ok:
  assumes "content' e = img content s"
  shows "fs_ok content' cap (transplant e s) = fs_ok content cap s"
    "fs_files content' (transplant e s) = fs_files content s"
    "creatable content' (transplant e s) nm sz = creatable content s nm sz"
  using assms by (simp_all add: transplant_def fs_ok_def mem_ok_def live_def used_exact_def vdisk_ok_def sb_of_def
      fs_files_def creatable_def fits_def)

lemma frail_stops: "vdisk_ok (disk s) \<Longrightarrow> device (disk s) = (0, m) \<Longrightarrow> fs_io frail_dev b w s = Inl (0, m)"
  by (simp add: fs_io_def fs_rw_def virtio_disk_rw_def frail_dev_def vdisk_ok_def Let_def)

lemma blank_fs: "\<exists>s. fs_init ram_dev (boot_fs blank_image) = Inr s \<and> fs_ok ram_content 256 s \<and>
    fs_files ram_content s = Map.empty \<and> total_blocks s = 256"
  using mount_total [where content = ram_content and d = blank_image, OF ram.blk_device_axioms blank_mountable(1)]
    blank_mountable(2,3) by auto

lemma fs_ok_mountable:
  assumes "fs_ok content cap s"
  shows "mountable cap (img content s)" "disk_files (recovered (img content s)) = fs_files content s"
proof -
  note i = fs_ok_image [OF assms]
  have "settled (img content s) (img content s) \<or> in_flight (img content s) [] (img content s) \<or>
      settled (apply_txn [] (img content s)) (img content s)" using i(4) by simp
  from crash_mountable [of cap "img content s" "[]", OF i(1) _ _ _ this] i
  show "mountable cap (img content s)" "disk_files (recovered (img content s)) = fs_files content s"
    by (simp_all add: txn_ok_def)
qed

lemma creatable_start:
  assumes "creatable content s nm sz"
  shows "\<exists>st. balloc_contig s (int ((nat sz + 511) div 512)) = int st"
proof -
  have "(nat sz + 511) div 512 \<le> 14" using assms create_nblocks(2) [of sz] by (simp add: creatable_def)
  moreover have "sz = 0 \<Longrightarrow> (nat sz + 511) div 512 = 0" by simp
  ultimately show ?thesis using balloc_ok [of "(nat sz + 511) div 512" s] assms by (auto simp: creatable_def)
qed

lemma not_creatable:
  assumes "fs_ok content cap s" "sz < 2 ^ 31" "\<not> creatable content s nm sz"
  shows "fs_create dev nm data sz s = Inr (-1, s)"
proof (rule create_refused)
  show m: "mem_ok cap s" using assms(1) by (simp add: fs_ok_def)
  have dom: "cstr nm \<in> fname ` set (live s) \<longleftrightarrow> fs_files content s (cstr nm) \<noteq> None"
    using files_of_dom [of "live s" "img content s"] unfolding fs_files_def by blast
  have full: "nfiles s \<le> int MAXFILES" using m by (simp add: mem_ok_def)
  have "balloc_contig s (int ((nat sz + 511) div 512)) = -1"
    if "0 < sz" "sz \<le> 7168" "\<not> (\<exists>p. fits s ((nat sz + 511) div 512) p)"
  proof -
    have "(nat sz + 511) div 512 \<le> 14" "0 < (nat sz + 511) div 512" using that(1,2) by auto
    then show ?thesis using balloc_ok [of "(nat sz + 511) div 512" s] that(3) by auto
  qed
  with assms(2,3) dom full show "nfiles s = int MAXFILES \<or> sz < 0 \<or> (7168 < sz \<and> sz < 2 ^ 31) \<or>
      cstr nm \<in> fname ` set (live s) \<or>
      (0 \<le> sz \<and> sz \<le> 7168 \<and> balloc_contig s (int ((nat sz + 511) div 512)) = -1)"
    by (cases "nfiles s < int MAXFILES"; cases "0 < sz"; auto simp: creatable_def)
qed

lemma empty_creatable:
  assumes "fs_ok content cap s" "fs_files content s = Map.empty" "0 \<le> sz" "sz \<le> 512" "sz = 0 \<or> total_blocks s = 256"
  shows "creatable content s nm sz"
proof -
  have l: "live s = []" using assms(2) files_of_dom [of "live s" "img content s"] by (auto simp: fs_files_def)
  then have n: "nfiles s < int MAXFILES" using live_length [of cap s] assms(1) by (simp add: fs_ok_def MAXFILES_def)
  have "fits s ((nat sz + 511) div 512) DATASTART" if "0 < sz" "total_blocks s = 256"
  proof -
    have nb: "(nat sz + 511) div 512 = 1" using assms(4) that(1) by simp
    have "used_exact s" "DATASTART < MAXBLK" using assms(1) by (simp_all add: fs_ok_def mem_ok_def MAXBLK_def layout_defs)
    then have "used s DATASTART = 0" using l unfolding used_exact_def by fastforce
    then show ?thesis unfolding nb using that(2) by (simp add: fits_def MAXBLK_def layout_defs)
  qed
  with n assms(2-5) show ?thesis by (cases "sz = 0") (auto simp: creatable_def)
qed

text \<open>The blank disk with one file.\<close>

lemma created_fs:
  assumes "length (cstr nm) < NAMELEN" "length data \<le> 512"
  shows "\<exists>s s'. fs_init ram_dev (boot_fs blank_image) = Inr s \<and>
     fs_create ram_dev nm data (int (length data)) s = Inr (0, s') \<and> fs_ok ram_content 256 s' \<and> fs_files ram_content s' = [cstr nm \<mapsto> data]"
proof -
  obtain s where s: "fs_init ram_dev (boot_fs blank_image) = Inr s" "fs_ok ram_content 256 s"
      "fs_files ram_content s = Map.empty" "total_blocks s = 256" using blank_fs by blast
  have c: "creatable ram_content s nm (int (length data))" using s assms(2) by (intro empty_creatable) auto
  obtain st where "balloc_contig s (int ((nat (int (length data)) + 511) div 512)) = int st" using creatable_start [OF c] by blast
  then show ?thesis
    using ram.fs_create_ok [OF s(2), of "int (length data)" data nm] c s assms
    by (auto simp: creatable_def io_post_def cut_name_short split: sum.splits)
qed

lemma one_file_fs:
  "\<exists>s s'. fs_init ram_dev (boot_fs blank_image) = Inr s \<and>
     fs_create ram_dev (bytes_of ''a'') [1, 2, 3] 3 s = Inr (0, s') \<and> fs_ok ram_content 256 s' \<and>
     fs_files ram_content s' = [cstr (bytes_of ''a'') \<mapsto> [1, 2, 3]]"
proof -
  have "length (cstr (bytes_of ''a'')) < NAMELEN" by code_simp
  then show ?thesis using created_fs [of "bytes_of ''a''" "[1, 2, 3]"] by simp
qed

text \<open>A mounted empty file system whose disk is out of power.\<close>

lemma dead_fs:
  "\<exists>s m. fs_ok frail_content 256 s \<and> fs_files frail_content s = Map.empty \<and> device (disk s) = (0, m) \<and>
     frail_content (0, m) = img frail_content s"
proof -
  obtain s where s: "fs_ok ram_content 256 s" "fs_files ram_content s = Map.empty" using blank_fs by blast
  let ?m = "device (disk s)"
  have "frail_content (0, ?m) = img ram_content s" by (simp add: frail_content_def)
  note t = transplant_ok [where content' = frail_content and content = ram_content, OF this]
  have "device (disk (transplant (0 :: nat, ?m) s)) = (0, ?m)" by (simp add: transplant_def)
  with s t show ?thesis by metis
qed

lemma cut_name_55: "cut_name nm = take 55 (cstr nm)"
  by (simp add: cut_name_def NAMELEN_def)

section \<open>Properties\<close>

text \<open>
  Claim C11. \<^verbatim>\<open>fs_create\<close> on a device that answers: if there is a free slot, the name is new, the
  size is between 0 and 7168 bytes (fourteen blocks, what fits the log beside directory and
  superblock) and a large enough run of free blocks exists, it returns 0, the file map has
  gained exactly one file with these bytes, under the first 55 bytes of the name (all of a
  name that is not longer, the others being cut), and the invariant holds again; in every other
  case it returns -1 and neither memory nor disk has changed. One case is left out, in which
  the directory would hold a name twice: a name longer than 55 bytes whose first 55 bytes are the name of a file.
\<close>
theorem fs_create_correct:
  assumes "blk_device dev content cap False" "fs_ok content cap s"
    and "sz < 2 ^ 31" "sz \<le> int (length data)" "length (cstr nm) < NAMELEN \<or> fs_files content s (take 55 (cstr nm)) = None"
  shows "if creatable content s nm sz
     then \<exists>s'. fs_create dev nm data sz s = Inr (0, s') \<and> fs_ok content cap s' \<and>
            fs_files content s' = (fs_files content s)(take 55 (cstr nm) \<mapsto> take (nat sz) data)
     else fs_create dev nm data sz s = Inr (-1, s)"
proof (cases "creatable content s nm sz")
  case True
  then obtain st where "balloc_contig s (int ((nat sz + 511) div 512)) = int st" using creatable_start by blast
  moreover have "fs_files content s (cut_name nm) = None"
    using True assms(5) cut_name_short [of nm] by (auto simp: creatable_def cut_name_55)
  ultimately show ?thesis
    using blk_device.fs_create_ok [OF assms(1,2), of sz data nm st] assms(4) True
    by (auto simp: creatable_def io_post_def cut_name_55 split: sum.splits)
qed (use not_creatable assms in auto)

theorem fs_create_correct_witness:
  "\<exists>s s' t. fs_init ram_dev (boot_fs blank_image) = Inr s \<and>
     fs_create ram_dev (bytes_of ''a'') [1, 2, 3] 3 s = Inr (0, s') \<and>
     fs_files ram_content s' = [bytes_of ''a'' \<mapsto> [1, 2, 3]] \<and>
     fs_create ram_dev (replicate 60 97) [1, 2, 3] 3 s = Inr (0, t) \<and>
     fs_files ram_content t = [replicate 55 97 \<mapsto> [1, 2, 3]]"
proof -
  obtain s where s: "fs_init ram_dev (boot_fs blank_image) = Inr s" "fs_ok ram_content 256 s"
      "fs_files ram_content s = Map.empty" "total_blocks s = 256" using blank_fs by blast
  have c: "creatable ram_content s nm 3" for nm using s by (intro empty_creatable) auto
  have n: "cstr (bytes_of ''a'') = bytes_of ''a''" "take 55 (bytes_of ''a'') = bytes_of ''a''" "cstr (replicate 60 97) = replicate 60 97"
    by (simp_all add: cstr_def bytes_of_def takeWhile_replicate)
  note ok = fs_create_correct [OF ram.blk_device_axioms s(2), of 3 "[1, 2, 3]"]
  show ?thesis using ok [of "bytes_of ''a''"] ok [of "replicate 60 97"] c s(1,3) by (auto simp: n)
qed

text \<open>
  Crash atomicity of \<^verbatim>\<open>fs_create\<close>: if the device stops at any point inside the call,
  whichever request it was serving and whether or not that last write reached the platter,
  then a kernel that boots later on the same disk mounts it, and the mounted files are the
  old ones or the old ones plus the complete new file.
\<close>
theorem fs_create_crash_atomic:
  assumes "blk_device dev content cap True" "blk_device dev2 content cap False" "fs_ok content cap s"
    and "sz < 2 ^ 31" "sz \<le> int (length data)" "length (cstr nm) < NAMELEN"
    and crash: "fs_create dev nm data sz s = Inl d"
  shows "\<exists>s'. fs_init dev2 (boot_fs d) = Inr s' \<and> fs_ok content cap s' \<and>
     (fs_files content s' = fs_files content s \<or>
      fs_files content s' = (fs_files content s)(cstr nm \<mapsto> take (nat sz) data))"
proof -
  have c: "creatable content s nm sz" using not_creatable [OF assms(3,4), of nm dev data] crash by auto
  then obtain st where "balloc_contig s (int ((nat sz + 511) div 512)) = int st" using creatable_start by blast
  from blk_device.fs_create_ok [OF assms(1,3) _ _ _ assms(5) _ _ this, of nm] c crash cut_name_short [OF assms(6)]
  have "mountable cap (content d)" "disk_files (recovered (content d)) = fs_files content s \<or>
        disk_files (recovered (content d)) = (fs_files content s)(cstr nm \<mapsto> take (nat sz) data)"
    by (auto simp: creatable_def)
  then show ?thesis using mount_total [OF assms(2), of d] by auto
qed

theorem fs_create_crash_atomic_witness:
  "\<exists>s d s'. fs_create frail_dev (bytes_of ''a'') [] 0 s = Inl d \<and> fs_init steady_dev (boot_fs d) = Inr s' \<and>
     fs_ok frail_content 256 s' \<and>
     (fs_files frail_content s' = Map.empty \<or> fs_files frail_content s' = [cstr (bytes_of ''a'') \<mapsto> []])"
proof -
  obtain s m where s: "fs_ok frail_content 256 s" "fs_files frail_content s = Map.empty" "device (disk s) = (0, m)"
    using dead_fs by blast
  let ?nm = "bytes_of ''a''"
  have c: "creatable frail_content s ?nm 0" using s by (intro empty_creatable) auto
  have mem: "mem_ok 256 s" "vdisk_ok (disk s)" using s by (auto simp: fs_ok_def)
  have "lookup s ?nm = None"
    using lookup_None [OF mem(1)] c files_of_dom [of "live s" "img frail_content s"]
    by (auto simp: creatable_def fs_files_def)
  then have "fs_create frail_dev ?nm [] 0 s = Inl (0, m)"
    using fs_create_unfold(2) [OF mem(1) _ _ _ _ refl, of ?nm 0 19 frail_dev "[]"] c s(3) mem(2)
    by (simp add: creatable_def balloc_contig_def layout_defs log_begin_def add_entry_def Let_def
        log_dir_def log_write_def frail_stops)
  moreover have "length (cstr ?nm) < NAMELEN" by code_simp
  ultimately show ?thesis
    using fs_create_crash_atomic [OF frail.blk_device_axioms steady.blk_device_axioms s(1), of 0 "[]" ?nm] s(2)
    by fastforce
qed

text \<open>
  Claim C12. \<^verbatim>\<open>fs_delete\<close> on a device that answers: for a name that is not there it returns -1 and
  changes nothing; otherwise it returns 0, exactly that name is gone from the file map and
  the invariant, with the freed blocks marked free, holds again.
\<close>
theorem fs_delete_correct:
  assumes "blk_device dev content cap False" "fs_ok content cap s"
  shows "if fs_files content s (cstr nm) = None then fs_delete dev nm s = Inr (-1, s)
     else \<exists>s'. fs_delete dev nm s = Inr (0, s') \<and> fs_ok content cap s' \<and>
            fs_files content s' = (fs_files content s)(cstr nm := None)"
  using blk_device.fs_delete_ok [OF assms, of nm] by (auto simp: io_post_def split: sum.splits)

theorem fs_delete_correct_witness:
  "\<exists>s s' s''. fs_init ram_dev (boot_fs blank_image) = Inr s \<and>
     fs_create ram_dev (bytes_of ''a'') [1, 2, 3] 3 s = Inr (0, s') \<and>
     fs_delete ram_dev (bytes_of ''a'') s' = Inr (0, s'') \<and> fs_files ram_content s'' = Map.empty"
proof -
  obtain s s' where s: "fs_init ram_dev (boot_fs blank_image) = Inr s"
      "fs_create ram_dev (bytes_of ''a'') [1, 2, 3] 3 s = Inr (0, s')" "fs_ok ram_content 256 s'"
      "fs_files ram_content s' = [cstr (bytes_of ''a'') \<mapsto> [1, 2, 3]]" using one_file_fs by blast
  from fs_delete_correct [OF ram.blk_device_axioms s(3), of "bytes_of ''a''"] s show ?thesis by auto
qed

text \<open>
  Crash atomicity of \<^verbatim>\<open>fs_delete\<close>: after a stop at any point, the next boot mounts the
  disk with the file still there unchanged, or gone, and every other file as before.
\<close>
theorem fs_delete_crash_atomic:
  assumes "blk_device dev content cap True" "blk_device dev2 content cap False" "fs_ok content cap s"
    and crash: "fs_delete dev nm s = Inl d"
  shows "\<exists>s'. fs_init dev2 (boot_fs d) = Inr s' \<and> fs_ok content cap s' \<and>
     (fs_files content s' = fs_files content s \<or> fs_files content s' = (fs_files content s)(cstr nm := None))"
proof -
  have "fs_files content s (cstr nm) \<noteq> None" using blk_device.fs_delete_ok(1) [OF assms(1,3), of nm] crash by auto
  from blk_device.fs_delete_ok(2) [OF assms(1,3) this] crash
  have "mountable cap (content d)" "disk_files (recovered (content d)) = fs_files content s \<or>
        disk_files (recovered (content d)) = (fs_files content s)(cstr nm := None)"
    by auto
  then show ?thesis using mount_total [OF assms(2), of d] by auto
qed

lemma dead_file_fs:
  "\<exists>s m. fs_ok frail_content 256 s \<and> fs_files frail_content s = [cstr (bytes_of ''a'') \<mapsto> [1, 2, 3]] \<and> device (disk s) = (0, m)"
proof -
  obtain s where s: "fs_ok ram_content 256 s" "fs_files ram_content s = [cstr (bytes_of ''a'') \<mapsto> [1, 2, 3]]"
    using one_file_fs by blast
  let ?m = "device (disk s)"
  have "frail_content (0, ?m) = img ram_content s" by (simp add: frail_content_def)
  note t = transplant_ok [where content' = frail_content and content = ram_content, OF this]
  have "device (disk (transplant (0 :: nat, ?m) s)) = (0, ?m)" by (simp add: transplant_def)
  with s t show ?thesis by metis
qed

theorem fs_delete_crash_atomic_witness:
  "\<exists>s d s'. fs_delete frail_dev (bytes_of ''a'') s = Inl d \<and> fs_init steady_dev (boot_fs d) = Inr s' \<and>
     (fs_files frail_content s' = [cstr (bytes_of ''a'') \<mapsto> [1, 2, 3]] \<or> fs_files frail_content s' = Map.empty)"
proof -
  let ?nm = "bytes_of ''a''"
  obtain s m where s: "fs_ok frail_content 256 s" "fs_files frail_content s = [cstr ?nm \<mapsto> [1, 2, 3]]" "device (disk s) = (0, m)"
    using dead_file_fs by blast
  have mem: "mem_ok 256 s" "vdisk_ok (disk s)" "mounted s" using s by (auto simp: fs_ok_def mem_ok_def)
  have "lookup s ?nm \<noteq> None"
    using lookup_None [OF mem(1), of ?nm] s(2) files_of_dom [of "live s" "img frail_content s"]
    by (auto simp: fs_files_def)
  then obtain i where "lookup s ?nm = Some i" by blast
  then have "fs_delete frail_dev ?nm s = Inl (0, m)"
    using mem s(3) by (simp add: fs_delete_def log_begin_def Let_def log_dir_def log_write_def LOGN_def frail_stops)
  then show ?thesis
    using fs_delete_crash_atomic [OF frail.blk_device_axioms steady.blk_device_axioms s(1), of ?nm] s(2)
    by fastforce
qed

text \<open>
  Claim C13. Reading: \<^verbatim>\<open>fs_read\<close> returns -1 and leaves the buffer alone when the file is absent or
  larger than \<open>mx\<close>; otherwise it returns the file's length, the first bytes of the buffer are
  exactly the file and nothing beyond them is written. \<^verbatim>\<open>fs_cat\<close> prints exactly the file.
  Neither changes the file map.
\<close>
theorem fs_read_correct:
  assumes "blk_device dev content cap False" "fs_ok content cap s"
  shows "(\<exists>r buf' s'. fs_read dev nm buf mx s = Inr (r, buf', s') \<and> fs_ok content cap s' \<and>
        fs_files content s' = fs_files content s \<and>
        (case fs_files content s (cstr nm) of
           None \<Rightarrow> r = -1 \<and> buf' = buf
         | Some data \<Rightarrow>
             if int (length data) > mx then r = -1 \<and> buf' = buf
             else r = int (length data) \<and> buf' = (\<lambda>k. if k < length data then data ! k else buf k))) \<and>
     (\<forall>data. fs_files content s (cstr nm) = Some data \<longrightarrow>
        (\<exists>s'. fs_cat dev nm s = Inr s' \<and> fs_files content s' = fs_files content s \<and> out s' = out s @ data))"
proof (intro conjI allI impI)
  note ok = blk_device.fs_read_ok [OF assms, where nm = nm and buf = buf and mx = mx]
  then obtain r buf' s' where "fs_read dev nm buf mx s = Inr (r, buf', s')"
    by (cases "fs_read dev nm buf mx s") auto
  with ok [unfolded this io_post_simps prod.case]
  show "\<exists>r buf' s'. fs_read dev nm buf mx s = Inr (r, buf', s') \<and> fs_ok content cap s' \<and>
        fs_files content s' = fs_files content s \<and>
        (case fs_files content s (cstr nm) of
           None \<Rightarrow> r = -1 \<and> buf' = buf
         | Some data \<Rightarrow>
             if int (length data) > mx then r = -1 \<and> buf' = buf
             else r = int (length data) \<and> buf' = (\<lambda>k. if k < length data then data ! k else buf k))"
    by blast
next
  fix data assume "fs_files content s (cstr nm) = Some data"
  from blk_device.fs_cat_ok [OF assms this]
  show "\<exists>s'. fs_cat dev nm s = Inr s' \<and> fs_files content s' = fs_files content s \<and> out s' = out s @ data"
    by (auto simp: io_post_def split: sum.splits)
qed

theorem fs_read_correct_witness:
  "\<exists>s r buf' s'. fs_read ram_dev (bytes_of ''a'') (\<lambda>_. 7) 100 s = Inr (r, buf', s') \<and> r = 3 \<and>
     buf' = (\<lambda>k. if k < 3 then [1, 2, 3] ! k else 7)"
proof -
  obtain s where s: "fs_ok ram_content 256 s" "fs_files ram_content s = [cstr (bytes_of ''a'') \<mapsto> [1, 2, 3]]"
    using one_file_fs by blast
  from fs_read_correct [OF ram.blk_device_axioms s(1), of "bytes_of ''a''" "\<lambda>_. 7" 100] s(2) show ?thesis
    by (auto simp: numeral_3_eq_3)
qed

text \<open>
  Mounting: on any disk whose log and superblock are sound, also one left behind by a
  crash, \<^verbatim>\<open>fs_init\<close> replays the committed transaction, and then directory, superblock and
  free-block map in memory agree with the disk, whose files are those of the replayed image.
  A power failure during the mount itself leaves a disk that is again mountable and has the
  same files, so recovery can be repeated.
\<close>
theorem fs_init_recovers:
  assumes "blk_device dev content cap dies" "mountable cap (content d)"
  shows "case fs_init dev (boot_fs d) of
       Inr s \<Rightarrow> fs_ok content cap s \<and> fs_files content s = disk_files (recovered (content d))
     | Inl d' \<Rightarrow> dies \<and> mountable cap (content d') \<and>
         disk_files (recovered (content d')) = disk_files (recovered (content d))"
  using blk_device.fs_init_ok [OF assms(1) boot_fs_ok(1,2) assms(2), of d] boot_fs_ok(3) [of d]
  by (auto simp: io_post_def split: sum.splits)

theorem fs_init_recovers_witness:
  "case fs_init frail_dev (boot_fs (1, blank_image)) of
       Inr s \<Rightarrow> fs_files frail_content s = Map.empty
     | Inl d' \<Rightarrow> disk_files (recovered (frail_content d')) = Map.empty"
proof -
  have "mountable 256 (frail_content (1, blank_image))" using blank_mountable(1) by (simp only: frail_blank)
  from fs_init_recovers [OF frail.blk_device_axioms this] show ?thesis
    unfolding frail_blank blank_mountable(2) by (auto split: sum.splits)
qed

text \<open>
  Round trip over a reboot: what \<^verbatim>\<open>fs_create\<close> stored is what \<^verbatim>\<open>fs_read\<close> returns after a
  power cycle and a fresh mount, and every other file reads as before the creation.
\<close>
theorem create_reboot_read:
  assumes "blk_device dev content cap False" "fs_ok content cap s"
    and "sz < 2 ^ 31" "sz \<le> int (length data)" "length (cstr nm) < NAMELEN" "creatable content s nm sz" "sz \<le> mx"
  shows "\<exists>s1 s2 buf' s3. fs_create dev nm data sz s = Inr (0, s1) \<and>
     fs_init dev (boot_fs (device (disk s1))) = Inr s2 \<and>
     fs_read dev nm buf mx s2 = Inr (sz, buf', s3) \<and> (\<forall>k < nat sz. buf' k = data ! k) \<and>
     (\<forall>nm'. cstr nm' \<noteq> cstr nm \<longrightarrow> fs_files content s2 (cstr nm') = fs_files content s (cstr nm'))"
proof -
  obtain st where "balloc_contig s (int ((nat sz + 511) div 512)) = int st" using creatable_start assms(6) by blast
  from blk_device.fs_create_ok [OF assms(1,2) _ _ _ assms(4) _ _ this, of nm] cut_name_short [OF assms(5)] assms(6)
  obtain s1 where s1: "fs_create dev nm data sz s = Inr (0, s1)" "fs_ok content cap s1"
      "fs_files content s1 = (fs_files content s)(cstr nm \<mapsto> take (nat sz) data)"
    by (auto simp: creatable_def io_post_def split: sum.splits)
  obtain s2 where s2: "fs_init dev (boot_fs (device (disk s1))) = Inr s2" "fs_ok content cap s2"
      "fs_files content s2 = fs_files content s1"
    using mount_total [OF assms(1), of "device (disk s1)"] fs_ok_mountable [OF s1(2)] by auto
  have sz: "0 \<le> sz" using assms(6) by (simp add: creatable_def)
  note rd = blk_device.fs_read_ok [OF assms(1) s2(2), where nm = nm and buf = buf and mx = mx]
  then obtain r buf' s3 where r: "fs_read dev nm buf mx s2 = Inr (r, buf', s3)"
    by (cases "fs_read dev nm buf mx s2") auto
  have len: "length (take (nat sz) data) = nat sz" using assms(4) sz by simp
  have "r = sz \<and> buf' = (\<lambda>k. if k < nat sz then take (nat sz) data ! k else buf k)"
    using rd [unfolded r io_post_simps prod.case s2(3) s1(3) fun_upd_same option.case len] assms(7) sz
    by simp
  with s1 s2 r show ?thesis by auto
qed

theorem create_reboot_read_witness:
  "\<exists>s s1 s2 buf' s3. fs_create ram_dev (bytes_of ''a'') [1, 2, 3] 3 s = Inr (0, s1) \<and>
     fs_init ram_dev (boot_fs (device (disk s1))) = Inr s2 \<and>
     fs_read ram_dev (bytes_of ''a'') (\<lambda>_. 0) 16384 s2 = Inr (3, buf', s3) \<and> (\<forall>k < 3. buf' k = [1, 2, 3] ! k)"
proof -
  obtain s where s: "fs_ok ram_content 256 s" "fs_files ram_content s = Map.empty" "total_blocks s = 256"
    using blank_fs by blast
  have c: "creatable ram_content s (bytes_of ''a'') 3" using s by (intro empty_creatable) auto
  have "length (cstr (bytes_of ''a'')) < NAMELEN" by code_simp
  from create_reboot_read [OF ram.blk_device_axioms s(1) _ _ this c, of "[1, 2, 3]" 16384 "\<lambda>_. 0"]
  show ?thesis by simp blast
qed

text \<open>
  Claim C14. Allocation is first fit: \<^verbatim>\<open>balloc_contig\<close> returns the lowest start, from
  \<^verbatim>\<open>DATASTART\<close> on, of \<open>n\<close> consecutive free blocks inside the disk and inside the map, and -1
  exactly when there is none.
\<close>
theorem balloc_first_fit:
  assumes "0 < n" "n < 2 ^ 31"
  shows "balloc_contig s (int n) = (if \<exists>p. fits s n p then int (LEAST p. fits s n p) else -1)"
  using balloc_ok [OF assms(2), of s] assms(1)
  by (auto intro!: Least_equality [symmetric] leI)

theorem balloc_first_fit_witness:
  "balloc_contig ((boot_fs (0 :: nat))\<lparr>total_blocks := 22, used := (\<lambda>b. if b = 19 then 1 else 0)\<rparr>) (int 2) = int 20"
proof -
  let ?s = "(boot_fs (0 :: nat))\<lparr>total_blocks := 22, used := (\<lambda>b. if b = 19 then 1 else 0)\<rparr>"
  have f: "fits ?s 2 p \<longleftrightarrow> p = 20" for p
    by (auto simp: fits_def layout_defs MAXBLK_def less_2_cases_iff)
  then have "(LEAST p. fits ?s 2 p) = 20" "\<exists>p. fits ?s 2 p" by (auto intro: Least_equality)
  then show ?thesis using balloc_first_fit [of 2 ?s] by simp
qed

text \<open>
  The journal on its own: a transaction over any list of blocks outside the log area
  takes effect as a whole or not at all. If it returns, all its blocks are written when it
  fits the log, and none when it does not: a transaction that overflows the log is dropped.
  If the device stops, replaying the log gives the old contents or the new ones outside the
  log area, never a mixture.
\<close>
theorem journal_atomic:
  assumes "blk_device dev content cap dies" "DATASTART \<le> cap"
    and "vdisk_ok (disk s)" "length (log_blk s) = LOGN" "pending (content (device (disk s))) = []"
    and "\<forall>(b, x) \<in> set ws. length x = 512 \<and> unat b < cap \<and> unat b \<notin> log_area"
  shows "case transaction dev ws s of
       Inr s' \<Rightarrow> pending (content (device (disk s'))) = [] \<and>
         home_eq (content (device (disk s')))
           (if length ws \<le> LOGN then apply_txn (txn_of ws) (content (device (disk s))) else content (device (disk s)))
     | Inl d \<Rightarrow> home_eq (recovered (content d)) (content (device (disk s))) \<or>
         (length ws \<le> LOGN \<and> home_eq (recovered (content d)) (apply_txn (txn_of ws) (content (device (disk s)))))"
proof -
  have "settled (img content s) (img content s)" using assms(5) by (simp add: settled_def)
  from blk_device.transaction_ok [OF assms(1,3,4) this assms(2,6)] show ?thesis
    using settled_recovered in_flight_recovered
    by (cases "transaction dev ws s") (auto simp: logging_def settled_def)
qed

theorem journal_atomic_witness:
  "case transaction ram_dev [(20, replicate 512 1), (21, replicate 512 2)] (boot_fs blank_image) of
     Inr s' \<Rightarrow> home_eq (ram_content (device (disk s')))
       (apply_txn (txn_of [(20, replicate 512 1), (21, replicate 512 2)]) (ram_content blank_image))
   | Inl d \<Rightarrow> home_eq (recovered (ram_content d)) (ram_content blank_image) \<or> home_eq (recovered (ram_content d))
       (apply_txn (txn_of [(20, replicate 512 1), (21, replicate 512 2)]) (ram_content blank_image))"
proof -
  have "ram_content blank_image = blank_image" by (simp add: fun_eq_iff ram_content_def blank_lengths)
  moreover have "committed (dec_loghdr (replicate 512 0)) = 0" by (simp add: dec_loghdr_def un_le32_def)
  ultimately have p: "pending (ram_content (device (disk (boot_fs blank_image)))) = []"
    by (simp add: boot_fs_ok pending_def blank_image_def LOGHDR_def)
  show ?thesis
    using journal_atomic [where content = ram_content and s = "boot_fs blank_image", OF ram.blk_device_axioms [of 256]
        _ boot_fs_ok(1,2) p, of "[(20, replicate 512 1), (21, replicate 512 2)]"]
    by (auto simp: boot_fs_ok layout_defs split: sum.splits)
qed

text \<open>No name of a stored file is longer than an entry holds.\<close>

lemma long_name_unknown:
  assumes "fs_ok content cap s" "NAMELEN \<le> length (cstr nm)"
  shows "lookup s nm = None" "fs_files content s (cstr nm) = None"
proof -
  have m: "mem_ok cap s" using assms(1) by (simp add: fs_ok_def)
  have "length (fname e) < NAMELEN" if "e \<in> set (live s)" for e
  proof -
    have e: "0 \<in> set (name e)" "length (name e) = NAMELEN"
      using m that by (auto simp: mem_ok_def layout_ok_def entry_ok_def dirent_ok_def live_def dest: in_set_takeD)
    then have "length (takeWhile (\<lambda>c. c \<noteq> 0) (name e)) < length (name e)"
      by (metis (full_types) length_takeWhile_le le_neq_implies_less takeWhile_eq_all_conv takeWhile_eq_take take_all_iff order_refl)
    with e show ?thesis by (simp add: fname_def cstr_def)
  qed
  with assms(2) have n: "cstr nm \<notin> fname ` set (live s)" by fastforce
  then show "lookup s nm = None" using lookup_None [OF m] by blast
  show "fs_files content s (cstr nm) = None"
    using n files_of_dom [of "live s" "img content s"] unfolding fs_files_def by blast
qed

text \<open>
  Claim C15. Names longer than 55 bytes: \<^verbatim>\<open>fs_create\<close> accepts such a name (its test for an
  existing file compares the full name, the stored one is cut), returns 0, and has created a
  file under the first 55 bytes of the name; under the name it was created with the file can be
  neither read nor deleted.
\<close>
theorem long_name_lost:
  assumes "blk_device dev content cap False" "fs_ok content cap s" "NAMELEN \<le> length (cstr nm)"
    and "creatable content s (take 55 (cstr nm)) sz" "sz < 2 ^ 31" "sz \<le> int (length data)"
  shows "\<exists>s'. fs_create dev nm data sz s = Inr (0, s') \<and> fs_files content s' = (fs_files content s)(take 55 (cstr nm) \<mapsto> take (nat sz) data) \<and>
    fs_read dev nm buf mx s' = Inr (-1, buf, s') \<and> fs_delete dev nm s' = Inr (-1, s')"
proof -
  note c = cut_name_55 [of nm]
  have "\<forall>x \<in> set (take 55 (cstr nm)). x \<noteq> 0" by (auto simp: cstr_def dest: set_takeWhileD in_set_takeD)
  then have cc: "cstr (take 55 (cstr nm)) = take 55 (cstr nm)"
    unfolding cstr_def takeWhile_eq_all_conv .
  obtain st where "balloc_contig s (int ((nat sz + 511) div 512)) = int st" using creatable_start [OF assms(4)] by blast
  from blk_device.fs_create_ok [OF assms(1,2) _ _ _ assms(6) long_name_unknown(2) [OF assms(2,3)] _ this] assms(4)
  obtain s' where s': "fs_create dev nm data sz s = Inr (0, s')" "fs_ok content cap s'"
      "fs_files content s' = (fs_files content s)(take 55 (cstr nm) \<mapsto> take (nat sz) data)"
    by (auto simp: creatable_def io_post_def c cc split: sum.splits)
  moreover have "mounted s'" using s'(2) by (simp add: fs_ok_def mem_ok_def)
  ultimately show ?thesis using long_name_unknown(1) [OF s'(2) assms(3)] by (simp add: fs_read_def fs_delete_def)
qed

theorem long_name_lost_witness:
  "\<exists>s s'. fs_create ram_dev (replicate 60 97) [1] 1 s = Inr (0, s') \<and> fs_files ram_content s' = [replicate 55 97 \<mapsto> [1]] \<and>
     fs_read ram_dev (replicate 60 97) (\<lambda>_. 0) 100 s' = Inr (-1, \<lambda>_. 0, s')"
proof -
  obtain s where s: "fs_ok ram_content 256 s" "fs_files ram_content s = Map.empty" "total_blocks s = 256" using blank_fs by blast
  have n: "cstr (replicate 60 97) = replicate 60 97" by (simp add: cstr_def takeWhile_replicate)
  have "creatable ram_content s (take 55 (cstr (replicate 60 97))) 1" using s by (intro empty_creatable) auto
  from long_name_lost [OF ram.blk_device_axioms s(1) _ this, of "[1]" "\<lambda>_. 0" 100] s(2) show ?thesis
    by (auto simp: n NAMELEN_def)
qed

end
