(* ===== verification/Vm.thy ===== *)
theory Vm
  imports Kalloc Uart
begin

text \<open>
  \<^verbatim>\<open>src/src/vm.c\<close>: the Sv39 page tables. The state is the allocator's (theory \<open>Kalloc\<close>) with the
  kernel page table, \<^verbatim>\<open>satp\<close> and the text printed; page tables live in the RAM and every
  function reads and writes them there. A function that loops for ever (\<^verbatim>\<open>kvmmap\<close> on failure)
  has the result \<open>None\<close>. \<^verbatim>\<open>sfence_vma\<close> has no effect on this state: the TLB is not modelled.
\<close>

section \<open>Entries and indices\<close>

definition PTE_V :: u64 where "PTE_V = push_bit 0 1"
definition PTE_R :: u64 where "PTE_R = push_bit 1 1"
definition PTE_W :: u64 where "PTE_W = push_bit 2 1"
definition PTE_X :: u64 where "PTE_X = push_bit 3 1"
definition PTE_U :: u64 where "PTE_U = push_bit 4 1"
definition PTE_COW :: u64 where "PTE_COW = push_bit 8 1"

definition USERVA :: u64 where "USERVA = 0x1000"
definition USERSTACK :: u64 where "USERSTACK = 0x4000"
definition USERSTACKTOP :: u64 where "USERSTACKTOP = USERSTACK + 4096"
definition HEAPBASE :: u64 where "HEAPBASE = 0x10000"
definition MMAPBASE :: u64 where "MMAPBASE = 0x100000"

definition UART0 :: u64 where "UART0 = 0x10000000"
definition PLIC :: u64 where "PLIC = 0x0c000000"
definition KERNBASE :: u64 where "KERNBASE = 0x80200000"

definition PA2PTE :: "u64 \<Rightarrow> u64" where
  "PA2PTE pa = push_bit 10 (drop_bit 12 pa)"

definition PTE2PA :: "u64 \<Rightarrow> u64" where
  "PTE2PA pte = push_bit 12 (drop_bit 10 pte)"

definition PTE_FLAGS :: "u64 \<Rightarrow> u64" where
  "PTE_FLAGS pte = pte AND 0x3FF"

definition PX :: "nat \<Rightarrow> u64 \<Rightarrow> u64" where
  "PX level va = drop_bit (12 + 9 * level) va AND 0x1FF"

definition PGROUNDDOWN :: "u64 \<Rightarrow> u64" where
  "PGROUNDDOWN a = a AND NOT (PGSIZE - 1)"

definition MAKE_SATP :: "u64 \<Rightarrow> u64" where
  "MAKE_SATP pt = push_bit 60 8 OR drop_bit 12 pt"

record kvm = kmem +
  kernel_pagetable :: u64
  satp :: u64
  vout :: "u8 list"

definition vputs :: "string \<Rightarrow> 'a kvm_scheme \<Rightarrow> 'a kvm_scheme" where
  "vputs t s = s\<lparr>vout := vout s @ puts_bytes (bytes_of t)\<rparr>"

text \<open>\<^verbatim>\<open>&pagetable[i]\<close>: a page table is an array of 8-byte entries.\<close>

definition slot :: "u64 \<Rightarrow> u64 \<Rightarrow> u64" where
  "slot pt i = pt + 8 * i"

section \<open>Operations\<close>

fun walk_loop :: "nat \<Rightarrow> u64 \<Rightarrow> u64 \<Rightarrow> bool \<Rightarrow> 'a kmem_scheme \<Rightarrow> u64 \<times> 'a kmem_scheme" where
  "walk_loop 0 pt va alloc s = (slot pt (PX 0 va), s)"
| "walk_loop (Suc l) pt va alloc s =
     (let pte = slot pt (PX (Suc l) va) in
      if ld64 (mem s) pte AND PTE_V \<noteq> 0 then walk_loop l (PTE2PA (ld64 (mem s) pte)) va alloc s
      else if \<not> alloc then (0, s)
      else
        let (p, s) = kalloc s in
        if p = 0 then (0, s)
        else
          let s = s\<lparr>mem := set_loop (mem s) p 0 4096\<rparr>;
              s = s\<lparr>mem := st64 (mem s) pte (PA2PTE p OR PTE_V)\<rparr>
          in walk_loop l p va alloc s)"

definition walk :: "u64 \<Rightarrow> u64 \<Rightarrow> bool \<Rightarrow> 'a kmem_scheme \<Rightarrow> u64 \<times> 'a kmem_scheme" where
  "walk pt va alloc s = walk_loop 2 pt va alloc s"

partial_function (option) map_loop :: "u64 \<Rightarrow> u64 \<Rightarrow> u64 \<Rightarrow> u64 \<Rightarrow> u64 \<Rightarrow> 'a kvm_scheme \<Rightarrow>
    (int \<times> 'a kvm_scheme) option" where
  "map_loop pt a final pa perm s =
     (case walk pt a True s of (pte, s) \<Rightarrow>
        if pte = 0 then Some (-1, s)
        else if ld64 (mem s) pte AND PTE_V \<noteq> 0 then Some (-1, vputs (''[vm] remap!'' @ [CHR 0x0A]) s)
        else
          let s = s\<lparr>mem := st64 (mem s) pte (PA2PTE pa OR perm OR PTE_V)\<rparr> in
          if a = final then Some (0, s)
          else map_loop pt (a + PGSIZE) final (pa + PGSIZE) perm s)"

definition mappages :: "u64 \<Rightarrow> u64 \<Rightarrow> u64 \<Rightarrow> u64 \<Rightarrow> u64 \<Rightarrow> 'a kvm_scheme \<Rightarrow> (int \<times> 'a kvm_scheme) option" where
  "mappages pt va size1 pa perm s =
     map_loop pt (PGROUNDDOWN va) (PGROUNDDOWN (va + size1 - 1)) pa perm s"

definition kvmmap :: "u64 \<Rightarrow> u64 \<Rightarrow> u64 \<Rightarrow> u64 \<Rightarrow> u64 \<Rightarrow> 'a kvm_scheme \<Rightarrow> 'a kvm_scheme option" where
  "kvmmap kpt va pa sz perm s =
     Option.bind (mappages kpt va sz pa perm s) (\<lambda>(r, s). if r \<noteq> 0 then None else Some s)"

text \<open>\<open>etext\<close> is the linker symbol, the page-aligned end of the kernel's text.\<close>

definition map_kernel :: "u64 \<Rightarrow> u64 \<Rightarrow> 'a kvm_scheme \<Rightarrow> 'a kvm_scheme option" where
  "map_kernel etext pt s =
     Option.bind (kvmmap pt UART0 UART0 PGSIZE (PTE_R OR PTE_W) s) (\<lambda>s.
     Option.bind (kvmmap pt 0x10001000 0x10001000 0x8000 (PTE_R OR PTE_W) s) (\<lambda>s.
     Option.bind (kvmmap pt PLIC PLIC 0x400000 (PTE_R OR PTE_W) s) (\<lambda>s.
     Option.bind (kvmmap pt KERNBASE KERNBASE (etext - KERNBASE) (PTE_R OR PTE_X) s) (\<lambda>s.
     kvmmap pt etext etext (PHYSTOP - etext) (PTE_R OR PTE_W) s))))"

definition kvminit :: "u64 \<Rightarrow> 'a kvm_scheme \<Rightarrow> 'a kvm_scheme option" where
  "kvminit etext s =
     (case kalloc s of (p, s) \<Rightarrow>
        let s = s\<lparr>kernel_pagetable := p, mem := set_loop (mem s) p 0 4096\<rparr>
        in map_kernel etext p s)"

definition kernel_pt :: "'a kvm_scheme \<Rightarrow> u64" where
  "kernel_pt s = kernel_pagetable s"

definition satp_for :: "u64 \<Rightarrow> u64" where
  "satp_for pt = MAKE_SATP pt"

definition switch_satp :: "u64 \<Rightarrow> 'a kvm_scheme \<Rightarrow> 'a kvm_scheme" where
  "switch_satp pt s = s\<lparr>satp := MAKE_SATP pt\<rparr>"

definition kvminithart :: "'a kvm_scheme \<Rightarrow> 'a kvm_scheme" where
  "kvminithart s = s\<lparr>satp := MAKE_SATP (kernel_pagetable s)\<rparr>"

definition kvm_map :: "u64 \<Rightarrow> u64 \<Rightarrow> u64 \<Rightarrow> u64 \<Rightarrow> 'a kvm_scheme \<Rightarrow> 'a kvm_scheme option" where
  "kvm_map va pa sz perm s = kvmmap (kernel_pagetable s) va pa sz perm s"

definition remap_user_code :: "u64 \<Rightarrow> u64 \<Rightarrow> 'a kvm_scheme \<Rightarrow> 'a kvm_scheme" where
  "remap_user_code pt newcode s =
     (case walk pt USERVA False s of (pte, s) \<Rightarrow>
        if pte = 0 then vputs (''[vm] remap_user_code: no pte'' @ [CHR 0x0A]) s
        else s\<lparr>mem := st64 (mem s) pte (PA2PTE newcode OR PTE_R OR PTE_X OR PTE_U OR PTE_V)\<rparr>)"

definition uvm_map :: "u64 \<Rightarrow> u64 \<Rightarrow> u64 \<Rightarrow> u64 \<Rightarrow> 'a kvm_scheme \<Rightarrow> (int \<times> 'a kvm_scheme) option" where
  "uvm_map pt va pa perm s =
     Option.bind (mappages pt va PGSIZE pa perm s) (\<lambda>(r, s). Some (if r \<noteq> 0 then -1 else 0, s))"

text \<open>
  \<^verbatim>\<open>freewalk\<close> recurses into every entry that is valid and has none of R, W, X, on whatever the
  memory holds. The inner function runs the loop from index \<open>i\<close> on.
\<close>

partial_function (option) freewalk :: "nat \<Rightarrow> u64 \<Rightarrow> 'a kmem_scheme \<Rightarrow> 'a kmem_scheme option" where
  "freewalk i pt s =
     (if i < 512 then
        let pte = ld64 (mem s) (slot pt (of_nat i)) in
        if pte AND PTE_V \<noteq> 0 \<and> pte AND (PTE_R OR PTE_W OR PTE_X) = 0
        then Option.bind (freewalk 0 (PTE2PA pte) s)
               (\<lambda>s. freewalk (Suc i) pt (s\<lparr>mem := st64 (mem s) (slot pt (of_nat i)) 0\<rparr>))
        else freewalk (Suc i) pt s
      else Some (kfree pt s))"

definition free_pagetable :: "u64 \<Rightarrow> 'a kmem_scheme \<Rightarrow> 'a kmem_scheme option" where
  "free_pagetable pt s = freewalk 0 pt s"

partial_function (option) vm_free_range :: "u64 \<Rightarrow> u64 \<Rightarrow> u64 \<Rightarrow> 'a kmem_scheme \<Rightarrow> 'a kmem_scheme option" where
  "vm_free_range pt a end1 s =
     (if a < end1 then
        case walk pt a False s of (pte, s) \<Rightarrow>
          vm_free_range pt (a + PGSIZE) end1
            (if pte \<noteq> 0 \<and> ld64 (mem s) pte AND PTE_V \<noteq> 0
             then (let s = kfree (PTE2PA (ld64 (mem s) pte)) s in s\<lparr>mem := st64 (mem s) pte 0\<rparr>)
             else s)
      else Some s)"

partial_function (option) uvm_cow_share :: "u64 \<Rightarrow> u64 \<Rightarrow> u64 \<Rightarrow> u64 \<Rightarrow> 'a kvm_scheme \<Rightarrow>
    (int \<times> 'a kvm_scheme) option" where
  "uvm_cow_share parent child a end1 s =
     (if a < end1 then
        case walk parent a False s of (pte, s) \<Rightarrow>
          if pte = 0 \<or> ld64 (mem s) pte AND PTE_V = 0 then uvm_cow_share parent child (a + PGSIZE) end1 s
          else
            let pa = PTE2PA (ld64 (mem s) pte);
                flags = PTE_FLAGS (ld64 (mem s) pte);
                (flags, s) = (if flags AND PTE_W \<noteq> 0
                   then (let flags = (flags AND NOT PTE_W) OR PTE_COW
                         in (flags, s\<lparr>mem := st64 (mem s) pte (PA2PTE pa OR flags)\<rparr>))
                   else (flags, s))
            in Option.bind (mappages child a PGSIZE pa flags s) (\<lambda>(r, s).
                 if r \<noteq> 0 then Some (-1, s)
                 else uvm_cow_share parent child (a + PGSIZE) end1 (kref_inc pa s))
      else Some (0, s))"

definition uvm_cow_fault :: "u64 \<Rightarrow> u64 \<Rightarrow> 'a kmem_scheme \<Rightarrow> int \<times> 'a kmem_scheme" where
  "uvm_cow_fault pt va s =
     (case walk pt (PGROUNDDOWN va) False s of (pte, s) \<Rightarrow>
        if pte = 0 \<or> ld64 (mem s) pte AND PTE_V = 0 \<or> ld64 (mem s) pte AND PTE_COW = 0 then (0, s)
        else
          let old = PTE2PA (ld64 (mem s) pte); (fresh, s) = kalloc s in
          if fresh = 0 then (0, s)
          else
            let s = s\<lparr>mem := copy_loop (mem s) fresh old 4096\<rparr>;
                flags = (PTE_FLAGS (ld64 (mem s) pte) AND NOT PTE_COW) OR PTE_W;
                s = s\<lparr>mem := st64 (mem s) pte (PA2PTE fresh OR flags)\<rparr>
            in (1, kfree old s))"

definition proc_pagetable :: "u64 \<Rightarrow> u64 \<Rightarrow> u64 \<Rightarrow> 'a kvm_scheme \<Rightarrow> (u64 \<times> 'a kvm_scheme) option" where
  "proc_pagetable etext ucode_pa ustack_pa s =
     (case kalloc s of (pt, s) \<Rightarrow>
        if pt = 0 then Some (0, s)
        else
          Option.bind (map_kernel etext pt (s\<lparr>mem := set_loop (mem s) pt 0 4096\<rparr>)) (\<lambda>s.
          Option.bind (mappages pt USERVA PGSIZE ucode_pa (PTE_R OR PTE_X OR PTE_U) s) (\<lambda>(_, s).
          Option.bind (mappages pt USERSTACK PGSIZE ustack_pa (PTE_R OR PTE_W OR PTE_U) s) (\<lambda>(_, s).
          Some (pt, s)))))"

end
