(* ===== verification/Elf.thy ===== *)
theory Elf
  imports Vm
begin

text \<open>
  \<^verbatim>\<open>src/src/elf.c\<close>: the loader that copies the loadable segments of an ELF64 image in kernel
  memory into one code page. Image and page are addresses in the byte memory; the headers are
  decoded from memory in every round, as the C code reads them through pointers. The result
  is the return value, the value stored through \<^verbatim>\<open>entry\<close> (if any), the memory and the message
  printed.
\<close>

section \<open>The headers\<close>

definition PT_LOAD :: u32 where "PT_LOAD = 1"

record elf64_ehdr =
  e_ident :: "u8 list"
  e_type :: u16
  e_machine :: u16
  e_version :: u32
  e_entry :: u64
  e_phoff :: u64
  e_shoff :: u64
  e_flags :: u32
  e_ehsize :: u16
  e_phentsize :: u16
  e_phnum :: u16
  e_shentsize :: u16
  e_shnum :: u16
  e_shstrndx :: u16

record elf64_phdr =
  p_type :: u32
  p_flags :: u32
  p_offset :: u64
  p_vaddr :: u64
  p_paddr :: u64
  p_filesz :: u64
  p_memsz :: u64
  p_align :: u64

text \<open>The structs have no padding: 64 and 56 bytes.\<close>

definition dec_ehdr :: "u8 list \<Rightarrow> elf64_ehdr" where
  "dec_ehdr b = \<lparr>e_ident = take 16 b, e_type = un_le16 (drop 16 b), e_machine = un_le16 (drop 18 b),
     e_version = un_le32 (drop 20 b), e_entry = un_le64 (drop 24 b), e_phoff = un_le64 (drop 32 b),
     e_shoff = un_le64 (drop 40 b), e_flags = un_le32 (drop 48 b), e_ehsize = un_le16 (drop 52 b),
     e_phentsize = un_le16 (drop 54 b), e_phnum = un_le16 (drop 56 b), e_shentsize = un_le16 (drop 58 b),
     e_shnum = un_le16 (drop 60 b), e_shstrndx = un_le16 (drop 62 b)\<rparr>"

definition dec_phdr :: "u8 list \<Rightarrow> elf64_phdr" where
  "dec_phdr b = \<lparr>p_type = un_le32 b, p_flags = un_le32 (drop 4 b), p_offset = un_le64 (drop 8 b),
     p_vaddr = un_le64 (drop 16 b), p_paddr = un_le64 (drop 24 b), p_filesz = un_le64 (drop 32 b),
     p_memsz = un_le64 (drop 40 b), p_align = un_le64 (drop 48 b)\<rparr>"

definition ehdr_at :: "memory \<Rightarrow> u64 \<Rightarrow> elf64_ehdr" where
  "ehdr_at m img = dec_ehdr (load m img 64)"

definition phdr_at :: "memory \<Rightarrow> u64 \<Rightarrow> elf64_phdr" where
  "phdr_at m a = dec_phdr (load m a 56)"

section \<open>The loader\<close>

lemma unat16_bound: "unat (x :: u16) < 65536"
  using unsigned_less [of x] by simp

function load_loop :: "u64 \<Rightarrow> u64 \<Rightarrow> nat \<Rightarrow> memory \<Rightarrow> int \<times> memory \<times> string" where
  "load_loop img codepage i m =
     (let eh = ehdr_at m img in
      if i < unat (e_phnum eh) then
        let ph = phdr_at m (img + e_phoff eh + of_nat i * ucast (e_phentsize eh)) in
        if p_type ph \<noteq> PT_LOAD then load_loop img codepage (i + 1) m
        else let off = p_vaddr ph - USERVA in
          if off + p_memsz ph > PGSIZE then (-1, m, ''[elf] segment too big (>1 page)\<newline>'')
          else load_loop img codepage (i + 1)
                 (copy_loop m (codepage + off) (img + p_offset ph) (unat (p_filesz ph)))
      else (0, m, ''''))"
  by pat_completeness auto
termination
proof (relation "measure (\<lambda>(img, codepage, i, m). 65536 - i)", goal_cases)
  case (2 img codepage i m eh ph)
  then have "i < 65536" using unat16_bound [of "e_phnum eh"] by (auto intro: less_trans)
  then show ?case by simp
next
  case (3 img codepage i m eh ph off)
  then have "i < 65536" using unat16_bound [of "e_phnum eh"] by (auto intro: less_trans)
  then show ?case by simp
qed simp

declare load_loop.simps [simp del]

definition load_elf :: "u64 \<Rightarrow> u64 \<Rightarrow> memory \<Rightarrow> int \<times> u64 option \<times> memory \<times> string" where
  "load_elf img codepage m =
     (let eh = ehdr_at m img in
      if \<not> (e_ident eh ! 0 = 0x7f \<and> e_ident eh ! 1 = of_char CHR ''E'' \<and>
             e_ident eh ! 2 = of_char CHR ''L'' \<and> e_ident eh ! 3 = of_char CHR ''F'')
      then (-1, None, m, ''[elf] bad magic\<newline>'')
      else case load_loop img codepage 0 m of (r, m', msg) \<Rightarrow> (r, Some (e_entry eh), m', msg))"

section \<open>Well-formed images\<close>

definition in_page :: "u64 \<Rightarrow> u64 \<Rightarrow> bool" where
  "in_page page a \<longleftrightarrow> a - page < PGSIZE"

lemma in_page_unat: "in_page page a \<longleftrightarrow> unat (a - page) < 4096"
  by (simp add: in_page_def word_less_nat_alt)

definition phdr_addr :: "memory \<Rightarrow> u64 \<Rightarrow> nat \<Rightarrow> u64" where
  "phdr_addr m img i = img + e_phoff (ehdr_at m img) + of_nat i * ucast (e_phentsize (ehdr_at m img))"

definition seg_off :: "elf64_phdr \<Rightarrow> nat" where
  "seg_off ph = unat (p_vaddr ph - USERVA)"

text \<open>The loadable segments in the order of the program header table.\<close>

definition loads :: "memory \<Rightarrow> u64 \<Rightarrow> nat \<Rightarrow> elf64_phdr list" where
  "loads m img i = filter (\<lambda>ph. p_type ph = PT_LOAD)
     (map (\<lambda>i. phdr_at m (phdr_addr m img i)) [i..<unat (e_phnum (ehdr_at m img))])"

definition seg_ok :: "nat \<Rightarrow> elf64_phdr \<Rightarrow> bool" where
  "seg_ok len ph \<longleftrightarrow> unat (p_offset ph) + unat (p_filesz ph) \<le> len \<and> unat (p_filesz ph) \<le> unat (p_memsz ph) \<and>
     seg_off ph + unat (p_memsz ph) \<le> 4096"

definition elf_ok :: "memory \<Rightarrow> u64 \<Rightarrow> nat \<Rightarrow> bool" where
  "elf_ok m img len \<longleftrightarrow> 64 \<le> len \<and> len < 2 ^ 63 \<and> take 4 (load m img 64) = [0x7f, 0x45, 0x4c, 0x46] \<and>
     (\<forall>i < unat (e_phnum (ehdr_at m img)). unat (e_phoff (ehdr_at m img)) + i * unat (e_phentsize (ehdr_at m img)) + 56 \<le> len) \<and>
     (\<forall>ph \<in> set (loads m img 0). seg_ok len ph)"

definition clear_of :: "u64 \<Rightarrow> nat \<Rightarrow> u64 \<Rightarrow> bool" where
  "clear_of img len page \<longleftrightarrow> (\<forall>k < len. \<not> in_page page (img + of_nat k))"

text \<open>What the code page should hold at an offset: the byte of the last segment that covers it.\<close>

definition covers :: "elf64_phdr \<Rightarrow> nat \<Rightarrow> bool" where
  "covers ph o' \<longleftrightarrow> seg_off ph \<le> o' \<and> o' < seg_off ph + unat (p_filesz ph)"

definition image_byte :: "memory \<Rightarrow> u64 \<Rightarrow> elf64_phdr list \<Rightarrow> nat \<Rightarrow> u8 \<Rightarrow> u8" where
  "image_byte m img phs o' v =
     fold (\<lambda>ph v. if covers ph o' then m (img + of_nat (unat (p_offset ph) + (o' - seg_off ph))) else v) phs v"

lemma load_cong: "(\<And>k. k < n \<Longrightarrow> m (a + of_nat k) = m' (a + of_nat k)) \<Longrightarrow> load m a n = load m' a n"
  by (simp add: load_def)

lemma image_cong:
  assumes "clear_of img len page" "\<forall>a. \<not> in_page page a \<longrightarrow> m' a = m a" "j + n \<le> len"
  shows "load m' (img + of_nat j) n = load m (img + of_nat j) n"
proof (rule load_cong)
  fix k assume "k < n"
  then have "\<not> in_page page (img + of_nat (j + k))"
    using assms(1,3) unfolding clear_of_def by (meson add_less_cancel_left less_le_trans)
  then show "m' (img + of_nat j + of_nat k) = m (img + of_nat j + of_nat k)" using assms(2) by (simp add: add.assoc)
qed

text \<open>One accepted segment.\<close>

lemma copy_segment:
  assumes "clear_of img len page" "seg_ok len ph" "len < 2 ^ 63"
    and same: "\<forall>a. \<not> in_page page a \<longrightarrow> m' a = m a"
  defines "off \<equiv> p_vaddr ph - USERVA"
  shows "\<not> off + p_memsz ph > PGSIZE"
    "copy_loop m' (page + off) (img + p_offset ph) (unat (p_filesz ph)) =
       (\<lambda>a. if in_page page a then image_byte m img [ph] (unat (a - page)) (m' a) else m' a)"
proof -
  have ok: "unat (p_offset ph) + unat (p_filesz ph) \<le> len" "unat (p_filesz ph) \<le> unat (p_memsz ph)"
      "unat off + unat (p_memsz ph) \<le> 4096" using assms(2) by (auto simp: seg_ok_def seg_off_def off_def)
  then have "unat (off + p_memsz ph) = unat off + unat (p_memsz ph)" by (simp add: unat_word_ariths)
  then show "\<not> off + p_memsz ph > PGSIZE" using ok by (simp add: word_less_nat_alt)
  let ?n = "unat (p_filesz ph)" and ?d = "page + off" and ?s = "img + p_offset ph"
  have dst: "unat (a - ?d) < ?n \<longleftrightarrow> in_page page a \<and> unat off \<le> unat (a - page) \<and> unat (a - page) < unat off + ?n" for a
  proof -
    have e: "a - ?d = (a - page) - off" by (simp add: algebra_simps)
    show ?thesis
    proof (cases "unat off \<le> unat (a - page)")
      case True
      then have "unat (a - ?d) = unat (a - page) - unat off" by (simp add: e unat_sub_if')
      then show ?thesis using True ok by (auto simp: in_page_unat)
    next
      case False
      then have "unat (a - ?d) = 2 ^ 64 + unat (a - page) - unat off" by (simp add: e unat_sub_if')
      then show ?thesis using False ok by auto
    qed
  qed
  have src: "\<not> in_page page a" if "unat (a - ?s) < ?n" for a
  proof -
    have "a = img + of_nat (unat (p_offset ph) + unat (a - ?s))" by simp
    moreover have "unat (p_offset ph) + unat (a - ?s) < len" using that ok(1) by simp
    ultimately show ?thesis using assms(1) unfolding clear_of_def by metis
  qed
  have "copy_loop m' ?d ?s ?n = (\<lambda>a. if unat (a - ?d) < ?n then m' (?s + (a - ?d)) else m' a)"
  proof (rule copy_loop_eq)
    show "?n \<le> 2 ^ 64" using ok by simp
    show "\<forall>a. unat (a - ?d) < ?n \<longrightarrow> \<not> unat (a - ?s) < ?n" using dst src by blast
  qed
  also have "\<dots> = (\<lambda>a. if in_page page a then image_byte m img [ph] (unat (a - page)) (m' a) else m' a)"
  proof
    fix a
    have "m' (?s + (a - ?d)) = m (img + of_nat (unat (p_offset ph) + (unat (a - page) - unat off)))"
      if d: "unat (a - ?d) < ?n"
    proof -
      have le: "unat off \<le> unat (a - page)" using d dst by blast
      have "of_nat (unat (a - page) - unat off) = a - page - off" using le by (simp add: of_nat_diff)
      then have "?s + (a - ?d) = img + of_nat (unat (p_offset ph) + (unat (a - page) - unat off))" by (simp add: algebra_simps)
      moreover have "\<not> in_page page (?s + (a - ?d))" by (rule src) (use d in \<open>simp add: algebra_simps\<close>)
      ultimately show ?thesis using same by metis
    qed
    then show "(if unat (a - ?d) < ?n then m' (?s + (a - ?d)) else m' a) =
        (if in_page page a then image_byte m img [ph] (unat (a - page)) (m' a) else m' a)"
      using dst [of a] by (auto simp: image_byte_def covers_def seg_off_def off_def)
  qed
  finally show "copy_loop m' (page + off) (img + p_offset ph) (unat (p_filesz ph)) =
       (\<lambda>a. if in_page page a then image_byte m img [ph] (unat (a - page)) (m' a) else m' a)" .
qed

section \<open>The whole loop\<close>

lemma ehdr_cong:
  assumes "elf_ok m img len" "clear_of img len page" "\<forall>a. \<not> in_page page a \<longrightarrow> m' a = m a"
  shows "ehdr_at m' img = ehdr_at m img"
    "i < unat (e_phnum (ehdr_at m img)) \<Longrightarrow> phdr_at m' (phdr_addr m img i) = phdr_at m (phdr_addr m img i)"
proof -
  show "ehdr_at m' img = ehdr_at m img"
    using image_cong [OF assms(2,3), of 0 64] assms(1) by (simp add: ehdr_at_def elf_ok_def)
  assume "i < unat (e_phnum (ehdr_at m img))"
  then have "unat (e_phoff (ehdr_at m img)) + i * unat (e_phentsize (ehdr_at m img)) + 56 \<le> len"
    using assms(1) by (simp add: elf_ok_def)
  moreover have "phdr_addr m img i =
      img + of_nat (unat (e_phoff (ehdr_at m img)) + i * unat (e_phentsize (ehdr_at m img)))"
    by (simp add: phdr_addr_def)
  ultimately show "phdr_at m' (phdr_addr m img i) = phdr_at m (phdr_addr m img i)"
    using image_cong [OF assms(2,3)] by (simp only: phdr_at_def)
qed

lemma image_byte_Cons: "image_byte m img (ph # phs) o' v = image_byte m img phs o' (image_byte m img [ph] o' v)"
  by (simp add: image_byte_def)

lemma load_loop_ok:
  assumes ok: "elf_ok m img len" "clear_of img len page"
    and "\<forall>a. \<not> in_page page a \<longrightarrow> m' a = m a" "i \<le> unat (e_phnum (ehdr_at m img))"
  shows "load_loop img page i m' =
    (0, \<lambda>a. if in_page page a then image_byte m img (loads m img i) (unat (a - page)) (m' a) else m' a, '''')"
  using assms(3,4)
proof (induction "unat (e_phnum (ehdr_at m img)) - i" arbitrary: i m')
  case 0
  then show ?case
    using ehdr_cong(1) [OF ok 0(2)] by (subst load_loop.simps) (simp add: loads_def image_byte_def fun_eq_iff)
next
  case (Suc n)
  note eh = ehdr_cong(1) [OF ok Suc.prems(1)]
  have i: "i < unat (e_phnum (ehdr_at m img))" using Suc.hyps(2) by simp
  let ?ph = "phdr_at m (phdr_addr m img i)"
  have ph: "phdr_at m' (img + e_phoff (ehdr_at m' img) + of_nat i * ucast (e_phentsize (ehdr_at m' img))) = ?ph"
    using ehdr_cong(2) [OF ok Suc.prems(1) i] by (simp add: eh phdr_addr_def)
  have loads: "loads m img i = (if p_type ?ph = PT_LOAD then [?ph] else []) @ loads m img (Suc i)"
    using i by (simp add: loads_def upt_conv_Cons)
  have n: "n = unat (e_phnum (ehdr_at m img)) - Suc i" using Suc.hyps(2) by simp
  show ?case
  proof (cases "p_type ?ph = PT_LOAD")
    case False
    then have l: "loads m img i = loads m img (Suc i)" using loads by simp
    have "load_loop img page i m' = load_loop img page (Suc i) m'"
      using False i by (subst load_loop.simps) (simp add: Let_def ph [unfolded eh] eh)
    then show ?thesis unfolding l using Suc.hyps(1) [OF n Suc.prems(1)] i by simp
  next
    case True
    have "?ph \<in> set (loads m img 0)" using i True by (auto simp: loads_def)
    then have so: "seg_ok len ?ph" "len < 2 ^ 63" using ok(1) by (auto simp: elf_ok_def)
    let ?m = "\<lambda>a. if in_page page a then image_byte m img [?ph] (unat (a - page)) (m' a) else m' a"
    note cs = copy_segment [OF ok(2) so Suc.prems(1)]
    have "load_loop img page i m' = load_loop img page (Suc i) ?m"
      using True i cs(1) unfolding cs(2) [symmetric] by (subst load_loop.simps) (simp add: Let_def ph [unfolded eh] eh)
    also have "\<dots> = (0, \<lambda>a. if in_page page a then image_byte m img (loads m img (Suc i)) (unat (a - page)) (?m a) else ?m a, '''')"
      using Suc.hyps(1) [OF n, of ?m] Suc.prems(1) i by simp
    also have "\<dots> = (0, \<lambda>a. if in_page page a then image_byte m img (loads m img i) (unat (a - page)) (m' a) else m' a, '''')"
      using True loads by (simp add: image_byte_Cons [of m img _ "loads m img (Suc i)"] fun_eq_iff)
    finally show ?thesis .
  qed
qed

lemma load_elf_ok:
  assumes "elf_ok m img len" "clear_of img len page"
  shows "load_elf img page m = (0, Some (e_entry (ehdr_at m img)),
    \<lambda>a. if in_page page a then image_byte m img (loads m img 0) (unat (a - page)) (m a) else m a, '''')"
proof -
  have "take 4 (load m img 64) = [0x7f, 0x45, 0x4c, 0x46]" using assms(1) by (simp add: elf_ok_def)
  moreover have "load m img 64 ! i = take 4 (load m img 64) ! i" if "i < 4" for i using that by simp
  ultimately have "e_ident (ehdr_at m img) ! 0 = 0x7f" "e_ident (ehdr_at m img) ! 1 = 0x45"
      "e_ident (ehdr_at m img) ! 2 = 0x4c" "e_ident (ehdr_at m img) ! 3 = 0x46"
    by (simp_all add: ehdr_at_def dec_ehdr_def)
  then show ?thesis using load_loop_ok [OF assms, of m 0] by (simp add: load_elf_def Let_def)
qed

text \<open>An image is its bytes: it stays sound, with the same segments, while no byte of it changes.\<close>

lemma image_agree:
  assumes "elf_ok m img len" "\<forall>k < len. m' (img + of_nat k) = m (img + of_nat k)"
  shows "ehdr_at m' img = ehdr_at m img" "loads m' img 0 = loads m img 0" "elf_ok m' img len"
    "image_byte m' img (loads m img 0) o' v = image_byte m img (loads m img 0) o' v"
proof -
  have l: "load m' (img + of_nat j) n = load m (img + of_nat j) n" if "j + n \<le> len" for j n
  proof (rule load_cong)
    fix k assume "k < n"
    then have "m' (img + of_nat (j + k)) = m (img + of_nat (j + k))" using assms(2) that by (meson add_less_cancel_left less_le_trans)
    then show "m' (img + of_nat j + of_nat k) = m (img + of_nat j + of_nat k)" by (simp add: add.assoc)
  qed
  have l64: "load m' img 64 = load m img 64" using l [of 0 64] assms(1) by (simp add: elf_ok_def)
  show eh: "ehdr_at m' img = ehdr_at m img" by (simp add: ehdr_at_def l64)
  have ph: "phdr_at m' (phdr_addr m img i) = phdr_at m (phdr_addr m img i)" if "i < unat (e_phnum (ehdr_at m img))" for i
  proof -
    have "unat (e_phoff (ehdr_at m img)) + i * unat (e_phentsize (ehdr_at m img)) + 56 \<le> len" using assms(1) that by (simp add: elf_ok_def)
    moreover have "phdr_addr m img i = img + of_nat (unat (e_phoff (ehdr_at m img)) + i * unat (e_phentsize (ehdr_at m img)))"
      by (simp add: phdr_addr_def)
    ultimately show ?thesis using l by (simp only: phdr_at_def)
  qed
  have pa: "phdr_addr m' img i = phdr_addr m img i" for i by (simp add: phdr_addr_def eh)
  show ld: "loads m' img 0 = loads m img 0"
    unfolding loads_def eh pa by (rule arg_cong [where f = "filter _"]) (simp add: ph)
  show "elf_ok m' img len" using assms(1) unfolding elf_ok_def eh l64 ld by simp
  have "\<forall>ph \<in> set phs. seg_ok len ph \<Longrightarrow> image_byte m' img phs o' v = image_byte m img phs o' v" for phs v
  proof (induction phs arbitrary: v)
    case (Cons ph phs)
    have "unat (p_offset ph) + (o' - seg_off ph) < len" if "covers ph o'" using that Cons.prems by (auto simp: covers_def seg_ok_def)
    then have "image_byte m' img [ph] o' v = image_byte m img [ph] o' v" using assms(2) by (simp add: image_byte_def del: of_nat_add)
    then show ?case using Cons by (simp add: image_byte_Cons [of _ img ph phs])
  qed (simp add: image_byte_def)
  then show "image_byte m' img (loads m img 0) o' v = image_byte m img (loads m img 0) o' v" using assms(1) by (simp add: elf_ok_def)
qed

section \<open>Properties\<close>

text \<open>
  Claim C31. Loading: for a well-formed image of \<open>len\<close> bytes that does not overlap the code page,
  \<^verbatim>\<open>load_elf\<close> returns 0 with the image's entry point; every byte of the page that a loadable
  segment covers holds that segment's file byte (the last such segment's, if several do), every
  other byte of the page, the \<^verbatim>\<open>.bss\<close> included, and all memory outside the page is as before.
\<close>
theorem load_elf_correct:
  assumes "elf_ok m img len" "clear_of img len page"
  shows "load_elf img page m = (0, Some (e_entry (ehdr_at m img)),
    \<lambda>a. if in_page page a then image_byte m img (loads m img 0) (unat (a - page)) (m a) else m a, '''')"
  by (rule load_elf_ok [OF assms])

text \<open>A two-segment image, at address 0, for a page at \<open>0x80001000\<close>.\<close>

definition enc_ehdr :: "u64 \<Rightarrow> u64 \<Rightarrow> u16 \<Rightarrow> u8 list" where
  "enc_ehdr entry phoff phnum = [0x7f, 0x45, 0x4c, 0x46] @ replicate 12 0 @ le16 2 @ le16 243 @ le32 1 @ le64 entry @
     le64 phoff @ le64 0 @ le32 0 @ le16 64 @ le16 56 @ le16 phnum @ le16 0 @ le16 0 @ le16 0"

definition enc_load :: "u64 \<Rightarrow> u64 \<Rightarrow> u64 \<Rightarrow> u64 \<Rightarrow> u8 list" where
  "enc_load off va fsz msz = le32 PT_LOAD @ le32 5 @ le64 off @ le64 va @ le64 va @ le64 fsz @ le64 msz @ le64 4096"

definition mem_of :: "u8 list \<Rightarrow> memory" where
  "mem_of bs a = (if a < of_nat (length bs) then bs ! unat a else 0)"

definition small_elf :: "u8 list" where
  "small_elf = enc_ehdr 0x1000 64 2 @ enc_load 176 0x1000 2 2 @ enc_load 178 0x1010 1 8 @ [0x13, 0x05, 0x2a]"

lemma unat_nat64: "k < 2 ^ 64 \<Longrightarrow> unat (of_nat k :: u64) = k"
  by (simp add: unsigned_of_nat take_bit_nat_eq_self)

lemma mem_of_load:
  assumes "length bs < 2 ^ 63" "j + n \<le> length bs"
  shows "load (mem_of bs) (of_nat j) n = take n (drop j bs)"
proof (rule nth_equalityI)
  show "length (load (mem_of bs) (of_nat j) n) = length (take n (drop j bs))" using assms by (simp add: load_def)
  fix i assume "i < length (load (mem_of bs) (of_nat j) n)"
  then have i: "i < n" by (simp add: load_def)
  have "unat (of_nat (j + i) :: u64) = j + i" "unat (of_nat (length bs) :: u64) = length bs"
    using i assms by (intro unat_nat64; simp)+
  then show "load (mem_of bs) (of_nat j) n ! i = take n (drop j bs) ! i"
    using i assms by (simp add: load_def mem_of_def word_less_nat_alt)
qed

lemma low_clear: "len < 0x80000000 \<Longrightarrow> clear_of 0 len 0x80001000"
proof -
  assume "len < 0x80000000"
  have "\<not> unat (of_nat k - (0x80001000 :: u64)) < 4096" if "k < 0x80000000" for k
  proof -
    have "unat (of_nat k :: u64) = k" using that by (simp add: unsigned_of_nat take_bit_nat_eq_self)
    then show ?thesis using that by (simp add: unat_sub_if')
  qed
  then show ?thesis using \<open>len < 0x80000000\<close> by (simp add: clear_of_def in_page_unat)
qed

lemma enc_lengths: "length (enc_ehdr e p n) = 64" "length (enc_load o' va f k) = 56"
  by (simp_all add: enc_ehdr_def enc_load_def)

lemma dec_enc_hdr:
  "e_entry (dec_ehdr (enc_ehdr e p n)) = e" "e_phoff (dec_ehdr (enc_ehdr e p n)) = p"
  "e_phentsize (dec_ehdr (enc_ehdr e p n)) = 56" "e_phnum (dec_ehdr (enc_ehdr e p n)) = n"
  "e_ident (dec_ehdr (enc_ehdr e p n)) = [0x7f, 0x45, 0x4c, 0x46] @ replicate 12 0"
  "p_type (dec_phdr (enc_load o' va f k)) = PT_LOAD" "p_offset (dec_phdr (enc_load o' va f k)) = o'"
  "p_vaddr (dec_phdr (enc_load o' va f k)) = va" "p_filesz (dec_phdr (enc_load o' va f k)) = f"
  "p_memsz (dec_phdr (enc_load o' va f k)) = k"
  by (simp_all add: dec_ehdr_def enc_ehdr_def dec_phdr_def enc_load_def codec_simps)

lemma mem_of_phdr:
  assumes "length bs < 2 ^ 63" "drop j bs = enc_load o' va f k @ rest"
  shows "phdr_at (mem_of bs) (of_nat j) = dec_phdr (enc_load o' va f k)"
proof -
  have "j + 56 \<le> length bs" using arg_cong [OF assms(2), of length] by (simp add: enc_lengths)
  then show ?thesis using mem_of_load [OF assms(1)] assms(2) by (simp add: phdr_at_def enc_lengths)
qed

lemma mem_of_ehdr: "length rest < 2 ^ 62 \<Longrightarrow> ehdr_at (mem_of (enc_ehdr e p n @ rest)) 0 = dec_ehdr (enc_ehdr e p n)"
  using mem_of_load [of "enc_ehdr e p n @ rest" 0 64] by (simp add: ehdr_at_def enc_lengths)

lemma small_elf_hdr: "ehdr_at (mem_of small_elf) 0 = dec_ehdr (enc_ehdr 0x1000 64 2)"
  unfolding small_elf_def by (rule mem_of_ehdr) (simp add: enc_lengths)

lemma small_elf_loads:
  "loads (mem_of small_elf) 0 0 = [dec_phdr (enc_load 176 0x1000 2 2), dec_phdr (enc_load 178 0x1010 1 8)]"
proof -
  have a: "phdr_addr (mem_of small_elf) 0 0 = of_nat 64" "phdr_addr (mem_of small_elf) 0 1 = of_nat 120"
    by (simp_all add: phdr_addr_def small_elf_hdr dec_enc_hdr)
  have u: "[0..<unat (e_phnum (ehdr_at (mem_of small_elf) 0))] = [0, 1]" by (simp add: small_elf_hdr dec_enc_hdr upt_rec)
  have l: "length small_elf < 2 ^ 63" by (simp add: small_elf_def enc_lengths)
  have "phdr_at (mem_of small_elf) (of_nat 64) = dec_phdr (enc_load 176 0x1000 2 2)"
    "phdr_at (mem_of small_elf) (of_nat 120) = dec_phdr (enc_load 178 0x1010 1 8)"
    by (rule mem_of_phdr [OF l], simp add: small_elf_def enc_lengths)+
  then show ?thesis unfolding loads_def u by (simp only: list.map a filter.simps dec_enc_hdr refl if_True)
qed

lemma small_elf_ok: "elf_ok (mem_of small_elf) 0 179"
proof -
  have "load (mem_of small_elf) 0 64 = enc_ehdr 0x1000 64 2"
    using mem_of_load [of small_elf 0 64] by (simp add: small_elf_def enc_lengths)
  then have "take 4 (load (mem_of small_elf) 0 64) = [0x7f, 0x45, 0x4c, 0x46]" by (simp add: enc_ehdr_def)
  moreover have "unat (e_phoff (ehdr_at (mem_of small_elf) 0)) + i * unat (e_phentsize (ehdr_at (mem_of small_elf) 0)) + 56 \<le> 179"
    if "i < unat (e_phnum (ehdr_at (mem_of small_elf) 0))" for i
    using that by (simp add: small_elf_hdr dec_enc_hdr)
  ultimately show ?thesis by (simp add: elf_ok_def small_elf_loads seg_ok_def seg_off_def dec_enc_hdr USERVA_def)
qed

lemma small_elf_bytes: "length small_elf = 179" "small_elf ! 176 = 0x13" "small_elf ! 177 = 0x05" "small_elf ! 178 = 0x2a"
  by (simp_all add: small_elf_def enc_lengths nth_append)

theorem load_elf_correct_witness:
  "\<exists>m. load_elf 0 0x80001000 (mem_of small_elf) = (0, Some 0x1000, m, '''') \<and>
     m 0x80001000 = 0x13 \<and> m 0x80001001 = 0x05 \<and> m 0x80001010 = 0x2a \<and> m 0x80001011 = 0 \<and> m 0x80002000 = 0"
proof -
  let ?m = "\<lambda>a. if in_page 0x80001000 a then image_byte (mem_of small_elf) 0 (loads (mem_of small_elf) 0 0)
       (unat (a - 0x80001000)) (mem_of small_elf a) else mem_of small_elf a"
  have "load_elf 0 0x80001000 (mem_of small_elf) = (0, Some 0x1000, ?m, '''')"
    using load_elf_correct [OF small_elf_ok low_clear] by (simp add: small_elf_hdr dec_enc_hdr)
  then show ?thesis using small_elf_bytes
    by (intro exI [of _ ?m]) (simp add: in_page_def small_elf_loads image_byte_def covers_def seg_off_def dec_enc_hdr USERVA_def mem_of_def)
qed

section \<open>Images the size check lets through\<close>

definition one_seg :: "u64 \<Rightarrow> u64 \<Rightarrow> u8 \<Rightarrow> u8 list" where
  "one_seg va msz x = enc_ehdr 0x1000 64 1 @ enc_load 120 va 1 msz @ [x]"

lemma one_byte_segment:
  assumes "\<not> va - USERVA + msz > PGSIZE" "64 \<le> page + (va - USERVA)"
  shows "load_elf 0 page (mem_of (one_seg va msz x)) =
    (0, Some 0x1000, (mem_of (one_seg va msz x))(page + (va - USERVA) := x), '''')"
proof -
  let ?bs = "one_seg va msz x" and ?d = "page + (va - USERVA)"
  let ?m = "mem_of ?bs"
  have l: "length ?bs = 121" by (simp add: one_seg_def enc_lengths)
  have eh: "ehdr_at ?m 0 = dec_ehdr (enc_ehdr 0x1000 64 1)"
    unfolding one_seg_def by (rule mem_of_ehdr) (simp add: enc_lengths)
  have ph: "phdr_at ?m 64 = dec_phdr (enc_load 120 va 1 msz)"
    using mem_of_phdr [of ?bs 64 120 va 1 msz "[x]"] l by (simp add: one_seg_def enc_lengths)
  have x: "?m 120 = x" using l by (simp add: mem_of_def one_seg_def enc_lengths nth_append)
  have "ehdr_at (?m(?d := x)) 0 = ehdr_at ?m 0"
  proof -
    have "of_nat k \<noteq> ?d" if "k < 64" for k
    proof -
      have "unat (of_nat k :: u64) < 64" using that by (simp add: unat_nat64)
      then show ?thesis using assms(2) by (auto simp: word_le_nat_alt)
    qed
    then have "load (?m(?d := x)) 0 64 = load ?m 0 64" by (intro load_cong) simp
    then show ?thesis by (simp add: ehdr_at_def)
  qed
  then have "load_loop 0 page 1 (?m(?d := x)) = (0, ?m(?d := x), '''')"
    by (subst load_loop.simps) (simp add: eh dec_enc_hdr)
  moreover have "load_loop 0 page 0 ?m = load_loop 0 page 1 (copy_loop ?m ?d 120 1)"
    using assms(1) by (subst load_loop.simps) (simp add: eh dec_enc_hdr ph Let_def)
  ultimately show ?thesis by (simp add: load_elf_def eh dec_enc_hdr x)
qed

text \<open>
  Claim C40. The size check is not enough. \<^verbatim>\<open>off + p_memsz\<close> wraps, so a segment linked below
  \<^verbatim>\<open>USERVA\<close> passes it, and \<^verbatim>\<open>p_filesz\<close>, the number of bytes copied, is not checked at all: for
  each of the two there is an image of one segment that is accepted and overwrites kernel memory
  outside the code page, below it and above it.
\<close>
theorem load_elf_escapes:
  "\<exists>img1 img2 m1 m2.
     load_elf 0 0x80001000 (mem_of img1) = (0, Some 0x1000, m1, '''') \<and> m1 0x80000000 = 0xaa \<and> mem_of img1 0x80000000 = 0 \<and>
     load_elf 0 0x80001000 (mem_of img2) = (0, Some 0x1000, m2, '''') \<and> m2 0x80002000 = 0xaa \<and> mem_of img2 0x80002000 = 0 \<and>
     \<not> in_page 0x80001000 0x80000000 \<and> \<not> in_page 0x80001000 0x80002000"
proof -
  have "mem_of (one_seg va msz x) a = 0" if "121 \<le> a" for va msz x a
    using that by (auto simp: mem_of_def one_seg_def enc_lengths)
  then show ?thesis
    using one_byte_segment [where va = 0 and msz = "0x1000" and page = "0x80001000" and x = "0xaa"]
      one_byte_segment [where va = "0x2000" and msz = 0 and page = "0x80001000" and x = "0xaa"]
    by (intro exI [of _ "one_seg 0 0x1000 0xaa"] exI [of _ "one_seg 0x2000 0 0xaa"]
        exI [of _ "(mem_of (one_seg 0 0x1000 0xaa))(0x80000000 := 0xaa)"]
        exI [of _ "(mem_of (one_seg 0x2000 0 0xaa))(0x80002000 := 0xaa)"])
      (simp add: USERVA_def in_page_def)
qed

end
