(* ===== verification/VmWalk.thy ===== *)
theory VmWalk
  imports Vm
begin

text \<open>
  Page tables as trees in memory. \<open>leaf\<close> is the last-level entry that a virtual address selects
  (0 when an intermediate table is missing), \<open>tabs\<close> the set of table pages, \<open>wf_tab\<close> says that
  the tables form a tree of distinct RAM pages. \<^verbatim>\<open>walk\<close> without allocation computes the leaf's
  address, \<^verbatim>\<open>walk\<close> with allocation extends the tree without changing any leaf, and a write
  through the pointer it returns changes the leaf of exactly one virtual page.
\<close>

section \<open>Entries\<close>

lemma pte_bit [simp]:
  "v AND PTE_V = 0 \<longleftrightarrow> \<not> bit v 0" "v AND PTE_R = 0 \<longleftrightarrow> \<not> bit v 1" "v AND PTE_W = 0 \<longleftrightarrow> \<not> bit v 2"
  "v AND PTE_X = 0 \<longleftrightarrow> \<not> bit v 3" "v AND PTE_U = 0 \<longleftrightarrow> \<not> bit v 4" "v AND PTE_COW = 0 \<longleftrightarrow> \<not> bit v 8"
  unfolding PTE_V_def PTE_R_def PTE_W_def PTE_X_def PTE_U_def PTE_COW_def bit_iff_and_push_bit_not_eq_0 by simp_all

lemma bit_PTE [simp]:
  "bit PTE_V n \<longleftrightarrow> n = 0" "bit PTE_R n \<longleftrightarrow> n = 1" "bit PTE_W n \<longleftrightarrow> n = 2"
  "bit PTE_X n \<longleftrightarrow> n = 3" "bit PTE_U n \<longleftrightarrow> n = 4" "bit PTE_COW n \<longleftrightarrow> n = 8"
  unfolding PTE_V_def PTE_R_def PTE_W_def PTE_X_def PTE_U_def PTE_COW_def bit_push_bit_iff
  by (auto simp: bit_simps)

text \<open>A physical page and ten flag bits survive the encoding.\<close>

lemma PTE2PA_make:
  assumes "take_bit 12 p = 0" "take_bit 10 f = f"
  shows "PTE2PA (PA2PTE p OR f) = p"
proof (rule bit_word_eqI)
  fix n assume n: "n < LENGTH(64)"
  have f: "\<not> bit f k" if "10 \<le> k" for k
    using assms(2) that by (metis bit_take_bit_iff not_le)
  have p: "\<not> bit p k" if "k < 12" for k
  proof -
    have "bit (take_bit 12 p) k \<longleftrightarrow> bit p k" using that by (simp add: bit_take_bit_iff)
    then show ?thesis using assms(1) by simp
  qed
  show "bit (PTE2PA (PA2PTE p OR f)) n = bit p n"
    using n f p by (cases "n < 12") (auto simp: PTE2PA_def PA2PTE_def bit_simps)
qed

lemma PTE_FLAGS_make:
  assumes "take_bit 10 f = f"
  shows "PTE_FLAGS (PA2PTE p OR f) = f"
proof (rule bit_word_eqI)
  fix n assume "n < LENGTH(64)"
  have m: "(0x3FF :: u64) = mask 10" by (simp add: mask_eq_exp_minus_1)
  have "\<not> bit f k" if "10 \<le> k" for k using assms that by (metis bit_take_bit_iff not_le)
  then show "bit (PTE_FLAGS (PA2PTE p OR f)) n = bit f n"
    unfolding PTE_FLAGS_def m by (cases "n < 10") (auto simp: PA2PTE_def bit_simps)
qed

lemma PTE2PA_aligned [simp]: "take_bit 12 (PTE2PA v) = 0"
  by (rule bit_word_eqI) (auto simp: PTE2PA_def bit_simps)

lemma bit_make_low: "n < 10 \<Longrightarrow> bit (PA2PTE p OR f) n = bit f n"
  by (auto simp: PA2PTE_def bit_simps)

text \<open>Slots of a table.\<close>

lemma PX_less: "PX l va < 512"
proof -
  have "PX l va = take_bit 9 (drop_bit (12 + 9 * l) va)"
    unfolding PX_def take_bit_eq_mask by (simp add: mask_eq_exp_minus_1)
  then have "unat (PX l va) = take_bit 9 (unat (drop_bit (12 + 9 * l) va))" by (simp only: unsigned_take_bit_eq)
  then show ?thesis using take_bit_nat_less_exp [of 9] by (simp add: word_less_nat_alt)
qed

lemma unat_slot_offset: "i < 512 \<Longrightarrow> unat (8 * i :: u64) = 8 * unat i"
  by (simp add: word_less_nat_alt unat_word_ariths)

lemma slot_page:
  assumes "take_bit 12 pt = 0" "i < 512"
  shows "page_no (slot pt i) = page_no pt" "take_bit 3 (slot pt i) = 0"
proof -
  have i: "unat i < 512" using assms(2) by (simp add: word_less_nat_alt)
  show "page_no (slot pt i) = page_no pt"
    unfolding slot_def by (rule drop_bit_add_offset) (use assms i in \<open>simp_all add: unat_slot_offset\<close>)
  have "8 dvd unat pt" using page_aligned_dword [OF assms(1)] by (simp add: aligned_iff_dvd)
  then show "take_bit 3 (slot pt i) = 0"
    using assms(2) by (simp add: slot_def aligned_iff_dvd unat_word_ariths(1) unat_slot_offset dvd_mod)
qed

lemma slot_inject: "i < 512 \<Longrightarrow> j < 512 \<Longrightarrow> slot pt i = slot pt j \<longleftrightarrow> i = j"
proof
  assume a: "i < 512" "j < 512" "slot pt i = slot pt j"
  then have "unat (8 * i) = unat (8 * j)" by (simp add: slot_def)
  with a show "i = j" by (simp add: unat_slot_offset word_unat_eq_iff)
qed simp

lemma slot_nonzero: "ram_page pt \<Longrightarrow> i < 512 \<Longrightarrow> slot pt i \<noteq> 0"
proof
  assume a: "ram_page pt" "i < 512" "slot pt i = 0"
  then have "page_no pt = page_no 0" using slot_page(1) [of pt i] ram_page_aligned by metis
  then have "pt = 0" using aligned_eq_iff [of 12 pt 0] ram_page_aligned [OF a(1)] by simp
  with a(1) show False using ram_page_nonzero by blast
qed

lemma page_no_inject: "ram_page p \<Longrightarrow> ram_page q \<Longrightarrow> page_no p = page_no q \<longleftrightarrow> p = q"
  by (simp add: aligned_eq_iff ram_page_aligned)

section \<open>Trees of tables\<close>

definition ent :: "memory \<Rightarrow> u64 \<Rightarrow> u64 \<Rightarrow> u64" where
  "ent m pt i = ld64 m (slot pt i)"

abbreviation valid :: "memory \<Rightarrow> u64 \<Rightarrow> u64 \<Rightarrow> bool" where
  "valid m pt i \<equiv> bit (ent m pt i) 0"

abbreviation child :: "memory \<Rightarrow> u64 \<Rightarrow> u64 \<Rightarrow> u64" where
  "child m pt i \<equiv> PTE2PA (ent m pt i)"

fun tabs :: "memory \<Rightarrow> nat \<Rightarrow> u64 \<Rightarrow> u64 set" where
  "tabs m 0 pt = {pt}"
| "tabs m (Suc l) pt = insert pt (\<Union>i \<in> {i. i < 512 \<and> valid m pt i}. tabs m l (child m pt i))"

fun wf_tab :: "memory \<Rightarrow> nat \<Rightarrow> u64 \<Rightarrow> bool" where
  "wf_tab m 0 pt \<longleftrightarrow> ram_page pt"
| "wf_tab m (Suc l) pt \<longleftrightarrow> ram_page pt \<and>
     (\<forall>i. i < 512 \<and> valid m pt i \<longrightarrow> wf_tab m l (child m pt i) \<and> pt \<notin> tabs m l (child m pt i)) \<and>
     (\<forall>i j. i < 512 \<and> j < 512 \<and> i \<noteq> j \<and> valid m pt i \<and> valid m pt j \<longrightarrow>
        tabs m l (child m pt i) \<inter> tabs m l (child m pt j) = {})"

fun leaf_addr :: "memory \<Rightarrow> nat \<Rightarrow> u64 \<Rightarrow> u64 \<Rightarrow> u64" where
  "leaf_addr m 0 pt va = slot pt (PX 0 va)"
| "leaf_addr m (Suc l) pt va =
     (if valid m pt (PX (Suc l) va) then leaf_addr m l (child m pt (PX (Suc l) va)) va else 0)"

definition leaf :: "memory \<Rightarrow> nat \<Rightarrow> u64 \<Rightarrow> u64 \<Rightarrow> u64" where
  "leaf m l pt va = (if leaf_addr m l pt va = 0 then 0 else ld64 m (leaf_addr m l pt va))"

text \<open>Two memories agree on a set of pages.\<close>

definition agree :: "u64 set \<Rightarrow> memory \<Rightarrow> memory \<Rightarrow> bool" where
  "agree P m m' \<longleftrightarrow> (\<forall>a. page_no a \<in> page_no ` P \<longrightarrow> m' a = m a)"

lemma agree_mono: "agree P m m' \<Longrightarrow> Q \<subseteq> P \<Longrightarrow> agree Q m m'"
  by (auto simp: agree_def)

lemma agree_off:
  assumes "\<forall>a. page_no a \<notin> page_no ` Q \<longrightarrow> m' a = m a" "P \<inter> Q = {}" "\<forall>q \<in> P \<union> Q. ram_page q"
  shows "agree P m m'"
  unfolding agree_def
proof (intro allI impI)
  fix a assume "page_no a \<in> page_no ` P"
  then obtain p where p: "p \<in> P" "page_no a = page_no p" by auto
  have "page_no p \<noteq> page_no q" if "q \<in> Q" for q using p(1) that assms(2,3) page_no_inject [of p q] by auto
  then have "page_no a \<notin> page_no ` Q" using p(2) by auto
  then show "m' a = m a" using assms(1) by blast
qed

lemma child_tabs: "i < 512 \<Longrightarrow> valid m pt i \<Longrightarrow> tabs m l (child m pt i) \<subseteq> tabs m (Suc l) pt"
  by auto

lemma wf_tab_ram: "wf_tab m l pt \<Longrightarrow> p \<in> tabs m l pt \<Longrightarrow> ram_page p"
  by (induction l arbitrary: pt) auto

lemma wf_tab_root: "wf_tab m l pt \<Longrightarrow> ram_page pt \<and> pt \<in> tabs m l pt"
  by (cases l) auto

lemma ent_agree:
  assumes "agree P m m'" "pt \<in> P" "ram_page pt" "i < 512"
  shows "ent m' pt i = ent m pt i"
  unfolding ent_def
  by (rule ld64_same_page) (use assms slot_page [OF ram_page_aligned [OF assms(3)] assms(4)] in \<open>auto simp: agree_def\<close>)

lemma tabs_agree:
  "wf_tab m l pt \<Longrightarrow> agree (tabs m l pt) m m' \<Longrightarrow> tabs m' l pt = tabs m l pt \<and> wf_tab m' l pt \<and>
     leaf_addr m' l pt va = leaf_addr m l pt va"
proof (induction l arbitrary: pt)
  case (Suc l)
  have root: "ram_page pt" "pt \<in> tabs m (Suc l) pt" using Suc.prems(1) by auto
  have e: "ent m' pt i = ent m pt i" if "i < 512" for i
    using ent_agree [OF Suc.prems(2) root(2,1) that] .
  have IH: "tabs m' l (child m pt i) = tabs m l (child m pt i) \<and> wf_tab m' l (child m pt i) \<and>
      leaf_addr m' l (child m pt i) va = leaf_addr m l (child m pt i) va" if "i < 512" "valid m pt i" for i
  proof (rule Suc.IH)
    show "wf_tab m l (child m pt i)" using Suc.prems(1) that by auto
    show "agree (tabs m l (child m pt i)) m m'" by (rule agree_mono [OF Suc.prems(2)]) (use that in auto)
  qed
  show ?case
    using Suc.prems(1) e IH PX_less [of "Suc l" va] by (auto cong: conj_cong)
qed auto

lemma leaf_agree:
  assumes "wf_tab m l pt" "agree (tabs m l pt) m m'"
  shows "leaf m' l pt va = leaf m l pt va"
proof -
  have a: "leaf_addr m' l pt va = leaf_addr m l pt va" using tabs_agree [OF assms] by blast
  have "\<exists>t \<in> tabs m l pt. leaf_addr m l pt va = slot t (PX 0 va)" if "leaf_addr m l pt va \<noteq> 0"
    using that PX_less by (induction l arbitrary: pt) (auto split: if_splits, blast)
  then show ?thesis
    using a assms wf_tab_ram ent_agree [OF assms(2) _ _ PX_less] by (fastforce simp: leaf_def ent_def)
qed

lemma walk_find: "walk_loop l pt va False s = (leaf_addr (mem s) l pt va, s)"
  by (induction l arbitrary: pt) (auto simp: ent_def Let_def)

text \<open>On a path that is already there \<^verbatim>\<open>walk\<close> allocates nothing.\<close>

lemma walk_known: "leaf_addr (mem s) l pt va \<noteq> 0 \<Longrightarrow> walk_loop l pt va True s = (leaf_addr (mem s) l pt va, s)"
  by (induction l arbitrary: pt) (auto simp: ent_def Let_def split: if_splits)

lemma leaf_addr_slot:
  "wf_tab m l pt \<Longrightarrow> leaf_addr m l pt va \<noteq> 0 \<Longrightarrow>
   \<exists>t \<in> tabs m l pt. ram_page t \<and> leaf_addr m l pt va = slot t (PX 0 va)"
proof (induction l arbitrary: pt)
  case (Suc l)
  then show ?case using PX_less [of "Suc l" va] by (fastforce split: if_splits)
qed auto

lemma leaf_addr_page:
  assumes "wf_tab m l pt" "leaf_addr m l pt va \<noteq> 0"
  shows "page_no (leaf_addr m l pt va) \<in> page_no ` tabs m l pt" "take_bit 3 (leaf_addr m l pt va) = 0"
proof -
  obtain t where "t \<in> tabs m l pt" "ram_page t" "leaf_addr m l pt va = slot t (PX 0 va)"
    using leaf_addr_slot [OF assms] by blast
  then show "page_no (leaf_addr m l pt va) \<in> page_no ` tabs m l pt" "take_bit 3 (leaf_addr m l pt va) = 0"
    using slot_page [OF ram_page_aligned PX_less] by auto
qed

lemma st64_agree:
  assumes "take_bit 3 p = 0" "page_no p \<notin> page_no ` P"
  shows "agree P m (st64 m p v)"
  unfolding agree_def using assms(2) by (intro allI impI st64_page assms(1)) auto

subsection \<open>Writing through the pointer\<close>

definition same_leaf :: "nat \<Rightarrow> u64 \<Rightarrow> u64 \<Rightarrow> bool" where
  "same_leaf l va va' \<longleftrightarrow> (\<forall>k \<le> l. PX k va' = PX k va)"

lemma page_image: "(\<forall>x \<in> P. ram_page x) \<Longrightarrow> ram_page p \<Longrightarrow> page_no p \<in> page_no ` P \<longleftrightarrow> p \<in> P"
  by (auto simp: page_no_inject)

lemma leaf_write:
  "wf_tab m l pt \<Longrightarrow> p = leaf_addr m l pt va \<Longrightarrow> p \<noteq> 0 \<Longrightarrow>
   tabs (st64 m p v) l pt = tabs m l pt \<and> wf_tab (st64 m p v) l pt \<and>
   leaf_addr (st64 m p v) l pt va' = leaf_addr m l pt va' \<and>
   leaf (st64 m p v) l pt va' = (if same_leaf l va va' then v else leaf m l pt va')"
proof (induction l arbitrary: pt)
  case 0
  have al: "take_bit 3 (slot pt i) = 0" if "i < 512" for i
    using slot_page(2) [OF ram_page_aligned that] 0 by simp
  have "slot pt (PX 0 va') \<noteq> 0" using 0 slot_nonzero PX_less by simp
  moreover have "ld64 (st64 m p v) (slot pt (PX 0 va')) = (if PX 0 va' = PX 0 va then v else ld64 m (slot pt (PX 0 va')))"
    using 0 al [OF PX_less] slot_inject [of "PX 0 va'" "PX 0 va" pt] PX_less by (auto simp: ld64_st64_other)
  ultimately show ?case using 0 by (simp add: leaf_def same_leaf_def)
next
  case (Suc l)
  let ?m = "st64 m p v" and ?i = "PX (Suc l) va"
  let ?c = "child m pt ?i"
  have i: "?i < 512" "valid m pt ?i" "p = leaf_addr m l ?c va" using Suc.prems PX_less by (auto split: if_splits)
  have wc: "wf_tab m l ?c" "pt \<notin> tabs m l ?c" "ram_page pt" using Suc.prems(1) i by auto
  note pg = leaf_addr_page [OF wc(1), of va, folded i(3), OF Suc.prems(3)]
  have outside: "agree P m ?m" if "\<forall>x \<in> P. ram_page x" "P \<inter> tabs m l ?c = {}" for P
    by (rule st64_agree) (use pg that wf_tab_ram [OF wc(1)] in \<open>auto simp: page_no_inject\<close>)
  have e: "ent ?m pt j = ent m pt j" if "j < 512" for j
    using ent_agree [OF outside [of "{pt}"]] wc that by auto
  have IH: "tabs ?m l ?c = tabs m l ?c \<and> wf_tab ?m l ?c \<and> leaf_addr ?m l ?c va' = leaf_addr m l ?c va' \<and>
      leaf ?m l ?c va' = (if same_leaf l va va' then v else leaf m l ?c va')"
    using Suc.IH [OF wc(1) i(3) Suc.prems(3)] .
  have other: "tabs ?m l (child m pt j) = tabs m l (child m pt j) \<and> wf_tab ?m l (child m pt j) \<and>
      leaf_addr ?m l (child m pt j) va' = leaf_addr m l (child m pt j) va' \<and>
      leaf ?m l (child m pt j) va' = leaf m l (child m pt j) va'" if "j < 512" "valid m pt j" "j \<noteq> ?i" for j
  proof -
    have w: "wf_tab m l (child m pt j)" "tabs m l (child m pt j) \<inter> tabs m l ?c = {}"
      using Suc.prems(1) that i by auto
    have "agree (tabs m l (child m pt j)) m ?m" using outside wf_tab_ram [OF w(1)] w(2) by blast
    then show ?thesis using tabs_agree [OF w(1)] leaf_agree [OF w(1)] by blast
  qed
  have all: "tabs ?m l (child m pt j) = tabs m l (child m pt j) \<and> wf_tab ?m l (child m pt j) \<and>
      leaf_addr ?m l (child m pt j) va' = leaf_addr m l (child m pt j) va'" if "j < 512" "valid m pt j" for j
    using IH other that by (cases "j = ?i") auto
  have t: "tabs ?m (Suc l) pt = tabs m (Suc l) pt" using e all by (auto cong: conj_cong)
  moreover have "wf_tab ?m (Suc l) pt" using Suc.prems(1) e all by (auto cong: conj_cong)
  moreover have la: "leaf_addr ?m (Suc l) pt va' = leaf_addr m (Suc l) pt va'"
    using e [OF PX_less] all [OF PX_less] by auto
  moreover have "leaf ?m (Suc l) pt va' = (if same_leaf (Suc l) va va' then v else leaf m (Suc l) pt va')"
  proof -
    have sl: "same_leaf (Suc l) va va' \<longleftrightarrow> PX (Suc l) va' = ?i \<and> same_leaf l va va'"
      by (auto simp: same_leaf_def le_Suc_eq)
    have step: "leaf n (Suc l) pt va' = (if valid n pt (PX (Suc l) va') then leaf n l (child n pt (PX (Suc l) va')) va' else 0)" for n
      by (simp add: leaf_def)
    show ?thesis
      unfolding step e [OF PX_less] sl using IH other [OF PX_less, of "Suc l" va'] i(2)
      by (cases "PX (Suc l) va' = ?i") auto
  qed
  ultimately show ?case by blast
qed

subsection \<open>Walking with allocation\<close>

text \<open>
  What \<^verbatim>\<open>walk\<close> with allocation did to the state: it took the pages \<open>ys\<close> off the free list, made
  them tables of the tree, wrote nowhere else and changed no leaf.
\<close>

definition grown :: "nat \<Rightarrow> u64 \<Rightarrow> u64 list \<Rightarrow> u64 list \<Rightarrow> 'a kmem_scheme \<Rightarrow> 'a kmem_scheme \<Rightarrow> bool" where
  "grown l pt ys zs s s' \<longleftrightarrow> kmem_ok s' zs \<and> wf_tab (mem s') l pt \<and>
     tabs (mem s') l pt = tabs (mem s) l pt \<union> set ys \<and>
     (\<forall>va. leaf (mem s') l pt va = leaf (mem s) l pt va) \<and>
     refs s' = (\<lambda>q. if q \<in> set ys then 1 else refs s q) \<and>
     (\<forall>a. page_no a \<notin> page_no ` (tabs (mem s) l pt \<union> set ys) \<longrightarrow> mem s' a = mem s a) \<and>
     kmem.more s' = kmem.more s"

definition owned :: "nat \<Rightarrow> u64 \<Rightarrow> 'a kmem_scheme \<Rightarrow> bool" where
  "owned l pt s \<longleftrightarrow> wf_tab (mem s) l pt \<and> (\<forall>q \<in> tabs (mem s) l pt. 0 < refs s q)"

lemma owned_not_free: "kmem_ok s xs \<Longrightarrow> owned l pt s \<Longrightarrow> tabs (mem s) l pt \<inter> set xs = {}"
  using kmem_ok_free_iff by (fastforce simp: owned_def)

lemma grown_refl: "kmem_ok s xs \<Longrightarrow> owned l pt s \<Longrightarrow> grown l pt [] xs s s"
  by (simp add: grown_def owned_def)

lemma grown_owned: "owned l pt s \<Longrightarrow> grown l pt ys zs s s' \<Longrightarrow> owned l pt s'"
  by (auto simp: owned_def grown_def)

lemma grown_trans:
  assumes "grown l pt ys (zs @ ws) s s'" "grown l pt zs ws s' s''"
  shows "grown l pt (ys @ zs) ws s s''"
  using assms unfolding grown_def by (auto simp: fun_eq_iff image_Un)

text \<open>A zero page is an empty table of any level.\<close>

lemma zero_table:
  assumes "ram_page x" "\<forall>a. page_no a = page_no x \<longrightarrow> m a = 0"
  shows "tabs m l x = {x}" "wf_tab m l x" "leaf m l x va = 0"
proof -
  have e: "ent m x i = 0" if "i < 512" for i
  proof -
    have "ld64 m (slot x i) = ld64 (\<lambda>_. 0) (slot x i)"
      by (rule ld64_same_page) (use assms slot_page [OF ram_page_aligned that] in auto)
    then show ?thesis by (simp add: ent_def ld64_def un_le64_def)
  qed
  show "tabs m l x = {x}" using e by (cases l) auto
  show "wf_tab m l x" using e assms(1) by (cases l) auto
  show "leaf m l x va = 0"
    using e [OF PX_less] by (cases l) (auto simp: leaf_def ent_def)
qed

text \<open>One missing table is added.\<close>

text \<open>
  A zeroed page \<open>x\<close> is put into an empty slot of a table: \<open>attached m m' l pt i x\<close> says how the two memories differ.
\<close>

definition attached :: "memory \<Rightarrow> memory \<Rightarrow> nat \<Rightarrow> u64 \<Rightarrow> u64 \<Rightarrow> u64 \<Rightarrow> bool" where
  "attached m m' l pt i x \<longleftrightarrow> wf_tab m (Suc l) pt \<and> i < 512 \<and> \<not> valid m pt i \<and> ram_page x \<and> x \<notin> tabs m (Suc l) pt \<and>
     (\<forall>a. page_no a \<noteq> page_no pt \<longrightarrow> m' a = (if page_no a = page_no x then 0 else m a)) \<and>
     (\<forall>j < 512. ent m' pt j = (if j = i then PA2PTE x OR PTE_V else ent m pt j))"

lemma table_entry_PA: "ram_page x \<Longrightarrow> PTE2PA (PA2PTE x OR PTE_V) = x"
  by (rule PTE2PA_make) (simp_all add: ram_page_aligned PTE_V_def)

lemma attached_mem:
  fixes m pt i x
  defines "m' \<equiv> st64 (set_loop m x 0 4096) (slot pt i) (PA2PTE x OR PTE_V)"
  assumes "wf_tab m (Suc l) pt" "i < 512" "\<not> valid m pt i" "ram_page x" "x \<notin> tabs m (Suc l) pt"
  shows "attached m m' l pt i x"
proof -
  have pt: "ram_page pt" "page_no x \<noteq> page_no pt" using assms(2,5,6) by (auto simp: page_no_inject)
  note sl = slot_page [OF ram_page_aligned [OF pt(1)] assms(3)]
  note z = zero_page_eq [OF ram_page_aligned [OF assms(5)], of m 0]
  have "m' a = (if page_no a = page_no x then 0 else m a)" if "page_no a \<noteq> page_no pt" for a
    using that sl z by (simp add: m'_def st64_page)
  moreover have "ent m' pt j = (if j = i then PA2PTE x OR PTE_V else ent m pt j)" if "j < 512" for j
  proof (cases "j = i")
    case False
    note sj = slot_page [OF ram_page_aligned [OF pt(1)] that]
    have "ld64 (st64 (set_loop m x 0 4096) (slot pt i) v) (slot pt j) = ld64 (set_loop m x 0 4096) (slot pt j)" for v
      using sl sj slot_inject [OF assms(3) that, of pt] False by (intro ld64_st64_other) auto
    also have "ld64 (set_loop m x 0 4096) (slot pt j) = ld64 m (slot pt j)" using sj pt(2) z by (intro ld64_same_page) auto
    finally show ?thesis using False by (simp add: ent_def m'_def)
  qed (simp add: ent_def m'_def)
  ultimately show ?thesis using assms(2-6) by (simp add: attached_def)
qed

lemma attached_children:
  assumes a: "attached m m' l pt i x" and j: "j < 512"
  shows "valid m' pt j \<longleftrightarrow> j = i \<or> valid m pt j" "child m' pt j = (if j = i then x else child m pt j)"
    "j = i \<or> valid m pt j \<Longrightarrow> tabs m' l (child m' pt j) = (if j = i then {x} else tabs m l (child m pt j))"
    "j = i \<or> valid m pt j \<Longrightarrow> wf_tab m' l (child m' pt j)"
    "j = i \<or> valid m pt j \<Longrightarrow> leaf m' l (child m' pt j) va = (if j = i then 0 else leaf m l (child m pt j) va)"
proof -
  have x: "ram_page x" and wf: "wf_tab m (Suc l) pt" and xnew: "x \<notin> tabs m (Suc l) pt"
    and e: "ent m' pt j = (if j = i then PA2PTE x OR PTE_V else ent m pt j)"
    and n: "\<And>b. page_no b \<noteq> page_no pt \<Longrightarrow> m' b = (if page_no b = page_no x then 0 else m b)"
    using a j by (auto simp: attached_def)
  have pt: "ram_page pt" "page_no x \<noteq> page_no pt" using wf x xnew by (auto simp: page_no_inject)
  show "valid m' pt j \<longleftrightarrow> j = i \<or> valid m pt j" using e by (simp add: bit_make_low)
  show c: "child m' pt j = (if j = i then x else child m pt j)" using e x by (simp add: table_entry_PA)
  have z: "tabs m' l x = {x}" "wf_tab m' l x" "leaf m' l x va = 0"
    using zero_table [OF x, of m'] n pt(2) by auto
  have sub: "tabs m' l (child m pt j) = tabs m l (child m pt j)" "wf_tab m' l (child m pt j)"
      "leaf m' l (child m pt j) va = leaf m l (child m pt j) va" if "valid m pt j"
  proof -
    have w: "wf_tab m l (child m pt j)" "pt \<notin> tabs m l (child m pt j)" "x \<notin> tabs m l (child m pt j)"
      using wf that j xnew by auto
    have "\<forall>b. page_no b \<notin> page_no ` {pt, x} \<longrightarrow> m' b = m b" using n by auto
    then have "agree (tabs m l (child m pt j)) m m'"
      by (rule agree_off) (use w wf_tab_ram [OF w(1)] x pt(1) in auto)
    then show "tabs m' l (child m pt j) = tabs m l (child m pt j)" "wf_tab m' l (child m pt j)"
      "leaf m' l (child m pt j) va = leaf m l (child m pt j) va" using tabs_agree [OF w(1)] leaf_agree [OF w(1)] by blast+
  qed
  assume "j = i \<or> valid m pt j"
  then show "tabs m' l (child m' pt j) = (if j = i then {x} else tabs m l (child m pt j))" "wf_tab m' l (child m' pt j)"
    "leaf m' l (child m' pt j) va = (if j = i then 0 else leaf m l (child m pt j) va)"
    using c z sub by auto
qed

lemma attached_tree:
  assumes a: "attached m m' l pt i x"
  shows "tabs m' (Suc l) pt = tabs m (Suc l) pt \<union> {x}" "wf_tab m' (Suc l) pt" "leaf m' (Suc l) pt va = leaf m (Suc l) pt va"
proof -
  note ch = attached_children [OF a]
  have i: "i < 512" "\<not> valid m pt i" and wf: "wf_tab m (Suc l) pt" and x: "x \<notin> tabs m (Suc l) pt" "ram_page x"
    using a by (simp_all add: attached_def)
  show "tabs m' (Suc l) pt = tabs m (Suc l) pt \<union> {x}" using ch(1,3) i by (auto split: if_splits)
  have old: "x \<notin> tabs m l (child m pt j)" "pt \<notin> tabs m l (child m pt j)" "wf_tab m l (child m pt j)" if "j < 512" "valid m pt j" for j
    using x wf that by auto
  have disj: "tabs m' l (child m' pt j) \<inter> tabs m' l (child m' pt k) = {}"
    if "j < 512" "k < 512" "j \<noteq> k" "valid m' pt j" "valid m' pt k" for j k
    using that ch(1,3) old(1) wf by (cases "j = i \<or> k = i") auto
  have "pt \<notin> tabs m' l (child m' pt j)" if "j < 512" "valid m' pt j" for j
    using that ch(1,3) old(2) x wf by (auto split: if_splits)
  moreover have "wf_tab m' l (child m' pt j)" if "j < 512" "valid m' pt j" for j using ch(1,4) that by blast
  ultimately show "wf_tab m' (Suc l) pt" using disj wf by simp
  have step: "leaf k (Suc l) pt va = (if valid k pt (PX (Suc l) va) then leaf k l (child k pt (PX (Suc l) va)) va else 0)" for k
    by (simp add: leaf_def)
  show "leaf m' (Suc l) pt va = leaf m (Suc l) pt va"
    unfolding step using ch(1,5) [OF PX_less] i(2) by auto
qed

lemma grow_step:
  assumes k: "kmem_ok s (x # xs)" and o: "owned (Suc l) pt s" and i: "i < 512" "\<not> valid (mem s) pt i"
  defines "s1 \<equiv> snd (kalloc s)"
  defines "s2 \<equiv> s1\<lparr>mem := st64 (set_loop (mem s1) x 0 4096) (slot pt i) (PA2PTE x OR PTE_V)\<rparr>"
  shows "kalloc s = (x, s1)" "x \<noteq> 0" "grown (Suc l) pt [x] xs s s2" "ent (mem s2) pt i = PA2PTE x OR PTE_V"
    "PTE2PA (PA2PTE x OR PTE_V) = x"
proof -
  have s1: "kalloc s = (x, s1)" "mem s1 = mem s" "kmem_ok s1 xs" "refs s1 = (refs s)(x := 1)" "kmem.more s1 = kmem.more s"
    using kalloc_Cons [OF k] by (simp_all add: s1_def)
  then show "kalloc s = (x, s1)" by simp
  have x: "ram_page x" "refs s x = 0" using k kmem_ok_free_iff [OF k] by (auto simp: kmem_ok_def)
  then show "x \<noteq> 0" "PTE2PA (PA2PTE x OR PTE_V) = x" by (simp_all add: ram_page_nonzero table_entry_PA)
  have wf: "wf_tab (mem s) (Suc l) pt" and held: "\<forall>q \<in> tabs (mem s) (Suc l) pt. 0 < refs s q"
    using o by (auto simp: owned_def)
  have pt: "ram_page pt" using wf by simp
  have "x \<notin> tabs (mem s) (Suc l) pt" using held x(2) by (metis less_irrefl)
  then have a: "attached (mem s) (mem s2) l pt i x" using attached_mem [OF wf i x(1)] s1(2) by (simp add: s2_def)
  then show "ent (mem s2) pt i = PA2PTE x OR PTE_V" using i by (simp add: attached_def)
  have n: "mem s2 b = (if page_no b = page_no x then 0 else mem s b)" if "page_no b \<noteq> page_no pt" for b
    using a that by (simp add: attached_def)
  have "ld64 (mem s2) y = ld64 (mem s) y" if "y \<in> set xs" for y
  proof -
    have y: "ram_page y" "y \<noteq> x" "refs s y = 0" using that k kmem_ok_free_iff [OF k] by (auto simp: kmem_ok_def)
    then have "y \<noteq> pt" using held wf_tab_root [OF wf] by auto
    then show ?thesis using y x(1) pt n by (intro ld64_same_page ram_page_dword) (auto simp: page_no_inject)
  qed
  then have "chain (mem s2) (freelist s1) xs = chain (mem s) (freelist s1) xs" by (rule chain_cong)
  then have "kmem_ok s2 xs" using s1(2,3) by (simp add: kmem_ok_def s2_def)
  moreover have "refs s2 = refs s1" by (simp add: s2_def refs_def fun_eq_iff)
  then have "refs s2 = (\<lambda>q. if q \<in> set [x] then 1 else refs s q)" using s1(4) by (simp add: fun_eq_iff)
  moreover have "\<forall>b. page_no b \<notin> page_no ` (tabs (mem s) (Suc l) pt \<union> set [x]) \<longrightarrow> mem s2 b = mem s b"
    using n by (auto simp: image_iff)
  moreover have "kmem.more s2 = kmem.more s" using s1(5) by (simp add: s2_def)
  ultimately show "grown (Suc l) pt [x] xs s s2"
    using attached_tree [OF a] by (simp add: grown_def)
qed

text \<open>Growth of a subtree is growth of the tree.\<close>

text \<open>A table that grows below slot \<open>i\<close> leaves the root's entries and the trees below the other slots alone.\<close>

lemma grown_sibling:
  assumes k: "kmem_ok s (ys @ zs)" and o: "owned (Suc l) pt s" and i: "i < 512" "valid (mem s) pt i"
    and g: "grown l (child (mem s) pt i) ys zs s s'" and j: "j < 512"
  shows "pt \<notin> set ys" "ent (mem s') pt j = ent (mem s) pt j"
    "valid (mem s) pt j \<Longrightarrow> j \<noteq> i \<Longrightarrow> tabs (mem s') l (child (mem s) pt j) = tabs (mem s) l (child (mem s) pt j) \<and>
      wf_tab (mem s') l (child (mem s) pt j) \<and> (\<forall>va. leaf (mem s') l (child (mem s) pt j) va = leaf (mem s) l (child (mem s) pt j) va) \<and>
      tabs (mem s) l (child (mem s) pt j) \<inter> (tabs (mem s) l (child (mem s) pt i) \<union> set ys) = {}"
proof -
  let ?m = "mem s" and ?n = "mem s'" and ?c = "child (mem s) pt i" and ?d = "child (mem s) pt j"
  have wf: "wf_tab ?m (Suc l) pt" and held: "\<And>q. q \<in> tabs ?m (Suc l) pt \<Longrightarrow> 0 < refs s q" using o by (auto simp: owned_def)
  have fresh: "refs s y = 0 \<and> ram_page y" if "y \<in> set ys" for y
    using that k kmem_ok_free_iff [OF k] by (auto simp: kmem_ok_def)
  show py: "pt \<notin> set ys" using held wf_tab_root [OF wf] fresh by fastforce
  have pt: "ram_page pt" "pt \<notin> tabs ?m l ?c" "wf_tab ?m l ?c" using wf i by auto
  have out: "agree P ?m ?n" if "\<forall>q \<in> P. ram_page q" "P \<inter> (tabs ?m l ?c \<union> set ys) = {}" for P
    by (rule agree_off [where Q = "tabs ?m l ?c \<union> set ys"])
      (use that g wf_tab_ram [OF pt(3)] fresh in \<open>auto simp: grown_def\<close>)
  show "ent ?n pt j = ent ?m pt j" using ent_agree [OF out [of "{pt}"]] pt py j by auto
  assume v: "valid ?m pt j" "j \<noteq> i"
  have w: "wf_tab ?m l ?d" "tabs ?m l ?d \<inter> tabs ?m l ?c = {}" "tabs ?m l ?d \<subseteq> tabs ?m (Suc l) pt"
    using wf j v i child_tabs by auto
  have "q \<notin> set ys" if "q \<in> tabs ?m l ?d" for q using held [OF subsetD [OF w(3) that]] fresh [of q] by auto
  then have "tabs ?m l ?d \<inter> set ys = {}" by blast
  with w(2) have d: "tabs ?m l ?d \<inter> (tabs ?m l ?c \<union> set ys) = {}" by blast
  have "agree (tabs ?m l ?d) ?m ?n" using out wf_tab_ram [OF w(1)] d by blast
  then show "tabs ?n l ?d = tabs ?m l ?d \<and> wf_tab ?n l ?d \<and> (\<forall>va. leaf ?n l ?d va = leaf ?m l ?d va) \<and>
      tabs ?m l ?d \<inter> (tabs ?m l ?c \<union> set ys) = {}"
    using tabs_agree [OF w(1)] leaf_agree [OF w(1)] d by blast
qed

lemma grow_child:
  assumes k: "kmem_ok s (ys @ zs)" and o: "owned (Suc l) pt s" and i: "i < 512" "valid (mem s) pt i"
    and g: "grown l (child (mem s) pt i) ys zs s s'"
  shows "grown (Suc l) pt ys zs s s'" "ent (mem s') pt i = ent (mem s) pt i"
proof -
  let ?m = "mem s" and ?n = "mem s'" and ?c = "child (mem s) pt i"
  have wf: "wf_tab ?m (Suc l) pt" using o by (simp add: owned_def)
  note sib = grown_sibling [OF k o i g]
  have pt: "ram_page pt" "pt \<notin> tabs ?m l ?c" "pt \<notin> set ys" using wf i sib(1) by auto
  note gr = g [unfolded grown_def] and e = sib(2) and sub = sib(3)
  show "ent ?n pt i = ent ?m pt i" using e i by simp
  have ci: "tabs ?n l ?c = tabs ?m l ?c \<union> set ys" "wf_tab ?n l ?c" "\<forall>va. leaf ?n l ?c va = leaf ?m l ?c va"
    using gr by blast+
  have tj: "tabs ?n l (child ?m pt j) = (if j = i then tabs ?m l ?c \<union> set ys else tabs ?m l (child ?m pt j))"
    if "j < 512" "valid ?m pt j" for j using sub [OF that] ci by auto
  have tabs': "tabs ?n (Suc l) pt = tabs ?m (Suc l) pt \<union> set ys"
  proof -
    have "(\<Union>j \<in> {j. j < 512 \<and> valid ?m pt j}. tabs ?n l (child ?m pt j)) =
        (\<Union>j \<in> {j. j < 512 \<and> valid ?m pt j}. tabs ?m l (child ?m pt j)) \<union> set ys"
      using tj i by (auto split: if_splits)
    moreover have "tabs ?n (Suc l) pt = insert pt (\<Union>j \<in> {j. j < 512 \<and> valid ?m pt j}. tabs ?n l (child ?m pt j))"
      using e by (auto cong: conj_cong)
    ultimately show ?thesis by simp
  qed
  have wf': "wf_tab ?n (Suc l) pt"
  proof -
    have "wf_tab ?n l (child ?m pt j) \<and> pt \<notin> tabs ?n l (child ?m pt j)" if "j < 512" "valid ?m pt j" for j
      using wf that sub [OF that] ci pt by (cases "j = i") auto
    moreover have "tabs ?n l (child ?m pt j) \<inter> tabs ?n l (child ?m pt k) = {}"
      if "j < 512" "k < 512" "j \<noteq> k" "valid ?m pt j" "valid ?m pt k" for j k
      using wf that sub [of j] sub [of k] ci by (cases "j = i"; cases "k = i") (auto simp: tj)
    ultimately show ?thesis using e pt(1) by (simp cong: conj_cong)
  qed
  have leafs: "leaf ?n (Suc l) pt va = leaf ?m (Suc l) pt va" for va
  proof -
    have step: "leaf k (Suc l) pt va = (if valid k pt (PX (Suc l) va) then leaf k l (child k pt (PX (Suc l) va)) va else 0)" for k
      by (simp add: leaf_def)
    show ?thesis unfolding step e [OF PX_less] using sub [OF PX_less, of "Suc l" va] ci(3)
      by (cases "PX (Suc l) va = i") auto
  qed
  have "tabs ?m l ?c \<subseteq> tabs ?m (Suc l) pt" using i by auto
  then have "\<forall>a. page_no a \<notin> page_no ` (tabs ?m (Suc l) pt \<union> set ys) \<longrightarrow> ?n a = ?m a"
    using gr by blast
  with gr tabs' wf' leafs show "grown (Suc l) pt ys zs s s'" by (simp add: grown_def)
qed

lemma walk_child:
  assumes IH: "\<And>pt s xs. kmem_ok s xs \<Longrightarrow> owned l pt s \<Longrightarrow> walk_loop l pt va True s = (p, s') \<Longrightarrow>
      \<exists>ys zs. xs = ys @ zs \<and> length ys \<le> l \<and> grown l pt ys zs s s' \<and> (if p = 0 then zs = [] else p = leaf_addr (mem s') l pt va)"
    and k: "kmem_ok s xs" and o: "owned (Suc l) pt s" and v: "valid (mem s) pt (PX (Suc l) va)"
    and w: "walk_loop l (child (mem s) pt (PX (Suc l) va)) va True s = (p, s')"
  shows "\<exists>ys zs. xs = ys @ zs \<and> length ys \<le> l \<and> grown (Suc l) pt ys zs s s' \<and>
     (if p = 0 then zs = [] else p = leaf_addr (mem s') (Suc l) pt va)"
proof -
  let ?i = "PX (Suc l) va"
  have oc: "owned l (child (mem s) pt ?i) s"
    using o v child_tabs [OF PX_less v, of l] by (auto simp: owned_def PX_less simp del: tabs.simps)
  from IH [OF k oc w] obtain ys zs where g: "xs = ys @ zs" "length ys \<le> l" "grown l (child (mem s) pt ?i) ys zs s s'"
      "if p = 0 then zs = [] else p = leaf_addr (mem s') l (child (mem s) pt ?i) va" by blast
  have "grown (Suc l) pt ys zs s s'" "ent (mem s') pt ?i = ent (mem s) pt ?i"
    using grow_child [OF _ o PX_less v g(3)] k g(1) by auto
  then show ?thesis using g v by (intro exI [of _ ys] exI [of _ zs]) auto
qed

lemma walk_alloc_ok:
  "kmem_ok s xs \<Longrightarrow> owned l pt s \<Longrightarrow> walk_loop l pt va True s = (p, s') \<Longrightarrow>
   \<exists>ys zs. xs = ys @ zs \<and> length ys \<le> l \<and> grown l pt ys zs s s' \<and>
     (if p = 0 then zs = [] else p = leaf_addr (mem s') l pt va)"
proof (induction l arbitrary: pt s xs p s')
  case 0
  then show ?case
    using slot_nonzero [OF _ PX_less, of pt] grown_refl [of s xs 0 pt]
    by (intro exI [of _ "[]"] exI [of _ xs]) (auto simp: owned_def)
next
  case (Suc l)
  let ?i = "PX (Suc l) va"
  have valid_case: "\<exists>ys zs. xs = ys @ zs \<and> length ys \<le> l \<and> grown (Suc l) pt ys zs s s' \<and>
     (if p = 0 then zs = [] else p = leaf_addr (mem s') (Suc l) pt va)"
    if "kmem_ok s xs" "owned (Suc l) pt s" "valid (mem s) pt ?i" "walk_loop l (child (mem s) pt ?i) va True s = (p, s')" for s xs
    by (rule walk_child [OF _ that]) (rule Suc.IH)
  show ?case
  proof (cases "valid (mem s) pt ?i")
    case True
    then have "walk_loop l (child (mem s) pt ?i) va True s = (p, s')"
      using Suc.prems(3) by (simp add: ent_def Let_def)
    from valid_case [OF Suc.prems(1,2) True this] obtain ys zs where "xs = ys @ zs" "length ys \<le> l"
        "grown (Suc l) pt ys zs s s'" "if p = 0 then zs = [] else p = leaf_addr (mem s') (Suc l) pt va" by blast
    then show ?thesis by (intro exI [of _ ys] exI [of _ zs]) simp
  next
    case False
    show ?thesis
    proof (cases xs)
      case Nil
      then have "p = 0" "s' = s"
        using Suc.prems False kalloc_empty [of s] by (auto simp: ent_def Let_def)
      with Nil Suc.prems grown_refl show ?thesis by (intro exI [of _ "[]"]) fastforce
    next
      case (Cons x xs1)
      have k: "kmem_ok s (x # xs1)" using Suc.prems(1) Cons by simp
      note gs = grow_step [OF k Suc.prems(2) PX_less False]
      define s1 where "s1 = snd (kalloc s)"
      define s2 where "s2 = s1\<lparr>mem := st64 (set_loop (mem s1) x 0 4096) (slot pt ?i) (PA2PTE x OR PTE_V)\<rparr>"
      have g2: "grown (Suc l) pt [x] xs1 s s2" "ent (mem s2) pt ?i = PA2PTE x OR PTE_V" "kalloc s = (x, s1)"
        using gs by (simp_all add: s1_def s2_def)
      have "walk_loop l x va True s2 = (p, s')"
        using Suc.prems(3) False gs(2) g2(3) by (simp add: ent_def Let_def s2_def)
      then have w: "walk_loop l (child (mem s2) pt ?i) va True s2 = (p, s')" using g2(2) gs(5) by simp
      have k2: "kmem_ok s2 xs1" "owned (Suc l) pt s2"
        using g2(1) grown_owned [OF Suc.prems(2) g2(1)] by (auto simp: grown_def)
      have v2: "valid (mem s2) pt ?i" using g2(2) by (simp add: bit_make_low)
      from valid_case [OF k2 v2 w] obtain ys zs where "xs1 = ys @ zs" "length ys \<le> l"
          "grown (Suc l) pt ys zs s2 s'" "if p = 0 then zs = [] else p = leaf_addr (mem s') (Suc l) pt va" by blast
      with g2(1) Cons grown_trans [of "Suc l" pt "[x]" ys zs s s2 s'] show ?thesis
        by (intro exI [of _ "x # ys"] exI [of _ zs]) auto
    qed
  qed
qed

end
