(* ===== verification/VmMap.thy ===== *)
theory VmMap
  imports VmWalk
begin

text \<open>
  What \<^verbatim>\<open>mappages\<close> and the functions on top of it do to the mapping a three-level table
  describes. A table of level 2 maps virtual page numbers, bits 12 to 38 of an address, to
  entries: \<open>leaf m 2 pt va\<close> is the entry the hardware would use for \<open>va\<close>, 0 when the walk ends
  early.
\<close>

section \<open>Virtual page numbers\<close>

definition vpn :: "u64 \<Rightarrow> nat" where
  "vpn va = unat va div 4096 mod 2 ^ 27"

lemma vpn_less: "vpn va < 2 ^ 27"
  by (simp add: vpn_def)

lemma vpn_small: "unat va < 2 ^ 39 \<Longrightarrow> vpn va = unat va div 4096"
  by (simp add: vpn_def less_mult_imp_div_less)

lemma PX_vpn: "unat (PX l va) = unat va div 4096 div 512 ^ l mod 512"
proof -
  have "PX l va = take_bit 9 (drop_bit (12 + 9 * l) va)"
    unfolding PX_def take_bit_eq_mask by (simp add: mask_eq_exp_minus_1)
  then have "unat (PX l va) = take_bit 9 (unat va div 2 ^ (12 + 9 * l))"
    by (simp only: unsigned_take_bit_eq unat_drop_bit_div)
  moreover have "(2 :: nat) ^ (12 + 9 * l) = 4096 * 512 ^ l" by (simp add: power_add power_mult)
  ultimately show ?thesis by (simp add: take_bit_eq_mod div_mult2_eq)
qed

lemma mod_digits: "(x :: nat) mod 2 ^ 27 = x mod 512 + 512 * (x div 512 mod 512) + 512 ^ 2 * (x div 512 ^ 2 mod 512)"
proof -
  have "x mod (512 * (512 * 512)) = 512 * (x div 512 mod (512 * 512)) + x mod 512" by (rule mod_mult2_eq)
  moreover have "x div 512 mod (512 * 512) = 512 * (x div 512 div 512 mod 512) + x div 512 mod 512" by (rule mod_mult2_eq)
  ultimately show ?thesis by (simp add: div_mult2_eq [symmetric])
qed

lemma PX_digit: "k \<le> 2 \<Longrightarrow> unat (PX k v) = vpn v div 512 ^ k mod 512"
proof -
  assume "k \<le> 2"
  then have "9 \<le> 27 - 9 * k" by arith
  then have "take_bit 9 (drop_bit (9 * k) (take_bit 27 x)) = take_bit 9 (drop_bit (9 * k) (x :: nat))" for x
    by (simp add: drop_bit_take_bit min_def)
  then have "x mod 2 ^ 27 div 512 ^ k mod 512 = x div 512 ^ k mod 512" for x :: nat
    by (simp add: take_bit_eq_mod drop_bit_eq_div power_mult)
  then show ?thesis by (simp only: PX_vpn vpn_def)
qed

lemma same_leaf_vpn: "same_leaf 2 va va' \<longleftrightarrow> vpn va' = vpn va"
proof
  assume "same_leaf 2 va va'"
  then have "unat (PX k va') = unat (PX k va)" if "k \<le> 2" for k using that by (simp add: same_leaf_def)
  from this [of 0] this [of 1] this [of 2] show "vpn va' = vpn va"
    unfolding vpn_def mod_digits PX_vpn by simp
next
  assume eq: "vpn va' = vpn va"
  then show "same_leaf 2 va va'" by (simp add: same_leaf_def word_unat_eq_iff PX_digit)
qed

lemma leaf_vpn: "vpn a = vpn b \<Longrightarrow> leaf m 2 pt a = leaf m 2 pt b"
proof -
  assume "vpn a = vpn b"
  then have "PX k a = PX k b" if "k \<le> 2" for k using that same_leaf_vpn [of b a] by (simp add: same_leaf_def)
  then show ?thesis by (simp add: leaf_def numeral_2_eq_2)
qed

lemma vpn_add: "vpn (a + of_nat (4096 * k)) = (vpn a + k) mod 2 ^ 27"
proof -
  have cut: "(y mod 2 ^ 64) div 4096 mod 2 ^ 27 = y div 4096 mod (2 ^ 27 :: nat)" for y
  proof -
    have "take_bit 27 (drop_bit 12 (take_bit 64 y)) = take_bit 27 (drop_bit 12 y)"
      by (simp add: drop_bit_take_bit)
    then show ?thesis by (simp add: take_bit_eq_mod drop_bit_eq_div)
  qed
  have "unat (a + of_nat (4096 * k)) = (unat a + 4096 * k) mod 2 ^ 64"
    by (simp add: unat_word_ariths unat_of_nat take_bit_eq_mod mod_simps)
  then have "vpn (a + of_nat (4096 * k)) = (unat a + 4096 * k) div 4096 mod 2 ^ 27" by (simp only: vpn_def cut)
  also have "(unat a + 4096 * k) div 4096 = unat a div 4096 + k" by simp
  finally show ?thesis by (simp add: vpn_def mod_simps)
qed

lemma vpn_next: "vpn a + 1 < 2 ^ 27 \<Longrightarrow> vpn (a + 4096) = vpn a + 1"
  using vpn_add [of a 1] by simp

section \<open>Changing one entry\<close>

text \<open>
  \<open>tabled pt ys zs s s'\<close>: from \<open>s\<close> to \<open>s'\<close> the table at \<open>pt\<close> took the free pages \<open>ys\<close> for inner
  tables, leaving \<open>zs\<close> free, and memory changed in the table's own pages only.
\<close>

definition tabled :: "u64 \<Rightarrow> u64 list \<Rightarrow> u64 list \<Rightarrow> 'a kmem_scheme \<Rightarrow> 'a kmem_scheme \<Rightarrow> bool" where
  "tabled pt ys zs s s' \<longleftrightarrow> kmem_ok s' zs \<and> wf_tab (mem s') 2 pt \<and>
     tabs (mem s') 2 pt = tabs (mem s) 2 pt \<union> set ys \<and>
     refs s' = (\<lambda>q. if q \<in> set ys then 1 else refs s q) \<and>
     (\<forall>a. page_no a \<notin> page_no ` (tabs (mem s) 2 pt \<union> set ys) \<longrightarrow> mem s' a = mem s a)"

lemma tabled_trans:
  "tabled pt ys (zs @ ws) s s' \<Longrightarrow> tabled pt zs ws s' s'' \<Longrightarrow> tabled pt (ys @ zs) ws s s''"
  unfolding tabled_def by (auto simp: fun_eq_iff image_Un)

lemma tabled_owned: "owned 2 pt s \<Longrightarrow> tabled pt ys zs s s' \<Longrightarrow> owned 2 pt s'"
  by (auto simp: owned_def tabled_def)

lemma grown_tabled: "grown 2 pt ys zs s s' \<Longrightarrow> tabled pt ys zs s s'"
  by (simp add: grown_def tabled_def)

lemma refs_fields [simp]: "refs (s\<lparr>mem := m\<rparr>) = refs s" "refs (vputs t u) = refs u"
  by (simp_all add: refs_def fun_eq_iff vputs_def)

lemma vputs_fields [simp]:
  "mem (vputs t s) = mem s" "kmem_ok (vputs t s) xs = kmem_ok s xs" "freelist (vputs t s) = freelist s"
  "freecnt (vputs t s) = freecnt s" "refcnt (vputs t s) = refcnt s"
  by (simp_all add: vputs_def kmem_ok_def)

lemma tabled_vputs [simp]: "tabled pt ys zs s (vputs t s') = tabled pt ys zs s s'"
  by (simp add: tabled_def)

text \<open>A store to a page that is not on the free list keeps the allocator's invariant.\<close>

lemma kmem_ok_store:
  assumes "kmem_ok s xs" "take_bit 3 p = 0" "page_no p \<notin> page_no ` set xs"
  shows "kmem_ok (s\<lparr>mem := st64 (mem s) p v\<rparr>) xs"
proof -
  have "ld64 (st64 (mem s) p v) y = ld64 (mem s) y" if "y \<in> set xs" for y
  proof (rule ld64_same_page)
    show "take_bit 3 y = 0" using assms(1) that by (auto simp: kmem_ok_def ram_page_dword)
    fix b assume "page_no b = page_no y"
    then have "page_no b \<noteq> page_no p" using assms(3) that by (metis imageI)
    then show "st64 (mem s) p v b = mem s b" using assms(2) by (intro st64_page)
  qed
  then have "chain (st64 (mem s) p v) (freelist s) xs = chain (mem s) (freelist s) xs" by (rule chain_cong)
  then show ?thesis using assms(1) by (simp add: kmem_ok_def)
qed

lemma set_entry:
  fixes v
  assumes k: "kmem_ok s xs" and o: "owned 2 pt s" and p: "p = leaf_addr (mem s) 2 pt va" "p \<noteq> 0"
  defines "s' \<equiv> s\<lparr>mem := st64 (mem s) p v\<rparr>"
  shows "tabled pt [] xs s s'" "leaf (mem s') 2 pt x = (if vpn x = vpn va then v else leaf (mem s) 2 pt x)"
    "page_no p \<in> page_no ` tabs (mem s) 2 pt" "take_bit 3 p = 0"
proof -
  have wf: "wf_tab (mem s) 2 pt" using o by (simp add: owned_def)
  note lw = leaf_write [OF wf p, of v]
  note pg = leaf_addr_page [OF wf, of va, folded p(1), OF p(2)]
  then show "page_no p \<in> page_no ` tabs (mem s) 2 pt" "take_bit 3 p = 0" by auto
  show "leaf (mem s') 2 pt x = (if vpn x = vpn va then v else leaf (mem s) 2 pt x)"
    using lw [of x] by (simp add: s'_def same_leaf_vpn)
  obtain t where t: "t \<in> tabs (mem s) 2 pt" "page_no p = page_no t" using pg by auto
  have "page_no p \<notin> page_no ` set xs"
    using t owned_not_free [OF k o] kmem_ok_D(3) [OF k] wf_tab_ram [OF wf] by (auto simp: page_no_inject)
  then have "kmem_ok s' xs" unfolding s'_def by (intro kmem_ok_store k pg)
  moreover have "mem s' a = mem s a" if "page_no a \<notin> page_no ` tabs (mem s) 2 pt" for a
    unfolding s'_def using that pg by (auto intro: st64_page)
  ultimately show "tabled pt [] xs s s'" using lw by (auto simp: tabled_def s'_def)
qed

section \<open>Mapping a run of pages\<close>

definition in_run :: "u64 \<Rightarrow> nat \<Rightarrow> u64 \<Rightarrow> bool" where
  "in_run a n x \<longleftrightarrow> vpn a \<le> vpn x \<and> vpn x < vpn a + n"

definition run_entry :: "u64 \<Rightarrow> u64 \<Rightarrow> u64 \<Rightarrow> u64 \<Rightarrow> u64" where
  "run_entry a pa perm x = PA2PTE (pa + of_nat (4096 * (vpn x - vpn a))) OR perm OR PTE_V"

lemma bit_run_entry: "bit (run_entry a pa perm x) 0"
  by (simp add: run_entry_def bit_simps)

definition remap_note :: "u8 list" where
  "remap_note = puts_bytes (bytes_of (''[vm] remap!'' @ [CHR 0x0A]))"

text \<open>The loop maps pages until one is refused: for want of memory, or because it is mapped.\<close>

text \<open>
  Pages 512 apart share nothing below the root, pages of one block of 512 share both inner tables. A run
  needs two tables for each block it enters, less the first two when the walk to its first page is there.
\<close>

definition new_tables :: "memory \<Rightarrow> u64 \<Rightarrow> u64 \<Rightarrow> nat \<Rightarrow> nat" where
  "new_tables m pt a n = (if n = 0 then 0 else (if leaf_addr m 2 pt a = 0 then 2 else 0) + 2 * ((vpn a + n - 1) div 512 - vpn a div 512))"

lemma block_walk:
  assumes "wf_tab m 2 pt" "vpn a div 512 = vpn b div 512"
  shows "leaf_addr m 2 pt a = 0 \<longleftrightarrow> leaf_addr m 2 pt b = 0"
proof -
  have "vpn v div 512 ^ 2 = vpn v div 512 div 512" for v by (simp add: div_mult2_eq [symmetric])
  then have "PX 1 a = PX 1 b" "PX 2 a = PX 2 b" using assms(2) by (simp_all add: word_unat_eq_iff PX_digit)
  moreover have "slot (child m (child m pt (PX 2 v)) (PX 1 v)) i \<noteq> 0"
    if "valid m pt (PX 2 v)" "valid m (child m pt (PX 2 v)) (PX 1 v)" "i < 512" for v i
    using that assms(1) by (intro slot_nonzero) (auto simp: numeral_2_eq_2 PX_less)
  ultimately show ?thesis using PX_less [of 0] by (simp add: numeral_2_eq_2)
qed

lemma new_tables_Suc:
  assumes "wf_tab m2 2 pt" "leaf_addr m2 2 pt a \<noteq> 0" "vpn a + Suc n \<le> 2 ^ 27"
  shows "(if leaf_addr m 2 pt a = 0 then 2 else 0) + new_tables m2 pt (a + 4096) n \<le> new_tables m pt a (Suc n)"
proof (cases "n = 0")
  case False
  then have v: "vpn (a + 4096) = vpn a + 1" using assms(3) by (intro vpn_next) simp
  show ?thesis
  proof (cases "(vpn a + 1) div 512 = vpn a div 512")
    case True
    then have "leaf_addr m2 2 pt (a + 4096) \<noteq> 0" using block_walk [OF assms(1), of "a + 4096" a] assms(2) v by simp
    then show ?thesis using True False by (simp add: new_tables_def v)
  next
    case other: False
    have up: "(vpn a + 1) div 512 = vpn a div 512 + 1" using other by (metis Suc_eq_plus1 div_Suc)
    have "(vpn a + 1) div 512 \<le> (vpn a + n) div 512" using False by (intro div_le_mono) simp
    then have "2 + 2 * ((vpn a + n) div 512 - (vpn a div 512 + 1)) = 2 * ((vpn a + n) div 512 - vpn a div 512)" unfolding up by linarith
    then show ?thesis using False unfolding new_tables_def v up by (simp split: if_splits)
  qed
qed (simp add: new_tables_def)

definition map_result :: "u64 \<Rightarrow> u64 \<Rightarrow> nat \<Rightarrow> u64 \<Rightarrow> u64 \<Rightarrow> u64 list \<Rightarrow> 'a kvm_scheme \<Rightarrow> int \<Rightarrow> 'a kvm_scheme \<Rightarrow> bool" where
  "map_result pt a n pa perm xs s r s' \<longleftrightarrow> (\<exists>k ys zs. k \<le> n \<and> xs = ys @ zs \<and> length ys \<le> new_tables (mem s) pt a n \<and> tabled pt ys zs s s' \<and>
     (\<forall>x. leaf (mem s') 2 pt x = (if in_run a k x then run_entry a pa perm x else leaf (mem s) 2 pt x)) \<and>
     (\<forall>x. in_run a k x \<longrightarrow> \<not> bit (leaf (mem s) 2 pt x) 0) \<and>
     kernel_pagetable s' = kernel_pagetable s \<and> satp s' = satp s \<and> kvm.more s' = kvm.more s \<and>
     (if k = n then r = 0 \<and> vout s' = vout s
      else r = -1 \<and> (zs = [] \<and> vout s' = vout s \<or>
        bit (leaf (mem s) 2 pt (a + of_nat (4096 * k))) 0 \<and> vout s' = vout s @ remap_note)))"

lemma map_result_refl: "kmem_ok s xs \<Longrightarrow> owned 2 pt s \<Longrightarrow> map_result pt a 0 pa perm xs s 0 s"
  unfolding map_result_def
  by (rule exI [of _ "0::nat"], rule exI [of _ "[]"], rule exI [of _ xs]) (auto simp: tabled_def owned_def in_run_def)

lemma in_run_Suc: "vpn a + Suc k < 2 ^ 27 + 1 \<Longrightarrow> vpn a + 1 < 2 ^ 27 \<or> k = 0 \<Longrightarrow>
    in_run a (Suc k) x \<longleftrightarrow> vpn x = vpn a \<or> in_run (a + 4096) k x"
  using vpn_next [of a] by (auto simp: in_run_def)

lemma run_entry_next:
  assumes "vpn a + 1 < 2 ^ 27" "in_run (a + 4096) k x"
  shows "run_entry (a + 4096) (pa + 4096) perm x = run_entry a pa perm x"
proof -
  have "vpn x - vpn a = Suc (vpn x - vpn (a + 4096))"
    using assms(2) unfolding in_run_def vpn_next [OF assms(1)] by linarith
  then show ?thesis by (simp add: run_entry_def algebra_simps)
qed

lemma map_result_step:
  assumes t: "tabled pt ys zs s s2" and len: "xs = ys @ zs" "length ys \<le> (if leaf_addr (mem s) 2 pt a = 0 then 2 else 0)"
    and there: "leaf_addr (mem s2) 2 pt a \<noteq> 0"
    and l: "\<And>x. leaf (mem s2) 2 pt x = (if vpn x = vpn a then PA2PTE pa OR perm OR PTE_V else leaf (mem s) 2 pt x)"
    and free: "\<not> bit (leaf (mem s) 2 pt a) 0"
    and same: "kernel_pagetable s2 = kernel_pagetable s" "satp s2 = satp s" "kvm.more s2 = kvm.more s" "vout s2 = vout s"
    and rest: "map_result pt (a + 4096) n (pa + 4096) perm zs s2 r s'" and b: "vpn a + Suc n \<le> 2 ^ 27"
  shows "map_result pt a (Suc n) pa perm xs s r s'"
proof -
  obtain k us ws where R: "k \<le> n" "zs = us @ ws" "length us \<le> new_tables (mem s2) pt (a + 4096) n" "tabled pt us ws s2 s'"
    "\<forall>x. leaf (mem s') 2 pt x = (if in_run (a + 4096) k x then run_entry (a + 4096) (pa + 4096) perm x else leaf (mem s2) 2 pt x)"
    "\<forall>x. in_run (a + 4096) k x \<longrightarrow> \<not> bit (leaf (mem s2) 2 pt x) 0"
    "kernel_pagetable s' = kernel_pagetable s2" "satp s' = satp s2" "kvm.more s' = kvm.more s2"
    "if k = n then r = 0 \<and> vout s' = vout s2
      else r = -1 \<and> (ws = [] \<and> vout s' = vout s2 \<or>
        bit (leaf (mem s2) 2 pt (a + 4096 + of_nat (4096 * k))) 0 \<and> vout s' = vout s2 @ remap_note)"
    using rest unfolding map_result_def by blast
  have nxt: "vpn a + 1 < 2 ^ 27 \<or> n = 0" using b by auto
  have run: "in_run a (Suc k) x \<longleftrightarrow> vpn x = vpn a \<or> in_run (a + 4096) k x" for x
    using nxt R(1) b by (intro in_run_Suc) auto
  have apart: "in_run (a + 4096) k x \<Longrightarrow> vpn x \<noteq> vpn a \<and> vpn a + 1 < 2 ^ 27" for x
    using nxt R(1) vpn_next [of a] by (cases "n = 0") (auto simp: in_run_def)
  have first: "run_entry a pa perm x = PA2PTE pa OR perm OR PTE_V" if "vpn x = vpn a" for x
    using that by (simp add: run_entry_def)
  have at_k: "vpn (a + of_nat (4096 * Suc k)) \<noteq> vpn a" if "k \<noteq> n"
    using that R(1) b vpn_add [of a "Suc k"] by simp
  have shift: "a + 4096 + of_nat (4096 * k) = a + of_nat (4096 * Suc k)" by (simp add: algebra_simps)
  have other: "leaf (mem s2) 2 pt (a + of_nat (4096 * Suc k)) = leaf (mem s) 2 pt (a + of_nat (4096 * Suc k))" if "k \<noteq> n"
    unfolding l using at_k [OF that] by (simp only: if_False)
  show ?thesis unfolding map_result_def
  proof (rule exI [of _ "Suc k"], rule exI [of _ "ys @ us"], rule exI [of _ ws], intro conjI)
    show "tabled pt (ys @ us) ws s s'" using tabled_trans t R(2,4) by blast
    have "wf_tab (mem s2) 2 pt" using t by (simp add: tabled_def)
    from new_tables_Suc [OF this there b, of "mem s"] show "length (ys @ us) \<le> new_tables (mem s) pt a (Suc n)"
      using len(2) R(3) by simp
    show "\<forall>x. leaf (mem s') 2 pt x = (if in_run a (Suc k) x then run_entry a pa perm x else leaf (mem s) 2 pt x)"
    proof
      fix x
      show "leaf (mem s') 2 pt x = (if in_run a (Suc k) x then run_entry a pa perm x else leaf (mem s) 2 pt x)"
        using R(5) l [of x] run [of x] apart [of x] first [of x] run_entry_next [of a k x pa perm] by auto
    qed
    show "\<forall>x. in_run a (Suc k) x \<longrightarrow> \<not> bit (leaf (mem s) 2 pt x) 0"
    proof (intro allI impI)
      fix x assume "in_run a (Suc k) x"
      then show "\<not> bit (leaf (mem s) 2 pt x) 0"
        using R(6) l [of x] run [of x] apart [of x] free leaf_vpn [of x a "mem s" pt] by auto
    qed
    show "if Suc k = Suc n then r = 0 \<and> vout s' = vout s
      else r = -1 \<and> (ws = [] \<and> vout s' = vout s \<or>
        bit (leaf (mem s) 2 pt (a + of_nat (4096 * Suc k))) 0 \<and> vout s' = vout s @ remap_note)"
      using R(10) same(4) unfolding shift by (cases "k = n") (simp_all add: other del: of_nat_Suc of_nat_mult mult_Suc_right)
  qed (use R len same in auto)
qed

lemma unat_page_offset: "n \<le> 2 ^ 40 \<Longrightarrow> unat (of_nat (4096 * n) :: u64) = 4096 * n"
  by (simp only: unat_of_nat) (rule mod_less, simp)

lemma page_offset_zero: "n \<le> 2 ^ 40 \<Longrightarrow> (4096 * of_nat n :: u64) = 0 \<longleftrightarrow> n = 0"
  using unat_page_offset [of n] by (cases "n = 0") (auto simp: unat_eq_zero simp flip: unat_0_iff)

text \<open>One round of the loop, given what the rest of the rounds do.\<close>

lemma map_loop_step:
  fixes s :: "'a kvm_scheme"
  assumes k: "kmem_ok s xs" and o: "owned 2 pt s" and b: "vpn a + Suc n \<le> 2 ^ 27"
    and rest: "\<And>(s2 :: 'a kvm_scheme) zs. kmem_ok s2 zs \<Longrightarrow> owned 2 pt s2 \<Longrightarrow>
      \<exists>r s'. (if n = 0 then Some (0, s2) else map_loop pt (a + 4096) (a + of_nat (4096 * n)) (pa + 4096) perm s2) = Some (r, s') \<and>
        map_result pt (a + 4096) n (pa + 4096) perm zs s2 r s'"
  shows "\<exists>r s'. map_loop pt a (a + of_nat (4096 * n)) pa perm s = Some (r, s') \<and> map_result pt a (Suc n) pa perm xs s r s'"
proof -
  obtain p s1 where w: "walk pt a True s = (p, s1)" by (cases "walk pt a True s")
  obtain ys zs where g: "xs = ys @ zs" "length ys \<le> (if leaf_addr (mem s) 2 pt a = 0 then 2 else 0)" "grown 2 pt ys zs s s1"
    "if p = 0 then zs = [] else p = leaf_addr (mem s1) 2 pt a"
  proof (cases "leaf_addr (mem s) 2 pt a = 0")
    case True
    then show ?thesis using that walk_alloc_ok [OF k o] w unfolding walk_def by force
  next
    case False
    then have "p = leaf_addr (mem s) 2 pt a" "s1 = s" using w walk_known unfolding walk_def by force+
    then show ?thesis using that [of "[]" xs] False grown_refl [OF k o] by simp
  qed
  have few: "length ys \<le> new_tables (mem s) pt a (Suc n)" using g(2) by (simp add: new_tables_def split: if_splits)
  have t1: "tabled pt ys zs s s1" "kmem_ok s1 zs" "owned 2 pt s1" "\<And>x. leaf (mem s1) 2 pt x = leaf (mem s) 2 pt x" "kmem.more s1 = kmem.more s"
    using g(3) grown_owned [OF o g(3)] by (auto simp: grown_tabled grown_def)
  have same: "kernel_pagetable s1 = kernel_pagetable s" "satp s1 = satp s" "kvm.more s1 = kvm.more s" "vout s1 = vout s"
    using t1(5) by (cases s1, cases s, simp)+
  have stop: ?thesis if "map_loop pt a (a + of_nat (4096 * n)) pa perm s = Some (-1, s')" "tabled pt ys zs s s'" "mem s' = mem s1" "kernel_pagetable s' = kernel_pagetable s" "satp s' = satp s" "kvm.more s' = kvm.more s"
     "zs = [] \<and> vout s' = vout s \<or> bit (leaf (mem s) 2 pt a) 0 \<and> vout s' = vout s @ remap_note" for s'
  proof (intro exI conjI)
    show "map_result pt a (Suc n) pa perm xs s (-1) s'" unfolding map_result_def
      by (rule exI [of _ "0::nat"], rule exI [of _ ys], rule exI [of _ zs]) (use that few g(1) t1(4) in \<open>auto simp: in_run_def\<close>)
  qed (rule that(1))
  show ?thesis
  proof (cases "p = 0 \<or> bit (ld64 (mem s1) p) 0")
    case True
    then show ?thesis
    proof (cases "p = 0")
      case True
      then show ?thesis using w g(4) same t1(1) by (intro stop [of s1]) (simp_all add: map_loop.simps [of pt a])
    next
      case False
      then have "bit (leaf (mem s) 2 pt a) 0" using True g(4) t1(4) [of a] by (simp add: leaf_def)
      then show ?thesis using True False w same t1(1)
        by (intro stop [of "vputs (''[vm] remap!'' @ [CHR 0x0A]) s1"])
          (simp_all add: map_loop.simps [of pt a] remap_note_def, simp_all add: vputs_def)
    qed
  next
    case False
    then have p: "p = leaf_addr (mem s1) 2 pt a" "p \<noteq> 0" and nv: "\<not> bit (leaf (mem s) 2 pt a) 0"
      using g(4) t1(4) [of a] by (auto simp: leaf_def)
    let ?s2 = "s1\<lparr>mem := st64 (mem s1) p (PA2PTE pa OR perm OR PTE_V)\<rparr>"
    note e = set_entry(1,2) [OF t1(2,3) p, where v = "PA2PTE pa OR perm OR PTE_V"]
    have there: "leaf_addr (mem ?s2) 2 pt a \<noteq> 0" using leaf_write [OF _ p] t1(3) p by (simp add: owned_def)
    have t2: "tabled pt ys zs s ?s2" using tabled_trans [of pt ys "[]" zs s s1 ?s2] t1(1) e(1) by simp
    have "kmem_ok ?s2 zs" "owned 2 pt ?s2" using t2 tabled_owned [OF o t2] by (auto simp: tabled_def)
    from rest [OF this] obtain r s' where R:
      "(if n = 0 then Some (0, ?s2) else map_loop pt (a + 4096) (a + of_nat (4096 * n)) (pa + 4096) perm ?s2) = Some (r, s')"
      "map_result pt (a + 4096) n (pa + 4096) perm zs ?s2 r s'" by blast
    have "a = a + of_nat (4096 * n) \<longleftrightarrow> n = 0" using b page_offset_zero [of n] by simp
    then have "map_loop pt a (a + of_nat (4096 * n)) pa perm s = Some (r, s')"
      using R(1) False w by (subst map_loop.simps) (auto split: if_splits)
    moreover have "map_result pt a (Suc n) pa perm xs s r s'"
      by (rule map_result_step [OF t2 g(1,2) _ _ nv _ _ _ _ R(2) b]) (use e(2) t1(4) same there in simp_all)
    ultimately show ?thesis by blast
  qed
qed

lemma map_loop_ok:
  "kmem_ok s xs \<Longrightarrow> owned 2 pt s \<Longrightarrow> vpn a + Suc n \<le> 2 ^ 27 \<Longrightarrow>
   \<exists>r s'. map_loop pt a (a + of_nat (4096 * n)) pa perm s = Some (r, s') \<and> map_result pt a (Suc n) pa perm xs s r s'"
proof (induction n arbitrary: s xs a pa)
  case 0
  then show ?case using map_result_refl by (intro map_loop_step) fastforce+
next
  case (Suc n)
  show ?case
  proof (rule map_loop_step)
    fix s2 :: "'a kvm_scheme" and zs assume s2: "kmem_ok s2 zs" "owned 2 pt s2"
    have "vpn (a + 4096) = vpn a + 1" using Suc.prems(3) by (intro vpn_next) simp
    then have "vpn (a + 4096) + Suc n \<le> 2 ^ 27" using Suc.prems(3) by simp
    from Suc.IH [OF s2 this, of "pa + 4096"] show "\<exists>r s'. (if Suc n = 0 then Some (0, s2)
          else map_loop pt (a + 4096) (a + of_nat (4096 * Suc n)) (pa + 4096) perm s2) = Some (r, s') \<and>
        map_result pt (a + 4096) (Suc n) (pa + 4096) perm zs s2 r s'" by (simp add: algebra_simps)
  qed (use Suc.prems in auto)
qed


lemma PGROUNDDOWN_eq: "PGROUNDDOWN a = a AND NOT 4095"
  by (simp add: PGROUNDDOWN_def)

lemma unat_PGROUNDDOWN: "unat (PGROUNDDOWN a) = unat a div 4096 * 4096"
  by (simp only: PGROUNDDOWN_eq unat_round_down)

lemma vpn_round_down [simp]: "vpn (PGROUNDDOWN a) = vpn a"
  by (simp add: vpn_def unat_PGROUNDDOWN)

lemma round_down_add:
  fixes va sz
  assumes "0 < unat sz" "unat va + unat sz \<le> 2 ^ 39"
  defines "n \<equiv> (unat va + unat sz - 1) div 4096 - unat va div 4096"
  shows "PGROUNDDOWN (va + sz - 1) = PGROUNDDOWN va + of_nat (4096 * n)" "vpn va + Suc n \<le> 2 ^ 27"
proof -
  have last: "unat (va + sz - 1) = unat va + unat sz - 1"
  proof -
    have s: "unat (va + sz) = unat va + unat sz" using assms(2) by (simp add: unat_word_ariths)
    have "va + sz \<noteq> 0"
    proof
      assume "va + sz = 0"
      then show False using s assms(1) by simp
    qed
    then show ?thesis using s by (simp add: unat_minus_one)
  qed
  have le: "unat va div 4096 \<le> (unat va + unat sz - 1) div 4096" using assms(1) by (intro div_le_mono) simp
  have top: "(unat va + unat sz - 1) div 4096 < 2 ^ 27" using assms(1,2) by (simp add: less_mult_imp_div_less)
  have sum: "(unat va + unat sz - 1) div 4096 = unat va div 4096 + n" using le by (simp add: n_def)
  have n: "n < 2 ^ 27" using sum top by linarith
  show "PGROUNDDOWN (va + sz - 1) = PGROUNDDOWN va + of_nat (4096 * n)"
  proof (rule word_unat_eq_iff [THEN iffD2])
    have "unat (PGROUNDDOWN va + of_nat (4096 * n)) = (unat va div 4096 * 4096 + 4096 * n) mod 2 ^ 64"
      unfolding unat_word_ariths using unat_page_offset [of n] n by (simp add: unat_PGROUNDDOWN del: of_nat_mult)
    also have "\<dots> = unat va div 4096 * 4096 + 4096 * n"
    proof (rule mod_less)
      have "unat va div 4096 + n < 2 ^ 27" using top unfolding sum .
      then show "unat va div 4096 * 4096 + 4096 * n < 2 ^ 64" by simp
    qed
    finally show "unat (PGROUNDDOWN (va + sz - 1)) = unat (PGROUNDDOWN va + of_nat (4096 * n))"
      unfolding unat_PGROUNDDOWN last sum by (simp add: distrib_right)
  qed
  have "unat va < 2 ^ 39" using assms(1,2) by linarith
  then show "vpn va + Suc n \<le> 2 ^ 27" using vpn_small sum top by simp
qed

text \<open>The number of pages that meet the \<open>sz\<close> bytes from \<open>va\<close> on.\<close>

definition pages_of :: "u64 \<Rightarrow> u64 \<Rightarrow> nat" where
  "pages_of va sz = Suc ((unat va + unat sz - 1) div 4096 - unat va div 4096)"

lemma mappages_ok:
  assumes "kmem_ok s xs" "owned 2 pt s" "0 < unat sz" "unat va + unat sz \<le> 2 ^ 39"
  shows "\<exists>r s'. mappages pt va sz pa perm s = Some (r, s') \<and> map_result pt va (pages_of va sz) pa perm xs s r s'"
proof -
  let ?n = "(unat va + unat sz - 1) div 4096 - unat va div 4096"
  note r = round_down_add [OF assms(3,4)]
  have "vpn (PGROUNDDOWN va) + Suc ?n \<le> 2 ^ 27" using r(2) by simp
  from map_loop_ok [OF assms(1,2) this, of pa perm] obtain r s' where
    "mappages pt va sz pa perm s = Some (r, s')" "map_result pt (PGROUNDDOWN va) (Suc ?n) pa perm xs s r s'"
    unfolding mappages_def r(1) by blast
  moreover have "map_result pt (PGROUNDDOWN va) n pa perm xs s r s' = map_result pt va n pa perm xs s r s'" for n
  proof -
    have "leaf (mem s) 2 pt (PGROUNDDOWN va + of_nat (4096 * k)) = leaf (mem s) 2 pt (va + of_nat (4096 * k))" for k
      by (rule leaf_vpn) (simp only: vpn_add vpn_round_down)
    moreover have "new_tables (mem s) pt (PGROUNDDOWN va) n = new_tables (mem s) pt va n"
      using block_walk [of "mem s" pt "PGROUNDDOWN va" va] assms(2) by (simp add: new_tables_def owned_def)
    ultimately show ?thesis unfolding map_result_def in_run_def run_entry_def vpn_round_down by simp
  qed
  ultimately show ?thesis unfolding pages_of_def by blast
qed

text \<open>One page.\<close>

lemma new_tables_one: "new_tables m pt a 1 \<le> 2"
  by (simp add: new_tables_def)

definition same_kvm :: "'a kvm_scheme \<Rightarrow> 'a kvm_scheme \<Rightarrow> bool" where
  "same_kvm s s' \<longleftrightarrow> kernel_pagetable s' = kernel_pagetable s \<and> satp s' = satp s \<and> vout s' = vout s \<and> kvm.more s' = kvm.more s"

lemma same_kvm_trans: "same_kvm s s' \<Longrightarrow> same_kvm s' s'' \<Longrightarrow> same_kvm s s''"
  by (simp add: same_kvm_def)

lemma map_one:
  assumes "kmem_ok s xs" "owned 2 pt s" "take_bit 12 va = 0" "unat va + 4096 \<le> 2 ^ 39" "\<not> bit (leaf (mem s) 2 pt va) 0"
  obtains r s' ys zs where "mappages pt va 4096 pa perm s = Some (r, s')" "xs = ys @ zs" "length ys \<le> 2" "tabled pt ys zs s s'"
    "same_kvm s s'" "r = 0 \<or> r = -1 \<and> zs = []"
    "\<And>x. leaf (mem s') 2 pt x = (if r = 0 \<and> vpn x = vpn va then PA2PTE pa OR perm OR PTE_V else leaf (mem s) 2 pt x)"
proof -
  have "4096 dvd unat va" using assms(3) by (simp add: aligned_iff_dvd)
  then obtain q where "unat va = 4096 * q" by blast
  then have "(unat va + 4095) div 4096 = unat va div 4096" by simp
  then have one: "pages_of va 4096 = 1" by (simp add: pages_of_def)
  obtain r s' k ys zs where R: "mappages pt va 4096 pa perm s = Some (r, s')" "k \<le> 1" "xs = ys @ zs" "length ys \<le> new_tables (mem s) pt va 1" "tabled pt ys zs s s'"
    "\<forall>x. leaf (mem s') 2 pt x = (if in_run va k x then run_entry va pa perm x else leaf (mem s) 2 pt x)"
    "kernel_pagetable s' = kernel_pagetable s" "satp s' = satp s" "kvm.more s' = kvm.more s"
    "if k = 1 then r = 0 \<and> vout s' = vout s else r = -1 \<and> (zs = [] \<and> vout s' = vout s \<or>
        bit (leaf (mem s) 2 pt (va + of_nat (4096 * k))) 0 \<and> vout s' = vout s @ remap_note)"
    using mappages_ok [OF assms(1,2), of 4096 va pa perm] assms(4) unfolding one map_result_def by auto
  have len: "length ys \<le> 2" using R(4) new_tables_one le_trans by blast
  have run: "in_run va k x \<longleftrightarrow> k = 1 \<and> vpn x = vpn va" for x using R(2) by (auto simp: in_run_def)
  show ?thesis
  proof (rule that [OF R(1,3) len R(5)])
    have "k = 1 \<or> k = 0" using R(2) by auto
    then show "same_kvm s s'" "r = 0 \<or> r = -1 \<and> zs = []"
      unfolding same_kvm_def using R(7-10) assms(5) by auto
    show "leaf (mem s') 2 pt x = (if r = 0 \<and> vpn x = vpn va then PA2PTE pa OR perm OR PTE_V else leaf (mem s) 2 pt x)" for x
    proof -
      have "r = 0 \<longleftrightarrow> k = 1" using R(10) by (cases "k = 1") simp_all
      moreover have "run_entry va pa perm x = PA2PTE pa OR perm OR PTE_V" if "vpn x = vpn va"
        using that by (simp add: run_entry_def)
      ultimately show ?thesis using R(6) [THEN spec, of x] run [of x] by (simp only:) (simp split: if_splits)
    qed
  qed
qed

text \<open>
  Claim C25. \<^verbatim>\<open>mappages\<close> returns for every range of a 39-bit address space. It maps the pages of the
  range in order, the first to the page \<open>pa\<close> and each next one to the next physical page, with the given
  permissions and the valid bit, until all are mapped (result 0) or one is refused (result -1), which
  happens only when the allocator has no page left for an inner table or the page is already
  mapped, and then the remap message is printed. Every other virtual page keeps its entry, no
  memory outside the table's own pages changes, and the pages taken from the free list are
  exactly the new inner tables, at most two for each block of 512 pages the range meets, and none for
  the first block when its tables are there.
\<close>
theorem mappages_correct:
  assumes "kmem_ok s xs" "owned 2 pt s" "0 < unat sz" "unat va + unat sz \<le> 2 ^ 39"
  shows "\<exists>r s'. mappages pt va sz pa perm s = Some (r, s') \<and> map_result pt va (pages_of va sz) pa perm xs s r s'"
  using mappages_ok [OF assms] .

section \<open>A small machine\<close>

text \<open>
  Five free pages, every other page of the RAM held once and filled with zeros. Any held page is an empty
  table.
\<close>

definition lab_free :: "u64 list" where
  "lab_free = [0x87fff000, 0x87ffe000, 0x87ffd000, 0x87ffc000, 0x87ffb000]"

definition lab :: kvm where
  "lab = \<lparr>mem = st64 (st64 (st64 (st64 (\<lambda>_. 0) 0x87fff000 0x87ffe000) 0x87ffe000 0x87ffd000) 0x87ffd000 0x87ffc000) 0x87ffc000 0x87ffb000,
     freelist = 0x87fff000, freecnt = 5, refcnt = (\<lambda>i. if i \<in> refidx ` set lab_free then 0 else 1),
     kernel_pagetable = 0, satp = 0, vout = []\<rparr>"

lemma lab_ok: "kmem_ok lab lab_free"
proof -
  have z: "ld64 (\<lambda>_. 0) a = 0" for a by (simp add: ld64_def un_le64_def)
  have "chain (mem lab) (freelist lab) lab_free"
    by (simp add: lab_def lab_free_def ld64_st64_other z)
  moreover have "distinct lab_free" "\<forall>x \<in> set lab_free. ram_page x"
    by (simp_all add: lab_free_def ram_page_def RAMBASE_def PHYSTOP_def)
  ultimately show ?thesis by (simp add: kmem_ok_def) (simp add: lab_def lab_free_def)
qed

lemma lab_refs: "ram_page p \<Longrightarrow> p \<notin> set lab_free \<Longrightarrow> refs lab p = 1"
  using kmem_ok_D(3) [OF lab_ok] by (auto simp: refs_def lab_def refidx_inject)

lemma lab_zero:
  assumes "ram_page p" "p \<notin> set lab_free" "page_no a = page_no p"
  shows "mem lab a = 0"
proof -
  have "page_no p \<noteq> page_no q" if "q \<in> set lab_free" for q
    using that assms(1,2) kmem_ok_D(3) [OF lab_ok that] page_no_inject by blast
  from this [of "0x87fff000"] this [of "0x87ffe000"] this [of "0x87ffd000"] this [of "0x87ffc000"]
  show ?thesis using assms(3) by (simp add: lab_def lab_free_def st64_page)
qed

lemma lab_table:
  assumes "ram_page p" "p \<notin> set lab_free"
  shows "owned 2 p lab" "tabs (mem lab) 2 p = {p}" "leaf (mem lab) 2 p va = 0"
  using zero_table [OF assms(1), of "mem lab" 2] lab_zero [OF assms] lab_refs [OF assms] by (auto simp: owned_def)

theorem mappages_correct_witness:
  "\<exists>s'. mappages 0x87ff0000 0x1000 0x1000 0x87ff2000 (PTE_R OR PTE_X OR PTE_U) lab = Some (0, s') \<and>
     PTE2PA (leaf (mem s') 2 0x87ff0000 0x1234) = 0x87ff2000 \<and> leaf (mem s') 2 0x87ff0000 0x2000 = 0"
proof -
  let ?perm = "PTE_R OR PTE_X OR PTE_U"
  have P: "ram_page 0x87ff0000" "0x87ff0000 \<notin> set lab_free" by (simp_all add: ram_page_def RAMBASE_def PHYSTOP_def lab_free_def)
  note t = lab_table [OF P]
  have "\<exists>r s'. mappages 0x87ff0000 0x1000 0x1000 0x87ff2000 ?perm lab = Some (r, s') \<and>
      map_result 0x87ff0000 0x1000 (pages_of 0x1000 0x1000) 0x87ff2000 ?perm lab_free lab r s'"
    by (rule mappages_correct [OF lab_ok t(1)]) simp_all
  moreover have "pages_of 0x1000 0x1000 = 1" by (simp add: pages_of_def)
  moreover have "length lab_free = 5" by (simp add: lab_free_def)
  ultimately obtain r s' k ys zs where m: "mappages 0x87ff0000 0x1000 0x1000 0x87ff2000 ?perm lab = Some (r, s')"
    "k \<le> 1" "lab_free = ys @ zs" "length ys \<le> new_tables (mem lab) 0x87ff0000 0x1000 1"
    "\<forall>x. leaf (mem s') 2 0x87ff0000 x = (if in_run 0x1000 k x then run_entry 0x1000 0x87ff2000 ?perm x else leaf (mem lab) 2 0x87ff0000 x)"
    "if k = 1 then r = 0 \<and> vout s' = vout lab else r = -1 \<and> (zs = [] \<and> vout s' = vout lab \<or>
        bit (leaf (mem lab) 2 0x87ff0000 (0x1000 + of_nat (4096 * k))) 0 \<and> vout s' = vout lab @ remap_note)" "length lab_free = 5"
    unfolding map_result_def by auto
  have "length ys \<le> 2" using m(4) new_tables_one le_trans by blast
  then have "zs \<noteq> []" using m(3,7) by auto
  then have k: "k = 1" "r = 0" using m(6) t(3) by (auto split: if_splits)
  have "run_entry 0x1000 0x87ff2000 ?perm 0x1234 = PA2PTE 0x87ff2000 OR (?perm OR PTE_V)"
    by (simp add: run_entry_def vpn_def or.assoc)
  moreover have "PTE2PA (PA2PTE 0x87ff2000 OR (?perm OR PTE_V)) = 0x87ff2000"
    by (rule PTE2PA_make) (simp_all add: PTE_R_def PTE_X_def PTE_U_def PTE_V_def)
  ultimately show ?thesis using m(1,5) k t(3) by (auto simp: in_run_def vpn_def)
qed

end
