(* ===== verification/VmCow.thy ===== *)
theory VmCow
  imports VmMap
begin

text \<open>
  Copy-on-write (\<^verbatim>\<open>uvm_cow_share\<close>, \<^verbatim>\<open>uvm_cow_fault\<close>) and freeing (\<^verbatim>\<open>vm_free_range\<close>, \<^verbatim>\<open>freewalk\<close>): what
  becomes of the two address spaces, of the reference counts and of the free list.
\<close>

section \<open>Two tables in one memory\<close>

lemma other_table:
  assumes "wf_tab m 2 pt" "\<forall>a. page_no a \<notin> page_no ` T \<longrightarrow> m' a = m a" "tabs m 2 pt \<inter> T = {}" "\<forall>q \<in> T. ram_page q"
  shows "tabs m' 2 pt = tabs m 2 pt" "wf_tab m' 2 pt" "leaf m' 2 pt x = leaf m 2 pt x"
    "leaf_addr m' 2 pt x = leaf_addr m 2 pt x"
proof -
  have "agree (tabs m 2 pt) m m'"
    using assms(2,3) by (rule agree_off) (use assms(4) wf_tab_ram [OF assms(1)] in auto)
  then show "tabs m' 2 pt = tabs m 2 pt" "wf_tab m' 2 pt" "leaf m' 2 pt x = leaf m 2 pt x"
      "leaf_addr m' 2 pt x = leaf_addr m 2 pt x"
    using tabs_agree [OF assms(1)] leaf_agree [OF assms(1)] by blast+
qed

text \<open>What a step on the table \<open>pt\<close> leaves of another table \<open>q\<close>.\<close>

lemma tabled_other:
  assumes k: "kmem_ok s (ys @ zs)" and o: "owned 2 pt s" "owned 2 q s" and d: "tabs (mem s) 2 q \<inter> tabs (mem s) 2 pt = {}"
    and t: "tabled pt ys zs s s'"
  shows "owned 2 q s'" "tabs (mem s') 2 q = tabs (mem s) 2 q" "tabs (mem s') 2 q \<inter> tabs (mem s') 2 pt = {}"
    "leaf (mem s') 2 q x = leaf (mem s) 2 q x" "leaf_addr (mem s') 2 q x = leaf_addr (mem s) 2 q x"
proof -
  let ?T = "tabs (mem s) 2 pt \<union> set ys"
  have fresh: "tabs (mem s) 2 q \<inter> set ys = {}" using owned_not_free [OF k o(2)] by auto
  have "\<forall>p \<in> ?T. ram_page p"
    using o(1) kmem_ok_D(3) [OF k] wf_tab_ram by (auto simp: owned_def)
  then have x: "tabs (mem s') 2 q = tabs (mem s) 2 q" "wf_tab (mem s') 2 q" "leaf (mem s') 2 q x = leaf (mem s) 2 q x"
      "leaf_addr (mem s') 2 q x = leaf_addr (mem s) 2 q x" for x
    using other_table [of "mem s" q ?T "mem s'"] o(2) t d fresh unfolding owned_def tabled_def Int_Un_distrib by blast+
  then show "tabs (mem s') 2 q = tabs (mem s) 2 q" "leaf (mem s') 2 q x = leaf (mem s) 2 q x"
      "leaf_addr (mem s') 2 q x = leaf_addr (mem s) 2 q x" by auto
  show "owned 2 q s'" "tabs (mem s') 2 q \<inter> tabs (mem s') 2 pt = {}"
    using x(1,2) t o(2) d fresh by (auto simp: owned_def tabled_def)
qed

section \<open>Entries after sharing\<close>

definition cow_flags :: "u64 \<Rightarrow> u64" where
  "cow_flags f = (if bit f 2 then (f AND NOT PTE_W) OR PTE_COW else f)"

definition cow_entry :: "u64 \<Rightarrow> u64" where
  "cow_entry e = PA2PTE (PTE2PA e) OR cow_flags (PTE_FLAGS e)"

lemma bit_PTE_FLAGS [simp]: "bit (PTE_FLAGS e) n \<longleftrightarrow> n < 10 \<and> bit e n"
proof -
  have "(0x3FF :: u64) = mask 10" by (simp add: mask_eq_exp_minus_1)
  then have "PTE_FLAGS e = take_bit 10 e" by (simp only: PTE_FLAGS_def take_bit_eq_mask)
  then show ?thesis by (simp add: bit_take_bit_iff)
qed

lemma cow_flags_small: "take_bit 10 (cow_flags (PTE_FLAGS e)) = cow_flags (PTE_FLAGS e)"
  by (rule bit_word_eqI) (auto simp: cow_flags_def bit_simps)

lemma cow_entry_PA [simp]: "PTE2PA (cow_entry e) = PTE2PA e"
  unfolding cow_entry_def by (rule PTE2PA_make) (simp_all add: cow_flags_small)

lemma cow_entry_bits:
  "bit (cow_entry e) 0 \<longleftrightarrow> bit e 0" "bit (cow_entry e) 1 \<longleftrightarrow> bit e 1" "\<not> bit (cow_entry e) 2"
  "bit (cow_entry e) 3 \<longleftrightarrow> bit e 3" "bit (cow_entry e) 4 \<longleftrightarrow> bit e 4" "bit (cow_entry e) 8 \<longleftrightarrow> bit e 8 \<or> bit e 2"
  unfolding cow_entry_def by (simp_all add: bit_make_low) (auto simp: cow_flags_def bit_or_iff bit_and_iff bit_not_iff)

text \<open>The parent's entry is only rewritten when it was writable.\<close>

definition parent_entry :: "u64 \<Rightarrow> u64" where
  "parent_entry e = (if bit e 0 \<and> bit e 2 then cow_entry e else e)"

lemma parent_entry_bits:
  "bit (parent_entry e) 0 \<longleftrightarrow> bit e 0" "PTE2PA (parent_entry e) = PTE2PA e"
  "bit e 0 \<Longrightarrow> \<not> bit (parent_entry e) 2" "bit e 0 \<Longrightarrow> bit (parent_entry e) 8 \<longleftrightarrow> bit e 8 \<or> bit e 2"
  by (auto simp: parent_entry_def cow_entry_bits)

section \<open>Sharing a range\<close>

definition shares :: "memory \<Rightarrow> u64 \<Rightarrow> u64 \<Rightarrow> nat \<Rightarrow> u64 \<Rightarrow> nat" where
  "shares m pt a n p = length (filter (\<lambda>j. bit (leaf m 2 pt (a + of_nat (4096 * j))) 0 \<and>
     PTE2PA (leaf m 2 pt (a + of_nat (4096 * j))) = p) [0..<n])"

text \<open>
  \<open>shared P C a n ys zs s s'\<close>: the first \<open>n\<close> pages from \<open>a\<close> on of the table \<open>P\<close> are shared with \<open>C\<close>; \<open>j\<close> is
  the number of pages whose entry in \<open>P\<close> was rewritten.
\<close>

definition shared :: "u64 \<Rightarrow> u64 \<Rightarrow> u64 \<Rightarrow> nat \<Rightarrow> nat \<Rightarrow> u64 list \<Rightarrow> u64 list \<Rightarrow> 'a kvm_scheme \<Rightarrow> 'a kvm_scheme \<Rightarrow> bool" where
  "shared P C a j n ys zs s s' \<longleftrightarrow> kmem_ok s' zs \<and> owned 2 P s' \<and> owned 2 C s' \<and>
     tabs (mem s') 2 P = tabs (mem s) 2 P \<and> tabs (mem s') 2 C = tabs (mem s) 2 C \<union> set ys \<and>
     tabs (mem s') 2 P \<inter> tabs (mem s') 2 C = {} \<and>
     (\<forall>x. leaf (mem s') 2 P x = (if in_run a j x then parent_entry (leaf (mem s) 2 P x) else leaf (mem s) 2 P x)) \<and>
     (\<forall>x. leaf (mem s') 2 C x = (if in_run a n x \<and> bit (leaf (mem s) 2 P x) 0 then cow_entry (leaf (mem s) 2 P x)
        else leaf (mem s) 2 C x)) \<and>
     (\<forall>p. refs s' p = (if p \<in> set ys then 1 else refs s p + shares (mem s) P a n p)) \<and>
     (\<forall>b. page_no b \<notin> page_no ` (tabs (mem s) 2 P \<union> tabs (mem s) 2 C \<union> set ys) \<longrightarrow> mem s' b = mem s b) \<and>
     same_kvm s s'"

lemma shares_Suc:
  "shares m pt a (Suc n) p = (if bit (leaf m 2 pt a) 0 \<and> PTE2PA (leaf m 2 pt a) = p then 1 else 0) + shares m pt (a + 4096) n p"
proof -
  have "[0..<Suc n] = 0 # map Suc [0..<n]" by (simp only: upt_conv_Cons map_Suc_upt zero_less_Suc)
  then show ?thesis by (simp add: shares_def filter_map o_def add.assoc [symmetric])
qed

lemma shares_0 [simp]: "shares m pt a 0 p = 0"
  by (simp add: shares_def)

lemma shares_cong:
  assumes "\<And>j. j < n \<Longrightarrow> leaf m 2 pt (a + of_nat (4096 * j)) = leaf m' 2 pt (a + of_nat (4096 * j))"
  shows "shares m pt a n p = shares m' pt a n p"
  unfolding shares_def by (intro arg_cong [where f = length] filter_cong) (simp_all add: assms del: of_nat_mult)

lemma shares_pos: "0 < shares m pt a n p \<Longrightarrow> \<exists>x. in_run a n x \<and> bit (leaf m 2 pt x) 0 \<and> PTE2PA (leaf m 2 pt x) = p \<or> 2 ^ 27 < vpn a + n"
proof -
  assume "0 < shares m pt a n p"
  then obtain j where j: "j < n" "bit (leaf m 2 pt (a + of_nat (4096 * j))) 0" "PTE2PA (leaf m 2 pt (a + of_nat (4096 * j))) = p"
    unfolding shares_def by (auto simp: length_greater_0_conv filter_empty_conv simp del: of_nat_mult)
  show ?thesis
  proof (cases "2 ^ 27 < vpn a + n")
    case False
    then have "in_run a n (a + of_nat (4096 * j))" unfolding in_run_def vpn_add using j(1) by simp
    with j show ?thesis by blast
  qed auto
qed

text \<open>The write to the parent's entry.\<close>

lemma share_parent:
  assumes k: "kmem_ok s xs" and o: "owned 2 P s" and e: "e = leaf (mem s) 2 P a" "bit e 0"
  defines "s1 \<equiv> if bit e 2 then s\<lparr>mem := st64 (mem s) (leaf_addr (mem s) 2 P a) (cow_entry e)\<rparr> else s"
  shows "tabled P [] xs s s1" "leaf (mem s1) 2 P x = (if vpn x = vpn a then parent_entry (leaf (mem s) 2 P x) else leaf (mem s) 2 P x)"
proof -
  have p: "leaf_addr (mem s) 2 P a \<noteq> 0" using e by (auto simp: leaf_def)
  note w = set_entry(1,2) [OF k o refl p, where v = "cow_entry e"]
  have "tabled P [] xs s s" using k o by (simp add: tabled_def owned_def)
  then show "tabled P [] xs s s1" using w(1) by (simp add: s1_def)
  show "leaf (mem s1) 2 P x = (if vpn x = vpn a then parent_entry (leaf (mem s) 2 P x) else leaf (mem s) 2 P x)"
    using w(2) [of x] e leaf_vpn [of x a] by (auto simp: s1_def parent_entry_def)
qed

lemma in_run_0 [simp]: "\<not> in_run a 0 x" and in_run_1 [simp]: "in_run a (Suc 0) x \<longleftrightarrow> vpn x = vpn a"
  by (auto simp: in_run_def)

lemma kref_inc_fields [simp]: "owned l pt (kref_inc p s) = (wf_tab (mem s) l pt \<and> (\<forall>q \<in> tabs (mem s) l pt. 0 < refs (kref_inc p s) q))"
  by (simp add: owned_def kref_inc_def)

lemma same_kvm_kref_inc [simp]: "same_kvm s (kref_inc p s') = same_kvm s s'"
  by (simp add: same_kvm_def kref_inc_def)

lemma share_step:
  assumes k: "kmem_ok s xs" and o: "owned 2 P s" "owned 2 C s" and d: "tabs (mem s) 2 P \<inter> tabs (mem s) 2 C = {}"
    and e: "e = leaf (mem s) 2 P a" "bit e 0" and a: "take_bit 12 a = 0" "unat a + 4096 \<le> 2 ^ 39"
    and c: "\<not> bit (leaf (mem s) 2 C a) 0" and h: "0 < refs s (PTE2PA e)" "refs s (PTE2PA e) < 255"
  defines "s1 \<equiv> if bit e 2 then s\<lparr>mem := st64 (mem s) (leaf_addr (mem s) 2 P a) (cow_entry e)\<rparr> else s"
  obtains r s2 ys zs where "mappages C a 4096 (PTE2PA e) (cow_flags (PTE_FLAGS e)) s1 = Some (r, s2)" "xs = ys @ zs" "length ys \<le> 2"
    "if r = 0 then shared P C a 1 1 ys zs s (kref_inc (PTE2PA e) s2) else r = -1 \<and> zs = [] \<and> shared P C a 1 0 ys zs s s2"
proof -
  note p1 = share_parent [OF k o(1) e, folded s1_def]
  have k1: "kmem_ok s1 xs" "owned 2 P s1" using p1(1) tabled_owned [OF o(1) p1(1)] by (auto simp: tabled_def)
  have d': "tabs (mem s) 2 C \<inter> tabs (mem s) 2 P = {}" using d by blast
  note c1 = tabled_other [of s "[]" xs, simplified, OF k o d' p1(1)]
  have sk: "same_kvm s s1" by (simp add: same_kvm_def s1_def)
  obtain r s2 ys zs where m: "mappages C a 4096 (PTE2PA e) (cow_flags (PTE_FLAGS e)) s1 = Some (r, s2)" "xs = ys @ zs" "length ys \<le> 2"
    "tabled C ys zs s1 s2" "same_kvm s1 s2" "r = 0 \<or> r = -1 \<and> zs = []"
    "\<And>x. leaf (mem s2) 2 C x = (if r = 0 \<and> vpn x = vpn a then PA2PTE (PTE2PA e) OR cow_flags (PTE_FLAGS e) OR PTE_V else leaf (mem s1) 2 C x)"
    using map_one [OF k1(1) c1(1) a, of "PTE2PA e" "cow_flags (PTE_FLAGS e)"] c c1(4) by metis
  have V: "PA2PTE (PTE2PA e) OR cow_flags (PTE_FLAGS e) OR PTE_V = cow_entry e"
    using e(2) by (intro bit_word_eqI) (auto simp: cow_entry_def bit_or_iff cow_flags_def bit_and_iff bit_not_iff)
  have d1: "tabs (mem s1) 2 P \<inter> tabs (mem s1) 2 C = {}" using c1(3) by blast
  note p2 = tabled_other [OF k1(1) [unfolded m(2)] c1(1) k1(2) d1 m(4)]
  have c2: "owned 2 C s2" by (rule tabled_owned [OF c1(1) m(4)])
  have k2: "kmem_ok s2 zs" using m(4) by (simp add: tabled_def)
  have refs1: "refs s1 = refs s" using p1(1) by (simp add: tabled_def)
  have notys: "PTE2PA e \<notin> set ys" using h(1) kmem_ok_free_iff [OF k] m(2) by auto
  have refs2: "refs s2 = (\<lambda>q. if q \<in> set ys then 1 else refs s q)" using m(4) unfolding tabled_def refs1 by blast
  have frame: "mem s2 b = mem s b" if "page_no b \<notin> page_no ` (tabs (mem s) 2 P \<union> tabs (mem s) 2 C \<union> set ys)" for b
    using that p1(1) m(4) c1(2) by (auto simp: tabled_def image_Un)
  have base: "tabs (mem s2) 2 P = tabs (mem s) 2 P" "tabs (mem s2) 2 C = tabs (mem s) 2 C \<union> set ys" "tabs (mem s2) 2 P \<inter> tabs (mem s2) 2 C = {}"
    "same_kvm s s2"
    using p2(2,3) p1(1) m(4) c1(2) same_kvm_trans [OF sk m(5)] by (simp_all add: tabled_def)
  have lp: "leaf (mem s2) 2 P x = (if vpn x = vpn a then parent_entry (leaf (mem s) 2 P x) else leaf (mem s) 2 P x)" for x
    by (simp only: p2(4) p1(2))
  have lc: "leaf (mem s2) 2 C x = (if r = 0 \<and> vpn x = vpn a then cow_entry (leaf (mem s) 2 P x) else leaf (mem s) 2 C x)" for x
    unfolding m(7) V c1(4) using leaf_vpn [of x a "mem s" P] e(1) by auto
  show ?thesis
  proof (rule that [OF m(1-3)])
    show "if r = 0 then shared P C a 1 1 ys zs s (kref_inc (PTE2PA e) s2) else r = -1 \<and> zs = [] \<and> shared P C a 1 0 ys zs s s2"
    proof (cases "r = 0")
      case True
      have "0 < refs s2 (PTE2PA e)" "refs s2 (PTE2PA e) < 255" using h notys by (simp_all add: refs2)
      note i = kref_inc_ok [OF k2 this]
      have "\<forall>p. refs (kref_inc (PTE2PA e) s2) p = (if p \<in> set ys then 1 else refs s p + shares (mem s) P a 1 p)"
        using notys e unfolding i(2) refs2 One_nat_def shares_Suc by (auto simp: shares_def)
      moreover have "owned 2 P (kref_inc (PTE2PA e) s2)" "owned 2 C (kref_inc (PTE2PA e) s2)"
        using p2(1) c2 by (auto simp: owned_def i(2,3))
      moreover have "leaf (mem s2) 2 C x = (if vpn x = vpn a \<and> bit (leaf (mem s) 2 P x) 0 then cow_entry (leaf (mem s) 2 P x)
          else leaf (mem s) 2 C x)" for x
        using True lc [of x] e leaf_vpn [of x a "mem s" P] by auto
      ultimately show ?thesis using True i(1) base frame lp
        unfolding shared_def i(3) One_nat_def in_run_1 same_kvm_kref_inc by simp
    next
      case False
      then show ?thesis using m(6) base frame lp lc k2 p2(1) c2 unfolding shared_def by (auto simp: refs2 shares_def)
    qed
  qed
qed

definition held_run :: "u64 \<Rightarrow> u64 \<Rightarrow> u64 \<Rightarrow> nat \<Rightarrow> 'a kmem_scheme \<Rightarrow> bool" where
  "held_run P C a n s \<longleftrightarrow>
     (\<forall>x. in_run a n x \<and> bit (leaf (mem s) 2 P x) 0 \<longrightarrow> 0 < refs s (PTE2PA (leaf (mem s) 2 P x)) \<and> \<not> bit (leaf (mem s) 2 C x) 0) \<and>
     (\<forall>p. 0 < shares (mem s) P a n p \<longrightarrow> refs s p + shares (mem s) P a n p \<le> 255)"

lemma shares_after:
  assumes "shared P C a 1 k ys zs s s2" "vpn a + Suc n \<le> 2 ^ 27"
  shows "shares (mem s2) P (a + 4096) n p = shares (mem s) P (a + 4096) n p"
proof (rule shares_cong)
  fix j assume "j < n"
  have "a + 4096 + of_nat (4096 * j) = a + of_nat (4096 * Suc j)" by simp
  moreover have "vpn (a + of_nat (4096 * Suc j)) \<noteq> vpn a" unfolding vpn_add using \<open>j < n\<close> assms(2) by simp
  ultimately show "leaf (mem s2) 2 P (a + 4096 + of_nat (4096 * j)) = leaf (mem s) 2 P (a + 4096 + of_nat (4096 * j))"
    using assms(1) unfolding shared_def by (metis in_run_1 One_nat_def)
qed

lemma held_next:
  assumes "shared P C a 1 1 ys zs s s2" "held_run P C a (Suc n) s" "vpn a + Suc n \<le> 2 ^ 27" "kmem_ok s (ys @ zs)"
  shows "held_run P C (a + 4096) n s2" "p \<in> set ys \<Longrightarrow> shares (mem s) P a (Suc n) p = 0"
proof -
  have ys0: "shares (mem s) P a (Suc n) p = 0" if "p \<in> set ys" for p
  proof (rule ccontr)
    assume "shares (mem s) P a (Suc n) p \<noteq> 0"
    then have "0 < refs s p" using shares_pos [of "mem s" P a "Suc n" p] assms(2,3) by (auto simp: held_run_def)
    then show False using kmem_ok_free_iff [OF assms(4)] that by simp
  qed
  then show "p \<in> set ys \<Longrightarrow> shares (mem s) P a (Suc n) p = 0" .
  note sh = shares_after [OF assms(1,3)]
  have r: "refs s2 p = (if p \<in> set ys then 1 else refs s p + shares (mem s) P a 1 p)" for p
    using assms(1) by (simp add: shared_def)
  have one: "shares (mem s) P a (Suc n) p = shares (mem s) P a 1 p + shares (mem s) P (a + 4096) n p" for p
    unfolding One_nat_def shares_Suc by (simp add: shares_def)
  have "refs s2 p + shares (mem s2) P (a + 4096) n p \<le> 255" if "0 < shares (mem s2) P (a + 4096) n p" for p
  proof (cases "p \<in> set ys")
    case False
    then show ?thesis using that assms(2) [unfolded held_run_def, THEN conjunct2, rule_format, of p] unfolding sh r one by simp
  qed (use that ys0 [of p] in \<open>simp add: sh one\<close>)
  moreover have "0 < refs s2 (PTE2PA (leaf (mem s2) 2 P x)) \<and> \<not> bit (leaf (mem s2) 2 C x) 0"
    if x: "in_run (a + 4096) n x" "bit (leaf (mem s2) 2 P x) 0" for x
  proof -
    have n: "n \<noteq> 0" using x(1) by (cases n) auto
    then have v: "vpn a + 1 < 2 ^ 27" using assms(3) by simp
    have off: "vpn x \<noteq> vpn a" "in_run a (Suc n) x" using x(1) vpn_next [OF v] by (auto simp: in_run_def)
    then have l: "leaf (mem s2) 2 P x = leaf (mem s) 2 P x" "leaf (mem s2) 2 C x = leaf (mem s) 2 C x"
      using assms(1) by (simp_all add: shared_def)
    then show ?thesis using x(2) assms(2) off(2) unfolding l r held_run_def by auto
  qed
  ultimately show "held_run P C (a + 4096) n s2" unfolding held_run_def by blast
qed

lemma shares_mono: "n \<le> m \<Longrightarrow> shares s P a n p \<le> shares s P a m p"
  by (induction m) (auto simp: shares_def le_Suc_eq)

lemma shared_trans:
  assumes s: "shared P C a 1 1 ys (us @ ws) s s2" and t: "shared P C (a + 4096) j n us ws s2 s'"
    and b: "vpn a + Suc j \<le> 2 ^ 27" "n \<le> j" and z: "\<And>p. p \<in> set ys \<Longrightarrow> shares (mem s2) P (a + 4096) n p = 0"
  shows "shared P C a (Suc j) (Suc n) (ys @ us) ws s s'"
proof -
  have run: "in_run a (Suc i) x \<longleftrightarrow> vpn x = vpn a \<or> in_run (a + 4096) i x" and apart: "in_run (a + 4096) i x \<Longrightarrow> vpn x \<noteq> vpn a" if "i \<le> j" for i x
    using that b(1) vpn_next [of a] by (cases i; force simp: in_run_def)+
  have one: "shares (mem s) P a (Suc n) p = shares (mem s) P a 1 p + shares (mem s2) P (a + 4096) n p" for p
  proof -
    have "vpn a + Suc n \<le> 2 ^ 27" using b by simp
    then show ?thesis unfolding One_nat_def shares_Suc by (simp add: shares_after [OF s])
  qed
  have refs: "\<forall>p. refs s' p = (if p \<in> set (ys @ us) then 1 else refs s p + shares (mem s) P a (Suc n) p)"
    using s t z by (simp add: shared_def one)
  have lp: "leaf (mem s') 2 P x = (if in_run a (Suc j) x then parent_entry (leaf (mem s) 2 P x) else leaf (mem s) 2 P x)" for x
    using s t run [of j x] apart [of j x] by (auto simp: shared_def)
  have lc: "leaf (mem s') 2 C x = (if in_run a (Suc n) x \<and> bit (leaf (mem s) 2 P x) 0 then cow_entry (leaf (mem s) 2 P x) else leaf (mem s) 2 C x)" for x
    using s t run [OF b(2), of x] apart [OF b(2), of x] by (auto simp: shared_def)
  have "mem s' q = mem s q" if "page_no q \<notin> page_no ` (tabs (mem s) 2 P \<union> tabs (mem s) 2 C \<union> set (ys @ us))" for q
    using that s t by (simp add: shared_def image_Un)
  then show ?thesis using s t refs lp lc same_kvm_trans unfolding shared_def by (auto simp del: in_run_1)
qed

lemma share_unfold:
  "uvm_cow_share P C a end1 s =
     (if \<not> a < end1 then Some (0, s)
      else let e = leaf (mem s) 2 P a in
        if \<not> bit e 0 then uvm_cow_share P C (a + 4096) end1 s
        else Option.bind (mappages C a 4096 (PTE2PA e) (cow_flags (PTE_FLAGS e))
               (if bit e 2 then s\<lparr>mem := st64 (mem s) (leaf_addr (mem s) 2 P a) (cow_entry e)\<rparr> else s))
             (\<lambda>(r, s). if r \<noteq> 0 then Some (-1, s) else uvm_cow_share P C (a + 4096) end1 (kref_inc (PTE2PA e) s)))"
  by (subst uvm_cow_share.simps) (auto simp: walk_def walk_find leaf_def cow_entry_def cow_flags_def Let_def)

definition run_end :: "u64 \<Rightarrow> nat \<Rightarrow> u64 \<Rightarrow> bool" where
  "run_end a n end1 \<longleftrightarrow> unat a + 4096 * n \<le> 2 ^ 39 \<and> unat end1 \<le> unat a + 4096 * n \<and> (0 < n \<longrightarrow> unat a + 4096 * (n - 1) < unat end1)"

lemma run_end_step:
  assumes "run_end a n end1"
  shows "a < end1 \<longleftrightarrow> 0 < n" "n = Suc m \<Longrightarrow> unat (a + 4096) = unat a + 4096" "n = Suc m \<Longrightarrow> run_end (a + 4096) m end1"
    "0 < n \<Longrightarrow> vpn a + n \<le> 2 ^ 27"
proof -
  show "a < end1 \<longleftrightarrow> 0 < n" using assms by (cases n) (auto simp: run_end_def word_less_nat_alt)
  show u: "unat (a + 4096) = unat a + 4096" if "n = Suc m"
    using assms that by (simp add: run_end_def unat_word_ariths)
  show "run_end (a + 4096) m end1" if "n = Suc m"
    using assms that unfolding run_end_def u [OF that] by (cases m) auto
  show "vpn a + n \<le> 2 ^ 27" if "0 < n"
  proof -
    have "unat a < 2 ^ 39" using assms that by (simp add: run_end_def)
    moreover have "(unat a + 4096 * n) div 4096 \<le> 2 ^ 39 div 4096"
      by (rule div_le_mono) (use assms in \<open>simp add: run_end_def\<close>)
    ultimately show ?thesis by (simp add: vpn_small)
  qed
qed

lemma shared_skip:
  assumes "kmem_ok s xs" "owned 2 P s" "owned 2 C s" "tabs (mem s) 2 P \<inter> tabs (mem s) 2 C = {}" "\<not> bit (leaf (mem s) 2 P a) 0"
  shows "shared P C a 1 1 [] xs s s"
proof -
  have "\<not> bit (leaf (mem s) 2 P x) 0" if "vpn x = vpn a" for x using assms(5) leaf_vpn [OF that] by simp
  moreover have "shares (mem s) P a 1 p = 0" for p using assms(5) by (simp add: shares_Suc)
  ultimately show ?thesis using assms unfolding shared_def by (auto simp: same_kvm_def parent_entry_def)
qed

definition share_result :: "u64 \<Rightarrow> u64 \<Rightarrow> u64 \<Rightarrow> nat \<Rightarrow> u64 list \<Rightarrow> 'a kvm_scheme \<Rightarrow> int \<Rightarrow> 'a kvm_scheme \<Rightarrow> bool" where
  "share_result P C a n xs s r s' \<longleftrightarrow> (\<exists>j k ys zs. xs = ys @ zs \<and> length ys \<le> 2 * n \<and> shared P C a j k ys zs s s' \<and>
     (if k = n then r = 0 \<and> j = n else r = -1 \<and> zs = [] \<and> j = Suc k \<and> k < n))"

lemma share_resultI:
  "xs = ys @ zs \<Longrightarrow> length ys \<le> 2 * n \<Longrightarrow> shared P C a j k ys zs s s' \<Longrightarrow>
   if k = n then r = 0 \<and> j = n else r = -1 \<and> zs = [] \<and> j = Suc k \<and> k < n \<Longrightarrow> share_result P C a n xs s r s'"
  unfolding share_result_def by blast

text \<open>The rest of the run after its first page, put together with that page.\<close>

lemma share_continue:
  fixes s :: "'a kvm_scheme"
  assumes IH: "\<And>(s2 :: 'a kvm_scheme) zs. kmem_ok s2 zs \<Longrightarrow> owned 2 P s2 \<Longrightarrow> owned 2 C s2 \<Longrightarrow> tabs (mem s2) 2 P \<inter> tabs (mem s2) 2 C = {} \<Longrightarrow>
      held_run P C (a + 4096) n s2 \<Longrightarrow> \<exists>r s'. uvm_cow_share P C (a + 4096) end1 s2 = Some (r, s') \<and> share_result P C (a + 4096) n zs s2 r s'"
    and k: "kmem_ok s xs" and h: "held_run P C a (Suc n) s" and b: "vpn a + Suc n \<le> 2 ^ 27"
    and step: "uvm_cow_share P C a end1 s = uvm_cow_share P C (a + 4096) end1 s2" "shared P C a 1 1 ys zs s s2" "xs = ys @ zs" "length ys \<le> 2"
  shows "\<exists>r s'. uvm_cow_share P C a end1 s = Some (r, s') \<and> share_result P C a (Suc n) xs s r s'"
proof -
  have i: "kmem_ok s2 zs" "owned 2 P s2" "owned 2 C s2" "tabs (mem s2) 2 P \<inter> tabs (mem s2) 2 C = {}"
    using step(2) by (auto simp: shared_def)
  have kx: "kmem_ok s (ys @ zs)" using k step(3) by simp
  note h = held_next [OF step(2) h b kx]
  from IH [OF i h(1)] obtain r s' j k us ws where R:
    "uvm_cow_share P C (a + 4096) end1 s2 = Some (r, s')" "zs = us @ ws" "length us \<le> 2 * n" "shared P C (a + 4096) j k us ws s2 s'"
    "if k = n then r = 0 \<and> j = n else r = -1 \<and> ws = [] \<and> j = Suc k \<and> k < n" unfolding share_result_def by blast
  have jk: "k \<le> j" "j \<le> n" using R(5) by (auto split: if_splits)
  have "shared P C a (Suc j) (Suc k) (ys @ us) ws s s'"
  proof (rule shared_trans [OF step(2) [unfolded R(2)] R(4)])
    fix p assume "p \<in> set ys"
    then have "shares (mem s) P (a + 4096) n p = 0" using h(2) by (simp add: shares_Suc)
    then show "shares (mem s2) P (a + 4096) k p = 0"
      using shares_mono [of k n "mem s2" P "a + 4096" p] jk shares_after [OF step(2) b, of p] by simp
  qed (use jk b in auto)
  then have "share_result P C a (Suc n) xs s r s'" by (rule share_resultI [rotated 2]) (use R step jk in auto)
  then show ?thesis using R(1) step(1) by auto
qed

lemma share_ok:
  "kmem_ok s xs \<Longrightarrow> owned 2 P s \<Longrightarrow> owned 2 C s \<Longrightarrow> tabs (mem s) 2 P \<inter> tabs (mem s) 2 C = {} \<Longrightarrow>
   take_bit 12 a = 0 \<Longrightarrow> run_end a n end1 \<Longrightarrow> held_run P C a n s \<Longrightarrow>
   \<exists>r s'. uvm_cow_share P C a end1 s = Some (r, s') \<and> share_result P C a n xs s r s'"
proof (induction n arbitrary: a s xs)
  case 0
  then have "shared P C a 0 0 [] xs s s" by (simp add: shared_def same_kvm_def)
  then have "share_result P C a 0 xs s 0 s" by (intro share_resultI [of xs "[]" xs]) auto
  then show ?case using run_end_step(1) [OF 0(6)] by (subst share_unfold) auto
next
  case (Suc n)
  let ?e = "leaf (mem s) 2 P a"
  note end1 = run_end_step [OF Suc.prems(6)]
  have a4: "take_bit 12 (a + 4096) = 0"
    using Suc.prems(5) end1(2) [OF refl] by (simp add: aligned_iff_dvd)
  have b: "vpn a + Suc n \<le> 2 ^ 27" using end1(4) by simp
  have continue: ?case if "uvm_cow_share P C a end1 s = uvm_cow_share P C (a + 4096) end1 s2" "shared P C a 1 1 ys zs s s2" "xs = ys @ zs" "length ys \<le> 2"
    for s2 ys zs
    by (rule share_continue [OF _ Suc.prems(1,7) b that]) (rule Suc.IH, use a4 end1(3) in auto)
  show ?case
  proof (cases "bit ?e 0")
    case False
    then show ?thesis using end1(1) Suc.prems by (intro continue [OF _ shared_skip]) (auto simp: share_unfold [of P C a end1 s])
  next
    case True
    have run: "in_run a (Suc n) a" by (simp add: in_run_def)
    then have h: "0 < refs s (PTE2PA ?e)" "\<not> bit (leaf (mem s) 2 C a) 0" using Suc.prems(7) True unfolding held_run_def by blast+
    have "0 < shares (mem s) P a (Suc n) (PTE2PA ?e)" using True by (simp add: shares_Suc)
    then have h2: "refs s (PTE2PA ?e) < 255"
      using Suc.prems(7) [unfolded held_run_def, THEN conjunct2, rule_format, of "PTE2PA ?e"] by simp
    have top: "unat a + 4096 \<le> 2 ^ 39" using Suc.prems(6) by (simp add: run_end_def)
    obtain r s2 ys zs where m: "mappages C a 4096 (PTE2PA ?e) (cow_flags (PTE_FLAGS ?e))
        (if bit ?e 2 then s\<lparr>mem := st64 (mem s) (leaf_addr (mem s) 2 P a) (cow_entry ?e)\<rparr> else s) = Some (r, s2)"
      "xs = ys @ zs" "length ys \<le> 2"
      "if r = 0 then shared P C a 1 1 ys zs s (kref_inc (PTE2PA ?e) s2) else r = -1 \<and> zs = [] \<and> shared P C a 1 0 ys zs s s2"
      using share_step [OF Suc.prems(1-4) refl True Suc.prems(5) top h(2,1) h2] by metis
    have u: "uvm_cow_share P C a end1 s = (if r \<noteq> 0 then Some (-1, s2) else uvm_cow_share P C (a + 4096) end1 (kref_inc (PTE2PA ?e) s2))"
      using end1(1) True m(1) by (subst share_unfold) simp
    show ?thesis
    proof (cases "r = 0")
      case True
      with u m(2-4) show ?thesis by (intro continue [of "kref_inc (PTE2PA ?e) s2"]) auto
    next
      case False
      then have "share_result P C a (Suc n) xs s (-1) s2" using m(2-4) by (intro share_resultI [of xs ys zs _ _ _ _ 1 0]) auto
      with False u show ?thesis by auto
    qed
  qed
qed

section \<open>The write fault\<close>

lemma kmem_ok_mem:
  assumes "kmem_ok s xs" "\<forall>a. page_no a \<notin> page_no ` T \<longrightarrow> m a = mem s a" "T \<inter> set xs = {}" "\<forall>p \<in> T. ram_page p"
  shows "kmem_ok (s\<lparr>mem := m\<rparr>) xs"
proof -
  have "ld64 m y = ld64 (mem s) y" if "y \<in> set xs" for y
  proof (rule ld64_same_page)
    have y: "ram_page y" using assms(1) that by (simp add: kmem_ok_def)
    then show "take_bit 3 y = 0" by (rule ram_page_dword)
    fix b assume "page_no b = page_no y"
    moreover have "page_no y \<notin> page_no ` T" using y assms(3,4) that by (auto simp: page_no_inject)
    ultimately show "m b = mem s b" using assms(2) by simp
  qed
  then have "chain m (freelist s) xs = chain (mem s) (freelist s) xs" by (rule chain_cong)
  then show ?thesis using assms(1) by (simp add: kmem_ok_def)
qed

definition own_flags :: "u64 \<Rightarrow> u64" where
  "own_flags e = (PTE_FLAGS e AND NOT PTE_COW) OR PTE_W"

definition own_entry :: "u64 \<Rightarrow> u64 \<Rightarrow> u64" where
  "own_entry x e = PA2PTE x OR own_flags e"

lemma own_entry_bits:
  "bit (own_entry x e) 0 \<longleftrightarrow> bit e 0" "bit (own_entry x e) 1 \<longleftrightarrow> bit e 1" "bit (own_entry x e) 2"
  "bit (own_entry x e) 3 \<longleftrightarrow> bit e 3" "bit (own_entry x e) 4 \<longleftrightarrow> bit e 4" "\<not> bit (own_entry x e) 8"
  unfolding own_entry_def by (simp_all add: bit_make_low) (auto simp: own_flags_def bit_or_iff bit_and_iff bit_not_iff)

lemma own_entry_PA: "ram_page x \<Longrightarrow> PTE2PA (own_entry x e) = x"
  unfolding own_entry_def
  by (rule PTE2PA_make) (auto simp: ram_page_aligned own_flags_def bit_simps intro!: bit_word_eqI)

lemma cow_fault_other: "\<not> (bit (leaf (mem s) 2 pt va) 0 \<and> bit (leaf (mem s) 2 pt va) 8) \<Longrightarrow> uvm_cow_fault pt va s = (0, s)"
  using leaf_vpn [OF vpn_round_down, of "mem s" pt va] by (auto simp: uvm_cow_fault_def walk_def walk_find leaf_def split: if_splits)

lemma cow_fault_empty: "kmem_ok s [] \<Longrightarrow> uvm_cow_fault pt va s = (0, s)"
  by (auto simp: uvm_cow_fault_def walk_def walk_find kalloc_empty)

text \<open>With a page \<open>x\<close> to take, and the old page held and no table of its own.\<close>

lemma cow_fault_copy:
  assumes k: "kmem_ok s (x # xs)" and o: "owned 2 pt s" and e: "e = leaf (mem s) 2 pt va" "bit e 0" "bit e 8"
    and old: "0 < refs s (PTE2PA e)" "PTE2PA e \<notin> tabs (mem s) 2 pt"
  obtains s2 where "uvm_cow_fault pt va s = (1, kfree (PTE2PA e) s2)" "kmem_ok s2 xs" "owned 2 pt s2" "tabs (mem s2) 2 pt = tabs (mem s) 2 pt"
    "refs s2 = (refs s)(x := 1)" "\<And>y. leaf (mem s2) 2 pt y = (if vpn y = vpn va then own_entry x e else leaf (mem s) 2 pt y)"
    "\<And>a. page_no a = page_no x \<Longrightarrow> mem s2 a = mem s (PTE2PA e + (a - x))"
    "\<And>a. page_no a \<notin> page_no ` insert x (tabs (mem s) 2 pt) \<Longrightarrow> mem s2 a = mem s a" "kmem.more s2 = kmem.more s"
proof -
  let ?p = "leaf_addr (mem s) 2 pt (PGROUNDDOWN va)" and ?o = "PTE2PA e"
  have e': "e = leaf (mem s) 2 pt (PGROUNDDOWN va)" using e(1) leaf_vpn [OF vpn_round_down] by simp
  then have p: "?p \<noteq> 0" "ld64 (mem s) ?p = e" using e(2) by (auto simp: leaf_def split: if_splits)
  note ka = kalloc_Cons [OF k]
  define s1 where "s1 = s\<lparr>freelist := ld64 (mem s) x, freecnt := freecnt s - 1, refcnt := (refcnt s)(refidx x := 1)\<rparr>"
  define m1 where "m1 = copy_loop (mem s) x ?o 4096"
  have x: "ram_page x" "refs s x = 0" "x \<notin> set xs" using k kmem_ok_free_iff [OF k] by (auto simp: kmem_ok_def)
  have ro: "ram_page ?o" "?o \<noteq> x" using held_not_free [OF k old(1)] by auto
  have m1: "m1 = (\<lambda>a. if page_no a = page_no x then mem s (?o + (a - x)) else mem s a)"
    unfolding m1_def by (rule copy_page_eq) (use ram_page_aligned x(1) ro in auto)
  have xt: "x \<notin> tabs (mem s) 2 pt" using owned_not_free [OF k o] by auto
  define sc where "sc = s1\<lparr>mem := m1\<rparr>"
  have off_x: "\<forall>a. page_no a \<notin> page_no ` {x} \<longrightarrow> m1 a = mem s a" by (simp add: m1)
  have wf: "wf_tab (mem s) 2 pt" using o by (simp add: owned_def)

  have tab: "tabs m1 2 pt = tabs (mem s) 2 pt" "wf_tab m1 2 pt" "\<And>y. leaf m1 2 pt y = leaf (mem s) 2 pt y"
      "\<And>y. leaf_addr m1 2 pt y = leaf_addr (mem s) 2 pt y"
    using other_table [OF wf off_x] xt x(1) by auto
  have kc: "kmem_ok sc xs"
  proof -
    have "kmem_ok s1 xs" "mem s1 = mem s" using ka(2) by (simp_all add: s1_def)
    then show ?thesis unfolding sc_def using off_x x kmem_ok_D(3) [OF k]
      by (intro kmem_ok_mem [where T = "{x}"]) auto
  qed
  have refs: "refs sc = (refs s)(x := 1)" using ka(3) by (simp add: sc_def s1_def)
  have "mem sc = m1" by (simp add: sc_def)
  then have oc: "owned 2 pt sc" using o tab(1,2) xt unfolding owned_def refs by auto
  have pc: "?p = leaf_addr (mem sc) 2 pt (PGROUNDDOWN va)" using tab(4) by (simp add: sc_def)
  have "ld64 m1 ?p = leaf m1 2 pt (PGROUNDDOWN va)" using p(1) tab(4) by (simp add: leaf_def)
  then have ld: "ld64 m1 ?p = e" using tab(3) e' by simp
  note w = set_entry(1,2) [OF kc oc pc p(1), where v = "own_entry x e"]
  let ?s2 = "sc\<lparr>mem := st64 (mem sc) ?p (own_entry x e)\<rparr>"
  show ?thesis
  proof (rule that [of ?s2])
    show "uvm_cow_fault pt va s = (1, kfree ?o ?s2)"
      using p e ka(1) x(1) ld ram_page_nonzero
      by (simp add: uvm_cow_fault_def walk_def walk_find Let_def sc_def s1_def m1_def own_entry_def own_flags_def)
    show "kmem_ok ?s2 xs" "owned 2 pt ?s2" "tabs (mem ?s2) 2 pt = tabs (mem s) 2 pt" "refs ?s2 = (refs s)(x := 1)"
      using w(1) tabled_owned [OF oc w(1)] tab(1) refs by (auto simp: tabled_def sc_def)
    show "leaf (mem ?s2) 2 pt y = (if vpn y = vpn va then own_entry x e else leaf (mem s) 2 pt y)" for y
      using w(2) [of y] tab(3) by (simp add: sc_def)
    have frame: "mem ?s2 a = m1 a" if "page_no a \<notin> page_no ` tabs (mem s) 2 pt" for a
      using w(1) that tab(1) by (simp add: tabled_def sc_def)
    show "mem ?s2 a = mem s (?o + (a - x))" if "page_no a = page_no x" for a
    proof -
      have "page_no x \<notin> page_no ` tabs (mem s) 2 pt" using xt x(1) wf_tab_ram [OF wf] by (auto simp: page_no_inject)
      then show ?thesis using frame [of a] that by (simp add: m1)
    qed
    show "mem ?s2 a = mem s a" if "page_no a \<notin> page_no ` insert x (tabs (mem s) 2 pt)" for a
      using frame [of a] that by (simp add: m1)
    show "kmem.more ?s2 = kmem.more s" by (simp add: sc_def s1_def)
  qed
qed

text \<open>
  Sharing at fork. For a heap range of \<open>n\<close> pages of which the child has none yet,
  \<^verbatim>\<open>uvm_cow_share\<close> returns. When it succeeds, every page the parent has mapped is mapped
  in the child at the same place to the same physical page; in both tables it is read-only and
  marked copy-on-write if it was writable, all other permissions as before; every physical page has one
  more reference per mapping made; nothing else of either address space changes, no byte of any
  page outside the two tables is written. It fails only when the allocator has run
  out of pages for the child's tables, and then the same holds of a prefix of the range.
\<close>
theorem uvm_cow_share_correct:
  assumes "kmem_ok s xs" "owned 2 P s" "owned 2 C s" "tabs (mem s) 2 P \<inter> tabs (mem s) 2 C = {}" "take_bit 12 a = 0"
    and "run_end a n end1" "held_run P C a n s"
  shows "\<exists>r s'. uvm_cow_share P C a end1 s = Some (r, s') \<and> share_result P C a n xs s r s' \<and> (2 * n < length xs \<longrightarrow> r = 0)"
proof -
  obtain r s' where *: "uvm_cow_share P C a end1 s = Some (r, s')" "share_result P C a n xs s r s'" using share_ok [OF assms] by blast
  have "r = 0" if "2 * n < length xs" using *(2) that by (auto simp: share_result_def split: if_splits)
  with * show ?thesis by blast
qed

lemma share_enough:
  assumes "kmem_ok s xs" "owned 2 P s" "owned 2 C s" "tabs (mem s) 2 P \<inter> tabs (mem s) 2 C = {}" "take_bit 12 a = 0"
    and "run_end a n end1" "held_run P C a n s" "2 * n < length xs"
  obtains s' ys z zs where "uvm_cow_share P C a end1 s = Some (0, s')" "xs = ys @ z # zs" "shared P C a n n ys (z # zs) s s'"
proof -
  obtain r s' j k ys zs where *: "uvm_cow_share P C a end1 s = Some (r, s')" "xs = ys @ zs" "length ys \<le> 2 * n"
      "shared P C a j k ys zs s s'" "if k = n then r = 0 \<and> j = n else r = -1 \<and> zs = [] \<and> j = Suc k \<and> k < n"
    using share_ok [OF assms(1-7)] unfolding share_result_def by blast
  have "zs \<noteq> []" using *(2,3) assms(8) by auto
  then obtain z zs' where "zs = z # zs'" by (cases zs) auto
  with * that show ?thesis by (auto split: if_splits)
qed

lemma page_contents:
  assumes "take_bit 12 p = 0" "i < 4096"
  shows "page_no (p + i) = page_no p"
  using assms by (intro drop_bit_add_offset) (simp_all add: word_less_nat_alt)

lemma mapped_shares:
  assumes "in_run a n va" "bit (leaf m 2 P va) 0" "vpn a + n \<le> 2 ^ 27"
  shows "0 < shares m P a n (PTE2PA (leaf m 2 P va))"
proof -
  let ?j = "vpn va - vpn a" and ?p = "PTE2PA (leaf m 2 P va)"
  have j: "?j < n" "vpn a + ?j = vpn va" using assms(1) by (auto simp: in_run_def)
  have "vpn (a + of_nat (4096 * ?j)) = vpn va" unfolding vpn_add j(2) using vpn_less by simp
  from leaf_vpn [OF this, of m P] have "?j \<in> set (filter (\<lambda>j. bit (leaf m 2 P (a + of_nat (4096 * j))) 0 \<and>
      PTE2PA (leaf m 2 P (a + of_nat (4096 * j))) = ?p) [0..<n])"
    using j(1) assms(2) by (simp del: of_nat_mult)
  then show ?thesis unfolding shares_def by (rule length_pos_if_in_set)
qed

text \<open>
  A write fault on a copy-on-write page that another table shares: the faulting table gets a copy of its own,
  the other table and the old page are untouched.
\<close>

lemma fault_isolated:
  assumes k: "kmem_ok s (z # zs)" and C: "owned 2 C s" "bit (leaf (mem s) 2 C va) 0" "bit (leaf (mem s) 2 C va) 8"
    and P: "owned 2 P s" "tabs (mem s) 2 P \<inter> tabs (mem s) 2 C = {}"
    and p: "p = PTE2PA (leaf (mem s) 2 C va)" "1 < refs s p" "p \<notin> tabs (mem s) 2 C"
  obtains s' where "uvm_cow_fault C va s = (1, s')" "leaf (mem s') 2 C va = own_entry z (leaf (mem s) 2 C va)"
    "leaf (mem s') 2 P va = leaf (mem s) 2 P va" "\<forall>i < 4096. mem s' (z + i) = mem s (p + i) \<and> mem s' (p + i) = mem s (p + i)"
    "refs s' z = 1" "refs s' p + 1 = refs s p"
proof -
  have old: "0 < refs s p" using p(2) by simp
  have rp: "ram_page p" and pz: "p \<noteq> z" using held_not_free [OF k old] by auto
  have z: "ram_page z" "z \<notin> tabs (mem s) 2 P" using kmem_ok_D(3) [OF k] owned_not_free [OF k P(1)] by auto
  have ram: "\<forall>q \<in> insert z (tabs (mem s) 2 C). ram_page q" using z(1) C(1) wf_tab_ram by (auto simp: owned_def)
  show thesis
  proof (rule cow_fault_copy [OF k C(1) refl C(2,3) old [unfolded p(1)] p(3) [unfolded p(1)]], fold p(1))
    fix s2 assume f: "uvm_cow_fault C va s = (1, kfree p s2)" "kmem_ok s2 zs" "refs s2 = (refs s)(z := 1)"
      and leafs: "\<And>y. leaf (mem s2) 2 C y = (if vpn y = vpn va then own_entry z (leaf (mem s) 2 C va) else leaf (mem s) 2 C y)"
      and copy: "\<And>b. page_no b = page_no z \<Longrightarrow> mem s2 b = mem s (p + (b - z))"
      and other: "\<And>b. page_no b \<notin> page_no ` insert z (tabs (mem s) 2 C) \<Longrightarrow> mem s2 b = mem s b"
    have "1 < refs s2 p" using f(3) p(2) pz by simp
    note fr = kfree_shared [OF f(2) this]
    show thesis
    proof (rule that)
      show "leaf (mem (kfree p s2)) 2 P va = leaf (mem s) 2 P va"
        unfolding fr(3)
      proof (rule other_table(3))
        show "\<forall>b. page_no b \<notin> page_no ` insert z (tabs (mem s) 2 C) \<longrightarrow> mem s2 b = mem s b" using other by blast
        show "tabs (mem s) 2 P \<inter> insert z (tabs (mem s) 2 C) = {}" using P(2) z(2) by blast
      qed (use P(1) ram in \<open>simp_all add: owned_def\<close>)
      have "page_no p \<notin> page_no ` insert z (tabs (mem s) 2 C)" using ram rp pz p(3) by (auto simp: page_no_inject)
      then show "\<forall>i < 4096. mem (kfree p s2) (z + i) = mem s (p + i) \<and> mem (kfree p s2) (p + i) = mem s (p + i)"
        using copy other page_contents [OF ram_page_aligned [OF z(1)]] page_contents [OF ram_page_aligned [OF rp]] by (auto simp: fr(3))
      show "refs (kfree p s2) z = 1" "refs (kfree p s2) p + 1 = refs s p" using fr(2) f(3) pz p(2) by auto
    qed (use f(1) leafs in \<open>simp_all add: fr(3)\<close>)
  qed
qed

text \<open>
  Claim C24. Fork is a copy. After the heap was shared with enough memory left, a write fault in the child on a
  page that was writable gives it a page of its own: a fresh page with the contents the parent's page had
  at the fork, writable and no longer copy-on-write. The parent still maps the old page, with the old contents,
  read-only until its own fault, and the child has given up its reference to that page.
\<close>
theorem cow_isolation:
  assumes "kmem_ok s xs" "owned 2 P s" "owned 2 C s" "tabs (mem s) 2 P \<inter> tabs (mem s) 2 C = {}" "take_bit 12 a = 0"
    and "run_end a n end1" "held_run P C a n s" "2 * n < length xs"
    and "in_run a n va" "bit (leaf (mem s) 2 P va) 0" "bit (leaf (mem s) 2 P va) 2"
    and "p = PTE2PA (leaf (mem s) 2 P va)" "p \<notin> tabs (mem s) 2 P" "p \<notin> tabs (mem s) 2 C"
  shows "\<exists>s1 s2 c. uvm_cow_share P C a end1 s = Some (0, s1) \<and> uvm_cow_fault C va s1 = (1, s2) \<and>
     PTE2PA (leaf (mem s2) 2 P va) = p \<and> PTE2PA (leaf (mem s2) 2 C va) = c \<and> c \<noteq> p \<and> refs s c = 0 \<and>
     (\<forall>i < 4096. mem s2 (c + i) = mem s (p + i) \<and> mem s2 (p + i) = mem s (p + i)) \<and>
     bit (leaf (mem s2) 2 C va) 2 \<and> \<not> bit (leaf (mem s2) 2 C va) 8 \<and>
     \<not> bit (leaf (mem s2) 2 P va) 2 \<and> bit (leaf (mem s2) 2 P va) 8 \<and>
     refs s2 c = 1 \<and> refs s2 p + 1 = refs s p + shares (mem s) P a n p"
proof -
  obtain s1 ys z zs where sh: "uvm_cow_share P C a end1 s = Some (0, s1)" "xs = ys @ z # zs" "shared P C a n n ys (z # zs) s s1"
    by (rule share_enough [OF assms(1-8)])
  let ?e = "leaf (mem s) 2 P va"
  have n: "0 < n" using assms(9) by (cases n) auto
  have ps: "0 < shares (mem s) P a n p" unfolding assms(12) by (rule mapped_shares [OF assms(9,10) run_end_step(4) [OF assms(6) n]])
  have held: "0 < refs s p" using assms(7,9,10,12) unfolding held_run_def by blast
  have free: "refs s y = 0" if "y \<in> set xs" for y using kmem_ok_free_iff [OF assms(1) that] .
  have pys: "p \<notin> set ys" "p \<noteq> z" "refs s z = 0" using held free sh(2) by auto
  have s1: "leaf (mem s1) 2 C va = cow_entry ?e" "leaf (mem s1) 2 P va = cow_entry ?e" "refs s1 p = refs s p + shares (mem s) P a n p"
      "kmem_ok s1 (z # zs)" "owned 2 C s1" "owned 2 P s1" "tabs (mem s1) 2 C = tabs (mem s) 2 C \<union> set ys" "tabs (mem s1) 2 P \<inter> tabs (mem s1) 2 C = {}"
    using sh(3) assms(9-11) pys(1) by (auto simp: shared_def parent_entry_def)
  have e1: "bit (leaf (mem s1) 2 C va) 0" "bit (leaf (mem s1) 2 C va) 8" "p = PTE2PA (leaf (mem s1) 2 C va)"
      "p \<notin> tabs (mem s1) 2 C"
    using assms(10-12,14) pys(1) by (auto simp: s1 cow_entry_bits)
  have two: "1 < refs s1 p" using s1(3) held ps by simp
  obtain s2 where f: "uvm_cow_fault C va s1 = (1, s2)" "leaf (mem s2) 2 C va = own_entry z (leaf (mem s1) 2 C va)"
      "leaf (mem s2) 2 P va = leaf (mem s1) 2 P va" "\<forall>i < 4096. mem s2 (z + i) = mem s1 (p + i) \<and> mem s2 (p + i) = mem s1 (p + i)"
      "refs s2 z = 1" "refs s2 p + 1 = refs s1 p"
    by (rule fault_isolated [OF s1(4,5) e1(1,2) s1(6,8) e1(3) two e1(4)])
  have rp: "ram_page p" using held_not_free [OF assms(1) held] by simp
  have "\<forall>q \<in> tabs (mem s) 2 P \<union> tabs (mem s) 2 C \<union> set ys. ram_page q"
    using assms(1-3) sh(2) wf_tab_ram by (auto simp: owned_def kmem_ok_def)
  then have "page_no p \<notin> page_no ` (tabs (mem s) 2 P \<union> tabs (mem s) 2 C \<union> set ys)"
    using rp assms(13,14) pys by (auto simp: page_no_inject)
  then have keep: "mem s1 (p + i) = mem s (p + i)" if "i < 4096" for i
    using sh(3) page_contents [OF ram_page_aligned [OF rp] that] by (simp add: shared_def)
  have "ram_page z" using kmem_ok_D(3) [OF s1(4)] by simp
  then have "PTE2PA (leaf (mem s2) 2 P va) = p" "PTE2PA (leaf (mem s2) 2 C va) = z" "bit (leaf (mem s2) 2 C va) 2"
    "\<not> bit (leaf (mem s2) 2 C va) 8" "\<not> bit (leaf (mem s2) 2 P va) 2" "bit (leaf (mem s2) 2 P va) 8"
    using assms(11,12) by (simp_all add: f s1 own_entry_PA own_entry_bits cow_entry_bits)
  then show ?thesis
    using sh(1) f keep pys(2,3) s1(3) by (intro exI [of _ s1] exI [of _ s2] exI [of _ z]) simp
qed

section \<open>On the small machine\<close>

text \<open>The parent's table, the child's and a heap page of the parent's.\<close>

definition lab_P :: u64 where "lab_P = 0x87ff0000"
definition lab_C :: u64 where "lab_C = 0x87ff1000"
definition lab_D :: u64 where "lab_D = 0x87ff2000"

lemma lab_pages:
  "ram_page lab_P" "lab_P \<notin> set lab_free" "ram_page lab_C" "lab_C \<notin> set lab_free" "ram_page lab_D" "lab_D \<notin> set lab_free"
  "lab_P \<noteq> lab_C" "lab_P \<noteq> lab_D" "lab_C \<noteq> lab_D"
  by (simp_all add: lab_P_def lab_C_def lab_D_def ram_page_def RAMBASE_def PHYSTOP_def lab_free_def)

definition lab_heap :: "kvm \<Rightarrow> u64 list \<Rightarrow> bool" where
  "lab_heap s xs \<longleftrightarrow> mappages lab_P HEAPBASE 4096 lab_D (PTE_R OR PTE_W OR PTE_U) lab = Some (0, s) \<and> kmem_ok s xs \<and> 3 \<le> length xs \<and>
     owned 2 lab_P s \<and> owned 2 lab_C s \<and> tabs (mem s) 2 lab_P \<inter> tabs (mem s) 2 lab_C = {} \<and> lab_D \<notin> tabs (mem s) 2 lab_C \<and>
     lab_D \<notin> tabs (mem s) 2 lab_P \<and> refs s lab_D = 1 \<and> (\<forall>x. leaf (mem s) 2 lab_C x = 0) \<and>
     (\<forall>x. leaf (mem s) 2 lab_P x = (if vpn x = 16 then PA2PTE lab_D OR (PTE_R OR PTE_W OR PTE_U OR PTE_V) else 0))"

lemma lab_heap_exists: "\<exists>s xs. lab_heap s xs"
proof -
  note P = lab_table [OF lab_pages(1,2)] and C = lab_table [OF lab_pages(3,4)]
  have H: "take_bit 12 HEAPBASE = 0" "unat HEAPBASE + 4096 \<le> 2 ^ 39" "vpn HEAPBASE = 16" by (simp_all add: HEAPBASE_def vpn_def)
  obtain r s ys zs where m: "mappages lab_P HEAPBASE 4096 lab_D (PTE_R OR PTE_W OR PTE_U) lab = Some (r, s)" "lab_free = ys @ zs" "length ys \<le> 2"
    "tabled lab_P ys zs lab s" "same_kvm lab s" "r = 0 \<or> r = -1 \<and> zs = []"
    "\<And>x. leaf (mem s) 2 lab_P x = (if r = 0 \<and> vpn x = vpn HEAPBASE then PA2PTE lab_D OR (PTE_R OR PTE_W OR PTE_U) OR PTE_V else leaf (mem lab) 2 lab_P x)"
  proof -
    have "\<not> bit (leaf (mem lab) 2 lab_P HEAPBASE) 0" by (simp add: P(3))
    from map_one [OF lab_ok P(1) H(1,2) this, of lab_D "PTE_R OR PTE_W OR PTE_U"] that show ?thesis by metis
  qed
  have "length lab_free = 5" by (simp add: lab_free_def)
  then have "length ys + length zs = 5" unfolding m(2) length_append .
  then have zs: "3 \<le> length zs" using m(3) by simp
  then have r: "r = 0" using m(6) by auto
  have d: "tabs (mem lab) 2 lab_C \<inter> tabs (mem lab) 2 lab_P = {}" using P(2) C(2) lab_pages(7) by simp
  note c = tabled_other [OF lab_ok [unfolded m(2)] P(1) C(1) d m(4)]
  have "lab_D \<notin> set ys" using lab_pages(6) unfolding m(2) by simp
  then have "lab_D \<notin> tabs (mem s) 2 lab_P" "refs s lab_D = 1" "kmem_ok s zs"
    using m(4) P(2) lab_pages(8) lab_refs [OF lab_pages(5,6)] by (auto simp: tabled_def)
  moreover have "lab_D \<notin> tabs (mem s) 2 lab_C" using c(2) C(2) lab_pages(9) by simp
  moreover have "tabs (mem s) 2 lab_P \<inter> tabs (mem s) 2 lab_C = {}" using c(3) by blast
  ultimately have "lab_heap s zs"
    unfolding lab_heap_def using m(1,7) r zs c(1,4) P(3) C(3) H(3) tabled_owned [OF P(1) m(4)] by (simp add: or.assoc)
  then show ?thesis by blast
qed

lemma lab_share_premises:
  assumes h: "lab_heap s xs"
  shows "take_bit 12 HEAPBASE = 0" "run_end HEAPBASE 1 0x11000" "held_run lab_P lab_C HEAPBASE 1 s" "in_run HEAPBASE 1 0x10123"
    "PTE2PA (leaf (mem s) 2 lab_P 0x10123) = lab_D" "bit (leaf (mem s) 2 lab_P 0x10123) 0" "bit (leaf (mem s) 2 lab_P 0x10123) 2"
    "shares (mem s) lab_P HEAPBASE 1 p = (if p = lab_D then 1 else 0)"
proof -
  have leaves: "leaf (mem s) 2 lab_P x = (if vpn x = 16 then PA2PTE lab_D OR (PTE_R OR PTE_W OR PTE_U OR PTE_V) else 0)" for x
    using h by (simp add: lab_heap_def)
  have pa: "PTE2PA (PA2PTE lab_D OR (PTE_R OR PTE_W OR PTE_U OR PTE_V)) = lab_D"
    by (rule PTE2PA_make) (simp_all add: lab_D_def PTE_R_def PTE_W_def PTE_U_def PTE_V_def)
  have H: "vpn HEAPBASE = 16" "vpn 0x10123 = 16" by (simp_all add: HEAPBASE_def vpn_def)
  show "take_bit 12 HEAPBASE = 0" "run_end HEAPBASE 1 0x11000" by (simp_all add: HEAPBASE_def run_end_def)
  show "in_run HEAPBASE 1 0x10123" "PTE2PA (leaf (mem s) 2 lab_P 0x10123) = lab_D" "bit (leaf (mem s) 2 lab_P 0x10123) 0" "bit (leaf (mem s) 2 lab_P 0x10123) 2"
    by (simp_all add: H leaves pa bit_make_low) (auto simp: bit_or_iff)
  have sh: "shares (mem s) lab_P HEAPBASE 1 p = (if p = lab_D then 1 else 0)" for p
    unfolding One_nat_def shares_Suc by (auto simp: H leaves pa bit_make_low bit_or_iff)
  then show "shares (mem s) lab_P HEAPBASE 1 p = (if p = lab_D then 1 else 0)" .
  show "held_run lab_P lab_C HEAPBASE 1 s"
    unfolding held_run_def sh using h by (auto simp: lab_heap_def H pa)
qed

theorem uvm_cow_share_correct_witness:
  "\<exists>s s'. mappages lab_P HEAPBASE 4096 lab_D (PTE_R OR PTE_W OR PTE_U) lab = Some (0, s) \<and>
     uvm_cow_share lab_P lab_C HEAPBASE 0x11000 s = Some (0, s')"
proof -
  obtain s xs where h: "lab_heap s xs" using lab_heap_exists by blast
  note p = lab_share_premises [OF h] and l = h [unfolded lab_heap_def]
  have "\<exists>r s'. uvm_cow_share lab_P lab_C HEAPBASE 0x11000 s = Some (r, s') \<and> share_result lab_P lab_C HEAPBASE 1 xs s r s' \<and>
      (2 * 1 < length xs \<longrightarrow> r = 0)"
    by (rule uvm_cow_share_correct) (use l p in auto)
  then show ?thesis using l by auto
qed

theorem cow_isolation_witness:
  "\<exists>s s1 s2 c. mappages lab_P HEAPBASE 4096 lab_D (PTE_R OR PTE_W OR PTE_U) lab = Some (0, s) \<and>
     uvm_cow_share lab_P lab_C HEAPBASE 0x11000 s = Some (0, s1) \<and> uvm_cow_fault lab_C 0x10123 s1 = (1, s2) \<and>
     PTE2PA (leaf (mem s2) 2 lab_P 0x10123) = lab_D \<and> PTE2PA (leaf (mem s2) 2 lab_C 0x10123) = c \<and> c \<noteq> lab_D \<and> refs s2 lab_D = 1"
proof -
  obtain s xs where h: "lab_heap s xs" using lab_heap_exists by blast
  note p = lab_share_premises [OF h] and l = h [unfolded lab_heap_def]
  have k: "kmem_ok s xs" "owned 2 lab_P s" "owned 2 lab_C s" "tabs (mem s) 2 lab_P \<inter> tabs (mem s) 2 lab_C = {}" "2 * 1 < length xs"
    "lab_D \<notin> tabs (mem s) 2 lab_P" "lab_D \<notin> tabs (mem s) 2 lab_C" "refs s lab_D = 1" using l by auto
  from cow_isolation [OF k(1-4) p(1-3) k(5) p(4,6,7) p(5) [symmetric] k(6,7)] show ?thesis
    using l p(8) [of lab_D] k(8) by auto
qed

end
