(* ===== verification/VmFree.thy ===== *)
theory VmFree
  imports VmCow
begin

text \<open>
  Giving memory back: \<^verbatim>\<open>vm_free_range\<close> drops the references of the pages mapped in a range, \<^verbatim>\<open>freewalk\<close>
  returns the pages of a table itself.
\<close>

section \<open>A range\<close>

text \<open>
  \<open>released pt n a zs xs s s'\<close>: from \<open>s\<close> to \<open>s'\<close> the first \<open>n\<close> pages from \<open>a\<close> on were unmapped; the pages \<open>zs\<close>
  lost their last reference and went to the free list.
\<close>

definition released :: "u64 \<Rightarrow> u64 \<Rightarrow> nat \<Rightarrow> u64 list \<Rightarrow> u64 list \<Rightarrow> 'a kmem_scheme \<Rightarrow> 'a kmem_scheme \<Rightarrow> bool" where
  "released pt a n zs xs s s' \<longleftrightarrow> kmem_ok s' (zs @ xs) \<and> owned 2 pt s' \<and> tabs (mem s') 2 pt = tabs (mem s) 2 pt \<and>
     (\<forall>x. leaf (mem s') 2 pt x = (if in_run a n x \<and> bit (leaf (mem s) 2 pt x) 0 then 0 else leaf (mem s) 2 pt x)) \<and>
     (\<forall>p. refs s' p + shares (mem s) pt a n p = refs s p) \<and>
     set zs = {p. 0 < refs s p \<and> refs s' p = 0} \<and>
     (\<forall>b. page_no b \<notin> page_no ` (tabs (mem s) 2 pt \<union> set zs) \<longrightarrow> mem s' b = mem s b) \<and> kmem.more s' = kmem.more s"

definition droppable :: "u64 \<Rightarrow> u64 \<Rightarrow> nat \<Rightarrow> 'a kmem_scheme \<Rightarrow> bool" where
  "droppable pt a n s \<longleftrightarrow> (\<forall>p. shares (mem s) pt a n p \<le> refs s p \<and> (0 < shares (mem s) pt a n p \<longrightarrow> p \<notin> tabs (mem s) 2 pt))"

lemma free_unfold:
  "vm_free_range pt a end1 s =
     (if \<not> a < end1 then Some s
      else let e = leaf (mem s) 2 pt a in
        vm_free_range pt (a + 4096) end1
          (if bit e 0 then (kfree (PTE2PA e) s)\<lparr>mem := st64 (mem (kfree (PTE2PA e) s)) (leaf_addr (mem s) 2 pt a) 0\<rparr> else s))"
  by (subst vm_free_range.simps) (auto simp: walk_def walk_find leaf_def Let_def)

text \<open>Dropping one reference to a page that is not a table.\<close>

lemma kfree_held:
  assumes k: "kmem_ok s xs" and o: "owned 2 pt s" and p: "0 < refs s p" "p \<notin> tabs (mem s) 2 pt"
  obtains zs where "kmem_ok (kfree p s) (zs @ xs)" "refs (kfree p s) = (refs s)(p := refs s p - 1)"
    "set zs = (if refs s p = 1 then {p} else {})" "owned 2 pt (kfree p s)" "tabs (mem (kfree p s)) 2 pt = tabs (mem s) 2 pt"
    "\<forall>x. leaf (mem (kfree p s)) 2 pt x = leaf (mem s) 2 pt x" "\<forall>x. leaf_addr (mem (kfree p s)) 2 pt x = leaf_addr (mem s) 2 pt x"
    "\<forall>b. page_no b \<notin> page_no ` set zs \<longrightarrow> mem (kfree p s) b = mem s b" "kmem.more (kfree p s) = kmem.more s"
proof -
  have rp: "ram_page p" "p \<notin> set xs" using held_not_free [OF k p(1)] by auto
  have wf: "wf_tab (mem s) 2 pt" "\<forall>q \<in> tabs (mem s) 2 pt. 0 < refs s q" using o by (auto simp: owned_def)
  have more: "kmem.more (kfree p s) = kmem.more s" by (simp add: kfree_def Let_def)
  show ?thesis
  proof (cases "refs s p = 1")
    case True
    note f = kfree_last [OF k rp] 
    have "\<forall>b. page_no b \<notin> page_no ` {p} \<longrightarrow> mem (kfree p s) b = mem s b" using f(3) True by simp
    note t = other_table [OF wf(1) this]
    have "owned 2 pt (kfree p s)" using t(1,2) p(2) rp(1) wf(2) f(2) True by (auto simp: owned_def)
    then show ?thesis using t p(2) rp(1) f True more by (intro that [of "[p]"]) auto
  next
    case False
    then have "1 < refs s p" using p(1) by simp
    note f = kfree_shared [OF k this]
    then show ?thesis using False more wf p(1) by (intro that [of "[]"]) (auto simp: owned_def)
  qed
qed

lemma release_step:
  assumes k: "kmem_ok s xs" and o: "owned 2 pt s" and e: "e = leaf (mem s) 2 pt a" "bit e 0" and d: "droppable pt a (Suc n) s"
  defines "s2 \<equiv> (kfree (PTE2PA e) s)\<lparr>mem := st64 (mem (kfree (PTE2PA e) s)) (leaf_addr (mem s) 2 pt a) 0\<rparr>"
  obtains zs where "released pt a 1 zs xs s s2"
proof -
  let ?p = "PTE2PA e" and ?l = "leaf_addr (mem s) 2 pt a"
  have one: "shares (mem s) pt a 1 q = (if q = ?p then 1 else 0)" for q
    unfolding One_nat_def shares_Suc using e by simp
  have "0 < shares (mem s) pt a (Suc n) ?p" using e by (simp add: shares_Suc)
  then have p: "0 < refs s ?p" "?p \<notin> tabs (mem s) 2 pt"
    using d unfolding droppable_def by (meson le_trans not_less)+
  from kfree_held [OF k o p] obtain zs where f: "kmem_ok (kfree ?p s) (zs @ xs)" "refs (kfree ?p s) = (refs s)(?p := refs s ?p - 1)"
    "set zs = (if refs s ?p = 1 then {?p} else {})" "owned 2 pt (kfree ?p s)" "tabs (mem (kfree ?p s)) 2 pt = tabs (mem s) 2 pt"
    "\<forall>x. leaf (mem (kfree ?p s)) 2 pt x = leaf (mem s) 2 pt x" "\<forall>x. leaf_addr (mem (kfree ?p s)) 2 pt x = leaf_addr (mem s) 2 pt x"
    "\<forall>b. page_no b \<notin> page_no ` set zs \<longrightarrow> mem (kfree ?p s) b = mem s b" "kmem.more (kfree ?p s) = kmem.more s" by blast
  have l: "?l = leaf_addr (mem (kfree ?p s)) 2 pt a" "?l \<noteq> 0" using f(7) e by (auto simp: leaf_def)
  note w = set_entry(1,2) [OF f(1,4) l, where v = 0, folded s2_def]
  have leaf2: "leaf (mem s2) 2 pt x = (if vpn x = vpn a \<and> bit (leaf (mem s) 2 pt x) 0 then 0 else leaf (mem s) 2 pt x)" for x
    using w(2) [of x] f(6) e leaf_vpn [of x a "mem s" pt] by auto
  have refs2: "refs s2 = (refs s)(?p := refs s ?p - 1)" using f(2) by (simp add: s2_def)
  have "released pt a 1 zs xs s s2"
    unfolding released_def
  proof (intro conjI)
    show "\<forall>q. refs s2 q + shares (mem s) pt a 1 q = refs s q" unfolding one using refs2 p(1) by simp
    show "set zs = {q. 0 < refs s q \<and> refs s2 q = 0}" unfolding f(3) refs2 using p(1) by auto
    show "\<forall>b. page_no b \<notin> page_no ` (tabs (mem s) 2 pt \<union> set zs) \<longrightarrow> mem s2 b = mem s b"
      using w(1) f(5,8) by (simp add: tabled_def image_Un)
    show "kmem.more s2 = kmem.more s" using f(9) by (simp add: s2_def)
    show "owned 2 pt s2" by (rule tabled_owned [OF f(4) w(1)])
  qed (use w(1) f(5) leaf2 in \<open>auto simp: tabled_def\<close>)
  then show ?thesis by (rule that)
qed

lemma released_shares:
  assumes "released pt a 1 zs xs s s2" "vpn a + Suc n \<le> 2 ^ 27"
  shows "shares (mem s2) pt (a + 4096) n p = shares (mem s) pt (a + 4096) n p"
proof (rule shares_cong)
  fix j assume "j < n"
  have "a + 4096 + of_nat (4096 * j) = a + of_nat (4096 * Suc j)" by simp
  moreover have "vpn (a + of_nat (4096 * Suc j)) \<noteq> vpn a" unfolding vpn_add using \<open>j < n\<close> assms(2) by simp
  ultimately show "leaf (mem s2) 2 pt (a + 4096 + of_nat (4096 * j)) = leaf (mem s) 2 pt (a + 4096 + of_nat (4096 * j))"
    using assms(1) unfolding released_def by (metis in_run_1 One_nat_def)
qed

lemma released_trans:
  assumes s: "released pt a 1 zs xs s s2" and t: "released pt (a + 4096) n us (zs @ xs) s2 s'" and b: "vpn a + Suc n \<le> 2 ^ 27"
  shows "released pt a (Suc n) (us @ zs) xs s s'"
proof -
  note sh = released_shares [OF s b]
  have one: "shares (mem s) pt a (Suc n) p = shares (mem s) pt a 1 p + shares (mem s) pt (a + 4096) n p" for p
    unfolding One_nat_def shares_Suc by simp
  have r: "refs s2 p + shares (mem s) pt a 1 p = refs s p" "refs s' p + shares (mem s) pt (a + 4096) n p = refs s2 p" for p
    using s t by (auto simp: released_def sh)
  have set: "set zs = {p. 0 < refs s p \<and> refs s2 p = 0}" "set us = {p. 0 < refs s2 p \<and> refs s' p = 0}"
    using s t by (auto simp: released_def)
  have both: "set (us @ zs) = {p. 0 < refs s p \<and> refs s' p = 0}"
  proof -
    have "refs s' p \<le> refs s2 p" "refs s2 p \<le> refs s p" for p using r [of p] by auto
    then show ?thesis unfolding set_append set by (auto simp: less_le_trans) (metis le_zero_eq)
  qed
  have run: "in_run a (Suc n) x \<longleftrightarrow> vpn x = vpn a \<or> in_run (a + 4096) n x" for x
    using b vpn_next [of a] by (cases n; force simp: in_run_def)+
  have lf: "leaf (mem s') 2 pt x = (if in_run a (Suc n) x \<and> bit (leaf (mem s) 2 pt x) 0 then 0 else leaf (mem s) 2 pt x)" for x
    using s t unfolding run by (auto simp: released_def)
  have "mem s' q = mem s q" if "page_no q \<notin> page_no ` (tabs (mem s) 2 pt \<union> set (us @ zs))" for q
    using that s t by (simp add: released_def image_Un)
  moreover have "\<forall>p. refs s' p + shares (mem s) pt a (Suc n) p = refs s p"
  proof
    show "refs s' p + shares (mem s) pt a (Suc n) p = refs s p" for p using r [of p] one [of p] by linarith
  qed
  ultimately show ?thesis using s t lf both unfolding released_def by (auto simp del: in_run_1 set_append)
qed

lemma free_range_ok:
  "kmem_ok s xs \<Longrightarrow> owned 2 pt s \<Longrightarrow> run_end a n end1 \<Longrightarrow> droppable pt a n s \<Longrightarrow>
   \<exists>s' zs. vm_free_range pt a end1 s = Some s' \<and> released pt a n zs xs s s'"
proof (induction n arbitrary: a s xs)
  case 0
  then have "released pt a 0 [] xs s s" by (auto simp: released_def)
  then show ?case using run_end_step(1) [OF 0(3)] by (subst free_unfold) auto
next
  case (Suc n)
  note end1 = run_end_step [OF Suc.prems(3)]
  have b: "vpn a + Suc n \<le> 2 ^ 27" using end1(4) by simp
  let ?e = "leaf (mem s) 2 pt a"
  let ?s2 = "if bit ?e 0 then (kfree (PTE2PA ?e) s)\<lparr>mem := st64 (mem (kfree (PTE2PA ?e) s)) (leaf_addr (mem s) 2 pt a) 0\<rparr> else s"
  obtain zs where z: "released pt a 1 zs xs s ?s2"
  proof (cases "bit ?e 0")
    case True
    with release_step [OF Suc.prems(1,2) refl True Suc.prems(4)] that show ?thesis by auto
  next
    case False
    have "\<not> bit (leaf (mem s) 2 pt x) 0" if "vpn x = vpn a" for x using False leaf_vpn [OF that] by simp
    moreover have "shares (mem s) pt a 1 p = 0" for p unfolding One_nat_def shares_Suc using False by simp
    ultimately have "released pt a 1 [] xs s s" using Suc.prems(1,2) by (auto simp: released_def)
    with False that show ?thesis by auto
  qed
  have i: "kmem_ok ?s2 (zs @ xs)" "owned 2 pt ?s2" using z by (auto simp: released_def)
  have "droppable pt (a + 4096) n ?s2"
    unfolding droppable_def
  proof (intro allI conjI impI)
    fix p
    have r: "refs ?s2 p + shares (mem s) pt a 1 p = refs s p" "tabs (mem ?s2) 2 pt = tabs (mem s) 2 pt" using z by (auto simp: released_def)
    have d: "shares (mem s) pt a (Suc n) p \<le> refs s p" "0 < shares (mem s) pt a (Suc n) p \<Longrightarrow> p \<notin> tabs (mem s) 2 pt"
      using Suc.prems(4) unfolding droppable_def by auto
    have one: "shares (mem s) pt a (Suc n) p = shares (mem s) pt a 1 p + shares (mem ?s2) pt (a + 4096) n p"
      unfolding One_nat_def shares_Suc released_shares [OF z b] by simp
    show "shares (mem ?s2) pt (a + 4096) n p \<le> refs ?s2 p" using r(1) d(1) unfolding one by linarith
    show "p \<notin> tabs (mem ?s2) 2 pt" if "0 < shares (mem ?s2) pt (a + 4096) n p" using d(2) that unfolding one r(2) by linarith
  qed
  from Suc.IH [OF i end1(3) [OF refl] this] obtain s' us where
    "vm_free_range pt (a + 4096) end1 ?s2 = Some s'" "released pt (a + 4096) n us (zs @ xs) ?s2 s'" by blast
  then show ?case using released_trans [OF z _ b] end1(1) by (subst free_unfold) (auto simp: Let_def)
qed

section \<open>A whole table\<close>

text \<open>Inner entries have none of R, W and X, leaves have one: what \<^verbatim>\<open>freewalk\<close> tells them apart by.\<close>

abbreviation leafy :: "u64 \<Rightarrow> bool" where
  "leafy e \<equiv> bit e 1 \<or> bit e 2 \<or> bit e 3"

fun shaped :: "memory \<Rightarrow> nat \<Rightarrow> u64 \<Rightarrow> bool" where
  "shaped m 0 pt \<longleftrightarrow> (\<forall>i < 512. valid m pt i \<longrightarrow> leafy (ent m pt i))"
| "shaped m (Suc l) pt \<longleftrightarrow> (\<forall>i < 512. valid m pt i \<longrightarrow> \<not> leafy (ent m pt i) \<and> shaped m l (child m pt i))"

lemma shaped_agree: "wf_tab m l pt \<Longrightarrow> agree (tabs m l pt) m m' \<Longrightarrow> shaped m' l pt = shaped m l pt"
proof (induction l arbitrary: pt)
  case 0
  then show ?case using ent_agree [OF 0(2)] by simp
next
  case (Suc l)
  have root: "ram_page pt" "pt \<in> tabs m (Suc l) pt" using Suc.prems(1) by auto
  have e: "ent m' pt i = ent m pt i" if "i < 512" for i by (rule ent_agree [OF Suc.prems(2) root(2,1) that])
  have "shaped m' l (child m pt i) = shaped m l (child m pt i)" if "i < 512" "valid m pt i" for i
    using Suc.prems that child_tabs [OF that, of l] by (intro Suc.IH) (auto intro: agree_mono simp del: tabs.simps)
  then show ?case using e by auto
qed

lemma inner_entry: "pte AND (PTE_R OR PTE_W OR PTE_X) = 0 \<longleftrightarrow> \<not> leafy pte"
proof -
  have "pte AND (PTE_R OR PTE_W OR PTE_X) = (pte AND PTE_R) OR (pte AND PTE_W) OR (pte AND PTE_X)"
    by (rule bit_word_eqI) (auto simp: bit_simps)
  then show ?thesis by (auto simp: or_eq_0_iff)
qed

text \<open>\<open>scrapped T zs xs s s'\<close>: the pages \<open>T\<close>, each held once, went to the free list as \<open>zs\<close>.\<close>

definition scrapped :: "u64 set \<Rightarrow> u64 list \<Rightarrow> u64 list \<Rightarrow> 'a kmem_scheme \<Rightarrow> 'a kmem_scheme \<Rightarrow> bool" where
  "scrapped T zs xs s s' \<longleftrightarrow> kmem_ok s' (zs @ xs) \<and> set zs = T \<and> refs s' = (\<lambda>q. if q \<in> T then 0 else refs s q) \<and>
     (\<forall>a. page_no a \<notin> page_no ` T \<longrightarrow> mem s' a = mem s a) \<and> kmem.more s' = kmem.more s"

lemma freewalk_unfold:
  "freewalk i pt s =
     (if i < 512 then
        (if valid (mem s) pt (of_nat i) \<and> \<not> leafy (ent (mem s) pt (of_nat i))
         then Option.bind (freewalk 0 (child (mem s) pt (of_nat i)) s)
                (\<lambda>s. freewalk (Suc i) pt (s\<lparr>mem := st64 (mem s) (slot pt (of_nat i)) 0\<rparr>))
         else freewalk (Suc i) pt s)
      else Some (kfree pt s))"
  by (subst freewalk.simps) (simp add: Let_def inner_entry ent_def)

lemma kfree_table:
  assumes "kmem_ok s xs" "refs s pt = 1"
  shows "\<exists>zs. scrapped {pt} zs xs s (kfree pt s)"
proof -
  have p: "ram_page pt" "pt \<notin> set xs" using held_not_free [OF assms(1), of pt] assms(2) by auto
  note f = kfree_last [OF assms(1) p]
  have "kmem.more (kfree pt s) = kmem.more s" by (simp add: kfree_def Let_def)
  then show ?thesis using f assms(2) by (intro exI [of _ "[pt]"]) (auto simp: scrapped_def fun_eq_iff)
qed

lemma freewalk_leaves:
  assumes "kmem_ok s xs" "refs s pt = 1" "shaped (mem s) 0 pt" "i \<le> 512"
  shows "\<exists>s' zs. freewalk i pt s = Some s' \<and> scrapped {pt} zs xs s s'"
  using assms(4)
proof (induction "512 - i" arbitrary: i)
  case 0
  then show ?case using kfree_table [OF assms(1,2)] by (subst freewalk_unfold) auto
next
  case (Suc d)
  then have "d = 512 - Suc i" "Suc i \<le> 512" "(of_nat i :: u64) < 512" by (auto simp: word_less_nat_alt unat_of_nat take_bit_nat_eq_self)
  with Suc.hyps(1) [of "Suc i"] assms(3) show ?case by (subst freewalk_unfold) auto
qed

text \<open>The loop over the entries of an inner table, its state after the entries before \<open>i\<close>.\<close>

definition gone :: "memory \<Rightarrow> nat \<Rightarrow> u64 \<Rightarrow> nat \<Rightarrow> u64 set" where
  "gone m l pt i = (\<Union>j \<in> {j. j < 512 \<and> unat j < i \<and> valid m pt j}. tabs m l (child m pt j))"

definition walking :: "nat \<Rightarrow> u64 \<Rightarrow> nat \<Rightarrow> u64 list \<Rightarrow> 'a kmem_scheme \<Rightarrow> 'a kmem_scheme \<Rightarrow> bool" where
  "walking l pt i xs s0 s \<longleftrightarrow> (\<exists>zs. kmem_ok s (zs @ xs) \<and> set zs = gone (mem s0) l pt i) \<and>
     refs s = (\<lambda>q. if q \<in> gone (mem s0) l pt i then 0 else refs s0 q) \<and>
     (\<forall>a. page_no a \<notin> page_no ` insert pt (gone (mem s0) l pt i) \<longrightarrow> mem s a = mem s0 a) \<and>
     (\<forall>j < 512. i \<le> unat j \<longrightarrow> ent (mem s) pt j = ent (mem s0) pt j) \<and> kmem.more s = kmem.more s0"

lemma gone_Suc:
  assumes "i < 512"
  shows "gone m l pt (Suc i) = gone m l pt i \<union> (if valid m pt (of_nat i) then tabs m l (child m pt (of_nat i)) else {})"
proof -
  have u: "unat (of_nat i :: u64) = i" using assms by (simp add: unat_of_nat take_bit_nat_eq_self)
  have "unat j < Suc i \<longleftrightarrow> unat j < i \<or> j = of_nat i" for j :: u64
    using u by (metis less_Suc_eq word_unat_eq_iff)
  moreover have "(of_nat i :: u64) < 512" using assms u by (simp add: word_less_nat_alt)
  ultimately show ?thesis unfolding gone_def by (auto simp: Collect_disj_eq conj_disj_distribL split: if_splits)
qed

lemma gone_all: "tabs m (Suc l) pt = insert pt (gone m l pt 512)"
proof -
  have "{i. i < 512 \<and> valid m pt i} = {j. j < 512 \<and> unat j < 512 \<and> valid m pt j}" by (auto simp: word_less_nat_alt)
  then show ?thesis by (simp add: gone_def)
qed

lemma gone_apart:
  assumes "wf_tab m (Suc l) pt" "i < 512" "valid m pt (of_nat i)"
  shows "tabs m l (child m pt (of_nat i)) \<inter> insert pt (gone m l pt i) = {}"
proof -
  have u: "unat (of_nat i :: u64) = i" "(of_nat i :: u64) < 512"
    using assms(2) by (auto simp: unat_of_nat take_bit_nat_eq_self word_less_nat_alt)
  have "tabs m l (child m pt (of_nat i)) \<inter> tabs m l (child m pt j) = {}" if "j < 512" "unat j < i" "valid m pt j" for j
  proof -
    have "of_nat i \<noteq> j" using that(2) u(1) by auto
    then show ?thesis using assms(1,3) that(1,3) u(2) by (simp only: wf_tab.simps) blast
  qed
  moreover have "pt \<notin> tabs m l (child m pt (of_nat i))" using assms(1,3) u by auto
  ultimately show ?thesis by (auto simp: gone_def)
qed

lemma gone_not_root: "wf_tab m (Suc l) pt \<Longrightarrow> pt \<notin> gone m l pt i"
  by (auto simp: gone_def)

lemma gone_ram: "wf_tab m (Suc l) pt \<Longrightarrow> q \<in> insert pt (gone m l pt i) \<Longrightarrow> ram_page q"
  using wf_tab_ram [of m "Suc l" pt] by (auto simp: gone_def)

lemma walking_child:
  assumes w: "walking l pt i xs s0 s" and wf: "wf_tab (mem s0) (Suc l) pt" and held: "\<forall>q \<in> tabs (mem s0) (Suc l) pt. refs s0 q = 1"
    and sh: "shaped (mem s0) (Suc l) pt" and i: "i < 512" "valid (mem s0) pt (of_nat i)"
  defines "c \<equiv> child (mem s0) pt (of_nat i)"
  shows "owned l c s" "tabs (mem s) l c = tabs (mem s0) l c" "\<forall>q \<in> tabs (mem s) l c. refs s q = 1" "shaped (mem s) l c"
proof -
  have u: "(of_nat i :: u64) < 512" using i(1) by (auto simp: unat_of_nat take_bit_nat_eq_self word_less_nat_alt)
  have wc: "wf_tab (mem s0) l c" "shaped (mem s0) l c" using wf sh i u by (auto simp: c_def)
  have apart: "tabs (mem s0) l c \<inter> insert pt (gone (mem s0) l pt i) = {}" unfolding c_def by (rule gone_apart [OF wf i])
  have ag: "agree (tabs (mem s0) l c) (mem s0) (mem s)"
    by (rule agree_off [OF _ apart]) (use w gone_ram [OF wf] wf_tab_ram [OF wc(1)] in \<open>auto simp: walking_def\<close>)
  then show t: "tabs (mem s) l c = tabs (mem s0) l c" using tabs_agree [OF wc(1)] by blast
  have sub: "tabs (mem s0) l c \<subseteq> tabs (mem s0) (Suc l) pt" unfolding c_def by (rule child_tabs [OF u i(2)])
  show "\<forall>q \<in> tabs (mem s) l c. refs s q = 1" using w apart sub held unfolding t walking_def by auto
  then show "owned l c s" using tabs_agree [OF wc(1) ag] by (auto simp: owned_def)
  show "shaped (mem s) l c" using shaped_agree [OF wc(1) ag] wc(2) by simp
qed

lemma walking_next:
  assumes w: "walking l pt i xs s0 s" and wf: "wf_tab (mem s0) (Suc l) pt" and pt1: "refs s0 pt = 1"
    and i: "i < 512" "valid (mem s0) pt (of_nat i)"
    and sc: "scrapped (tabs (mem s0) l (child (mem s0) pt (of_nat i))) us ws s s1" and ws: "kmem_ok s ws"
  shows "walking l pt (Suc i) xs s0 (s1\<lparr>mem := st64 (mem s1) (slot pt (of_nat i)) 0\<rparr>)"
proof -
  let ?j = "of_nat i :: u64" and ?T = "tabs (mem s0) l (child (mem s0) pt (of_nat i))"
  let ?s2 = "s1\<lparr>mem := st64 (mem s1) (slot pt ?j) 0\<rparr>"
  have u: "unat ?j = i" "?j < 512" using i(1) by (auto simp: unat_of_nat take_bit_nat_eq_self word_less_nat_alt)
  obtain zs where z: "kmem_ok s (zs @ xs)" "set zs = gone (mem s0) l pt i" using w by (auto simp: walking_def)
  have "ws = zs @ xs" using chain_unique kmem_ok_D(1) ws z(1) by blast
  then have k1: "kmem_ok s1 ((us @ zs) @ xs)" "set us = ?T" using sc by (auto simp: scrapped_def)
  have g: "gone (mem s0) l pt (Suc i) = gone (mem s0) l pt i \<union> ?T" using gone_Suc [OF i(1)] i(2) by simp
  have apart: "?T \<inter> insert pt (gone (mem s0) l pt i) = {}" by (rule gone_apart [OF wf i])
  have pt: "ram_page pt" "take_bit 12 pt = 0" using wf by (auto simp: ram_page_aligned)
  note sl = slot_page [OF pt(2) u(2)]
  have refs: "refs ?s2 = (\<lambda>q. if q \<in> gone (mem s0) l pt (Suc i) then 0 else refs s0 q)"
    using sc w unfolding g by (auto simp: scrapped_def walking_def)
  have root: "pt \<notin> gone (mem s0) l pt (Suc i)" by (rule gone_not_root [OF wf])
  have "refs s1 pt = 1" using refs root pt1 by (simp add: fun_eq_iff)
  then have "pt \<notin> set ((us @ zs) @ xs)" using held_not_free [OF k1(1), of pt] by simp
  then have "page_no (slot pt ?j) \<notin> page_no ` set ((us @ zs) @ xs)"
    unfolding sl(1) using page_image [of "set ((us @ zs) @ xs)" pt] kmem_ok_D(3) [OF k1(1)] pt(1) by blast
  then have k2: "kmem_ok ?s2 ((us @ zs) @ xs)" by (rule kmem_ok_store [OF k1(1) sl(2)])
  have frame: "mem ?s2 a = mem s0 a" if "page_no a \<notin> page_no ` insert pt (gone (mem s0) l pt (Suc i))" for a
  proof -
    have "mem ?s2 a = mem s1 a" using that sl by (simp add: st64_page)
    then show ?thesis using that sc w unfolding g by (simp add: scrapped_def walking_def image_Un)
  qed
  have "ent (mem ?s2) pt k = ent (mem s0) pt k" if "k < 512" "Suc i \<le> unat k" for k
  proof -
    have "k \<noteq> ?j" using that(2) u(1) by auto
    then have "ent (mem ?s2) pt k = ent (mem s1) pt k"
      unfolding ent_def using slot_inject [OF u(2) that(1), of pt] sl slot_page [OF pt(2) that(1)] by (simp add: ld64_st64_other)
    also have "\<dots> = ent (mem s) pt k"
    proof (rule ent_agree [where P = "{pt}"])
      show "agree {pt} (mem s) (mem s1)"
        by (rule agree_off [where Q = ?T]) (use sc apart gone_ram [OF wf, of _ "Suc i"] g pt in \<open>auto simp: scrapped_def\<close>)
    qed (use pt that in auto)
    finally show ?thesis using w that by (simp add: walking_def)
  qed
  moreover have "\<exists>vs. kmem_ok ?s2 (vs @ xs) \<and> set vs = gone (mem s0) l pt (Suc i)"
    by (rule exI [of _ "us @ zs"]) (use k1(2) k2 z(2) g in auto)
  moreover have "kmem.more ?s2 = kmem.more s0" using sc w by (simp add: walking_def scrapped_def)
  ultimately show ?thesis using refs frame unfolding walking_def by blast
qed

lemma freewalk_loop:
  assumes IH: "\<And>c (s :: 'a kmem_scheme) ys. kmem_ok s ys \<Longrightarrow> owned l c s \<Longrightarrow> \<forall>q \<in> tabs (mem s) l c. refs s q = 1 \<Longrightarrow> shaped (mem s) l c \<Longrightarrow>
      \<exists>s' zs. freewalk 0 c s = Some s' \<and> scrapped (tabs (mem s) l c) zs ys s s'"
    and wf: "wf_tab (mem s0) (Suc l) pt" and held: "\<forall>q \<in> tabs (mem s0) (Suc l) pt. refs s0 q = 1" and sh: "shaped (mem s0) (Suc l) pt"
    and w: "walking l pt i xs (s0 :: 'a kmem_scheme) s" "i \<le> 512"
  shows "\<exists>s' zs. freewalk i pt s = Some s' \<and> scrapped (tabs (mem s0) (Suc l) pt) zs xs s0 s'"
  using w
proof (induction "512 - i" arbitrary: i s)
  case 0
  then have i: "i = 512" by simp
  obtain zs where z: "kmem_ok s (zs @ xs)" "set zs = gone (mem s0) l pt 512" using 0 i by (auto simp: walking_def)
  have "refs s pt = 1" using 0(2) held gone_not_root [OF wf] wf_tab_root [OF wf] by (simp add: walking_def)
  then obtain us where u: "scrapped {pt} us (zs @ xs) s (kfree pt s)" using kfree_table [OF z(1)] by blast
  have "scrapped (tabs (mem s0) (Suc l) pt) (us @ zs) xs s0 (kfree pt s)"
    using u z 0(2) unfolding gone_all scrapped_def walking_def i by (auto simp: fun_eq_iff)
  then show ?case using i by (subst freewalk_unfold) auto
next
  case (Suc d)
  have i: "i < 512" "(of_nat i :: u64) < 512" "unat (of_nat i :: u64) = i"
    using Suc.hyps(2) by (auto simp: unat_of_nat take_bit_nat_eq_self word_less_nat_alt)
  have e: "ent (mem s) pt (of_nat i) = ent (mem s0) pt (of_nat i)" using Suc.prems(1) i by (simp add: walking_def)
  have d: "d = 512 - Suc i" "Suc i \<le> 512" using Suc.hyps(2) by auto
  obtain zs where z: "kmem_ok s (zs @ xs)" using Suc.prems(1) by (auto simp: walking_def)
  show ?case
  proof (cases "valid (mem s0) pt (of_nat i)")
    case True
    note c = walking_child [OF Suc.prems(1) wf held sh i(1) True]
    obtain s1 us where f: "freewalk 0 (child (mem s0) pt (of_nat i)) s = Some s1"
        "scrapped (tabs (mem s0) l (child (mem s0) pt (of_nat i))) us (zs @ xs) s s1"
      using IH [OF z c(1,3,4)] c(2) by auto
    have nl: "\<not> leafy (ent (mem s0) pt (of_nat i))" using sh True i(2) by auto
    have "refs s0 pt = 1" using held wf_tab_root [OF wf] by blast
    from walking_next [OF Suc.prems(1) wf this i(1) True f(2) z] Suc.hyps(1) [OF d(1) _ d(2)]
    show ?thesis using True e nl i(1) f(1) by (subst freewalk_unfold) auto
  next
    case False
    have "gone (mem s0) l pt (Suc i) = gone (mem s0) l pt i" using gone_Suc [OF i(1)] False by simp
    then have "walking l pt (Suc i) xs s0 s" using Suc.prems(1) by (simp add: walking_def)
    from Suc.hyps(1) [OF d(1) this d(2)] show ?thesis using False e i(1) by (subst freewalk_unfold) auto
  qed
qed

lemma freewalk_ok:
  "kmem_ok s xs \<Longrightarrow> owned l pt s \<Longrightarrow> \<forall>q \<in> tabs (mem s) l pt. refs s q = 1 \<Longrightarrow> shaped (mem s) l pt \<Longrightarrow>
   \<exists>s' zs. freewalk 0 pt s = Some s' \<and> scrapped (tabs (mem s) l pt) zs xs s s'"
proof (induction l arbitrary: pt s xs)
  case 0
  then show ?case using freewalk_leaves [of s xs pt 0] by (auto simp: owned_def)
next
  case (Suc l)
  have "walking l pt 0 xs s s" using Suc.prems(1) by (auto simp: walking_def gone_def intro: exI [of _ "[]"])
  moreover have "wf_tab (mem s) (Suc l) pt" using Suc.prems(2) by (simp add: owned_def)
  ultimately show ?case using Suc.prems(3,4) by (intro freewalk_loop [OF Suc.IH]) auto
qed

section \<open>No leaks\<close>

text \<open>
  Claim C26. \<^verbatim>\<open>vm_free_range\<close> returns for every range of a 39-bit address space, and afterwards no page of the
  range is mapped. Each physical page has lost exactly one reference per mapping; the pages that
  lost their last one, and only those, are on the free list, in front of what was free before. The table keeps its
  structure and every mapping outside the range, and no byte outside the table and the freed pages
  is written.
\<close>
theorem vm_free_range_correct:
  assumes "kmem_ok s xs" "owned 2 pt s" "run_end a n end1" "droppable pt a n s"
  shows "\<exists>s' zs. vm_free_range pt a end1 s = Some s' \<and> released pt a n zs xs s s'"
  by (rule free_range_ok [OF assms])

theorem vm_free_range_correct_witness:
  "\<exists>s s'. mappages lab_P HEAPBASE 4096 lab_D (PTE_R OR PTE_W OR PTE_U) lab = Some (0, s) \<and> refs s lab_D = 1 \<and>
     vm_free_range lab_P HEAPBASE 0x11000 s = Some s' \<and> refs s' lab_D = 0 \<and> leaf (mem s') 2 lab_P 0x10123 = 0"
proof -
  obtain s xs where h: "lab_heap s xs" using lab_heap_exists by blast
  note p = lab_share_premises [OF h] and l = h [unfolded lab_heap_def]
  have d: "droppable lab_P HEAPBASE 1 s" unfolding droppable_def p(8) using l by auto
  have k: "kmem_ok s xs" "owned 2 lab_P s" using l by auto
  from vm_free_range_correct [OF k p(2) d] obtain s' zs where f: "vm_free_range lab_P HEAPBASE 0x11000 s = Some s'"
    "\<forall>x. leaf (mem s') 2 lab_P x = (if in_run HEAPBASE 1 x \<and> bit (leaf (mem s) 2 lab_P x) 0 then 0 else leaf (mem s) 2 lab_P x)"
    "\<forall>q. refs s' q + shares (mem s) lab_P HEAPBASE 1 q = refs s q" unfolding released_def by blast
  have "leaf (mem s') 2 lab_P 0x10123 = 0" using f(2) p(4,6) by simp
  moreover have "refs s' lab_D = 0" using f(3) [THEN spec, of lab_D] p(8) [of lab_D] l by simp
  ultimately show ?thesis using f(1) l by blast
qed

text \<open>
  Claim C27. \<^verbatim>\<open>free_pagetable\<close> returns on every well-formed three-level table whose pages are held once, and gives back
  exactly the pages of the table: each is free afterwards, the free count has grown by their number, every
  other page keeps its references and its contents. The pages the leaves map are not touched.
\<close>
theorem free_pagetable_correct:
  assumes "kmem_ok s xs" "owned 2 pt s" "\<forall>q \<in> tabs (mem s) 2 pt. refs s q = 1" "shaped (mem s) 2 pt"
  shows "\<exists>s' zs. free_pagetable pt s = Some s' \<and> scrapped (tabs (mem s) 2 pt) zs xs s s' \<and>
     unat (kfreecount s') = unat (kfreecount s) + card (tabs (mem s) 2 pt)"
proof -
  obtain s' zs where f: "free_pagetable pt s = Some s'" "scrapped (tabs (mem s) 2 pt) zs xs s s'"
    using freewalk_ok [OF assms] unfolding free_pagetable_def by blast
  then have k: "kmem_ok s' (zs @ xs)" "set zs = tabs (mem s) 2 pt" by (auto simp: scrapped_def)
  then have "length zs = card (tabs (mem s) 2 pt)" using kmem_ok_D(2) [OF k(1)] distinct_card [of zs] by simp
  then have "unat (kfreecount s') = unat (kfreecount s) + card (tabs (mem s) 2 pt)"
    using unat_freecnt [OF k(1)] unat_freecnt [OF assms(1)] by (simp add: kfreecount_def)
  with f show ?thesis by blast
qed

theorem free_pagetable_correct_witness:
  "\<exists>s'. free_pagetable lab_P lab = Some s' \<and> unat (kfreecount s') = 6 \<and> refs s' lab_P = 0 \<and> refs s' lab_C = 1"
proof -
  note t = lab_table [OF lab_pages(1,2)]
  have "ent (mem lab) lab_P i = 0" if "i < 512" for i
  proof -
    note sl = slot_page [OF ram_page_aligned [OF lab_pages(1)] that]
    have "ld64 (mem lab) (slot lab_P i) = ld64 (\<lambda>_. 0) (slot lab_P i)"
      by (rule ld64_same_page [OF sl(2)]) (use lab_zero [OF lab_pages(1,2)] sl(1) in simp)
    then show ?thesis by (simp add: ent_def ld64_def un_le64_def)
  qed
  then have "shaped (mem lab) 2 lab_P" by (simp add: numeral_2_eq_2)
  moreover have "\<forall>q \<in> tabs (mem lab) 2 lab_P. refs lab q = 1" using t(2) lab_refs [OF lab_pages(1,2)] by simp
  ultimately obtain s' zs where "free_pagetable lab_P lab = Some s'" "scrapped (tabs (mem lab) 2 lab_P) zs lab_free lab s'"
      "unat (kfreecount s') = unat (kfreecount lab) + card (tabs (mem lab) 2 lab_P)"
    using free_pagetable_correct [OF lab_ok t(1)] by blast
  moreover have "unat (kfreecount lab) = 5" by (simp add: kfreecount_def lab_def)
  ultimately show ?thesis using t(2) lab_pages(7) lab_refs [OF lab_pages(3,4)] by (auto simp: scrapped_def)
qed

end
