(* ===== verification/Proc.thy ===== *)
theory Proc
  imports Elf Fs VmFree
begin

text \<open>
  \<^verbatim>\<open>src/src/proc.c\<close>: the process table and the operations on it. The state is that of the memory
  system with the table, the process each hart runs and the next pid. A \<^verbatim>\<open>struct proc *\<close> is an index into the
  table. The addresses of code and of the two static buffers come from the linker and are the
  record \<open>ksyms\<close>. The operations that hold \<^verbatim>\<open>pt_lock\<close> are given without the lock: theory
  \<open>Sched\<close> puts them under it. \<open>None\<close> stands for a call that does not come back.
\<close>

section \<open>The process table\<close>

definition NPROC :: nat where "NPROC = 8"

datatype proc_state = UNUSED | RUNNABLE | RUNNING | SLEEPING | ZOMBIE

text \<open>What a process sleeps on: nothing, a process (in \<^verbatim>\<open>proc_wait\<close>) or the console buffer.\<close>

datatype channel = No_chan | Proc_chan nat | In_chan

record kcontext =
  ra :: u64
  sp :: u64
  s_regs :: "u64 list"

definition zero_context :: kcontext where
  "zero_context = \<lparr>ra = 0, sp = 0, s_regs = replicate 12 0\<rparr>"

record proc =
  state :: proc_state
  ctx :: kcontext
  kstack :: u64
  fn :: u64
  counter :: u64
  pname :: "u8 list"
  pagetable :: u64
  is_user :: bool
  pid :: int
  ucode :: u64
  ustack :: u64
  chan :: channel
  parent :: "nat option"
  tf_va :: u64
  heap_top :: u64
  mmap_base :: u64
  mmap_start :: u32
  mmap_size :: u32

record ksyms =
  etext :: u64
  thread_start :: u64
  enter_user :: u64
  forkret :: u64
  initcode :: u64
  elfbuf :: u64

record kproc = kvm +
  proctable :: "proc list"
  cpu_proc :: "nat \<Rightarrow> nat option"
  next_pid :: int

definition proc_at :: "nat \<Rightarrow> 'a kproc_scheme \<Rightarrow> proc" where
  "proc_at i s = proctable s ! i"

definition set_proc :: "nat \<Rightarrow> proc \<Rightarrow> 'a kproc_scheme \<Rightarrow> 'a kproc_scheme" where
  "set_proc i p s = s\<lparr>proctable := (proctable s)[i := p]\<rparr>"

definition current_proc :: "nat \<Rightarrow> 'a kproc_scheme \<Rightarrow> nat option" where
  "current_proc hart s = cpu_proc s hart"

definition procinit :: "'a kproc_scheme \<Rightarrow> 'a kproc_scheme" where
  "procinit s = s\<lparr>proctable := map (\<lambda>p. p\<lparr>state := UNUSED\<rparr>) (proctable s)\<rparr>"

definition free_slot :: "'a kproc_scheme \<Rightarrow> nat option" where
  "free_slot s = find (\<lambda>i. state (proc_at i s) = UNUSED) [0..<NPROC]"

text \<open>The copy of a name into \<^verbatim>\<open>p->name\<close>: at most \<open>n\<close> bytes of the string, then \<open>tail\<close>.\<close>

definition store_pname :: "nat \<Rightarrow> u8 list \<Rightarrow> u8 list \<Rightarrow> u8 list \<Rightarrow> u8 list" where
  "store_pname n nm end1 old =
     (let t = take n (takeWhile (\<lambda>c. c \<noteq> 0) nm) in t @ end1 @ drop (length t + length end1) old)"

section \<open>Creating processes\<close>

definition make_thread :: "ksyms \<Rightarrow> u64 \<Rightarrow> u8 list \<Rightarrow> 'a kproc_scheme \<Rightarrow> nat option \<times> 'a kproc_scheme" where
  "make_thread lk f nm s =
     (case free_slot s of
        None \<Rightarrow> (None, s)
      | Some i \<Rightarrow>
          let (ks, s) = kalloc s;
              p = proc_at i s;
              p = p\<lparr>fn := f, counter := 0, kstack := ks,
                    ctx := zero_context\<lparr>ra := thread_start lk, sp := ks + PGSIZE\<rparr>,
                    pagetable := kernel_pt s, is_user := False, pname := store_pname 7 nm [0] (pname p), state := RUNNABLE\<rparr>
          in (Some i, set_proc i p s))"

definition make_user_proc :: "ksyms \<Rightarrow> u8 list \<Rightarrow> 'a kproc_scheme \<Rightarrow> (nat option \<times> 'a kproc_scheme) option" where
  "make_user_proc lk nm s =
     (case free_slot s of
        None \<Rightarrow> Some (None, s)
      | Some i \<Rightarrow>
          let (code, s) = kalloc s;
              s = s\<lparr>mem := set_loop (mem s) code 0 4096\<rparr>
          in case load_elf (initcode lk) code (mem s) of (r, entry, m, msg) \<Rightarrow>
            let s = vputs msg (s\<lparr>mem := m\<rparr>) in
            if r \<noteq> 0 then Some (None, s)
            else
              let s = (if entry \<noteq> Some USERVA then vputs ''[warn] elf entry != USERVA\<newline>'' s else s);
                  (us, s) = kalloc s
              in Option.bind (proc_pagetable (etext lk) code us s) (\<lambda>(pt, s).
                let p = proc_at i s; n = next_pid s; (ks, s) = kalloc s;
                    p = p\<lparr>ucode := code, ustack := us, pagetable := pt, is_user := True, counter := 0, fn := 0,
                          pid := n, heap_top := HEAPBASE, mmap_base := 0, kstack := ks,
                          ctx := zero_context\<lparr>ra := enter_user lk, sp := ks + PGSIZE\<rparr>,
                          pname := store_pname 7 nm [0] (pname p), state := RUNNABLE\<rparr>
                in Some (Some i, (set_proc i p s)\<lparr>next_pid := n + 1\<rparr>)))"

text \<open>
  The kernel reads and writes the trap frame of a process at its user address, so through the
  process's own table.
\<close>

definition user_addr :: "memory \<Rightarrow> u64 \<Rightarrow> u64 \<Rightarrow> u64" where
  "user_addr m pt va = PTE2PA (leaf m 2 pt va) + (va AND 0xfff)"

definition proc_fork :: "ksyms \<Rightarrow> nat \<Rightarrow> u64 \<Rightarrow> 'a kproc_scheme \<Rightarrow> (int \<times> 'a kproc_scheme) option" where
  "proc_fork lk hart f s =
     Option.bind (current_proc hart s) (\<lambda>pi.
       case free_slot s of
         None \<Rightarrow> Some (-1, s)
       | Some ci \<Rightarrow>
           let par = proc_at pi s;
               (us, s) = kalloc s;
               s = s\<lparr>mem := copy_loop (mem s) us (ustack par) 4096\<rparr>;
               s = kref_inc (ucode par) s
           in Option.bind (proc_pagetable (etext lk) (ucode par) us s) (\<lambda>(pt, s).
              Option.bind (uvm_cow_share (pagetable par) pt HEAPBASE (heap_top par) s) (\<lambda>(_, s).
                let cf = us + (f - USERSTACK);
                    s = s\<lparr>mem := st64 (mem s) (cf + 64) 0\<rparr>;
                    s = s\<lparr>mem := st64 (mem s) (cf + 240) (ld64 (mem s) (user_addr (mem s) (pagetable par) (f + 240)) + 4)\<rparr>;
                    c = proc_at ci s; n = next_pid s;
                    c = c\<lparr>ucode := ucode par, ustack := us, pagetable := pt,
                          ctx := zero_context\<lparr>ra := forkret lk, sp := USERSTACKTOP\<rparr>, tf_va := f, is_user := True,
                          counter := 0, fn := 0, kstack := 0, parent := Some pi, heap_top := heap_top par,
                          mmap_base := 0, pid := n,
                          pname := store_pname 6 (pname par) [of_char CHR ''+'', 0] (pname c), state := RUNNABLE\<rparr>
                in Some (n, (set_proc ci c s)\<lparr>next_pid := n + 1\<rparr>))))"

section \<open>Replacing and freeing a program\<close>

definition SSTATUS_SPIE :: u64 where "SSTATUS_SPIE = push_bit 5 1"
definition SSTATUS_SPP :: u64 where "SSTATUS_SPP = push_bit 8 1"
definition SSTATUS_SUM :: u64 where "SSTATUS_SUM = push_bit 18 1"

text \<open>The registers at the \<^verbatim>\<open>sret\<close> that enters user mode.\<close>

record uentry =
  u_sstatus :: u64
  u_sepc :: u64
  u_sp :: u64

definition to_user :: "u64 \<Rightarrow> u64 \<Rightarrow> uentry" where
  "to_user st0 entry =
     \<lparr>u_sstatus = ((st0 AND NOT SSTATUS_SPP) OR SSTATUS_SPIE) OR SSTATUS_SUM, u_sepc = entry, u_sp = USERSTACKTOP\<rparr>"

definition mmap_end :: "proc \<Rightarrow> u64" where
  "mmap_end p = mmap_base p + (ucast (mmap_size p + 4096 - 1) AND NOT 0xfff)"

definition free_mmap :: "proc \<Rightarrow> 'a kproc_scheme \<Rightarrow> 'a kproc_scheme option" where
  "free_mmap p s = (if mmap_base p \<noteq> 0 then vm_free_range (pagetable p) (mmap_base p) (mmap_end p) s else Some s)"

text \<open>
  \<^verbatim>\<open>elfbuf\<close> is a static array of 32768 bytes; \<open>buffer m a\<close> reads it as \<^verbatim>\<open>fs_read\<close> finds it and \<open>put_buffer\<close> is the
  memory with the array as \<^verbatim>\<open>fs_read\<close> leaves it.
\<close>

definition buffer :: "memory \<Rightarrow> u64 \<Rightarrow> nat \<Rightarrow> u8" where
  "buffer m a i = m (a + of_nat i)"

definition put_buffer :: "u64 \<Rightarrow> nat \<Rightarrow> (nat \<Rightarrow> u8) \<Rightarrow> memory \<Rightarrow> memory" where
  "put_buffer a n b m = (\<lambda>x. if unat (x - a) < n then b (unat (x - a)) else m x)"

definition exec_switch :: "nat \<Rightarrow> u64 \<Rightarrow> 'a kproc_scheme \<Rightarrow> 'a kproc_scheme option" where
  "exec_switch i newcode s =
     (let oldcode = ucode (proc_at i s); p = proc_at i s in
      Option.bind (vm_free_range (pagetable p) HEAPBASE (heap_top p) s) (\<lambda>s.
      let s = set_proc i (p\<lparr>heap_top := HEAPBASE\<rparr>) s in
      Option.bind (free_mmap p s) (\<lambda>s.
      let s = set_proc i (proc_at i s\<lparr>mmap_base := 0\<rparr>) s;
          s = remap_user_code (pagetable p) newcode s;
          s = set_proc i (proc_at i s\<lparr>ucode := newcode\<rparr>) s
      in Some (if oldcode \<noteq> 0 then kfree oldcode s else s))))"

text \<open>The result of \<^verbatim>\<open>proc_exec\<close> is -1 or the entry into the new program.\<close>

definition proc_exec :: "ksyms \<Rightarrow> 'd blkdev \<Rightarrow> nat \<Rightarrow> u64 \<Rightarrow> u8 list \<Rightarrow> 'd fs \<Rightarrow> 'a kproc_scheme \<Rightarrow>
    ('d, uentry option \<times> 'd fs \<times> 'a kproc_scheme) io option" where
  "proc_exec lk dev hart st0 path f s =
     (case fs_read dev path (buffer (mem s) (elfbuf lk)) 32768 f of
        Inl d \<Rightarrow> Some (Inl d)
      | Inr (sz, b, f) \<Rightarrow>
          if sz < 0 then Some (Inr (None, f, s))
          else
            let s = s\<lparr>mem := put_buffer (elfbuf lk) 32768 b (mem s)\<rparr>;
                (newcode, s) = kalloc s;
                s = s\<lparr>mem := set_loop (mem s) newcode 0 4096\<rparr>
            in case load_elf (elfbuf lk) newcode (mem s) of (r, entry, m, msg) \<Rightarrow>
              let s = vputs msg (s\<lparr>mem := m\<rparr>) in
              if r \<noteq> 0 then Some (Inr (None, f, kfree newcode s))
              else Option.bind (current_proc hart s) (\<lambda>i.
                   Option.bind (exec_switch i newcode s) (\<lambda>s.
                   Some (Inr (Some (to_user st0 (the entry)), f, s)))))"

definition proc_freeimage :: "nat \<Rightarrow> 'a kproc_scheme \<Rightarrow> 'a kproc_scheme option" where
  "proc_freeimage i s =
     (let p = proc_at i s in
      Option.bind
        (if pagetable p \<noteq> 0
         then Option.bind (vm_free_range (pagetable p) HEAPBASE (heap_top p) s) (free_mmap p)
         else Some s) (\<lambda>s.
      let s = (if ucode p \<noteq> 0 then kfree (ucode p) s else s);
          s = (if ustack p \<noteq> 0 then kfree (ustack p) s else s);
          s = (if kstack p \<noteq> 0 then kfree (kstack p) s else s)
      in Option.bind (if pagetable p \<noteq> 0 then free_pagetable (pagetable p) s else Some s) (\<lambda>s.
         Some (set_proc i (p\<lparr>ucode := 0, ustack := 0, kstack := 0, pagetable := 0, heap_top := HEAPBASE, mmap_base := 0\<rparr>) s))))"

section \<open>Growing the address space\<close>

definition proc_sbrk :: "nat \<Rightarrow> int \<Rightarrow> 'a kproc_scheme \<Rightarrow> (u64 \<times> 'a kproc_scheme) option" where
  "proc_sbrk hart n s =
     Option.bind (current_proc hart s) (\<lambda>i.
       let p = proc_at i s; old = heap_top p
       in Some (old, if n > 0 then set_proc i (p\<lparr>heap_top := heap_top p + of_int n\<rparr>) s else s))"

definition proc_mmap :: "nat \<Rightarrow> u8 list \<Rightarrow> 'd fs \<Rightarrow> 'a kproc_scheme \<Rightarrow> (u64 \<times> 'a kproc_scheme) option" where
  "proc_mmap hart path f s =
     Option.bind (current_proc hart s) (\<lambda>i.
       case fs_stat path f of
         None \<Rightarrow> Some (-1, s)
       | Some (st, sz) \<Rightarrow>
           Some (MMAPBASE, set_proc i (proc_at i s\<lparr>mmap_base := MMAPBASE, mmap_start := st, mmap_size := sz\<rparr>) s))"

definition fault_note :: "string \<Rightarrow> u64 \<Rightarrow> 'a kvm_scheme \<Rightarrow> 'a kvm_scheme" where
  "fault_note msg a s = s\<lparr>vout := vout s @ puts_bytes (bytes_of msg) @ hex_bytes a @ [10]\<rparr>"

text \<open>Map the page just filled, or give it back.\<close>

definition install_page :: "u64 \<Rightarrow> u64 \<Rightarrow> u64 \<Rightarrow> u64 \<Rightarrow> string \<Rightarrow> 'a kproc_scheme \<Rightarrow> (bool \<times> 'a kproc_scheme) option" where
  "install_page pt a pg perm msg s =
     Option.bind (uvm_map pt a pg perm s) (\<lambda>(r, s).
       Some (if r \<noteq> 0 then (False, kfree pg s) else (True, fault_note msg a s)))"

definition proc_pagefault :: "'d blkdev \<Rightarrow> nat \<Rightarrow> u64 \<Rightarrow> bool \<Rightarrow> 'd fs \<Rightarrow> 'a kproc_scheme \<Rightarrow>
    ('d, bool \<times> 'd fs \<times> 'a kproc_scheme) io option" where
  "proc_pagefault dev hart va store f s =
     (case current_proc hart s of
        None \<Rightarrow> Some (Inr (False, f, s))
      | Some i \<Rightarrow>
          let p = proc_at i s; a = va AND NOT 0xfff in
          if \<not> is_user p then Some (Inr (False, f, s))
          else case (if store then uvm_cow_fault (pagetable p) a s else (0, s)) of (cow, s) \<Rightarrow>
            if cow \<noteq> 0 then Some (Inr (True, f, fault_note ''[cow] copied a shared page on write at va='' a s))
            else if HEAPBASE \<le> a \<and> a < heap_top p then
              let (pg, s) = kalloc s in
              if pg = 0 then Some (Inr (False, f, s))
              else map_option (\<lambda>(b, s). Inr (b, f, s))
                     (install_page (pagetable p) a pg (PTE_R OR PTE_W OR PTE_U) ''[pagefault] demand-allocated a heap page at va=''
                       (s\<lparr>mem := set_loop (mem s) pg 0 4096\<rparr>))
            else if mmap_base p \<noteq> 0 \<and> mmap_base p \<le> a \<and> a < mmap_end p then
              let (pg, s) = kalloc s in
              if pg = 0 then Some (Inr (False, f, s))
              else case fs_read_page dev (mmap_start p) (mmap_size p) (ucast (a - mmap_base p)) (buffer (mem s) pg) f of
                  Inl d \<Rightarrow> Some (Inl d)
                | Inr (b, f) \<Rightarrow>
                    map_option (\<lambda>(r, s). Inr (r, f, s))
                      (install_page (pagetable p) a pg (PTE_R OR PTE_U) ''[pagefault] mmap loaded a file page at va=''
                        (s\<lparr>mem := put_buffer pg 4096 b (mem s)\<rparr>))
            else Some (Inr (False, f, s)))"

section \<open>Sleeping, waking, exiting, waiting\<close>

text \<open>
  The parts of the blocking operations before and after the switch to the scheduler. \<open>give_up\<close> is
  what the scheduler does when a process has switched back to it: \<^verbatim>\<open>switch_satp(kernel_pt())\<close> and
  \<^verbatim>\<open>cpu_proc[id] = 0\<close>.
\<close>

definition set_state :: "nat \<Rightarrow> proc_state \<Rightarrow> 'a kproc_scheme \<Rightarrow> 'a kproc_scheme" where
  "set_state i st s = set_proc i (proc_at i s\<lparr>state := st\<rparr>) s"

definition pick :: "nat \<Rightarrow> nat \<Rightarrow> 'a kproc_scheme \<Rightarrow> 'a kproc_scheme" where
  "pick hart i s =
     (let s = set_state i RUNNING s; s = s\<lparr>cpu_proc := (cpu_proc s)(hart := Some i)\<rparr>
      in switch_satp (pagetable (proc_at i s)) s)"

definition give_up :: "nat \<Rightarrow> 'a kproc_scheme \<Rightarrow> 'a kproc_scheme" where
  "give_up hart s = (let s = switch_satp (kernel_pt s) s in s\<lparr>cpu_proc := (cpu_proc s)(hart := None)\<rparr>)"

definition yield_proc :: "nat \<Rightarrow> 'a kproc_scheme \<Rightarrow> 'a kproc_scheme" where
  "yield_proc i s = (if state (proc_at i s) = RUNNING then set_state i RUNNABLE s else s)"

definition sleep_on :: "nat \<Rightarrow> channel \<Rightarrow> 'a kproc_scheme \<Rightarrow> 'a kproc_scheme" where
  "sleep_on i c s = set_proc i (proc_at i s\<lparr>chan := c, state := SLEEPING\<rparr>) s"

definition woken :: "nat \<Rightarrow> 'a kproc_scheme \<Rightarrow> 'a kproc_scheme" where
  "woken i s = set_proc i (proc_at i s\<lparr>chan := No_chan\<rparr>) s"

definition wakeup :: "channel \<Rightarrow> 'a kproc_scheme \<Rightarrow> 'a kproc_scheme" where
  "wakeup c s = fold (\<lambda>i s. if state (proc_at i s) = SLEEPING \<and> chan (proc_at i s) = c then set_state i RUNNABLE s else s)
     [0..<NPROC] s"

definition proc_exit :: "nat \<Rightarrow> 'a kproc_scheme \<Rightarrow> 'a kproc_scheme" where
  "proc_exit i s =
     (let s = (case parent (proc_at i s) of Some p \<Rightarrow> wakeup (Proc_chan p) s | None \<Rightarrow> s) in set_state i ZOMBIE s)"

text \<open>One round of the loop of \<^verbatim>\<open>proc_wait\<close>: the pid of a reaped child, no children, or sleep.\<close>

datatype wait_round = Reaped int | No_children | Must_sleep

definition wait_scan :: "nat \<Rightarrow> 'a kproc_scheme \<Rightarrow> (wait_round \<times> 'a kproc_scheme) option" where
  "wait_scan p s =
     (case find (\<lambda>i. parent (proc_at i s) = Some p \<and> state (proc_at i s) = ZOMBIE) [0..<NPROC] of
        Some i \<Rightarrow>
          let n = pid (proc_at i s) in
          Option.bind (proc_freeimage i s) (\<lambda>s.
            let s = set_proc i (proc_at i s\<lparr>parent := None, state := UNUSED\<rparr>) s in Some (Reaped n, s))
      | None \<Rightarrow> Some (if \<exists>i \<in> set [0..<NPROC]. parent (proc_at i s) = Some p then Must_sleep else No_children, s))"

definition proc_line :: "proc \<Rightarrow> u8 list" where
  "proc_line p = puts_bytes (bytes_of ''  '') @ puts_bytes (takeWhile (\<lambda>c. c \<noteq> 0) (pname p)) @
     puts_bytes (bytes_of (if is_user p then '' (user pid='' else '' (kernel pid='')) @ dec_bytes (of_int (pid p)) @
     puts_bytes (bytes_of ''): ticks='') @ dec_bytes (counter p) @ [10]"

definition proc_dump :: "'a kproc_scheme \<Rightarrow> 'a kproc_scheme" where
  "proc_dump s = s\<lparr>vout := vout s @ concat (map (\<lambda>i. if state (proc_at i s) = UNUSED then [] else proc_line (proc_at i s)) [0..<NPROC])\<rparr>"

end
