(* ===== verification/ProcFrame.thy ===== *)
theory ProcFrame
  imports Proc
begin

text \<open>
  What the operations of \<open>Proc\<close> leave alone. The memory system never touches the process table, so of
  every operation only the entries it assigns itself can change.
\<close>

section \<open>The memory system keeps what it does not know\<close>

named_theorems keeps \<open>operations that keep the fields of an extended state\<close>

lemma kmem_keeps [keeps]:
  "kmem.more (kfree p s) = kmem.more s" "kmem.more (kref_inc p s) = kmem.more s" "kmem.more (snd (kalloc s)) = kmem.more s"
  by (simp_all add: kfree_def kref_inc_def kalloc_def Let_def)

lemma kvm_more: "kmem.more s' = kmem.more s \<Longrightarrow> kvm.more s' = kvm.more s" for s :: "'a kvm_scheme"
  by (cases s, cases s') simp

lemma kproc_more:
  fixes s :: "'a kproc_scheme"
  assumes "kvm.more s' = kvm.more s"
  shows "proctable s' = proctable s" "cpu_proc s' = cpu_proc s" "next_pid s' = next_pid s" "kproc.more s' = kproc.more s"
  using assms by (cases s, cases s', simp)+

lemma walk_keeps: "kmem.more (snd (walk_loop l pt va alloc s)) = kmem.more s"
proof (induction l pt va alloc s rule: walk_loop.induct)
  case (2 l pt va alloc s)
  show ?case using 2 kmem_keeps(3) [of s] by (auto simp: Let_def split: prod.splits)
qed simp

lemma kvm_keeps [keeps]:
  "kvm.more (kfree p s) = kvm.more s" "kvm.more (kref_inc p s) = kvm.more s" "kvm.more (snd (kalloc s)) = kvm.more s"
  "kvm.more (snd (walk pt va al s)) = kvm.more s" "kvm.more (s\<lparr>mem := m\<rparr>) = kvm.more s" for s :: "'a kvm_scheme"
  by (rule kvm_more, simp add: keeps walk_def walk_keeps)+

lemma kvm_keeps_out [keeps]:
  "kvm.more (vputs t s) = kvm.more s" "kvm.more (fault_note t a s) = kvm.more s" "kvm.more (switch_satp pt s) = kvm.more s"
  by (simp_all add: vputs_def fault_note_def switch_satp_def)

lemma kalloc_keeps: "kalloc s = (p, s') \<Longrightarrow> kvm.more s' = kvm.more s" for s :: "'a kvm_scheme"
  using kvm_keeps(3) [of s] by simp

lemma walk_keeps_kvm: "walk pt va al s = (p, s') \<Longrightarrow> kvm.more s' = kvm.more s" for s :: "'a kvm_scheme"
  using kvm_keeps(4) [of pt va al s] by simp

lemma map_loop_keeps: "map_loop pt a final pa perm s = Some y \<Longrightarrow> kvm.more (snd y) = kvm.more s"
proof (induction rule: map_loop.raw_induct [rotated, consumes 1])
  case (1 map_loop pt a final pa perm s y)
  obtain p s1 where w: "walk pt a True s = (p, s1)" by (cases "walk pt a True s")
  have "kvm.more s1 = kvm.more s" by (rule walk_keeps_kvm [OF w])
  then show ?case using 1(2) 1(1) w by (auto simp: Let_def keeps split: if_splits)
qed

lemma mappages_keeps: "mappages pt va sz pa perm s = Some (r, s') \<Longrightarrow> kvm.more s' = kvm.more s"
  unfolding mappages_def by (drule map_loop_keeps) simp

lemma kvmmap_keeps: "kvmmap pt va pa sz perm s = Some s' \<Longrightarrow> kvm.more s' = kvm.more s"
  by (auto simp: kvmmap_def bind_eq_Some_conv split: if_splits dest: mappages_keeps)

lemma map_kernel_keeps: "map_kernel e pt s = Some s' \<Longrightarrow> kvm.more s' = kvm.more s"
  unfolding map_kernel_def bind_eq_Some_conv by (elim exE conjE) (simp add: kvmmap_keeps)

lemma proc_pagetable_keeps: "proc_pagetable e c u s = Some (pt, s') \<Longrightarrow> kvm.more s' = kvm.more s"
  unfolding proc_pagetable_def
  by (auto simp: bind_eq_Some_conv split: prod.splits if_splits dest!: kalloc_keeps map_kernel_keeps mappages_keeps simp: keeps)

lemma share_keeps: "uvm_cow_share P C a e s = Some y \<Longrightarrow> kvm.more (snd y) = kvm.more s"
proof (induction rule: uvm_cow_share.raw_induct [rotated, consumes 1])
  case (1 share P C a e s y)
  obtain p s1 where w: "walk P a False s = (p, s1)" by (cases "walk P a False s")
  have s1: "kvm.more s1 = kvm.more s" by (rule walk_keeps_kvm [OF w])
  show ?case
    using 1(2) s1 w by (auto simp: Let_def bind_eq_Some_conv keeps split: if_splits dest!: 1(1) mappages_keeps)
qed

lemma free_range_keeps: "vm_free_range pt a e s = Some s' \<Longrightarrow> kmem.more s' = kmem.more s"
proof (induction rule: vm_free_range.raw_induct [rotated, consumes 1])
  case (1 free pt a e s y)
  obtain p s1 where w: "walk pt a False s = (p, s1)" by (cases "walk pt a False s")
  have "s1 = s" using w by (simp add: walk_def walk_find)
  then show ?case using 1(2) w by (auto simp: Let_def keeps split: if_splits dest!: 1(1))
qed

lemma freewalk_keeps: "freewalk i pt s = Some s' \<Longrightarrow> kmem.more s' = kmem.more s"
proof (induction rule: freewalk.raw_induct [rotated, consumes 1])
  case (1 free i pt s y)
  show ?case using 1(2) by (auto simp: Let_def bind_eq_Some_conv keeps split: if_splits dest!: 1(1))
qed

section \<open>The process table\<close>

lemma set_proc_fields [simp]:
  "cpu_proc (set_proc i p s) = cpu_proc s" "length (proctable (set_proc i p s)) = length (proctable s)"
  "kernel_pagetable (set_proc i p s) = kernel_pagetable s" "next_pid (set_proc i p s) = next_pid s"
  "mem (set_proc i p s) = mem s" "satp (set_proc i p s) = satp s"
  by (simp_all add: set_proc_def)

lemma proc_at_set [simp]:
  "proc_at j (set_proc i p s) = (if i = j \<and> i < length (proctable s) then p else proc_at j s)"
  by (cases "i < length (proctable s)"; cases "i = j") (simp_all add: set_proc_def proc_at_def list_update_beyond)

lemma proc_at_fields [simp]:
  "proc_at j (s\<lparr>next_pid := n\<rparr>) = proc_at j s" "proc_at j (s\<lparr>cpu_proc := c\<rparr>) = proc_at j s" "proc_at j (s\<lparr>mem := m\<rparr>) = proc_at j s"
  "proc_at j (s\<lparr>satp := w\<rparr>) = proc_at j s"
  by (simp_all add: proc_at_def)

lemma free_slot_Some: "free_slot s = Some i \<Longrightarrow> i < NPROC \<and> state (proc_at i s) = UNUSED"
  by (auto simp: free_slot_def find_Some_iff)

text \<open>What the scheduler cares about in an entry.\<close>

definition view :: "nat \<Rightarrow> 'a kproc_scheme \<Rightarrow> proc_state \<times> channel \<times> nat option" where
  "view i s = (state (proc_at i s), chan (proc_at i s), parent (proc_at i s))"

definition same_view :: "'a kproc_scheme \<Rightarrow> 'a kproc_scheme \<Rightarrow> bool" where
  "same_view s s' \<longleftrightarrow> (\<forall>i. view i s' = view i s) \<and> cpu_proc s' = cpu_proc s \<and> length (proctable s') = length (proctable s)"

lemma same_view_refl [simp]: "same_view s s"
  by (simp add: same_view_def)

lemma same_view_trans [trans]: "same_view s s' \<Longrightarrow> same_view s' s'' \<Longrightarrow> same_view s s''"
  by (simp add: same_view_def)

lemma more_same_view: "kvm.more s' = kvm.more s \<Longrightarrow> same_view s s'"
  by (simp add: same_view_def view_def proc_at_def kproc_more [of s' s])

lemma set_same_view:
  "state p = state (proc_at i s) \<Longrightarrow> chan p = chan (proc_at i s) \<Longrightarrow> parent p = parent (proc_at i s) \<Longrightarrow> same_view s (set_proc i p s)"
  by (simp add: same_view_def view_def)

lemma kfree_same_view: "same_view s (kfree p s)" "same_view s (if b then kfree p s else s)"
  by (simp_all add: more_same_view keeps)

lemma free_range_same_view: "vm_free_range pt a e s = Some s' \<Longrightarrow> same_view s s'" for s :: "'a kproc_scheme"
  by (intro more_same_view kvm_more free_range_keeps)

lemma free_mmap_same_view: "free_mmap p s = Some s' \<Longrightarrow> same_view s s'"
  by (auto simp: free_mmap_def free_range_same_view split: if_splits)

lemma free_pagetable_same_view: "free_pagetable pt s = Some s' \<Longrightarrow> same_view s s'" for s :: "'a kproc_scheme"
  unfolding free_pagetable_def by (intro more_same_view kvm_more freewalk_keeps)

lemma proc_at_more: "kvm.more s' = kvm.more s \<Longrightarrow> proc_at i s' = proc_at i s"
  by (simp add: proc_at_def kproc_more [of s' s])

lemma freeimage_same_view:
  assumes "proc_freeimage i s = Some s'"
  shows "same_view s s'"
proof -
  let ?p = "proc_at i s"
  obtain s1 where s1: "(if pagetable ?p \<noteq> 0 then Option.bind (vm_free_range (pagetable ?p) HEAPBASE (heap_top ?p) s) (free_mmap ?p) else Some s) = Some s1"
    using assms unfolding proc_freeimage_def Let_def bind_eq_Some_conv by blast
  define s2 where "s2 = (let t = (if ucode ?p \<noteq> 0 then kfree (ucode ?p) s1 else s1); t = (if ustack ?p \<noteq> 0 then kfree (ustack ?p) t else t)
      in if kstack ?p \<noteq> 0 then kfree (kstack ?p) t else t)"
  obtain s3 where s3: "(if pagetable ?p \<noteq> 0 then free_pagetable (pagetable ?p) s2 else Some s2) = Some s3"
    "s' = set_proc i (?p\<lparr>ucode := 0, ustack := 0, kstack := 0, pagetable := 0, heap_top := HEAPBASE, mmap_base := 0\<rparr>) s3"
    using assms unfolding proc_freeimage_def Let_def s1 s2_def bind.bind_lunit bind_eq_Some_conv by blast
  have "same_view s s1"
  proof (cases "pagetable ?p \<noteq> 0")
    case True
    then obtain t where "vm_free_range (pagetable ?p) HEAPBASE (heap_top ?p) s = Some t" "free_mmap ?p t = Some s1"
      using s1 [unfolded if_P [OF True] bind_eq_Some_conv] by blast
    then show ?thesis using free_range_same_view free_mmap_same_view same_view_trans by blast
  qed (use s1 in simp)
  moreover have "same_view s1 s2"
    unfolding s2_def Let_def by (rule same_view_trans [OF same_view_trans]) (rule kfree_same_view(2))+
  moreover have "same_view s2 s3" using s3(1) by (auto split: if_splits dest: free_pagetable_same_view)
  ultimately have v: "same_view s s3" using same_view_trans by blast
  then have "view i s3 = view i s" by (simp add: same_view_def)
  then have "same_view s3 s'" unfolding s3(2) by (intro set_same_view) (simp_all add: view_def)
  with v show ?thesis by (rule same_view_trans)
qed

lemma fork_view:
  assumes "proc_fork lk hart f s = Some (r, s')" "length (proctable s) = NPROC"
  obtains (full) "free_slot s = None" "r = -1" "s' = s"
    | (child) c p where "free_slot s = Some c" "cpu_proc s hart = Some p" "r = next_pid s" "next_pid s' = next_pid s + 1"
        "cpu_proc s' = cpu_proc s" "length (proctable s') = NPROC" "view c s' = (RUNNABLE, chan (proc_at c s), Some p)"
        "\<forall>j. j \<noteq> c \<longrightarrow> proc_at j s' = proc_at j s" "pid (proc_at c s') = next_pid s" "tf_va (proc_at c s') = f"
proof -
  obtain p where p: "cpu_proc s hart = Some p" using assms(1) by (auto simp: proc_fork_def current_proc_def bind_eq_Some_conv)
  show ?thesis
  proof (cases "free_slot s")
    case None
    then show ?thesis using full assms(1) p by (auto simp: proc_fork_def current_proc_def)
  next
    case (Some c)
    let ?par = "proc_at p s"
    obtain us s1 where a: "kalloc s = (us, s1)" by (cases "kalloc s")
    let ?s2 = "kref_inc (ucode ?par) (s1\<lparr>mem := copy_loop (mem s1) us (ustack ?par) 4096\<rparr>)"
    obtain pt s3 where s3: "proc_pagetable (etext lk) (ucode ?par) us ?s2 = Some (pt, s3)"
      using assms(1) p Some a by (auto simp: proc_fork_def current_proc_def Let_def bind_eq_Some_conv)
    obtain n s4 where s4: "uvm_cow_share (pagetable ?par) pt HEAPBASE (heap_top ?par) s3 = Some (n, s4)"
      using assms(1) p Some a s3 by (auto simp: proc_fork_def current_proc_def Let_def bind_eq_Some_conv)
    have "kvm.more ?s2 = kvm.more s" using kalloc_keeps [OF a] by (simp add: keeps)
    then have "kvm.more s4 = kvm.more s" using proc_pagetable_keeps [OF s3] share_keeps [OF s4] by simp
    note k = kproc_more [OF this] proc_at_more [OF this]
    show ?thesis
      using assms p Some a s3 s4 free_slot_Some [OF Some] k
      by (intro child [OF Some p]) (auto simp: proc_fork_def current_proc_def Let_def view_def)
  qed
qed

lemma wait_scan_view:
  assumes "wait_scan p s = Some (r, s')" "length (proctable s) = NPROC"
  obtains (reaped) c n where "c < NPROC" "view c s = (ZOMBIE, chan (proc_at c s), Some p)" "r = Reaped n" "n = pid (proc_at c s)"
        "view c s' = (UNUSED, chan (proc_at c s), None)" "\<forall>j. j \<noteq> c \<longrightarrow> view j s' = view j s"
        "cpu_proc s' = cpu_proc s" "length (proctable s') = NPROC"
    | (none) "r = No_children" "s' = s" "\<forall>c < NPROC. parent (proc_at c s) \<noteq> Some p"
    | (asleep) c where "r = Must_sleep" "s' = s" "c < NPROC" "parent (proc_at c s) = Some p"
        "\<forall>c < NPROC. parent (proc_at c s) = Some p \<longrightarrow> state (proc_at c s) \<noteq> ZOMBIE"
proof (cases "find (\<lambda>i. parent (proc_at i s) = Some p \<and> state (proc_at i s) = ZOMBIE) [0..<NPROC]")
  case None
  then have nz: "\<forall>c < NPROC. parent (proc_at c s) = Some p \<longrightarrow> state (proc_at c s) \<noteq> ZOMBIE" by (auto simp: find_None_iff)
  show ?thesis
  proof (cases "\<exists>i \<in> set [0..<NPROC]. parent (proc_at i s) = Some p")
    case True
    then show ?thesis using asleep assms(1) None nz by (auto simp: wait_scan_def)
  next
    case False
    then show ?thesis using none assms(1) None by (auto simp: wait_scan_def)
  qed
next
  case (Some c)
  then have c: "c < NPROC" "parent (proc_at c s) = Some p" "state (proc_at c s) = ZOMBIE" by (auto simp: find_Some_iff)
  obtain s1 where f: "proc_freeimage c s = Some s1" using assms(1) Some by (auto simp: wait_scan_def Let_def bind_eq_Some_conv)
  have v: "same_view s s1" by (rule freeimage_same_view [OF f])
  then have ch: "chan (proc_at c s1) = chan (proc_at c s)" by (simp add: same_view_def view_def)
  show ?thesis
    using assms Some f c v ch by (intro reaped [OF c(1)]) (auto simp: wait_scan_def Let_def same_view_def view_def)
qed

lemma exec_same_view:
  assumes "exec_switch i newcode s = Some s'"
  shows "same_view s s'"
proof -
  let ?p = "proc_at i s"
  obtain s1 where s1: "vm_free_range (pagetable ?p) HEAPBASE (heap_top ?p) s = Some s1"
    using assms by (auto simp: exec_switch_def Let_def bind_eq_Some_conv)
  have v1: "kvm.more s1 = kvm.more s" by (rule kvm_more [OF free_range_keeps [OF s1]])
  let ?s2 = "set_proc i (?p\<lparr>heap_top := HEAPBASE\<rparr>) s1"
  obtain s3 where s3: "free_mmap ?p ?s2 = Some s3"
    using assms s1 by (auto simp: exec_switch_def Let_def bind_eq_Some_conv)
  let ?s4 = "set_proc i (proc_at i s3\<lparr>mmap_base := 0\<rparr>) s3"
  let ?s5 = "remap_user_code (pagetable ?p) newcode ?s4"
  let ?s6 = "set_proc i (proc_at i ?s5\<lparr>ucode := newcode\<rparr>) ?s5"
  have s': "s' = (if ucode ?p \<noteq> 0 then kfree (ucode ?p) ?s6 else ?s6)"
    using assms s1 s3 by (simp add: exec_switch_def Let_def)
  have "same_view s s1" by (rule more_same_view [OF v1])
  also have "same_view s1 ?s2" by (rule set_same_view) (simp_all add: proc_at_more [OF v1])
  also have "same_view ?s2 s3" by (rule free_mmap_same_view [OF s3])
  also have "same_view s3 ?s4" by (rule set_same_view) simp_all
  also have "same_view ?s4 ?s5"
    by (rule more_same_view) (auto simp: remap_user_code_def keeps split: prod.splits dest!: walk_keeps_kvm)
  also have "same_view ?s5 ?s6" by (rule set_same_view) simp_all
  also have "same_view ?s6 s'" unfolding s' by (rule kfree_same_view)
  finally show ?thesis .
qed

lemma cow_fault_keeps: "uvm_cow_fault pt va s = (r, s') \<Longrightarrow> kvm.more s' = kvm.more s" for s :: "'a kvm_scheme"
  unfolding uvm_cow_fault_def
  by (auto simp: Let_def keeps split: prod.splits if_splits dest!: walk_keeps_kvm kalloc_keeps)

lemma install_page_same_view: "install_page pt a pg perm msg s = Some (b, s') \<Longrightarrow> same_view s s'"
  unfolding install_page_def uvm_map_def
  by (rule more_same_view) (auto simp: bind_eq_Some_conv keeps split: if_splits dest!: mappages_keeps)

lemma sbrk_same_view: "proc_sbrk hart n s = Some (r, s') \<Longrightarrow> same_view s s'"
  by (auto simp: proc_sbrk_def bind_eq_Some_conv Let_def intro: set_same_view split: if_splits)

lemma mmap_same_view: "proc_mmap hart path f s = Some (r, s') \<Longrightarrow> same_view s s'"
  by (auto simp: proc_mmap_def bind_eq_Some_conv intro!: set_same_view split: option.splits)

lemma more_then: "kvm.more s1 = kvm.more s \<Longrightarrow> same_view s1 s' \<Longrightarrow> same_view s s'" for s :: "'a kproc_scheme"
  using more_same_view same_view_trans by blast

lemma pagefault_same_view:
  assumes "proc_pagefault dev hart va store f s = Some (Inr (b, f', s'))"
  shows "same_view s s'"
proof (cases "current_proc hart s")
  case (Some i)
  let ?p = "proc_at i s" and ?a = "va AND NOT 0xfff"
  obtain cow s1 where c: "(if store then uvm_cow_fault (pagetable ?p) ?a s else (0, s)) = (cow, s1)"
    by (cases "if store then uvm_cow_fault (pagetable ?p) ?a s else (0, s)")
  then have m1: "kvm.more s1 = kvm.more s" by (auto split: if_splits dest: cow_fault_keeps)
  obtain pg s2 where k: "kalloc s1 = (pg, s2)" by (cases "kalloc s1")
  have m2: "kvm.more s2 = kvm.more s" using kalloc_keeps [OF k] m1 by simp
  have here: "same_view s s1" "same_view s s2" "same_view s (fault_note msg ?a s1)" for msg
    using m1 m2 by (auto intro: more_same_view simp: keeps)
  have inst: "same_view s s'" if "install_page pt a pg perm msg (s2\<lparr>mem := m\<rparr>) = Some (b, s')" for pt a perm msg m
    by (rule more_then [OF _ install_page_same_view [OF that]]) (simp add: keeps m2)
  note step = assms [unfolded proc_pagefault_def Some option.case Let_def c k prod.case]
  show ?thesis
  proof (cases "\<not> is_user ?p \<or> cow \<noteq> 0 \<or> pg = 0")
    case True
    then show ?thesis using step here by (auto split: if_splits)
  next
    case False
    consider (heap) "HEAPBASE \<le> ?a \<and> ?a < heap_top ?p"
      | (mmap) "\<not> (HEAPBASE \<le> ?a \<and> ?a < heap_top ?p)" "mmap_base ?p \<noteq> 0 \<and> mmap_base ?p \<le> ?a \<and> ?a < mmap_end ?p"
      | (other) "\<not> (HEAPBASE \<le> ?a \<and> ?a < heap_top ?p)" "\<not> (mmap_base ?p \<noteq> 0 \<and> mmap_base ?p \<le> ?a \<and> ?a < mmap_end ?p)" by blast
    then show ?thesis
    proof cases
      case heap
      with step False show ?thesis by (intro inst) (simp, blast)
    next
      case mmap
      with step False show ?thesis by (auto split: sum.splits intro: inst)
    next
      case other
      with step False here show ?thesis by (auto split: if_splits)
    qed
  qed
qed (use assms in \<open>simp add: proc_pagefault_def\<close>)

end
