(* ===== verification/Sched.thy ===== *)
theory Sched
  imports ProcFrame Spinlock
begin

text \<open>
  The scheduler of \<^verbatim>\<open>proc.c\<close> on several harts. A hart is at the top of its loop, inside the scan of
  the table with \<^verbatim>\<open>pt_lock\<close> held, or running a process. \<^verbatim>\<open>swtch\<close> carries the lock from one side to
  the other: a process that gives up the processor has taken the lock and the scan goes on with
  it held, a process that is picked lets it go at the place it resumes. What runs between
  taking the lock and letting it go is one step; all steps of all harts interleave.
\<close>

section \<open>Control points\<close>

text \<open>\<open>Scan i\<close>: about to look at entry \<open>i\<close>, with the lock. \<open>Run i\<close>: in process \<open>i\<close>, without it.\<close>

datatype hart_pc = Top | Scan nat | Run nat

text \<open>
  Where the saved context of a process resumes: \<^verbatim>\<open>thread_start\<close>, \<^verbatim>\<open>enter_user\<close> or \<^verbatim>\<open>forkret\<close>; in \<^verbatim>\<open>yield\<close>; in the
  loop of \<^verbatim>\<open>proc_wait\<close>; in the loop of \<^verbatim>\<open>console_read\<close>; never again.
\<close>

datatype resume = Fresh | Yielded | In_wait | In_read | Dead

record sys =
  ker :: kproc
  pt_lock :: spinlock
  pc :: "nat \<Rightarrow> hart_pc"
  res :: "nat \<Rightarrow> resume"

abbreviation lock_free :: "sys \<Rightarrow> bool" where
  "lock_free m \<equiv> fst (test_and_set (pt_lock m) 1) = 0"

abbreviation take_lock :: "sys \<Rightarrow> spinlock" where
  "take_lock m \<equiv> snd (test_and_set (pt_lock m) 1)"

abbreviation drop_lock :: "sys \<Rightarrow> spinlock" where
  "drop_lock m \<equiv> (pt_lock m)\<lparr>locked := 0\<rparr>"

text \<open>The hart leaves process \<open>i\<close>, or turns to the next entry, in state \<open>k\<close>.\<close>

definition back_to_scan :: "nat \<Rightarrow> nat \<Rightarrow> resume \<Rightarrow> kproc \<Rightarrow> sys \<Rightarrow> sys" where
  "back_to_scan h i r k m = m\<lparr>ker := give_up h k, pc := (pc m)(h := Scan (Suc i)), res := (res m)(i := r)\<rparr>"

definition into_proc :: "nat \<Rightarrow> nat \<Rightarrow> kproc \<Rightarrow> sys \<Rightarrow> sys" where
  "into_proc h i k m = m\<lparr>ker := k, pt_lock := drop_lock m, pc := (pc m)(h := Run i)\<rparr>"

abbreviation locked_sys :: "sys \<Rightarrow> sys" where
  "locked_sys m \<equiv> m\<lparr>pt_lock := take_lock m\<rparr>"

inductive sched_step :: "ksyms \<Rightarrow> sys \<Rightarrow> sys \<Rightarrow> bool" for lk where
  enter: "pc m h = Top \<Longrightarrow> lock_free m \<Longrightarrow> sched_step lk m ((locked_sys m)\<lparr>pc := (pc m)(h := Scan 0)\<rparr>)"
| skip: "pc m h = Scan i \<Longrightarrow> i < NPROC \<Longrightarrow> state (proc_at i (ker m)) \<noteq> RUNNABLE \<Longrightarrow>
     sched_step lk m (m\<lparr>pc := (pc m)(h := Scan (Suc i))\<rparr>)"
| leave: "pc m h = Scan i \<Longrightarrow> NPROC \<le> i \<Longrightarrow> sched_step lk m (m\<lparr>pt_lock := drop_lock m, pc := (pc m)(h := Top)\<rparr>)"
| run: "pc m h = Scan i \<Longrightarrow> i < NPROC \<Longrightarrow> state (proc_at i (ker m)) = RUNNABLE \<Longrightarrow> res m i \<in> {Fresh, Yielded} \<Longrightarrow>
     sched_step lk m (into_proc h i (pick h i (ker m)) m)"
| resume_wait: "pc m h = Scan i \<Longrightarrow> i < NPROC \<Longrightarrow> state (proc_at i (ker m)) = RUNNABLE \<Longrightarrow> res m i = In_wait \<Longrightarrow>
     wait_scan i (woken i (pick h i (ker m))) = Some (r, k) \<Longrightarrow> r \<noteq> Must_sleep \<Longrightarrow> sched_step lk m (into_proc h i k m)"
| wait_again: "pc m h = Scan i \<Longrightarrow> i < NPROC \<Longrightarrow> state (proc_at i (ker m)) = RUNNABLE \<Longrightarrow> res m i = In_wait \<Longrightarrow>
     wait_scan i (woken i (pick h i (ker m))) = Some (Must_sleep, k) \<Longrightarrow>
     sched_step lk m (back_to_scan h i In_wait (sleep_on i (Proc_chan i) k) m)"
| resume_read: "pc m h = Scan i \<Longrightarrow> i < NPROC \<Longrightarrow> state (proc_at i (ker m)) = RUNNABLE \<Longrightarrow> res m i = In_read \<Longrightarrow>
     sched_step lk m (into_proc h i (woken i (pick h i (ker m))) m)"
| read_again: "pc m h = Scan i \<Longrightarrow> i < NPROC \<Longrightarrow> state (proc_at i (ker m)) = RUNNABLE \<Longrightarrow> res m i = In_read \<Longrightarrow>
     sched_step lk m (back_to_scan h i In_read (sleep_on i In_chan (woken i (pick h i (ker m)))) m)"
| yield: "pc m h = Run i \<Longrightarrow> lock_free m \<Longrightarrow> sched_step lk m (back_to_scan h i Yielded (yield_proc i (ker m)) (locked_sys m))"
| read_sleep: "pc m h = Run i \<Longrightarrow> lock_free m \<Longrightarrow>
     sched_step lk m (back_to_scan h i In_read (sleep_on i In_chan (ker m)) (locked_sys m))"
| exit: "pc m h = Run i \<Longrightarrow> lock_free m \<Longrightarrow> sched_step lk m (back_to_scan h i Dead (proc_exit i (ker m)) (locked_sys m))"
| wait_done: "pc m h = Run i \<Longrightarrow> lock_free m \<Longrightarrow> wait_scan i (ker m) = Some (r, k) \<Longrightarrow> r \<noteq> Must_sleep \<Longrightarrow>
     sched_step lk m (m\<lparr>ker := k\<rparr>)"
| wait_sleep: "pc m h = Run i \<Longrightarrow> lock_free m \<Longrightarrow> wait_scan i (ker m) = Some (Must_sleep, k) \<Longrightarrow>
     sched_step lk m (back_to_scan h i In_wait (sleep_on i (Proc_chan i) k) (locked_sys m))"
| fork: "pc m h = Run i \<Longrightarrow> lock_free m \<Longrightarrow> proc_fork lk h f (ker m) = Some (r, k) \<Longrightarrow>
     sched_step lk m (m\<lparr>ker := k, res := (case free_slot (ker m) of Some c \<Rightarrow> (res m)(c := Fresh) | None \<Rightarrow> res m)\<rparr>)"
| line_typed: "lock_free m \<Longrightarrow> sched_step lk m (m\<lparr>ker := wakeup In_chan (ker m)\<rparr>)"
| own: "pc m h = Run i \<Longrightarrow> same_view (ker m) k \<Longrightarrow> sched_step lk m (m\<lparr>ker := k\<rparr>)"

section \<open>What the pieces do to the table\<close>

text \<open>The table as the scheduler sees it, as a function of the index.\<close>

abbreviation tab :: "kproc \<Rightarrow> nat \<Rightarrow> proc_state \<times> channel \<times> nat option" where
  "tab k \<equiv> (\<lambda>i. view i k)"

definition wf_ker :: "kproc \<Rightarrow> bool" where
  "wf_ker k \<longleftrightarrow> length (proctable k) = NPROC"

named_theorems tab_simps \<open>the table after each piece of the scheduler\<close>

lemma wf_ker_length: "wf_ker k \<Longrightarrow> length (proctable k) = NPROC"
  by (simp add: wf_ker_def)

lemma switch_satp_fields [simp]:
  "proctable (switch_satp pt k) = proctable k" "cpu_proc (switch_satp pt k) = cpu_proc k" "proc_at i (switch_satp pt k) = proc_at i k"
  by (simp_all add: switch_satp_def proc_at_def)

lemma pick_tab [tab_simps]:
  assumes "wf_ker k" "i < NPROC"
  shows "tab (pick h i k) = (tab k)(i := (RUNNING, snd (view i k)))" "cpu_proc (pick h i k) = (cpu_proc k)(h := Some i)" "wf_ker (pick h i k)"
  using assms by (auto simp: pick_def Let_def set_state_def view_def fun_eq_iff wf_ker_def)

lemma give_up_tab [tab_simps]:
  "tab (give_up h k) = tab k" "cpu_proc (give_up h k) = (cpu_proc k)(h := None)" "wf_ker (give_up h k) = wf_ker k"
  "view j (give_up h k) = view j k"
  by (auto simp: give_up_def Let_def view_def wf_ker_def)

lemma woken_tab [tab_simps]:
  assumes "wf_ker k" "i < NPROC"
  shows "tab (woken i k) = (tab k)(i := (fst (view i k), No_chan, snd (snd (view i k))))" "cpu_proc (woken i k) = cpu_proc k" "wf_ker (woken i k)"
  using assms by (auto simp: woken_def view_def fun_eq_iff wf_ker_def)

lemma sleep_tab [tab_simps]:
  assumes "wf_ker k" "i < NPROC"
  shows "tab (sleep_on i c k) = (tab k)(i := (SLEEPING, c, snd (snd (view i k))))" "cpu_proc (sleep_on i c k) = cpu_proc k" "wf_ker (sleep_on i c k)"
  using assms by (auto simp: sleep_on_def view_def fun_eq_iff wf_ker_def)

lemma yield_tab [tab_simps]:
  assumes "wf_ker k" "i < NPROC" "fst (view i k) = RUNNING"
  shows "tab (yield_proc i k) = (tab k)(i := (RUNNABLE, snd (view i k)))" "cpu_proc (yield_proc i k) = cpu_proc k" "wf_ker (yield_proc i k)"
  using assms by (auto simp: yield_proc_def set_state_def view_def fun_eq_iff wf_ker_def)

text \<open>\<^verbatim>\<open>wakeup\<close> changes exactly the sleepers on the channel.\<close>

definition wake :: "channel \<Rightarrow> proc_state \<times> channel \<times> nat option \<Rightarrow> proc_state \<times> channel \<times> nat option" where
  "wake c v = (if fst v = SLEEPING \<and> fst (snd v) = c then (RUNNABLE, snd v) else v)"

abbreviation wake_one :: "channel \<Rightarrow> nat \<Rightarrow> kproc \<Rightarrow> kproc" where
  "wake_one c \<equiv> (\<lambda>i s. if state (proc_at i s) = SLEEPING \<and> chan (proc_at i s) = c then set_state i RUNNABLE s else s)"

lemma wakeup_fold:
  "wf_ker k \<Longrightarrow> distinct xs \<Longrightarrow> set xs \<subseteq> {..<NPROC} \<Longrightarrow>
   tab (fold (wake_one c) xs k) = (\<lambda>j. if j \<in> set xs then wake c (view j k) else view j k) \<and>
   cpu_proc (fold (wake_one c) xs k) = cpu_proc k \<and> wf_ker (fold (wake_one c) xs k)"
proof (induction xs arbitrary: k)
  case (Cons i xs)
  let ?k = "if state (proc_at i k) = SLEEPING \<and> chan (proc_at i k) = c then set_state i RUNNABLE k else k"
  have k: "wf_ker ?k" "tab ?k = (tab k)(i := wake c (view i k))" "cpu_proc ?k = cpu_proc k"
    using Cons.prems(1,3) by (auto simp: set_state_def wf_ker_def view_def wake_def fun_eq_iff)
  then have v: "view j ?k = (if j = i then wake c (view i k) else view j k)" for j by (metis fun_upd_apply)
  have i: "i \<notin> set xs" "distinct xs" "set xs \<subseteq> {..<NPROC}" using Cons.prems(2,3) by auto
  note IH = Cons.IH [OF k(1) i(2,3)]
  have "view j (fold (wake_one c) xs ?k) = (if j \<in> set (i # xs) then wake c (view j k) else view j k)" for j
    using fun_cong [OF conjunct1 [OF IH], of j] i(1) unfolding v by auto
  then show ?case using IH k(3) by (simp only: fold_simps)
qed simp

lemma wakeup_tab [tab_simps]:
  assumes "wf_ker k"
  shows "tab (wakeup c k) = (\<lambda>j. if j < NPROC then wake c (view j k) else view j k)" "cpu_proc (wakeup c k) = cpu_proc k" "wf_ker (wakeup c k)"
  using wakeup_fold [OF assms distinct_upt [of 0 NPROC], of c] unfolding wakeup_def by (auto simp: lessThan_atLeast0)

lemma exit_tab [tab_simps]:
  assumes "wf_ker k" "i < NPROC"
  defines "w \<equiv> \<lambda>j. case snd (snd (view i k)) of Some p \<Rightarrow> if j < NPROC then wake (Proc_chan p) (view j k) else view j k | None \<Rightarrow> view j k"
  shows "tab (proc_exit i k) = w(i := (ZOMBIE, snd (w i)))" "cpu_proc (proc_exit i k) = cpu_proc k" "wf_ker (proc_exit i k)"
proof -
  define k1 where "k1 = (case parent (proc_at i k) of Some p \<Rightarrow> wakeup (Proc_chan p) k | None \<Rightarrow> k)"
  have k1: "tab k1 = w" "cpu_proc k1 = cpu_proc k" "wf_ker k1"
    using wakeup_tab [OF assms(1)] assms(1) by (auto simp: k1_def w_def view_def [of i k] split: option.splits)
  have "proc_exit i k = set_state i ZOMBIE k1" by (simp add: proc_exit_def k1_def Let_def)
  moreover have "tab (set_state i ZOMBIE k1) = (tab k1)(i := (ZOMBIE, snd (view i k1)))"
    using k1(3) assms(2) by (auto simp: set_state_def view_def fun_eq_iff wf_ker_def)
  moreover have "view i k1 = w i" using k1(1) by metis
  ultimately show "tab (proc_exit i k) = w(i := (ZOMBIE, snd (w i)))" "cpu_proc (proc_exit i k) = cpu_proc k" "wf_ker (proc_exit i k)"
    using k1 by (auto simp: set_state_def wf_ker_def)
qed

section \<open>The invariant\<close>

type_synonym table = "nat \<Rightarrow> proc_state \<times> channel \<times> nat option"

text \<open>\<open>i\<close> has a child and no child of \<open>i\<close> has exited.\<close>

definition waits :: "table \<Rightarrow> nat \<Rightarrow> bool" where
  "waits t i \<longleftrightarrow> (\<exists>c < NPROC. snd (snd (t c)) = Some i) \<and> (\<forall>c < NPROC. snd (snd (t c)) = Some i \<longrightarrow> fst (t c) \<noteq> ZOMBIE)"

definition table_inv :: "table \<Rightarrow> bool" where
  "table_inv t \<longleftrightarrow> (\<forall>i < NPROC. \<forall>j. fst (t i) = SLEEPING \<and> fst (snd (t i)) = Proc_chan j \<longrightarrow> j = i \<and> waits t i) \<and>
     (\<forall>i < NPROC. fst (t i) = UNUSED \<longrightarrow> snd (snd (t i)) = None)"

definition harts_inv :: "(nat \<Rightarrow> hart_pc) \<Rightarrow> bool \<Rightarrow> (nat \<Rightarrow> nat option) \<Rightarrow> table \<Rightarrow> bool" where
  "harts_inv pcs free cpu t \<longleftrightarrow>
     (free \<longleftrightarrow> (\<forall>h i. pcs h \<noteq> Scan i)) \<and> (\<forall>h h' i j. pcs h = Scan i \<and> pcs h' = Scan j \<longrightarrow> h = h') \<and>
     (\<forall>h i. cpu h = Some i \<longleftrightarrow> pcs h = Run i) \<and> (\<forall>h i. pcs h = Run i \<longrightarrow> i < NPROC \<and> fst (t i) = RUNNING) \<and>
     (\<forall>h h' i. pcs h = Run i \<and> pcs h' = Run i \<longrightarrow> h = h') \<and>
     (\<forall>i < NPROC. fst (t i) = RUNNING \<longrightarrow> (\<exists>h. pcs h = Run i))"

definition sched_inv :: "sys \<Rightarrow> bool" where
  "sched_inv m \<longleftrightarrow> wf_ker (ker m) \<and> table_inv (tab (ker m)) \<and>
     harts_inv (pc m) (locked (pt_lock m) = 0) (cpu_proc (ker m)) (tab (ker m)) \<and>
     (\<forall>i < NPROC. res m i = Dead \<longrightarrow> fst (view i (ker m)) \<in> {ZOMBIE, UNUSED})"

subsection \<open>How the table part is kept\<close>

lemma waits_mono:
  assumes "waits t j" "\<And>c. c < NPROC \<Longrightarrow> snd (snd (t c)) = Some j \<Longrightarrow> snd (snd (t' c)) = Some j"
    and "\<And>c. c < NPROC \<Longrightarrow> snd (snd (t' c)) = Some j \<Longrightarrow> fst (t' c) = ZOMBIE \<Longrightarrow> snd (snd (t c)) = Some j \<and> fst (t c) = ZOMBIE"
  shows "waits t' j"
  using assms unfolding waits_def by blast

lemma table_invI:
  assumes "\<And>i j. i < NPROC \<Longrightarrow> fst (t i) = SLEEPING \<Longrightarrow> fst (snd (t i)) = Proc_chan j \<Longrightarrow> j = i \<and> waits t i"
    and "\<And>i. i < NPROC \<Longrightarrow> fst (t i) = UNUSED \<Longrightarrow> snd (snd (t i)) = None"
  shows "table_inv t"
  using assms unfolding table_inv_def by blast

lemma table_invD:
  assumes "table_inv t" "i < NPROC"
  shows "fst (t i) = SLEEPING \<Longrightarrow> fst (snd (t i)) = Proc_chan j \<Longrightarrow> j = i \<and> waits t i" "fst (t i) = UNUSED \<Longrightarrow> snd (snd (t i)) = None"
  using assms unfolding table_inv_def by blast+

text \<open>A change of one entry that keeps its parent and is no exit.\<close>

lemma table_change:
  assumes t: "table_inv t" "i < NPROC" and st: "st \<noteq> ZOMBIE" "st \<noteq> UNUSED" "\<And>j. st = SLEEPING \<Longrightarrow> ch = Proc_chan j \<Longrightarrow> j = i \<and> waits t i"
  shows "table_inv (t(i := (st, ch, snd (snd (t i)))))" (is "table_inv ?t")
proof -
  have w: "waits ?t j" if "waits t j" for j using that by (rule waits_mono) (use st(1) in \<open>auto split: if_splits\<close>)
  show ?thesis
  proof (rule table_invI)
    show "j = k \<and> waits ?t k" if "k < NPROC" "fst (?t k) = SLEEPING" "fst (snd (?t k)) = Proc_chan j" for k j
      using that st(3) [of j] table_invD(1) [OF t(1) that(1), of j] w by (cases "k = i") auto
    show "snd (snd (?t k)) = None" if "k < NPROC" "fst (?t k) = UNUSED" for k
      using that st(2) table_invD(2) [OF t(1) that(1)] by (cases "k = i") auto
  qed
qed

lemma table_reap:
  assumes t: "table_inv t" and i: "fst (t i) = RUNNING" "snd (snd (t c)) = Some i"
  shows "table_inv (t(c := (UNUSED, ch, None)))" (is "table_inv ?t")
proof (rule table_invI)
  show "j = k \<and> waits ?t k" if k: "k < NPROC" "fst (?t k) = SLEEPING" "fst (snd (?t k)) = Proc_chan j" for k j
  proof -
    have "k \<noteq> c" "k \<noteq> i" using k i(1) by (auto split: if_splits)
    then have "j = k" "waits t k" using table_invD(1) [OF t k(1), of j] k by auto
    moreover have "waits ?t k" using \<open>waits t k\<close> by (rule waits_mono) (use i(2) \<open>k \<noteq> i\<close> in \<open>auto split: if_splits\<close>)
    ultimately show ?thesis by simp
  qed
  show "snd (snd (?t k)) = None" if "k < NPROC" "fst (?t k) = UNUSED" for k
    using that table_invD(2) [OF t that(1)] by (cases "k = c") auto
qed

lemma table_fork:
  assumes t: "table_inv t" "c < NPROC" "fst (t c) = UNUSED"
  shows "table_inv (t(c := (RUNNABLE, ch, Some p)))" (is "table_inv ?t")
proof (rule table_invI)
  have n: "snd (snd (t c)) = None" by (rule table_invD(2) [OF t])
  show "j = k \<and> waits ?t k" if k: "k < NPROC" "fst (?t k) = SLEEPING" "fst (snd (?t k)) = Proc_chan j" for k j
  proof -
    have "k \<noteq> c" using k by auto
    then have "j = k" "waits t k" using table_invD(1) [OF t(1) k(1), of j] k by auto
    moreover have "waits ?t k" using \<open>waits t k\<close> by (rule waits_mono) (use n in \<open>auto split: if_splits\<close>)
    ultimately show ?thesis by simp
  qed
  show "snd (snd (?t k)) = None" if "k < NPROC" "fst (?t k) = UNUSED" for k
    using that table_invD(2) [OF t(1) that(1)] by (cases "k = c") auto
qed

lemma wake_simps [simp]:
  "snd (wake c v) = snd v" "fst (wake c v) = ZOMBIE \<longleftrightarrow> fst v = ZOMBIE" "fst (wake c v) = UNUSED \<longleftrightarrow> fst v = UNUSED"
  "fst (wake c v) = RUNNING \<longleftrightarrow> fst v = RUNNING" "fst (wake c v) = SLEEPING \<longleftrightarrow> fst v = SLEEPING \<and> fst (snd v) \<noteq> c"
  by (auto simp: wake_def)

lemma table_wake:
  assumes t: "table_inv t"
  shows "table_inv (\<lambda>j. if j < NPROC then wake c (t j) else t j)" (is "table_inv ?t")
proof (rule table_invI)
  have w: "waits ?t j" if "waits t j" for j using that by (rule waits_mono) auto
  show "j = k \<and> waits ?t k" if "k < NPROC" "fst (?t k) = SLEEPING" "fst (snd (?t k)) = Proc_chan j" for k j
    using that table_invD(1) [OF t that(1), of j] w by simp
  show "snd (snd (?t k)) = None" if "k < NPROC" "fst (?t k) = UNUSED" for k
    using that table_invD(2) [OF t that(1)] by simp
qed

lemma table_exit:
  assumes t: "table_inv t" "i < NPROC" and w: "w = (\<lambda>j. case snd (snd (t i)) of Some p \<Rightarrow> if j < NPROC then wake (Proc_chan p) (t j) else t j | None \<Rightarrow> t j)"
  shows "table_inv (w(i := (ZOMBIE, snd (w i))))" (is "table_inv ?t")
proof (rule table_invI)
  have inv: "table_inv w" using t(1) table_wake unfolding w by (cases "snd (snd (t i))") auto
  have par: "snd (w j) = snd (t j)" for j by (simp add: w split: option.splits)
  show "j = k \<and> waits ?t k" if k: "k < NPROC" "fst (?t k) = SLEEPING" "fst (snd (?t k)) = Proc_chan j" for k j
  proof -
    have ki: "k \<noteq> i" using k(2) by auto
    then have j: "j = k" "waits w k" using table_invD(1) [OF inv k(1), of j] k by auto
    have "snd (snd (t i)) \<noteq> Some k" using k ki j(1) by (auto simp: w)
    then have "waits ?t k" by (intro waits_mono [OF j(2)]) (auto simp: par split: if_splits)
    with j show ?thesis by simp
  qed
  show "snd (snd (?t k)) = None" if "k < NPROC" "fst (?t k) = UNUSED" for k
    using that table_invD(2) [OF inv that(1)] by (cases "k = i") auto
qed

subsection \<open>How the hart part is kept\<close>

lemma harts_cong:
  assumes "\<And>i. i < NPROC \<Longrightarrow> fst (t' i) = RUNNING \<longleftrightarrow> fst (t i) = RUNNING"
  shows "harts_inv pcs free cpu t' = harts_inv pcs free cpu t"
  unfolding harts_inv_def using assms by blast

lemma harts_running: "harts_inv pcs free cpu t \<Longrightarrow> i < NPROC \<Longrightarrow> fst (t i) = RUNNING \<Longrightarrow> \<exists>h. pcs h = Run i"
  unfolding harts_inv_def by blast

lemma harts_D:
  assumes "harts_inv pcs free cpu t"
  shows "free \<longleftrightarrow> (\<forall>h i. pcs h \<noteq> Scan i)" "pcs h = Scan i \<Longrightarrow> pcs h' = Scan j \<Longrightarrow> h = h'" "cpu h = Some i \<longleftrightarrow> pcs h = Run i"
    "pcs h = Run i \<Longrightarrow> i < NPROC \<and> fst (t i) = RUNNING" "pcs h = Run i \<Longrightarrow> pcs h' = Run i \<Longrightarrow> h = h'"
  using assms unfolding harts_inv_def by blast+

text \<open>The cases differ in what hart \<open>h\<close> does and which process stops or starts to run.\<close>

lemma harts_change:
  assumes inv: "harts_inv pcs free cpu t" and alone: "\<And>g i. g \<noteq> h \<Longrightarrow> pcs g \<noteq> Scan i"
    and cpu: "cpu' = (case p of Run i \<Rightarrow> Some i | _ \<Rightarrow> None)" and free: "free' \<longleftrightarrow> (\<forall>i. p \<noteq> Scan i)"
    and same: "\<And>i. i < NPROC \<Longrightarrow> pcs h \<noteq> Run i \<Longrightarrow> p \<noteq> Run i \<Longrightarrow> fst (t' i) = RUNNING \<longleftrightarrow> fst (t i) = RUNNING"
    and stop: "\<And>i. pcs h = Run i \<Longrightarrow> p \<noteq> Run i \<Longrightarrow> fst (t' i) \<noteq> RUNNING"
    and start: "\<And>i. p = Run i \<Longrightarrow> i < NPROC \<and> fst (t' i) = RUNNING \<and> (pcs h = Run i \<or> fst (t i) \<noteq> RUNNING)"
  shows "harts_inv (pcs(h := p)) free' (cpu(h := cpu')) t'"
proof -
  note D = harts_D [OF inv]
  have other: "i < NPROC \<and> fst (t' i) = RUNNING \<and> p \<noteq> Run i" if "g \<noteq> h" "pcs g = Run i" for g i
  proof -
    have "pcs h \<noteq> Run i" using D(5) that by blast
    moreover have "p \<noteq> Run i" using start [of i] D(4) [OF that(2)] calculation by auto
    ultimately show ?thesis using D(4) [OF that(2)] same by auto
  qed
  have run: "\<exists>g. (pcs(h := p)) g = Run i" if i: "i < NPROC" "fst (t' i) = RUNNING" for i
  proof (cases "p = Run i")
    case True
    then show ?thesis by (intro exI [of _ h]) simp
  next
    case False
    then have "pcs h \<noteq> Run i" using stop i(2) by blast
    then have "fst (t i) = RUNNING" using same i False by blast
    then obtain g where "pcs g = Run i" using harts_running [OF inv i(1)] by blast
    then show ?thesis using \<open>pcs h \<noteq> Run i\<close> by (intro exI [of _ g]) auto
  qed
  have lock: "free' \<longleftrightarrow> (\<forall>g i. (pcs(h := p)) g \<noteq> Scan i)" using alone free by auto
  have scans: "g = g'" if "(pcs(h := p)) g = Scan i" "(pcs(h := p)) g' = Scan j" for g g' i j
    using that alone by (metis fun_upd_apply)
  have cpus: "(cpu(h := cpu')) g = Some i \<longleftrightarrow> (pcs(h := p)) g = Run i" for g i
    using D(3) [of g i] cpu by (auto split: hart_pc.splits)
  have runs: "i < NPROC \<and> fst (t' i) = RUNNING" if "(pcs(h := p)) g = Run i" for g i
    using that other [of g i] start [of i] by (cases "g = h") auto
  have once: "g = g'" if "(pcs(h := p)) g = Run i" "(pcs(h := p)) g' = Run i" for g g' i
    using that other [of g i] other [of g' i] D(5) [of g i g'] by (cases "g = h"; cases "g' = h") auto
  show ?thesis unfolding harts_inv_def using lock scans cpus runs once run by blast
qed

subsection \<open>Every step keeps it\<close>

lemma lock_free_iff: "lock_free m \<longleftrightarrow> locked (pt_lock m) = 0"
  by (simp add: test_and_set_def)

definition quiet :: "proc_state \<Rightarrow> bool" where
  "quiet st \<longleftrightarrow> st = ZOMBIE \<or> st = UNUSED"

text \<open>
  A step of hart \<open>h\<close> from kernel state \<open>k\<close> to \<open>k'\<close> about process \<open>i\<close>: what it owes to the rest of
  the table.
\<close>

definition fair_to_others :: "nat \<Rightarrow> kproc \<Rightarrow> kproc \<Rightarrow> bool" where
  "fair_to_others i k k' \<longleftrightarrow> wf_ker k' \<and> table_inv (tab k') \<and>
     (\<forall>j < NPROC. j \<noteq> i \<longrightarrow> (fst (view j k') = RUNNING \<longleftrightarrow> fst (view j k) = RUNNING) \<and> (quiet (fst (view j k)) \<longrightarrow> quiet (fst (view j k'))))"

lemma sched_inv_D:
  assumes "sched_inv m"
  shows "wf_ker (ker m)" "table_inv (tab (ker m))" "harts_inv (pc m) (locked (pt_lock m) = 0) (cpu_proc (ker m)) (tab (ker m))"
    "i < NPROC \<Longrightarrow> res m i = Dead \<Longrightarrow> quiet (fst (view i (ker m)))"
    "pc m h = Run i \<Longrightarrow> i < NPROC \<and> fst (view i (ker m)) = RUNNING"
  using assms unfolding sched_inv_def quiet_def harts_inv_def by auto

lemma keep_back:
  assumes inv: "sched_inv m" and h: "pc m h = Run i \<and> lock_free m \<or> pc m h = Scan i \<and> i < NPROC \<and> fst (view i (ker m)) = RUNNABLE"
    and k: "fair_to_others i (ker m) k" "cpu_proc k = cpu_proc (ker m) \<or> cpu_proc k = (cpu_proc (ker m))(h := Some i)"
      "fst (view i k) \<noteq> RUNNING" "r = Dead \<Longrightarrow> quiet (fst (view i k))"
    and lk: "locked (pt_lock m') \<noteq> 0" "ker m' = ker m" "pc m' = pc m" "res m' = res m"
  shows "sched_inv (back_to_scan h i r k m')"
proof -
  note D = sched_inv_D [OF inv]
  have alone: "pc m g \<noteq> Scan j" if "g \<noteq> h" for g j
    using h that harts_D(1,2) [OF D(3)] unfolding lock_free_iff by blast
  have cpu: "(cpu_proc k)(h := None) = (cpu_proc (ker m))(h := None)" using k(2) by auto
  have "harts_inv ((pc m)(h := Scan (Suc i))) False ((cpu_proc (ker m))(h := None)) (tab k)"
  proof (rule harts_change [OF D(3) alone])
    fix j assume j: "j < NPROC" "pc m h \<noteq> Run j" "Scan (Suc i) \<noteq> Run j"
    show "fst (tab k j) = RUNNING \<longleftrightarrow> fst (tab (ker m) j) = RUNNING"
    proof (cases "j = i")
      case True
      then have "fst (view i (ker m)) = RUNNABLE" using h j(2) by blast
      then show ?thesis using True k(3) by simp
    qed (use k(1) j in \<open>auto simp: fair_to_others_def\<close>)
  qed (use h k(3) in auto)
  then show ?thesis
    using k D(4) lk cpu unfolding sched_inv_def back_to_scan_def fair_to_others_def quiet_def by (auto simp: give_up_tab(2-4))
qed

lemma keep_into:
  assumes inv: "sched_inv m" and h: "pc m h = Scan i" "i < NPROC" "fst (view i (ker m)) \<noteq> RUNNING" "res m i \<noteq> Dead"
    and k: "fair_to_others i (ker m) k" "cpu_proc k = (cpu_proc (ker m))(h := Some i)" "fst (view i k) = RUNNING"
  shows "sched_inv (into_proc h i k m)"
proof -
  note D = sched_inv_D [OF inv]
  have alone: "pc m g \<noteq> Scan j" if "g \<noteq> h" for g j using h(1) that harts_D(2) [OF D(3)] by blast
  have "harts_inv ((pc m)(h := Run i)) True ((cpu_proc (ker m))(h := Some i)) (tab k)"
  proof (rule harts_change [OF D(3) alone])
    fix j assume j: "j < NPROC" "pc m h \<noteq> Run j" "Run i \<noteq> Run j"
    show "fst (tab k j) = RUNNING \<longleftrightarrow> fst (tab (ker m) j) = RUNNING" using k(1) j by (auto simp: fair_to_others_def)
  qed (use h k(3) in auto)
  then show ?thesis
    using k h(4) D(4) unfolding sched_inv_def into_proc_def fair_to_others_def quiet_def by auto
qed

text \<open>Nothing moves and the table keeps who runs.\<close>

lemma keep_still:
  assumes inv: "sched_inv m" and k: "wf_ker k" "table_inv (tab k)" "cpu_proc k = cpu_proc (ker m)"
    and v: "\<And>j. j < NPROC \<Longrightarrow> fst (view j k) = RUNNING \<longleftrightarrow> fst (view j (ker m)) = RUNNING"
    and r: "\<And>j. j < NPROC \<Longrightarrow> r j = Dead \<Longrightarrow> quiet (fst (view j k))"
  shows "sched_inv (m\<lparr>ker := k, res := r\<rparr>)"
  using inv k r harts_cong [of "tab k" "tab (ker m)", OF v] unfolding sched_inv_def quiet_def by simp

lemma keep_scan:
  assumes inv: "sched_inv m" and h: "pc m h = Top \<and> lock_free m \<or> (\<exists>i. pc m h = Scan i)" and p: "p = Top \<and> locked l = 0 \<or> (\<exists>i. p = Scan i) \<and> locked l \<noteq> 0"
  shows "sched_inv (m\<lparr>pt_lock := l, pc := (pc m)(h := p)\<rparr>)"
proof -
  note D = sched_inv_D [OF inv]
  have alone: "pc m g \<noteq> Scan j" if "g \<noteq> h" for g j
    using h that harts_D(1,2) [OF D(3)] unfolding lock_free_iff by blast
  have "pc m h \<noteq> Run i" for i using h by auto
  then have none: "cpu_proc (ker m) h = None" using harts_D(3) [OF D(3)] by (cases "cpu_proc (ker m) h") auto
  have "harts_inv ((pc m)(h := p)) (locked l = 0) ((cpu_proc (ker m))(h := None)) (tab (ker m))"
    by (rule harts_change [OF D(3) alone]) (use h p in \<open>auto split: hart_pc.splits\<close>)
  moreover have "(cpu_proc (ker m))(h := None) = cpu_proc (ker m)" using none by auto
  ultimately show ?thesis using inv unfolding sched_inv_def by simp
qed

lemma fair_trans: "fair_to_others i k k1 \<Longrightarrow> fair_to_others i k1 k2 \<Longrightarrow> fair_to_others i k k2"
  unfolding fair_to_others_def by simp

lemma fair_D: "fair_to_others i k k' \<Longrightarrow> wf_ker k'" "fair_to_others i k k' \<Longrightarrow> table_inv (tab k')"
  by (simp_all add: fair_to_others_def)

lemma fair_change:
  assumes k: "table_inv (tab k)" "i < NPROC" and k': "wf_ker k'" "tab k' = (tab k)(i := (st, ch, snd (snd (view i k))))"
    and st: "st \<noteq> ZOMBIE" "st \<noteq> UNUSED" "\<And>j. st = SLEEPING \<Longrightarrow> ch = Proc_chan j \<Longrightarrow> j = i \<and> waits (tab k) i"
  shows "fair_to_others i k k'" "view i k' = (st, ch, snd (snd (view i k)))"
proof -
  have v: "view j k' = (if j = i then (st, ch, snd (snd (view i k))) else view j k)" for j
    using fun_cong [OF k'(2), of j] by auto
  then show "view i k' = (st, ch, snd (snd (view i k)))" by simp
  show "fair_to_others i k k'"
    using table_change [OF k st] k' v by (auto simp: fair_to_others_def)
qed

lemma fair_pick:
  assumes "wf_ker k" "table_inv (tab k)" "i < NPROC"
  shows "fair_to_others i k (pick h i k)" "view i (pick h i k) = (RUNNING, snd (view i k))"
  using fair_change [OF assms(2,3) pick_tab(3) [OF assms(1,3)], of h RUNNING "fst (snd (view i k))"] pick_tab(1) [OF assms(1,3)] by simp_all

lemma fair_woken:
  assumes "wf_ker k" "table_inv (tab k)" "i < NPROC" "fst (view i k) = RUNNING"
  shows "fair_to_others i k (woken i k)" "view i (woken i k) = (RUNNING, No_chan, snd (snd (view i k)))"
  using fair_change [OF assms(2,3) woken_tab(3) [OF assms(1,3)], of RUNNING No_chan] woken_tab(1) [OF assms(1,3)] assms(4) by simp_all

lemma fair_sleep:
  assumes "wf_ker k" "table_inv (tab k)" "i < NPROC" "\<And>j. c = Proc_chan j \<Longrightarrow> j = i \<and> waits (tab k) i"
  shows "fair_to_others i k (sleep_on i c k)" "fst (view i (sleep_on i c k)) = SLEEPING"
  using fair_change [OF assms(2,3) sleep_tab(3) [OF assms(1,3)] sleep_tab(1) [OF assms(1,3)] _ _ assms(4)] by simp_all

lemma fair_yield:
  assumes "wf_ker k" "table_inv (tab k)" "i < NPROC" "fst (view i k) = RUNNING"
  shows "fair_to_others i k (yield_proc i k)" "fst (view i (yield_proc i k)) = RUNNABLE"
  using fair_change [OF assms(2,3) yield_tab(3) [OF assms(1,3,4)], of RUNNABLE "fst (snd (view i k))"] yield_tab(1) [OF assms(1,3,4)] by simp_all

lemma fair_exit:
  assumes k: "wf_ker k" "table_inv (tab k)" "i < NPROC"
  shows "fair_to_others i k (proc_exit i k)" "fst (view i (proc_exit i k)) = ZOMBIE"
proof -
  define w where "w = (\<lambda>j. case snd (snd (view i k)) of Some p \<Rightarrow> if j < NPROC then wake (Proc_chan p) (view j k) else view j k | None \<Rightarrow> view j k)"
  have t: "tab (proc_exit i k) = w(i := (ZOMBIE, snd (w i)))" "wf_ker (proc_exit i k)" using exit_tab(1,3) [OF k(1,3)] by (simp_all only: w_def)
  have v: "view j (proc_exit i k) = (if j = i then (ZOMBIE, snd (w i)) else w j)" for j using fun_cong [OF t(1), of j] by auto
  then show "fst (view i (proc_exit i k)) = ZOMBIE" by simp
  have w: "(fst (w j) = RUNNING \<longleftrightarrow> fst (view j k) = RUNNING) \<and> (quiet (fst (w j)) \<longleftrightarrow> quiet (fst (view j k)))" for j
    by (simp add: w_def quiet_def split: option.splits)
  show "fair_to_others i k (proc_exit i k)"
    using table_exit [OF k(2,3) w_def] t v w by (simp add: fair_to_others_def)
qed

text \<open>A round of \<^verbatim>\<open>proc_wait\<close> by a running process: it reaps one child, or nothing changes.\<close>

lemma fair_wait:
  assumes k: "wf_ker k" "table_inv (tab k)" "fst (view i k) = RUNNING" and w: "wait_scan i k = Some (r, k')"
  shows "fair_to_others i k k'" "view i k' = view i k" "cpu_proc k' = cpu_proc k" "r = Must_sleep \<Longrightarrow> waits (tab k') i"
proof -
  consider (reap) c where "fst (view c k) = ZOMBIE" "snd (snd (view c k)) = Some i" "r \<noteq> Must_sleep"
      "tab k' = (tab k)(c := (UNUSED, chan (proc_at c k), None))" "cpu_proc k' = cpu_proc k" "wf_ker k'"
    | (same) "k' = k" "r = Must_sleep \<Longrightarrow> waits (tab k) i"
    using w wf_ker_length [OF k(1)]
  proof (cases rule: wait_scan_view)
    case (reaped c n)
    then show ?thesis by (intro that(1) [of c]) (auto simp: fun_eq_iff wf_ker_def)
  next
    case none
    then show ?thesis using that(2) by simp
  next
    case asleep
    then show ?thesis by (intro that(2)) (auto simp: waits_def view_def)
  qed
  then have "fair_to_others i k k' \<and> view i k' = view i k \<and> cpu_proc k' = cpu_proc k \<and> (r = Must_sleep \<longrightarrow> waits (tab k') i)"
  proof cases
    case reap
    have "view j k' = (if j = c then (UNUSED, chan (proc_at c k), None) else view j k)" for j using fun_cong [OF reap(4), of j] by auto
    moreover have "c \<noteq> i" using reap(1) k(3) by auto
    ultimately show ?thesis using reap table_reap [OF k(2,3) reap(2)] by (auto simp: fair_to_others_def quiet_def)
  next
    case same
    then show ?thesis using k by (auto simp: fair_to_others_def)
  qed
  then show "fair_to_others i k k'" "view i k' = view i k" "cpu_proc k' = cpu_proc k" "r = Must_sleep \<Longrightarrow> waits (tab k') i" by auto
qed

lemma not_dead: "sched_inv m \<Longrightarrow> i < NPROC \<Longrightarrow> fst (view i (ker m)) = RUNNABLE \<Longrightarrow> res m i \<noteq> Dead"
  using sched_inv_D(4) [of m i] by (auto simp: quiet_def)

lemma state_view: "state (proc_at i k) = fst (view i k)"
  by (simp add: view_def)

text \<open>Process \<open>i\<close> has been picked and is back in \<^verbatim>\<open>sleep\<close>.\<close>

lemma resumed:
  fixes h :: nat
  assumes "sched_inv m" "i < NPROC"
  defines "k \<equiv> woken i (pick h i (ker m))"
  shows "fair_to_others i (ker m) k" "fst (view i k) = RUNNING" "cpu_proc k = (cpu_proc (ker m))(h := Some i)"
    "wf_ker k" "table_inv (tab k)"
proof -
  note D = sched_inv_D(1,2) [OF assms(1)]
  note p = fair_pick [OF D assms(2), of h]
  note w = fair_woken [OF fair_D [OF p(1)] assms(2)]
  show *: "fair_to_others i (ker m) k" "fst (view i k) = RUNNING" using fair_trans [OF p(1) w(1)] w(2) p(2) unfolding k_def by simp_all
  show "cpu_proc k = (cpu_proc (ker m))(h := Some i)"
    unfolding k_def using pick_tab(2) [OF D(1) assms(2), of h] woken_tab(2) [OF fair_D(1) [OF p(1)] assms(2)] by simp
  show "wf_ker k" "table_inv (tab k)" using fair_D [OF *(1)] by simp_all
qed

lemma running_now:
  assumes "sched_inv m" "pc m h = Run i"
  shows "wf_ker (ker m)" "table_inv (tab (ker m))" "i < NPROC" "fst (view i (ker m)) = RUNNING"
  using sched_inv_D [OF assms(1)] assms(2) by blast+

lemma taken: "locked (pt_lock (locked_sys m)) \<noteq> 0" "ker (locked_sys m) = ker m" "pc (locked_sys m) = pc m" "res (locked_sys m) = res m"
  by (simp_all add: test_and_set_def)

lemma scan_locked: "sched_inv m \<Longrightarrow> pc m h = Scan i \<Longrightarrow> locked (pt_lock m) \<noteq> 0"
  using harts_D(1) [OF sched_inv_D(3)] by blast

lemma keep_fork:
  assumes inv: "sched_inv m" and f: "proc_fork lk h f (ker m) = Some (r, k)"
  shows "sched_inv (m\<lparr>ker := k, res := (case free_slot (ker m) of Some c \<Rightarrow> (res m)(c := Fresh) | None \<Rightarrow> res m)\<rparr>)"
  using f wf_ker_length [OF sched_inv_D(1) [OF inv]]
proof (cases rule: fork_view)
  case full
  then show ?thesis using inv by simp
next
  case (child c p)
  note D = sched_inv_D [OF inv]
  have c: "c < NPROC" "fst (view c (ker m)) = UNUSED" using free_slot_Some [OF child(1)] by (simp_all add: view_def)
  have v: "tab k = (tab (ker m))(c := (RUNNABLE, chan (proc_at c (ker m)), Some p))" using child(7,8) by (auto simp: view_def fun_eq_iff)
  then have w: "view j k = (if j = c then (RUNNABLE, chan (proc_at c (ker m)), Some p) else view j (ker m))" for j by (metis fun_upd_apply)
  have "sched_inv (m\<lparr>ker := k, res := (res m)(c := Fresh)\<rparr>)"
    using table_fork [OF D(2) c, of "chan (proc_at c (ker m))" p] child(5,6) v w c D(4) by (intro keep_still [OF inv]) (auto simp: wf_ker_def split: if_splits)
  then show ?thesis using child(1) by simp
qed

lemma sched_step_inv:
  assumes "sched_step lk m m'" "sched_inv m"
  shows "sched_inv m'"
  using assms
proof (induction rule: sched_step.induct)
  case (enter m h)
  then show ?case using keep_scan [of m h "Scan 0" "take_lock m"] by (simp add: test_and_set_def)
next
  case (skip m h i)
  then show ?case using keep_scan [of m h "Scan (Suc i)" "pt_lock m"] scan_locked by simp
next
  case (leave m h i)
  then show ?case using keep_scan [of m h Top "drop_lock m"] by simp
next
  case (run m h i)
  note p = fair_pick [OF sched_inv_D(1,2) [OF run.prems] run.hyps(2), of h]
  show ?case using run p pick_tab(2) [OF sched_inv_D(1) run.hyps(2)] by (intro keep_into) (auto simp: state_view)
next
  case (resume_wait m h i r k)
  note q = resumed [OF resume_wait.prems resume_wait.hyps(2), of h]
  note w = fair_wait [OF q(4,5,2) resume_wait.hyps(5)]
  show ?case using resume_wait fair_trans [OF q(1) w(1)] q(2,3) w(2,3) by (intro keep_into) (auto simp: state_view)
next
  case (wait_again m h i k)
  note q = resumed [OF wait_again.prems wait_again.hyps(2), of h]
  note w = fair_wait [OF q(4,5,2) wait_again.hyps(5)]
  note s = fair_sleep [OF fair_D [OF w(1)] wait_again.hyps(2), of "Proc_chan i"]
  show ?case
  proof (rule keep_back [OF wait_again.prems])
    show "fair_to_others i (ker m) (sleep_on i (Proc_chan i) k)" using fair_trans [OF q(1) fair_trans [OF w(1) s(1)]] w(4) by simp
    show "cpu_proc (sleep_on i (Proc_chan i) k) = cpu_proc (ker m) \<or> cpu_proc (sleep_on i (Proc_chan i) k) = (cpu_proc (ker m))(h := Some i)"
      using sleep_tab(2) [OF fair_D(1) [OF w(1)] wait_again.hyps(2)] q(3) w(3) by simp
  qed (use wait_again s(2) w(4) scan_locked in \<open>auto simp: state_view\<close>)
next
  case (resume_read m h i)
  note q = resumed [OF resume_read.prems resume_read.hyps(2), of h]
  show ?case using resume_read q by (intro keep_into) (auto simp: state_view)
next
  case (read_again m h i)
  note q = resumed [OF read_again.prems read_again.hyps(2), of h]
  note s = fair_sleep [OF q(4,5) read_again.hyps(2), of In_chan]
  show ?case
    using read_again s fair_trans [OF q(1) s(1)] q(3) sleep_tab(2) [OF q(4) read_again.hyps(2)] scan_locked [OF read_again.prems read_again.hyps(1)]
    by (intro keep_back) (auto simp: state_view)
next
  case (yield m h i)
  note n = running_now [OF yield.prems yield.hyps(1)]
  note y = fair_yield [OF n] yield_tab(2) [OF n(1,3,4)]
  show ?case by (rule keep_back [OF yield.prems _ _ _ _ _ taken]) (use yield y in simp_all)
next
  case (read_sleep m h i)
  note n = running_now [OF read_sleep.prems read_sleep.hyps(1)]
  note y = fair_sleep [OF n(1-3), of In_chan] sleep_tab(2) [OF n(1,3), of In_chan]
  show ?case by (rule keep_back [OF read_sleep.prems _ _ _ _ _ taken]) (use read_sleep y in simp_all)
next
  case (exit m h i)
  note n = running_now [OF exit.prems exit.hyps(1)]
  note y = fair_exit [OF n(1-3)] exit_tab(2) [OF n(1,3)]
  show ?case by (rule keep_back [OF exit.prems _ _ _ _ _ taken]) (use exit y in \<open>simp_all add: quiet_def\<close>)
next
  case (wait_done m h i r k)
  note n = running_now [OF wait_done.prems wait_done.hyps(1)]
  note w = fair_wait [OF n(1,2,4) wait_done.hyps(3)]
  have v: "(fst (view j k) = RUNNING \<longleftrightarrow> fst (view j (ker m)) = RUNNING) \<and> (quiet (fst (view j (ker m))) \<longrightarrow> quiet (fst (view j k)))" if "j < NPROC" for j
    using w(1,2) that by (cases "j = i") (auto simp: fair_to_others_def)
  show ?case using keep_still [OF wait_done.prems fair_D [OF w(1)] w(3), of "res m"] v sched_inv_D(4) [OF wait_done.prems] by simp
next
  case (wait_sleep m h i k)
  note n = running_now [OF wait_sleep.prems wait_sleep.hyps(1)]
  note w = fair_wait [OF n(1,2,4) wait_sleep.hyps(3)]
  note s = fair_sleep [OF fair_D [OF w(1)] n(3), of "Proc_chan i"] sleep_tab(2) [OF fair_D(1) [OF w(1)] n(3), of "Proc_chan i"]
  show ?case by (rule keep_back [OF wait_sleep.prems _ _ _ _ _ taken]) (use wait_sleep fair_trans [OF w(1) s(1)] s w(3,4) in auto)
next
  case (fork m h i f r k)
  then show ?case using keep_fork by blast
next
  case (line_typed m)
  note D = sched_inv_D [OF line_typed.prems]
  note w = wakeup_tab [OF D(1), of In_chan]
  have v: "view j (wakeup In_chan (ker m)) = (if j < NPROC then wake In_chan (view j (ker m)) else view j (ker m))" for j by (rule fun_cong [OF w(1)])
  show ?case using keep_still [OF line_typed.prems w(3) _ w(2), of "res m"] table_wake [OF D(2), of In_chan, folded w(1)] v D(4) by (simp add: quiet_def)
next
  case (own m h i k)
  then show ?case
    using keep_still [OF own.prems, of k "res m"] sched_inv_D [OF own.prems] by (auto simp: same_view_def wf_ker_def)
qed

section \<open>Reachable states\<close>

text \<open>
  The table when the harts join the scheduler: nobody runs, sleeps or has exited and a free slot has
  no parent. \<^verbatim>\<open>kmain\<close> gets there from the zeroed static array by \<^verbatim>\<open>procinit\<close> and
  \<^verbatim>\<open>make_user_proc("sh")\<close>.
\<close>

definition idle_table :: "kproc \<Rightarrow> bool" where
  "idle_table k \<longleftrightarrow> length (proctable k) = NPROC \<and> (\<forall>p \<in> set (proctable k). state p = RUNNABLE \<or> state p = UNUSED \<and> parent p = None) \<and>
     (\<forall>h. cpu_proc k h = None)"

lemma procinit_idle:
  assumes "length (proctable s) = NPROC" "\<forall>p \<in> set (proctable s). parent p = None" "\<forall>h. cpu_proc s h = None"
  shows "idle_table (procinit s)"
  using assms by (auto simp: idle_table_def procinit_def)

lemma make_user_proc_table:
  assumes "make_user_proc lk nm s = Some (r, s')"
  shows "cpu_proc s' = cpu_proc s \<and> (proctable s' = proctable s \<or>
    (\<exists>i p. free_slot s = Some i \<and> proctable s' = (proctable s)[i := p] \<and> state p = RUNNABLE \<and> parent p = parent (proc_at i s)))"
proof (cases "free_slot s")
  case None
  then show ?thesis using assms by (simp add: make_user_proc_def)
next
  case (Some i)
  obtain code s1 where a: "kalloc s = (code, s1)" by (cases "kalloc s")
  obtain q entry m msg where l: "load_elf (initcode lk) code (set_loop (mem s1) code 0 4096) = (q, entry, m, msg)"
    by (cases "load_elf (initcode lk) code (set_loop (mem s1) code 0 4096)")
  let ?s2 = "vputs msg (s1\<lparr>mem := m\<rparr>)"
  have k2: "kvm.more ?s2 = kvm.more s" using kalloc_keeps [OF a] by (simp add: keeps)
  show ?thesis
  proof (cases "q = 0")
    case False
    then show ?thesis using assms Some a l kproc_more [OF k2] by (simp add: make_user_proc_def)
  next
    case True
    let ?s3 = "if entry \<noteq> Some USERVA then vputs ''[warn] elf entry != USERVA\<newline>'' ?s2 else ?s2"
    obtain us s4 where u: "kalloc ?s3 = (us, s4)" by (cases "kalloc ?s3")
    obtain pt s5 where pg: "proc_pagetable (etext lk) code us s4 = Some (pt, s5)"
      using assms Some a l True u by (auto simp: make_user_proc_def bind_eq_Some_conv cong: if_cong)
    obtain ks s6 where ka: "kalloc s5 = (ks, s6)" by (cases "kalloc s5")
    have "kvm.more ?s3 = kvm.more s" using k2 by (simp add: keeps)
    then have "kvm.more s4 = kvm.more s" using kalloc_keeps [OF u] by simp
    then have k5: "kvm.more s5 = kvm.more s" using proc_pagetable_keeps [OF pg] by simp
    then have k6: "kvm.more s6 = kvm.more s" using kalloc_keeps [OF ka] by simp
    show ?thesis
      using assms Some a l True u pg ka proc_at_more [OF k5, of i] kproc_more [OF k6]
      by (auto simp: make_user_proc_def Let_def set_proc_def intro!: exI cong: if_cong)
  qed
qed

lemma boot_idle:
  assumes "idle_table s" "make_user_proc lk nm s = Some (r, s')"
  shows "idle_table s'"
proof -
  consider "proctable s' = proctable s" "cpu_proc s' = cpu_proc s"
    | i p where "free_slot s = Some i" "proctable s' = (proctable s)[i := p]" "state p = RUNNABLE" "parent p = parent (proc_at i s)" "cpu_proc s' = cpu_proc s"
    using make_user_proc_table [OF assms(2)] by blast
  then show ?thesis
  proof cases
    case 1
    then show ?thesis using assms(1) by (simp add: idle_table_def)
  next
    case 2
    have "set (proctable s') \<subseteq> insert p (set (proctable s))" unfolding 2(2) by (rule set_update_subset_insert)
    then show ?thesis using assms(1) 2(2,3,5) by (auto simp: idle_table_def)
  qed
qed

inductive reached :: "ksyms \<Rightarrow> sys \<Rightarrow> bool" for lk where
  boot: "idle_table k \<Longrightarrow> locked l = 0 \<Longrightarrow> reached lk \<lparr>ker = k, pt_lock = l, pc = (\<lambda>_. Top), res = (\<lambda>_. Fresh)\<rparr>"
| step: "reached lk m \<Longrightarrow> sched_step lk m m' \<Longrightarrow> reached lk m'"

lemma reached_inv: "reached lk m \<Longrightarrow> sched_inv m"
proof (induction rule: reached.induct)
  case (boot k l)
  have v: "fst (view i k) = RUNNABLE \<or> fst (view i k) = UNUSED \<and> snd (snd (view i k)) = None" if "i < NPROC" for i
    using boot that nth_mem [of i "proctable k"] by (auto simp: idle_table_def view_def proc_at_def)
  have "table_inv (tab k)" by (rule table_invI) (use v in fastforce)+
  moreover have "harts_inv (\<lambda>_. Top) True (cpu_proc k) (tab k)" using boot(1) v unfolding harts_inv_def idle_table_def by fastforce
  ultimately show ?case using boot by (simp add: sched_inv_def wf_ker_def idle_table_def)
next
  case (step m m')
  then show ?case using sched_step_inv by blast
qed

section \<open>A small system\<close>

text \<open>Two processes, the second a child of the first, and six free slots.\<close>

definition lab_proc :: "proc_state \<Rightarrow> nat option \<Rightarrow> proc" where
  "lab_proc st p = \<lparr>state = st, ctx = zero_context, kstack = 0, fn = 0, counter = 0, pname = replicate 8 0, pagetable = 0,
     is_user = True, pid = 1, ucode = 0, ustack = 0, chan = No_chan, parent = p, tf_va = 0, heap_top = HEAPBASE,
     mmap_base = 0, mmap_start = 0, mmap_size = 0\<rparr>"

definition lab_ker :: kproc where
  "lab_ker = kvm.extend lab \<lparr>proctable = lab_proc RUNNABLE None # lab_proc RUNNABLE (Some 0) # replicate 6 (lab_proc UNUSED None),
     cpu_proc = (\<lambda>_. None), next_pid = 3\<rparr>"

definition lab_sys :: sys where
  "lab_sys = \<lparr>ker = lab_ker, pt_lock = \<lparr>locked = 0\<rparr>, pc = (\<lambda>_. Top), res = (\<lambda>_. Fresh)\<rparr>"

text \<open>Hart 1 takes the lock, picks process 0, which then waits for its child.\<close>

definition lab_scan :: sys where
  "lab_scan = (locked_sys lab_sys)\<lparr>pc := (pc lab_sys)(1 := Scan 0)\<rparr>"

definition lab_run :: sys where
  "lab_run = into_proc 1 0 (pick 1 0 (ker lab_scan)) lab_scan"

definition lab_wait :: sys where
  "lab_wait = back_to_scan 1 0 In_wait (sleep_on 0 (Proc_chan 0) (ker lab_run)) (locked_sys lab_run)"

lemmas lab_defs = lab_sys_def lab_scan_def lab_run_def lab_wait_def lab_ker_def lab_proc_def into_proc_def back_to_scan_def
  test_and_set_def pick_def set_state_def set_proc_def proc_at_def switch_satp_def sleep_on_def give_up_def Let_def kvm.defs

lemma lab_reached: "reached lk lab_sys" "reached lk lab_scan" "reached lk lab_run" "reached lk lab_wait"
proof -
  show 0: "reached lk lab_sys"
    unfolding lab_sys_def by (rule reached.boot) (simp_all add: idle_table_def lab_ker_def lab_proc_def NPROC_def kvm.defs)
  have "sched_step lk lab_sys lab_scan"
    unfolding lab_scan_def by (rule sched_step.enter) (simp_all add: lab_sys_def test_and_set_def)
  then show 1: "reached lk lab_scan" by (rule reached.step [OF 0])
  have "sched_step lk lab_scan lab_run"
    unfolding lab_run_def by (rule sched_step.run) (simp_all add: lab_defs NPROC_def)
  then show 2: "reached lk lab_run" by (rule reached.step [OF 1])
  have "wait_scan 0 (ker lab_run) = Some (Must_sleep, ker lab_run)"
    by (simp add: wait_scan_def lab_defs NPROC_def upt_rec [of _ 8])
  then have "sched_step lk lab_run lab_wait"
    unfolding lab_wait_def by (intro sched_step.wait_sleep) (simp_all add: lab_defs)
  then show "reached lk lab_wait" by (rule reached.step [OF 2])
qed

section \<open>What holds in every reachable state\<close>

text \<open>
  Claim C6. However the harts interleave: a hart runs process \<open>i\<close> exactly when its \<^verbatim>\<open>cpu_proc\<close> entry points to it, no
  two harts run the same process, an entry is RUNNING exactly while some hart runs it, and
  \<^verbatim>\<open>pt_lock\<close> is held exactly while one single hart is inside its scan.
\<close>

theorem one_hart_per_process:
  assumes "reached lk m"
  shows "(\<forall>h i. pc m h = Run i \<longleftrightarrow> cpu_proc (ker m) h = Some i) \<and> (\<forall>h g i. pc m h = Run i \<and> pc m g = Run i \<longrightarrow> g = h) \<and>
    (\<forall>i < NPROC. state (proc_at i (ker m)) = RUNNING \<longleftrightarrow> (\<exists>h. pc m h = Run i)) \<and>
    (locked (pt_lock m) \<noteq> 0 \<longleftrightarrow> (\<exists>!h. \<exists>i. pc m h = Scan i))"
proof -
  note D = harts_D [OF sched_inv_D(3) [OF reached_inv [OF assms]]] harts_running [OF sched_inv_D(3) [OF reached_inv [OF assms]]]
  have "\<forall>h i. pc m h = Run i \<longleftrightarrow> cpu_proc (ker m) h = Some i" using D(3) by blast
  moreover have "\<forall>h g i. pc m h = Run i \<and> pc m g = Run i \<longrightarrow> g = h" using D(5) by blast
  moreover have "\<forall>i < NPROC. state (proc_at i (ker m)) = RUNNING \<longleftrightarrow> (\<exists>h. pc m h = Run i)" unfolding state_view using D(4,6) by blast
  moreover have "locked (pt_lock m) \<noteq> 0 \<longleftrightarrow> (\<exists>!h. \<exists>i. pc m h = Scan i)" using D(1,2) by blast
  ultimately show ?thesis by blast
qed

theorem one_hart_per_process_witness: "state (proc_at 0 (ker lab_run)) = RUNNING \<and> cpu_proc (ker lab_run) 1 = Some 0"
proof -
  have "pc lab_run 1 = Run 0" by (simp add: lab_run_def into_proc_def)
  then show ?thesis using one_hart_per_process [OF lab_reached(3)] by (simp add: NPROC_def) blast
qed

text \<open>
  Claim C7. No wakeup is lost: in every reachable state a process asleep in \<^verbatim>\<open>proc_wait\<close> sleeps on itself, has a
  child, and none of its children has exited. So the exit of a child has always woken its parent, at whatever
  moment it fell between the parent's scan of the table and its sleep.
\<close>

theorem no_lost_wakeup:
  assumes "reached lk m" "i < NPROC" "state (proc_at i (ker m)) = SLEEPING" "chan (proc_at i (ker m)) = Proc_chan j"
  shows "j = i \<and> (\<exists>c < NPROC. parent (proc_at c (ker m)) = Some i) \<and>
    (\<forall>c < NPROC. parent (proc_at c (ker m)) = Some i \<longrightarrow> state (proc_at c (ker m)) \<noteq> ZOMBIE)"
  using table_invD(1) [OF sched_inv_D(2) [OF reached_inv [OF assms(1)]] assms(2), of j] assms(3,4)
  by (auto simp: waits_def view_def)

theorem no_lost_wakeup_witness:
  "state (proc_at 0 (ker lab_wait)) = SLEEPING \<and> parent (proc_at 1 (ker lab_wait)) = Some 0 \<and> state (proc_at 1 (ker lab_wait)) \<noteq> ZOMBIE"
proof -
  have s: "state (proc_at 0 (ker lab_wait)) = SLEEPING" "chan (proc_at 0 (ker lab_wait)) = Proc_chan 0" by (simp_all add: lab_defs)
  moreover have p: "parent (proc_at 1 (ker lab_wait)) = Some 0" by (simp add: lab_defs)
  ultimately show ?thesis using no_lost_wakeup [OF lab_reached(4) _ s] by (simp add: NPROC_def)
qed

text \<open>
  Claim C8. An exited process never runs again: a process whose saved context is the end of \<^verbatim>\<open>proc_exit\<close> is a
  zombie or its slot has been freed, so the scheduler never switches to it.
\<close>

theorem exited_never_runs:
  assumes "reached lk m" "i < NPROC" "res m i = Dead"
  shows "state (proc_at i (ker m)) \<in> {ZOMBIE, UNUSED} \<and> (\<forall>h. pc m h \<noteq> Run i) \<and> (\<forall>h. cpu_proc (ker m) h \<noteq> Some i)"
proof -
  note I = reached_inv [OF assms(1)]
  have q: "quiet (fst (view i (ker m)))" by (rule sched_inv_D(4) [OF I assms(2,3)])
  have "pc m h \<noteq> Run i" for h using q sched_inv_D(5) [OF I, of h i] by (auto simp: quiet_def)
  moreover have "cpu_proc (ker m) h \<noteq> Some i" for h using calculation harts_D(3) [OF sched_inv_D(3) [OF I]] by blast
  ultimately show ?thesis using q by (auto simp: quiet_def view_def)
qed

definition lab_exit :: sys where
  "lab_exit = back_to_scan 1 0 Dead (proc_exit 0 (ker lab_run)) (locked_sys lab_run)"

theorem exited_never_runs_witness: "state (proc_at 0 (ker lab_exit)) \<in> {ZOMBIE, UNUSED} \<and> cpu_proc (ker lab_exit) 1 \<noteq> Some 0"
proof -
  have "sched_step lk lab_run lab_exit" for lk
    unfolding lab_exit_def by (rule sched_step.exit) (simp_all add: lab_defs)
  then have "reached lk lab_exit" for lk by (rule reached.step [OF lab_reached(3)])
  moreover have "res lab_exit 0 = Dead" by (simp add: lab_exit_def back_to_scan_def)
  ultimately show ?thesis using exited_never_runs [of _ lab_exit 0] by (simp add: NPROC_def)
qed

end
