(* ===== verification/PageFault.thy ===== *)
theory PageFault
  imports ProcFrame
begin

text \<open>
  Demand paging: what \<^verbatim>\<open>proc_pagefault\<close> does to the address space of the faulting process.
\<close>

section \<open>Filling a fresh page\<close>

text \<open>
  \<open>fresh s x m\<close>: the state in which \<^verbatim>\<open>kalloc\<close> has returned page \<open>x\<close> and memory has become \<open>m\<close>.
\<close>

definition fresh :: "'a kmem_scheme \<Rightarrow> u64 \<Rightarrow> memory \<Rightarrow> 'a kmem_scheme" where
  "fresh s x m = s\<lparr>freelist := ld64 (mem s) x, freecnt := freecnt s - 1, refcnt := (refcnt s)(refidx x := 1), mem := m\<rparr>"

lemma kalloc_fresh: "kmem_ok s (x # xs) \<Longrightarrow> kalloc s = (x, fresh s x (mem s))"
  using kalloc_Cons(1) [of s x xs] by (simp add: fresh_def)

lemma fresh_mem [simp]: "(fresh s x m)\<lparr>mem := m'\<rparr> = fresh s x m'" "mem (fresh s x m) = m" "kmem.more (fresh s x m) = kmem.more s"
  by (simp_all add: fresh_def)

lemma fresh_filled:
  assumes k: "kmem_ok s (x # xs)" and o: "owned 2 pt s" and m: "\<And>a. page_no a \<noteq> page_no x \<Longrightarrow> m a = mem s a"
  shows "kmem_ok (fresh s x m) xs" "owned 2 pt (fresh s x m)" "tabs m 2 pt = tabs (mem s) 2 pt" "leaf m 2 pt y = leaf (mem s) 2 pt y"
    "refs (fresh s x m) = (refs s)(x := 1)" "x \<notin> tabs (mem s) 2 pt" "ram_page x" "x \<notin> set xs"
proof -
  show x: "ram_page x" "x \<notin> set xs" using k by (auto simp: kmem_ok_def)
  show xt: "x \<notin> tabs (mem s) 2 pt" using owned_not_free [OF k o] by auto
  have wf: "wf_tab (mem s) 2 pt" using o by (simp add: owned_def)
  have off: "\<forall>a. page_no a \<notin> page_no ` {x} \<longrightarrow> m a = mem s a" using m by simp
  note t = other_table [OF wf off]
  have t': "tabs m 2 pt = tabs (mem s) 2 pt" "wf_tab m 2 pt" "leaf m 2 pt y = leaf (mem s) 2 pt y" using t xt x(1) by auto
  show "tabs m 2 pt = tabs (mem s) 2 pt" "leaf m 2 pt y = leaf (mem s) 2 pt y" using t' by auto
  note ka = kalloc_Cons(2,3) [OF k]
  show r: "refs (fresh s x m) = (refs s)(x := 1)" using ka(2) by (simp add: fresh_def refs_def fun_eq_iff)
  have "kmem_ok (s\<lparr>freelist := ld64 (mem s) x, freecnt := freecnt s - 1, refcnt := (refcnt s)(refidx x := 1)\<rparr>\<lparr>mem := m\<rparr>) xs"
    by (rule kmem_ok_mem [OF ka(1), where T = "{x}"]) (use off x in auto)
  then show "kmem_ok (fresh s x m) xs" by (simp add: fresh_def)
  show "owned 2 pt (fresh s x m)" using o t' r by (auto simp: owned_def)
qed

lemma fault_note_fields [simp]:
  "mem (fault_note t a s) = mem s" "kmem_ok (fault_note t a s) xs = kmem_ok s xs" "owned l pt (fault_note t a s) = owned l pt s" "refs (fault_note t a s) = refs s"
  by (simp_all add: fault_note_def kmem_ok_def owned_def refs_def fun_eq_iff)

text \<open>
  The outcome of mapping the fresh page \<open>x\<close>, filled as in \<open>m\<close>, at \<open>a\<close>: done, with at most two of the free pages \<open>xs\<close> taken
  for inner tables and nothing written but \<open>x\<close> and the tables; or nothing mapped for want of pages for tables.
\<close>

definition paged_in :: "u64 \<Rightarrow> u64 \<Rightarrow> u64 \<Rightarrow> u64 \<Rightarrow> string \<Rightarrow> memory \<Rightarrow> u64 list \<Rightarrow> 'a kvm_scheme \<Rightarrow> 'a kvm_scheme \<Rightarrow> bool" where
  "paged_in pt a x perm msg m xs s s' \<longleftrightarrow>
     (\<exists>ys zs. xs = ys @ zs \<and> length ys \<le> 2 \<and> kmem_ok s' zs \<and> owned 2 pt s' \<and> tabs (mem s') 2 pt = tabs (mem s) 2 pt \<union> set ys \<and>
        refs s' = (\<lambda>q. if q = x \<or> q \<in> set ys then 1 else refs s q) \<and>
        (\<forall>c. page_no c \<notin> page_no ` (insert x (tabs (mem s) 2 pt \<union> set ys)) \<longrightarrow> mem s' c = mem s c)) \<and>
     (\<forall>y. leaf (mem s') 2 pt y = (if vpn y = vpn a then PA2PTE x OR perm OR PTE_V else leaf (mem s) 2 pt y)) \<and>
     (\<forall>c. page_no c = page_no x \<longrightarrow> mem s' c = m c) \<and>
     vout s' = vout s @ puts_bytes (bytes_of msg) @ hex_bytes a @ [10] \<and> kvm.more s' = kvm.more s"

definition paged :: "u64 \<Rightarrow> u64 \<Rightarrow> u64 \<Rightarrow> u64 \<Rightarrow> string \<Rightarrow> memory \<Rightarrow> u64 list \<Rightarrow> 'a kvm_scheme \<Rightarrow> bool \<Rightarrow> 'a kvm_scheme \<Rightarrow> bool" where
  "paged pt a x perm msg m xs s b s' \<longleftrightarrow>
     (if b then paged_in pt a x perm msg m xs s s'
      else length xs \<le> 2 \<and> refs s' x = 0 \<and> (\<forall>y. leaf (mem s') 2 pt y = leaf (mem s) 2 pt y) \<and> owned 2 pt s' \<and> (\<exists>zs. kmem_ok s' zs))"

lemma install_fresh:
  fixes s :: "'a kproc_scheme"
  assumes k: "kmem_ok s (x # xs)" and o: "owned 2 pt s" and m: "\<And>c. page_no c \<noteq> page_no x \<Longrightarrow> m c = mem s c"
    and a: "take_bit 12 a = 0" "unat a + 4096 \<le> 2 ^ 39" "\<not> bit (leaf (mem s) 2 pt a) 0"
  obtains b s' where "install_page pt a x perm msg (fresh s x m) = Some (b, s')" "paged pt a x perm msg m xs s b s'"
proof -
  note F = fresh_filled [OF k o m]
  have na: "\<not> bit (leaf (mem (fresh s x m)) 2 pt a) 0" using F(4) a(3) by simp
  obtain r s1 ys zs where R: "mappages pt a 4096 x perm (fresh s x m) = Some (r, s1)" "xs = ys @ zs" "length ys \<le> 2"
      "tabled pt ys zs (fresh s x m) s1" "same_kvm (fresh s x m) s1" "r = 0 \<or> r = -1 \<and> zs = []"
      "\<And>y. leaf (mem s1) 2 pt y = (if r = 0 \<and> vpn y = vpn a then PA2PTE x OR perm OR PTE_V else leaf m 2 pt y)"
    using map_one [OF F(1,2) a(1,2) na, of x perm thesis] by (simp only: fresh_mem) blast
  have lf: "leaf (mem s1) 2 pt y = (if r = 0 \<and> vpn y = vpn a then PA2PTE x OR perm OR PTE_V else leaf (mem s) 2 pt y)" for y
    using R(7) [of y] F(4) [of y] by simp
  have own: "owned 2 pt s1" by (rule tabled_owned [OF F(2) R(4)])
  have T: "kmem_ok s1 zs" "tabs (mem s1) 2 pt = tabs (mem s) 2 pt \<union> set ys" "refs s1 = (\<lambda>q. if q = x \<or> q \<in> set ys then 1 else refs s q)"
    using R(2,4) F(3,5) by (auto simp: tabled_def fun_eq_iff)
  have xt: "x \<notin> tabs (mem s1) 2 pt" using T(2) F(6,8) R(2) by auto
  have off: "mem s1 c = m c" if "page_no c \<notin> page_no ` (tabs (mem s) 2 pt \<union> set ys)" for c
    using R(4) F(3) that by (simp add: tabled_def)
  have keep: "mem s1 c = m c" if "page_no c = page_no x" for c
  proof -
    have "\<forall>q \<in> tabs (mem s) 2 pt \<union> set ys. ram_page q" using T(2) own wf_tab_ram by (auto simp: owned_def)
    then have "page_no c \<notin> page_no ` (tabs (mem s) 2 pt \<union> set ys)" using that xt T(2) F(7) page_no_inject by auto
    then show ?thesis by (rule off)
  qed
  show ?thesis
  proof (cases "r = 0")
    case True
    have "install_page pt a x perm msg (fresh s x m) = Some (True, fault_note msg a s1)"
      using R(1) True by (simp add: install_page_def uvm_map_def)
    moreover have "paged_in pt a x perm msg m xs s (fault_note msg a s1)"
      unfolding paged_in_def fault_note_fields
    proof (intro conjI allI impI)
      have "mem s1 c = mem s c" if "page_no c \<notin> page_no ` (insert x (tabs (mem s) 2 pt \<union> set ys))" for c
        using that off m by simp
      then show "\<exists>ys zs. xs = ys @ zs \<and> length ys \<le> 2 \<and> kmem_ok s1 zs \<and> owned 2 pt s1 \<and> tabs (mem s1) 2 pt = tabs (mem s) 2 pt \<union> set ys \<and>
          refs s1 = (\<lambda>q. if q = x \<or> q \<in> set ys then 1 else refs s q) \<and>
          (\<forall>c. page_no c \<notin> page_no ` (insert x (tabs (mem s) 2 pt \<union> set ys)) \<longrightarrow> mem s1 c = mem s c)"
        using R(2,3) T own by - (rule exI [of _ ys], rule exI [of _ zs], blast)
      show "vout (fault_note msg a s1) = vout s @ puts_bytes (bytes_of msg) @ hex_bytes a @ [10]" "kvm.more (fault_note msg a s1) = kvm.more s"
        using R(5) by (simp_all add: same_kvm_def fault_note_def fresh_def)
    qed (use keep True in \<open>auto simp: lf\<close>)
    ultimately show ?thesis using that by (simp add: paged_def)
  next
    case False
    have pos: "0 < refs s1 x" using T(3) by simp
    obtain ws where W: "kmem_ok (kfree x s1) (ws @ zs)" "refs (kfree x s1) = (refs s1)(x := refs s1 x - 1)" "owned 2 pt (kfree x s1)"
        "\<forall>y. leaf (mem (kfree x s1)) 2 pt y = leaf (mem s1) 2 pt y"
      by (rule kfree_held [OF T(1) own pos xt])
    have "install_page pt a x perm msg (fresh s x m) = Some (False, kfree x s1)"
      using R(1) False by (simp add: install_page_def uvm_map_def)
    moreover have "paged pt a x perm msg m xs s False (kfree x s1)"
      unfolding paged_def using W(1-3) R(2,3,6) T(3) False by (auto simp: lf W(4))
    ultimately show ?thesis by (rule that)
  qed
qed

section \<open>Demand paging\<close>

lemma page_align: "take_bit 12 (va AND NOT 0xfff :: u64) = 0" "vpn (va AND NOT 0xfff) = vpn va"
  using vpn_round_down [of va] by (simp_all add: PGROUNDDOWN_def bit_eq_iff bit_simps)

text \<open>No write fault is taken for copy-on-write on an address that is not mapped.\<close>

lemma cow_fault_unmapped:
  assumes "\<not> bit (leaf (mem s) 2 pt a) 0" "take_bit 12 a = 0"
  shows "uvm_cow_fault pt a s = (0, s)"
proof -
  have "leaf (mem s) 2 pt (PGROUNDDOWN a) = leaf (mem s) 2 pt a" by (rule leaf_vpn) simp
  then have "leaf_addr (mem s) 2 pt (PGROUNDDOWN a) = 0 \<or> \<not> bit (ld64 (mem s) (leaf_addr (mem s) 2 pt (PGROUNDDOWN a))) 0"
    using assms(1) by (auto simp: leaf_def split: if_splits)
  then have "leaf_addr (mem s) 2 pt (PGROUNDDOWN a) = 0 \<or> ld64 (mem s) (leaf_addr (mem s) 2 pt (PGROUNDDOWN a)) AND PTE_V = 0"
    by simp
  then show ?thesis by (auto simp: uvm_cow_fault_def walk_def walk_find)
qed

abbreviation heap_note :: string where
  "heap_note \<equiv> ''[pagefault] demand-allocated a heap page at va=''"

text \<open>
  A fault of a user process on a heap address that is not mapped yet, while the allocator has \<open>x\<close> first in its free
  list: \<^verbatim>\<open>proc_pagefault\<close> returns. With three more free pages it reports success, and then the page of the address is mapped
  to \<open>x\<close> with read, write and user permission, every byte of \<open>x\<close> is zero and the entry of every other address is as
  before. It fails only when no pages are left for inner tables, and then every entry is as before and \<open>x\<close> is free
  again.
\<close>

lemma heap_fault_handled:
  fixes s :: "'a kproc_scheme"
  assumes k: "kmem_ok s (x # xs)" and p: "current_proc hart s = Some i" "is_user (proc_at i s)" "pt = pagetable (proc_at i s)"
    and o: "owned 2 pt s" and a: "a = va AND NOT 0xfff" "HEAPBASE \<le> a" "a < heap_top (proc_at i s)" "unat a + 4096 \<le> 2 ^ 39"
    and n: "\<not> bit (leaf (mem s) 2 pt va) 0"
  obtains b s' where "proc_pagefault dev hart va store f s = Some (Inr (b, f, s'))" "2 < length xs \<longrightarrow> b" "same_view s s'"
    "paged pt a x (PTE_R OR PTE_W OR PTE_U) heap_note (set_loop (mem s) x 0 4096) xs s b s'"
    "\<forall>c. page_no c = page_no x \<longrightarrow> set_loop (mem s) x 0 4096 c = 0"
proof -
  let ?m = "set_loop (mem s) x 0 4096" and ?perm = "PTE_R OR PTE_W OR PTE_U"
  have x: "ram_page x" using k by (simp add: kmem_ok_def)
  note z = zero_page_eq [OF ram_page_aligned [OF x], of "mem s" 0]
  have na: "\<not> bit (leaf (mem s) 2 pt a) 0" using n leaf_vpn [of a va] page_align(2) [of va] a(1) by simp
  have al: "take_bit 12 a = 0" unfolding a(1) by (rule page_align(1))
  obtain b s' where I: "install_page pt a x ?perm heap_note (fresh s x ?m) = Some (b, s')"
      "paged pt a x ?perm heap_note ?m xs s b s'"
    by (rule install_fresh [OF k o _ al a(4) na, of ?m]) (simp add: z)
  have run: "proc_pagefault dev hart va store f s = Some (Inr (b, f, s'))"
    using p a(2,3) cow_fault_unmapped [OF na al] kalloc_fresh [OF k] ram_page_nonzero [OF x] I(1)
    unfolding proc_pagefault_def Let_def a(1) [symmetric] by simp
  show thesis
    by (rule that [OF run _ pagefault_same_view [OF run] I(2)]) (use I(2) in \<open>auto simp: paged_def z split: if_splits\<close>)
qed

text \<open>A process with an empty table and a heap of four pages on the small machine.\<close>

definition lab_user :: kproc where
  "lab_user = kvm.extend lab \<lparr>proctable = [\<lparr>state = RUNNING, ctx = zero_context, kstack = 0, fn = 0, counter = 0, pname = replicate 8 0,
       pagetable = 0x87ff0000, is_user = True, pid = 1, ucode = 0, ustack = 0, chan = No_chan, parent = None, tf_va = 0,
       heap_top = HEAPBASE + 0x4000, mmap_base = 0, mmap_start = 0, mmap_size = 0\<rparr>],
     cpu_proc = (\<lambda>h. Some 0), next_pid = 2\<rparr>"

lemma lab_user_fields: "mem lab_user = mem lab" "kmem_ok lab_user xs = kmem_ok lab xs" "refs lab_user = refs lab"
  by (simp_all add: lab_user_def kvm.defs kmem_ok_def refs_def fun_eq_iff)

end
