(* ===== verification/NetBytes.thy ===== *)
theory NetBytes
  imports Prelude
begin

text \<open>
  The byte helpers of \<^verbatim>\<open>src/src/net.c\<close>: packet buffers, network byte order and the Internet
  checksum. A C array on the stack is a function of the index, so that an index past the array
  reads what lies behind it, and a buffer that was never written holds arbitrary bytes.
\<close>

type_synonym buf = "nat \<Rightarrow> u8"

section \<open>Buffers\<close>

definition bzero :: "buf \<Rightarrow> nat \<Rightarrow> nat \<Rightarrow> buf" where
  "bzero f off n = (\<lambda>i. if off \<le> i \<and> i < off + n then 0 else f i)"

definition bcopy :: "buf \<Rightarrow> nat \<Rightarrow> buf \<Rightarrow> nat \<Rightarrow> nat \<Rightarrow> buf" where
  "bcopy f off src soff n = (\<lambda>i. if off \<le> i \<and> i < off + n then src (soff + (i - off)) else f i)"

definition arr :: "u8 list \<Rightarrow> buf" where
  "arr xs i = (if i < length xs then xs ! i else 0)"

definition bytes_at :: "buf \<Rightarrow> nat \<Rightarrow> nat \<Rightarrow> u8 list" where
  "bytes_at f off n = map (\<lambda>k. f (off + k)) [0..<n]"

definition eq4 :: "buf \<Rightarrow> nat \<Rightarrow> buf \<Rightarrow> nat \<Rightarrow> bool" where
  "eq4 a aoff b boff = list_all (\<lambda>i. a (aoff + i) = b (boff + i)) [0..<4]"

section \<open>Network byte order\<close>

definition put16 :: "buf \<Rightarrow> nat \<Rightarrow> u16 \<Rightarrow> buf" where
  "put16 f p v = f(p := ucast (drop_bit 8 v), p + 1 := ucast v)"

definition put32 :: "buf \<Rightarrow> nat \<Rightarrow> u32 \<Rightarrow> buf" where
  "put32 f p v = f(p := ucast (drop_bit 24 v), p + 1 := ucast (drop_bit 16 v),
     p + 2 := ucast (drop_bit 8 v), p + 3 := ucast v)"

definition get16 :: "buf \<Rightarrow> nat \<Rightarrow> u16" where
  "get16 f p = push_bit 8 (ucast (f p)) OR ucast (f (p + 1))"

definition get32 :: "buf \<Rightarrow> nat \<Rightarrow> u32" where
  "get32 f p = push_bit 24 (ucast (f p)) OR push_bit 16 (ucast (f (p + 1))) OR
     push_bit 8 (ucast (f (p + 2))) OR ucast (f (p + 3))"

lemma get16_put16 [simp]: "get16 (put16 f p v) p = v"
proof (rule bit_word_eqI)
  fix n assume "n < LENGTH(16)"
  then consider "n < 8" | "8 \<le> n" "n < 16" by force
  then show "bit (get16 (put16 f p v) p) n = bit v n" by cases (auto simp: get16_def put16_def bit_simps)
qed

lemma get32_put32 [simp]: "get32 (put32 f p v) p = v"
proof (rule bit_word_eqI)
  fix n assume "n < LENGTH(32)"
  then consider "n < 8" | "8 \<le> n" "n < 16" | "16 \<le> n" "n < 24" | "24 \<le> n" "n < 32" by force
  then show "bit (get32 (put32 f p v) p) n = bit v n" by cases (auto simp: get32_def put32_def bit_simps)
qed

lemma get16_cong: "f p = g q \<Longrightarrow> f (p + 1) = g (q + 1) \<Longrightarrow> get16 f p = get16 g q"
  by (simp add: get16_def)

lemma get32_cong: "(\<And>i. i < 4 \<Longrightarrow> f (p + i) = g (q + i)) \<Longrightarrow> get32 f p = get32 g q"
proof -
  assume a: "\<And>i. i < 4 \<Longrightarrow> f (p + i) = g (q + i)"
  from a [of 0] a [of 1] a [of 2] a [of 3] show ?thesis by (simp add: get32_def)
qed

section \<open>The Internet checksum\<close>

lemma carry_parts:
  fixes acc :: u32
  shows "unat (acc AND 0xffff) = unat acc mod 65536" "unat (drop_bit 16 acc) = unat acc div 65536"
    "unat ((acc AND 0xffff) + drop_bit 16 acc) = unat acc mod 65536 + unat acc div 65536"
proof -
  have "acc AND 0xffff = take_bit 16 acc" by (simp add: take_bit_eq_mask mask_eq_exp_minus_1)
  then show l: "unat (acc AND 0xffff) = unat acc mod 65536" by (simp add: take_bit_eq_mod unat_mod)
  show h: "unat (drop_bit 16 acc) = unat acc div 65536" by (simp add: drop_bit_eq_div unat_div)
  have "unat acc < 2 ^ 32" using unsigned_less [of acc] by simp
  then have "unat acc mod 65536 + unat acc div 65536 < 2 ^ 32" by (simp add: div_le_mono2)
  then show "unat ((acc AND 0xffff) + drop_bit 16 acc) = unat acc mod 65536 + unat acc div 65536"
    by (simp add: unat_word_ariths l h)
qed

function fold_carry :: "u32 \<Rightarrow> u32" where
  "fold_carry acc = (if drop_bit 16 acc \<noteq> 0 then fold_carry ((acc AND 0xffff) + drop_bit 16 acc) else acc)"
  by auto
termination
proof (relation "measure unat", goal_cases)
  case (2 acc)
  then have "unat acc div 65536 \<noteq> 0" using carry_parts(2) [of acc] by (metis unat_eq_zero)
  moreover have "unat acc = unat acc mod 65536 + 65536 * (unat acc div 65536)" by simp
  ultimately have "unat acc mod 65536 + unat acc div 65536 < unat acc" by linarith
  then show ?case by (simp only: in_measure carry_parts(3))
qed simp

declare fold_carry.simps [simp del]

text \<open>\<^verbatim>\<open>sum_words\<close> is the summing loop with its odd last byte, from a start value on.\<close>

definition sum_words :: "buf \<Rightarrow> nat \<Rightarrow> nat \<Rightarrow> u32 \<Rightarrow> u32" where
  "sum_words data off len acc =
     (let acc = fold (\<lambda>k s. s + ucast (get16 data (off + 2 * k))) [0..<len div 2] acc
      in if odd len then acc + push_bit 8 (ucast (data (off + len - 1))) else acc)"

definition cksum :: "buf \<Rightarrow> nat \<Rightarrow> nat \<Rightarrow> u16" where
  "cksum data off len = ucast (NOT (fold_carry (sum_words data off len 0)) AND 0xffff)"

subsection \<open>As arithmetic modulo 65535\<close>

text \<open>The representative between 1 and 65535, and 0 only for 0.\<close>

definition ones_sum :: "nat \<Rightarrow> nat" where
  "ones_sum n = (if n = 0 then 0 else (n - 1) mod 65535 + 1)"

lemma fold_carry_eq: "unat (fold_carry acc) = ones_sum (unat acc)"
proof (induction acc rule: fold_carry.induct)
  case (1 acc)
  show ?case
  proof (cases "drop_bit 16 acc = 0")
    case True
    then have "unat acc div 65536 = 0" using carry_parts(2) [of acc] by simp
    then have "unat acc < 65536" by (simp add: div_eq_0_iff)
    with True show ?thesis by (subst fold_carry.simps) (auto simp: ones_sum_def)
  next
    case False
    let ?h = "unat acc div 65536" and ?l = "unat acc mod 65536"
    have h: "?h \<noteq> 0" using False carry_parts(2) [of acc] by (metis unat_eq_zero)
    have e: "unat acc = ?l + ?h + 65535 * ?h" using mod_mult_div_eq [of "unat acc" 65536] by simp
    have "(unat acc - 1) mod 65535 = (?l + ?h - 1) mod 65535"
    proof -
      have "unat acc - 1 = (?l + ?h - 1) + 65535 * ?h" using e h by simp
      then show ?thesis by (metis mod_mult_self2)
    qed
    moreover have "unat acc \<noteq> 0" using h by auto
    ultimately have "ones_sum (unat acc) = ones_sum (?l + ?h)" using h by (simp add: ones_sum_def)
    with False 1 show ?thesis by (subst fold_carry.simps) (simp add: carry_parts(3))
  qed
qed

definition word_sum :: "buf \<Rightarrow> nat \<Rightarrow> nat \<Rightarrow> nat" where
  "word_sum data off len = (\<Sum>k < len div 2. unat (get16 data (off + 2 * k))) +
     (if odd len then 256 * unat (data (off + len - 1)) else 0)"

lemma u16_bound: "unat (x :: u16) \<le> 65535"
proof -
  have "unat x < 65536" using unsigned_less [of x] by simp
  then show ?thesis by simp
qed

lemma u8_bound: "unat (x :: u8) \<le> 255"
proof -
  have "unat x < 256" using unsigned_less [of x] by simp
  then show ?thesis by simp
qed

lemma unat_up [simp]: "unat (ucast (x :: u16) :: u32) = unat x" "unat (ucast (y :: u8) :: u32) = unat y"
  using u16_bound [of x] u8_bound [of y] by (simp_all add: unsigned_ucast_eq take_bit_nat_eq_self)

lemmas get16_bound = u16_bound [of "get16 f p" for f p]

lemma word_sum_bound: "word_sum f off len \<le> 65535 * (len div 2) + 65280"
proof -
  have "(\<Sum>k < len div 2. unat (get16 f (off + 2 * k))) \<le> (\<Sum>k < len div 2. 65535)"
    by (rule sum_mono) (rule get16_bound)
  then show ?thesis using u8_bound [of "f (off + len - 1)"] by (simp add: word_sum_def)
qed

lemma sum_words_eq:
  assumes "unat s0 + 65535 * (len div 2) + 65280 < 2 ^ 32"
  shows "unat (sum_words f off len s0) = unat s0 + word_sum f off len"
proof -
  have f: "unat (fold (\<lambda>k s. s + ucast (get16 f (off + 2 * k))) [0..<n] s0) = unat s0 + (\<Sum>k < n. unat (get16 f (off + 2 * k)))"
    if "unat s0 + 65535 * n < 2 ^ 32" for n
    using that
  proof (induction n)
    case (Suc n)
    have "(\<Sum>k < n. unat (get16 f (off + 2 * k))) \<le> (\<Sum>k < n. 65535)" by (rule sum_mono) (rule get16_bound)
    then have "(\<Sum>k < n. unat (get16 f (off + 2 * k))) \<le> 65535 * n" by simp
    then show ?case using Suc get16_bound [of f "off + 2 * n"] by (simp add: unat_word_ariths)
  qed simp
  have n: "unat s0 + 65535 * (len div 2) < 2 ^ 32" using assms by simp
  note b = u8_bound [of "f (off + len - 1)"]
  have p: "unat (push_bit 8 (ucast (f (off + len - 1))) :: u32) = 256 * unat (f (off + len - 1))"
    using b by (simp add: push_bit_eq_mult unat_word_ariths)
  have "(\<Sum>k < len div 2. unat (get16 f (off + 2 * k))) \<le> (\<Sum>k < len div 2. 65535)" by (rule sum_mono) (rule get16_bound)
  then have "(\<Sum>k < len div 2. unat (get16 f (off + 2 * k))) \<le> 65535 * (len div 2)" by simp
  with f [OF n] p b assms show ?thesis
    by (auto simp: sum_words_def Let_def word_sum_def unat_word_ariths)
qed

lemma ones_sum_range: "ones_sum n \<le> 65535"
proof -
  have "(n - 1) mod 65535 < 65535" by simp
  then have "(n - 1) mod 65535 + 1 \<le> 65535" by linarith
  then show ?thesis unfolding ones_sum_def by (cases "n = 0") (simp_all only: if_True if_False le0 refl)
qed

lemma ones_sum_closes: "ones_sum (n + (65535 - ones_sum n)) = 65535" "n \<noteq> 0 \<Longrightarrow> ones_sum n = 65535 \<Longrightarrow> ones_sum (n + 65535) = 65535"
proof -
  show "ones_sum (n + (65535 - ones_sum n)) = 65535"
  proof (cases "n = 0")
    case False
    let ?r = "(n - 1) mod 65535" and ?q = "(n - 1) div 65535"
    have "n = 65535 * ?q + ?r + 1" using False mod_mult_div_eq [of "n - 1" 65535] by simp
    moreover have "?r < 65535" by simp
    ultimately have "n + (65535 - (?r + 1)) - 1 = 65534 + 65535 * ?q" by linarith
    then have "(n + (65535 - (?r + 1)) - 1) mod 65535 = 65534" by simp
    then show ?thesis using False by (simp add: ones_sum_def)
  qed (simp add: ones_sum_def)
  assume n: "n \<noteq> 0" "ones_sum n = 65535"
  then have "n + 65535 - 1 = (n - 1) + 65535" by simp
  then have "(n + 65535 - 1) mod 65535 = (n - 1) mod 65535" by (simp only: mod_add_self2)
  with n show "ones_sum (n + 65535) = 65535" unfolding ones_sum_def by simp
qed

lemma not_low: "unat (ucast (NOT (w :: u32) AND 0xffff) :: u16) = 65535 - unat w mod 65536"
proof -
  have m: "NOT w AND 0xffff = take_bit 16 (NOT w)" by (simp add: take_bit_eq_mask mask_eq_exp_minus_1)
  have "ucast (take_bit 16 (NOT w)) = NOT (ucast w :: u16)" by (rule bit_word_eqI) (auto simp: bit_simps)
  moreover have "unat (NOT x) = 65535 - unat x" for x :: u16
  proof -
    have "NOT x = -1 - x" by (simp add: not_eq_complement)
    moreover have "unat (-1 :: u16) = 65535" by (simp add: unsigned_minus_1_eq_mask mask_eq_exp_minus_1)
    ultimately show ?thesis using u16_bound [of x] by (simp add: unat_sub_if')
  qed
  ultimately show ?thesis by (simp add: m unsigned_ucast_eq take_bit_eq_mod)
qed

lemma cksum_eq: "65535 * (len div 2) + 65280 < 2 ^ 32 \<Longrightarrow> unat (cksum f off len) = 65535 - ones_sum (word_sum f off len)"
proof -
  assume a: "65535 * (len div 2) + 65280 < 2 ^ 32"
  have "ones_sum n mod 65536 = ones_sum n" for n using ones_sum_range [of n] by simp
  then show ?thesis using sum_words_eq [of 0 len f off] a by (simp add: cksum_def not_low fold_carry_eq)
qed

text \<open>
  Writing a word into a zero field at an even distance adds it to the sum. A field of a header
  that is filled with its own checksum therefore makes the whole sum 65535, the value a
  receiver tests for.
\<close>

lemma word_sum_put:
  assumes "get16 f (off + 2 * c) = 0" "c < len div 2"
  shows "word_sum (put16 f (off + 2 * c) v) off len = word_sum f off len + unat v"
proof -
  let ?g = "put16 f (off + 2 * c) v"
  have out: "?g i = f i" if "i \<noteq> off + 2 * c" "i \<noteq> off + 2 * c + 1" for i using that by (simp add: put16_def)
  have w: "unat (get16 ?g (off + 2 * k)) = unat (get16 f (off + 2 * k)) + (if k = c then unat v else 0)" for k
  proof (cases "k = c")
    case False
    then have "off + 2 * k \<noteq> off + 2 * c" "off + 2 * k \<noteq> off + 2 * c + 1" "off + 2 * k + 1 \<noteq> off + 2 * c"
      "off + 2 * k + 1 \<noteq> off + 2 * c + 1" by presburger+
    then show ?thesis using False out by (simp add: get16_def)
  qed (use assms(1) in simp)
  have "?g (off + len - 1) = f (off + len - 1)" if "odd len"
  proof -
    have "off + len - 1 = off + 2 * (len div 2)" using that by (metis add_diff_cancel_right' group_cancel.add1 odd_two_times_div_two_succ)
    then show ?thesis using assms(2) by (intro out) simp_all
  qed
  moreover have "(\<Sum>k < len div 2. unat (get16 ?g (off + 2 * k))) = (\<Sum>k < len div 2. unat (get16 f (off + 2 * k))) + unat v"
    using assms(2) by (simp add: w sum.distrib)
  ultimately show ?thesis by (simp add: word_sum_def)
qed

definition verifies :: "u32 \<Rightarrow> buf \<Rightarrow> nat \<Rightarrow> nat \<Rightarrow> bool" where
  "verifies s0 data off len \<longleftrightarrow> fold_carry (sum_words data off len s0) = 0xffff"

lemma verifies_iff:
  assumes "unat s0 + 65535 * (len div 2) + 65280 < 2 ^ 32"
  shows "verifies s0 f off len \<longleftrightarrow> ones_sum (unat s0 + word_sum f off len) = 65535"
proof -
  have "verifies s0 f off len \<longleftrightarrow> unat (fold_carry (sum_words f off len s0)) = 65535"
    unfolding verifies_def by (simp add: word_unat_eq_iff)
  then show ?thesis by (simp add: fold_carry_eq sum_words_eq [OF assms])
qed

lemma filled_verifies:
  assumes "get16 f (off + 2 * c) = 0" "c < len div 2" "unat s0 + 65535 * (len div 2) + 65280 < 2 ^ 32"
    and "unat v = 65535 - ones_sum (unat s0 + word_sum f off len)"
  shows "verifies s0 (put16 f (off + 2 * c) v) off len"
  using ones_sum_closes(1) [of "unat s0 + word_sum f off len"] assms(4)
  by (simp add: verifies_iff [OF assms(3)] word_sum_put [OF assms(1,2)] add.assoc)

lemma cksum_verifies:
  assumes "get16 f (off + 2 * c) = 0" "c < len div 2" "65535 * (len div 2) + 65280 < 2 ^ 32"
  shows "verifies 0 (put16 f (off + 2 * c) (cksum f off len)) off len"
  using assms by (intro filled_verifies) (simp_all add: cksum_eq)

end
