(* ===== verification/Net.thy ===== *)
theory Net
  imports NetBytes Uart
begin

text \<open>
  The network stack of \<^verbatim>\<open>src/src/net.c\<close> above the queue set-up: sending and receiving frames
  through the two virtio queues, ARP, UDP, DNS, ICMP echo and the TCP demonstration server.
  The network card is a parameter: what it does with a frame it is given, and what it has put
  into the receive queue at a poll. The polling loops run a fixed number of rounds, which is
  the argument of the recursions. Lengths are C \<^verbatim>\<open>int\<close>s, kept as \<open>int\<close>; \<open>n64\<close> is the conversion
  of a length to the \<^verbatim>\<open>uint64\<close> argument of \<^verbatim>\<open>copy\<close>.
\<close>

section \<open>The two queues\<close>

definition NETHDR :: nat where "NETHDR = 12"
definition BUFSZ :: int where "BUFSZ = 2048"
definition NUM :: u16 where "NUM = 8"
definition ETH_ARP :: u16 where "ETH_ARP = 0x0806"
definition ETH_IP :: u16 where "ETH_IP = 0x0800"

definition MY_IP :: "u8 list" where "MY_IP = [10, 0, 2, 15]"
definition GW_IP :: "u8 list" where "GW_IP = [10, 0, 2, 2]"
definition DNS_IP :: "u8 list" where "DNS_IP = [10, 0, 2, 3]"

text \<open>A frame in the transmit queue as the card finds it at the notification.\<close>

record tx_sub =
  ts_ring :: "u16 list"
  ts_idx :: u16
  ts_flags :: u16
  ts_frame :: "u8 list"

text \<open>
  The card: \<open>ntx\<close> is given a submission and gives the value of the used index when the polling
  loop of \<^verbatim>\<open>eth_tx\<close> ends; \<open>nrx\<close> gives, when the used index of the receive queue has moved, the
  element at \<^verbatim>\<open>used_seen\<close> with the contents of its buffer; \<open>nback\<close> sees the buffer given back.
\<close>

record 'd nicdev =
  ntx :: "tx_sub \<Rightarrow> 'd \<Rightarrow> 'd \<times> u16"
  nrx :: "'d \<Rightarrow> 'd \<times> (u32 \<times> u32 \<times> buf) option"
  nback :: "u16 list \<Rightarrow> u16 \<Rightarrow> 'd \<Rightarrow> 'd"

text \<open>\<open>stk\<close> is what an array on the stack holds before it is written.\<close>

record 'd net =
  net_ok :: bool
  my_mac :: "u8 list"
  tx_ring :: "u16 list"
  tx_idx :: u16
  tx_seen :: u16
  rx_ring :: "u16 list"
  rx_idx :: u16
  rx_seen :: u16
  txframe :: buf
  stk :: buf
  nic :: 'd
  nout :: "u8 list"

definition nputs :: "string \<Rightarrow> 'd net \<Rightarrow> 'd net" where
  "nputs msg s = s\<lparr>nout := nout s @ puts_bytes (bytes_of msg)\<rparr>"

definition nputc :: "u8 \<Rightarrow> 'd net \<Rightarrow> 'd net" where
  "nputc c s = s\<lparr>nout := nout s @ [c]\<rparr>"

definition n64 :: "int \<Rightarrow> nat" where
  "n64 n = unat (of_int n :: u64)"

definition hex_char :: "u8 \<Rightarrow> u8" where
  "hex_char d = bytes_of ''0123456789abcdef'' ! unat d"

definition print_mac :: "u8 list \<Rightarrow> 'd net \<Rightarrow> 'd net" where
  "print_mac m s = fold (\<lambda>i s.
     let s = (if i \<noteq> 0 then nputc (of_char CHR '':'') s else s)
     in nputc (hex_char (m ! i AND 0xf)) (nputc (hex_char (drop_bit 4 (m ! i))) s)) [0..<6] s"

definition print_ip :: "u8 list \<Rightarrow> 'd net \<Rightarrow> 'd net" where
  "print_ip ip s = fold (\<lambda>i s.
     let s = (if i \<noteq> 0 then nputc (of_char CHR ''.'') s else s)
     in s\<lparr>nout := nout s @ dec_bytes (ucast (ip ! i))\<rparr>) [0..<4] s"

definition eth_tx :: "'d nicdev \<Rightarrow> u8 list \<Rightarrow> u16 \<Rightarrow> buf \<Rightarrow> int \<Rightarrow> 'd net \<Rightarrow> int \<times> 'd net" where
  "eth_tx dev dst ethertype payload plen s =
     (if \<not> net_ok s then (-1, s)
      else
        let f = bzero (txframe s) 0 NETHDR;
            f = bcopy f NETHDR (arr dst) 0 6;
            f = bcopy f (NETHDR + 6) (arr (my_mac s)) 0 6;
            f = put16 f (NETHDR + 12) ethertype;
            f = bcopy f (NETHDR + 14) payload 0 (n64 plen);
            total = int NETHDR + 14 + plen;
            ring = (tx_ring s)[unat (tx_idx s mod NUM) := 0];
            idx = tx_idx s + 1;
            q = \<lparr>ts_ring = ring, ts_idx = idx, ts_flags = 0,
                 ts_frame = bytes_at f 0 (unat (of_int total :: u32))\<rparr>;
            (d, used) = ntx dev q (nic s);
            s = s\<lparr>txframe := f, tx_ring := ring, tx_idx := idx, nic := d\<rparr>
        in if used = tx_seen s then (-1, s) else (0, s\<lparr>tx_seen := used\<rparr>))"

definition eth_rx :: "'d nicdev \<Rightarrow> buf \<Rightarrow> int \<Rightarrow> 'd net \<Rightarrow> int \<times> buf \<times> 'd net" where
  "eth_rx dev out mx s =
     (if \<not> net_ok s then (-1, out, s)
      else case nrx dev (nic s) of
          (d, None) \<Rightarrow> (0, out, s\<lparr>nic := d\<rparr>)
        | (d, Some (bid, len, data)) \<Rightarrow>
            let (flen, out) =
                  (if len > of_nat NETHDR
                   then let flen = sint (len - of_nat NETHDR); flen = (if flen > mx then mx else flen)
                        in (flen, bcopy out 0 data NETHDR (n64 flen))
                   else (0, out));
                ring = (rx_ring s)[unat (rx_idx s mod NUM) := ucast bid];
                idx = rx_idx s + 1
            in (flen, out, s\<lparr>rx_seen := rx_seen s + 1, rx_ring := ring, rx_idx := idx, nic := nback dev ring idx d\<rparr>))"

section \<open>ARP\<close>

definition arp_request :: "'d nicdev \<Rightarrow> u8 list \<Rightarrow> 'd net \<Rightarrow> 'd net" where
  "arp_request dev target_ip s =
     (let bcast = replicate 6 0xff;
          a = put16 (stk s) 0 1;
          a = put16 a 2 ETH_IP;
          a = a(4 := 6, 5 := 4);
          a = put16 a 6 1;
          a = bcopy a 8 (arr (my_mac s)) 0 6;
          a = bcopy a 14 (arr MY_IP) 0 4;
          a = bzero a 18 6;
          a = bcopy a 24 (arr target_ip) 0 4
      in snd (eth_tx dev bcast ETH_ARP a 28 s))"

definition arp_maybe_reply :: "'d nicdev \<Rightarrow> buf \<Rightarrow> int \<Rightarrow> 'd net \<Rightarrow> 'd net" where
  "arp_maybe_reply dev fr len s =
     (if len < 14 + 28 \<or> get16 fr 12 \<noteq> ETH_ARP then s
      else if get16 fr (14 + 6) \<noteq> 1 then s
      else if \<not> eq4 fr (14 + 24) (arr MY_IP) 0 then s
      else
        let r = put16 (stk s) 0 1;
            r = put16 r 2 ETH_IP;
            r = r(4 := 6, 5 := 4);
            r = put16 r 6 2;
            r = bcopy r 8 (arr (my_mac s)) 0 6;
            r = bcopy r 14 (arr MY_IP) 0 4;
            r = bcopy r 18 fr (14 + 8) 6;
            r = bcopy r 24 fr (14 + 14) 4
        in snd (eth_tx dev (bytes_at fr (14 + 8) 6) ETH_ARP r 28 s))"

fun arp_wait :: "nat \<Rightarrow> 'd nicdev \<Rightarrow> u8 list \<Rightarrow> buf \<Rightarrow> 'd net \<Rightarrow> u8 list option \<times> 'd net" where
  "arp_wait 0 dev target_ip fr s = (None, s)"
| "arp_wait (Suc spin) dev target_ip fr s =
     (let (len, fr, s) = eth_rx dev fr BUFSZ s
      in if len \<le> 0 then arp_wait spin dev target_ip fr s
         else if get16 fr 12 = ETH_ARP \<and> len \<ge> 14 + 28
         then if get16 fr (14 + 6) = 2 \<and> eq4 fr (14 + 14) (arr target_ip) 0
              then (Some (bytes_at fr (14 + 8) 6), s)
              else arp_wait spin dev target_ip fr (arp_maybe_reply dev fr len s)
         else arp_wait spin dev target_ip fr s)"

definition arp_resolve :: "'d nicdev \<Rightarrow> u8 list \<Rightarrow> 'd net \<Rightarrow> u8 list option \<times> 'd net" where
  "arp_resolve dev target_ip s =
     (let s = arp_request dev target_ip s in arp_wait 400000000 dev target_ip (stk s) s)"

section \<open>UDP\<close>

text \<open>The IPv4 header, the same statements in \<^verbatim>\<open>udp_tx\<close>, \<^verbatim>\<open>icmp_ping\<close> and \<^verbatim>\<open>tcp_send\<close>.\<close>

definition ip_header :: "buf \<Rightarrow> int \<Rightarrow> u8 \<Rightarrow> u8 list \<Rightarrow> buf" where
  "ip_header pkt iplen proto dst_ip =
     (let pkt = pkt(0 := 0x45, 1 := 0);
          pkt = put16 pkt 2 (of_int iplen);
          pkt = put16 pkt 4 0;
          pkt = put16 pkt 6 0;
          pkt = pkt(8 := 64, 9 := proto);
          pkt = put16 pkt 10 0;
          pkt = bcopy pkt 12 (arr MY_IP) 0 4;
          pkt = bcopy pkt 16 (arr dst_ip) 0 4
      in put16 pkt 10 (cksum pkt 0 20))"

definition pseudo_sum :: "u8 list \<Rightarrow> u32 \<Rightarrow> int \<Rightarrow> u32" where
  "pseudo_sum dst_ip proto len =
     ucast (get16 (arr MY_IP) 0) + ucast (get16 (arr MY_IP) 2) +
     ucast (get16 (arr dst_ip) 0) + ucast (get16 (arr dst_ip) 2) + proto + of_int len"

definition udp_tx :: "'d nicdev \<Rightarrow> u8 list \<Rightarrow> u8 list \<Rightarrow> u16 \<Rightarrow> u16 \<Rightarrow> buf \<Rightarrow> int \<Rightarrow> 'd net \<Rightarrow> int \<times> 'd net" where
  "udp_tx dev dst_mac dst_ip src_port dst_port payload plen s =
     (let udplen = 8 + plen; iplen = 20 + udplen;
          pkt = ip_header (stk s) iplen 17 dst_ip;
          pkt = put16 pkt 20 src_port;
          pkt = put16 pkt 22 dst_port;
          pkt = put16 pkt 24 (of_int udplen);
          pkt = put16 pkt 26 0;
          pkt = bcopy pkt 28 payload 0 (n64 plen);
          acc = fold_carry (sum_words pkt 20 (nat udplen) (pseudo_sum dst_ip 17 udplen));
          c = ucast (NOT acc AND 0xffff) :: u16;
          pkt = put16 pkt 26 (if c \<noteq> 0 then c else 0xffff)
      in eth_tx dev dst_mac ETH_IP pkt iplen s)"

fun udp_rx :: "nat \<Rightarrow> 'd nicdev \<Rightarrow> u16 \<Rightarrow> buf \<Rightarrow> int \<Rightarrow> buf \<Rightarrow> 'd net \<Rightarrow> int \<times> buf \<times> 'd net" where
  "udp_rx 0 dev want_port out mx fr s = (-1, out, s)"
| "udp_rx (Suc spin) dev want_port out mx fr s =
     (let (len, fr, s) = eth_rx dev fr BUFSZ s
      in if len \<le> 0 then if len < 0 then (-1, out, s) else udp_rx spin dev want_port out mx fr s
         else if get16 fr 12 = ETH_ARP then udp_rx spin dev want_port out mx fr (arp_maybe_reply dev fr len s)
         else if get16 fr 12 \<noteq> ETH_IP \<or> len < 14 + 28 then udp_rx spin dev want_port out mx fr s
         else if drop_bit 4 (fr 14) \<noteq> 4 \<or> fr (14 + 9) \<noteq> 17 then udp_rx spin dev want_port out mx fr s
         else
           let ihl = unat (fr 14 AND 0xf) * 4; udp = 14 + ihl
           in if get16 fr (udp + 2) \<noteq> want_port then udp_rx spin dev want_port out mx fr s
              else
                let plen = int (unat (get16 fr (udp + 4))) - 8
                in if plen < 0 then udp_rx spin dev want_port out mx fr s
                   else let plen = (if plen > mx then mx else plen)
                        in (plen, bcopy out 0 fr (udp + 8) (n64 plen), s))"

section \<open>DNS\<close>

text \<open>\<open>rest\<close> is the name from \<^verbatim>\<open>name[i]\<close> on, \<open>p\<close> the next free index of \<^verbatim>\<open>q\<close>.\<close>

function qname :: "u8 list \<Rightarrow> nat \<Rightarrow> buf \<Rightarrow> nat \<times> buf" where
  "qname rest p q =
     (case rest of
        [] \<Rightarrow> (p, q)
      | c # _ \<Rightarrow>
          if c = 0 then (p, q)
          else
            let lab = takeWhile (\<lambda>c. c \<noteq> 0 \<and> c \<noteq> of_char CHR ''.'') rest;
                rest = drop (length lab) rest;
                q = q(p := of_nat (length lab));
                q = bcopy q (p + 1) (arr lab) 0 (length lab);
                rest = (case rest of [] \<Rightarrow> [] | c # cs \<Rightarrow> if c = of_char CHR ''.'' then cs else rest)
            in qname rest (p + 1 + length lab) q)"
  by pat_completeness auto
termination
proof (relation "measure (\<lambda>(rest, p, q). length rest)", goal_cases)
  case (2 rest p q c cs lab rest1 q1 q2 rest2)
  show ?case
  proof (cases "c = of_char CHR ''.''")
    case True
    then have "lab = []" using 2 by simp
    then show ?thesis using 2 True by simp
  next
    case False
    then have "lab \<noteq> []" using 2 by simp
    moreover have "length lab \<le> length rest" using 2(3) length_takeWhile_le by auto
    ultimately have "length rest1 < length rest" using 2(4) by (simp add: 2(1))
    then show ?thesis using 2(7) by (auto split: list.splits if_splits)
  qed
qed simp

declare qname.simps [simp del]

definition dns_packet :: "u8 list \<Rightarrow> buf \<Rightarrow> nat \<times> buf" where
  "dns_packet name q =
     (let q = put16 q 0 0x1234;
          q = put16 q 2 0x0100;
          q = put16 q 4 1;
          q = put16 q 6 0; q = put16 q 8 0; q = put16 q 10 0;
          (p, q) = qname name 12 q;
          q = q(p := 0); p = p + 1;
          q = put16 q p 1; p = p + 2;
          q = put16 q p 1; p = p + 2
      in (p, q))"

function skip_name :: "buf \<Rightarrow> int \<Rightarrow> int \<Rightarrow> int" where
  "skip_name r rlen off = (if off < rlen \<and> r (nat off) \<noteq> 0 then skip_name r rlen (off + int (unat (r (nat off))) + 1) else off)"
  by auto
termination
proof (relation "measure (\<lambda>(r, rlen, off). nat (rlen - off))", goal_cases)
  case (2 r rlen off)
  have "off < off + int (unat (r (nat off))) + 1" by linarith
  then show ?case using 2 by (simp only: in_measure prod.case) linarith
qed simp

declare skip_name.simps [simp del]

text \<open>The search for an A record, \<open>k\<close> records before the count is used up.\<close>

fun find_a :: "nat \<Rightarrow> buf \<Rightarrow> int \<Rightarrow> int \<Rightarrow> u8 list option" where
  "find_a 0 r rlen off = None"
| "find_a (Suc k) r rlen off =
     (if \<not> off + 12 \<le> rlen then None
      else
        let off = (if r (nat off) AND 0xc0 = 0xc0 then off + 2 else skip_name r rlen off + 1)
        in if off + 10 > rlen then None
           else
             let type = get16 r (nat off); rdlen = get16 r (nat off + 8); off = off + 10
             in if type = 1 \<and> rdlen = 4 then Some (bytes_at r (nat off) 4)
                else find_a k r rlen (off + int (unat rdlen)))"

definition dns_parse :: "buf \<Rightarrow> int \<Rightarrow> u8 list option" where
  "dns_parse r rlen =
     (if rlen < 12 then None
      else
        let an = unat (get16 r 6)
        in if an < 1 then None
           else let off = skip_name r rlen 12; off = off + (1 + 4) in find_a an r rlen off)"

definition dns_query :: "'d nicdev \<Rightarrow> u8 list \<Rightarrow> u8 list \<Rightarrow> 'd net \<Rightarrow> u8 list option \<times> 'd net" where
  "dns_query dev dns_mac name s =
     (let (p, q) = dns_packet name (stk s);
          (r, s) = udp_tx dev dns_mac DNS_IP 0x9999 53 q (int p) s
      in if r \<noteq> 0 then (None, s)
         else let (rlen, r, s) = udp_rx 400000000 dev 0x9999 (stk s) BUFSZ (stk s) s in (dns_parse r rlen, s))"

section \<open>ICMP echo\<close>

definition icmp_echo :: "buf \<Rightarrow> buf" where
  "icmp_echo icmp =
     (let icmp = icmp(0 := 8, 1 := 0);
          icmp = put16 icmp 2 0;
          icmp = put16 icmp 4 0xabcd;
          icmp = put16 icmp 6 1;
          icmp = fold (\<lambda>i icmp. icmp(8 + i := of_char CHR ''a'' + of_nat (i mod 26))) [0..<32] icmp
      in put16 icmp 2 (cksum icmp 0 40))"

fun icmp_wait :: "nat \<Rightarrow> 'd nicdev \<Rightarrow> u8 list \<Rightarrow> buf \<Rightarrow> 'd net \<Rightarrow> int \<times> 'd net" where
  "icmp_wait 0 dev dst_ip fr s = (-1, s)"
| "icmp_wait (Suc spin) dev dst_ip fr s =
     (let (len, fr, s) = eth_rx dev fr BUFSZ s
      in if len \<le> 0 then if len < 0 then (-1, s) else icmp_wait spin dev dst_ip fr s
         else if get16 fr 12 = ETH_ARP then icmp_wait spin dev dst_ip fr (arp_maybe_reply dev fr len s)
         else if get16 fr 12 \<noteq> ETH_IP \<or> len < 14 + 28 then icmp_wait spin dev dst_ip fr s
         else if fr (14 + 9) \<noteq> 1 then icmp_wait spin dev dst_ip fr s
         else
           let ihl = unat (fr 14 AND 0xf) * 4
           in if fr (14 + ihl) = 0 \<and> eq4 fr (14 + 12) (arr dst_ip) 0 then (0, s)
              else icmp_wait spin dev dst_ip fr s)"

definition icmp_ping :: "'d nicdev \<Rightarrow> u8 list \<Rightarrow> u8 list \<Rightarrow> 'd net \<Rightarrow> int \<times> 'd net" where
  "icmp_ping dev next_mac dst_ip s =
     (let icmp = icmp_echo (stk s);
          pkt = ip_header (stk s) (20 + 40) 1 dst_ip;
          pkt = bcopy pkt 20 icmp 0 40;
          (r, s) = eth_tx dev next_mac ETH_IP pkt (20 + 40) s
      in if r \<noteq> 0 then (-1, s) else icmp_wait 400000000 dev dst_ip (stk s) s)"

section \<open>TCP\<close>

definition IP_TCP :: u8 where "IP_TCP = 6"
definition TH_FIN :: u8 where "TH_FIN = 0x01"
definition TH_SYN :: u8 where "TH_SYN = 0x02"
definition TH_RST :: u8 where "TH_RST = 0x04"
definition TH_PSH :: u8 where "TH_PSH = 0x08"
definition TH_ACK :: u8 where "TH_ACK = 0x10"

definition tcp_packet :: "buf \<Rightarrow> u8 list \<Rightarrow> u16 \<Rightarrow> u16 \<Rightarrow> u32 \<Rightarrow> u32 \<Rightarrow> u8 \<Rightarrow> buf \<Rightarrow> int \<Rightarrow> buf" where
  "tcp_packet pkt dip sport dport seq ack flags data dlen =
     (let tcplen = 20 + dlen; iplen = 20 + tcplen;
          pkt = ip_header pkt iplen IP_TCP dip;
          pkt = put16 pkt 20 sport; pkt = put16 pkt 22 dport;
          pkt = put32 pkt 24 seq; pkt = put32 pkt 28 ack;
          pkt = pkt(32 := push_bit 4 5, 33 := flags);
          pkt = put16 pkt 34 64240;
          pkt = put16 pkt 36 0; pkt = put16 pkt 38 0;
          pkt = bcopy pkt 40 data 0 (nat dlen);
          acc = fold_carry (sum_words pkt 20 (nat tcplen) (pseudo_sum dip (ucast IP_TCP) tcplen))
      in put16 pkt 36 (ucast (NOT acc AND 0xffff)))"

definition tcp_send :: "'d nicdev \<Rightarrow> u8 list \<Rightarrow> u8 list \<Rightarrow> u16 \<Rightarrow> u16 \<Rightarrow> u32 \<Rightarrow> u32 \<Rightarrow> u8 \<Rightarrow> buf \<Rightarrow> int \<Rightarrow> 'd net \<Rightarrow> int \<times> 'd net" where
  "tcp_send dev mac dip sport dport seq ack flags data dlen s =
     eth_tx dev mac ETH_IP (tcp_packet (stk s) dip sport dport seq ack flags data dlen) (20 + (20 + dlen)) s"

record segment =
  g_mac :: "u8 list"
  g_ip :: "u8 list"
  g_port :: u16
  g_seq :: u32
  g_ack :: u32
  g_flags :: u8
  g_len :: int
  g_data :: buf

text \<open>What \<^verbatim>\<open>tcp_recv\<close> makes of a frame, \<open>None\<close> where it goes on polling.\<close>

definition tcp_parse :: "u16 \<Rightarrow> int \<Rightarrow> buf \<Rightarrow> buf \<Rightarrow> segment option" where
  "tcp_parse want_port mx out fr =
     (if get16 fr 12 \<noteq> ETH_IP then None
      else if drop_bit 4 (fr 14) \<noteq> 4 \<or> fr (14 + 9) \<noteq> IP_TCP then None
      else
        let ihl = unat (fr 14 AND 0xf) * 4; t = 14 + ihl
        in if get16 fr (t + 2) \<noteq> want_port then None
           else
             let doff = unat (drop_bit 4 (fr (t + 12))) * 4;
                 dlen = int (unat (get16 fr (14 + 2))) - int ihl - int doff;
                 dlen = (if dlen < 0 then 0 else dlen);
                 dlen = (if dlen > mx then mx else dlen)
             in Some \<lparr>g_mac = bytes_at fr 6 6, g_ip = bytes_at fr (14 + 12) 4, g_port = get16 fr t,
                  g_seq = get32 fr (t + 4), g_ack = get32 fr (t + 8), g_flags = fr (t + 13),
                  g_len = dlen, g_data = bcopy out 0 fr (t + doff) (n64 dlen)\<rparr>)"

fun tcp_recv :: "nat \<Rightarrow> 'd nicdev \<Rightarrow> u16 \<Rightarrow> int \<Rightarrow> buf \<Rightarrow> buf \<Rightarrow> 'd net \<Rightarrow> segment option \<times> 'd net" where
  "tcp_recv 0 dev want_port mx out fr s = (None, s)"
| "tcp_recv (Suc spin) dev want_port mx out fr s =
     (let (len, fr, s) = eth_rx dev fr BUFSZ s
      in if len \<le> 0 then if len < 0 then (None, s) else tcp_recv spin dev want_port mx out fr s
         else if get16 fr 12 = ETH_ARP then tcp_recv spin dev want_port mx out fr (arp_maybe_reply dev fr len s)
         else case tcp_parse want_port mx out fr of
             None \<Rightarrow> tcp_recv spin dev want_port mx out fr s
           | Some g \<Rightarrow> (Some g, s))"

abbreviation tcp_wait :: "'d nicdev \<Rightarrow> buf \<Rightarrow> 'd net \<Rightarrow> segment option \<times> 'd net" where
  "tcp_wait dev b s \<equiv> tcp_recv 800000000 dev 5599 BUFSZ b (stk s) s"

text \<open>
  The demonstration server, step by step: wait for a SYN (this loop has no bound), receive data
  at most twelve times, close. \<open>b\<close> is \<^verbatim>\<open>buf\<close>.
\<close>

partial_function (option) tcp_listen :: "'d nicdev \<Rightarrow> buf \<Rightarrow> 'd net \<Rightarrow> (segment option \<times> 'd net) option" where
  "tcp_listen dev b s =
     (case tcp_wait dev b s of
        (None, s) \<Rightarrow> Some (None, nputs ''timeout (no connect)\<newline>'' s)
      | (Some g, s) \<Rightarrow> if g_flags g AND TH_SYN \<noteq> 0 then Some (Some g, s) else tcp_listen dev (g_data g) s)"

fun tcp_serve :: "nat \<Rightarrow> 'd nicdev \<Rightarrow> segment \<Rightarrow> u32 \<Rightarrow> u32 \<Rightarrow> buf \<Rightarrow> 'd net \<Rightarrow> (u32 \<times> u32 \<times> buf) option \<times> 'd net" where
  "tcp_serve 0 dev peer myseq cliack b s = (Some (myseq, cliack, b), s)"
| "tcp_serve (Suc tries) dev peer myseq cliack b s =
     (case tcp_wait dev b s of
        (None, s) \<Rightarrow> (None, nputs ''[tcp] no data\<newline>'' s)
      | (Some g, s) \<Rightarrow>
          if g_len g > 0
          then
            let b = g_data g; n = g_len g;
                s = nputs ''[tcp] recv: '' s;
                s = fold (\<lambda>i s. nputc (b i) s) [0..<nat n] s;
                s = (if b (nat n - 1) \<noteq> 10 then nputc 10 s else s);
                cliack = g_seq g + of_int n;
                s = snd (tcp_send dev (g_mac peer) (g_ip peer) 5599 (g_port peer) myseq cliack (TH_PSH OR TH_ACK) b n s)
            in (Some (myseq + of_int n, cliack, b), s)
          else if g_flags g AND TH_FIN \<noteq> 0 then (Some (myseq, g_seq g + 1, g_data g), s)
          else tcp_serve tries dev peer myseq cliack (g_data g) s)"

definition net_tcp_demo :: "'d nicdev \<Rightarrow> 'd net \<Rightarrow> 'd net option" where
  "net_tcp_demo dev s =
     (if \<not> net_ok s then Some s
      else
        Option.bind (tcp_listen dev (stk s) (nputs ''[tcp] listening on :5599 (waiting for host connect) ... '' s)) (\<lambda>(g, s).
        case g of
          None \<Rightarrow> Some s
        | Some g \<Rightarrow>
            let cliseq = g_seq g;
                s = nputc 10 (print_ip (g_ip g) (nputs ''SYN from '' s));
                myseq = 20000;
                s = snd (tcp_send dev (g_mac g) (g_ip g) 5599 (g_port g) myseq (cliseq + 1) (TH_SYN OR TH_ACK) (\<lambda>_. 0) 0 s);
                myseq = myseq + 1; cliack = cliseq + 1
            in (case tcp_serve 12 dev g myseq cliack (g_data g) s of
                  (None, s) \<Rightarrow> Some s
                | (Some (myseq, cliack, b), s) \<Rightarrow>
                    let s = snd (tcp_send dev (g_mac g) (g_ip g) 5599 (g_port g) myseq cliack (TH_FIN OR TH_ACK) (\<lambda>_. 0) 0 s);
                        (r, s) = tcp_wait dev b s;
                        s = (case r of
                               Some h \<Rightarrow> if g_flags h AND TH_FIN \<noteq> 0
                                 then snd (tcp_send dev (g_mac g) (g_ip g) 5599 (g_port g) (myseq + 1) (g_seq h + 1) TH_ACK (\<lambda>_. 0) 0 s)
                                 else s
                             | None \<Rightarrow> s)
                    in Some (nputs ''[ok] tcp: accept + handshake + echo + close done\<newline>'' s))))"

section \<open>The boot-time demonstration\<close>

definition net_demo :: "'d nicdev \<Rightarrow> 'd net \<Rightarrow> 'd net" where
  "net_demo dev s =
     (if \<not> net_ok s then s
      else
        let s = nputs ''[net] ARP who-has '' s;
            s = nputs '' (gateway) ... '' (print_ip GW_IP s);
            (r, s) = arp_resolve dev GW_IP s
        in case r of
             None \<Rightarrow> nputs ''timeout\<newline>'' s
           | Some gwmac \<Rightarrow>
               let s = nputc 10 (print_mac gwmac (nputs ''is-at '' s));
                   s = nputs '' ... '' (print_ip GW_IP (nputs ''[net] ping '' s));
                   (r, s) = icmp_ping dev gwmac GW_IP s;
                   s = (if r = 0 then nputs ''reply\<newline>'' s else nputs ''timeout\<newline>'' s);
                   (r, s) = arp_resolve dev DNS_IP s;
                   s = (case r of
                          None \<Rightarrow> nputs ''[net] cannot reach DNS server\<newline>'' s
                        | Some dnsmac \<Rightarrow>
                            let s = nputs '' ... '' (nputs ''example.com'' (nputs ''[net] DNS A '' s));
                                (r, s) = dns_query dev dnsmac (bytes_of ''example.com'') s
                            in (case r of None \<Rightarrow> nputs ''timeout (no outbound DNS?)\<newline>'' s
                                | Some ip \<Rightarrow> nputc 10 (print_ip ip s)))
               in nputs ''[ok] networking up: virtio-net + ARP + ICMP + IP/UDP\<newline>'' s)"

end
