(* ===== verification/Syscall.thy ===== *)
theory Syscall
  imports Sched PageFault Console Net
begin

text \<open>
  \<^verbatim>\<open>src/src/user.c\<close>: the system calls, on the state of the whole kernel. A system call reads and writes
  user memory through the page table of the calling process, taking page faults as the hardware
  would; its arguments and its result are in the trap frame on the user stack.
\<close>

section \<open>The whole kernel\<close>

text \<open>
  The record puts the components side by side. \<open>tty\<close> is the text printed so far; what a component has
  printed during a call is moved there when the call is over (\<open>flush\<close>), so \<open>tty\<close> has the output of
  successive calls in order. The echo of typed characters goes to the UART in \<open>cons\<close>.
\<close>

record ('d, 'n, 'u, 'p) machine =
  kern :: kproc
  files :: "'d fs"
  nets :: "'n net"
  cons :: "'u console"
  plics :: 'p
  ticks :: u64
  stimecmp :: "nat \<Rightarrow> u64"
  tty :: "u8 list"

text \<open>What is outside the kernel: linker addresses, disk, network card, UART and interrupt controller.\<close>

record ('d, 'n, 'u, 'p) hw =
  syms :: ksyms
  blk :: "'d blkdev"
  card :: "'n nicdev"
  uart_rd :: "'u reg_read"
  uart_wr :: "'u reg_write"
  plic_rd :: "u64 \<Rightarrow> 'p \<Rightarrow> u32 \<times> 'p"
  plic_wr :: "u64 \<Rightarrow> u32 \<Rightarrow> 'p \<Rightarrow> 'p"

type_synonym ('d, 'a) run = "('d, 'a) io option"

text \<open>A step that may hang (\<open>None\<close>) or in which the disk stops (\<open>Inl\<close>), then another.\<close>

definition run_bind :: "('d, 'a) run \<Rightarrow> ('a \<Rightarrow> ('d, 'b) run) \<Rightarrow> ('d, 'b) run" where
  "run_bind x f = (case x of None \<Rightarrow> None | Some (Inl d) \<Rightarrow> Some (Inl d) | Some (Inr a) \<Rightarrow> f a)"

abbreviation ret :: "'a \<Rightarrow> ('d, 'a) run" where
  "ret a \<equiv> Some (Inr a)"

lemma run_bind_simps [simp]:
  "run_bind None f = None" "run_bind (Some (Inl d)) f = Some (Inl d)" "run_bind (ret a) f = f a"
  by (simp_all add: run_bind_def)

definition flush :: "('d, 'n, 'u, 'p) machine \<Rightarrow> ('d, 'n, 'u, 'p) machine" where
  "flush m = m\<lparr>tty := tty m @ vout (kern m) @ out (files m) @ nout (nets m),
     kern := kern m\<lparr>vout := []\<rparr>, files := files m\<lparr>out := []\<rparr>, nets := nets m\<lparr>nout := []\<rparr>\<rparr>"

definition print :: "u8 list \<Rightarrow> ('d, 'n, 'u, 'p) machine \<Rightarrow> ('d, 'n, 'u, 'p) machine" where
  "print bs m = m\<lparr>tty := tty m @ bs\<rparr>"

abbreviation say :: "string \<Rightarrow> ('d, 'n, 'u, 'p) machine \<Rightarrow> ('d, 'n, 'u, 'p) machine" where
  "say t \<equiv> print (puts_bytes (bytes_of t))"

section \<open>User memory\<close>

text \<open>Sv39 translation with its permission check: read needs R, write needs W (the kernel runs with SUM set).\<close>

definition translate :: "memory \<Rightarrow> u64 \<Rightarrow> bool \<Rightarrow> u64 \<Rightarrow> u64 option" where
  "translate m pt store va =
     (let e = leaf m 2 pt va in
      if bit e 0 \<and> bit e (if store then 2 else 1) then Some (PTE2PA e + (va AND 0xfff)) else None)"

definition cur_pt :: "nat \<Rightarrow> ('d, 'n, 'u, 'p) machine \<Rightarrow> u64 option" where
  "cur_pt hart m = map_option (\<lambda>i. pagetable (proc_at i (kern m))) (current_proc hart (kern m))"

text \<open>
  The physical address of a byte the kernel accesses at user address \<open>va\<close>. When the page is missing the
  access traps into \<^verbatim>\<open>proc_pagefault\<close> and is retried; a fault that is not handled stops the hart.
\<close>

definition user_access :: "('d, 'n, 'u, 'p) hw \<Rightarrow> nat \<Rightarrow> bool \<Rightarrow> u64 \<Rightarrow> ('d, 'n, 'u, 'p) machine \<Rightarrow>
    ('d, u64 \<times> ('d, 'n, 'u, 'p) machine) run" where
  "user_access hw hart store va m =
     (case cur_pt hart m of
        None \<Rightarrow> None
      | Some pt \<Rightarrow>
         case translate (mem (kern m)) pt store va of
           Some pa \<Rightarrow> ret (pa, m)
         | None \<Rightarrow>
             run_bind (proc_pagefault (blk hw) hart va store (files m) (kern m)) (\<lambda>(b, f, k).
               if \<not> b then None
               else let m = flush (m\<lparr>files := f, kern := k\<rparr>) in
                    case translate (mem (kern m)) pt store va of Some pa \<Rightarrow> ret (pa, m) | None \<Rightarrow> None))"

definition load_user :: "('d, 'n, 'u, 'p) hw \<Rightarrow> nat \<Rightarrow> u64 \<Rightarrow> ('d, 'n, 'u, 'p) machine \<Rightarrow>
    ('d, u8 \<times> ('d, 'n, 'u, 'p) machine) run" where
  "load_user hw hart va m = run_bind (user_access hw hart False va m) (\<lambda>(pa, m). ret (mem (kern m) pa, m))"

definition store_user :: "('d, 'n, 'u, 'p) hw \<Rightarrow> nat \<Rightarrow> u64 \<Rightarrow> u8 \<Rightarrow> ('d, 'n, 'u, 'p) machine \<Rightarrow>
    ('d, ('d, 'n, 'u, 'p) machine) run" where
  "store_user hw hart va c m = run_bind (user_access hw hart True va m)
     (\<lambda>(pa, m). ret (m\<lparr>kern := kern m\<lparr>mem := (mem (kern m))(pa := c)\<rparr>\<rparr>))"

text \<open>\<^verbatim>\<open>copy_path\<close>: the bytes before the zero, at most \<^verbatim>\<open>max - 1\<close> of them. \<open>n\<close> is the room left.\<close>

fun copy_loop_path :: "('d, 'n, 'u, 'p) hw \<Rightarrow> nat \<Rightarrow> nat \<Rightarrow> u64 \<Rightarrow> ('d, 'n, 'u, 'p) machine \<Rightarrow>
    ('d, u8 list \<times> ('d, 'n, 'u, 'p) machine) run" where
  "copy_loop_path hw hart 0 u m = ret ([], m)"
| "copy_loop_path hw hart (Suc n) u m =
     run_bind (load_user hw hart u m) (\<lambda>(c, m).
       if c = 0 then ret ([], m)
       else run_bind (copy_loop_path hw hart n (u + 1) m) (\<lambda>(cs, m). ret (c # cs, m)))"

definition copy_path :: "('d, 'n, 'u, 'p) hw \<Rightarrow> nat \<Rightarrow> u64 \<Rightarrow> nat \<Rightarrow> ('d, 'n, 'u, 'p) machine \<Rightarrow>
    ('d, u8 list \<times> ('d, 'n, 'u, 'p) machine) run" where
  "copy_path hw hart uptr mx m = copy_loop_path hw hart (mx - 1) uptr m"

fun store_bytes :: "('d, 'n, 'u, 'p) hw \<Rightarrow> nat \<Rightarrow> u64 \<Rightarrow> u8 list \<Rightarrow> ('d, 'n, 'u, 'p) machine \<Rightarrow>
    ('d, ('d, 'n, 'u, 'p) machine) run" where
  "store_bytes hw hart u [] m = ret m"
| "store_bytes hw hart u (c # cs) m = run_bind (store_user hw hart u c m) (store_bytes hw hart (u + 1) cs)"

section \<open>The trap frame\<close>

definition FR_a0 :: u64 where "FR_a0 = 64"
definition FR_a1 :: u64 where "FR_a1 = 72"
definition FR_a7 :: u64 where "FR_a7 = 120"
definition FR_sepc :: u64 where "FR_sepc = 240"

text \<open>\<^verbatim>\<open>kernelvec\<close> has just written the frame, so its page is mapped.\<close>

definition frame_pa :: "nat \<Rightarrow> u64 \<Rightarrow> u64 \<Rightarrow> ('d, 'n, 'u, 'p) machine \<Rightarrow> u64" where
  "frame_pa hart f off m = user_addr (mem (kern m)) (the (cur_pt hart m)) (f + off)"

definition get_reg :: "nat \<Rightarrow> u64 \<Rightarrow> u64 \<Rightarrow> ('d, 'n, 'u, 'p) machine \<Rightarrow> u64" where
  "get_reg hart f off m = ld64 (mem (kern m)) (frame_pa hart f off m)"

definition set_reg :: "nat \<Rightarrow> u64 \<Rightarrow> u64 \<Rightarrow> u64 \<Rightarrow> ('d, 'n, 'u, 'p) machine \<Rightarrow> ('d, 'n, 'u, 'p) machine" where
  "set_reg hart f off v m = m\<lparr>kern := kern m\<lparr>mem := st64 (mem (kern m)) (frame_pa hart f off m) v\<rparr>\<rparr>"

section \<open>The calls\<close>

definition SYS_putchar :: u64 where "SYS_putchar = 1"
definition SYS_print :: u64 where "SYS_print = 2"
definition SYS_tick :: u64 where "SYS_tick = 3"
definition SYS_exit :: u64 where "SYS_exit = 4"
definition SYS_fork :: u64 where "SYS_fork = 5"
definition SYS_exec :: u64 where "SYS_exec = 6"
definition SYS_read :: u64 where "SYS_read = 7"
definition SYS_wait :: u64 where "SYS_wait = 8"
definition SYS_ls :: u64 where "SYS_ls = 9"
definition SYS_cat :: u64 where "SYS_cat = 10"
definition SYS_mem :: u64 where "SYS_mem = 11"
definition SYS_sbrk :: u64 where "SYS_sbrk = 12"
definition SYS_mmap :: u64 where "SYS_mmap = 13"
definition SYS_create :: u64 where "SYS_create = 14"
definition SYS_rm :: u64 where "SYS_rm = 15"
definition SYS_tcp :: u64 where "SYS_tcp = 16"

lemmas SYS_defs = SYS_putchar_def SYS_print_def SYS_tick_def SYS_exit_def SYS_fork_def SYS_exec_def SYS_read_def SYS_wait_def
  SYS_ls_def SYS_cat_def SYS_mem_def SYS_sbrk_def SYS_mmap_def SYS_create_def SYS_rm_def SYS_tcp_def

text \<open>
  How a trap ends: back to the interrupted code; the process has exited, sleeps or has yielded and the
  scheduler goes on; a new program is entered; the hart stops for good.
\<close>

datatype 'm outcome = Back 'm | Exited 'm | Asleep_now 'm | Yielded_now 'm | Entered uentry 'm | Halted 'm

definition sys_mem_text :: "u64 \<Rightarrow> u8 list" where
  "sys_mem_text n = puts_bytes (bytes_of ''free pages: '') @ dec_bytes n @ puts_bytes (bytes_of ''  (~'') @
     dec_bytes (n * 4096 div 1024 div 1024) @ puts_bytes (bytes_of '' MB)\<newline>'')"

text \<open>The calls that change the process or wait, for the running process \<open>i\<close>.\<close>

definition sys_fork :: "('d, 'n, 'u, 'p) hw \<Rightarrow> nat \<Rightarrow> u64 \<Rightarrow> ('d, 'n, 'u, 'p) machine \<Rightarrow> ('d, ('d, 'n, 'u, 'p) machine outcome) run" where
  "sys_fork hw hart f m =
     (case proc_fork (syms hw) hart f (kern m) of
        None \<Rightarrow> None
      | Some (r, k) \<Rightarrow> ret (Back (set_reg hart f FR_a0 (of_int r) (flush (m\<lparr>kern := k\<rparr>)))))"

definition sys_exec :: "('d, 'n, 'u, 'p) hw \<Rightarrow> nat \<Rightarrow> u64 \<Rightarrow> u64 \<Rightarrow> ('d, 'n, 'u, 'p) machine \<Rightarrow> ('d, ('d, 'n, 'u, 'p) machine outcome) run" where
  "sys_exec hw hart st0 f m =
     run_bind (copy_path hw hart (get_reg hart f FR_a0 m) 64 m) (\<lambda>(path, m).
     run_bind (proc_exec (syms hw) (blk hw) hart st0 path (files m) (kern m)) (\<lambda>(r, fl, k).
       let m = flush (m\<lparr>files := fl, kern := k\<rparr>) in
       ret (case r of None \<Rightarrow> Back (set_reg hart f FR_a0 (-1) m) | Some u \<Rightarrow> Entered u m)))"

definition sys_read :: "('d, 'n, 'u, 'p) hw \<Rightarrow> nat \<Rightarrow> nat \<Rightarrow> u8 list list \<Rightarrow> u64 \<Rightarrow> ('d, 'n, 'u, 'p) machine \<Rightarrow>
    ('d, ('d, 'n, 'u, 'p) machine outcome) run" where
  "sys_read hw hart i naps f m =
     (let dst = get_reg hart f FR_a0 m; n = sint (ucast (get_reg hart f FR_a1 m) :: u32) in
      case console_read (uart_rd hw) (uart_wr hw) n naps (cons m) of
        None \<Rightarrow> None
      | Some (Returned r bs c) \<Rightarrow>
          run_bind (store_bytes hw hart dst bs (m\<lparr>cons := c\<rparr>)) (\<lambda>m. ret (Back (set_reg hart f FR_a0 (of_int r) m)))
      | Some (Asleep bs c) \<Rightarrow>
          run_bind (store_bytes hw hart dst bs (m\<lparr>cons := c\<rparr>)) (\<lambda>m. ret (Asleep_now (m\<lparr>kern := sleep_on i In_chan (kern m)\<rparr>))))"

definition sys_wait :: "nat \<Rightarrow> nat \<Rightarrow> u64 \<Rightarrow> ('d, 'n, 'u, 'p) machine \<Rightarrow> ('d, ('d, 'n, 'u, 'p) machine outcome) run" where
  "sys_wait hart i f m =
     (case wait_scan i (kern m) of
        None \<Rightarrow> None
      | Some (Reaped n, k) \<Rightarrow> ret (Back (set_reg hart f FR_a0 (of_int n) (m\<lparr>kern := k\<rparr>)))
      | Some (No_children, k) \<Rightarrow> ret (Back (set_reg hart f FR_a0 (-1) (m\<lparr>kern := k\<rparr>)))
      | Some (Must_sleep, k) \<Rightarrow> ret (Asleep_now (m\<lparr>kern := sleep_on i (Proc_chan i) k\<rparr>)))"

text \<open>The calls on files.\<close>

definition sys_mmap :: "('d, 'n, 'u, 'p) hw \<Rightarrow> nat \<Rightarrow> u64 \<Rightarrow> ('d, 'n, 'u, 'p) machine \<Rightarrow> ('d, ('d, 'n, 'u, 'p) machine outcome) run" where
  "sys_mmap hw hart f m =
     run_bind (copy_path hw hart (get_reg hart f FR_a0 m) 64 m) (\<lambda>(path, m).
       case proc_mmap hart path (files m) (kern m) of
         None \<Rightarrow> None
       | Some (r, k) \<Rightarrow> ret (Back (set_reg hart f FR_a0 r (m\<lparr>kern := k\<rparr>))))"

definition sys_cat :: "('d, 'n, 'u, 'p) hw \<Rightarrow> nat \<Rightarrow> u64 \<Rightarrow> ('d, 'n, 'u, 'p) machine \<Rightarrow> ('d, ('d, 'n, 'u, 'p) machine outcome) run" where
  "sys_cat hw hart f m =
     run_bind (copy_path hw hart (get_reg hart f FR_a0 m) 64 m) (\<lambda>(path, m).
     run_bind (Some (fs_cat (blk hw) path (files m))) (\<lambda>fl. ret (Back (set_reg hart f FR_a0 0 (flush (m\<lparr>files := fl\<rparr>))))))"

definition sys_create :: "('d, 'n, 'u, 'p) hw \<Rightarrow> nat \<Rightarrow> u64 \<Rightarrow> ('d, 'n, 'u, 'p) machine \<Rightarrow> ('d, ('d, 'n, 'u, 'p) machine outcome) run" where
  "sys_create hw hart f m =
     run_bind (copy_path hw hart (get_reg hart f FR_a0 m) 64 m) (\<lambda>(nm, m).
     run_bind (copy_path hw hart (get_reg hart f FR_a1 m) 256 m) (\<lambda>(data, m).
     run_bind (Some (fs_create (blk hw) nm data (int (length data)) (files m))) (\<lambda>(r, fl).
       ret (Back (set_reg hart f FR_a0 (of_int r) (flush (m\<lparr>files := fl\<rparr>)))))))"

definition sys_rm :: "('d, 'n, 'u, 'p) hw \<Rightarrow> nat \<Rightarrow> u64 \<Rightarrow> ('d, 'n, 'u, 'p) machine \<Rightarrow> ('d, ('d, 'n, 'u, 'p) machine outcome) run" where
  "sys_rm hw hart f m =
     run_bind (copy_path hw hart (get_reg hart f FR_a0 m) 64 m) (\<lambda>(nm, m).
     run_bind (Some (fs_delete (blk hw) nm (files m))) (\<lambda>(r, fl).
       ret (Back (set_reg hart f FR_a0 (of_int r) (flush (m\<lparr>files := fl\<rparr>))))))"

text \<open>
  The dispatch. An \<^verbatim>\<open>ecall\<close> from user mode always has a current process, whose table is in \<^verbatim>\<open>satp\<close>.
  \<open>st0\<close> is the value of \<^verbatim>\<open>sstatus\<close>; \<open>naps\<close> is the input that arrives while \<^verbatim>\<open>console_read\<close> sleeps, one
  entry for each time the scheduler looks at the process (theory \<open>Console\<close>).
\<close>

definition syscall :: "('d, 'n, 'u, 'p) hw \<Rightarrow> nat \<Rightarrow> u64 \<Rightarrow> u8 list list \<Rightarrow> u64 \<Rightarrow> ('d, 'n, 'u, 'p) machine \<Rightarrow>
    ('d, ('d, 'n, 'u, 'p) machine outcome) run" where
  "syscall hw hart st0 naps f m =
     (let a0 = get_reg hart f FR_a0 m; a7 = get_reg hart f FR_a7 m; done1 = (\<lambda>v m. ret (Back (set_reg hart f FR_a0 v m))) in
      case current_proc hart (kern m) of
        None \<Rightarrow> None
      | Some i \<Rightarrow>
         if a7 = SYS_putchar then done1 0 (print [ucast a0] m)
         else if a7 = SYS_print then
           done1 0 (if a0 \<noteq> 0 then say ''  [parent] fork() returned a child; we are two now.\<newline>'' m
                    else say ''  [child]  hello -- I was created by fork().\<newline>'' m)
         else if a7 = SYS_tick then
           ret (Back (m\<lparr>kern := set_proc i (proc_at i (kern m)\<lparr>counter := counter (proc_at i (kern m)) + 1\<rparr>) (kern m)\<rparr>))
         else if a7 = SYS_exit then ret (Exited (m\<lparr>kern := proc_exit i (kern m)\<rparr>))
         else if a7 = SYS_fork then sys_fork hw hart f m
         else if a7 = SYS_exec then sys_exec hw hart st0 f m
         else if a7 = SYS_read then sys_read hw hart i naps f m
         else if a7 = SYS_wait then sys_wait hart i f m
         else if a7 = SYS_ls then done1 0 (flush (m\<lparr>files := fs_ls (files m)\<rparr>))
         else if a7 = SYS_sbrk then
           (case proc_sbrk hart (sint (ucast a0 :: u32)) (kern m) of None \<Rightarrow> None | Some (v, k) \<Rightarrow> done1 v (m\<lparr>kern := k\<rparr>))
         else if a7 = SYS_mmap then sys_mmap hw hart f m
         else if a7 = SYS_mem then done1 0 (print (sys_mem_text (kfreecount (kern m))) m)
         else if a7 = SYS_cat then sys_cat hw hart f m
         else if a7 = SYS_create then sys_create hw hart f m
         else if a7 = SYS_rm then sys_rm hw hart f m
         else if a7 = SYS_tcp then
           (case net_tcp_demo (card hw) (nets m) of None \<Rightarrow> None | Some n \<Rightarrow> done1 0 (flush (m\<lparr>nets := n\<rparr>)))
         else done1 (-1) (say ''[syscall] unknown number\<newline>'' m))"

end
