(* ===== verification/Trap.thy ===== *)
theory Trap
  imports Syscall
begin

text \<open>
  \<^verbatim>\<open>src/src/trap.c\<close> and \<^verbatim>\<open>src/src/plic.c\<close>: interrupts, system calls, page faults and exceptions. The
  interrupt controller is a device with memory-mapped registers, read and written through the
  parameters \<open>plic_rd\<close> and \<open>plic_wr\<close> of the hardware.
\<close>

section \<open>The interrupt controller\<close>

definition UART0_IRQ :: u32 where "UART0_IRQ = 10"
definition PLIC_PRIORITY :: u64 where "PLIC_PRIORITY = PLIC + 0"
definition PLIC_SENABLE :: "u64 \<Rightarrow> u64" where "PLIC_SENABLE h = PLIC + 0x2080 + h * 0x100"
definition PLIC_STHRESHOLD :: "u64 \<Rightarrow> u64" where "PLIC_STHRESHOLD h = PLIC + 0x201000 + h * 0x2000"
definition PLIC_SCLAIM :: "u64 \<Rightarrow> u64" where "PLIC_SCLAIM h = PLIC + 0x201004 + h * 0x2000"

definition plic_init :: "('d, 'n, 'u, 'p) hw \<Rightarrow> 'p \<Rightarrow> 'p" where
  "plic_init hw p = plic_wr hw (PLIC_PRIORITY + ucast UART0_IRQ * 4) 1 p"

definition plic_init_hart :: "('d, 'n, 'u, 'p) hw \<Rightarrow> 'p \<Rightarrow> 'p" where
  "plic_init_hart hw p =
     (let hart = 0; p = plic_wr hw (PLIC_SENABLE hart) (push_bit (unat UART0_IRQ) 1) p
      in plic_wr hw (PLIC_STHRESHOLD hart) 0 p)"

definition plic_claim :: "('d, 'n, 'u, 'p) hw \<Rightarrow> 'p \<Rightarrow> int \<times> 'p" where
  "plic_claim hw p = (case plic_rd hw (PLIC_SCLAIM 0) p of (v, p) \<Rightarrow> (sint v, p))"

definition plic_complete :: "('d, 'n, 'u, 'p) hw \<Rightarrow> int \<Rightarrow> 'p \<Rightarrow> 'p" where
  "plic_complete hw irq p = plic_wr hw (PLIC_SCLAIM 0) (of_int irq) p"

section \<open>Setting up a hart\<close>

definition TIMER_INTERVAL :: u64 where "TIMER_INTERVAL = 1000000"
definition SIE_STIE :: u64 where "SIE_STIE = push_bit 5 1"
definition SIE_SEIE :: u64 where "SIE_SEIE = push_bit 9 1"

record hart_csr =
  stvec :: u64
  sie :: u64
  sstatus_r :: u64

text \<open>\<open>kernelvec\<close> is the address of the trap vector.\<close>

definition trap_init :: "u64 \<Rightarrow> hart_csr \<Rightarrow> hart_csr" where
  "trap_init kernelvec c = c\<lparr>stvec := kernelvec, sie := sie c OR SIE_STIE OR SIE_SEIE, sstatus_r := sstatus_r c OR SSTATUS_SUM\<rparr>"

definition timer_init :: "nat \<Rightarrow> u64 \<Rightarrow> ('d, 'n, 'u, 'p) machine \<Rightarrow> ('d, 'n, 'u, 'p) machine" where
  "timer_init hart time m = m\<lparr>stimecmp := (stimecmp m)(hart := time + TIMER_INTERVAL)\<rparr>"

definition clock_ticks :: "('d, 'n, 'u, 'p) machine \<Rightarrow> u64" where
  "clock_ticks m = ticks m"

section \<open>The handler\<close>

definition SCAUSE_INTERRUPT :: u64 where "SCAUSE_INTERRUPT = push_bit 63 1"
definition SCAUSE_S_TIMER :: u64 where "SCAUSE_S_TIMER = 5"
definition SCAUSE_S_EXTERNAL :: u64 where "SCAUSE_S_EXTERNAL = 9"
definition SCAUSE_U_ECALL :: u64 where "SCAUSE_U_ECALL = 8"
definition SCAUSE_LOAD_FAULT :: u64 where "SCAUSE_LOAD_FAULT = 13"
definition SCAUSE_STORE_FAULT :: u64 where "SCAUSE_STORE_FAULT = 15"

lemmas SCAUSE_defs = SCAUSE_INTERRUPT_def SCAUSE_S_TIMER_def SCAUSE_S_EXTERNAL_def SCAUSE_U_ECALL_def SCAUSE_LOAD_FAULT_def
  SCAUSE_STORE_FAULT_def

text \<open>What the hardware leaves in its registers at the trap.\<close>

record trap_csr =
  scause :: u64
  sepc_r :: u64
  stval :: u64
  time_r :: u64
  status_r :: u64

definition timer_intr :: "nat \<Rightarrow> u64 \<Rightarrow> ('d, 'n, 'u, 'p) machine \<Rightarrow> ('d, 'n, 'u, 'p) machine outcome" where
  "timer_intr hart time m =
     (let m = m\<lparr>ticks := ticks m + 1, stimecmp := (stimecmp m)(hart := time + TIMER_INTERVAL)\<rparr> in
      case current_proc hart (kern m) of
        None \<Rightarrow> Back m
      | Some i \<Rightarrow> Yielded_now (m\<lparr>kern := yield_proc i (kern m)\<rparr>))"

text \<open>
  \<^verbatim>\<open>uart_intr\<close> calls \<^verbatim>\<open>wakeup(&inbuf)\<close> for each newline; \<open>wakes\<close> counts them and once has the effect of many.
\<close>

definition uart_deliver :: "('d, 'n, 'u, 'p) hw \<Rightarrow> ('d, 'n, 'u, 'p) machine \<Rightarrow> ('d, 'n, 'u, 'p) machine option" where
  "uart_deliver hw m =
     map_option (\<lambda>c. m\<lparr>cons := c, kern := (if wakes (cons m) < wakes c then wakeup In_chan (kern m) else kern m)\<rparr>)
       (uart_intr (uart_rd hw) (uart_wr hw) (cons m))"

definition external_intr :: "('d, 'n, 'u, 'p) hw \<Rightarrow> ('d, 'n, 'u, 'p) machine \<Rightarrow> ('d, 'n, 'u, 'p) machine option" where
  "external_intr hw m =
     (case plic_claim hw (plics m) of (irq, p) \<Rightarrow>
        let m = m\<lparr>plics := p\<rparr> in
        Option.bind (if irq = sint UART0_IRQ then uart_deliver hw m else Some m) (\<lambda>m.
          Some (if irq \<noteq> 0 then m\<lparr>plics := plic_complete hw irq (plics m)\<rparr> else m)))"

definition exception_text :: "trap_csr \<Rightarrow> u8 list" where
  "exception_text c = puts_bytes (bytes_of ''[trap] EXCEPTION  scause='') @ hex_bytes (scause c) @
     puts_bytes (bytes_of ''  sepc='') @ hex_bytes (sepc_r c) @ puts_bytes (bytes_of ''  stval='') @ hex_bytes (stval c) @ [10]"

definition ecall :: "('d, 'n, 'u, 'p) hw \<Rightarrow> nat \<Rightarrow> u64 \<Rightarrow> u8 list list \<Rightarrow> u64 \<Rightarrow> ('d, 'n, 'u, 'p) machine \<Rightarrow>
    ('d, ('d, 'n, 'u, 'p) machine outcome) run" where
  "ecall hw hart st0 naps f m =
     run_bind (syscall hw hart st0 naps f m) (\<lambda>r.
       ret (case r of Back m \<Rightarrow> Back (set_reg hart f FR_sepc (get_reg hart f FR_sepc m + 4) m) | _ \<Rightarrow> r))"

definition fault :: "('d, 'n, 'u, 'p) hw \<Rightarrow> nat \<Rightarrow> trap_csr \<Rightarrow> ('d, 'n, 'u, 'p) machine \<Rightarrow>
    ('d, bool \<times> ('d, 'n, 'u, 'p) machine) run" where
  "fault hw hart c m =
     (if scause c = SCAUSE_LOAD_FAULT \<or> scause c = SCAUSE_STORE_FAULT
      then run_bind (proc_pagefault (blk hw) hart (stval c) (scause c = SCAUSE_STORE_FAULT) (files m) (kern m))
             (\<lambda>(b, fl, k). ret (b, flush (m\<lparr>files := fl, kern := k\<rparr>)))
      else ret (False, m))"

definition kerneltrap :: "('d, 'n, 'u, 'p) hw \<Rightarrow> nat \<Rightarrow> trap_csr \<Rightarrow> u8 list list \<Rightarrow> u64 \<Rightarrow> ('d, 'n, 'u, 'p) machine \<Rightarrow>
    ('d, ('d, 'n, 'u, 'p) machine outcome) run" where
  "kerneltrap hw hart c naps f m =
     (let cause = scause c in
      if cause AND SCAUSE_INTERRUPT \<noteq> 0 then
        let code = cause AND 0xff in
        if code = SCAUSE_S_TIMER then ret (timer_intr hart (time_r c) m)
        else if code = SCAUSE_S_EXTERNAL then (case external_intr hw m of None \<Rightarrow> None | Some m \<Rightarrow> ret (Back m))
        else ret (Back (print (puts_bytes (bytes_of ''[trap] unknown interrupt, scause='') @ hex_bytes cause @ [10]) m))
      else if cause = SCAUSE_U_ECALL then ecall hw hart (status_r c) naps f m
      else run_bind (fault hw hart c m) (\<lambda>(handled, m).
             ret (if handled then Back m else Halted (print (exception_text c) m))))"

end
