(* ===== verification/TrapThms.thy ===== *)
theory TrapThms
  imports Trap
begin

text \<open>
  What a trap leaves behind: the saved registers after a system call, the retried access after a page fault, and the
  strings that system calls copy from user memory.
\<close>

section \<open>Frames\<close>

definition frame_page :: "nat \<Rightarrow> u64 \<Rightarrow> ('d, 'n, 'u, 'p) machine \<Rightarrow> u64" where
  "frame_page hart f m = PTE2PA (leaf (mem (kern m)) 2 (the (cur_pt hart m)) f)"

text \<open>
  The frame lies within one page, is aligned, and its physical page is RAM and none of the tables'
  own pages.
\<close>

definition frame_ok :: "nat \<Rightarrow> u64 \<Rightarrow> ('d, 'n, 'u, 'p) machine \<Rightarrow> bool" where
  "frame_ok hart f m \<longleftrightarrow> cur_pt hart m \<noteq> None \<and> wf_tab (mem (kern m)) 2 (the (cur_pt hart m)) \<and> 8 dvd unat f \<and>
     unat f mod 4096 + 256 \<le> 4096 \<and> ram_page (frame_page hart f m) \<and> frame_page hart f m \<notin> tabs (mem (kern m)) 2 (the (cur_pt hart m))"

text \<open>Register number \<open>k\<close> of the frame.\<close>

definition nth_reg :: "nat \<Rightarrow> u64" where
  "nth_reg k = of_nat (8 * k)"

lemma page_offset_mod: "(x :: u64) AND 0xfff = of_nat (unat x mod 4096)"
proof -
  have "x AND 0xfff = take_bit 12 x" by (simp add: take_bit_eq_mask mask_eq_exp_minus_1)
  also have "\<dots> = of_nat (unat (take_bit 12 x))" by simp
  also have "unat (take_bit 12 x) = unat x mod 4096" by (simp add: take_bit_eq_mod unat_mod)
  finally show ?thesis .
qed

lemma page_split_add:
  assumes "(a :: nat) mod 4096 + b < 4096"
  shows "(a + b) div 4096 = a div 4096" "(a + b) mod 4096 = a mod 4096 + b"
proof -
  have "a + b = 4096 * (a div 4096) + (a mod 4096 + b)" by simp
  then show "(a + b) div 4096 = a div 4096" "(a + b) mod 4096 = a mod 4096 + b"
    using assms by (metis div_mult_self4 div_less add_0_right zero_neq_numeral, metis mod_mult_self4 mod_less)
qed

lemma unat_add_page:
  assumes "unat (f :: u64) mod 4096 + b < 4096"
  shows "unat (f + of_nat b) = unat f + b"
proof -
  have "unat f + b < 2 ^ 64"
  proof -
    have "unat f div 4096 < 2 ^ 52" using unsigned_less [of f, where 'a = nat] by (simp add: less_mult_imp_div_less)
    then have "4096 * (unat f div 4096) + 4096 \<le> 2 ^ 64" by simp
    moreover have "unat f + b = 4096 * (unat f div 4096) + (unat f mod 4096 + b)" by simp
    ultimately show ?thesis using assms by linarith
  qed
  moreover have "unat (of_nat b :: u64) = b" using assms by (simp add: unat_of_nat)
  ultimately show ?thesis by (simp add: unat_word_ariths)
qed

lemma frame_pa_eq:
  assumes "unat f mod 4096 + 256 \<le> 4096" "k < 32"
  shows "frame_pa hart f (nth_reg k) m = frame_page hart f m + of_nat (unat f mod 4096 + 8 * k)"
proof -
  have b: "unat f mod 4096 + 8 * k < 4096" using assms by linarith
  note u = unat_add_page [OF b, folded nth_reg_def]
  have "vpn (f + nth_reg k) = vpn f" unfolding vpn_def u page_split_add(1) [OF b] ..
  then have "leaf (mem (kern m)) 2 (the (cur_pt hart m)) (f + nth_reg k) = leaf (mem (kern m)) 2 (the (cur_pt hart m)) f" by (rule leaf_vpn)
  then show ?thesis
    unfolding frame_pa_def user_addr_def frame_page_def page_offset_mod u page_split_add(2) [OF b] by simp
qed

lemma frame_addr:
  assumes "frame_ok hart f m" "k < 32"
  shows "take_bit 3 (frame_pa hart f (nth_reg k) m) = 0" "page_no (frame_pa hart f (nth_reg k) m) = page_no (frame_page hart f m)"
    "j < 32 \<Longrightarrow> j \<noteq> k \<Longrightarrow> frame_pa hart f (nth_reg j) m \<noteq> frame_pa hart f (nth_reg k) m"
proof -
  let ?p = "frame_page hart f m"
  have f: "8 dvd unat f" "unat f mod 4096 + 256 \<le> 4096" and p: "ram_page ?p" using assms(1) by (simp_all add: frame_ok_def)
  note e = frame_pa_eq [OF f(2)]
  have al: "4096 dvd unat ?p" using ram_page_aligned [OF p] by (simp add: aligned_iff_dvd)
  have u: "unat (?p + of_nat (unat f mod 4096 + 8 * i)) = unat ?p + (unat f mod 4096 + 8 * i)" if "i < 32" for i
    by (rule unat_add_page) (use al f(2) that in \<open>auto simp: dvd_eq_mod_eq_0\<close>)
  have "8 dvd unat ?p" using al by (rule dvd_trans [rotated]) simp
  moreover have "8 dvd unat f mod 4096" using f(1) by (simp add: dvd_mod)
  ultimately show "take_bit 3 (frame_pa hart f (nth_reg k) m) = 0" unfolding e [OF assms(2)] aligned_iff_dvd u [OF assms(2)] by simp
  have "unat f mod 4096 + 8 * k < 4096" using f(2) assms(2) by linarith
  then have "unat (of_nat (unat f mod 4096 + 8 * k) :: u64) < 2 ^ 12" by (simp only: unat_of_nat) simp
  then have "unat (?p + of_nat (unat f mod 4096 + 8 * k) - ?p) < 2 ^ 12" by simp
  then show "page_no (frame_pa hart f (nth_reg k) m) = page_no ?p"
    unfolding e [OF assms(2)] using aligned_range [OF ram_page_aligned [OF p], of "?p + of_nat (unat f mod 4096 + 8 * k)"] by simp
  show "frame_pa hart f (nth_reg j) m \<noteq> frame_pa hart f (nth_reg k) m" if "j < 32" "j \<noteq> k"
  proof
    assume "frame_pa hart f (nth_reg j) m = frame_pa hart f (nth_reg k) m"
    then have "unat (?p + of_nat (unat f mod 4096 + 8 * j)) = unat (?p + of_nat (unat f mod 4096 + 8 * k))"
      unfolding e [OF that(1)] e [OF assms(2)] by (rule arg_cong)
    then show False using u [OF that(1)] u [OF assms(2)] that(2) by simp
  qed
qed
text \<open>Writing a register changes no other register and nothing the frame depends on.\<close>

lemma set_reg_frame:
  fixes v
  assumes "frame_ok hart f m" "k < 32"
  defines "m' \<equiv> set_reg hart f (nth_reg k) v m"
  shows "cur_pt hart m' = cur_pt hart m" "frame_page hart f m' = frame_page hart f m" "frame_ok hart f m'"
    "j < 32 \<Longrightarrow> get_reg hart f (nth_reg j) m' = (if j = k then v else get_reg hart f (nth_reg j) m)"
proof -
  let ?a = "frame_pa hart f (nth_reg k) m" and ?pt = "the (cur_pt hart m)"
  have ok: "cur_pt hart m \<noteq> None" "wf_tab (mem (kern m)) 2 ?pt" "8 dvd unat f" "unat f mod 4096 + 256 \<le> 4096"
      "ram_page (frame_page hart f m)" "frame_page hart f m \<notin> tabs (mem (kern m)) 2 ?pt"
    using assms(1) by (simp_all add: frame_ok_def)
  note A = frame_addr [OF assms(1,2)]
  show c: "cur_pt hart m' = cur_pt hart m"
    by (simp add: m'_def set_reg_def cur_pt_def current_proc_def)
  have mem': "mem (kern m') = st64 (mem (kern m)) ?a v" by (simp add: m'_def set_reg_def)
  have off: "\<forall>b. page_no b \<notin> page_no ` {frame_page hart f m} \<longrightarrow> mem (kern m') b = mem (kern m) b"
    unfolding mem' using A(1,2) by (auto intro: st64_page)
  note t = other_table [OF ok(2) off]
  have t': "tabs (mem (kern m')) 2 ?pt = tabs (mem (kern m)) 2 ?pt" "wf_tab (mem (kern m')) 2 ?pt"
      "leaf (mem (kern m')) 2 ?pt x = leaf (mem (kern m)) 2 ?pt x" for x
    using t ok(5,6) by auto
  show p: "frame_page hart f m' = frame_page hart f m" by (simp add: frame_page_def c t'(3))
  show ok': "frame_ok hart f m'" using ok t'(1,2) by (simp add: frame_ok_def c p)
  show "get_reg hart f (nth_reg j) m' = (if j = k then v else get_reg hart f (nth_reg j) m)" if "j < 32"
  proof -
    have "frame_pa hart f (nth_reg j) m' = frame_pa hart f (nth_reg j) m" unfolding frame_pa_eq [OF ok(4) that] p ..
    then show ?thesis
      using A(1) A(3) [OF that] frame_addr(1) [OF assms(1) that] unfolding get_reg_def mem' by (auto simp: ld64_st64_other)
  qed
qed

text \<open>The state read by the frame: memory and the current process's table.\<close>

lemma frame_cong:
  assumes "mem (kern m') = mem (kern m)" "cur_pt hart m' = cur_pt hart m"
  shows "frame_ok hart f m' = frame_ok hart f m" "get_reg hart f off m' = get_reg hart f off m"
  using assms by (simp_all add: frame_ok_def frame_page_def get_reg_def frame_pa_def)

lemma FR_nth: "FR_a0 = nth_reg 8" "FR_a1 = nth_reg 9" "FR_a7 = nth_reg 15" "FR_sepc = nth_reg 30"
  by (simp_all add: nth_reg_def FR_a0_def FR_a1_def FR_a7_def FR_sepc_def)

section \<open>System calls that return at once\<close>

definition quick_call :: "u64 \<Rightarrow> bool" where
  "quick_call a7 \<longleftrightarrow> a7 \<notin> {SYS_exit, SYS_fork, SYS_exec, SYS_read, SYS_wait, SYS_cat, SYS_mmap, SYS_create, SYS_rm, SYS_tcp}"

definition quick_result :: "u64 \<Rightarrow> u64 \<Rightarrow> u64 \<Rightarrow> u64" where
  "quick_result a7 a0 heap = (if a7 = SYS_tick then a0 else if a7 \<in> {SYS_putchar, SYS_print, SYS_ls, SYS_mem} then 0
     else if a7 = SYS_sbrk then heap else -1)"

text \<open>The process afterwards.\<close>

definition quick_proc :: "u64 \<Rightarrow> u64 \<Rightarrow> proc \<Rightarrow> proc" where
  "quick_proc a7 a0 p = (if a7 = SYS_tick then p\<lparr>counter := counter p + 1\<rparr>
     else if a7 = SYS_sbrk \<and> 0 < sint (ucast a0 :: u32) then p\<lparr>heap_top := heap_top p + of_int (sint (ucast a0 :: u32))\<rparr> else p)"

lemma set_reg_procs [simp]: "proc_at j (kern (set_reg hart f off v m)) = proc_at j (kern m)"
  by (simp add: set_reg_def)

lemma same_frame:
  assumes "mem (kern m') = mem (kern m)" "cpu_proc (kern m') = cpu_proc (kern m)" "\<And>j. pagetable (proc_at j (kern m')) = pagetable (proc_at j (kern m))"
  shows "cur_pt hart m' = cur_pt hart m"
  using assms by (simp add: cur_pt_def current_proc_def)

lemma flush_fields [simp]: "mem (kern (flush m)) = mem (kern m)" "cpu_proc (kern (flush m)) = cpu_proc (kern m)" "proc_at j (kern (flush m)) = proc_at j (kern m)"
  by (simp_all add: flush_def proc_at_def)

lemma print_fields [simp]: "kern (print bs m) = kern m"
  by (simp add: print_def)

text \<open>
  \<open>answered v p m m2\<close>: in \<open>m2\<close> the frame of \<open>m\<close> holds \<open>v\<close> in \<^verbatim>\<open>a0\<close> and is otherwise unchanged, the calling process
  \<open>i\<close> has become \<open>p\<close>, no other process has changed.
\<close>

definition answered :: "nat \<Rightarrow> u64 \<Rightarrow> nat \<Rightarrow> u64 \<Rightarrow> proc \<Rightarrow> ('d, 'n, 'u, 'p) machine \<Rightarrow> ('d, 'n, 'u, 'p) machine \<Rightarrow> bool" where
  "answered hart f i v p m m2 \<longleftrightarrow> frame_ok hart f m2 \<and>
     (\<forall>k < 32. get_reg hart f (nth_reg k) m2 = (if k = 8 then v else get_reg hart f (nth_reg k) m)) \<and>
     (\<forall>j. proc_at j (kern m2) = (if j = i then p else proc_at j (kern m)))"

lemma answer:
  assumes "frame_ok hart f m" "mem (kern m1) = mem (kern m)" "cpu_proc (kern m1) = cpu_proc (kern m)"
    and "\<And>j. proc_at j (kern m1) = (if j = i then p else proc_at j (kern m))" "pagetable p = pagetable (proc_at i (kern m))"
  shows "answered hart f i v p m (set_reg hart f FR_a0 v m1)"
    and "v = get_reg hart f FR_a0 m \<Longrightarrow> answered hart f i v p m m1"
proof -
  have c: "cur_pt hart m1 = cur_pt hart m" by (rule same_frame) (use assms in auto)
  note F = frame_cong [OF assms(2) c]
  have ok: "frame_ok hart f m1" using F(1) assms(1) by simp
  show "answered hart f i v p m (set_reg hart f FR_a0 v m1)"
    unfolding answered_def FR_nth using set_reg_frame(3,4) [OF ok, of 8] F(2) assms(4) by simp
  show "answered hart f i v p m m1" if "v = get_reg hart f FR_a0 m"
    unfolding answered_def using ok F(2) assms(4) that by (simp add: FR_nth)
qed

lemma syscall_quick:
  assumes ok: "frame_ok hart f m" and i: "current_proc hart (kern m) = Some i" "i < length (proctable (kern m))"
    and a: "a0 = get_reg hart f FR_a0 m" "a7 = get_reg hart f FR_a7 m" "quick_call a7"
  obtains m2 where "syscall hw hart st0 naps f m = ret (Back m2)"
    "answered hart f i (quick_result a7 a0 (heap_top (proc_at i (kern m)))) (quick_proc a7 a0 (proc_at i (kern m))) m m2"
proof -
  let ?p = "proc_at i (kern m)"
  note q = a(3) [unfolded quick_call_def SYS_defs] and D = syscall_def Let_def a(1) [symmetric] a(2) [symmetric]
  note found = that
  have reply: "thesis" if "syscall hw hart st0 naps f m = ret (Back (set_reg hart f FR_a0 v m1))" "v = quick_result a7 a0 (heap_top ?p)"
      "mem (kern m1) = mem (kern m)" "cpu_proc (kern m1) = cpu_proc (kern m)"
      "\<And>j. proc_at j (kern m1) = (if j = i then quick_proc a7 a0 ?p else proc_at j (kern m))" for v m1
  proof -
    have "answered hart f i v (quick_proc a7 a0 ?p) m (set_reg hart f FR_a0 v m1)"
      by (rule answer(1) [OF ok that(3-5)]) (simp_all add: quick_proc_def)
    then show thesis using found that(1,2) by simp
  qed
  consider "a7 = SYS_putchar" | "a7 = SYS_print" | "a7 = SYS_tick" | "a7 = SYS_ls" | "a7 = SYS_sbrk" | "a7 = SYS_mem"
    | "a7 \<notin> {SYS_putchar, SYS_print, SYS_tick, SYS_ls, SYS_sbrk, SYS_mem}" by blast
  then show ?thesis
  proof cases
    case 1
    then show ?thesis by (intro reply [of 0 "print [ucast a0] m"]) (simp_all add: D i SYS_defs quick_result_def quick_proc_def)
  next
    case 2
    then show ?thesis
      by (intro reply [of 0 "if a0 \<noteq> 0 then say ''  [parent] fork() returned a child; we are two now.\<newline>'' m
          else say ''  [child]  hello -- I was created by fork().\<newline>'' m"]) (simp_all add: D i SYS_defs quick_result_def quick_proc_def)
  next
    case 3
    let ?m1 = "m\<lparr>kern := set_proc i (?p\<lparr>counter := counter ?p + 1\<rparr>) (kern m)\<rparr>"
    have "syscall hw hart st0 naps f m = ret (Back ?m1)" using 3 by (simp add: D i SYS_defs)
    moreover have "answered hart f i (quick_result a7 a0 (heap_top ?p)) (quick_proc a7 a0 ?p) m ?m1"
      using 3 i a(1) by (intro answer(2) [OF ok]) (auto simp: quick_result_def quick_proc_def SYS_defs)
    ultimately show ?thesis by (rule found)
  next
    case 4
    then show ?thesis
      by (intro reply [of 0 "flush (m\<lparr>files := fs_ls (files m)\<rparr>)"]) (simp_all add: D i SYS_defs quick_result_def quick_proc_def)
  next
    case 5
    then show ?thesis using i
      by (intro reply [of "heap_top ?p" "m\<lparr>kern := (if 0 < sint (ucast a0 :: u32)
          then set_proc i (?p\<lparr>heap_top := heap_top ?p + of_int (sint (ucast a0 :: u32))\<rparr>) (kern m) else kern m)\<rparr>"])
         (simp_all add: D proc_sbrk_def SYS_defs quick_result_def quick_proc_def)
  next
    case 6
    then show ?thesis
      by (intro reply [of 0 "print (sys_mem_text (kfreecount (kern m))) m"]) (simp_all add: D i SYS_defs quick_result_def quick_proc_def)
  next
    case 7
    then show ?thesis using q
      by (intro reply [of "-1" "say ''[syscall] unknown number\<newline>'' m"]) (simp_all add: D i SYS_defs quick_result_def quick_proc_def)
  qed
qed

text \<open>
  Claim C28. A system call that neither blocks nor touches user memory, and an unknown call number, returns to user mode:
  the handler ends normally, the saved \<^verbatim>\<open>sepc\<close> has moved past the 4-byte \<^verbatim>\<open>ecall\<close>, \<^verbatim>\<open>a0\<close> holds the result (0, the old
  break for \<^verbatim>\<open>sbrk\<close>, -1 for an unknown number, unchanged for \<^verbatim>\<open>tick\<close>) and the other thirty saved registers are as they
  were. \<^verbatim>\<open>sbrk\<close> moves the break of the caller by a positive amount and ignores any other,
  \<^verbatim>\<open>tick\<close> counts; no other process changes.
\<close>

theorem ecall_returns:
  assumes "frame_ok hart f m" "current_proc hart (kern m) = Some i" "i < length (proctable (kern m))" "scause c = SCAUSE_U_ECALL"
    and "a0 = get_reg hart f FR_a0 m" "a7 = get_reg hart f FR_a7 m" "quick_call a7"
  shows "\<exists>m'. kerneltrap hw hart c naps f m = ret (Back m') \<and>
    (\<forall>k < 32. get_reg hart f (nth_reg k) m' =
       (if k = 8 then quick_result a7 a0 (heap_top (proc_at i (kern m))) else if k = 30 then get_reg hart f FR_sepc m + 4
        else get_reg hart f (nth_reg k) m)) \<and>
    (\<forall>j. proc_at j (kern m') = (if j = i then quick_proc a7 a0 (proc_at i (kern m)) else proc_at j (kern m)))"
proof -
  obtain m2 where s: "syscall hw hart (status_r c) naps f m = ret (Back m2)"
      "answered hart f i (quick_result a7 a0 (heap_top (proc_at i (kern m)))) (quick_proc a7 a0 (proc_at i (kern m))) m m2"
    by (rule syscall_quick [OF assms(1-3,5-7)])
  have ok: "frame_ok hart f m2" and r: "\<And>k. k < 32 \<Longrightarrow> get_reg hart f (nth_reg k) m2 =
      (if k = 8 then quick_result a7 a0 (heap_top (proc_at i (kern m))) else get_reg hart f (nth_reg k) m)"
    using s(2) by (auto simp: answered_def)
  let ?m = "set_reg hart f FR_sepc (get_reg hart f FR_sepc m2 + 4) m2"
  have "kerneltrap hw hart c naps f m = ret (Back ?m)" using s(1) assms(4) by (simp add: kerneltrap_def ecall_def SCAUSE_defs)
  moreover have "get_reg hart f (nth_reg k) ?m = (if k = 8 then quick_result a7 a0 (heap_top (proc_at i (kern m)))
      else if k = 30 then get_reg hart f FR_sepc m + 4 else get_reg hart f (nth_reg k) m)" if "k < 32" for k
    using set_reg_frame(4) [OF ok, of 30 k] that r [of 30] r [OF that] by (auto simp: FR_nth)
  ultimately show ?thesis using s(2) by (auto simp: answered_def)
qed

definition lab_task :: "kvm \<Rightarrow> kproc" where
  "lab_task s = kvm.extend s \<lparr>proctable = [\<lparr>state = RUNNING, ctx = zero_context, kstack = 0, fn = 0, counter = 0, pname = replicate 8 0,
       pagetable = lab_P, is_user = True, pid = 1, ucode = 0, ustack = 0, chan = No_chan, parent = None, tf_va = 0,
       heap_top = HEAPBASE + 0x1000, mmap_base = 0, mmap_start = 0, mmap_size = 0\<rparr>],
     cpu_proc = (\<lambda>h. Some 0), next_pid = 2\<rparr>"

definition lab_machine :: "kvm \<Rightarrow> unit fs \<Rightarrow> unit net \<Rightarrow> unit console \<Rightarrow> (unit, unit, unit, unit) machine" where
  "lab_machine s fl n c = \<lparr>kern = lab_task s, files = fl, nets = n, cons = c, plics = (), ticks = 0, stimecmp = (\<lambda>_. 0), tty = []\<rparr>"

lemma lab_machine_frame:
  assumes h: "lab_heap s xs"
  shows "frame_ok 0 0x10100 (lab_machine s fl n c)"
proof -
  have c: "cur_pt 0 (lab_machine s fl n c) = Some lab_P" "mem (kern (lab_machine s fl n c)) = mem s"
    by (simp_all add: lab_machine_def lab_task_def cur_pt_def current_proc_def proc_at_def kvm.defs)
  have "leaf (mem s) 2 lab_P 0x10100 = leaf (mem s) 2 lab_P 0x10123" by (rule leaf_vpn) (simp add: vpn_def)
  then have p: "frame_page 0 0x10100 (lab_machine s fl n c) = lab_D" using lab_share_premises(5) [OF h] by (simp add: frame_page_def c)
  show ?thesis using h lab_pages(5) by (simp add: frame_ok_def p c lab_heap_def owned_def)
qed

theorem ecall_returns_witness:
  "\<exists>m m'. \<forall>hw. kerneltrap hw 0 \<lparr>scause = 8, sepc_r = 0, stval = 0, time_r = 0, status_r = 0\<rparr> [] 0x10100 m = ret (Back (m' hw)) \<and>
     get_reg 0 0x10100 FR_a0 (m' hw) = 0x11000 \<and> heap_top (proc_at 0 (kern (m' hw :: (unit, unit, unit, unit) machine))) = 0x13000"
proof -
  obtain s xs where h: "lab_heap s xs" using lab_heap_exists by blast
  define m0 where "m0 = lab_machine s undefined undefined undefined"
  define m1 where "m1 = set_reg 0 0x10100 (nth_reg 15) 12 m0"
  define m where "m = set_reg 0 0x10100 (nth_reg 8) 0x2000 m1"
  have ok0: "frame_ok 0 0x10100 m0" unfolding m0_def by (rule lab_machine_frame [OF h])
  note S1 = set_reg_frame [OF ok0, where k = 15 and v = 12, folded m1_def, simplified]
  note S2 = set_reg_frame [OF S1(3), where k = 8 and v = "0x2000", folded m_def, simplified]
  have r: "get_reg 0 0x10100 FR_a7 m = 12" "get_reg 0 0x10100 FR_a0 m = 0x2000"
    using S1(4) [of 15] S2(4) [of 15] S2(4) [of 8] by (simp_all add: FR_nth)
  have t: "current_proc 0 (kern m) = Some 0" "0 < length (proctable (kern m))" "heap_top (proc_at 0 (kern m)) = 0x11000"
    by (simp_all add: m_def m1_def m0_def lab_machine_def lab_task_def set_reg_def current_proc_def proc_at_def kvm.defs HEAPBASE_def)
  have "\<exists>m'. kerneltrap hw 0 \<lparr>scause = 8, sepc_r = 0, stval = 0, time_r = 0, status_r = 0\<rparr> [] 0x10100 m = ret (Back m') \<and>
     get_reg 0 0x10100 FR_a0 m' = 0x11000 \<and> heap_top (proc_at 0 (kern m')) = 0x13000" for hw
    using ecall_returns [OF S2(3) t(1,2), of "\<lparr>scause = 8, sepc_r = 0, stval = 0, time_r = 0, status_r = 0\<rparr>" "0x2000" 12 hw "[]"] r t(3)
    by (auto simp: SCAUSE_defs quick_call_def quick_result_def quick_proc_def SYS_defs FR_nth)
  then show ?thesis by (intro exI [of _ m]) (rule choice, blast)
qed

section \<open>Page faults\<close>


text \<open>
  Demand paging works: when a user process accesses a heap address that is not mapped, and the allocator
  has at least four free pages, the trap handler returns to the faulting instruction, and now the address translates, for the access that faulted, to a page \<open>x\<close> that was free, every byte of it
  zero. The translation of every address in another page is what it was, and no process changes state.
\<close>

theorem fault_retry_succeeds:
  assumes k: "kmem_ok (kern m) (x # xs)" "2 < length xs"
    and p: "current_proc hart (kern m) = Some i" "is_user (proc_at i (kern m))" "pt = pagetable (proc_at i (kern m))" "owned 2 pt (kern m)"
    and a: "a = stval c AND NOT 0xfff" "HEAPBASE \<le> a" "a < heap_top (proc_at i (kern m))" "unat a + 4096 \<le> 2 ^ 39"
    and n: "\<not> bit (leaf (mem (kern m)) 2 pt (stval c)) 0" and c: "scause c \<in> {SCAUSE_LOAD_FAULT, SCAUSE_STORE_FAULT}"
  shows "\<exists>m'. kerneltrap hw hart c naps f m = ret (Back m') \<and>
    translate (mem (kern m')) pt (scause c = SCAUSE_STORE_FAULT) (stval c) = Some (x + (stval c AND 0xfff)) \<and>
    (\<forall>b. page_no b = page_no x \<longrightarrow> mem (kern m') b = 0) \<and>
    (\<forall>w y. vpn y \<noteq> vpn (stval c) \<longrightarrow> translate (mem (kern m')) pt w y = translate (mem (kern m)) pt w y) \<and> same_view (kern m) (kern m')"
proof -
  let ?e = "PA2PTE x OR (PTE_R OR PTE_W OR PTE_U) OR PTE_V"
  obtain b s' where f: "proc_pagefault (blk hw) hart (stval c) (scause c = SCAUSE_STORE_FAULT) (files m) (kern m) = Some (Inr (b, files m, s'))"
      "2 < length xs \<longrightarrow> b" "same_view (kern m) s'" "paged pt a x (PTE_R OR PTE_W OR PTE_U) heap_note (set_loop (mem (kern m)) x 0 4096) xs (kern m) b s'"
      "\<forall>c. page_no c = page_no x \<longrightarrow> set_loop (mem (kern m)) x 0 4096 c = 0"
    by (rule heap_fault_handled [OF k(1) p a n, where dev = "blk hw" and store = "scause c = SCAUSE_STORE_FAULT" and f = "files m"])
  have b: "b" using f(2) k(2) by simp
  have "vpn a = vpn (stval c)" unfolding a(1) by (rule page_align(2))
  then have h: "\<forall>y. leaf (mem s') 2 pt y = (if vpn y = vpn (stval c) then ?e else leaf (mem (kern m)) 2 pt y)"
      "\<forall>c. page_no c = page_no x \<longrightarrow> mem s' c = 0" using f(4,5) b by (simp_all add: paged_def paged_in_def)
  let ?m = "flush (m\<lparr>files := files m, kern := s'\<rparr>)"
  have "kerneltrap hw hart c naps f m = ret (Back ?m)"
    using f(1) b c by (auto simp: kerneltrap_def fault_def SCAUSE_defs)
  moreover have "PTE2PA ?e = x"
  proof -
    have "take_bit 12 x = 0" using k(1) by (simp add: kmem_ok_def ram_page_aligned)
    moreover have "take_bit 10 ((PTE_R OR PTE_W OR PTE_U) OR PTE_V) = (PTE_R OR PTE_W OR PTE_U) OR PTE_V"
      by (simp add: PTE_R_def PTE_W_def PTE_U_def PTE_V_def)
    ultimately show ?thesis using PTE2PA_make [of x "(PTE_R OR PTE_W OR PTE_U) OR PTE_V"] by (simp only: or.assoc)
  qed
  moreover have "bit ?e 0" "bit ?e 1" "bit ?e 2" by (simp_all add: bit_simps)
  moreover have "same_view (kern m) (kern ?m)" using f(3) by (simp add: same_view_def view_def flush_def proc_at_def)
  ultimately show ?thesis
    using h by (intro exI [of _ ?m]) (auto simp: translate_def Let_def)
qed

theorem fault_retry_succeeds_witness:
  "\<exists>m. \<forall>hw. \<exists>m' :: (unit, unit, unit, unit) machine.
     kerneltrap hw 0 \<lparr>scause = 15, sepc_r = 0, stval = 0x11234, time_r = 0, status_r = 0\<rparr> [] 0x10100 m = ret (Back m') \<and>
     translate (mem (kern m)) 0x87ff0000 True 0x11234 = None \<and> translate (mem (kern m')) 0x87ff0000 True 0x11234 = Some 0x87fff234"
proof -
  define m :: "(unit, unit, unit, unit) machine" where
    "m = \<lparr>kern = lab_user, files = undefined, nets = undefined, cons = undefined, plics = (), ticks = 0, stimecmp = (\<lambda>_. 0), tty = []\<rparr>"
  let ?c = "\<lparr>scause = 15, sepc_r = 0, stval = 0x11234, time_r = 0, status_r = 0\<rparr>"
  have P: "ram_page 0x87ff0000" "0x87ff0000 \<notin> set lab_free" by (simp_all add: ram_page_def RAMBASE_def PHYSTOP_def lab_free_def)
  have o: "owned 2 0x87ff0000 (kern m)" using lab_table(1) [OF P] by (simp add: m_def owned_def lab_user_fields)
  have k: "kmem_ok (kern m) (0x87fff000 # [0x87ffe000, 0x87ffd000, 0x87ffc000, 0x87ffb000])"
    using lab_ok by (simp add: m_def lab_user_fields lab_free_def)
  have z: "leaf (mem (kern m)) 2 0x87ff0000 0x11234 = 0" using lab_table(3) [OF P] by (simp add: m_def lab_user_fields)
  have cur: "current_proc 0 (kern m) = Some 0" "is_user (proc_at 0 (kern m))" "0x87ff0000 = pagetable (proc_at 0 (kern m))"
      "(0x11000 :: u64) = stval ?c AND NOT 0xfff" "HEAPBASE \<le> 0x11000" "0x11000 < heap_top (proc_at 0 (kern m))"
      "unat (0x11000 :: u64) + 4096 \<le> 2 ^ 39" "\<not> bit (leaf (mem (kern m)) 2 0x87ff0000 (stval ?c)) 0" "scause ?c \<in> {SCAUSE_LOAD_FAULT, SCAUSE_STORE_FAULT}"
    using z by (simp_all add: m_def current_proc_def proc_at_def lab_user_def kvm.defs HEAPBASE_def SCAUSE_defs)
  have "translate (mem (kern m)) 0x87ff0000 True 0x11234 = None" using z by (simp add: translate_def)
  then show ?thesis
    using fault_retry_succeeds [OF k _ cur(1-3) o cur(4-9), of _ "[]" "0x10100"] by (intro exI [of _ m]) (fastforce simp: SCAUSE_defs)
qed

section \<open>Strings from user memory\<close>

definition user_byte :: "memory \<Rightarrow> u64 \<Rightarrow> u64 \<Rightarrow> u8 option" where
  "user_byte m pt va = map_option m (translate m pt False va)"

lemma load_user_mapped:
  "cur_pt hart m = Some pt \<Longrightarrow> user_byte (mem (kern m)) pt u = Some c \<Longrightarrow> load_user hw hart u m = ret (c, m)"
  by (auto simp: load_user_def user_access_def user_byte_def)

lemma copy_loop_path_bounds:
  "copy_loop_path hw hart n u m = ret (t, m') \<Longrightarrow> length t \<le> n \<and> 0 \<notin> set t"
proof (induction n arbitrary: u m t)
  case (Suc n)
  then show ?case
    by (auto simp: run_bind_def split: option.splits sum.splits if_splits prod.splits)
qed simp

lemma copy_loop_path_mapped:
  assumes "cur_pt hart m = Some pt" "0 \<notin> set s" "\<And>j. j < length s \<Longrightarrow> user_byte (mem (kern m)) pt (u + of_nat j) = Some (s ! j)"
    and "length s < n \<Longrightarrow> user_byte (mem (kern m)) pt (u + of_nat (length s)) = Some 0"
  shows "copy_loop_path hw hart n u m = ret (take n s, m)"
  using assms(2-)
proof (induction n arbitrary: u s)
  case (Suc n)
  show ?case
  proof (cases s)
    case Nil
    then show ?thesis using Suc.prems(3) by (simp add: load_user_mapped [OF assms(1)])
  next
    case (Cons c r)
    have c: "user_byte (mem (kern m)) pt u = Some c" "c \<noteq> 0" using Suc.prems(1) Suc.prems(2) [of 0] Cons by auto
    have "copy_loop_path hw hart n (u + 1) m = ret (take n r, m)"
    proof (rule Suc.IH)
      show "0 \<notin> set r" using Suc.prems(1) Cons by simp
      show "user_byte (mem (kern m)) pt (u + 1 + of_nat j) = Some (r ! j)" if "j < length r" for j
        using Suc.prems(2) [of "Suc j"] that Cons by (simp add: add.assoc)
      show "user_byte (mem (kern m)) pt (u + 1 + of_nat (length r)) = Some 0" if "length r < n"
        using Suc.prems(3) that Cons by (simp add: add.assoc)
    qed
    then show ?thesis using c Cons by (simp add: load_user_mapped [OF assms(1)])
  qed
qed simp

text \<open>
  Claim C29. \<^verbatim>\<open>copy_path\<close> never overruns its buffer: whatever the user passes, the string it delivers has at most \<^verbatim>\<open>max - 1\<close>
  bytes, none of them zero, so it fits with its terminator. For a string \<open>s\<close> that is mapped in the caller's
  address space together with its terminating zero it delivers the first \<^verbatim>\<open>max - 1\<close> bytes of \<open>s\<close>, and nothing else of
  the machine changes.
\<close>

theorem copy_path_correct:
  assumes "cur_pt hart m = Some pt" "0 \<notin> set s" "\<forall>j < length s. user_byte (mem (kern m)) pt (u + of_nat j) = Some (s ! j)"
    and "user_byte (mem (kern m)) pt (u + of_nat (length s)) = Some 0"
  shows "copy_path hw hart u mx m = ret (take (mx - 1) s, m) \<and>
    (\<forall>hw' u' m1 t m2. copy_path hw' hart u' mx m1 = ret (t, m2 :: ('d, 'n, 'u, 'p) machine) \<longrightarrow> length t \<le> mx - 1 \<and> 0 \<notin> set t)"
  using copy_loop_path_mapped [OF assms(1,2), of u "mx - 1" hw] assms(3,4) copy_loop_path_bounds unfolding copy_path_def by blast

theorem copy_path_correct_witness:
  "\<exists>m. \<forall>hw. copy_path hw 0 0x10140 64 m = ret ([104, 105], m :: (unit, unit, unit, unit) machine)"
proof -
  obtain s xs where h: "lab_heap s xs" using lab_heap_exists by blast
  define m0 where "m0 = lab_machine s undefined undefined undefined"
  define m where "m = set_reg 0 0x10100 (nth_reg 8) 0x6968 m0"
  have ok0: "frame_ok 0 0x10100 m0" unfolding m0_def by (rule lab_machine_frame [OF h])
  have c0: "cur_pt 0 m0 = Some lab_P" "mem (kern m0) = mem s"
    by (simp_all add: m0_def lab_machine_def lab_task_def cur_pt_def current_proc_def proc_at_def kvm.defs)
  note S = set_reg_frame(1-3) [OF ok0, where k = 8 and v = "0x6968", folded m_def, simplified]
  have lf: "leaf (mem s) 2 lab_P x = leaf (mem s) 2 lab_P 0x10123" if "vpn x = 16" for x using that by (intro leaf_vpn) (simp add: vpn_def [of "0x10123"])
  have fp: "frame_page 0 0x10100 m0 = lab_D" using lab_share_premises(5) [OF h] lf [of "0x10100"] by (simp add: frame_page_def c0 vpn_def)
  have pa: "frame_pa 0 0x10100 (nth_reg 8) m0 = 0x87ff2140" using frame_pa_eq [of "0x10100" 8 0 m0] by (simp add: fp lab_D_def)
  have mem': "mem (kern m) = st64 (mem s) 0x87ff2140 0x6968" by (simp add: m_def set_reg_def pa c0)
  have wf: "wf_tab (mem s) 2 lab_P" using h by (simp add: lab_heap_def owned_def)
  have "\<forall>a. page_no a \<notin> page_no ` {lab_D} \<longrightarrow> mem (kern m) a = mem s a" unfolding mem' by (simp add: st64_page lab_D_def)
  then have l: "leaf (mem (kern m)) 2 lab_P x = leaf (mem s) 2 lab_P x" for x
    using other_table(3) [OF wf, of "{lab_D}"] h lab_pages(5) by (simp add: lab_heap_def)
  have e: "bit (leaf (mem s) 2 lab_P 0x10123) 0" "bit (leaf (mem s) 2 lab_P 0x10123) 1" "PTE2PA (leaf (mem s) 2 lab_P 0x10123) = lab_D"
    using lab_share_premises(5,6) [OF h] h by (simp_all add: lab_heap_def vpn_def bit_simps)
  have ub: "user_byte (mem (kern m)) lab_P x = Some (mem (kern m) (0x87ff2000 + (x AND 0xfff)))" if "vpn x = 16" for x
    using e lf [OF that] by (simp add: user_byte_def translate_def l lab_D_def)
  have v: "vpn 0x10140 = 16" "vpn 0x10141 = 16" "vpn 0x10142 = 16" by (simp_all add: vpn_def)
  have "mem (kern m) 0x87ff2140 = 104" "mem (kern m) 0x87ff2141 = 105" "mem (kern m) 0x87ff2142 = 0" unfolding mem' by (simp_all add: st64_def)
  then have "user_byte (mem (kern m)) lab_P 0x10140 = Some 104" "user_byte (mem (kern m)) lab_P 0x10141 = Some 105" "user_byte (mem (kern m)) lab_P 0x10142 = Some 0"
    by (simp_all add: ub v)
  then have "copy_path hw 0 0x10140 64 m = ret (take (64 - 1) [104, 105], m)" for hw
    by (intro copy_path_correct [THEN conjunct1, of _ _ lab_P]) (auto simp: S(1) c0 less_Suc_eq)
  then show ?thesis by (intro exI [of _ m]) simp
qed

end
