(* ===== verification/FsSession.thy ===== *)
theory FsSession
  imports FsThms
begin

text \<open>
  The life of a disk: a kernel uses the file system, the power fails at any moment, also inside a call or
  during recovery, a kernel boots on the disk again. The transitions are those of the functions of
  \<^verbatim>\<open>src/src/fs.c\<close>; the specification says of each what it does to a map from names to contents.
\<close>

section \<open>Transitions\<close>

text \<open>A kernel with the disk mounted, or a disk without power.\<close>

datatype 'd power = Up "'d fs" | Down 'd

text \<open>What an observer sees: a call with its arguments and its result, a call cut short, a power failure, a mount.\<close>

datatype fs_event =
    Created "u8 list" "u8 list" int int
  | Create_cut "u8 list" "u8 list" int
  | Deleted "u8 list" int
  | Delete_cut "u8 list"
  | Fetched "u8 list" int int "nat \<Rightarrow> u8"
  | Fetch_cut "u8 list"
  | Power_off
  | Mounted
  | Mount_cut

text \<open>The size is a C \<^verbatim>\<open>int\<close> and the buffer holds that many bytes. The name may be any.\<close>

definition create_args :: "u8 list \<Rightarrow> int \<Rightarrow> bool" where
  "create_args data sz \<longleftrightarrow> sz < 2 ^ 31 \<and> sz \<le> int (length data)"

text \<open>When the power is back the device may be in another state, with the same contents.\<close>

inductive fs_step :: "'d blkdev \<Rightarrow> ('d \<Rightarrow> image) \<Rightarrow> 'd power \<Rightarrow> fs_event \<Rightarrow> 'd power \<Rightarrow> bool" for dev content where
  step_create: "create_args data sz \<Longrightarrow> fs_create dev nm data sz s = Inr (r, s') \<Longrightarrow> fs_step dev content (Up s) (Created nm data sz r) (Up s')"
| step_create_cut: "create_args data sz \<Longrightarrow> fs_create dev nm data sz s = Inl d \<Longrightarrow> fs_step dev content (Up s) (Create_cut nm data sz) (Down d)"
| step_delete: "fs_delete dev nm s = Inr (r, s') \<Longrightarrow> fs_step dev content (Up s) (Deleted nm r) (Up s')"
| step_delete_cut: "fs_delete dev nm s = Inl d \<Longrightarrow> fs_step dev content (Up s) (Delete_cut nm) (Down d)"
| step_read: "fs_read dev nm buf mx s = Inr (r, buf', s') \<Longrightarrow> fs_step dev content (Up s) (Fetched nm mx r buf') (Up s')"
| step_read_cut: "fs_read dev nm buf mx s = Inl d \<Longrightarrow> fs_step dev content (Up s) (Fetch_cut nm) (Down d)"
| step_off: "fs_step dev content (Up s) Power_off (Down (device (disk s)))"
| step_mount: "content d' = content d \<Longrightarrow> fs_init dev (boot_fs d') = Inr s \<Longrightarrow> fs_step dev content (Down d) Mounted (Up s)"
| step_mount_cut: "content d' = content d \<Longrightarrow> fs_init dev (boot_fs d') = Inl d2 \<Longrightarrow> fs_step dev content (Down d) Mount_cut (Down d2)"

inductive fs_run :: "'d blkdev \<Rightarrow> ('d \<Rightarrow> image) \<Rightarrow> 'd power \<Rightarrow> fs_event list \<Rightarrow> 'd power \<Rightarrow> bool" for dev content where
  run_nil: "fs_run dev content p [] p"
| run_cons: "fs_step dev content p e q \<Longrightarrow> fs_run dev content q es r \<Longrightarrow> fs_run dev content p (e # es) r"

inductive_cases fs_runE: "fs_run dev content p (e # es) r"

section \<open>Specification\<close>

type_synonym file_map = "u8 list \<rightharpoonup> u8 list"

text \<open>
  What each event may do to the files, and what a call may have returned. A file is stored under the first 55 bytes of the name it
  is created with.
\<close>

fun spec_step :: "fs_event \<Rightarrow> file_map \<Rightarrow> file_map \<Rightarrow> bool" where
  "spec_step (Created nm data sz r) f f' \<longleftrightarrow>
     (if r = 0 then 0 \<le> sz \<and> sz \<le> int (length data) \<and> f (take 55 (cstr nm)) = None \<and> f' = f(take 55 (cstr nm) \<mapsto> take (nat sz) data) else r = -1 \<and> f' = f)"
| "spec_step (Create_cut nm data sz) f f' \<longleftrightarrow> f' = f \<or> f (take 55 (cstr nm)) = None \<and> f' = f(take 55 (cstr nm) \<mapsto> take (nat sz) data)"
| "spec_step (Deleted nm r) f f' \<longleftrightarrow> r = (if f (cstr nm) = None then -1 else 0) \<and> f' = f(cstr nm := None)"
| "spec_step (Delete_cut nm) f f' \<longleftrightarrow> f' = f \<or> f' = f(cstr nm := None)"
| "spec_step (Fetched nm mx r buf) f f' \<longleftrightarrow> f' = f \<and>
     (case f (cstr nm) of None \<Rightarrow> r = -1
      | Some x \<Rightarrow> if int (length x) > mx then r = -1 else r = int (length x) \<and> (\<forall>k < length x. buf k = x ! k))"
| "spec_step (Fetch_cut nm) f f' \<longleftrightarrow> f' = f"
| "spec_step Power_off f f' \<longleftrightarrow> f' = f"
| "spec_step Mounted f f' \<longleftrightarrow> f' = f"
| "spec_step Mount_cut f f' \<longleftrightarrow> f' = f"

fun spec_run :: "fs_event list \<Rightarrow> file_map \<Rightarrow> file_map \<Rightarrow> bool" where
  "spec_run [] f f' \<longleftrightarrow> f' = f"
| "spec_run (e # es) f f' \<longleftrightarrow> (\<exists>g. spec_step e f g \<and> spec_run es g f')"

lemma spec_run_append: "spec_run (es @ es') f f' \<longleftrightarrow> (\<exists>g. spec_run es f g \<and> spec_run es' g f')"
  by (induction es arbitrary: f) auto

text \<open>
  The one creation that \<^verbatim>\<open>fs_create\<close> gets wrong: of a name longer than 55 bytes that is cut to the name of a file there is. The
  search for the name compares all of it, does not find the file, and the directory would get the name a second time.
  \<^term>\<open>no_clash\<close> says of a sequence of events, on files as they evolve by the specification, that this creation is not among them. Names of
  at most 55 bytes never clash, nor do longer ones that differ in their first 55 bytes.
\<close>

fun clash :: "fs_event \<Rightarrow> file_map \<Rightarrow> bool" where
  "clash (Created nm data sz r) f \<longleftrightarrow> NAMELEN \<le> length (cstr nm) \<and> f (take 55 (cstr nm)) \<noteq> None"
| "clash (Create_cut nm data sz) f \<longleftrightarrow> NAMELEN \<le> length (cstr nm) \<and> f (take 55 (cstr nm)) \<noteq> None"
| "clash e f \<longleftrightarrow> False"

fun no_clash :: "fs_event list \<Rightarrow> file_map \<Rightarrow> bool" where
  "no_clash [] f \<longleftrightarrow> True"
| "no_clash (e # es) f \<longleftrightarrow> \<not> clash e f \<and> (\<forall>g. spec_step e f g \<longrightarrow> no_clash es g)"

fun creates :: "fs_event \<Rightarrow> u8 list list" where
  "creates (Created nm data sz r) = [cstr nm]"
| "creates (Create_cut nm data sz) = [cstr nm]"
| "creates e = []"

lemma short_no_clash: "\<forall>e \<in> set es. \<forall>n \<in> set (creates e). length n < NAMELEN \<Longrightarrow> no_clash es f"
proof (induction es arbitrary: f)
  case (Cons e es)
  then have "\<not> clash e g" for g by (cases e) auto
  moreover have "no_clash es g" for g using Cons.IH [of g] Cons.prems by simp
  ultimately show ?case by simp
qed simp

text \<open>The files of a state and its soundness: mounted and consistent with the disk, or mountable.\<close>

fun power_files :: "('d \<Rightarrow> image) \<Rightarrow> 'd power \<Rightarrow> file_map" where
  "power_files content (Up s) = fs_files content s"
| "power_files content (Down d) = disk_files (recovered (content d))"

fun power_ok :: "('d \<Rightarrow> image) \<Rightarrow> nat \<Rightarrow> 'd power \<Rightarrow> bool" where
  "power_ok content cap (Up s) \<longleftrightarrow> fs_ok content cap s"
| "power_ok content cap (Down d) \<longleftrightarrow> mountable cap (content d)"

section \<open>Simulation\<close>

lemma create_sim:
  assumes dev: "blk_device dev content cap dies" and s: "fs_ok content cap s" and a: "create_args data sz"
    and c: "length (cstr nm) < NAMELEN \<or> fs_files content s (take 55 (cstr nm)) = None"
  shows "fs_create dev nm data sz s = Inr (r, s') \<Longrightarrow> fs_ok content cap s' \<and> spec_step (Created nm data sz r) (fs_files content s) (fs_files content s')"
    "fs_create dev nm data sz s = Inl d \<Longrightarrow> mountable cap (content d) \<and> spec_step (Create_cut nm data sz) (fs_files content s) (disk_files (recovered (content d)))"
proof -
  have a': "sz < 2 ^ 31" "sz \<le> int (length data)" using a by (simp_all add: create_args_def)
  have no: "fs_create dev nm data sz s = Inr (-1, s)" if "\<not> creatable content s nm sz" using not_creatable [OF s a'(1) that] .
  have yes: "io_post (\<lambda>d. dies \<and> mountable cap (content d) \<and> (disk_files (recovered (content d)) = fs_files content s \<or>
        disk_files (recovered (content d)) = (fs_files content s)(take 55 (cstr nm) \<mapsto> take (nat sz) data)))
    (\<lambda>(r, s'). r = 0 \<and> fs_ok content cap s' \<and> fs_files content s' = (fs_files content s)(take 55 (cstr nm) \<mapsto> take (nat sz) data))
    (fs_create dev nm data sz s) \<and> 0 \<le> sz \<and> fs_files content s (take 55 (cstr nm)) = None" if k: "creatable content s nm sz"
  proof -
    obtain st where "balloc_contig s (int ((nat sz + 511) div 512)) = int st" using creatable_start [OF k] by blast
    moreover have "fs_files content s (take 55 (cstr nm)) = None" using k c cut_name_short [of nm] by (auto simp: creatable_def cut_name_55)
    ultimately show ?thesis using blk_device.fs_create_ok [OF dev s, of sz data nm st] k a'(2) by (simp add: creatable_def cut_name_55)
  qed
  show "fs_create dev nm data sz s = Inr (r, s') \<Longrightarrow> fs_ok content cap s' \<and> spec_step (Created nm data sz r) (fs_files content s) (fs_files content s')"
    using no yes s a'(2) by (cases "creatable content s nm sz") auto
  show "fs_create dev nm data sz s = Inl d \<Longrightarrow> mountable cap (content d) \<and> spec_step (Create_cut nm data sz) (fs_files content s) (disk_files (recovered (content d)))"
    using no yes by (cases "creatable content s nm sz") auto
qed

lemma delete_sim:
  assumes dev: "blk_device dev content cap dies" and s: "fs_ok content cap s"
  shows "fs_delete dev nm s = Inr (r, s') \<Longrightarrow> fs_ok content cap s' \<and> spec_step (Deleted nm r) (fs_files content s) (fs_files content s')"
    "fs_delete dev nm s = Inl d \<Longrightarrow> mountable cap (content d) \<and> spec_step (Delete_cut nm) (fs_files content s) (disk_files (recovered (content d)))"
  using blk_device.fs_delete_ok [OF dev s, of nm] s by (cases "fs_files content s (cstr nm) = None"; auto simp: fun_upd_idem)+

lemma read_sim:
  assumes dev: "blk_device dev content cap dies" and s: "fs_ok content cap s"
  shows "fs_read dev nm buf mx s = Inr (r, buf', s') \<Longrightarrow> fs_ok content cap s' \<and> spec_step (Fetched nm mx r buf') (fs_files content s) (fs_files content s')"
    "fs_read dev nm buf mx s = Inl d \<Longrightarrow> mountable cap (content d) \<and> disk_files (recovered (content d)) = fs_files content s"
  using blk_device.fs_read_ok [OF dev s, where nm = nm and buf = buf and mx = mx] fs_ok_mountable [OF s]
  by (auto split: option.splits if_splits)

lemma mount_sim:
  assumes dev: "blk_device dev content cap dies" and d: "mountable cap (content d)"
  shows "fs_init dev (boot_fs d) = Inr s \<Longrightarrow> fs_ok content cap s \<and> fs_files content s = disk_files (recovered (content d))"
    "fs_init dev (boot_fs d) = Inl d' \<Longrightarrow> mountable cap (content d') \<and> disk_files (recovered (content d')) = disk_files (recovered (content d))"
  using blk_device.fs_init_ok [OF dev boot_fs_ok(1,2) d, of d] boot_fs_ok(3) [of d] by auto

lemma step_sim:
  assumes "blk_device dev content cap dies" "fs_step dev content p e q" "power_ok content cap p" "\<not> clash e (power_files content p)"
  shows "power_ok content cap q \<and> spec_step e (power_files content p) (power_files content q)"
  using assms(2,3)
proof cases
  case (step_create data sz nm s r s')
  then have "length (cstr nm) < NAMELEN \<or> fs_files content s (take 55 (cstr nm)) = None" using assms(4) by auto
  with step_create show ?thesis using assms(3) create_sim(1) [OF assms(1) _ step_create(4) _ step_create(5)] by (simp del: spec_step.simps)
next
  case (step_create_cut data sz nm s d)
  then have "length (cstr nm) < NAMELEN \<or> fs_files content s (take 55 (cstr nm)) = None" using assms(4) by auto
  with step_create_cut show ?thesis using assms(3) create_sim(2) [OF assms(1) _ step_create_cut(4) _ step_create_cut(5)] by (simp del: spec_step.simps)
next
  case (step_delete nm s r s')
  then show ?thesis using assms(3) delete_sim(1) [OF assms(1) _ step_delete(4)] by (simp del: spec_step.simps)
next
  case (step_delete_cut nm s d)
  then show ?thesis using assms(3) delete_sim(2) [OF assms(1) _ step_delete_cut(4)] by (simp del: spec_step.simps)
next
  case (step_read nm buf mx s r buf' s')
  then show ?thesis using assms(3) read_sim(1) [OF assms(1) _ step_read(4)] by (simp del: spec_step.simps)
next
  case (step_read_cut nm buf mx s d)
  then show ?thesis using assms(3) read_sim(2) [OF assms(1) _ step_read_cut(4)] by simp
next
  case (step_off s)
  then show ?thesis using assms(3) fs_ok_mountable [of content cap s] by simp
next
  case (step_mount d' d s)
  then show ?thesis using assms(3) mount_sim(1) [OF assms(1), of d' s] by simp
next
  case (step_mount_cut d' d d2)
  then show ?thesis using assms(3) mount_sim(2) [OF assms(1), of d' d2] by simp
qed

lemma run_sim:
  assumes "blk_device dev content cap dies" "fs_run dev content p es q" "power_ok content cap p" "no_clash es (power_files content p)"
  shows "power_ok content cap q \<and> spec_run es (power_files content p) (power_files content q)"
  using assms(2-4)
proof (induction rule: fs_run.induct)
  case (run_cons p e q es r)
  then show ?case using step_sim [OF assms(1) run_cons.hyps(1)] by auto
qed simp

section \<open>Properties\<close>

text \<open>
  Claim C10. Soundness of the file system over its whole life. In any sequence of creations, deletions and reads
  with power failures between and inside the calls, also inside the recovery at a mount, every state
  is sound (mounted and consistent with the disk, or a disk that can be mounted), and the files evolve as
  the specification allows: each completed call does exactly what it returned, a call cut short did all of its work or none
  of it, and power failures and mounts change no file. Names may have any length; a created file is stored under the first 55
  bytes of its name. The sequence must not hold a creation of a name longer than 55 bytes that is cut to the name of a file that exists, which
  \<^verbatim>\<open>fs_create\<close> does not refuse.
\<close>
theorem fs_session_sound:
  assumes "blk_device dev content cap dies" "power_ok content cap p" "fs_run dev content p es q" "no_clash es (power_files content p)"
  shows "power_ok content cap q \<and> spec_run es (power_files content p) (power_files content q)"
  using run_sim [OF assms(1,3,2,4)] .

text \<open>The events that may remove a name.\<close>

fun removes :: "u8 list \<Rightarrow> fs_event \<Rightarrow> bool" where
  "removes n (Deleted nm r) \<longleftrightarrow> cstr nm = n"
| "removes n (Delete_cut nm) \<longleftrightarrow> cstr nm = n"
| "removes n e \<longleftrightarrow> False"

lemma spec_keeps: "spec_step e f f' \<Longrightarrow> f n = Some x \<Longrightarrow> \<not> removes n e \<Longrightarrow> f' n = Some x"
  by (cases e) (auto split: if_splits)

lemma spec_run_keeps: "spec_run es f f' \<Longrightarrow> f n = Some x \<Longrightarrow> \<forall>e \<in> set es. \<not> removes n e \<Longrightarrow> f' n = Some x"
  by (induction es arbitrary: f) (auto dest: spec_keeps)

text \<open>
  Claim C9. Durability. Once \<^verbatim>\<open>fs_create\<close> has returned 0, every later read of that name, cut to 55 bytes if it is longer, that has room for the
  file returns its size and its bytes, whatever else happens in between: calls on other files, attempts to
  create the same name again, calls cut short, power failures and reboots, any number of each, until the
  name is deleted or a deletion of it is begun. As for C10, no name longer than 55 bytes may be created that is cut to the name of a file that exists.
\<close>
theorem acknowledged_survives:
  assumes "blk_device dev content cap dies" "power_ok content cap p"
    and "fs_run dev content p (es @ Created nm data sz 0 # es' @ [Fetched nm' mx r buf]) q"
    and "no_clash (es @ Created nm data sz 0 # es' @ [Fetched nm' mx r buf]) (power_files content p)"
    and "cstr nm' = take 55 (cstr nm)" "sz \<le> mx" "\<forall>e \<in> set es'. \<not> removes (take 55 (cstr nm)) e"
  shows "r = sz \<and> (\<forall>k < nat sz. buf k = data ! k)"
proof -
  from run_sim [OF assms(1,3,2,4)] obtain f0 f g g' where f: "spec_step (Created nm data sz 0) f0 f" and g: "spec_run es' f g"
    and h: "spec_step (Fetched nm' mx r buf) g g'" by (auto simp: spec_run_append simp del: spec_step.simps)
  let ?x = "take (nat sz) data"
  have sz: "0 \<le> sz" "sz \<le> int (length data)" and "f (take 55 (cstr nm)) = Some ?x" using f by simp_all
  then have "g (take 55 (cstr nm)) = Some ?x" using spec_run_keeps [OF g] assms(7) by blast
  moreover have "int (length ?x) = sz" using sz by simp
  ultimately show ?thesis using h assms(5,6) by (auto split: if_splits)
qed

text \<open>A file created on the blank disk under any name, the power switched off and on, a file read.\<close>

lemma small_session:
  "\<exists>s r buf q. fs_ok ram_content 256 s \<and> fs_files ram_content s = Map.empty \<and>
     fs_run ram_dev ram_content (Up s) ([] @ Created nm [1, 2, 3] 3 0 # [Power_off, Mounted] @ [Fetched nm' 9 r buf]) q"
proof -
  obtain s where s: "fs_ok ram_content 256 s" "fs_files ram_content s = Map.empty" "total_blocks s = 256" using blank_fs by blast
  have c: "creatable ram_content s nm 3" using s by (intro empty_creatable) auto
  obtain st where "balloc_contig s (int ((nat 3 + 511) div 512)) = int st" using creatable_start [OF c] by blast
  then obtain s1 where s1: "fs_create ram_dev nm [1, 2, 3] 3 s = Inr (0, s1)" "fs_ok ram_content 256 s1"
    using ram.fs_create_ok [OF s(1), of 3 "[1, 2, 3]" nm] c s(2) by (auto simp: creatable_def io_post_def split: sum.splits)
  obtain s2 where s2: "fs_init ram_dev (boot_fs (device (disk s1))) = Inr s2" "fs_ok ram_content 256 s2"
    using mount_total [where content = ram_content and d = "device (disk s1)", OF ram.blk_device_axioms fs_ok_mountable(1) [OF s1(2)]] by blast
  obtain r buf s3 where s3: "fs_read ram_dev nm' (\<lambda>_. 0) 9 s2 = Inr (r, buf, s3)"
    using ram.fs_read_ok [OF s2(2), where nm = nm' and buf = "\<lambda>_. 0" and mx = 9] by (auto simp: io_post_def split: sum.splits)
  have "create_args [1, 2, 3] 3" by (simp add: create_args_def)
  note steps = step_create [OF this s1(1)] step_off step_mount [where content = ram_content, OF refl s2(1)] step_read [OF s3]
  have "fs_run ram_dev ram_content (Up s) [Created nm [1, 2, 3] 3 0, Power_off, Mounted, Fetched nm' 9 r buf] (Up s3)"
    by (rule run_cons [OF steps(1) run_cons [OF steps(2) run_cons [OF steps(3) run_cons [OF steps(4) run_nil]]]])
  then show ?thesis using s(1,2) by auto
qed

lemma small_no_clash: "no_clash ([] @ Created nm data sz r # [Power_off, Mounted] @ [Fetched nm' mx r' buf]) Map.empty"
  by simp

theorem fs_session_sound_witness:
  "\<exists>s r buf q. power_ok ram_content 256 q \<and> fs_files ram_content s = Map.empty \<and>
     spec_run [Created (bytes_of ''a'') [1, 2, 3] 3 0, Power_off, Mounted, Fetched (bytes_of ''a'') 9 r buf] (fs_files ram_content s) (power_files ram_content q)"
proof -
  from small_session [of "bytes_of ''a''" "bytes_of ''a''"] obtain s r buf q where s: "power_ok ram_content 256 (Up s)" "fs_files ram_content s = Map.empty"
    "fs_run ram_dev ram_content (Up s) [Created (bytes_of ''a'') [1, 2, 3] 3 0, Power_off, Mounted, Fetched (bytes_of ''a'') 9 r buf] q" by auto
  have "no_clash [Created (bytes_of ''a'') [1, 2, 3] 3 0, Power_off, Mounted, Fetched (bytes_of ''a'') 9 r buf] (power_files ram_content (Up s))"
    by (rule short_no_clash) (simp add: bytes_of_def cstr_def NAMELEN_def)
  from fs_session_sound [OF ram.blk_device_axioms s(1,3) this, unfolded power_files.simps(1)] s(2) show ?thesis by blast
qed

text \<open>The name has 60 bytes; the file is read under the first 55 of them.\<close>

theorem acknowledged_survives_witness:
  "\<exists>s r buf q. fs_run ram_dev ram_content (Up s)
       ([] @ Created (replicate 60 97) [1, 2, 3] 3 0 # [Power_off, Mounted] @ [Fetched (replicate 55 97) 9 r buf]) q \<and>
     r = 3 \<and> buf 0 = 1 \<and> buf 1 = 2 \<and> buf 2 = 3"
proof -
  from small_session [of "replicate 60 97" "replicate 55 97"] obtain s r buf q where s: "power_ok ram_content 256 (Up s)"
    "fs_run ram_dev ram_content (Up s) ([] @ Created (replicate 60 97) [1, 2, 3] 3 0 # [Power_off, Mounted] @ [Fetched (replicate 55 97) 9 r buf]) q"
    and f: "fs_files ram_content s = Map.empty" by auto
  have "r = 3 \<and> (\<forall>k < nat 3. buf k = [1, 2, 3] ! k)"
  proof (rule acknowledged_survives [OF ram.blk_device_axioms s])
    show "no_clash ([] @ Created (replicate 60 97) [1, 2, 3] 3 0 # [Power_off, Mounted] @ [Fetched (replicate 55 97) 9 r buf]) (power_files ram_content (Up s))"
      unfolding power_files.simps f by (rule small_no_clash)
    show "cstr (replicate 55 97) = take 55 (cstr (replicate 60 97))" by (simp add: cstr_def takeWhile_replicate)
  qed simp_all
  then have "r = 3" "buf 0 = 1" "buf 1 = 2" "buf 2 = 3" by (simp_all add: numeral_eq_Suc)
  then show ?thesis using s(2) by blast
qed

end
