(* ===== verification/Mkfs.thy ===== *)
theory Mkfs
  imports FsThms
begin

text \<open>
  \<^verbatim>\<open>src/tools/mkfs.c\<close>: the host program that writes the initial disk image. The host is a
  parameter: which paths can be opened for writing, and what opening, measuring and reading an
  input path gives. The result is the error that ends the program, or, when it exits with 0, the
  bytes it has handed to \<^verbatim>\<open>fwrite\<close> in order; it looks at no result of \<^verbatim>\<open>fwrite\<close> or \<^verbatim>\<open>fclose\<close>, so
  whether the host has stored them is not part of it. The host has memory for the inputs. The theorem at the end joins the tool to the kernel: the image mounts, and the
  mounted files are the input files.
\<close>

section \<open>The program\<close>

text \<open>
  An input that cannot be opened, one on which \<^verbatim>\<open>ftell\<close> gives -1 (a pipe), one that is opened
  and whose bytes cannot all be read, and a readable one.
\<close>

datatype host_file = Missing | Unseekable | Unreadable | Contents "u8 list"

text \<open>
  The messages before exit status 1, of which only the failure to open an input carries its path,
  and the copy from the null pointer in step 4, at which the host stops the program.
\<close>

datatype mkfs_error = Bad_usage | Too_many_files | Cannot_open_out | Cannot_open "u8 list" | Cannot_read | Null_copy

text \<open>What follows the last slash (\<^verbatim>\<open>strrchr\<close>), and \<^verbatim>\<open>strncpy\<close>.\<close>

definition base_name :: "u8 list \<Rightarrow> u8 list" where
  "base_name path = rev (takeWhile (\<lambda>c. c \<noteq> 47) (rev path))"

definition strncpy :: "u8 list \<Rightarrow> u8 list \<Rightarrow> nat \<Rightarrow> u8 list" where
  "strncpy dst src n = take n (cstr src) @ replicate (n - length (cstr src)) 0 @ drop n dst"

definition zero_dirent :: fs_dirent where
  "zero_dirent = \<lparr>name = replicate NAMELEN 0, fsize = 0, start = 0\<rparr>"

definition mk_dirent :: "u8 list \<Rightarrow> u8 list \<Rightarrow> u32 \<Rightarrow> fs_dirent" where
  "mk_dirent path buf cur =
     \<lparr>name = strncpy (name zero_dirent) (base_name path) (NAMELEN - 1), fsize = of_nat (length buf), start = cur\<rparr>"

text \<open>
  The first loop; a blob is \<open>None\<close> for the null pointer. After \<^verbatim>\<open>sz = -1\<close> the request
  \<^verbatim>\<open>malloc((size_t)-1)\<close> fails, the read is skipped, the size in the directory is \<^verbatim>\<open>0xffffffff\<close> and
  \<^verbatim>\<open>cur\<close> stays, because the signed quotient \<^verbatim>\<open>(sz + BSIZE - 1) / BSIZE\<close> is 0.
\<close>

fun scan_files :: "(u8 list \<Rightarrow> host_file) \<Rightarrow> u8 list list \<Rightarrow> u32 \<Rightarrow>
    mkfs_error + fs_dirent list \<times> u8 list option list \<times> u32" where
  "scan_files host [] cur = Inr ([], [], cur)"
| "scan_files host (path # paths) cur =
     (case host path of
        Missing \<Rightarrow> Inl (Cannot_open path)
      | Unseekable \<Rightarrow>
          (case scan_files host paths cur of
             Inl e \<Rightarrow> Inl e
           | Inr (ds, blobs, cur') \<Rightarrow> Inr ((mk_dirent path [] cur)\<lparr>fsize := 0xffffffff\<rparr> # ds, None # blobs, cur'))
      | Unreadable \<Rightarrow> Inl Cannot_read
      | Contents buf \<Rightarrow>
          (case scan_files host paths (cur + of_nat ((length buf + BSIZE - 1) div BSIZE)) of
             Inl e \<Rightarrow> Inl e
           | Inr (ds, blobs, cur') \<Rightarrow> Inr (mk_dirent path buf cur # ds, Some buf # blobs, cur')))"

definition zero_block :: "u8 list" where
  "zero_block = replicate BSIZE 0"

text \<open>The inner loop of step 4, with \<^verbatim>\<open>sizes[i]\<close> and \<^verbatim>\<open>written\<close> 32 bits wide.\<close>

function data_blocks :: "u8 list \<Rightarrow> u32 \<Rightarrow> u32 \<Rightarrow> u8 list list" where
  "data_blocks blob sz written =
     (if written < sz then
        let n0 = sz - written; n = (if n0 > of_nat BSIZE then of_nat BSIZE else n0)
        in block_image (take (unat n) (drop (unat written) blob)) # data_blocks blob sz (written + n)
      else [])"
  by auto
termination
proof (relation "measure (\<lambda>(blob, sz, written). unat sz - unat written)", goal_cases)
  case (2 blob sz written n0 n)
  have n: "n \<noteq> 0" "unat n \<le> unat sz - unat written"
    using 2 by (auto simp: BSIZE_def word_less_nat_alt unat_sub_if' unat_eq_0 [symmetric] split: if_splits)
  moreover have "unat (written + n) = unat written + unat n"
  proof -
    have "unat sz < 2 ^ 32" using unsigned_less [of sz] by simp
    then have "unat written + unat n < 2 ^ 32" using n(2) 2(1) by (simp add: word_less_nat_alt)
    then show ?thesis by (simp add: unat_word_ariths)
  qed
  ultimately show ?case using 2(1) by (simp add: word_less_nat_alt) (metis diff_less_mono2 less_add_same_cancel1 unat_gt_0)
qed simp

declare data_blocks.simps [simp del]

text \<open>Step 4 for all files: the first block of a null blob, whose size is not 0, is copied from it.\<close>

fun file_blocks :: "u8 list option list \<Rightarrow> mkfs_error + u8 list list" where
  "file_blocks [] = Inr []"
| "file_blocks (None # blobs) = Inl Null_copy"
| "file_blocks (Some b # blobs) =
     (case file_blocks blobs of Inl e \<Rightarrow> Inl e | Inr ks \<Rightarrow> Inr (data_blocks b (of_nat (length b)) 0 @ ks))"

definition mkfs :: "(u8 list \<Rightarrow> bool) \<Rightarrow> (u8 list \<Rightarrow> host_file) \<Rightarrow> u8 list list \<Rightarrow> mkfs_error + u8 list" where
  "mkfs can_open host argv =
     (if length argv < 3 then Inl Bad_usage
      else let paths = drop 2 argv in
        if length paths > MAXFILES then Inl Too_many_files
        else if \<not> can_open (argv ! 1) then Inl Cannot_open_out
        else case scan_files host paths (of_nat DATASTART) of
            Inl e \<Rightarrow> Inl e
          | Inr (ds, blobs, cur) \<Rightarrow>
              let d = ds @ replicate (MAXFILES - length ds) zero_dirent;
                  total = (if cur > 256 then cur else 256);
                  sb = \<lparr>sb_magic = FS_MAGIC, sb_nfiles = of_nat (length paths), sb_next_free = cur, sb_total_blocks = total\<rparr>
              in (case file_blocks blobs of
                    Inl e \<Rightarrow> Inl e
                  | Inr ks \<Rightarrow>
                      Inr (block_image (enc_superblock sb) @ block_image (dir_bytes d) @ zero_block @
                        concat (replicate LOGN zero_block) @ concat ks @
                        concat (replicate (unat total - unat cur) zero_block))))"

section \<open>Blocks of the output\<close>

lemma concat_slice:
  "\<forall>x \<in> set xs. length x = n \<Longrightarrow> b < length xs \<Longrightarrow> take n (drop (n * b) (concat xs)) = xs ! b"
proof (induction xs arbitrary: b)
  case (Cons x xs)
  then show ?case by (cases b) (auto simp: algebra_simps)
qed simp

lemma data_blocks_eq:
  assumes "length blob < 2 ^ 31" "unat w \<le> length blob"
  shows "data_blocks blob (of_nat (length blob)) w =
    map (\<lambda>i. block_image (take 512 (drop (unat w + 512 * i) blob))) [0..<(length blob - unat w + 511) div 512]"
  using assms(2)
proof (induction "length blob - unat w" arbitrary: w rule: less_induct)
  case less
  let ?sz = "of_nat (length blob) :: u32"
  have sz: "unat ?sz = length blob" using assms(1) by (simp add: unat_nat32)
  show ?case
  proof (cases "unat w = length blob")
    case True
    then show ?thesis by (subst data_blocks.simps) (simp add: word_less_nat_alt sz)
  next
    case False
    with less.prems have lt: "unat w < length blob" by simp
    define n where "n = (if ?sz - w > of_nat BSIZE then of_nat BSIZE else ?sz - w)"
    have d: "unat (?sz - w) = length blob - unat w" using lt sz by (simp add: unat_sub_if')
    have n: "unat n = min 512 (length blob - unat w)"
      using d by (auto simp: n_def BSIZE_def word_less_nat_alt min_def)
    have w': "unat (w + n) = unat w + unat n" using n lt assms(1) by (simp add: unat_word_ariths)
    have "data_blocks blob ?sz w = block_image (take (unat n) (drop (unat w) blob)) # data_blocks blob ?sz (w + n)"
      using lt sz by (subst data_blocks.simps) (simp add: Let_def n_def word_less_nat_alt)
    also have "take (unat n) (drop (unat w) blob) = take 512 (drop (unat w) blob)" by (simp add: n min_def)
    also have "data_blocks blob ?sz (w + n) =
        map (\<lambda>i. block_image (take 512 (drop (unat w + 512 + 512 * i) blob))) [0..<(length blob - unat (w + n) + 511) div 512]"
    proof (cases "length blob - unat w \<ge> 512")
      case True
      then show ?thesis using less.hyps [of "w + n"] lt n w' by simp
    next
      case False
      then have "unat (w + n) = length blob" using n w' lt by simp
      then show ?thesis using less.hyps [of "w + n"] lt by simp
    qed
    also have "(length blob - unat (w + n) + 511) div 512 = (length blob - unat w + 511) div 512 - 1"
      using lt n w' by (auto simp: min_def)
    also have "block_image (take 512 (drop (unat w) blob)) #
        map (\<lambda>i. block_image (take 512 (drop (unat w + 512 + 512 * i) blob))) [0..<(length blob - unat w + 511) div 512 - 1] =
      map (\<lambda>i. block_image (take 512 (drop (unat w + 512 * i) blob))) [0..<Suc ((length blob - unat w + 511) div 512 - 1)]"
      by (simp only: upt_conv_Cons zero_less_Suc map_Suc_upt [symmetric]) (simp add: o_def algebra_simps)
    also have "Suc ((length blob - unat w + 511) div 512 - 1) = (length blob - unat w + 511) div 512" using lt by simp
    finally show ?thesis .
  qed
qed

lemma data_blocks_read:
  assumes "length blob < 2 ^ 31"
  defines "B \<equiv> data_blocks blob (of_nat (length blob)) 0"
  shows "length B = (length blob + 511) div 512" "\<forall>x \<in> set B. length x = 512"
    "k < length blob \<Longrightarrow> B ! (k div 512) ! (k mod 512) = blob ! k"
proof -
  have B: "B = map (\<lambda>i. block_image (take 512 (drop (512 * i) blob))) [0..<(length blob + 511) div 512]"
    using data_blocks_eq [OF assms(1), of 0] by (simp add: B_def)
  show "length B = (length blob + 511) div 512" "\<forall>x \<in> set B. length x = 512" by (auto simp: B)
  assume k: "k < length blob"
  then have "k div 512 < (length blob + 511) div 512" by linarith
  moreover have "block_image (take 512 (drop (512 * (k div 512)) blob)) ! (k mod 512) = blob ! k"
  proof -
    have "512 * (k div 512) + k mod 512 = k" by simp
    moreover have "k mod 512 < length (take 512 (drop (512 * (k div 512)) blob))"
      using k by (simp add: less_diff_conv)
    ultimately show ?thesis by (simp add: block_image_def BSIZE_def)
  qed
  ultimately show "B ! (k div 512) ! (k mod 512) = blob ! k" by (simp add: B)
qed

section \<open>What the first loop lays out\<close>

definition need :: "u8 list list \<Rightarrow> nat" where
  "need bs = (\<Sum>b \<leftarrow> bs. (length b + 511) div 512)"

definition stored_name :: "u8 list \<Rightarrow> u8 list" where
  "stored_name path = take 55 (cstr (base_name path))"

abbreviation data_of :: "u8 list list \<Rightarrow> u8 list list" where
  "data_of bs \<equiv> concat (map (\<lambda>b. data_blocks b (of_nat (length b)) 0) bs)"

lemma file_blocks_Some: "file_blocks (map Some bs) = Inr (data_of bs)"
  by (induction bs) simp_all


lemma need_simps [simp]: "need [] = 0" "need (b # bs) = (length b + 511) div 512 + need bs"
  by (simp_all add: need_def)

lemma cstr_padded: "0 \<notin> set xs \<Longrightarrow> cstr (xs @ replicate n 0 @ [0]) = xs"
  by (induction xs) (cases n; simp add: cstr_def)+

lemma mk_dirent_name: "fname (mk_dirent path buf cur) = stored_name path" "dirent_ok (mk_dirent path buf cur)"
  "0 \<in> set (name (mk_dirent path buf cur))"
proof -
  have z: "cstr (take 55 (cstr x) @ replicate n 0 @ [0]) = take 55 (cstr x)" for x n
    by (rule cstr_padded) (use cstr_take(1) [of x] in_set_takeD in metis)
  have n: "name (mk_dirent path buf cur) = take 55 (cstr (base_name path)) @ replicate (55 - length (cstr (base_name path))) 0 @ [0]"
    by (simp add: mk_dirent_def strncpy_def zero_dirent_def NAMELEN_def)
  show "fname (mk_dirent path buf cur) = stored_name path" unfolding fname_def n z stored_name_def ..
  show "dirent_ok (mk_dirent path buf cur)" by (simp add: dirent_ok_def n NAMELEN_def)
  show "0 \<in> set (name (mk_dirent path buf cur))" by (simp add: n)
qed

lemma small_blob: "(length b + 511) div 512 \<le> MAXBLK \<Longrightarrow> length b < 2 ^ 31"
  by (simp add: MAXBLK_def)

lemma data_of_length:
  "need bs \<le> MAXBLK \<Longrightarrow> length (data_of bs) = need bs \<and> (\<forall>x \<in> set (data_of bs). length x = 512)"
proof (induction bs)
  case (Cons b bs)
  let ?D = "data_blocks b (of_nat (length b)) 0"
  have le: "(length b + 511) div 512 \<le> MAXBLK" "need bs \<le> MAXBLK" using Cons.prems by simp_all
  note D = data_blocks_read(1,2) [OF small_blob [OF le(1)]]
  have e: "data_of (b # bs) = ?D @ data_of bs" by simp
  show ?case unfolding e length_append D(1) need_simps set_append ball_Un
    using Cons.IH [OF le(2)] D(2) by (intro conjI) (erule conjE, (erule arg_cong | assumption))+
qed simp

lemma mk_dirent_entry:
  assumes "unat cur + (length buf + 511) div 512 \<le> T" "T \<le> MAXBLK" "DATASTART \<le> unat cur"
    and e_def: "e = mk_dirent path buf cur"
  shows "unat (fsize e) = length buf" "unat (start e) = unat cur" "nblocks_of (fsize e) = (length buf + 511) div 512"
    "entry_ok T e" "extent e = {unat cur..<unat cur + (length buf + 511) div 512}"
proof -
  have s: "length buf < 2 ^ 31" using assms(1,2) by (intro small_blob) simp
  show f: "unat (fsize e) = length buf" using s by (simp add: e_def mk_dirent_def unat_nat32)
  show c: "unat (start e) = unat cur" by (simp add: e_def mk_dirent_def)
  show n: "nblocks_of (fsize e) = (length buf + 511) div 512" using nblocks_bounds(1) [of "fsize e"] s f by simp
  show "entry_ok T e" using f c n s assms(1,3) mk_dirent_name(3) by (simp add: entry_ok_def e_def)
  show "extent e = {unat cur..<unat cur + (length buf + 511) div 512}" by (simp add: extent_def c n)
qed

text \<open>Everything the kernel will need of the directory that the loop builds.\<close>

definition laid_out :: "u8 list list \<Rightarrow> u32 \<Rightarrow> fs_dirent list \<Rightarrow> u8 list list \<Rightarrow> nat \<Rightarrow> bool" where
  "laid_out ps cur ds bs c \<longleftrightarrow> c = unat cur + need bs \<and> map fname ds = map stored_name ps \<and>
     (\<forall>e \<in> set ds. dirent_ok e \<and> entry_ok c e \<and> extent e \<subseteq> {unat cur..<c}) \<and>
     sorted_wrt (\<lambda>e f. extent e \<inter> extent f = {}) ds \<and>
     (\<forall>im. (\<forall>i < need bs. im (unat cur + i) = data_of bs ! i) \<longrightarrow> map (file_data im) ds = bs)"

lemma file_data_stored:
  assumes "unat (fsize e) = length b" "unat (start e) = k" "length b < 2 ^ 31"
    and "\<forall>i < (length b + 511) div 512. im (k + i) = data_blocks b (of_nat (length b)) 0 ! i"
  shows "file_data im e = b"
proof (rule nth_equalityI)
  show "length (file_data im e) = length b" by (simp add: file_data_def assms(1))
  fix j assume "j < length (file_data im e)"
  then have j: "j < length b" by (simp add: file_data_def assms(1))
  then have "j div 512 < (length b + 511) div 512" by linarith
  then show "file_data im e ! j = b ! j"
    using j assms data_blocks_read(3) [OF assms(3) j] by (simp add: file_data_def)
qed

lemma scan_ok:
  assumes "scan_files host ps cur = Inr (ds, map Some bs, c)" "unat cur + need bs \<le> MAXBLK" "DATASTART \<le> unat cur"
  shows "map host ps = map Contents bs \<and> laid_out ps cur ds bs (unat c)"
  using assms
proof (induction ps arbitrary: cur ds bs c)
  case Nil
  then show ?case by (simp add: laid_out_def)
next
  case (Cons p ps)
  let ?n = "\<lambda>b. (length b + 511) div 512 :: nat"
  obtain b ds' bs' where r: "host p = Contents b" "scan_files host ps (cur + of_nat (?n b)) = Inr (ds', map Some bs', c)"
      "ds = mk_dirent p b cur # ds'" "bs = b # bs'"
    using Cons.prems(1) by (auto simp: BSIZE_def add.commute map_eq_Cons_conv split: host_file.splits sum.splits)
  let ?cur = "cur + of_nat (?n b)"
  have nb: "unat cur + ?n b + need bs' \<le> 8192" using Cons.prems(2) r(4) by (simp add: MAXBLK_def)
  then have u: "unat ?cur = unat cur + ?n b" by (simp add: unat_word_ariths unat_nat32)
  have IH: "map host ps = map Contents bs'" "laid_out ps ?cur ds' bs' (unat c)"
    using Cons.IH [OF r(2)] Cons.prems(2,3) nb u by (auto simp: MAXBLK_def)
  note l = IH(2) [unfolded laid_out_def u]
  define e where "e = mk_dirent p b cur"
  have c: "unat c = unat cur + ?n b + need bs'" using l by simp
  have le: "unat cur + ?n b \<le> unat c" "unat c \<le> MAXBLK" using c nb by (simp_all add: MAXBLK_def)
  note e = mk_dirent_entry [OF le Cons.prems(3) e_def]
  have small: "length b < 2 ^ 31" using nb by (intro small_blob) (simp add: MAXBLK_def)
  note db = data_blocks_read(1,2) [OF small]
  have "\<forall>e' \<in> set ds'. extent e \<inter> extent e' = {}" using l e(5) by fastforce
  moreover have "file_data im e = b \<and> map (file_data im) ds' = bs'" if i: "\<forall>i < need bs. im (unat cur + i) = data_of bs ! i" for im
  proof
    have "im (unat cur + i) = data_blocks b (of_nat (length b)) 0 ! i" if "i < ?n b" for i
      using i that db by (simp add: r(4) nth_append)
    then show "file_data im e = b" using file_data_stored [OF e(1,2) small] by simp
    have "im (unat cur + ?n b + i) = data_of bs' ! i" if "i < need bs'" for i
      using i [rule_format, of "?n b + i"] that db by (simp add: r(4) nth_append add.assoc)
    then show "map (file_data im) ds' = bs'" using l by simp
  qed
  moreover have "\<forall>e' \<in> set ds'. extent e' \<subseteq> {unat cur..<unat c}" using l by fastforce
  ultimately show ?case
    using IH(1) l r e mk_dirent_name [of p b cur] c le(1) by (auto simp: laid_out_def e_def [symmetric])
qed

section \<open>The image and the kernel\<close>

definition readable :: "(u8 list \<Rightarrow> host_file) \<Rightarrow> u8 list \<Rightarrow> bool" where
  "readable host p \<longleftrightarrow> (\<exists>b. host p = Contents b)"

definition contents :: "(u8 list \<Rightarrow> host_file) \<Rightarrow> u8 list \<Rightarrow> u8 list" where
  "contents host p = (case host p of Contents b \<Rightarrow> b | _ \<Rightarrow> [])"


lemma scan_total:
  "\<forall>p \<in> set ps. readable host p \<Longrightarrow> \<exists>ds bs c. scan_files host ps cur = Inr (ds, map Some bs, c)"
proof (induction ps arbitrary: cur)
  case (Cons p ps)
  obtain b where b: "host p = Contents b" using Cons.prems by (auto simp: readable_def)
  obtain ds bs c where "scan_files host ps (cur + of_nat ((length b + BSIZE - 1) div BSIZE)) = Inr (ds, map Some bs, c)"
    using Cons.IH Cons.prems by (meson list.set_intros(2))
  then show ?case using b by simp (metis list.simps(9))
qed simp



lemma scan_hosts: "scan_files host ps cur = Inr (ds, map Some bs, c) \<Longrightarrow> map host ps = map Contents bs"
  by (induction ps arbitrary: cur ds bs) (auto simp: map_eq_Cons_conv split: host_file.splits sum.splits)

lemma scan_contents: "map host ps = map Contents bs \<Longrightarrow> bs = map (contents host) ps"
  by (induction ps arbitrary: bs) (auto simp: contents_def Cons_eq_map_conv)

text \<open>The sectors of a disk that holds the file \<open>f\<close>.\<close>

definition sectors :: "u8 list \<Rightarrow> image" where
  "sectors f b = take 512 (drop (512 * b) f)"

definition mkfs_blocks :: "u8 list list \<Rightarrow> fs_dirent list \<Rightarrow> u8 list list \<Rightarrow> u32 \<Rightarrow> u8 list list" where
  "mkfs_blocks paths ds blobs cur =
     (let total = (if cur > 256 then cur else 256) in
      block_image (enc_superblock \<lparr>sb_magic = FS_MAGIC, sb_nfiles = of_nat (length paths), sb_next_free = cur,
        sb_total_blocks = total\<rparr>) # block_image (dir_bytes (ds @ replicate (MAXFILES - length ds) zero_dirent)) #
      replicate 17 zero_block @ data_of blobs @ replicate (unat total - unat cur) zero_block)"

lemma mkfs_Inr:
  assumes "3 \<le> length argv" "length argv \<le> 2 + MAXFILES" "can_open (argv ! 1)"
    "scan_files host (drop 2 argv) (of_nat DATASTART) = Inr (ds, map Some blobs, cur)"
  shows "mkfs can_open host argv = Inr (concat (mkfs_blocks (drop 2 argv) ds blobs cur))"
proof -
  have r: "replicate 17 zero_block = zero_block # replicate LOGN zero_block" by (simp add: LOGN_def numeral_eq_Suc)
  show ?thesis using assms unfolding mkfs_def mkfs_blocks_def r by (simp add: Let_def file_blocks_Some)
qed

lemma mkfs_image:
  assumes l: "laid_out ps (of_nat DATASTART) ds bs (unat cur)" and cur: "unat cur \<le> MAXBLK"
    and n: "length ps \<le> MAXFILES" and d: "distinct (map stored_name ps)"
    and bs: "bs = map (contents host) ps"
  defines "B \<equiv> mkfs_blocks ps ds bs cur"
  assumes c: "\<forall>b < length B. c b = B ! b"
  shows "length B = max 256 (unat cur)" "mountable (length B) c"
    "disk_files (recovered c) = map_of (map (\<lambda>p. (stored_name p, contents host p)) ps)"
proof -
  define total :: u32 where "total = (if cur > 256 then cur else 256)"
  have t: "unat total = max 256 (unat cur)" by (simp add: total_def max_def word_less_nat_alt)
  have D: "unat (of_nat DATASTART :: u32) = 19" by (simp add: layout_defs)
  note lo = l [unfolded laid_out_def D]
  have nd: "unat cur = 19 + need bs" "need bs \<le> MAXBLK" using lo cur by simp_all
  note dl = data_of_length [OF nd(2), THEN conjunct1]
  show len: "length B = max 256 (unat cur)"
    unfolding B_def mkfs_blocks_def Let_def total_def [symmetric] using dl nd(1) t by (simp del: length_concat)
  have lds: "length ds = length ps" using lo by (metis length_map)
  let ?sb = "\<lparr>sb_magic = FS_MAGIC, sb_nfiles = of_nat (length ps), sb_next_free = cur, sb_total_blocks = total\<rparr>"
  let ?dir = "ds @ replicate (MAXFILES - length ds) zero_dirent"
  have c0: "c 0 = block_image (enc_superblock ?sb)" "c DIRBLOCK = block_image (dir_bytes ?dir)"
    using c len by (simp_all add: B_def mkfs_blocks_def Let_def total_def DIRBLOCK_def)
  have c2: "c LOGHDR = zero_block"
    using c [rule_format, of 2] len by (simp add: B_def mkfs_blocks_def Let_def nth_append LOGHDR_def)
  have "committed (dec_loghdr zero_block) = 0" by (simp add: dec_loghdr_def un_le32_def zero_block_def BSIZE_def)
  then have p: "pending c = []" by (simp add: pending_def c2)
  then have r: "recovered c = c" by (simp add: recovered_def apply_txn_def)
  have s: "dec_superblock (c 0) = ?sb" by (simp add: c0 dec_superblock_image)
  have "dec_dir (c DIRBLOCK) = ?dir"
    unfolding c0 by (rule dec_dir_image) (use lo lds n in \<open>auto simp: zero_dirent_def dirent_ok_def\<close>)
  moreover have "unat (of_nat (length ps) :: u32) = length ps" using n by (simp add: unat_nat32 MAXFILES_def)
  ultimately have live: "disk_live c = ds" using lds by (simp add: disk_live_def s)
  have data: "map (file_data c) ds = bs"
  proof -
    have "c (19 + i) = data_of bs ! i" if i: "i < need bs" for i
    proof -
      have "c (19 + i) = B ! (19 + i)" using c len nd i by simp
      also have "\<dots> = data_of bs ! i"
        using dl i by (simp add: B_def mkfs_blocks_def Let_def nth_append del: length_concat)
      finally show ?thesis .
    qed
    then show ?thesis using lo by blast
  qed
  have "sorted_wrt apart ds"
  proof -
    have "distinct (map fname ds)" using lo d by simp
    then have "sorted_wrt (\<lambda>e f. fname e \<noteq> fname f) ds" by (auto simp: distinct_conv_nth sorted_wrt_iff_nth_less)
    then show ?thesis using lo by (auto simp: apart_def sorted_wrt_iff_nth_less)
  qed
  moreover have "\<forall>e \<in> set ds. entry_ok (unat total) e" using lo t by (auto simp: entry_ok_def)
  ultimately have lay: "layout_ok (length B) (unat total) ds"
    using t len cur by (simp add: layout_ok_def layout_defs MAXBLK_def)
  show "mountable (length B) c"
    using lay n by (simp add: mountable_def p r txn_ok_def image_ok_def s live unat_nat32 MAXFILES_def)
  have "map (\<lambda>e. (fname e, file_data c e)) ds = zip (map fname ds) (map (file_data c) ds)" by (simp add: zip_map_map zip_same_conv_map)
  also have "\<dots> = map (\<lambda>p. (stored_name p, contents host p)) ps" using lo data bs by (simp add: zip_map_map zip_same_conv_map)
  finally show "disk_files (recovered c) = map_of (map (\<lambda>p. (stored_name p, contents host p)) ps)"
    by (simp add: r disk_files_def live files_of_def)
qed

text \<open>Every block of the output file has 512 bytes, so the sectors are the blocks.\<close>

lemma mkfs_block_size:
  assumes "need bs \<le> MAXBLK"
  shows "\<forall>x \<in> set (mkfs_blocks ps ds bs cur). length x = 512"
proof -
  have "\<forall>x \<in> set (data_of bs). length x = 512" using data_of_length [OF assms] by blast
  then show ?thesis
    unfolding mkfs_blocks_def Let_def by (auto simp: zero_block_def BSIZE_def simp del: set_concat)
qed

lemma mkfs_sectors:
  assumes "need bs \<le> MAXBLK" "b < length (mkfs_blocks ps ds bs cur)"
  shows "sectors (concat (mkfs_blocks ps ds bs cur)) b = mkfs_blocks ps ds bs cur ! b"
  using mkfs_block_size [OF assms(1)] assms(2) by (simp add: sectors_def concat_slice)

lemma concat_length_uniform: "\<forall>x \<in> set xs. length x = n \<Longrightarrow> length (concat xs) = n * length xs"
  by (induction xs) auto

section \<open>Properties\<close>

text \<open>
  Claim C30. From files to a mounted file system: for readable inputs whose (cut) base names differ
  and which fit the 8192 blocks the kernel can manage, \<^verbatim>\<open>mkfs\<close> writes an image that any kernel
  mounts from a disk holding it, and the mounted files are exactly the input files under
  their base names.
\<close>
theorem mkfs_image_mounts:
  assumes "3 \<le> length argv" "length argv \<le> 2 + MAXFILES" "can_open (argv ! 1)" "\<forall>p \<in> set (drop 2 argv). readable host p"
    and names: "distinct (map stored_name (drop 2 argv))"
    and fits: "DATASTART + need (map (contents host) (drop 2 argv)) \<le> MAXBLK"
  shows "\<exists>f. mkfs can_open host argv = Inr f \<and>
    (\<forall>(dev :: 'd blkdev) content d. blk_device dev content (length f div 512) False \<longrightarrow>
       (\<forall>b < length f div 512. content d b = sectors f b) \<longrightarrow>
       (\<exists>s. fs_init dev (boot_fs d) = Inr s \<and> fs_ok content (length f div 512) s \<and>
          fs_files content s = map_of (map (\<lambda>p. (stored_name p, contents host p)) (drop 2 argv))))"
proof -
  let ?ps = "drop 2 argv"
  obtain ds bs cur where scan: "scan_files host ?ps (of_nat DATASTART) = Inr (ds, map Some bs, cur)"
    using scan_total [OF assms(4)] by blast
  have D: "unat (of_nat DATASTART :: u32) = DATASTART" by (simp add: layout_defs)
  have hosts: "map host ?ps = map Contents bs" using scan_hosts [OF scan] .
  have bs: "bs = map (contents host) ?ps" using scan_contents [OF hosts] .
  have l: "laid_out ?ps (of_nat DATASTART) ds bs (unat cur)" using scan_ok [OF scan] fits by (simp add: D bs)
  have cur: "unat cur \<le> MAXBLK" using l fits by (simp add: laid_out_def D bs)
  have nd: "need bs \<le> MAXBLK" using fits bs by simp
  let ?B = "mkfs_blocks ?ps ds bs cur"
  have lenB: "length (concat ?B) div 512 = length ?B" using concat_length_uniform [OF mkfs_block_size [OF nd]] by simp
  have "\<exists>s. fs_init dev (boot_fs d) = Inr s \<and> fs_ok content (length ?B) s \<and>
      fs_files content s = map_of (map (\<lambda>p. (stored_name p, contents host p)) ?ps)"
    if dev: "blk_device dev content (length ?B) False" and c: "\<forall>b < length ?B. content d b = sectors (concat ?B) b"
    for dev :: "'d blkdev" and content d
  proof -
    have "\<forall>b < length ?B. content d b = ?B ! b" using c mkfs_sectors [OF nd] by simp
    note im = mkfs_image [OF l cur _ names bs this]
    show ?thesis using mount_total [OF dev, of d] im(2,3) assms(2) by fastforce
  qed
  then show ?thesis using mkfs_Inr [where can_open = can_open, OF assms(1-3) scan] lenB by simp
qed

theorem mkfs_image_mounts_witness:
  "\<exists>f s. mkfs (\<lambda>_. True) (\<lambda>_. Contents [1, 2, 3]) [bytes_of ''mkfs'', bytes_of ''fs.img'', bytes_of ''fs/hi''] = Inr f \<and>
     fs_init ram_dev (boot_fs (sectors f)) = Inr s \<and> fs_files ram_content s = [bytes_of ''hi'' \<mapsto> [1, 2, 3]]"
proof -
  let ?argv = "[bytes_of ''mkfs'', bytes_of ''fs.img'', bytes_of ''fs/hi'']" and ?host = "\<lambda>_ :: u8 list. Contents [1, 2, 3]"
  have nm: "stored_name (bytes_of ''fs/hi'') = bytes_of ''hi''" by code_simp
  have "\<exists>f. mkfs (\<lambda>_. True) ?host ?argv = Inr f \<and>
    (\<forall>(dev :: image blkdev) content d. blk_device dev content (length f div 512) False \<longrightarrow>
       (\<forall>b < length f div 512. content d b = sectors f b) \<longrightarrow>
       (\<exists>s. fs_init dev (boot_fs d) = Inr s \<and> fs_ok content (length f div 512) s \<and>
          fs_files content s = map_of (map (\<lambda>p. (stored_name p, contents ?host p)) (drop 2 ?argv))))"
    by (rule mkfs_image_mounts) (simp_all add: MAXFILES_def MAXBLK_def layout_defs readable_def contents_def)
  then obtain f where f: "mkfs (\<lambda>_. True) ?host ?argv = Inr f"
    and all: "\<forall>(dev :: image blkdev) content d. blk_device dev content (length f div 512) False \<longrightarrow>
       (\<forall>b < length f div 512. content d b = sectors f b) \<longrightarrow>
       (\<exists>s. fs_init dev (boot_fs d) = Inr s \<and> fs_ok content (length f div 512) s \<and>
          fs_files content s = map_of (map (\<lambda>p. (stored_name p, contents ?host p)) (drop 2 ?argv)))"
    by (elim exE conjE)
  note mounts = all [rule_format, of ram_dev ram_content "sectors f", OF ram.blk_device_axioms]
  moreover have "ram_content (sectors f) b = sectors f b" if "b < length f div 512" for b
  proof -
    have "512 * b + 512 \<le> length f" using that by linarith
    then show ?thesis by (simp add: ram_content_def sectors_def)
  qed
  ultimately obtain s where "fs_init ram_dev (boot_fs (sectors f)) = Inr s"
      "fs_files ram_content s = map_of (map (\<lambda>p. (stored_name p, contents ?host p)) (drop 2 ?argv))" by blast
  then show ?thesis using f nm by (intro exI [of _ f] exI [of _ s]) (simp add: contents_def)
qed


end
