(* ===== verification/Mmio.thy ===== *)
theory Mmio
  imports Kalloc Virtio Uart "HOL-Library.Sublist"
begin

text \<open>
  The register side of the virtio-mmio transport that \<^verbatim>\<open>src/src/virtio.c\<close> and \<^verbatim>\<open>src/src/net.c\<close>
  share, and \<^verbatim>\<open>virtio_disk_init\<close>. A device is seen through its registers only: \<open>io ws a\<close> is the
  value a 32-bit read at address \<open>a\<close> gives after the writes \<open>ws\<close> (oldest first), for an
  arbitrary function \<open>io\<close>; the state keeps the writes. Reads of this transport have no effect.
\<close>

type_synonym mmio_write = "u64 \<times> u32"
type_synonym mmio_dev = "mmio_write list \<Rightarrow> u64 \<Rightarrow> u32"

record mmio = kmem +
  mwrites :: "mmio_write list"
  mout :: "u8 list"

definition io_rd :: "mmio_dev \<Rightarrow> u64 \<Rightarrow> 'a mmio_scheme \<Rightarrow> u32" where
  "io_rd io a s = io (mwrites s) a"

definition io_wr :: "u64 \<Rightarrow> u32 \<Rightarrow> 'a mmio_scheme \<Rightarrow> 'a mmio_scheme" where
  "io_wr a v s = s\<lparr>mwrites := mwrites s @ [(a, v)]\<rparr>"

definition mputs :: "string \<Rightarrow> 'a mmio_scheme \<Rightarrow> 'a mmio_scheme" where
  "mputs msg s = s\<lparr>mout := mout s @ puts_bytes (bytes_of msg)\<rparr>"

definition zero_page :: "u64 \<Rightarrow> 'a kmem_scheme \<Rightarrow> 'a kmem_scheme" where
  "zero_page p s = s\<lparr>mem := set_loop (mem s) p 0 4096\<rparr>"

text \<open>The three ring pages of a queue: three allocations, then three times \<^verbatim>\<open>zero\<close>.\<close>

definition ring_pages :: "'a kmem_scheme \<Rightarrow> u64 \<times> u64 \<times> u64 \<times> 'a kmem_scheme" where
  "ring_pages s = (let (d, s) = kalloc s; (a, s) = kalloc s; (u, s) = kalloc s in
     (d, a, u, zero_page u (zero_page a (zero_page d s))))"

section \<open>Registers\<close>

definition MMIO_MAGIC :: u64 where "MMIO_MAGIC = 0x000"
definition MMIO_VERSION :: u64 where "MMIO_VERSION = 0x004"
definition MMIO_DEVICE_ID :: u64 where "MMIO_DEVICE_ID = 0x008"
definition MMIO_VENDOR_ID :: u64 where "MMIO_VENDOR_ID = 0x00c"
definition MMIO_DEVICE_FEAT :: u64 where "MMIO_DEVICE_FEAT = 0x010"
definition MMIO_DEVICE_FEAT_SEL :: u64 where "MMIO_DEVICE_FEAT_SEL = 0x014"
definition MMIO_DRIVER_FEAT :: u64 where "MMIO_DRIVER_FEAT = 0x020"
definition MMIO_DRIVER_FEAT_SEL :: u64 where "MMIO_DRIVER_FEAT_SEL = 0x024"
definition MMIO_QUEUE_SEL :: u64 where "MMIO_QUEUE_SEL = 0x030"
definition MMIO_QUEUE_NUM_MAX :: u64 where "MMIO_QUEUE_NUM_MAX = 0x034"
definition MMIO_QUEUE_NUM :: u64 where "MMIO_QUEUE_NUM = 0x038"
definition MMIO_QUEUE_READY :: u64 where "MMIO_QUEUE_READY = 0x044"
definition MMIO_QUEUE_NOTIFY :: u64 where "MMIO_QUEUE_NOTIFY = 0x050"
definition MMIO_STATUS :: u64 where "MMIO_STATUS = 0x070"
definition MMIO_QUEUE_DESC_LO :: u64 where "MMIO_QUEUE_DESC_LO = 0x080"
definition MMIO_QUEUE_DESC_HI :: u64 where "MMIO_QUEUE_DESC_HI = 0x084"
definition MMIO_DRIVER_DESC_LO :: u64 where "MMIO_DRIVER_DESC_LO = 0x090"
definition MMIO_DRIVER_DESC_HI :: u64 where "MMIO_DRIVER_DESC_HI = 0x094"
definition MMIO_DEVICE_DESC_LO :: u64 where "MMIO_DEVICE_DESC_LO = 0x0a0"
definition MMIO_DEVICE_DESC_HI :: u64 where "MMIO_DEVICE_DESC_HI = 0x0a4"

lemmas mmio_regs = MMIO_MAGIC_def MMIO_VERSION_def MMIO_DEVICE_ID_def MMIO_VENDOR_ID_def MMIO_DEVICE_FEAT_def
  MMIO_DEVICE_FEAT_SEL_def MMIO_DRIVER_FEAT_def MMIO_DRIVER_FEAT_SEL_def MMIO_QUEUE_SEL_def MMIO_QUEUE_NUM_MAX_def
  MMIO_QUEUE_NUM_def MMIO_QUEUE_READY_def MMIO_QUEUE_NOTIFY_def MMIO_STATUS_def MMIO_QUEUE_DESC_LO_def
  MMIO_QUEUE_DESC_HI_def MMIO_DRIVER_DESC_LO_def MMIO_DRIVER_DESC_HI_def MMIO_DEVICE_DESC_LO_def MMIO_DEVICE_DESC_HI_def

definition S_ACKNOWLEDGE :: u32 where "S_ACKNOWLEDGE = 1"
definition S_DRIVER :: u32 where "S_DRIVER = 2"
definition S_DRIVER_OK :: u32 where "S_DRIVER_OK = 4"
definition S_FEATURES_OK :: u32 where "S_FEATURES_OK = 8"

lemmas status_bits = S_ACKNOWLEDGE_def S_DRIVER_def S_DRIVER_OK_def S_FEATURES_OK_def

definition VIRTIO_BLK_F_RO :: nat where "VIRTIO_BLK_F_RO = 5"
definition VIRTIO_BLK_F_SCSI :: nat where "VIRTIO_BLK_F_SCSI = 7"
definition VIRTIO_BLK_F_CONFIG_WCE :: nat where "VIRTIO_BLK_F_CONFIG_WCE = 11"
definition VIRTIO_BLK_F_MQ :: nat where "VIRTIO_BLK_F_MQ = 12"
definition VIRTIO_F_ANY_LAYOUT :: nat where "VIRTIO_F_ANY_LAYOUT = 27"
definition VIRTIO_RING_F_INDIRECT :: nat where "VIRTIO_RING_F_INDIRECT = 28"
definition VIRTIO_RING_F_EVENT_IDX :: nat where "VIRTIO_RING_F_EVENT_IDX = 29"

lemmas blk_features = VIRTIO_BLK_F_RO_def VIRTIO_BLK_F_SCSI_def VIRTIO_BLK_F_CONFIG_WCE_def VIRTIO_BLK_F_MQ_def
  VIRTIO_F_ANY_LAYOUT_def VIRTIO_RING_F_INDIRECT_def VIRTIO_RING_F_EVENT_IDX_def

section \<open>Setting up the disk\<close>

definition VIRTIO0 :: u64 where "VIRTIO0 = 0x10001000"

text \<open>
  The three ring pages are new; their zeroed contents are the arrays of the driver's record,
  and their addresses are kept beside it.
\<close>

record dinit = mmio +
  desc_pa :: u64
  avail_pa :: u64
  used_pa :: u64

definition R32 :: "mmio_dev \<Rightarrow> u64 \<Rightarrow> 'a mmio_scheme \<Rightarrow> u32" where
  "R32 io off s = io_rd io (VIRTIO0 + off) s"

definition W32 :: "u64 \<Rightarrow> u32 \<Rightarrow> 'a mmio_scheme \<Rightarrow> 'a mmio_scheme" where
  "W32 off v s = io_wr (VIRTIO0 + off) v s"

text \<open>The features the driver turns off.\<close>

definition drop_features :: "u32 \<Rightarrow> u32" where
  "drop_features feat_lo =
     (let feat_lo = feat_lo AND NOT (push_bit VIRTIO_BLK_F_RO 1);
          feat_lo = feat_lo AND NOT (push_bit VIRTIO_BLK_F_SCSI 1);
          feat_lo = feat_lo AND NOT (push_bit VIRTIO_BLK_F_CONFIG_WCE 1);
          feat_lo = feat_lo AND NOT (push_bit VIRTIO_BLK_F_MQ 1);
          feat_lo = feat_lo AND NOT (push_bit VIRTIO_F_ANY_LAYOUT 1);
          feat_lo = feat_lo AND NOT (push_bit VIRTIO_RING_F_EVENT_IDX 1);
          feat_lo = feat_lo AND NOT (push_bit VIRTIO_RING_F_INDIRECT 1)
      in feat_lo)"

definition negotiate :: "mmio_dev \<Rightarrow> 'a mmio_scheme \<Rightarrow> u32 \<times> 'a mmio_scheme" where
  "negotiate io s =
     (let status = 0; s = W32 MMIO_STATUS status s;
          status = status OR S_ACKNOWLEDGE; s = W32 MMIO_STATUS status s;
          status = status OR S_DRIVER; s = W32 MMIO_STATUS status s;
          s = W32 MMIO_DEVICE_FEAT_SEL 0 s;
          feat_lo = drop_features (R32 io MMIO_DEVICE_FEAT s);
          s = W32 MMIO_DRIVER_FEAT_SEL 0 s;
          s = W32 MMIO_DRIVER_FEAT feat_lo s;
          s = W32 MMIO_DEVICE_FEAT_SEL 1 s;
          feat_hi = R32 io MMIO_DEVICE_FEAT s;
          s = W32 MMIO_DRIVER_FEAT_SEL 1 s;
          s = W32 MMIO_DRIVER_FEAT feat_hi s;
          status = status OR S_FEATURES_OK
      in (status, W32 MMIO_STATUS status s))"

definition queue_up :: "u32 \<Rightarrow> 'a dinit_scheme \<Rightarrow> 'a dinit_scheme" where
  "queue_up status s =
     (let s = W32 MMIO_QUEUE_NUM (ucast NUM) s;
          (d, a, u, s) = ring_pages s;
          s = s\<lparr>desc_pa := d, avail_pa := a, used_pa := u\<rparr>;
          s = W32 MMIO_QUEUE_DESC_LO (ucast d) s;
          s = W32 MMIO_QUEUE_DESC_HI (ucast (drop_bit 32 d)) s;
          s = W32 MMIO_DRIVER_DESC_LO (ucast a) s;
          s = W32 MMIO_DRIVER_DESC_HI (ucast (drop_bit 32 a)) s;
          s = W32 MMIO_DEVICE_DESC_LO (ucast u) s;
          s = W32 MMIO_DEVICE_DESC_HI (ucast (drop_bit 32 u)) s;
          s = W32 MMIO_QUEUE_READY 1 s;
          status = status OR S_DRIVER_OK
      in W32 MMIO_STATUS status s)"

definition virtio_disk_init :: "mmio_dev \<Rightarrow> 'd vdisk \<Rightarrow> 'a dinit_scheme \<Rightarrow> 'd vdisk \<times> 'a dinit_scheme" where
  "virtio_disk_init io v s =
     (if R32 io MMIO_MAGIC s \<noteq> 0x74726976 \<or> R32 io MMIO_VERSION s \<noteq> 2 \<or>
         R32 io MMIO_DEVICE_ID s \<noteq> 2 \<or> R32 io MMIO_VENDOR_ID s \<noteq> 0x554d4551
      then (v, mputs ''[virtio] no disk at 0x10001000\<newline>'' s)
      else
        let (status, s) = negotiate io s
        in if R32 io MMIO_STATUS s AND S_FEATURES_OK = 0
           then (v, mputs ''[virtio] FEATURES_OK rejected\<newline>'' s)
           else
             let s = W32 MMIO_QUEUE_SEL 0 s; mx = R32 io MMIO_QUEUE_NUM_MAX s
             in if mx = 0 \<or> mx < ucast NUM
                then (v, mputs ''[virtio] bad queue size\<newline>'' s)
                else
                  let s = queue_up status s
                  in (v\<lparr>desc := replicate 8 \<lparr>addr = At_null, dlen = 0, flags = 0, dnext = 0\<rparr>,
                         avail_ring := replicate 8 0, avail_idx := 0, used_idx := 0,
                         used_seen := 0, disk_ok := True\<rparr>,
                      mputs ''[ok] virtio-blk disk ready\<newline>'' s))"

section \<open>Three fresh zeroed pages\<close>

lemma kmem_ok_more: "kmem_ok s xs \<Longrightarrow> mem s' = mem s \<Longrightarrow> freelist s' = freelist s \<Longrightarrow> freecnt s' = freecnt s \<Longrightarrow>
    refcnt s' = refcnt s \<Longrightarrow> kmem_ok s' xs"
  by (simp add: kmem_ok_def)

lemma refs_more: "refcnt s' = refcnt s \<Longrightarrow> refs s' = refs s"
  by (simp add: refs_def fun_eq_iff)

lemma zero_page_ok:
  assumes "kmem_ok s xs" "ram_page p" "p \<notin> set xs"
  shows "kmem_ok (zero_page p s) xs" "refs (zero_page p s) = refs s"
    "mem (zero_page p s) a = (if page_no a = page_no p then 0 else mem s a)"
proof -
  have m: "mem (zero_page p s) = (\<lambda>a. if page_no a = page_no p then 0 else mem s a)"
    by (simp add: zero_page_def zero_page_eq [OF ram_page_aligned [OF assms(2)]])
  then show "mem (zero_page p s) a = (if page_no a = page_no p then 0 else mem s a)" by simp
  show "refs (zero_page p s) = refs s" by (rule refs_more) (simp add: zero_page_def)
  have "ld64 (mem (zero_page p s)) y = ld64 (mem s) y" if "y \<in> set xs" for y
  proof -
    have "ram_page y" "y \<noteq> p" using kmem_ok_D(3) [OF assms(1) that] assms(3) that by auto
    then show ?thesis unfolding m using assms(2)
      by (intro ld64_same_page ram_page_dword) (auto simp: aligned_eq_iff ram_page_aligned)
  qed
  then have "chain (mem (zero_page p s)) (freelist s) xs = chain (mem s) (freelist s) xs" by (rule chain_cong)
  then show "kmem_ok (zero_page p s) xs" using assms(1) by (simp add: kmem_ok_def zero_page_def)
qed

definition fresh_zero :: "u64 list \<Rightarrow> 'a kmem_scheme \<Rightarrow> 'b kmem_scheme \<Rightarrow> bool" where
  "fresh_zero ps s s' \<longleftrightarrow> distinct ps \<and> (\<forall>p \<in> set ps. ram_page p \<and> refs s p = 0) \<and>
     refs s' = (\<lambda>q. if q \<in> set ps then 1 else refs s q) \<and>
     mem s' = (\<lambda>a. if page_no a \<in> page_no ` set ps then 0 else mem s a)"

lemma ring_pages_ok:
  assumes "kmem_ok s (x # y # z # xs)"
  shows "\<exists>s'. ring_pages s = (x, y, z, s') \<and> kmem_ok s' xs \<and> fresh_zero [x, y, z] s s' \<and> kmem.more s' = kmem.more s"
proof -
  define s1 where "s1 = snd (kalloc s)"
  define s2 where "s2 = snd (kalloc s1)"
  define s3 where "s3 = snd (kalloc s2)"
  note k1 = kalloc_Cons [OF assms]
  have s1: "kalloc s = (x, s1)" "kmem_ok s1 (y # z # xs)" "refs s1 = (refs s)(x := 1)" "mem s1 = mem s"
      "kmem.more s1 = kmem.more s" using k1 by (simp_all add: s1_def)
  note k2 = kalloc_Cons [OF s1(2)]
  have s2: "kalloc s1 = (y, s2)" "kmem_ok s2 (z # xs)" "refs s2 = (refs s1)(y := 1)" "mem s2 = mem s1"
      "kmem.more s2 = kmem.more s1" using k2 by (simp_all add: s2_def)
  note k3 = kalloc_Cons [OF s2(2)]
  have s3: "kalloc s2 = (z, s3)" "kmem_ok s3 xs" "refs s3 = (refs s2)(z := 1)" "mem s3 = mem s2"
      "kmem.more s3 = kmem.more s2" using k3 by (simp_all add: s3_def)
  have d: "distinct [x, y, z]" "x \<notin> set xs" "y \<notin> set xs" "z \<notin> set xs" and r: "ram_page x" "ram_page y" "ram_page z"
    using kmem_ok_D(2,3) [OF assms] by auto
  have f: "refs s x = 0" "refs s y = 0" "refs s z = 0" using kmem_ok_free_iff [OF assms] by simp_all
  note z1 = zero_page_ok [OF s3(2) r(1) d(2)]
  note z2 = zero_page_ok [OF z1(1) r(2) d(3)]
  note z3 = zero_page_ok [OF z2(1) r(3) d(4)]
  let ?s = "zero_page z (zero_page y (zero_page x s3))"
  have "ring_pages s = (x, y, z, ?s)" by (simp add: ring_pages_def s1(1) s2(1) s3(1))
  moreover have "fresh_zero [x, y, z] s ?s"
    using d(1) r f s1(3) s2(3) s3(3) s1(4) s2(4) s3(4) z1(2) z2(2) z3(2)
    by (auto simp: fresh_zero_def fun_eq_iff z1(3) z2(3) z3(3))
  moreover have "kmem.more ?s = kmem.more s" using s1(5) s2(5) s3(5) by (simp add: zero_page_def)
  ultimately show ?thesis using z3(1) by blast
qed

section \<open>The handshake\<close>

definition last_write :: "mmio_write list \<Rightarrow> u64 \<Rightarrow> u32 option" where
  "last_write ws a = map_of (rev ws) a"

definition writes_to :: "u64 \<Rightarrow> mmio_write list \<Rightarrow> u32 list" where
  "writes_to a ws = map snd (filter (\<lambda>w. fst w = a) ws)"

text \<open>The address the device has in a pair of queue registers.\<close>

definition queue_addr :: "mmio_write list \<Rightarrow> u64 \<Rightarrow> u64 \<Rightarrow> u64 option" where
  "queue_addr ws lo hi = (case (last_write ws lo, last_write ws hi) of
     (Some l, Some h) \<Rightarrow> Some (ucast l OR push_bit 32 (ucast h)) | _ \<Rightarrow> None)"

lemma split_addr: "ucast (ucast a :: u32) OR push_bit 32 (ucast (ucast (drop_bit 32 a) :: u32)) = (a :: u64)"
  by (rule bit_word_eqI) (auto simp: bit_simps)

lemma drop_features_bit: "bit (drop_features f) n \<longleftrightarrow> bit f n \<and> n \<notin> {5, 7, 11, 12, 27, 28, 29}"
proof -
  have "bit (push_bit k 1 :: u32) n \<longleftrightarrow> n = k" if "n < 32" for k using that by (auto simp: bit_simps)
  then show ?thesis
    using bit_imp_le_length [of f n]
    by (auto simp: drop_features_def bit_and_iff bit_not_iff blk_features [symmetric] simp del: push_bit_of_1)
qed

text \<open>What the driver has written when it asks whether its features are accepted.\<close>

definition negotiation :: "mmio_dev \<Rightarrow> mmio_write list" where
  "negotiation io =
     (let ws = [(VIRTIO0 + MMIO_STATUS, 0), (VIRTIO0 + MMIO_STATUS, 1), (VIRTIO0 + MMIO_STATUS, 3), (VIRTIO0 + MMIO_DEVICE_FEAT_SEL, 0)];
          lo = drop_features (io ws (VIRTIO0 + MMIO_DEVICE_FEAT));
          ws = ws @ [(VIRTIO0 + MMIO_DRIVER_FEAT_SEL, 0), (VIRTIO0 + MMIO_DRIVER_FEAT, lo), (VIRTIO0 + MMIO_DEVICE_FEAT_SEL, 1)]
      in ws @ [(VIRTIO0 + MMIO_DRIVER_FEAT_SEL, 1), (VIRTIO0 + MMIO_DRIVER_FEAT, io ws (VIRTIO0 + MMIO_DEVICE_FEAT)),
               (VIRTIO0 + MMIO_STATUS, 11)])"

text \<open>A device on which the driver can come up: a modern block device that agrees and has a queue of at least 8.\<close>

definition usable :: "mmio_dev \<Rightarrow> bool" where
  "usable io \<longleftrightarrow> io [] (VIRTIO0 + MMIO_MAGIC) = 0x74726976 \<and> io [] (VIRTIO0 + MMIO_VERSION) = 2 \<and>
     io [] (VIRTIO0 + MMIO_DEVICE_ID) = 2 \<and> io [] (VIRTIO0 + MMIO_VENDOR_ID) = 0x554d4551 \<and>
     bit (io (negotiation io) (VIRTIO0 + MMIO_STATUS)) 3 \<and>
     8 \<le> io (negotiation io @ [(VIRTIO0 + MMIO_QUEUE_SEL, 0)]) (VIRTIO0 + MMIO_QUEUE_NUM_MAX)"

lemma and_8: "w AND 8 = 0 \<longleftrightarrow> \<not> bit (w :: u32) 3"
proof -
  have "(8 :: u32) = push_bit 3 1" by simp
  then have "w AND 8 = 0 \<longleftrightarrow> \<not> (\<exists>n. bit w n \<and> n = 3)"
    by (metis (mono_tags, opaque_lifting) and_exp_eq_0_iff_not_bit push_bit_of_1)
  then show ?thesis by simp
qed

lemma negotiate_eq: "mwrites s = [] \<Longrightarrow> negotiate io s = (11, s\<lparr>mwrites := negotiation io\<rparr>)"
  by (simp add: negotiate_def negotiation_def Let_def W32_def io_wr_def R32_def io_rd_def status_bits)

definition disk_queue :: "u64 \<Rightarrow> u64 \<Rightarrow> u64 \<Rightarrow> mmio_write list" where
  "disk_queue d a u = [(VIRTIO0 + MMIO_QUEUE_NUM, 8),
     (VIRTIO0 + MMIO_QUEUE_DESC_LO, ucast d), (VIRTIO0 + MMIO_QUEUE_DESC_HI, ucast (drop_bit 32 d)),
     (VIRTIO0 + MMIO_DRIVER_DESC_LO, ucast a), (VIRTIO0 + MMIO_DRIVER_DESC_HI, ucast (drop_bit 32 a)),
     (VIRTIO0 + MMIO_DEVICE_DESC_LO, ucast u), (VIRTIO0 + MMIO_DEVICE_DESC_HI, ucast (drop_bit 32 u)),
     (VIRTIO0 + MMIO_QUEUE_READY, 1), (VIRTIO0 + MMIO_STATUS, 15)]"

lemma queue_up_ok:
  assumes "kmem_ok s (x # y # z # xs)"
  shows "kmem_ok (queue_up 11 s) xs \<and> fresh_zero [x, y, z] s (queue_up 11 s) \<and>
    mwrites (queue_up 11 s) = mwrites s @ disk_queue x y z \<and> desc_pa (queue_up 11 s) = x \<and>
    avail_pa (queue_up 11 s) = y \<and> used_pa (queue_up 11 s) = z"
proof -
  let ?s = "W32 MMIO_QUEUE_NUM (ucast NUM) s"
  have "kmem_ok ?s (x # y # z # xs)" using assms by (rule kmem_ok_more) (simp_all add: W32_def io_wr_def)
  then obtain s' where s': "ring_pages ?s = (x, y, z, s')" "kmem_ok s' xs" "fresh_zero [x, y, z] ?s s'" "kmem.more s' = kmem.more ?s"
    using ring_pages_ok by blast
  have w: "mwrites s' = mwrites s @ [(VIRTIO0 + MMIO_QUEUE_NUM, 8)]"
    using s'(4) by (cases s'; cases s) (simp add: W32_def io_wr_def NUM_def)
  have qu: "queue_up 11 s = s'\<lparr>desc_pa := x, avail_pa := y, used_pa := z, mwrites := mwrites s' @ tl (disk_queue x y z)\<rparr>"
    unfolding queue_up_def Let_def s'(1) prod.case by (simp add: disk_queue_def W32_def io_wr_def S_DRIVER_OK_def)
  have r: "refs (queue_up 11 s) = refs s'" "refs ?s = refs s"
    by (rule refs_more, simp add: qu, rule refs_more, simp add: W32_def io_wr_def)
  have "kmem_ok (queue_up 11 s) xs" using s'(2) by (rule kmem_ok_more) (simp_all add: qu)
  moreover have m: "mem (queue_up 11 s) = mem s'" "mem ?s = mem s" by (simp_all add: qu W32_def io_wr_def)
  have "fresh_zero [x, y, z] s (queue_up 11 s)" using s'(3) unfolding fresh_zero_def r m .
  ultimately show ?thesis using w by (simp add: qu disk_queue_def)
qed

lemma disk_init_run:
  assumes "kmem_ok s (x # y # z # xs)" "mwrites s = []"
  shows "case virtio_disk_init io v s of (v', s') \<Rightarrow>
    if usable io then vdisk_ok v' \<and> device v' = device v \<and> kmem_ok s' xs \<and> fresh_zero [x, y, z] s s' \<and>
      mwrites s' = negotiation io @ (VIRTIO0 + MMIO_QUEUE_SEL, 0) # disk_queue x y z \<and>
      desc_pa s' = x \<and> avail_pa s' = y \<and> used_pa s' = z
    else v' = v \<and> mem s' = mem s \<and> kmem_ok s' (x # y # z # xs) \<and> refs s' = refs s \<and>
      prefix (mwrites s') (negotiation io @ [(VIRTIO0 + MMIO_QUEUE_SEL, 0)])"
proof -
  define s1 where "s1 = s\<lparr>mwrites := negotiation io\<rparr>"
  define s2 where "s2 = s\<lparr>mwrites := negotiation io @ [(VIRTIO0 + MMIO_QUEUE_SEL, 0)]\<rparr>"
  have "kmem_ok s2 (x # y # z # xs)" using assms(1) by (rule kmem_ok_more) (simp_all add: s2_def)
  note q = queue_up_ok [OF this]
  have W: "W32 MMIO_QUEUE_SEL 0 s1 = s2" by (simp add: s1_def s2_def W32_def io_wr_def)
  have n8: "mx = 0 \<or> mx < ucast NUM \<longleftrightarrow> \<not> 8 \<le> mx" for mx :: u32 by (auto simp: NUM_def not_le)
  have keep: "kmem_ok (mputs msg t) ys = kmem_ok t ys" "refs (mputs msg t) = refs t" "mem (mputs msg t) = mem t"
    "mwrites (mputs msg t) = mwrites t" "desc_pa (mputs msg t) = desc_pa t" "avail_pa (mputs msg t) = avail_pa t"
    "used_pa (mputs msg t) = used_pa t" for msg ys and t :: "'a dinit_scheme"
    by (simp_all add: mputs_def kmem_ok_def refs_def fun_eq_iff)
  have same: "refs s2 = refs s" "refs s1 = refs s" "mem s2 = mem s" "mem s1 = mem s"
    "kmem_ok s1 ys = kmem_ok s ys" "kmem_ok s2 ys = kmem_ok s ys" for ys
    by (simp_all add: s1_def s2_def refs_def fun_eq_iff kmem_ok_def)
  have fz: "fresh_zero ps s (mputs msg t) = fresh_zero ps s2 t" for ps msg and t :: "'a dinit_scheme"
    unfolding fresh_zero_def keep same ..
  have ws: "mwrites s1 = negotiation io" "mwrites s2 = negotiation io @ [(VIRTIO0 + MMIO_QUEUE_SEL, 0)]"
    by (simp_all add: s1_def s2_def)
  have init: "virtio_disk_init io v s =
    (if io [] (VIRTIO0 + MMIO_MAGIC) \<noteq> 0x74726976 \<or> io [] (VIRTIO0 + MMIO_VERSION) \<noteq> 2 \<or>
         io [] (VIRTIO0 + MMIO_DEVICE_ID) \<noteq> 2 \<or> io [] (VIRTIO0 + MMIO_VENDOR_ID) \<noteq> 0x554d4551
      then (v, mputs ''[virtio] no disk at 0x10001000\<newline>'' s)
     else if \<not> bit (io (negotiation io) (VIRTIO0 + MMIO_STATUS)) 3 then (v, mputs ''[virtio] FEATURES_OK rejected\<newline>'' s1)
     else if \<not> 8 \<le> io (negotiation io @ [(VIRTIO0 + MMIO_QUEUE_SEL, 0)]) (VIRTIO0 + MMIO_QUEUE_NUM_MAX)
      then (v, mputs ''[virtio] bad queue size\<newline>'' s2)
     else (v\<lparr>desc := replicate 8 \<lparr>addr = At_null, dlen = 0, flags = 0, dnext = 0\<rparr>,
             avail_ring := replicate 8 0, avail_idx := 0, used_idx := 0, used_seen := 0, disk_ok := True\<rparr>,
           mputs ''[ok] virtio-blk disk ready\<newline>'' (queue_up 11 s2)))"
    unfolding virtio_disk_init_def negotiate_eq [OF assms(2)] s1_def [symmetric] Let_def prod.case W n8
    by (simp add: R32_def io_rd_def assms(2) ws S_FEATURES_OK_def and_8)
  show ?thesis
    using q assms unfolding init usable_def
    by (auto simp: keep fz same ws vdisk_ok_def)
qed

section \<open>Properties\<close>

text \<open>
  Claim C32. Bringing up the disk. On a device that answers as a modern virtio block device, agrees
  to the features and has a queue of at least eight entries, \<^verbatim>\<open>virtio_disk_init\<close> leaves the
  driver ready for requests with three distinct fresh zeroed pages as its rings. The device has
  seen the status sequence 0, 1, 3, 11, 15, with DRIVER_OK as the very last write and after the
  queue was made ready; the queue registers hold the addresses of the three pages and the size 8;
  and the feature word accepted is the one offered with exactly bits 5, 7, 11, 12, 27, 28 and 29
  cleared. On any other device the driver stays off, no page is taken, no memory is written and
  DRIVER_OK is never set.
\<close>
theorem virtio_init_handshake:
  assumes "kmem_ok s (x # y # z # xs)" "mwrites s = []"
  shows "case virtio_disk_init io v s of (v', s') \<Rightarrow>
    let ws = mwrites s'; st = writes_to (VIRTIO0 + MMIO_STATUS) ws
    in if usable io then
        vdisk_ok v' \<and> device v' = device v \<and> kmem_ok s' xs \<and> fresh_zero [x, y, z] s s' \<and>
        st = [0, 1, 3, 11, 15] \<and> last ws = (VIRTIO0 + MMIO_STATUS, 15) \<and>
        last_write ws (VIRTIO0 + MMIO_QUEUE_READY) = Some 1 \<and> last_write ws (VIRTIO0 + MMIO_QUEUE_NUM) = Some 8 \<and>
        queue_addr ws (VIRTIO0 + MMIO_QUEUE_DESC_LO) (VIRTIO0 + MMIO_QUEUE_DESC_HI) = Some x \<and>
        queue_addr ws (VIRTIO0 + MMIO_DRIVER_DESC_LO) (VIRTIO0 + MMIO_DRIVER_DESC_HI) = Some y \<and>
        queue_addr ws (VIRTIO0 + MMIO_DEVICE_DESC_LO) (VIRTIO0 + MMIO_DEVICE_DESC_HI) = Some z \<and>
        (\<exists>lo hi. writes_to (VIRTIO0 + MMIO_DRIVER_FEAT) ws = [lo, hi] \<and> hi = io (take 7 ws) (VIRTIO0 + MMIO_DEVICE_FEAT) \<and>
           (\<forall>n. bit lo n \<longleftrightarrow> bit (io (take 4 ws) (VIRTIO0 + MMIO_DEVICE_FEAT)) n \<and> n \<notin> {5, 7, 11, 12, 27, 28, 29}))
      else v' = v \<and> mem s' = mem s \<and> kmem_ok s' (x # y # z # xs) \<and> refs s' = refs s \<and> 15 \<notin> set st"
proof -
  obtain v' s' where r: "virtio_disk_init io v s = (v', s')" by (cases "virtio_disk_init io v s")
  note run = disk_init_run [OF assms, of io v, unfolded r prod.case]
  show ?thesis
  proof (cases "usable io")
    case True
    then have ws: "mwrites s' = negotiation io @ (VIRTIO0 + MMIO_QUEUE_SEL, 0) # disk_queue x y z" using run by simp
    have "writes_to (VIRTIO0 + MMIO_STATUS) (mwrites s') = [0, 1, 3, 11, 15]"
      "last (mwrites s') = (VIRTIO0 + MMIO_STATUS, 15)"
      "last_write (mwrites s') (VIRTIO0 + MMIO_QUEUE_READY) = Some 1" "last_write (mwrites s') (VIRTIO0 + MMIO_QUEUE_NUM) = Some 8"
      by (simp_all add: ws negotiation_def disk_queue_def Let_def writes_to_def last_write_def mmio_regs)
    moreover have "queue_addr (mwrites s') (VIRTIO0 + MMIO_QUEUE_DESC_LO) (VIRTIO0 + MMIO_QUEUE_DESC_HI) = Some x"
      "queue_addr (mwrites s') (VIRTIO0 + MMIO_DRIVER_DESC_LO) (VIRTIO0 + MMIO_DRIVER_DESC_HI) = Some y"
      "queue_addr (mwrites s') (VIRTIO0 + MMIO_DEVICE_DESC_LO) (VIRTIO0 + MMIO_DEVICE_DESC_HI) = Some z"
      by (simp_all add: ws disk_queue_def queue_addr_def last_write_def mmio_regs split_addr)
    moreover have "\<exists>lo hi. writes_to (VIRTIO0 + MMIO_DRIVER_FEAT) (mwrites s') = [lo, hi] \<and>
           hi = io (take 7 (mwrites s')) (VIRTIO0 + MMIO_DEVICE_FEAT) \<and>
           (\<forall>n. bit lo n \<longleftrightarrow> bit (io (take 4 (mwrites s')) (VIRTIO0 + MMIO_DEVICE_FEAT)) n \<and> n \<notin> {5, 7, 11, 12, 27, 28, 29})"
      by (simp add: ws negotiation_def disk_queue_def Let_def writes_to_def mmio_regs) (simp add: drop_features_bit)
    ultimately show ?thesis using True run unfolding r Let_def prod.case by simp
  next
    case False
    then have p: "prefix (mwrites s') (negotiation io @ [(VIRTIO0 + MMIO_QUEUE_SEL, 0)])" using run by simp
    have "15 \<notin> set (writes_to (VIRTIO0 + MMIO_STATUS) (negotiation io @ [(VIRTIO0 + MMIO_QUEUE_SEL, 0)]))"
      by (simp add: negotiation_def Let_def writes_to_def mmio_regs)
    then have "15 \<notin> set (writes_to (VIRTIO0 + MMIO_STATUS) (mwrites s'))"
      using set_mono_prefix [OF p] by (auto simp: writes_to_def)
    then show ?thesis using False run unfolding r Let_def prod.case by simp
  qed
qed

text \<open>A device that offers every feature and accepts what it is told.\<close>

definition ready_dev :: mmio_dev where
  "ready_dev ws a =
     (if a = VIRTIO0 + MMIO_MAGIC then 0x74726976 else if a = VIRTIO0 + MMIO_VERSION then 2
      else if a = VIRTIO0 + MMIO_DEVICE_ID then 2 else if a = VIRTIO0 + MMIO_VENDOR_ID then 0x554d4551
      else if a = VIRTIO0 + MMIO_DEVICE_FEAT then 0xffffffff else if a = VIRTIO0 + MMIO_QUEUE_NUM_MAX then 1024
      else case last_write ws a of None \<Rightarrow> 0 | Some v \<Rightarrow> v)"

definition three_pages :: "unit dinit_scheme" where
  "three_pages = \<lparr>mem = st64 (st64 (\<lambda>_. 0) 0x87fff000 0x87ffe000) 0x87ffe000 0x87ffd000, freelist = 0x87fff000, freecnt = 3,
     refcnt = (\<lambda>_. 0), mwrites = [], mout = [], desc_pa = 0, avail_pa = 0, used_pa = 0\<rparr>"

lemma three_pages_ok: "kmem_ok three_pages [0x87fff000, 0x87ffe000, 0x87ffd000]"
proof -
  let ?m = "mem three_pages"
  have "ld64 ?m 0x87fff000 = 0x87ffe000" "ld64 ?m 0x87ffe000 = 0x87ffd000"
    by (simp_all add: three_pages_def ld64_st64_other)
  moreover have "ld64 ?m 0x87ffd000 = 0"
    unfolding three_pages_def by (simp add: ld64_st64_other) (simp add: ld64_def un_le64_def)
  ultimately show ?thesis
    by (simp add: kmem_ok_def) (simp add: three_pages_def ram_page_def RAMBASE_def PHYSTOP_def)
qed

lemma ready_usable: "usable ready_dev"
  by (simp add: usable_def ready_dev_def mmio_regs last_write_def negotiation_def Let_def VIRTIO0_def bit_numeral_rec)

theorem virtio_init_handshake_witness:
  "case virtio_disk_init ready_dev \<lparr>disk_ok = False, desc = [], avail_ring = [], avail_idx = 0, used_idx = 0, used_seen = 0,
     breq = \<lparr>rtype = 0, reserved = 0, sector = 0\<rparr>, bstatus = 0, device = ()\<rparr> three_pages of (v', s') \<Rightarrow>
   vdisk_ok v' \<and> writes_to (VIRTIO0 + MMIO_STATUS) (mwrites s') = [0, 1, 3, 11, 15] \<and>
   queue_addr (mwrites s') (VIRTIO0 + MMIO_QUEUE_DESC_LO) (VIRTIO0 + MMIO_QUEUE_DESC_HI) = Some 0x87fff000"
proof -
  let ?v = "\<lparr>disk_ok = False, desc = [], avail_ring = [], avail_idx = 0, used_idx = 0, used_seen = 0,
     breq = \<lparr>rtype = 0, reserved = 0, sector = 0\<rparr>, bstatus = 0, device = ()\<rparr>"
  obtain v' s' where r: "virtio_disk_init ready_dev ?v three_pages = (v', s')"
    by (cases "virtio_disk_init ready_dev ?v three_pages")
  have "mwrites three_pages = []" by (simp add: three_pages_def)
  from virtio_init_handshake [OF three_pages_ok this, of ready_dev ?v, unfolded r prod.case Let_def if_P [OF ready_usable]]
  show ?thesis unfolding r prod.case by (elim conjE) (intro conjI)
qed

end
