(* ===== verification/NetInit.thy ===== *)
theory NetInit
  imports Mmio Net
begin

text \<open>
  \<^verbatim>\<open>net_init\<close> and \<^verbatim>\<open>setup_queue\<close> of \<^verbatim>\<open>src/src/net.c\<close>: the search for the card among eight slots, the
  feature negotiation, the two queues and the receive buffers. The registers are read through
  \<open>io\<close> as in the disk driver, the bytes of the configuration space through \<open>cfg\<close>. The descriptors of the receive
  queue and the ring entries are fields of the records, not bytes of the ring pages, which stay zero in \<open>mem\<close>; the counters
  \<^verbatim>\<open>used_seen\<close> that \<^verbatim>\<open>setup_queue\<close> clears are fields of \<open>net\<close> and set by \<open>net_init\<close>.
\<close>

section \<open>The driver's start\<close>

definition MMIO_CONFIG :: u64 where "MMIO_CONFIG = 0x100"
definition VIRTIO_NET_F_MAC :: nat where "VIRTIO_NET_F_MAC = 5"


text \<open>The addresses of the rings of one queue; the arrays in them are those of the driver's record.\<close>

record vq =
  q_desc :: u64
  q_avail :: u64
  q_used :: u64

record rx_desc =
  rd_addr :: u64
  rd_len :: u32
  rd_flags :: u16
  rd_next :: u16

record ninit = mmio +
  net_base :: u64
  rxq :: vq
  txq :: vq
  rxbuf :: "u64 list"
  rx_descs :: "rx_desc list"
  txframe_pa :: u64

definition NR32 :: "mmio_dev \<Rightarrow> u64 \<Rightarrow> 'a ninit_scheme \<Rightarrow> u32" where
  "NR32 io off s = io_rd io (net_base s + off) s"

definition NW32 :: "u64 \<Rightarrow> u32 \<Rightarrow> 'a ninit_scheme \<Rightarrow> 'a ninit_scheme" where
  "NW32 off v s = io_wr (net_base s + off) v s"

text \<open>\<^verbatim>\<open>setup_queue\<close>; the zeroed rings and the reset of \<^verbatim>\<open>used_seen\<close> are set in \<^verbatim>\<open>net_init\<close>.\<close>

definition setup_queue :: "u32 \<Rightarrow> 'a ninit_scheme \<Rightarrow> vq \<times> 'a ninit_scheme" where
  "setup_queue qidx s =
     (let s = NW32 MMIO_QUEUE_SEL qidx s;
          (d, a, u, s) = ring_pages s;
          s = NW32 MMIO_QUEUE_NUM (ucast Net.NUM) s;
          s = NW32 MMIO_QUEUE_DESC_LO (ucast d) s;
          s = NW32 MMIO_QUEUE_DESC_HI (ucast (drop_bit 32 d)) s;
          s = NW32 MMIO_DRIVER_DESC_LO (ucast a) s;
          s = NW32 MMIO_DRIVER_DESC_HI (ucast (drop_bit 32 a)) s;
          s = NW32 MMIO_DEVICE_DESC_LO (ucast u) s;
          s = NW32 MMIO_DEVICE_DESC_HI (ucast (drop_bit 32 u)) s;
          s = NW32 MMIO_QUEUE_READY 1 s
      in (\<lparr>q_desc = d, q_avail = a, q_used = u\<rparr>, s))"

text \<open>The first slot with a modern network card; \<open>net_base\<close> stays 0 without one.\<close>

definition net_slot :: "mmio_dev \<Rightarrow> 'a mmio_scheme \<Rightarrow> nat \<Rightarrow> bool" where
  "net_slot io s i =
     (let base = 0x10001000 + of_nat i * 0x1000 in
      io_rd io (base + MMIO_MAGIC) s = 0x74726976 \<and> io_rd io (base + MMIO_VERSION) s = 2 \<and> io_rd io (base + MMIO_DEVICE_ID) s = 1)"

definition net_find :: "mmio_dev \<Rightarrow> 'a ninit_scheme \<Rightarrow> 'a ninit_scheme" where
  "net_find io s = (case find (net_slot io s) [0..<8] of None \<Rightarrow> s | Some i \<Rightarrow> s\<lparr>net_base := 0x10001000 + of_nat i * 0x1000\<rparr>)"

definition net_negotiate :: "mmio_dev \<Rightarrow> 'a ninit_scheme \<Rightarrow> u32 \<times> 'a ninit_scheme" where
  "net_negotiate io s =
     (let status = 0; s = NW32 MMIO_STATUS status s;
          status = status OR S_ACKNOWLEDGE; s = NW32 MMIO_STATUS status s;
          status = status OR S_DRIVER; s = NW32 MMIO_STATUS status s;
          s = NW32 MMIO_DEVICE_FEAT_SEL 0 s;
          lo = NR32 io MMIO_DEVICE_FEAT s;
          lo = lo AND push_bit VIRTIO_NET_F_MAC 1;
          s = NW32 MMIO_DRIVER_FEAT_SEL 0 s;
          s = NW32 MMIO_DRIVER_FEAT lo s;
          s = NW32 MMIO_DEVICE_FEAT_SEL 1 s;
          hi = NR32 io MMIO_DEVICE_FEAT s AND 0x1;
          s = NW32 MMIO_DRIVER_FEAT_SEL 1 s;
          s = NW32 MMIO_DRIVER_FEAT hi s;
          status = status OR S_FEATURES_OK
      in (status, NW32 MMIO_STATUS status s))"

text \<open>One receive buffer per descriptor, \<open>n\<close> of them.\<close>

fun rx_buffers :: "nat \<Rightarrow> 'a ninit_scheme \<Rightarrow> 'a ninit_scheme" where
  "rx_buffers 0 s = s"
| "rx_buffers (Suc n) s =
     (let s = rx_buffers n s; (p, s) = kalloc s
      in s\<lparr>rxbuf := (rxbuf s)[n := p],
           rx_descs := (rx_descs s)[n := \<lparr>rd_addr = p, rd_len = of_int BUFSZ, rd_flags = VRING_DESC_F_WRITE, rd_next = 0\<rparr>]\<rparr>)"

definition net_init :: "mmio_dev \<Rightarrow> (mmio_write list \<Rightarrow> u64 \<Rightarrow> u8) \<Rightarrow> 'd net \<Rightarrow> 'a ninit_scheme \<Rightarrow> int \<times> 'd net \<times> 'a ninit_scheme" where
  "net_init io cfg w s =
     (let s = net_find io s in
      if net_base s = 0 then (-1, nputs ''[net] no virtio-net device\<newline>'' w, s)
      else
        let (status, s) = net_negotiate io s in
        if NR32 io MMIO_STATUS s AND S_FEATURES_OK = 0 then (-1, nputs ''[net] FEATURES_OK rejected\<newline>'' w, s)
        else
          let w = w\<lparr>my_mac := map (\<lambda>i. cfg (mwrites s) (net_base s + MMIO_CONFIG + of_nat i)) [0..<6]\<rparr>;
              (rx, s) = setup_queue 0 s; s = s\<lparr>rxq := rx, rx_descs := replicate 8 \<lparr>rd_addr = 0, rd_len = 0, rd_flags = 0, rd_next = 0\<rparr>\<rparr>;
              w = w\<lparr>rx_ring := replicate 8 0, rx_idx := 0, rx_seen := 0\<rparr>;
              (tx, s) = setup_queue 1 s; s = s\<lparr>txq := tx\<rparr>;
              w = w\<lparr>tx_ring := replicate 8 0, tx_idx := 0, tx_seen := 0\<rparr>;
              s = rx_buffers 8 s;
              w = w\<lparr>rx_ring := map of_nat [0..<8], rx_idx := Net.NUM\<rparr>;
              (p, s) = kalloc s; s = s\<lparr>txframe_pa := p\<rparr>;
              status = status OR S_DRIVER_OK; s = NW32 MMIO_STATUS status s;
              s = NW32 MMIO_QUEUE_NOTIFY 0 s;
              w = w\<lparr>net_ok := True, txframe := (\<lambda>i. mem s (p + of_nat i))\<rparr>
          in (0, nputc 10 (print_mac (my_mac w) (nputs ''[ok] virtio-net ready, mac '' w)), s))"

section \<open>Buffers\<close>

lemma kalloc_ninit:
  fixes s :: "'a ninit_scheme"
  shows "mwrites (snd (kalloc s)) = mwrites s" "net_base (snd (kalloc s)) = net_base s" "rxq (snd (kalloc s)) = rxq s"
    "txq (snd (kalloc s)) = txq s" "rxbuf (snd (kalloc s)) = rxbuf s" "rx_descs (snd (kalloc s)) = rx_descs s"
  by (simp_all add: kalloc_def Let_def)

definition rx_entry :: "u64 \<Rightarrow> rx_desc" where
  "rx_entry p = \<lparr>rd_addr = p, rd_len = 2048, rd_flags = 2, rd_next = 0\<rparr>"

text \<open>The free pages \<open>ps\<close> become the first \<open>n\<close> buffers, in order.\<close>

lemma rx_buffers_ok:
  fixes s :: "'a ninit_scheme"
  assumes "kmem_ok s (ps @ xs)" "length ps = n" "n \<le> length (rxbuf s)" "n \<le> length (rx_descs s)"
  shows "kmem_ok (rx_buffers n s) xs \<and> mem (rx_buffers n s) = mem s \<and>
    refs (rx_buffers n s) = (\<lambda>q. if q \<in> set ps then 1 else refs s q) \<and>
    rxbuf (rx_buffers n s) = ps @ drop n (rxbuf s) \<and> rx_descs (rx_buffers n s) = map rx_entry ps @ drop n (rx_descs s) \<and>
    mwrites (rx_buffers n s) = mwrites s \<and> net_base (rx_buffers n s) = net_base s \<and>
    rxq (rx_buffers n s) = rxq s \<and> txq (rx_buffers n s) = txq s"
  using assms
proof (induction n arbitrary: ps xs)
  case 0
  then show ?case by simp
next
  case (Suc n)
  from \<open>length ps = Suc n\<close> obtain qs p where ps: "ps = qs @ [p]" and n: "length qs = n" by (cases ps rule: rev_cases) auto
  let ?t = "rx_buffers n s"
  have ih: "kmem_ok ?t (p # xs)" "mem ?t = mem s" "refs ?t = (\<lambda>q. if q \<in> set qs then 1 else refs s q)"
    "rxbuf ?t = qs @ drop n (rxbuf s)" "rx_descs ?t = map rx_entry qs @ drop n (rx_descs s)"
    "mwrites ?t = mwrites s" "net_base ?t = net_base s" "rxq ?t = rxq s" "txq ?t = txq s"
    using Suc.IH [of qs "p # xs"] Suc.prems n by (simp_all add: ps)
  obtain t where t: "kalloc ?t = (p, t)" "kmem_ok t xs" "refs t = (refs ?t)(p := 1)" "mem t = mem ?t"
    using kalloc_Cons [OF ih(1)] by simp
  have t': "mwrites t = mwrites s" "net_base t = net_base s" "rxq t = rxq s" "txq t = txq s" "rxbuf t = rxbuf ?t" "rx_descs t = rx_descs ?t"
    using kalloc_ninit [of ?t] by (simp_all add: t(1) ih)
  have step: "rx_buffers (Suc n) s = t\<lparr>rxbuf := (rxbuf ?t)[n := p], rx_descs := (rx_descs ?t)[n := rx_entry p]\<rparr>"
    by (simp add: Let_def t(1) t' rx_entry_def BUFSZ_def VRING_DESC_F_WRITE_def)
  have upd: "(ys @ drop n zs)[n := y] = (ys @ [y]) @ drop (Suc n) zs" if "length ys = n" "Suc n \<le> length zs" for ys zs and y :: 'b
  proof -
    have "drop n zs = zs ! n # drop (Suc n) zs" using that by (simp add: Cons_nth_drop_Suc)
    then show ?thesis using that by (simp add: list_update_append)
  qed
  have "kmem_ok (rx_buffers (Suc n) s) xs" unfolding step using t(2) by (rule kmem_ok_more) simp_all
  moreover have "refs (rx_buffers (Suc n) s) = refs t" unfolding step by (rule refs_more) simp
  moreover have "rxbuf (rx_buffers (Suc n) s) = ps @ drop (Suc n) (rxbuf s)"
    unfolding step using upd [of qs "rxbuf s" p] n Suc.prems by (simp add: ih ps)
  moreover have "rx_descs (rx_buffers (Suc n) s) = map rx_entry ps @ drop (Suc n) (rx_descs s)"
    unfolding step using upd [of "map rx_entry qs" "rx_descs s" "rx_entry p"] n Suc.prems by (simp add: ih ps)
  moreover have "mem (rx_buffers (Suc n) s) = mem s" "mwrites (rx_buffers (Suc n) s) = mwrites s"
    "net_base (rx_buffers (Suc n) s) = net_base s" "rxq (rx_buffers (Suc n) s) = rxq s" "txq (rx_buffers (Suc n) s) = txq s"
    unfolding step by (simp_all add: t t' ih)
  moreover have "refs t = (\<lambda>q. if q \<in> set ps then 1 else refs s q)" by (auto simp: t(3) ih(3) ps fun_eq_iff)
  ultimately show ?case by simp
qed

section \<open>Queues\<close>

definition queue_writes :: "u64 \<Rightarrow> u32 \<Rightarrow> vq \<Rightarrow> mmio_write list" where
  "queue_writes b k q = [(b + MMIO_QUEUE_SEL, k), (b + MMIO_QUEUE_NUM, 8),
     (b + MMIO_QUEUE_DESC_LO, ucast (q_desc q)), (b + MMIO_QUEUE_DESC_HI, ucast (drop_bit 32 (q_desc q))),
     (b + MMIO_DRIVER_DESC_LO, ucast (q_avail q)), (b + MMIO_DRIVER_DESC_HI, ucast (drop_bit 32 (q_avail q))),
     (b + MMIO_DEVICE_DESC_LO, ucast (q_used q)), (b + MMIO_DEVICE_DESC_HI, ucast (drop_bit 32 (q_used q))),
     (b + MMIO_QUEUE_READY, 1)]"

lemma fresh_zero_more:
  "refcnt s' = refcnt s \<Longrightarrow> mem s' = mem s \<Longrightarrow> refcnt t' = refcnt t \<Longrightarrow> mem t' = mem t \<Longrightarrow> fresh_zero ps s' t' = fresh_zero ps s t"
  by (simp add: fresh_zero_def refs_def fun_eq_iff)

lemma fresh_zeroD:
  assumes "fresh_zero ps s s'"
  shows "refs s' = (\<lambda>q. if q \<in> set ps then 1 else refs s q)" "mem s' = (\<lambda>a. if page_no a \<in> page_no ` set ps then 0 else mem s a)"
  using assms by (simp_all add: fresh_zero_def)

lemma setup_queue_ok:
  fixes s :: "'a ninit_scheme"
  assumes "kmem_ok s (x # y # z # xs)"
  obtains s' where "setup_queue k s = (\<lparr>q_desc = x, q_avail = y, q_used = z\<rparr>, s')" "kmem_ok s' xs" "fresh_zero [x, y, z] s s'"
    "mwrites s' = mwrites s @ queue_writes (net_base s) k \<lparr>q_desc = x, q_avail = y, q_used = z\<rparr>"
    "net_base s' = net_base s" "rxq s' = rxq s" "rxbuf s' = rxbuf s" "rx_descs s' = rx_descs s"
proof -
  let ?s = "NW32 MMIO_QUEUE_SEL k s" and ?q = "\<lparr>q_desc = x, q_avail = y, q_used = z\<rparr>"
  have "kmem_ok ?s (x # y # z # xs)" using assms by (rule kmem_ok_more) (simp_all add: NW32_def io_wr_def)
  then obtain t where t: "ring_pages ?s = (x, y, z, t)" "kmem_ok t xs" "fresh_zero [x, y, z] ?s t" "kmem.more t = kmem.more ?s"
    using ring_pages_ok by blast
  have f: "mwrites t = mwrites ?s" "net_base t = net_base ?s" "rxq t = rxq ?s" "rxbuf t = rxbuf ?s" "rx_descs t = rx_descs ?s"
    using t(4) by (cases t; cases s; simp add: NW32_def io_wr_def)+
  let ?s' = "t\<lparr>mwrites := mwrites t @ tl (queue_writes (net_base s) k ?q)\<rparr>"
  show thesis
  proof (rule that)
    show "setup_queue k s = (?q, ?s')"
      unfolding setup_queue_def Let_def t(1) prod.case
      by (simp add: queue_writes_def NW32_def io_wr_def Net.NUM_def f)
    show "kmem_ok ?s' xs" using t(2) by (rule kmem_ok_more) simp_all
    show "fresh_zero [x, y, z] s ?s'" using t(3) by (subst fresh_zero_more [of s ?s ?s' t]) (simp_all add: NW32_def io_wr_def)
  qed (simp_all add: f NW32_def io_wr_def queue_writes_def)
qed

section \<open>Negotiation\<close>

definition net_offer :: "mmio_dev \<Rightarrow> u64 \<Rightarrow> mmio_write list" where
  "net_offer io b =
     (let ws = [(b + MMIO_STATUS, 0), (b + MMIO_STATUS, 1), (b + MMIO_STATUS, 3), (b + MMIO_DEVICE_FEAT_SEL, 0)];
          lo = io ws (b + MMIO_DEVICE_FEAT) AND 32;
          ws = ws @ [(b + MMIO_DRIVER_FEAT_SEL, 0), (b + MMIO_DRIVER_FEAT, lo), (b + MMIO_DEVICE_FEAT_SEL, 1)]
      in ws @ [(b + MMIO_DRIVER_FEAT_SEL, 1), (b + MMIO_DRIVER_FEAT, io ws (b + MMIO_DEVICE_FEAT) AND 1), (b + MMIO_STATUS, 11)])"

lemma net_negotiate_eq:
  "mwrites s = [] \<Longrightarrow> net_negotiate io s = (11, s\<lparr>mwrites := net_offer io (net_base s)\<rparr>)"
  by (simp add: net_negotiate_def net_offer_def Let_def NW32_def io_wr_def NR32_def io_rd_def status_bits VIRTIO_NET_F_MAC_def)

text \<open>The first slot that answers as a network card, and whether that card agrees.\<close>

definition slot_base :: "nat \<Rightarrow> u64" where
  "slot_base i = 0x10001000 + of_nat i * 0x1000"

definition is_card :: "mmio_dev \<Rightarrow> nat \<Rightarrow> bool" where
  "is_card io i \<longleftrightarrow> io [] (slot_base i + MMIO_MAGIC) = 0x74726976 \<and> io [] (slot_base i + MMIO_VERSION) = 2 \<and> io [] (slot_base i + MMIO_DEVICE_ID) = 1"

definition card_at :: "mmio_dev \<Rightarrow> nat option" where
  "card_at io = (case find (is_card io) [0..<8] of None \<Rightarrow> None
     | Some i \<Rightarrow> if bit (io (net_offer io (slot_base i)) (slot_base i + MMIO_STATUS)) 3 then Some i else None)"

lemma net_find_eq:
  assumes "mwrites s = []"
  shows "net_find io s = (case find (is_card io) [0..<8] of None \<Rightarrow> s | Some i \<Rightarrow> s\<lparr>net_base := slot_base i\<rparr>)"
proof -
  have "net_slot io s = is_card io"
    by (simp add: fun_eq_iff net_slot_def is_card_def slot_base_def Let_def io_rd_def assms)
  then show ?thesis by (auto simp: net_find_def slot_base_def split: option.split)
qed

lemma slot_base_nonzero:
  assumes "i < 8"
  shows "slot_base i \<noteq> 0"
proof -
  have "i = 0 \<or> i = 1 \<or> i = 2 \<or> i = 3 \<or> i = 4 \<or> i = 5 \<or> i = 6 \<or> i = 7" using assms by linarith
  then show ?thesis by (auto simp: slot_base_def)
qed

text \<open>The pages the driver takes: six zeroed ring pages, eight buffers to receive into, one to send from.\<close>

definition net_pages :: "u64 list \<Rightarrow> 'a kmem_scheme \<Rightarrow> 'b kmem_scheme \<Rightarrow> bool" where
  "net_pages ps s s' \<longleftrightarrow> refs s' = (\<lambda>q. if q \<in> set ps then 1 else refs s q) \<and>
     mem s' = (\<lambda>a. if page_no a \<in> page_no ` set (take 6 ps) then 0 else mem s a)"

lemma net_pages_more:
  "refcnt s' = refcnt s \<Longrightarrow> mem s' = mem s \<Longrightarrow> refcnt t' = refcnt t \<Longrightarrow> mem t' = mem t \<Longrightarrow> net_pages ps s' t' = net_pages ps s t"
  by (simp add: net_pages_def refs_def fun_eq_iff)

definition net_up :: "mmio_dev \<Rightarrow> u64 \<Rightarrow> u64 list \<Rightarrow> 'd net \<Rightarrow> ninit \<Rightarrow> bool" where
  "net_up io b ps w s \<longleftrightarrow> net_ok w \<and> length (my_mac w) = 6 \<and>
     ps = [q_desc (rxq s), q_avail (rxq s), q_used (rxq s), q_desc (txq s), q_avail (txq s), q_used (txq s)] @ rxbuf s @ [txframe_pa s] \<and>
     rx_descs s = map rx_entry (rxbuf s) \<and> rx_ring w = [0, 1, 2, 3, 4, 5, 6, 7] \<and> rx_idx w = 8 \<and> rx_seen w = 0 \<and>
     tx_idx w = 0 \<and> tx_seen w = 0 \<and>
     mwrites s = net_offer io b @ queue_writes b 0 (rxq s) @ queue_writes b 1 (txq s) @ [(b + MMIO_STATUS, 15), (b + MMIO_QUEUE_NOTIFY, 0)]"

lemma net_queues_up:
  fixes s :: ninit
  assumes k: "kmem_ok s ([a, b, c, d, e, f] @ bufs @ p # xs)" and len: "length bufs = 8" "length (rxbuf s) = 8"
  defines "rx \<equiv> \<lparr>q_desc = a, q_avail = b, q_used = c\<rparr>" and "tx \<equiv> \<lparr>q_desc = d, q_avail = e, q_used = f\<rparr>"
  obtains s1 s2 s3 where "setup_queue 0 s = (rx, s1)"
    "setup_queue 1 (s1\<lparr>rxq := rx, rx_descs := replicate 8 \<lparr>rd_addr = 0, rd_len = 0, rd_flags = 0, rd_next = 0\<rparr>\<rparr>) = (tx, s2)"
    "kalloc (rx_buffers 8 (s2\<lparr>txq := tx\<rparr>)) = (p, s3)" "kmem_ok s3 xs" "net_pages ([a, b, c, d, e, f] @ bufs @ [p]) s s3"
    "mwrites s3 = mwrites s @ queue_writes (net_base s) 0 rx @ queue_writes (net_base s) 1 tx" "net_base s3 = net_base s"
    "rxq s3 = rx" "txq s3 = tx" "rxbuf s3 = bufs" "rx_descs s3 = map rx_entry bufs"
proof -
  let ?empty = "\<lparr>rd_addr = 0, rd_len = 0, rd_flags = 0, rd_next = 0\<rparr>"
  obtain s1 where s1: "setup_queue 0 s = (rx, s1)" "kmem_ok s1 ([d, e, f] @ bufs @ p # xs)" "fresh_zero [a, b, c] s s1"
    "mwrites s1 = mwrites s @ queue_writes (net_base s) 0 rx" "net_base s1 = net_base s" "rxbuf s1 = rxbuf s"
    using setup_queue_ok [of s a b c "[d, e, f] @ bufs @ p # xs" 0] k unfolding rx_def by auto
  let ?t1 = "s1\<lparr>rxq := rx, rx_descs := replicate 8 ?empty\<rparr>"
  have "kmem_ok ?t1 ([d, e, f] @ bufs @ p # xs)" using s1(2) by (rule kmem_ok_more) simp_all
  then obtain s2 where s2: "setup_queue 1 ?t1 = (tx, s2)" "kmem_ok s2 (bufs @ p # xs)" "fresh_zero [d, e, f] ?t1 s2"
    "mwrites s2 = mwrites ?t1 @ queue_writes (net_base ?t1) 1 tx" "net_base s2 = net_base ?t1" "rxq s2 = rxq ?t1"
    "rxbuf s2 = rxbuf ?t1" "rx_descs s2 = rx_descs ?t1"
    using setup_queue_ok [of ?t1 d e f "bufs @ p # xs" 1] unfolding tx_def by auto
  let ?t2 = "s2\<lparr>txq := tx\<rparr>" and ?t3 = "rx_buffers 8 (s2\<lparr>txq := tx\<rparr>)"
  have "kmem_ok ?t2 (bufs @ p # xs)" using s2(2) by (rule kmem_ok_more) simp_all
  from rx_buffers_ok [OF this len(1)]
  have t3: "kmem_ok ?t3 (p # xs)" "mem ?t3 = mem ?t2" "refs ?t3 = (\<lambda>q. if q \<in> set bufs then 1 else refs ?t2 q)"
    "rxbuf ?t3 = bufs" "rx_descs ?t3 = map rx_entry bufs" "mwrites ?t3 = mwrites ?t2" "net_base ?t3 = net_base ?t2"
    "rxq ?t3 = rxq ?t2" "txq ?t3 = txq ?t2"
    using len s1(6) s2(7,8) by simp_all
  obtain s3 where s3: "kalloc ?t3 = (p, s3)" "kmem_ok s3 xs" "refs s3 = (refs ?t3)(p := 1)" "mem s3 = mem ?t3"
    using kalloc_Cons [OF t3(1)] by simp
  have f3: "mwrites s3 = mwrites ?t3" "net_base s3 = net_base ?t3" "rxq s3 = rxq ?t3" "txq s3 = txq ?t3" "rxbuf s3 = rxbuf ?t3"
    "rx_descs s3 = rx_descs ?t3" using kalloc_ninit [of ?t3] by (simp_all only: s3(1) snd_conv)
  have r: "refs ?t1 = refs s1" "refs ?t2 = refs s2" by (rule refs_more, simp)+
  have m1: "mem ?t1 = mem s1" by simp
  have ors: "(if P then z else if Q then z else y) = (if P \<or> Q then z else y)" for P Q and z y :: 'z by simp
  note fz = fresh_zeroD [OF s1(3)] fresh_zeroD [OF s2(3), unfolded r(1) m1]
  have "refs s3 = (\<lambda>q. if q = p \<or> q \<in> set bufs \<or> q \<in> set [d, e, f] \<or> q \<in> set [a, b, c] then 1 else refs s q)"
    by (rule ext) (simp only: s3(3) t3(3) r(2) fz(1,3) fun_upd_def ors disj_assoc)
  moreover have "mem s3 = (\<lambda>x. if page_no x \<in> page_no ` set [d, e, f] \<or> page_no x \<in> page_no ` set [a, b, c] then 0 else mem s x)"
    by (rule ext) (simp add: s3(4) t3(2) fz(2,4))
  ultimately have "net_pages ([a, b, c, d, e, f] @ bufs @ [p]) s s3"
    unfolding net_pages_def by (intro conjI) (simp, rule ext, rule if_cong, auto)+
  then show thesis
    by (rule that [OF s1(1) s2(1) s3(1,2)])
      (simp_all only: f3 t3, simp_all add: s2 s1)
qed

lemma split_pages:
  assumes "length ps = 15"
  obtains a b c d e f bufs p where "ps = [a, b, c, d, e, f] @ bufs @ [p]" "length bufs = 8"
proof -
  have "length (drop 6 ps) = Suc 8" using assms by simp
  then obtain bufs p where d: "drop 6 ps = bufs @ [p]" "length bufs = 8" by (cases "drop 6 ps" rule: rev_cases) auto
  have "length (take 6 ps) = Suc (Suc (Suc (Suc (Suc (Suc 0)))))" using assms by simp
  then obtain a b c d e f where "take 6 ps = [a, b, c, d, e, f]" by (auto simp only: length_Suc_conv length_0_conv)
  then show thesis using that d append_take_drop_id [of 6 ps] by metis
qed

lemma print_mac_keeps:
  "net_ok (print_mac m w) = net_ok w" "my_mac (print_mac m w) = my_mac w" "rx_ring (print_mac m w) = rx_ring w"
  "rx_idx (print_mac m w) = rx_idx w" "rx_seen (print_mac m w) = rx_seen w" "tx_idx (print_mac m w) = tx_idx w" "tx_seen (print_mac m w) = tx_seen w"
  by (simp_all add: print_mac_def nputc_def Let_def upt_rec)

text \<open>
  Claim C33. Bringing up the network card. \<^verbatim>\<open>net_init\<close> takes the first of eight slots that answers as a
  modern network card. If that card accepts the features offered to it (at most the MAC address
  and VERSION_1) the driver is up: fifteen distinct free pages are taken, six of them as zeroed
  rings, eight as receive buffers whose descriptors give the card their addresses, 2048 bytes and
  the write permission, one for sending; the card has seen the negotiation, both queues with
  their ring addresses and then DRIVER_OK and the notification of the receive queue, in this order.
  Otherwise \<^verbatim>\<open>net_init\<close> returns -1, the driver stays off and no page is taken or written.
\<close>

theorem net_init_correct:
  fixes s :: ninit
  assumes "kmem_ok s (ps @ xs)" "length ps = 15" "mwrites s = []" "net_base s = 0" "length (rxbuf s) = 8" "\<not> net_ok w"
  shows "case net_init io cfg w s of (r, w', s') \<Rightarrow>
    case card_at io of
      Some i \<Rightarrow> r = 0 \<and> net_up io (slot_base i) ps w' s' \<and> distinct ps \<and> net_pages ps s s' \<and> kmem_ok s' xs
    | None \<Rightarrow> r = -1 \<and> \<not> net_ok w' \<and> mem s' = mem s \<and> refs s' = refs s \<and> kmem_ok s' (ps @ xs)"
proof (cases "find (is_card io) [0..<8]")
  case None
  then show ?thesis using assms by (simp add: net_init_def card_at_def net_find_eq nputs_def)
next
  case (Some i)
  then have i: "slot_base i \<noteq> 0" by (auto simp: find_Some_iff slot_base_nonzero)
  let ?b = "slot_base i"
  let ?t = "s\<lparr>net_base := ?b, mwrites := net_offer io ?b\<rparr>"
  have ok: "kmem_ok ?t (ps @ xs)" using assms(1) by (rule kmem_ok_more) simp_all
  have neg: "net_negotiate io (s\<lparr>net_base := ?b\<rparr>) = (11, ?t)" using assms(3) by (simp add: net_negotiate_eq)
  have st: "NR32 io MMIO_STATUS ?t AND S_FEATURES_OK = 0 \<longleftrightarrow> \<not> bit (io (net_offer io ?b) (?b + MMIO_STATUS)) 3"
    by (simp add: NR32_def io_rd_def S_FEATURES_OK_def and_8)
  note init = net_init_def [of io cfg w s, unfolded net_find_eq [OF assms(3)] Some option.case Let_def]
  show ?thesis
  proof (cases "bit (io (net_offer io ?b) (?b + MMIO_STATUS)) 3")
    case False
    then have "net_init io cfg w s = (-1, nputs ''[net] FEATURES_OK rejected\<newline>'' w, ?t)" using i by (simp add: init neg st)
    then show ?thesis using False assms(6) ok refs_more [of ?t s] by (simp add: card_at_def Some nputs_def)
  next
    case True
    obtain a b c d e f bufs p where ps: "ps = [a, b, c, d, e, f] @ bufs @ [p]" "length bufs = 8"
      using assms(2) by (rule split_pages)
    have "kmem_ok ?t ([a, b, c, d, e, f] @ bufs @ p # xs)" using ok by (simp add: ps(1))
    then obtain s1 s2 s3 where u: "setup_queue 0 ?t = (\<lparr>q_desc = a, q_avail = b, q_used = c\<rparr>, s1)"
      "setup_queue 1 (s1\<lparr>rxq := \<lparr>q_desc = a, q_avail = b, q_used = c\<rparr>,
         rx_descs := replicate 8 \<lparr>rd_addr = 0, rd_len = 0, rd_flags = 0, rd_next = 0\<rparr>\<rparr>) = (\<lparr>q_desc = d, q_avail = e, q_used = f\<rparr>, s2)"
      "kalloc (rx_buffers 8 (s2\<lparr>txq := \<lparr>q_desc = d, q_avail = e, q_used = f\<rparr>\<rparr>)) = (p, s3)" "kmem_ok s3 xs" "net_pages ps ?t s3"
      "mwrites s3 = mwrites ?t @ queue_writes (net_base ?t) 0 \<lparr>q_desc = a, q_avail = b, q_used = c\<rparr> @
         queue_writes (net_base ?t) 1 \<lparr>q_desc = d, q_avail = e, q_used = f\<rparr>" "net_base s3 = net_base ?t"
      "rxq s3 = \<lparr>q_desc = a, q_avail = b, q_used = c\<rparr>" "txq s3 = \<lparr>q_desc = d, q_avail = e, q_used = f\<rparr>" "rxbuf s3 = bufs"
      "rx_descs s3 = map rx_entry bufs"
      using ps assms(5) by (elim net_queues_up) simp_all
    let ?s' = "s3\<lparr>txframe_pa := p, mwrites := mwrites s3 @ [(?b + MMIO_STATUS, 15), (?b + MMIO_QUEUE_NOTIFY, 0)]\<rparr>"
    define w' where "w' = fst (snd (net_init io cfg w s))"
    have run: "net_init io cfg w s = (0, w', ?s')"
      using i True by (simp add: w'_def init neg st u NW32_def io_wr_def S_DRIVER_OK_def)
    have w': "net_up io ?b ps w' ?s'"
      using i True by (simp add: w'_def init neg st u NW32_def io_wr_def net_up_def print_mac_keeps nputs_def nputc_def Net.NUM_def ps upt_rec)
    have "kmem_ok ?s' xs" using u(4) by (rule kmem_ok_more) simp_all
    moreover have "net_pages ps s ?s'" using u(5) by (subst net_pages_more [of s ?t ?s' s3]) simp_all
    moreover have "distinct ps" using kmem_ok_D(2) [OF assms(1)] by simp
    ultimately show ?thesis using w' True by (simp add: run card_at_def Some)
  qed
qed

text \<open>A card in the fourth slot that agrees, after the allocator has been initialised.\<close>

definition card_dev :: mmio_dev where
  "card_dev ws a =
     (if a = 0x10004000 then 0x74726976 else if a = 0x10004004 then 2 else if a = 0x10004008 then 1
      else if a = 0x10004010 then 0xffffffff else case last_write ws a of None \<Rightarrow> 0 | Some v \<Rightarrow> v)"

definition net_boot :: ninit where
  "net_boot = (let k = kinit 0x80234567 boot_kmem in
     \<lparr>mem = mem k, freelist = freelist k, freecnt = freecnt k, refcnt = refcnt k, mwrites = [], mout = [], net_base = 0,
      rxq = \<lparr>q_desc = 0, q_avail = 0, q_used = 0\<rparr>, txq = \<lparr>q_desc = 0, q_avail = 0, q_used = 0\<rparr>, rxbuf = replicate 8 0,
      rx_descs = [], txframe_pa = 0\<rparr>)"

definition net_off :: "unit net" where
  "net_off = \<lparr>net_ok = False, my_mac = [], tx_ring = [], tx_idx = 0, tx_seen = 0, rx_ring = [], rx_idx = 0, rx_seen = 0,
     txframe = (\<lambda>_. 0), stk = (\<lambda>_. 0), nic = (), nout = []\<rparr>"

lemma net_boot_pages: "\<exists>ps xs. kmem_ok net_boot (ps @ xs) \<and> length ps = 15"
proof -
  obtain ys where ys: "kmem_ok (kinit 0x80234567 boot_kmem) ys" "set ys = {q. ram_page q \<and> 0x80234567 \<le> q}"
    using kinit_ok(1) [of "0x80234567" boot_kmem] by (auto simp: boot_kmem_def RAMBASE_def PHYSTOP_def)
  have "15 \<le> card (set ys)" unfolding ys(2) by (rule pages_above) (simp_all add: RAMBASE_def)
  then have "15 \<le> length ys" using card_length [of ys] by linarith
  moreover have "kmem_ok net_boot ys" using ys(1) by (rule kmem_ok_more) (simp_all add: net_boot_def Let_def)
  ultimately show ?thesis by (intro exI [of _ "take 15 ys"] exI [of _ "drop 15 ys"]) simp
qed

lemma card_dev_slot: "card_at card_dev = Some 3"
proof -
  have "find (is_card card_dev) [0..<8] = Some 3"
    by (simp add: is_card_def slot_base_def card_dev_def mmio_regs last_write_def upt_rec)
  then show ?thesis
    by (simp add: card_at_def net_offer_def slot_base_def card_dev_def mmio_regs last_write_def Let_def bit_numeral_rec)
qed

theorem net_init_correct_witness:
  "\<exists>ps xs w' s'. net_init card_dev (\<lambda>_ a. ucast a) net_off net_boot = (0, w', s') \<and> net_up card_dev 0x10004000 ps w' s' \<and>
     length ps = 15 \<and> distinct ps \<and> net_pages ps net_boot s' \<and> kmem_ok s' xs"
proof -
  obtain ps xs where ps: "kmem_ok net_boot (ps @ xs)" "length ps = 15" using net_boot_pages by blast
  have "mwrites net_boot = []" "net_base net_boot = 0" "length (rxbuf net_boot) = 8" "\<not> net_ok net_off"
    by (simp_all add: net_boot_def net_off_def Let_def)
  from net_init_correct [OF ps this, of card_dev "\<lambda>_ a. ucast a"] ps(2) show ?thesis
    by (cases "net_init card_dev (\<lambda>_ a. ucast a) net_off net_boot") (auto simp: card_dev_slot slot_base_def)
qed

end
