(* ===== verification/Boot.thy ===== *)
theory Boot
  imports Trap NetInit
begin

text \<open>
  \<^verbatim>\<open>src/src/main.c\<close>: the start of the kernel, as the composition of the components' initialisations. The
  first hart that enters \<^verbatim>\<open>kmain\<close> boots the machine and starts the others through the firmware; every
  later one goes to \<^verbatim>\<open>hart_main\<close>. Both end in \<^verbatim>\<open>scheduler\<close>, which theory \<open>Sched\<close> takes over.
  Interrupts are off until then. The register \<open>satp\<close> of the model is the one last written.
\<close>

section \<open>State\<close>

text \<open>Beside the kernel: the registers of each hart, the writes on the virtio bus, what the drivers keep of their queues,
  the flag \<^verbatim>\<open>boot_taken\<close> and the calls made to the firmware.\<close>

record ('d, 'n, 'u, 'p) boot =
  mach :: "('d, 'n, 'u, 'p) machine"
  csrs :: "nat \<Rightarrow> hart_csr"
  bus :: "mmio_write list"
  disk_rings :: "u64 \<times> u64 \<times> u64"
  net_queues :: ninit
  boot_taken :: u32
  hart_starts :: "(u64 \<times> u64) list"

text \<open>What is outside: the virtio registers and configuration bytes, three addresses of the linker, the clock.\<close>

record boot_env =
  virtio_io :: mmio_dev
  virtio_cfg :: "mmio_write list \<Rightarrow> u64 \<Rightarrow> u8"
  kernelvec :: u64
  kend :: u64
  entry_pc :: u64
  clock :: "nat \<Rightarrow> u64"

definition NHART :: nat where "NHART = 3"

text \<open>A driver that runs on the allocator's state alone, put back into the kernel.\<close>

definition put_kmem :: "'a kmem_scheme \<Rightarrow> kproc \<Rightarrow> kproc" where
  "put_kmem s k = k\<lparr>mem := mem s, freelist := freelist s, freecnt := freecnt s, refcnt := refcnt s\<rparr>"

definition disk_start :: "boot_env \<Rightarrow> ('d, 'n, 'u, 'p) boot \<Rightarrow> ('d, 'n, 'u, 'p) boot" where
  "disk_start env b =
     (let m = mach b; k = kern m;
          s = \<lparr>mem = mem k, freelist = freelist k, freecnt = freecnt k, refcnt = refcnt k, mwrites = bus b, mout = [],
               desc_pa = 0, avail_pa = 0, used_pa = 0\<rparr>;
          (v, s) = virtio_disk_init (virtio_io env) (disk (files m)) s;
          m = m\<lparr>kern := put_kmem s k, files := (files m)\<lparr>disk := v\<rparr>\<rparr>
      in b\<lparr>mach := print (mout s) m, bus := mwrites s, disk_rings := (desc_pa s, avail_pa s, used_pa s)\<rparr>)"

definition net_start :: "boot_env \<Rightarrow> ('d, 'n, 'u, 'p) boot \<Rightarrow> int \<times> ('d, 'n, 'u, 'p) boot" where
  "net_start env b =
     (let m = mach b; k = kern m;
          s = (net_queues b)\<lparr>mem := mem k, freelist := freelist k, freecnt := freecnt k, refcnt := refcnt k, mwrites := bus b\<rparr>;
          (r, w, s) = net_init (virtio_io env) (virtio_cfg env) (nets m) s
      in (r, b\<lparr>mach := flush (m\<lparr>kern := put_kmem s k, nets := w\<rparr>), bus := mwrites s, net_queues := s\<rparr>))"

section \<open>Starting harts\<close>

definition sbi_hart_start :: "u64 \<Rightarrow> u64 \<Rightarrow> ('d, 'n, 'u, 'p) boot \<Rightarrow> ('d, 'n, 'u, 'p) boot" where
  "sbi_hart_start hartid a b = b\<lparr>hart_starts := hart_starts b @ [(hartid, a)]\<rparr>"

definition hart_main :: "boot_env \<Rightarrow> nat \<Rightarrow> ('d, 'n, 'u, 'p) boot \<Rightarrow> ('d, 'n, 'u, 'p) boot" where
  "hart_main env hart b =
     (let b = b\<lparr>mach := (mach b)\<lparr>kern := kvminithart (kern (mach b))\<rparr>\<rparr>;
          b = b\<lparr>csrs := (csrs b)(hart := trap_init (kernelvec env) (csrs b hart))\<rparr>;
          m = timer_init hart (clock env hart) (mach b);
          m = say '' online -> joining scheduler\<newline>'' (print (dec_bytes (of_nat hart)) (say ''[ok] hart '' m))
      in b\<lparr>mach := m\<rparr>)"

text \<open>The loop over the harts.\<close>

definition wake_harts :: "u64 \<Rightarrow> nat \<Rightarrow> ('d, 'n, 'u, 'p) boot \<Rightarrow> ('d, 'n, 'u, 'p) boot" where
  "wake_harts a tp b = fold (\<lambda>h b. if of_nat h \<noteq> (of_nat tp :: u64) then sbi_hart_start (of_nat h) a b else b) [0..<NHART] b"

definition banner :: string where
  "banner = ''\<newline>'' @ ''========================================\<newline>'' @ ''  kernel-hobby v0.1  (C / RISC-V)\<newline>'' @
     ''  booted in S-mode under OpenSBI\<newline>'' @ ''========================================\<newline>''"

text \<open>\<^verbatim>\<open>kmain\<close> on the booting hart, to its call of \<^verbatim>\<open>scheduler\<close>: up to the page allocator, the network, the first process.\<close>

definition boot_early :: "('d, 'n, 'u, 'p) hw \<Rightarrow> boot_env \<Rightarrow> nat \<Rightarrow> ('d, 'n, 'u, 'p) boot \<Rightarrow> ('d, 'n, 'u, 'p) boot" where
  "boot_early hw env hart b =
     (let b = b\<lparr>mach := say banner (mach b), csrs := (csrs b)(hart := trap_init (kernelvec env) (csrs b hart))\<rparr>;
          m = mach b;
          m = m\<lparr>plics := plic_init_hart hw (plic_init hw (plics m)),
                cons := (cons m)\<lparr>uart := uart_enable_rx (uart_rd hw) (uart_wr hw) (uart (cons m))\<rparr>\<rparr>;
          m = say ''[ok] interrupts + uart input ready\<newline>'' (timer_init hart (clock env hart) m);
          m = m\<lparr>kern := kinit (kend env) (kern m)\<rparr>;
          m = say '' free pages\<newline>'' (print (dec_bytes (kfreecount (kern m))) (say ''[ok] page allocator: '' m))
      in b\<lparr>mach := m\<rparr>)"

definition boot_net :: "('d, 'n, 'u, 'p) hw \<Rightarrow> boot_env \<Rightarrow> ('d, 'n, 'u, 'p) boot \<Rightarrow> ('d, 'n, 'u, 'p) boot" where
  "boot_net hw env b =
     (case net_start env b of (r, b) \<Rightarrow>
        if r = 0 then b\<lparr>mach := flush ((mach b)\<lparr>nets := net_demo (card hw) (nets (mach b))\<rparr>)\<rparr> else b)"

definition boot_shell :: "('d, 'n, 'u, 'p) hw \<Rightarrow> boot_env \<Rightarrow> nat \<Rightarrow> ('d, 'n, 'u, 'p) boot \<Rightarrow> ('d, 'n, 'u, 'p) boot option" where
  "boot_shell hw env hart b =
     (let m = mach b; m = m\<lparr>kern := procinit (kern m)\<rparr> in
      case make_user_proc (syms hw) (bytes_of ''sh'') (kern m) of
        None \<Rightarrow> None
      | Some (_, k) \<Rightarrow>
          let m = flush (m\<lparr>kern := k\<rparr>);
              m = say '' up; waking other cores + starting shell\<newline>'' (print (dec_bytes (of_nat hart)) (say ''[ok] boot hart '' m))
          in Some (wake_harts (entry_pc env) hart (b\<lparr>mach := m\<rparr>)))"

definition boot_hart :: "('d, 'n, 'u, 'p) hw \<Rightarrow> boot_env \<Rightarrow> nat \<Rightarrow> ('d, 'n, 'u, 'p) boot \<Rightarrow> ('d, ('d, 'n, 'u, 'p) boot) run" where
  "boot_hart hw env hart b =
     (let b = boot_early hw env hart b; m = mach b in
      case kvminit (etext (syms hw)) (kern m) of
        None \<Rightarrow> None
      | Some k \<Rightarrow>
          let m = say ''[ok] paging enabled (Sv39 kernel page table)\<newline>'' (m\<lparr>kern := kvminithart k\<rparr>);
              b = disk_start env (b\<lparr>mach := m\<rparr>)
          in run_bind (Some (fs_init (blk hw) (files (mach b)))) (\<lambda>fl.
               let b = boot_net hw env (b\<lparr>mach := flush ((mach b)\<lparr>files := fl\<rparr>)\<rparr>)
               in map_option Inr (boot_shell hw env hart b)))"

definition kmain :: "('d, 'n, 'u, 'p) hw \<Rightarrow> boot_env \<Rightarrow> nat \<Rightarrow> ('d, 'n, 'u, 'p) boot \<Rightarrow> ('d, ('d, 'n, 'u, 'p) boot) run" where
  "kmain hw env hart b =
     (let old = boot_taken b; b = b\<lparr>boot_taken := 1\<rparr>
      in if old \<noteq> 0 then ret (hart_main env hart b) else boot_hart hw env hart b)"

section \<open>One hart boots, the others join\<close>

lemma wake_harts_keeps [simp]: "mach (wake_harts a tp b) = mach b" "csrs (wake_harts a tp b) = csrs b" "boot_taken (wake_harts a tp b) = boot_taken b"
  by (simp_all add: wake_harts_def NHART_def sbi_hart_start_def upt_rec)

lemma wake_harts_starts:
  assumes "tp < 3"
  shows "hart_starts (wake_harts a tp b) = hart_starts b @ map (\<lambda>h. (of_nat h, a)) (filter (\<lambda>h. h \<noteq> tp) [0..<3])"
proof -
  have "tp = 0 \<or> tp = 1 \<or> tp = 2" using assms by linarith
  then show ?thesis by (auto simp: wake_harts_def NHART_def sbi_hart_start_def upt_rec)
qed

text \<open>Every phase of the boot keeps what the first one set up of the hart, and starts no hart before the last.\<close>

definition kept :: "('d, 'n, 'u, 'p) boot \<Rightarrow> ('d, 'n, 'u, 'p) boot \<Rightarrow> bool" where
  "kept b c \<longleftrightarrow> boot_taken c = boot_taken b \<and> csrs c = csrs b \<and> stimecmp (mach c) = stimecmp (mach b)"

lemma kept_trans: "kept a b \<Longrightarrow> kept b c \<Longrightarrow> kept a c"
  by (simp add: kept_def)

lemma flush_timer [simp]: "stimecmp (flush m) = stimecmp m" "stimecmp (print bs m) = stimecmp m"
  by (simp_all add: flush_def print_def)

lemma kept_mach: "stimecmp m = stimecmp (mach b) \<Longrightarrow> kept b (b\<lparr>mach := m\<rparr>)"
  by (simp add: kept_def)

lemma start_kept:
  "kept b (disk_start env b)" "hart_starts (disk_start env b) = hart_starts b"
  "kept b (boot_net hw env b)" "hart_starts (boot_net hw env b) = hart_starts b"
  by (simp_all add: kept_def disk_start_def boot_net_def net_start_def Let_def split_beta)

lemma boot_shell_kept:
  assumes "boot_shell hw env h b = Some c" "h < 3"
  shows "kept b c" "hart_starts c = hart_starts b @ map (\<lambda>h. (of_nat h, entry_pc env)) (filter (\<lambda>h'. h' \<noteq> h) [0..<3])"
  using assms(1) by (auto simp: boot_shell_def kept_def Let_def wake_harts_starts [OF assms(2)] split: option.splits)

text \<open>What a hart that joins leaves as it is: everything but its own registers and timer, \<open>satp\<close> and the terminal.\<close>

definition joined :: "('d, 'n, 'u, 'p) boot \<Rightarrow> ('d, 'n, 'u, 'p) boot \<Rightarrow> bool" where
  "joined b c \<longleftrightarrow> files (mach c) = files (mach b) \<and> nets (mach c) = nets (mach b) \<and> proctable (kern (mach c)) = proctable (kern (mach b)) \<and>
     mem (kern (mach c)) = mem (kern (mach b)) \<and> freelist (kern (mach c)) = freelist (kern (mach b)) \<and>
     refcnt (kern (mach c)) = refcnt (kern (mach b)) \<and> bus c = bus b \<and> hart_starts c = hart_starts b"

text \<open>The harts enter \<^verbatim>\<open>kmain\<close> one after the other.\<close>

fun enter :: "('d, 'n, 'u, 'p) hw \<Rightarrow> boot_env \<Rightarrow> nat list \<Rightarrow> ('d, 'n, 'u, 'p) boot \<Rightarrow> ('d, ('d, 'n, 'u, 'p) boot) run" where
  "enter hw env [] b = ret b"
| "enter hw env (h # hs) b = run_bind (kmain hw env h b) (enter hw env hs)"

definition set_up :: "boot_env \<Rightarrow> nat \<Rightarrow> ('d, 'n, 'u, 'p) boot \<Rightarrow> bool" where
  "set_up env h b \<longleftrightarrow> stvec (csrs b h) = kernelvec env \<and> stimecmp (mach b) h = clock env h + TIMER_INTERVAL"

lemma kmain_joins:
  assumes "boot_taken b \<noteq> 0"
  obtains c where "kmain hw env h b = ret c" "joined b c" "boot_taken c = 1" "set_up env h c" "\<And>h'. set_up env h' b \<Longrightarrow> set_up env h' c"
proof (rule that [of "hart_main env h (b\<lparr>boot_taken := 1\<rparr>)"])
  show "kmain hw env h b = ret (hart_main env h (b\<lparr>boot_taken := 1\<rparr>))" using assms by (simp add: kmain_def Let_def)
qed (auto simp: hart_main_def joined_def set_up_def Let_def kvminithart_def timer_init_def print_def trap_init_def)

lemma joined_trans: "joined a b \<Longrightarrow> joined b c \<Longrightarrow> joined a c"
  by (simp add: joined_def)

lemma enter_joins:
  "boot_taken b \<noteq> 0 \<Longrightarrow> \<exists>c. enter hw env hs b = ret c \<and> joined b c \<and> (\<forall>h. h \<in> set hs \<or> set_up env h b \<longrightarrow> set_up env h c)"
proof (induction hs arbitrary: b)
  case Nil
  then show ?case by (simp add: joined_def)
next
  case (Cons h hs)
  obtain c where c: "kmain hw env h b = ret c" "joined b c" "boot_taken c = 1" "set_up env h c" "\<And>h'. set_up env h' b \<Longrightarrow> set_up env h' c"
    using kmain_joins [OF Cons.prems] by metis
  with Cons.IH [of c] obtain d where "enter hw env hs c = ret d" "joined c d" "\<forall>h. h \<in> set hs \<or> set_up env h c \<longrightarrow> set_up env h d" by auto
  then show ?case using c joined_trans by auto
qed

lemma boot_early_sets: "boot_taken (boot_early hw env h b) = boot_taken b" "hart_starts (boot_early hw env h b) = hart_starts b"
    "set_up env h (boot_early hw env h b)"
  by (simp_all add: boot_early_def Let_def set_up_def trap_init_def timer_init_def)

lemma boot_hart_starts:
  assumes "boot_hart hw env h b = ret c" "h < 3"
  shows "boot_taken c = boot_taken b" "hart_starts c = hart_starts b @ map (\<lambda>h. (of_nat h, entry_pc env)) (filter (\<lambda>h'. h' \<noteq> h) [0..<3])"
    "set_up env h c"
proof -
  let ?e = "boot_early hw env h b"
  obtain k where k: "kvminit (etext (syms hw)) (kern (mach ?e)) = Some k"
    using assms(1) by (cases "kvminit (etext (syms hw)) (kern (mach ?e))") (simp_all add: boot_hart_def Let_def)
  define d where "d = disk_start env (?e\<lparr>mach := say ''[ok] paging enabled (Sv39 kernel page table)\<newline>'' ((mach ?e)\<lparr>kern := kvminithart k\<rparr>)\<rparr>)"
  obtain fl where fl: "fs_init (blk hw) (files (mach d)) = Inr fl"
    using assms(1) by (cases "fs_init (blk hw) (files (mach d))") (simp_all add: boot_hart_def Let_def k d_def)
  define n where "n = boot_net hw env (d\<lparr>mach := flush ((mach d)\<lparr>files := fl\<rparr>)\<rparr>)"
  have c: "boot_shell hw env h n = Some c"
    using assms(1) fl by (cases "boot_shell hw env h n") (simp_all add: boot_hart_def Let_def k d_def [symmetric] n_def)
  have "kept ?e d" unfolding d_def by (rule kept_trans [OF kept_mach start_kept(1)]) simp
  moreover have "kept d n" unfolding n_def by (rule kept_trans [OF kept_mach start_kept(3)]) simp
  ultimately have kept: "kept ?e c" using boot_shell_kept(1) [OF c assms(2)] kept_trans by blast
  have "hart_starts n = hart_starts b" by (simp add: n_def d_def start_kept boot_early_sets)
  then show "hart_starts c = hart_starts b @ map (\<lambda>h. (of_nat h, entry_pc env)) (filter (\<lambda>h'. h' \<noteq> h) [0..<3])"
    using boot_shell_kept(2) [OF c assms(2)] by simp
  show "boot_taken c = boot_taken b" "set_up env h c"
    using kept boot_early_sets(1) [of hw env h b] boot_early_sets(3) [where hw = hw and env = env and h = h and b = b] by (simp_all add: kept_def set_up_def)
qed

text \<open>
  Whichever hart enters first boots the machine; when it comes through, the others, in any order and
  number, only join: files, network, process table, memory and the bus stay as the first hart left
  them, each of the other harts has been started exactly once, at the entry point, and every hart that
  entered has its trap vector and its timer set.
\<close>

theorem boot_once:
  assumes "boot_taken b = 0" "hart_starts b = []" "h < 3" "kmain hw env h b = ret c"
  shows "\<exists>d. enter hw env (h # hs) b = ret d \<and> joined c d \<and> (\<forall>h' \<in> set (h # hs). set_up env h' d) \<and>
    hart_starts d = map (\<lambda>h. (of_nat h, entry_pc env)) (filter (\<lambda>h'. h' \<noteq> h) [0..<3])"
proof -
  have r: "boot_hart hw env h (b\<lparr>boot_taken := 1\<rparr>) = ret c" using assms(1,4) by (simp add: kmain_def)
  note s = boot_hart_starts [OF r assms(3)]
  have "boot_taken c \<noteq> 0" using s(1) by simp
  then obtain d where "enter hw env hs c = ret d" "joined c d" "\<forall>h'. h' \<in> set hs \<or> set_up env h' c \<longrightarrow> set_up env h' d"
    using enter_joins by blast
  then show ?thesis using s(2,3) assms(2,4) by (auto simp: joined_def)
qed

end
