(* ===== verification/VmKernel.thy ===== *)
theory VmKernel
  imports VmMap
begin

text \<open>
  The mappings every page table of the kernel shares. \<^verbatim>\<open>map_kernel\<close> enters the device registers, the
  kernel's text and the rest of the RAM at their own addresses; \<^verbatim>\<open>kvminit\<close> builds the kernel's own
  table from it and \<^verbatim>\<open>proc_pagetable\<close> a process's. The specification is \<open>kernel_perm\<close>, the
  permissions of an address, from which the whole table is determined.
\<close>

section \<open>Identity runs\<close>

text \<open>The bytes from \<open>lo\<close> on, \<open>sz\<close> of them, both on page boundaries of the 39-bit space.\<close>

definition page_range :: "u64 \<Rightarrow> u64 \<Rightarrow> bool" where
  "page_range lo sz \<longleftrightarrow> take_bit 12 lo = 0 \<and> take_bit 12 sz = 0 \<and> 0 < unat sz \<and> unat lo + unat sz \<le> 2 ^ 39"

definition low39 :: "u64 \<Rightarrow> u64" where
  "low39 va = take_bit 39 va"

lemma unat_low39: "unat (low39 va) = unat va mod 2 ^ 39"
  unfolding low39_def unsigned_take_bit_eq by (simp add: take_bit_eq_mod)

lemma vpn_low39: "vpn va = unat (low39 va) div 4096"
proof -
  have "take_bit 27 (drop_bit 12 x) = drop_bit 12 (take_bit 39 x)" for x :: nat by (simp add: drop_bit_take_bit)
  then have "x div 4096 mod 2 ^ 27 = x mod 2 ^ 39 div 4096" for x :: nat by (simp add: take_bit_eq_mod drop_bit_eq_div)
  then show ?thesis by (simp only: vpn_def unat_low39)
qed

lemma page_range_pages:
  assumes "page_range lo sz"
  shows "pages_of lo sz = unat sz div 4096" "vpn lo = unat lo div 4096" "unat lo = 4096 * (unat lo div 4096)" "unat sz = 4096 * (unat sz div 4096)"
proof -
  show lo: "unat lo = 4096 * (unat lo div 4096)" and sz: "unat sz = 4096 * (unat sz div 4096)"
    using assms by (simp_all add: page_range_def aligned_iff_dvd)
  show "vpn lo = unat lo div 4096" using assms by (intro vpn_small) (simp add: page_range_def)
  obtain b k where b: "unat lo = 4096 * b" "unat sz = 4096 * k" using lo sz by blast
  then have k: "0 < k" using assms by (simp add: page_range_def)
  have "unat lo + unat sz - 1 = 4095 + (b + (k - 1)) * 4096" using b k by (cases k) simp_all
  then have "(unat lo + unat sz - 1) div 4096 = b + (k - 1)" by (simp only:) simp
  then show "pages_of lo sz = unat sz div 4096" using k by (simp add: pages_of_def b)
qed

lemma in_range:
  assumes "page_range lo sz"
  shows "in_run lo (pages_of lo sz) va \<longleftrightarrow> lo \<le> low39 va \<and> low39 va < lo + sz"
proof -
  note p = page_range_pages [OF assms]
  obtain b k where b: "unat lo = 4096 * b" "unat sz = 4096 * k" using p(3,4) by blast
  have s: "unat (lo + sz) = 4096 * b + 4096 * k" using assms b by (simp add: page_range_def unat_word_ariths)
  have "lo \<le> low39 va \<and> low39 va < lo + sz \<longleftrightarrow> 4096 * b \<le> unat (low39 va) \<and> unat (low39 va) < 4096 * b + 4096 * k"
    unfolding word_le_nat_alt word_less_nat_alt s b(1) ..
  also have "\<dots> \<longleftrightarrow> b \<le> unat (low39 va) div 4096 \<and> unat (low39 va) div 4096 < b + k"
  proof -
    define q r where "q = unat (low39 va) div 4096" and "r = unat (low39 va) mod 4096"
    then have "unat (low39 va) = 4096 * q + r" "r < 4096" by simp_all
    then show ?thesis unfolding q_def [symmetric] by linarith
  qed
  finally show ?thesis using p(1,2) b by (simp add: in_run_def vpn_low39 [of va])
qed

lemma identity_entry:
  assumes "page_range lo sz" "in_run lo (pages_of lo sz) va"
  shows "run_entry lo lo perm va = PA2PTE (PGROUNDDOWN (low39 va)) OR perm OR PTE_V"
proof -
  note p = page_range_pages [OF assms(1)]
  have "PGROUNDDOWN (low39 va) = of_nat (unat (PGROUNDDOWN (low39 va)))" by simp
  also have "\<dots> = of_nat (4096 * (unat lo div 4096) + 4096 * (vpn va - vpn lo))"
    unfolding unat_PGROUNDDOWN using assms(2) by (simp add: in_run_def p(2) vpn_low39 [symmetric] flip: distrib_left)
  also have "\<dots> = lo + of_nat (4096 * (vpn va - vpn lo))" unfolding p(3) [symmetric] by simp
  finally show ?thesis by (simp add: run_entry_def)
qed

section \<open>Building a table region by region\<close>

text \<open>
  \<open>built pt f b xs s s'\<close>: from \<open>s\<close>, with \<open>xs\<close> free, the table at \<open>pt\<close> has come to hold the entries \<open>f\<close>, taking
  at most \<open>b\<close> pages from the front of the free list and changing nothing else.
\<close>

definition built :: "u64 \<Rightarrow> (u64 \<Rightarrow> u64) \<Rightarrow> nat \<Rightarrow> u64 list \<Rightarrow> 'a kvm_scheme \<Rightarrow> 'a kvm_scheme \<Rightarrow> bool" where
  "built pt f b xs s s' \<longleftrightarrow> (\<exists>ys zs. xs = ys @ zs \<and> length ys \<le> b \<and> tabled pt ys zs s s' \<and> same_kvm s s' \<and>
     (\<forall>va. leaf (mem s') 2 pt va = f va))"

definition overlay :: "u64 \<Rightarrow> u64 \<Rightarrow> u64 \<Rightarrow> (u64 \<Rightarrow> u64) \<Rightarrow> u64 \<Rightarrow> u64" where
  "overlay lo sz perm f va = (if lo \<le> low39 va \<and> low39 va < lo + sz then PA2PTE (PGROUNDDOWN (low39 va)) OR perm OR PTE_V else f va)"

text \<open>Blocks of 512 pages, two megabytes, that a range meets.\<close>

definition blocks_met :: "u64 \<Rightarrow> u64 \<Rightarrow> nat" where
  "blocks_met lo sz = Suc ((unat lo + unat sz - 1) div 2 ^ 21 - unat lo div 2 ^ 21)"

lemma new_tables_blocks: "page_range lo sz \<Longrightarrow> new_tables m pt lo (pages_of lo sz) \<le> 2 * blocks_met lo sz"
proof -
  assume r: "page_range lo sz"
  note p = page_range_pages [OF r]
  obtain b k where b: "unat lo = 4096 * b" "unat sz = 4096 * k" using p(3,4) by blast
  have k: "0 < k" using r b by (simp add: page_range_def)
  have "(unat lo + unat sz - 1) div 2 ^ 21 = (unat lo + unat sz - 1) div 4096 div 512" by (simp flip: div_mult2_eq)
  also have "(unat lo + unat sz - 1) div 4096 = b + k - 1"
  proof -
    have "unat lo + unat sz - 1 = 4095 + (b + k - 1) * 4096" using b k by (cases k) simp_all
    then show ?thesis by simp
  qed
  moreover have "unat lo div 2 ^ 21 = b div 512" unfolding b by (simp add: div_mult2_eq [of _ 4096 512, simplified])
  ultimately show ?thesis using p(1,2) b by (simp add: new_tables_def blocks_met_def)
qed

lemma kvmmap_ok:
  assumes B: "built pt f b xs s s1" and o: "owned 2 pt s" and r: "page_range lo sz"
    and empty: "\<forall>va. lo \<le> low39 va \<and> low39 va < lo + sz \<longrightarrow> \<not> bit (f va) 0"
    and room: "b + 2 * blocks_met lo sz \<le> c" "c < length xs"
  shows "\<exists>s2. kvmmap pt lo lo sz perm s1 = Some s2 \<and> built pt (overlay lo sz perm f) c xs s s2"
proof -
  obtain ys zs where B: "xs = ys @ zs" "length ys \<le> b" "tabled pt ys zs s s1" "same_kvm s s1" "\<And>va. leaf (mem s1) 2 pt va = f va"
    using B by (auto simp: built_def)
  have k: "kmem_ok s1 zs" "owned 2 pt s1" using B(3) tabled_owned [OF o B(3)] by (auto simp: tabled_def)
  let ?n = "pages_of lo sz"
  obtain r s2 j us ws where m: "mappages pt lo sz lo perm s1 = Some (r, s2)" "j \<le> ?n" "zs = us @ ws"
    "length us \<le> new_tables (mem s1) pt lo ?n" "tabled pt us ws s1 s2"
    "\<forall>x. leaf (mem s2) 2 pt x = (if in_run lo j x then run_entry lo lo perm x else leaf (mem s1) 2 pt x)"
    "kernel_pagetable s2 = kernel_pagetable s1" "satp s2 = satp s1" "kvm.more s2 = kvm.more s1"
    "if j = ?n then r = 0 \<and> vout s2 = vout s1 else r = -1 \<and> (ws = [] \<and> vout s2 = vout s1 \<or>
        bit (leaf (mem s1) 2 pt (lo + of_nat (4096 * j))) 0 \<and> vout s2 = vout s1 @ remap_note)"
    using mappages_ok [OF k, of sz lo lo perm] r by (auto simp: page_range_def map_result_def)
  have few: "length us \<le> 2 * blocks_met lo sz" using m(4) new_tables_blocks [OF assms(3)] le_trans by blast
  then have "ws \<noteq> []" using room B(1,2) m(3) by auto
  moreover have "\<not> bit (leaf (mem s1) 2 pt (lo + of_nat (4096 * j))) 0" if "j \<noteq> ?n"
  proof -
    have "vpn lo + j < 2 ^ 27" using that m(2) page_range_pages [OF assms(3)] assms(3) by (simp add: page_range_def)
    then have "in_run lo ?n (lo + of_nat (4096 * j))" using that m(2) unfolding in_run_def vpn_add by simp
    then show ?thesis unfolding B(5) using empty in_range [OF assms(3)] by blast
  qed
  ultimately have j: "j = ?n" "r = 0" "vout s2 = vout s1" using m(10) by (auto split: if_splits)
  have "kvmmap pt lo lo sz perm s1 = Some s2" using m(1) j by (simp add: kvmmap_def)
  moreover have "tabled pt (ys @ us) ws s s2" using tabled_trans B(3) m(3,5) by blast
  moreover have "leaf (mem s2) 2 pt va = overlay lo sz perm f va" for va
    using m(6) j(1) identity_entry [OF assms(3), of va perm] in_range [OF assms(3), of va] by (simp add: overlay_def B(5))
  moreover have "same_kvm s s2" using B(4) m(7-9) j(3) by (simp add: same_kvm_def)
  ultimately show ?thesis unfolding built_def using B(1,2) m(3) few room(1)
    by (intro exI [of _ s2] conjI exI [of _ "ys @ us"] exI [of _ ws]) auto
qed

section \<open>The kernel's mappings\<close>

definition kernel_perm :: "u64 \<Rightarrow> u64 \<Rightarrow> u64 option" where
  "kernel_perm etext a =
     (if UART0 \<le> a \<and> a < 0x10009000 \<or> PLIC \<le> a \<and> a < 0x0c400000 then Some (PTE_R OR PTE_W)
      else if KERNBASE \<le> a \<and> a < etext then Some (PTE_R OR PTE_X)
      else if etext \<le> a \<and> a < PHYSTOP then Some (PTE_R OR PTE_W)
      else None)"

definition kernel_entry :: "u64 \<Rightarrow> u64 \<Rightarrow> u64" where
  "kernel_entry etext va =
     (case kernel_perm etext (low39 va) of None \<Rightarrow> 0 | Some perm \<Rightarrow> PA2PTE (PGROUNDDOWN (low39 va)) OR perm OR PTE_V)"

text \<open>The linker puts \<^verbatim>\<open>etext\<close> on a page boundary inside the RAM.\<close>

definition text_end :: "u64 \<Rightarrow> bool" where
  "text_end etext \<longleftrightarrow> take_bit 12 etext = 0 \<and> KERNBASE < etext \<and> etext < PHYSTOP"

lemmas places = UART0_def PLIC_def KERNBASE_def PHYSTOP_def

lemma text_end_unat:
  assumes "text_end etext"
  shows "0x80200000 < unat etext" "unat etext < 0x88000000" "unat (etext - KERNBASE) = unat etext - 0x80200000"
    "unat (PHYSTOP - etext) = 0x88000000 - unat etext" "4096 dvd unat etext"
proof -
  show b: "0x80200000 < unat etext" "unat etext < 0x88000000"
    using assms by (simp_all add: text_end_def places word_less_nat_alt)
  show "unat (etext - KERNBASE) = unat etext - 0x80200000"
    using unat_sub [of KERNBASE etext] b by (simp add: places word_le_nat_alt)
  show "unat (PHYSTOP - etext) = 0x88000000 - unat etext"
    using unat_sub [of etext PHYSTOP] b by (simp add: places word_le_nat_alt)
  show "4096 dvd unat etext" using assms by (simp add: text_end_def aligned_iff_dvd)
qed

lemma kernel_ranges:
  assumes "text_end etext"
  shows "page_range UART0 4096" "page_range 0x10001000 0x8000" "page_range PLIC 0x400000"
    "page_range KERNBASE (etext - KERNBASE)" "page_range etext (PHYSTOP - etext)"
proof -
  note t = text_end_unat [OF assms]
  show "page_range UART0 4096" "page_range 0x10001000 0x8000" "page_range PLIC 0x400000" by (simp_all add: page_range_def places)
  have "4096 dvd unat etext - 0x80200000" "4096 dvd 0x88000000 - unat etext" using t(5) by (simp_all add: dvd_diff_nat)
  then show "page_range KERNBASE (etext - KERNBASE)" "page_range etext (PHYSTOP - etext)"
    unfolding page_range_def aligned_iff_dvd t(3,4) using t(1,2,5) by (simp_all add: places)
qed

text \<open>At most 136 inner tables: 68 blocks are met, the block of \<^verbatim>\<open>etext\<close> and the block of the UART twice.\<close>

definition kernel_tables :: nat where
  "kernel_tables = 136"

lemma kernel_blocks:
  assumes "text_end etext"
  shows "blocks_met UART0 4096 = 1" "blocks_met 0x10001000 0x8000 = 1" "blocks_met PLIC 0x400000 = 2"
    "blocks_met KERNBASE (etext - KERNBASE) + blocks_met etext (PHYSTOP - etext) \<le> 64"
proof -
  show "blocks_met UART0 4096 = 1" "blocks_met 0x10001000 0x8000 = 1" "blocks_met PLIC 0x400000 = 2"
    by (simp_all add: blocks_met_def places)
  note t = text_end_unat [OF assms]
  have "(unat etext - 1) div 2 ^ 21 \<le> unat etext div 2 ^ 21" "unat etext div 2 ^ 21 \<le> 0x87FFFFFF div 2 ^ 21"
    using t(1,2) by (intro div_le_mono, simp)+
  moreover have "0x80200000 div 2 ^ 21 \<le> (unat etext - 1) div 2 ^ 21" using t(1) by (intro div_le_mono) simp
  moreover have "unat KERNBASE = 0x80200000" by (simp add: places)
  ultimately show "blocks_met KERNBASE (etext - KERNBASE) + blocks_met etext (PHYSTOP - etext) \<le> 64"
    unfolding blocks_met_def t(3,4) using t(1,2) by simp linarith
qed

lemma kernel_overlays:
  assumes "text_end etext"
  shows "overlay etext (PHYSTOP - etext) (PTE_R OR PTE_W) (overlay KERNBASE (etext - KERNBASE) (PTE_R OR PTE_X)
     (overlay PLIC 0x400000 (PTE_R OR PTE_W) (overlay 0x10001000 0x8000 (PTE_R OR PTE_W) (overlay UART0 4096 (PTE_R OR PTE_W) (\<lambda>_. 0))))) va =
   kernel_entry etext va"
proof -
  define a where "a = low39 va"
  have one: "(if D then x else if T then y else if P then x else if V then x else if U then x else 0) =
      (case if U' \<or> P then Some RW else if T then Some RX else if D then Some RW else None of None \<Rightarrow> 0 | Some perm \<Rightarrow> e perm)"
    if "U \<or> V \<longleftrightarrow> U'" "U' \<or> P \<Longrightarrow> \<not> T \<and> \<not> D" "\<not> (T \<and> D)" "x = e RW" "y = e RX"
    for D T P V U U' and x y :: u64 and e :: "u64 \<Rightarrow> u64" and RW RX :: u64
    using that by auto
  have uart: "UART0 \<le> a \<and> a < UART0 + 4096 \<or> 0x10001000 \<le> a \<and> a < 0x10001000 + 0x8000 \<longleftrightarrow> UART0 \<le> a \<and> a < 0x10009000"
    by (auto simp: places word_le_nat_alt word_less_nat_alt)
  have ends: "PLIC + 0x400000 = 0x0c400000" "KERNBASE + (etext - KERNBASE) = etext" "etext + (PHYSTOP - etext) = PHYSTOP"
    by (simp_all add: PLIC_def)
  show ?thesis
    unfolding overlay_def kernel_entry_def kernel_perm_def a_def [symmetric] ends
  proof (rule one [OF uart])
    assume "UART0 \<le> a \<and> a < 0x10009000 \<or> PLIC \<le> a \<and> a < 0x0c400000"
    then have "unat a < 0x80200000" by (auto simp: places word_le_nat_alt word_less_nat_alt)
    then show "\<not> (KERNBASE \<le> a \<and> a < etext) \<and> \<not> (etext \<le> a \<and> a < PHYSTOP)"
      using text_end_unat(1) [OF assms] by (simp add: places word_le_nat_alt)
  qed auto
qed

lemma map_kernel_ok:
  assumes k: "kmem_ok s xs" and o: "owned 2 pt s" and empty: "\<forall>va. leaf (mem s) 2 pt va = 0"
    and t: "text_end etext" and room: "kernel_tables < length xs"
  shows "\<exists>s'. map_kernel etext pt s = Some s' \<and> built pt (kernel_entry etext) kernel_tables xs s s'"
proof -
  note r = kernel_ranges [OF t] and bl = kernel_blocks [OF t]
  let ?RW = "PTE_R OR PTE_W" and ?RX = "PTE_R OR PTE_X"
  have z: "built pt (\<lambda>_. 0) 0 xs s s"
    unfolding built_def using k o empty
    by (intro exI [of _ "[]"] exI [of _ xs]) (auto simp: tabled_def owned_def same_kvm_def)
  let ?f1 = "overlay UART0 4096 ?RW (\<lambda>_. 0)"
  let ?f2 = "overlay 0x10001000 0x8000 ?RW ?f1"
  let ?f3 = "overlay PLIC 0x400000 ?RW ?f2"
  let ?f4 = "overlay KERNBASE (etext - KERNBASE) ?RX ?f3"
  have free: "\<not> bit (?f1 va) 0" if "0x10001000 \<le> low39 va" for va
    using that by (auto simp: overlay_def places word_le_nat_alt word_less_nat_alt)
  have free2: "\<not> bit (?f2 va) 0" if "low39 va < 0x0c400000 \<or> KERNBASE \<le> low39 va" for va
    using that by (auto simp: overlay_def places word_le_nat_alt word_less_nat_alt)
  have free3: "\<not> bit (?f3 va) 0" if "KERNBASE \<le> low39 va" for va
    using that by (auto simp: overlay_def places word_le_nat_alt word_less_nat_alt)
  have free4: "\<not> bit (?f4 va) 0" if "etext \<le> low39 va" for va
  proof -
    have "KERNBASE \<le> low39 va" "\<not> low39 va < etext" using that t by (auto simp: text_end_def)
    then show ?thesis using free3 [of va] by (simp add: overlay_def [of KERNBASE])
  qed
  obtain s1 where s1: "kvmmap pt UART0 UART0 4096 ?RW s = Some s1" "built pt ?f1 2 xs s s1"
    using kvmmap_ok [OF z o r(1), of 2 ?RW] room bl(1) by (auto simp: kernel_tables_def)
  obtain s2 where s2: "kvmmap pt 0x10001000 0x10001000 0x8000 ?RW s1 = Some s2" "built pt ?f2 4 xs s s2"
    using kvmmap_ok [OF s1(2) o r(2), of 4 ?RW] free room bl(2) by (auto simp: kernel_tables_def)
  obtain s3 where s3: "kvmmap pt PLIC PLIC 0x400000 ?RW s2 = Some s3" "built pt ?f3 8 xs s s3"
    using kvmmap_ok [OF s2(2) o r(3), of 8 ?RW] free2 room bl(3) by (auto simp: kernel_tables_def PLIC_def)
  define b where "b = 8 + 2 * blocks_met KERNBASE (etext - KERNBASE)"
  have le: "b + 2 * blocks_met etext (PHYSTOP - etext) \<le> kernel_tables" using bl(4) by (simp add: b_def kernel_tables_def)
  obtain s4 where s4: "kvmmap pt KERNBASE KERNBASE (etext - KERNBASE) ?RX s3 = Some s4" "built pt ?f4 b xs s s4"
    using kvmmap_ok [OF s3(2) o r(4), of b ?RX] free3 room le unfolding b_def by force
  obtain s5 where s5: "kvmmap pt etext etext (PHYSTOP - etext) ?RW s4 = Some s5"
    "built pt (overlay etext (PHYSTOP - etext) ?RW ?f4) kernel_tables xs s s5"
    using kvmmap_ok [OF s4(2) o r(5) _ le room, of ?RW] free4 by blast
  have "map_kernel etext pt s = Some s5" unfolding map_kernel_def s1(1) bind.simps s2(1) s3(1) s4(1) s5(1) ..
  then show ?thesis using s5(2) kernel_overlays [OF t] by (simp add: built_def)
qed

text \<open>A page from the allocator, zeroed, is an empty table nobody else uses.\<close>

lemma fresh_table:
  assumes "kmem_ok s (x # xs)"
  defines "s1 \<equiv> snd (kalloc s)"
  defines "s2 \<equiv> s1\<lparr>mem := set_loop (mem s1) x 0 4096\<rparr>"
  shows "kalloc s = (x, s1)" "x \<noteq> 0" "kmem_ok s2 xs" "owned 2 x s2" "tabs (mem s2) 2 x = {x}" "leaf (mem s2) 2 x va = 0"
    "refs s2 = (refs s)(x := 1)" "page_no a \<noteq> page_no x \<Longrightarrow> mem s2 a = mem s a" "kmem.more s1 = kmem.more s"
proof -
  have s1: "kalloc s = (x, s1)" "mem s1 = mem s" "kmem_ok s1 xs" "refs s1 = (refs s)(x := 1)" "kmem.more s1 = kmem.more s"
    using kalloc_Cons [OF assms(1)] by (simp_all add: s1_def)
  then show "kalloc s = (x, s1)" "kmem.more s1 = kmem.more s" by simp_all
  have x: "ram_page x" "x \<notin> set xs" using assms(1) by (auto simp: kmem_ok_def)
  then show "x \<noteq> 0" by (simp add: ram_page_nonzero)
  have m: "mem s2 b = (if page_no b = page_no x then 0 else mem s b)" for b
    using x(1) s1(2) by (simp add: s2_def zero_page_eq ram_page_aligned)
  show "page_no a \<noteq> page_no x \<Longrightarrow> mem s2 a = mem s a" by (simp add: m)
  show r: "refs s2 = (refs s)(x := 1)" using s1(4) by (simp add: s2_def)
  note z = zero_table [OF x(1), of "mem s2" 2]
  show "tabs (mem s2) 2 x = {x}" "leaf (mem s2) 2 x va = 0" using z m by simp_all
  show "owned 2 x s2" using z m r by (simp add: owned_def)
  have "ld64 (mem s2) y = ld64 (mem s) y" if "y \<in> set xs" for y
    using that x assms(1) m by (intro ld64_same_page ram_page_dword) (auto simp: page_no_inject kmem_ok_def)
  then have "chain (mem s2) (freelist s1) xs = chain (mem s) (freelist s1) xs" by (rule chain_cong)
  then show "kmem_ok s2 xs" using s1(2,3) by (simp add: kmem_ok_def s2_def)
qed

section \<open>What the mappings protect\<close>

lemma low39_page [simp]: "take_bit 12 (PGROUNDDOWN a) = 0"
  by (simp add: aligned_iff_dvd unat_PGROUNDDOWN)

lemma kernel_perm_cases:
  "kernel_perm etext a = None \<or> kernel_perm etext a = Some (PTE_R OR PTE_W) \<or> kernel_perm etext a = Some (PTE_R OR PTE_X)"
  by (simp add: kernel_perm_def)

lemma kernel_entry_protects:
  "\<not> (bit (kernel_entry etext va) 2 \<and> bit (kernel_entry etext va) 3)" "\<not> bit (kernel_entry etext va) 4"
  "bit (kernel_entry etext va) 0 \<longleftrightarrow> kernel_perm etext (low39 va) \<noteq> None"
  "kernel_perm etext (low39 va) \<noteq> None \<Longrightarrow> PTE2PA (kernel_entry etext va) = PGROUNDDOWN (low39 va)"
proof -
  let ?p = "kernel_perm etext (low39 va)" and ?a = "PGROUNDDOWN (low39 va)"
  consider "?p = None" | f where "?p = Some f" "f = PTE_R OR PTE_W \<or> f = PTE_R OR PTE_X" using kernel_perm_cases [of etext "low39 va"] by (elim disjE) simp_all
  then have "\<not> (bit (kernel_entry etext va) 2 \<and> bit (kernel_entry etext va) 3) \<and> \<not> bit (kernel_entry etext va) 4 \<and>
      (bit (kernel_entry etext va) 0 \<longleftrightarrow> ?p \<noteq> None) \<and> (?p \<noteq> None \<longrightarrow> PTE2PA (kernel_entry etext va) = ?a)"
  proof cases
    case (2 f)
    then have e: "kernel_entry etext va = PA2PTE ?a OR (f OR PTE_V)" by (simp add: kernel_entry_def or.assoc)
    have "take_bit 10 (f OR PTE_V) = f OR PTE_V" using 2 by (auto simp: PTE_R_def PTE_W_def PTE_X_def PTE_V_def)
    then have "PTE2PA (kernel_entry etext va) = ?a" unfolding e by (intro PTE2PA_make low39_page)
    moreover have "bit (kernel_entry etext va) n = bit (f OR PTE_V) n" if "n < 10" for n unfolding e using that by (rule bit_make_low)
    ultimately show ?thesis using 2 by (auto simp: bit_simps)
  qed (simp add: kernel_entry_def)
  then show "\<not> (bit (kernel_entry etext va) 2 \<and> bit (kernel_entry etext va) 3)" "\<not> bit (kernel_entry etext va) 4"
    "bit (kernel_entry etext va) 0 \<longleftrightarrow> ?p \<noteq> None" "?p \<noteq> None \<Longrightarrow> PTE2PA (kernel_entry etext va) = ?a" by blast+
qed

text \<open>
  \<open>new_table pt f b xs s s'\<close>: a table at \<open>pt\<close> with the entries \<open>f\<close> was built from at most \<open>b\<close> pages off the front
  of the free list, the first of them its root; no other byte changed, no other page was taken.
\<close>

definition new_table :: "u64 \<Rightarrow> (u64 \<Rightarrow> u64) \<Rightarrow> nat \<Rightarrow> u64 list \<Rightarrow> 'a kvm_scheme \<Rightarrow> 'a kvm_scheme \<Rightarrow> bool" where
  "new_table pt f b xs s s' \<longleftrightarrow> (\<exists>ys zs. xs = ys @ zs \<and> length ys \<le> b \<and> pt = hd xs \<and> pt \<noteq> 0 \<and> kmem_ok s' zs \<and> owned 2 pt s' \<and>
     tabs (mem s') 2 pt = set ys \<and> (\<forall>va. leaf (mem s') 2 pt va = f va) \<and>
     refs s' = (\<lambda>q. if q \<in> set ys then 1 else refs s q) \<and>
     (\<forall>a. page_no a \<notin> page_no ` set ys \<longrightarrow> mem s' a = mem s a))"

lemma built_new_table:
  assumes k: "kmem_ok s (x # xs)" and B: "built x f b xs s2 s'" and o: "owned 2 x s2" and t: "tabs (mem s2) 2 x = {x}"
    and r: "refs s2 = (refs s)(x := 1)" and m: "\<And>a. page_no a \<noteq> page_no x \<Longrightarrow> mem s2 a = mem s a"
  shows "new_table x f (Suc b) (x # xs) s s'"
proof -
  obtain ys zs where B: "xs = ys @ zs" "length ys \<le> b" "tabled x ys zs s2 s'" "\<forall>va. leaf (mem s') 2 x va = f va"
    using B by (auto simp: built_def)
  have "x \<noteq> 0" using k kmem_ok_D(3) [OF k, of x] by (simp add: ram_page_nonzero)
  moreover have "refs s' = (\<lambda>q. if q \<in> set (x # ys) then 1 else refs s q)"
    using B(3) r by (simp add: tabled_def fun_eq_iff)
  moreover have "mem s' a = mem s a" if "page_no a \<notin> page_no ` set (x # ys)" for a
    using that B(3) m [of a] t by (simp add: tabled_def)
  ultimately show ?thesis unfolding new_table_def using B tabled_owned [OF o B(3)] t
    by (intro exI [of _ "x # ys"] exI [of _ zs]) (auto simp: tabled_def)
qed

lemma root_fields [simp]:
  "kmem_ok (u\<lparr>kernel_pagetable := p, mem := m\<rparr>) xs = kmem_ok (u\<lparr>mem := m\<rparr>) xs" "refs (u\<lparr>kernel_pagetable := p\<rparr>) = refs u"
  by (simp_all add: kmem_ok_def refs_def fun_eq_iff)

lemma kvminit_ok:
  assumes k: "kmem_ok s xs" and room: "kernel_tables + 1 < length xs" and t: "text_end etext"
  shows "\<exists>s'. kvminit etext s = Some s' \<and> kernel_pagetable s' = hd xs \<and> satp s' = satp s \<and> vout s' = vout s \<and> kvm.more s' = kvm.more s \<and>
    new_table (hd xs) (kernel_entry etext) (kernel_tables + 1) xs s s'"
proof -
  obtain x xs1 where xs: "xs = x # xs1" using room by (cases xs) auto
  note f = fresh_table [OF k [unfolded xs]]
  let ?s1 = "snd (kalloc s)"
  let ?s2 = "?s1\<lparr>kernel_pagetable := x, mem := set_loop (mem ?s1) x 0 4096\<rparr>"
  have s2: "kmem_ok ?s2 xs1" "owned 2 x ?s2" "tabs (mem ?s2) 2 x = {x}" "\<forall>va. leaf (mem ?s2) 2 x va = 0" "refs ?s2 = (refs s)(x := 1)"
    "\<And>a. page_no a \<noteq> page_no x \<Longrightarrow> mem ?s2 a = mem s a"
    using f by (simp_all add: owned_def)
  obtain s' where s': "map_kernel etext x ?s2 = Some s'" "built x (kernel_entry etext) kernel_tables xs1 ?s2 s'"
    using map_kernel_ok [OF s2(1,2,4) t] room xs by auto
  have "kvminit etext s = Some s'" using s'(1) f(1) by (cases "kalloc s") (simp add: kvminit_def Let_def)
  moreover have "same_kvm ?s2 s'" using s'(2) by (auto simp: built_def)
  moreover have "satp ?s1 = satp s" "vout ?s1 = vout s" "kvm.more ?s1 = kvm.more s"
    using f(9) by (cases "snd (kalloc s)", cases s, simp)+
  moreover have "new_table x (kernel_entry etext) (Suc kernel_tables) xs s s'"
    unfolding xs by (rule built_new_table [OF k [unfolded xs] s'(2) s2(2,3,5,6)])
  ultimately show ?thesis by (simp add: same_kvm_def xs)
qed

text \<open>The table of a process: its code page at \<^verbatim>\<open>USERVA\<close>, its stack at \<^verbatim>\<open>USERSTACK\<close>, the kernel elsewhere.\<close>

definition proc_entry :: "u64 \<Rightarrow> u64 \<Rightarrow> u64 \<Rightarrow> u64 \<Rightarrow> u64" where
  "proc_entry etext code stack va =
     (if PGROUNDDOWN (low39 va) = USERVA then PA2PTE code OR (PTE_R OR PTE_X OR PTE_U) OR PTE_V
      else if PGROUNDDOWN (low39 va) = USERSTACK then PA2PTE stack OR (PTE_R OR PTE_W OR PTE_U) OR PTE_V
      else kernel_entry etext va)"

lemma page_vpn: "take_bit 12 p = 0 \<Longrightarrow> unat p < 2 ^ 39 \<Longrightarrow> PGROUNDDOWN (low39 va) = p \<longleftrightarrow> vpn va = vpn p"
proof -
  assume p: "take_bit 12 p = 0" "unat p < 2 ^ 39"
  then obtain q where q: "unat p = 4096 * q" by (auto simp: aligned_iff_dvd)
  have "vpn p = q" using p(2) q by (simp add: vpn_small)
  moreover have "PGROUNDDOWN (low39 va) = p \<longleftrightarrow> unat (low39 va) div 4096 * 4096 = 4096 * q"
    unfolding word_unat_eq_iff unat_PGROUNDDOWN q ..
  ultimately show ?thesis by (auto simp: vpn_low39 [of va])
qed

lemma kernel_not_user: "vpn va < 0xC000 \<Longrightarrow> text_end etext \<Longrightarrow> kernel_entry etext va = 0"
proof -
  assume v: "vpn va < 0xC000" and t: "text_end etext"
  have "unat (low39 va) < 0xC000000" using v by (simp add: vpn_low39 div_less_iff_less_mult)
  then have "kernel_perm etext (low39 va) = None"
    using text_end_unat(1) [OF t] by (simp add: kernel_perm_def places word_le_nat_alt)
  then show ?thesis by (simp add: kernel_entry_def)
qed

lemma built_page:
  assumes B: "built pt f b xs s s1" and o: "owned 2 pt s" and va: "take_bit 12 va = 0" "unat va + 4096 \<le> 2 ^ 39"
    and free: "\<not> bit (f va) 0" and room: "b + 2 < length xs"
  shows "\<exists>s2. mappages pt va 4096 pa perm s1 = Some (0, s2) \<and>
    built pt (\<lambda>x. if vpn x = vpn va then PA2PTE pa OR perm OR PTE_V else f x) (b + 2) xs s s2"
proof -
  obtain ys zs where B: "xs = ys @ zs" "length ys \<le> b" "tabled pt ys zs s s1" "same_kvm s s1" "\<And>va. leaf (mem s1) 2 pt va = f va"
    using B by (auto simp: built_def)
  have k: "kmem_ok s1 zs" "owned 2 pt s1" using B(3) tabled_owned [OF o B(3)] by (auto simp: tabled_def)
  have "\<not> bit (leaf (mem s1) 2 pt va) 0" using free B(5) by simp
  from map_one [OF k va this, of pa perm] obtain r s2 us ws where m: "mappages pt va 4096 pa perm s1 = Some (r, s2)"
    "zs = us @ ws" "length us \<le> 2" "tabled pt us ws s1 s2" "same_kvm s1 s2" "r = 0 \<or> r = -1 \<and> ws = []"
    "\<forall>x. leaf (mem s2) 2 pt x = (if r = 0 \<and> vpn x = vpn va then PA2PTE pa OR perm OR PTE_V else leaf (mem s1) 2 pt x)" by metis
  have "r = 0" using m(2,3,6) room B(1,2) by auto
  moreover have "tabled pt (ys @ us) ws s s2" using tabled_trans B(3) m(2,4) by blast
  ultimately show ?thesis unfolding built_def using m(1,2,3,7) B(1,2,5) same_kvm_trans [OF B(4) m(5)]
    by (intro exI [of _ s2] conjI exI [of _ "ys @ us"] exI [of _ ws]) auto
qed

lemma proc_pagetable_ok:
  assumes k: "kmem_ok s xs" and room: "kernel_tables + 5 < length xs" and t: "text_end etext"
  shows "\<exists>s'. proc_pagetable etext code stack s = Some (hd xs, s') \<and> same_kvm s s' \<and>
    new_table (hd xs) (proc_entry etext code stack) (kernel_tables + 5) xs s s'"
proof -
  obtain x xs1 where xs: "xs = x # xs1" using room by (cases xs) auto
  note f = fresh_table [OF k [unfolded xs]]
  let ?s1 = "snd (kalloc s)" and ?RXU = "PTE_R OR PTE_X OR PTE_U" and ?RWU = "PTE_R OR PTE_W OR PTE_U"
  let ?s2 = "?s1\<lparr>mem := set_loop (mem ?s1) x 0 4096\<rparr>"
  have u: "take_bit 12 USERVA = 0" "unat USERVA + 4096 \<le> 2 ^ 39" "take_bit 12 USERSTACK = 0" "unat USERSTACK + 4096 \<le> 2 ^ 39"
    "vpn USERVA = 1" "vpn USERSTACK = 4" by (simp_all add: USERVA_def USERSTACK_def vpn_def)
  obtain s3 where s3: "map_kernel etext x ?s2 = Some s3" "built x (kernel_entry etext) kernel_tables xs1 ?s2 s3"
    using map_kernel_ok [OF f(3,4) _ t] f(6) room xs by auto
  obtain s4 where s4: "mappages x USERVA 4096 code ?RXU s3 = Some (0, s4)"
    "built x (\<lambda>v. if vpn v = vpn USERVA then PA2PTE code OR ?RXU OR PTE_V else kernel_entry etext v) (kernel_tables + 2) xs1 ?s2 s4"
    using built_page [OF s3(2) f(4) u(1,2), of code ?RXU] kernel_not_user [of USERVA] u(5) t room xs by auto
  obtain s5 where s5: "mappages x USERSTACK 4096 stack ?RWU s4 = Some (0, s5)"
    "built x (\<lambda>v. if vpn v = vpn USERSTACK then PA2PTE stack OR ?RWU OR PTE_V
       else if vpn v = vpn USERVA then PA2PTE code OR ?RXU OR PTE_V else kernel_entry etext v) (kernel_tables + 2 + 2) xs1 ?s2 s5"
    using built_page [OF s4(2) f(4) u(3,4), of stack ?RWU] kernel_not_user [of USERSTACK] u(5,6) t room xs by auto
  have "proc_entry etext code stack = (\<lambda>v. if vpn v = vpn USERSTACK then PA2PTE stack OR ?RWU OR PTE_V
       else if vpn v = vpn USERVA then PA2PTE code OR ?RXU OR PTE_V else kernel_entry etext v)"
    using u by (auto simp: proc_entry_def page_vpn fun_eq_iff)
  with s5(2) have B: "built x (proc_entry etext code stack) (kernel_tables + 2 + 2) xs1 ?s2 s5" by (simp only:)
  have "proc_pagetable etext code stack s = Some (x, s5)"
    using f(1,2) s3(1) s4(1) s5(1) by (cases "kalloc s") (simp add: proc_pagetable_def)
  moreover have "same_kvm s ?s2" using f(9) by (cases "snd (kalloc s)", cases s, simp add: same_kvm_def)
  moreover have "same_kvm ?s2 s5" using B by (auto simp: built_def)
  moreover have "new_table x (proc_entry etext code stack) (kernel_tables + 5) xs s s5"
  proof -
    have "kernel_tables + 5 = Suc (kernel_tables + 2 + 2)" by simp
    then show ?thesis unfolding xs by (simp only:) (rule built_new_table [OF k [unfolded xs] B f(4,5)], use f(7,8) in simp_all)
  qed
  ultimately show ?thesis using same_kvm_trans [of s ?s2 s5] by (simp add: xs)
qed

text \<open>
  Claim C23. With enough free pages \<^verbatim>\<open>kvminit\<close> returns (it does not end in the endless loop of
  \<^verbatim>\<open>kvmmap\<close>) and the kernel's page table maps exactly the device registers, the kernel's text and
  the rest of the RAM, each address to itself; only text is executable, no page is both writable and
  executable, none is accessible to user mode. The table is built from at most 137 pages, all of them
  free before, and no byte outside them changes.
\<close>
theorem kvminit_correct:
  assumes "kmem_ok s xs" "kernel_tables + 1 < length xs" "text_end etext"
  shows "\<exists>s'. kvminit etext s = Some s' \<and> satp s' = satp s \<and> vout s' = vout s \<and>
    new_table (kernel_pagetable s') (kernel_entry etext) (kernel_tables + 1) xs s s' \<and>
    (\<forall>va. let e = leaf (mem s') 2 (kernel_pagetable s') va in
       (bit e 0 \<longleftrightarrow> kernel_perm etext (low39 va) \<noteq> None) \<and> (bit e 0 \<longrightarrow> PTE2PA e = PGROUNDDOWN (low39 va)) \<and>
       \<not> (bit e 2 \<and> bit e 3) \<and> \<not> bit e 4)"
proof -
  obtain s' where s': "kvminit etext s = Some s'" "kernel_pagetable s' = hd xs" "satp s' = satp s" "vout s' = vout s"
    "new_table (hd xs) (kernel_entry etext) (kernel_tables + 1) xs s s'" using kvminit_ok [OF assms] by blast
  then have "leaf (mem s') 2 (hd xs) va = kernel_entry etext va" for va by (auto simp: new_table_def)
  then show ?thesis using s' kernel_entry_protects by (intro exI [of _ s']) (simp add: Let_def)
qed

text \<open>
  Claim C22. With enough free pages \<^verbatim>\<open>proc_pagetable\<close> builds a table in which user mode reaches two pages
  only, the process's code, readable and executable, and its stack, readable and writable; every
  other mapping is the kernel's, closed to user mode, and no page is both writable and executable. The
  kernel's own mappings are the same in every process.
\<close>
theorem proc_pagetable_correct:
  assumes "kmem_ok s xs" "kernel_tables + 5 < length xs" "text_end etext"
  shows "\<exists>s'. proc_pagetable etext code stack s = Some (hd xs, s') \<and> same_kvm s s' \<and>
    new_table (hd xs) (proc_entry etext code stack) (kernel_tables + 5) xs s s' \<and>
    (\<forall>va. let e = leaf (mem s') 2 (hd xs) va in
       (bit e 4 \<longleftrightarrow> PGROUNDDOWN (low39 va) = USERVA \<or> PGROUNDDOWN (low39 va) = USERSTACK) \<and>
       (\<not> bit e 4 \<longrightarrow> e = kernel_entry etext va) \<and> \<not> (bit e 2 \<and> bit e 3))"
proof -
  obtain s' where s': "proc_pagetable etext code stack s = Some (hd xs, s')" "same_kvm s s'"
    "new_table (hd xs) (proc_entry etext code stack) (kernel_tables + 5) xs s s'" using proc_pagetable_ok [OF assms] by blast
  then have l: "leaf (mem s') 2 (hd xs) va = proc_entry etext code stack va" for va by (auto simp: new_table_def)
  have bits: "bit (proc_entry etext code stack va) n = bit (PTE_R OR PTE_X OR PTE_U OR PTE_V) n" if "PGROUNDDOWN (low39 va) = USERVA" "n < 10" for va n
    using that bit_make_low [of n code] by (simp add: proc_entry_def or.assoc)
  have bits2: "bit (proc_entry etext code stack va) n = bit (PTE_R OR PTE_W OR PTE_U OR PTE_V) n"
    if "PGROUNDDOWN (low39 va) = USERSTACK" "n < 10" for va n
    using that bit_make_low [of n stack] by (simp add: proc_entry_def or.assoc USERVA_def USERSTACK_def)
  have "let e = leaf (mem s') 2 (hd xs) va in
       (bit e 4 \<longleftrightarrow> PGROUNDDOWN (low39 va) = USERVA \<or> PGROUNDDOWN (low39 va) = USERSTACK) \<and>
       (\<not> bit e 4 \<longrightarrow> e = kernel_entry etext va) \<and> \<not> (bit e 2 \<and> bit e 3)" for va
    using bits [of va] bits2 [of va] kernel_entry_protects(1,2) [of etext va] unfolding Let_def l
    by (cases "PGROUNDDOWN (low39 va) = USERVA"; cases "PGROUNDDOWN (low39 va) = USERSTACK")
      (simp_all add: bit_simps, simp_all add: proc_entry_def)
  then show ?thesis using s' by blast
qed

lemma lone_root:
  assumes "wf_tab m (Suc l) pt" "tabs m (Suc l) pt = {pt}" "i < 512"
  shows "\<not> valid m pt i"
proof
  assume v: "valid m pt i"
  then have "wf_tab m l (child m pt i)" "pt \<notin> tabs m l (child m pt i)" using assms(1,3) by auto
  then show False using child_tabs [OF assms(3) v, of l] wf_tab_root [of m l "child m pt i"] unfolding assms(2) by auto
qed

text \<open>
  When the root of a new process's table is the last free page, the first \<^verbatim>\<open>kvmmap\<close> finds no page for an inner
  table and loops forever, so the whole machine stops, although \<^verbatim>\<open>proc_pagetable\<close> can report failure.
\<close>

theorem proc_pagetable_hangs:
  assumes "kmem_ok s [x]"
  shows "proc_pagetable etext code stack s = None"
proof -
  note f = fresh_table [OF assms]
  let ?s1 = "snd (kalloc s)"
  let ?s2 = "?s1\<lparr>mem := set_loop (mem ?s1) x 0 4096\<rparr>"
  have "wf_tab (mem ?s2) (Suc 1) x" "tabs (mem ?s2) (Suc 1) x = {x}" using f(4,5) by (simp_all add: owned_def numeral_2_eq_2)
  then have "\<not> valid (mem ?s2) x (PX 2 UART0)" using PX_less by (rule lone_root)
  then have "walk x UART0 True ?s2 = (0, ?s2)"
    using kalloc_empty [OF f(3)] by (simp add: walk_def numeral_2_eq_2 ent_def Let_def)
  moreover have "PGROUNDDOWN UART0 = UART0" by (simp add: PGROUNDDOWN_def UART0_def)
  ultimately have "mappages x UART0 4096 UART0 (PTE_R OR PTE_W) ?s2 = Some (-1, ?s2)"
    by (simp add: mappages_def map_loop.simps [of x UART0])
  then have "map_kernel etext x ?s2 = None" by (simp add: map_kernel_def kvmmap_def)
  then show ?thesis using f(1,2) by (cases "kalloc s") (simp add: proc_pagetable_def)
qed

section \<open>A machine that has booted\<close>

definition booted :: kvm where
  "booted = kinit 0x80234567 \<lparr>mem = (\<lambda>_. 0), freelist = 0, freecnt = 0, refcnt = (\<lambda>_. 0), kernel_pagetable = 0, satp = 0, vout = []\<rparr>"

lemma booted_ok: "\<exists>xs. kmem_ok booted xs \<and> 200 \<le> length xs"
proof -
  obtain xs where xs: "kmem_ok booted xs" "set xs = {q. ram_page q \<and> 0x80234567 \<le> q}"
    using kinit_ok(1) [of "0x80234567" "\<lparr>mem = (\<lambda>_. 0), freelist = 0, freecnt = 0, refcnt = (\<lambda>_. 0), kernel_pagetable = 0, satp = 0, vout = []\<rparr>"]
    by (auto simp: booted_def RAMBASE_def PHYSTOP_def)
  have "200 \<le> card (set xs)" unfolding xs(2) by (rule pages_above) (simp_all add: RAMBASE_def)
  then show ?thesis using xs(1) card_length [of xs] by (intro exI [of _ xs]) linarith
qed

theorem kvminit_correct_witness:
  "\<exists>s'. kvminit 0x80208000 booted = Some s' \<and>
     PTE2PA (leaf (mem s') 2 (kernel_pagetable s') 0x80207abc) = 0x80207000 \<and>
     \<not> bit (leaf (mem s') 2 (kernel_pagetable s') 0x1000) 0"
proof -
  obtain xs where xs: "kmem_ok booted xs" "200 \<le> length xs" using booted_ok by blast
  have t: "text_end 0x80208000" by (simp add: text_end_def places)
  have "kernel_tables + 1 < length xs" using xs(2) by (simp add: kernel_tables_def)
  from kvminit_correct [OF xs(1) this t] obtain s' where s': "kvminit 0x80208000 booted = Some s'"
    and e: "\<And>va. let e = leaf (mem s') 2 (kernel_pagetable s') va in
       (bit e 0 \<longleftrightarrow> kernel_perm 0x80208000 (low39 va) \<noteq> None) \<and> (bit e 0 \<longrightarrow> PTE2PA e = PGROUNDDOWN (low39 va)) \<and>
       \<not> (bit e 2 \<and> bit e 3) \<and> \<not> bit e 4" by blast
  have "kernel_perm 0x80208000 (low39 0x80207abc) \<noteq> None" "kernel_perm 0x80208000 (low39 0x1000) = None"
    "PGROUNDDOWN (low39 0x80207abc) = 0x80207000" by (simp_all add: kernel_perm_def low39_def places PGROUNDDOWN_def)
  with e [of "0x80207abc"] e [of "0x1000"] s' show ?thesis by (auto simp: Let_def)
qed

theorem proc_pagetable_correct_witness:
  "\<exists>pt s'. proc_pagetable 0x80208000 0x87ff0000 0x87ff1000 booted = Some (pt, s') \<and>
     bit (leaf (mem s') 2 pt 0x1000) 4 \<and> \<not> bit (leaf (mem s') 2 pt 0x80200000) 4 \<and>
     leaf (mem s') 2 pt 0x80200000 = kernel_entry 0x80208000 0x80200000"
proof -
  obtain xs where xs: "kmem_ok booted xs" "200 \<le> length xs" using booted_ok by blast
  have t: "text_end 0x80208000" by (simp add: text_end_def places)
  have "kernel_tables + 5 < length xs" using xs(2) by (simp add: kernel_tables_def)
  from proc_pagetable_correct [OF xs(1) this t, of "0x87ff0000" "0x87ff1000"] obtain s' where
    s': "proc_pagetable 0x80208000 0x87ff0000 0x87ff1000 booted = Some (hd xs, s')"
    and e: "\<And>va. let e = leaf (mem s') 2 (hd xs) va in
       (bit e 4 \<longleftrightarrow> PGROUNDDOWN (low39 va) = USERVA \<or> PGROUNDDOWN (low39 va) = USERSTACK) \<and>
       (\<not> bit e 4 \<longrightarrow> e = kernel_entry 0x80208000 va) \<and> \<not> (bit e 2 \<and> bit e 3)" by blast
  have "PGROUNDDOWN (low39 0x80200000) = 0x80200000" "PGROUNDDOWN (low39 0x1000) = USERVA" by (simp_all add: low39_def PGROUNDDOWN_def USERVA_def)
  with e [of "0x80200000"] e [of "0x1000"] s' show ?thesis
    by (intro exI [of _ "hd xs"] exI [of _ s']) (simp add: Let_def USERVA_def USERSTACK_def)
qed

end
