(* ===== verification/BootThms.thy ===== *)
theory BootThms
  imports Boot VmKernel FsThms
begin

text \<open>
  That the boot comes through. Every phase takes pages off the front of the free list and writes
  nowhere else, so what an earlier phase built stays as it is.
\<close>

section \<open>Phases that take pages\<close>

definition took :: "u64 list \<Rightarrow> u64 list \<Rightarrow> 'a kmem_scheme \<Rightarrow> 'b kmem_scheme \<Rightarrow> bool" where
  "took ys zs s s' \<longleftrightarrow> kmem_ok s (ys @ zs) \<and> kmem_ok s' zs \<and> refs s' = (\<lambda>q. if q \<in> set ys then 1 else refs s q) \<and>
     (\<forall>a. page_no a \<notin> page_no ` set ys \<longrightarrow> mem s' a = mem s a)"

lemma took_refl: "kmem_ok s xs \<Longrightarrow> took [] xs s s"
  by (simp add: took_def)

lemma took_trans: "took ys (us @ ws) s s' \<Longrightarrow> took us ws s' s'' \<Longrightarrow> took (ys @ us) ws s s''"
  unfolding took_def by (auto simp: fun_eq_iff image_Un)

lemma took_more:
  assumes "took ys zs s s'" "mem t = mem s" "freelist t = freelist s" "freecnt t = freecnt s" "refcnt t = refcnt s"
    "mem t' = mem s'" "freelist t' = freelist s'" "freecnt t' = freecnt s'" "refcnt t' = refcnt s'"
  shows "took ys zs t t'"
proof -
  have r: "refs t = refs s" "refs t' = refs s'" by (rule refs_more, fact assms)+
  have "kmem_ok t (ys @ zs)" "kmem_ok t' zs" using assms kmem_ok_more [of s "ys @ zs" t] kmem_ok_more [of s' zs t'] by (simp_all add: took_def)
  then show ?thesis using assms(1,2,6) unfolding took_def r by simp
qed

lemma took_table:
  assumes t: "took ys zs s s'" and o: "owned 2 pt s"
  shows "owned 2 pt s'" "leaf (mem s') 2 pt va = leaf (mem s) 2 pt va"
proof -
  have k: "kmem_ok s (ys @ zs)" and m: "\<forall>a. page_no a \<notin> page_no ` set ys \<longrightarrow> mem s' a = mem s a"
    and r: "refs s' = (\<lambda>q. if q \<in> set ys then 1 else refs s q)" using t by (simp_all add: took_def)
  have wf: "wf_tab (mem s) 2 pt" using o by (simp add: owned_def)
  have "agree (tabs (mem s) 2 pt) (mem s) (mem s')"
    using agree_off [OF m, of "tabs (mem s) 2 pt"] owned_not_free [OF k o] kmem_ok_D(3) [OF k] wf_tab_ram [OF wf] by auto
  from tabs_agree [OF wf this] leaf_agree [OF wf this]
  show "owned 2 pt s'" "leaf (mem s') 2 pt va = leaf (mem s) 2 pt va" using o r by (auto simp: owned_def)
qed

lemma took_kalloc:
  assumes "kmem_ok s (x # xs)"
  obtains s' where "kalloc s = (x, s')" "took [x] xs s s'" "mem s' = mem s" "kmem.more s' = kmem.more s" "ram_page x"
  using kalloc_Cons [OF assms] kmem_ok_D(3) [OF assms, of x] assms by (auto simp: took_def fun_eq_iff)

lemma new_table_took:
  "new_table pt f b xs s s' \<Longrightarrow> kmem_ok s xs \<Longrightarrow> \<exists>ys zs. xs = ys @ zs \<and> length ys \<le> b \<and> took ys zs s s'"
  unfolding new_table_def took_def by blast

lemma fresh_zero_took: "fresh_zero ps s s' \<Longrightarrow> kmem_ok s (ps @ xs) \<Longrightarrow> kmem_ok s' xs \<Longrightarrow> took ps xs s s'"
  by (simp add: fresh_zero_def took_def)

text \<open>The network driver, whatever is on the bus.\<close>

lemma net_init_took:
  fixes s :: ninit
  assumes "kmem_ok s (ps @ xs)" "length ps = 15" "length (rxbuf s) = 8"
  shows "\<exists>ys zs. ps @ xs = ys @ zs \<and> length ys \<le> 15 \<and> took ys zs s (snd (snd (net_init io cfg w s)))"
proof -
  define s0 where "s0 = net_find io s"
  obtain st s1 where n: "net_negotiate io s0 = (st, s1)" by (cases "net_negotiate io s0")
  have s0: "mem s0 = mem s" "freelist s0 = freelist s" "freecnt s0 = freecnt s" "refcnt s0 = refcnt s" "rxbuf s0 = rxbuf s"
    by (simp_all add: s0_def net_find_def split: option.splits)
  have s1: "mem s1 = mem s" "freelist s1 = freelist s" "freecnt s1 = freecnt s" "refcnt s1 = refcnt s" "rxbuf s1 = rxbuf s"
    using n s0 by (auto simp: net_negotiate_def Let_def NW32_def io_wr_def)
  have same: "took [] (ps @ xs) s s0" "took [] (ps @ xs) s s1"
    by (rule took_more [OF took_refl [OF assms(1)]], use s0 s1 in simp_all)+
  have k1: "kmem_ok s1 (ps @ xs)" using same(2) by (simp add: took_def)
  obtain a b c d e f bufs p where ps: "ps = [a, b, c, d, e, f] @ bufs @ [p]" "length bufs = 8" using assms(2) by (rule split_pages)
  have "kmem_ok s1 ([a, b, c, d, e, f] @ bufs @ p # xs)" using k1 by (simp add: ps(1))
  then obtain t1 t2 t3 where u: "setup_queue 0 s1 = (\<lparr>q_desc = a, q_avail = b, q_used = c\<rparr>, t1)"
      "setup_queue 1 (t1\<lparr>rxq := \<lparr>q_desc = a, q_avail = b, q_used = c\<rparr>,
         rx_descs := replicate 8 \<lparr>rd_addr = 0, rd_len = 0, rd_flags = 0, rd_next = 0\<rparr>\<rparr>) = (\<lparr>q_desc = d, q_avail = e, q_used = f\<rparr>, t2)"
      "kalloc (rx_buffers 8 (t2\<lparr>txq := \<lparr>q_desc = d, q_avail = e, q_used = f\<rparr>\<rparr>)) = (p, t3)" "kmem_ok t3 xs" "net_pages ps s1 t3"
    using ps s1(5) assms(3) by (elim net_queues_up) simp_all
  have "took ps xs s1 t3" using k1 u(4,5) image_mono [OF set_take_subset [of 6 ps], of page_no]
    unfolding took_def net_pages_def by (auto simp del: set_take_subset)
  then have t3: "took ps xs s1 (t3\<lparr>txframe_pa := q, mwrites := ws\<rparr>)" for q ws by (rule took_more) simp_all
  show ?thesis
  proof (cases "net_base s0 = 0 \<or> NR32 io MMIO_STATUS s1 AND S_FEATURES_OK = 0")
    case True
    then have "snd (snd (net_init io cfg w s)) = (if net_base s0 = 0 then s0 else s1)"
      by (cases "net_base s0 = 0") (simp_all add: net_init_def Let_def s0_def [symmetric] n)
    then show ?thesis using same by (intro exI [of _ "[]"] exI [of _ "ps @ xs"]) simp
  next
    case False
    then have "snd (snd (net_init io cfg w s)) = t3\<lparr>txframe_pa := p, mwrites := mwrites t3 @
        [(net_base t3 + MMIO_STATUS, st OR S_DRIVER_OK), (net_base t3 + MMIO_QUEUE_NOTIFY, 0)]\<rparr>"
      by (simp add: net_init_def Let_def s0_def [symmetric] n u NW32_def io_wr_def)
    then have "took ps xs s (snd (snd (net_init io cfg w s)))"
      using took_trans [OF same(2) t3] by (simp only: append_Nil)
    then show ?thesis using assms(2) by (intro exI [of _ ps] exI [of _ xs]) simp
  qed
qed

section \<open>The first process\<close>

text \<open>
  A process as \<^verbatim>\<open>make_user_proc\<close> leaves it: runnable from \<^verbatim>\<open>enter_user\<close>, with its code, stack and table, and a code page
  that holds the embedded image, zeros elsewhere.
\<close>

definition fresh_user :: "ksyms \<Rightarrow> u8 list \<Rightarrow> int \<Rightarrow> memory \<Rightarrow> proc \<Rightarrow> 'a kmem_scheme \<Rightarrow> bool" where
  "fresh_user lk nm n m0 p s \<longleftrightarrow> state p = RUNNABLE \<and> is_user p \<and> pid p = n \<and> takeWhile (\<lambda>c. c \<noteq> 0) (pname p) = nm \<and>
     heap_top p = HEAPBASE \<and> ra (ctx p) = enter_user lk \<and> sp (ctx p) = kstack p + PGSIZE \<and>
     owned 2 (pagetable p) s \<and> (\<forall>va. leaf (mem s) 2 (pagetable p) va = proc_entry (etext lk) (ucode p) (ustack p) va) \<and>
     (\<forall>k < 4096. mem s (ucode p + of_nat k) = image_byte m0 (initcode lk) (loads m0 (initcode lk) 0) k 0)"

lemma in_page_no: "ram_page q \<Longrightarrow> in_page q a \<longleftrightarrow> page_no a = page_no q"
  using aligned_range [OF ram_page_aligned] by (simp add: in_page_unat)

lemma store_name: "length nm \<le> 7 \<Longrightarrow> 0 \<notin> set nm \<Longrightarrow> takeWhile (\<lambda>c. c \<noteq> 0) (store_pname 7 nm [0] old) = nm"
proof -
  assume nm: "length nm \<le> 7" "0 \<notin> set nm"
  then have "take 7 (takeWhile (\<lambda>c. c \<noteq> 0) nm) = nm" by (subst takeWhile_eq_all_conv [THEN iffD2]) auto
  moreover have "takeWhile (\<lambda>c. c \<noteq> 0) (nm @ 0 # xs) = nm" for xs using nm(2) by (induction nm) auto
  ultimately show ?thesis by (simp add: store_pname_def Let_def)
qed

text \<open>Writing inside a page that is not free.\<close>

lemma took_write:
  assumes t: "took ys zs s s'" and p: "p \<in> set ys" and m: "\<forall>a. page_no a \<noteq> page_no p \<longrightarrow> mem s'' a = mem s' a"
    and f: "freelist s'' = freelist s'" "freecnt s'' = freecnt s'" "refcnt s'' = refcnt s'"
  shows "took ys zs s s''"
proof -
  have k: "kmem_ok s (ys @ zs)" "kmem_ok s' zs" using t by (simp_all add: took_def)
  have "ld64 (mem s'') y = ld64 (mem s') y" if "y \<in> set zs" for y
  proof (rule ld64_same_page)
    have "ram_page y" "ram_page p" "y \<noteq> p" using kmem_ok_D(2,3) [OF k(1)] p that by auto
    then show "take_bit 3 y = 0" "page_no a = page_no y \<Longrightarrow> mem s'' a = mem s' a" for a using m by (auto simp: ram_page_dword page_no_inject)
  qed
  then have "chain (mem s'') (freelist s'') zs = chain (mem s') (freelist s'') zs" by (rule chain_cong)
  then have "kmem_ok s'' zs" using k(2) f by (simp add: kmem_ok_def)
  moreover have "refs s'' = refs s'" using f(3) by (rule refs_more)
  ultimately show ?thesis using t p m unfolding took_def by auto
qed

definition same_kproc :: "'a kproc_scheme \<Rightarrow> 'a kproc_scheme \<Rightarrow> bool" where
  "same_kproc s s' \<longleftrightarrow> kernel_pagetable s' = kernel_pagetable s \<and> satp s' = satp s \<and> proctable s' = proctable s \<and>
     cpu_proc s' = cpu_proc s \<and> next_pid s' = next_pid s"

lemma same_kproc_trans: "same_kproc s s' \<Longrightarrow> same_kproc s' s'' \<Longrightarrow> same_kproc s s''"
  by (simp add: same_kproc_def)

lemma same_kprocI:
  fixes s s' :: "'a kproc_scheme"
  shows "kmem.more s' = kmem.more s \<Longrightarrow> same_kproc s s'" "same_kvm s s' \<Longrightarrow> same_kproc s s'"
  by (cases s; cases s'; simp add: same_kproc_def same_kvm_def)+

lemma took_page: "took ys zs s s' \<Longrightarrow> ram_page p \<Longrightarrow> p \<notin> set ys \<Longrightarrow> in_page p a \<Longrightarrow> mem s' a = mem s a"
  using page_image [of "set ys" p] kmem_ok_D(3) [of s "ys @ zs"] by (simp add: took_def in_page_no)

text \<open>The code page: zeroed, then loaded.\<close>

lemma code_page_ok:
  fixes s :: "'a kproc_scheme"
  assumes k: "kmem_ok s (code # xs)" and elf: "elf_ok m0 im len" and same: "\<forall>k < len. mem s (im + of_nat k) = m0 (im + of_nat k)"
    and cl: "clear_of im len code"
  obtains s1 m2 where "kalloc s = (code, s1)" "same_kproc s s1" "took [code] xs s (s1\<lparr>mem := m2\<rparr>)"
    "load_elf im code (set_loop (mem s1) code 0 4096) = (0, Some (e_entry (ehdr_at m0 im)), m2, '''')"
    "\<forall>k < 4096. m2 (code + of_nat k) = image_byte m0 im (loads m0 im 0) k 0"
proof -
  note im = image_agree [OF elf same]
  obtain s1 where s1: "kalloc s = (code, s1)" "took [code] xs s s1" "mem s1 = mem s" "kmem.more s1 = kmem.more s" "ram_page code"
    using took_kalloc [OF k] .
  let ?z = "set_loop (mem s1) code 0 4096"
  have z: "?z a = (if in_page code a then 0 else mem s a)" for a
    using s1(3,5) by (simp add: zero_page_eq ram_page_aligned in_page_no)
  have zi: "\<forall>k < len. ?z (im + of_nat k) = mem s (im + of_nat k)" using cl by (simp add: z clear_of_def)
  note iz = image_agree [OF im(3) zi]
  define m2 where "m2 = (\<lambda>a. if in_page code a then image_byte m0 im (loads m0 im 0) (unat (a - code)) 0 else mem s a)"
  show thesis
  proof (rule that [OF s1(1)])
    show "same_kproc s s1" using s1(4) by (rule same_kprocI)
    show "took [code] xs s (s1\<lparr>mem := m2\<rparr>)"
      using s1(2) by (rule took_write [where p = code]) (use s1(3,5) in \<open>simp_all add: m2_def in_page_no\<close>)
    show "load_elf im code ?z = (0, Some (e_entry (ehdr_at m0 im)), m2, '''')"
      unfolding load_elf_ok [OF iz(3) cl] iz(1,2) im(1,2) by (simp add: m2_def fun_eq_iff z iz(4) [unfolded im(2)] im(4))
    show "\<forall>k < 4096. m2 (code + of_nat k) = image_byte m0 im (loads m0 im 0) k 0"
    proof (intro allI impI)
      fix k :: nat assume "k < 4096"
      then have "unat (of_nat k :: u64) = k" "in_page code (code + of_nat k)" by (simp_all add: unat_of_nat in_page_unat)
      then show "m2 (code + of_nat k) = image_byte m0 im (loads m0 im 0) k 0" by (simp add: m2_def)
    qed
  qed
qed

text \<open>User stack, page table and kernel stack.\<close>

lemma user_space_ok:
  fixes s :: "'a kproc_scheme"
  assumes k: "kmem_ok s (us # xs)" and room: "kernel_tables + 5 < length xs" and t: "text_end e"
  obtains s4 s5 s6 ys ks zs where "kalloc s = (us, s4)" "proc_pagetable e code us s4 = Some (hd xs, s5)" "kalloc s5 = (ks, s6)"
    "xs = ys @ ks # zs" "took (us # ys @ [ks]) zs s s6" "same_kproc s s5" "same_kproc s s6"
    "owned 2 (hd xs) s6" "\<forall>va. leaf (mem s6) 2 (hd xs) va = proc_entry e code us va"
proof -
  obtain s4 where s4: "kalloc s = (us, s4)" "took [us] xs s s4" "kmem.more s4 = kmem.more s" using took_kalloc [OF k] .
  have k4: "kmem_ok s4 xs" using s4(2) by (simp add: took_def)
  from proc_pagetable_ok [OF k4 room t, of code us] obtain s5 where s5: "proc_pagetable e code us s4 = Some (hd xs, s5)"
    "same_kvm s4 s5" "new_table (hd xs) (proc_entry e code us) (kernel_tables + 5) xs s4 s5" by blast
  obtain ys ks zs where y: "xs = ys @ ks # zs" "took ys (ks # zs) s4 s5"
  proof -
    obtain ys ws where w: "xs = ys @ ws" "length ys \<le> kernel_tables + 5" "took ys ws s4 s5" using new_table_took [OF s5(3) k4] by blast
    then show thesis using that room by (cases ws) auto
  qed
  have "kmem_ok s5 (ks # zs)" using y(2) by (simp add: took_def)
  then obtain s6 where s6: "kalloc s5 = (ks, s6)" "took [ks] zs s5 s6" "kmem.more s6 = kmem.more s5" by (rule took_kalloc)
  show thesis
  proof (rule that [OF s4(1) s5(1) s6(1) y(1)])
    have "took ([us] @ ys) (ks # zs) s s5" using took_trans s4(2) y by blast
    then show "took (us # ys @ [ks]) zs s s6" using took_trans [of "[us] @ ys" "[ks]" zs s s5 s6] s6(2) by simp
    have kp: "same_kproc s s4" "same_kproc s4 s5" "same_kproc s5 s6" using same_kprocI s4(3) s5(2) s6(3) by auto
    then show "same_kproc s s5" "same_kproc s s6" by (simp_all add: same_kproc_def)
    show "owned 2 (hd xs) s6" "\<forall>va. leaf (mem s6) 2 (hd xs) va = proc_entry e code us va"
      using took_table [OF s6(2), of "hd xs"] s5(3) by (auto simp: new_table_def)
  qed
qed

lemma make_user_proc_ok:
  fixes s :: "'a kproc_scheme"
  assumes k: "kmem_ok s xs" and room: "kernel_tables + 8 < length xs" and slot: "free_slot s = Some i" and i: "i < length (proctable s)"
    and elf: "elf_ok m0 (initcode lk) len" and same: "\<forall>k < len. mem s (initcode lk + of_nat k) = m0 (initcode lk + of_nat k)"
    and clear: "\<forall>q \<in> set xs. clear_of (initcode lk) len q" and t: "text_end (etext lk)" and nm: "length nm \<le> 7" "0 \<notin> set nm"
  shows "\<exists>s' p ys zs. make_user_proc lk nm s = Some (Some i, s') \<and> xs = ys @ zs \<and> took ys zs s s' \<and>
    proctable s' = (proctable s)[i := p] \<and> fresh_user lk nm (next_pid s) m0 p s' \<and>
    kernel_pagetable s' = kernel_pagetable s \<and> satp s' = satp s \<and> next_pid s' = next_pid s + 1 \<and> cpu_proc s' = cpu_proc s"
proof -
  let ?im = "initcode lk"
  obtain code us xs1 where xs: "xs = code # us # xs1" using room by (cases xs; cases "tl xs") auto
  have "clear_of ?im len code" using clear xs by simp
  with k [unfolded xs] elf same obtain s1 m2 where
    l: "kalloc s = (code, s1)" "same_kproc s s1" "took [code] (us # xs1) s (s1\<lparr>mem := m2\<rparr>)"
      "load_elf ?im code (set_loop (mem s1) code 0 4096) = (0, Some (e_entry (ehdr_at m0 ?im)), m2, '''')"
      "\<forall>k < 4096. m2 (code + of_nat k) = image_byte m0 ?im (loads m0 ?im 0) k 0" by (rule code_page_ok)
  define s3 where "s3 = (if Some (e_entry (ehdr_at m0 ?im)) \<noteq> Some USERVA then vputs ''[warn] elf entry != USERVA\<newline>'' else (\<lambda>s. s)) (vputs '''' (s1\<lparr>mem := m2\<rparr>))"
  have s3: "mem s3 = m2" "same_kproc s s3" using l(2) by (simp_all add: s3_def same_kproc_def vputs_def)
  have t3: "took [code] (us # xs1) s s3" using l(3) by (rule took_more) (simp_all add: s3_def)
  have "kmem_ok s3 (us # xs1)" "kernel_tables + 5 < length xs1" using t3 room xs by (simp_all add: took_def)
  then obtain s4 s5 s6 ys ks zs where
    u: "kalloc s3 = (us, s4)" "proc_pagetable (etext lk) code us s4 = Some (hd xs1, s5)" "kalloc s5 = (ks, s6)" "xs1 = ys @ ks # zs"
      "took (us # ys @ [ks]) zs s3 s6" "same_kproc s3 s5" "same_kproc s3 s6"
      "owned 2 (hd xs1) s6" "\<forall>va. leaf (mem s6) 2 (hd xs1) va = proc_entry (etext lk) code us va"
    using t by (rule user_space_ok [where code = code])
  have kp: "same_kproc s s5" "same_kproc s s6" using same_kproc_trans s3(2) u(6,7) by blast+
  define p where "p = (proc_at i s5)\<lparr>ucode := code, ustack := us, pagetable := hd xs1, is_user := True, counter := 0, fn := 0,
      pid := next_pid s5, heap_top := HEAPBASE, mmap_base := 0, kstack := ks, ctx := zero_context\<lparr>ra := enter_user lk, sp := ks + PGSIZE\<rparr>,
      pname := store_pname 7 nm [0] (pname (proc_at i s5)), state := RUNNABLE\<rparr>"
  define s' where "s' = (set_proc i p s6)\<lparr>next_pid := next_pid s5 + 1\<rparr>"
  have run: "make_user_proc lk nm s = Some (Some i, s')"
    unfolding make_user_proc_def slot option.case Let_def l(1) prod.case
    using u(1-3) by (simp add: l(4) s3_def s'_def p_def Let_def split: if_splits)
  have s': "mem s' = mem s6" "refs s' = refs s6"
    by (simp add: s'_def set_proc_def, rule refs_more) (simp add: s'_def set_proc_def)
  have "took (code # us # ys @ [ks]) zs s s6" using took_trans [OF _ u(5), of "[code]" s] t3 u(4) by simp
  then have t': "took (code # us # ys @ [ks]) zs s s'" by (rule took_more) (simp_all add: s'_def set_proc_def)
  have "mem s' (code + of_nat j) = image_byte m0 ?im (loads m0 ?im 0) j 0" if "j < 4096" for j
  proof -
    have ram: "ram_page code" "code \<notin> set (us # xs1)" using kmem_ok_D(2,3) [OF k] by (auto simp: xs)
    have "in_page code (code + of_nat j)" using that by (simp add: in_page_unat unat_of_nat)
    then have "mem s6 (code + of_nat j) = mem s3 (code + of_nat j)" using took_page [OF u(5) ram(1)] ram(2) u(4) by simp
    then show ?thesis using l(5) that by (simp add: s3(1) s'(1))
  qed
  then have "fresh_user lk nm (next_pid s) m0 p s'"
    unfolding fresh_user_def using u(8,9) s' kp store_name [OF nm] by (simp add: p_def same_kproc_def zero_context_def owned_def)
  moreover have "proctable s' = (proctable s)[i := p]" "kernel_pagetable s' = kernel_pagetable s" "satp s' = satp s"
    "next_pid s' = next_pid s + 1" "cpu_proc s' = cpu_proc s"
    using kp by (simp_all add: s'_def set_proc_def same_kproc_def)
  ultimately show ?thesis using run t' xs u(4)
    by (intro exI [of _ s'] exI [of _ p] exI [of _ "code # us # ys @ [ks]"] exI [of _ zs]) simp
qed

section \<open>The phases\<close>

lemma kinit_keeps: "kmem.more (kinit e s) = kmem.more s"
proof -
  have "kmem.more (kinit_loop p s) = kmem.more s" for p
    by (induction p s rule: kinit_loop.induct) (subst kinit_loop.simps, simp add: kfree_def Let_def)
  then show ?thesis by (simp add: kinit_def)
qed

lemma early_fields:
  "kern (mach (boot_early hw env h b)) = kinit (kend env) (kern (mach b))" "files (mach (boot_early hw env h b)) = files (mach b)"
  "bus (boot_early hw env h b) = bus b" "net_queues (boot_early hw env h b) = net_queues b"
  by (simp_all add: boot_early_def Let_def print_def timer_init_def)

lemma put_kmem_fields [simp]:
  "mem (put_kmem s k) = mem s" "freelist (put_kmem s k) = freelist s" "freecnt (put_kmem s k) = freecnt s" "refcnt (put_kmem s k) = refcnt s"
  "same_kproc k (put_kmem s k)"
  by (simp_all add: put_kmem_def same_kproc_def)

lemma machine_fields [simp]:
  "kern (print bs m) = kern m" "files (print bs m) = files m" "kern (flush m) = (kern m)\<lparr>vout := []\<rparr>" "files (flush m) = (files m)\<lparr>out := []\<rparr>"
  by (simp_all add: print_def flush_def)

lemma disk_start_ok:
  assumes k: "kmem_ok (kern (mach b)) ([x, y, z] @ xs)" and io: "bus b = []" "usable (virtio_io env)"
  defines "c \<equiv> disk_start env b"
  shows "took [x, y, z] xs (kern (mach b)) (kern (mach c))" "same_kproc (kern (mach b)) (kern (mach c))" "net_queues c = net_queues b"
    "\<exists>v. files (mach c) = (files (mach b))\<lparr>disk := v\<rparr> \<and> vdisk_ok v \<and> device v = device (disk (files (mach b)))"
proof -
  let ?k = "kern (mach b)"
  let ?s = "\<lparr>mem = mem ?k, freelist = freelist ?k, freecnt = freecnt ?k, refcnt = refcnt ?k, mwrites = bus b, mout = [],
               desc_pa = 0, avail_pa = 0, used_pa = 0\<rparr>"
  obtain v s' where r: "virtio_disk_init (virtio_io env) (disk (files (mach b))) ?s = (v, s')"
    by (cases "virtio_disk_init (virtio_io env) (disk (files (mach b))) ?s")
  have ks: "kmem_ok ?s (x # y # z # xs)" using k by (simp add: kmem_ok_def)
  from disk_init_run [OF ks, of "virtio_io env" "disk (files (mach b))"] io r
  have d: "vdisk_ok v" "device v = device (disk (files (mach b)))" "kmem_ok s' xs" "fresh_zero [x, y, z] ?s s'" by simp_all
  have c: "kern (mach c) = put_kmem s' ?k" "files (mach c) = (files (mach b))\<lparr>disk := v\<rparr>"
    using r by (simp_all add: c_def disk_start_def Let_def)
  have "took [x, y, z] xs ?s s'" using d(4) ks d(3) by (simp add: fresh_zero_took)
  then show "took [x, y, z] xs ?k (kern (mach c))" by (rule took_more) (simp_all add: c)
  show "same_kproc ?k (kern (mach c))" by (simp add: c)
  show "net_queues c = net_queues b" by (simp add: c_def disk_start_def Let_def split_beta)
  show "\<exists>v. files (mach c) = (files (mach b))\<lparr>disk := v\<rparr> \<and> vdisk_ok v \<and> device v = device (disk (files (mach b)))" using c d by blast
qed

lemma boot_net_ok:
  fixes hw :: "('d, 'n, 'u, 'p) hw" and env :: boot_env
  assumes k: "kmem_ok (kern (mach b)) (ps @ xs)" and p: "length ps = 15" "length (rxbuf (net_queues b)) = 8"
  defines "c \<equiv> boot_net hw env b"
  shows "\<exists>ys zs. ps @ xs = ys @ zs \<and> length ys \<le> 15 \<and> took ys zs (kern (mach b)) (kern (mach c))" "same_kproc (kern (mach b)) (kern (mach c))"
    "files (mach c) = (files (mach b))\<lparr>out := []\<rparr>"
proof -
  let ?k = "kern (mach b)"
  let ?s = "(net_queues b)\<lparr>mem := mem ?k, freelist := freelist ?k, freecnt := freecnt ?k, refcnt := refcnt ?k, mwrites := bus b\<rparr>"
  define s' where "s' = snd (snd (net_init (virtio_io env) (virtio_cfg env) (nets (mach b)) ?s))"
  have ks: "kmem_ok ?s (ps @ xs)" using k by (simp add: kmem_ok_def)
  obtain ys zs where y: "ps @ xs = ys @ zs" "length ys \<le> 15" "took ys zs ?s s'"
    using net_init_took [OF ks p(1), of "virtio_io env" "virtio_cfg env" "nets (mach b)"] p(2) by (auto simp: s'_def)
  have c: "kern (mach c) = (put_kmem s' ?k)\<lparr>vout := []\<rparr>" "files (mach c) = (files (mach b))\<lparr>out := []\<rparr>"
    by (auto simp: c_def boot_net_def net_start_def s'_def Let_def split_beta)
  have "took ys zs ?k (kern (mach c))" using y(3) by (rule took_more) (simp_all add: c)
  then show "\<exists>ys zs. ps @ xs = ys @ zs \<and> length ys \<le> 15 \<and> took ys zs ?k (kern (mach c))" using y by blast
  show "same_kproc ?k (kern (mach c))" by (simp add: c same_kproc_def put_kmem_def)
  show "files (mach c) = (files (mach b))\<lparr>out := []\<rparr>" by (rule c)
qed

lemma boot_shell_ok:
  fixes b :: "('d, 'n, 'u, 'p) boot" and hw :: "('d, 'n, 'u, 'p) hw"
  defines "k \<equiv> kern (mach b)" and "lk \<equiv> syms hw"
  assumes k: "kmem_ok k xs" and room: "kernel_tables + 8 < length xs" and n: "length (proctable k) = NPROC"
    and elf: "elf_ok m0 (initcode lk) len" "\<forall>j < len. mem k (initcode lk + of_nat j) = m0 (initcode lk + of_nat j)"
      "\<forall>q \<in> set xs. clear_of (initcode lk) len q" and t: "text_end (etext lk)"
  shows "\<exists>c p ys zs. boot_shell hw env h b = Some c \<and> xs = ys @ zs \<and> took ys zs k (kern (mach c)) \<and>
    proctable (kern (mach c)) = (map (\<lambda>p. p\<lparr>state := UNUSED\<rparr>) (proctable k))[0 := p] \<and>
    fresh_user lk (bytes_of ''sh'') (next_pid k) m0 p (kern (mach c)) \<and>
    kernel_pagetable (kern (mach c)) = kernel_pagetable k \<and> satp (kern (mach c)) = satp k \<and>
    files (mach c) = (files (mach b))\<lparr>out := []\<rparr>"
proof -
  let ?k = "procinit k" and ?nm = "bytes_of ''sh''"
  have pk: "mem ?k = mem k" "freelist ?k = freelist k" "freecnt ?k = freecnt k" "refcnt ?k = refcnt k" "next_pid ?k = next_pid k"
    "kernel_pagetable ?k = kernel_pagetable k" "satp ?k = satp k" by (simp_all add: procinit_def)
  have kk: "kmem_ok ?k xs" using k pk by (simp add: kmem_ok_def)
  have "free_slot ?k = Some 0" using n by (simp add: free_slot_def procinit_def proc_at_def NPROC_def upt_rec)
  moreover have "0 < length (proctable ?k)" using n by (simp add: procinit_def NPROC_def)
  moreover have "\<forall>j < len. mem ?k (initcode lk + of_nat j) = m0 (initcode lk + of_nat j)" using elf(2) pk(1) by simp
  moreover have "length ?nm \<le> 7" "0 \<notin> set ?nm" by (simp_all add: bytes_of_def)
  ultimately obtain k' p ys zs where m: "make_user_proc lk ?nm ?k = Some (Some 0, k')" "xs = ys @ zs" "took ys zs ?k k'"
    "proctable k' = (proctable ?k)[0 := p]" "fresh_user lk ?nm (next_pid ?k) m0 p k'" "kernel_pagetable k' = kernel_pagetable ?k" "satp k' = satp ?k"
    using make_user_proc_ok [OF kk room _ _ elf(1) _ elf(3) t, of 0 ?nm] by blast
  obtain c where c: "boot_shell hw env h b = Some c" "kern (mach c) = k'\<lparr>vout := []\<rparr>" "files (mach c) = (files (mach b))\<lparr>out := []\<rparr>"
    using m(1) by (simp add: boot_shell_def Let_def k_def lk_def)
  have "took ys zs k (k'\<lparr>vout := []\<rparr>)" using m(3) by (rule took_more) (simp_all add: pk)
  moreover have "fresh_user lk ?nm (next_pid k) m0 p (k'\<lparr>vout := []\<rparr>)"
    using m(5) pk(5) refs_more [of "k'\<lparr>vout := []\<rparr>" k'] by (simp add: fresh_user_def owned_def)
  ultimately show ?thesis using c m(2,4,6,7) pk by (intro exI [of _ c] exI [of _ p] exI [of _ ys] exI [of _ zs]) (simp add: procinit_def)
qed

lemma fs_ok_out [simp]: "fs_ok content cap (s\<lparr>out := x\<rparr>) = fs_ok content cap s" "fs_files content (s\<lparr>out := x\<rparr>) = fs_files content s"
  by (simp_all add: fs_ok_def fs_files_def mem_ok_def live_def sb_of_def used_exact_def)

section \<open>From power-on to the first process\<close>

text \<open>
  The kernel's variables as the loader leaves them, cleared, and what the linker guarantees: the image
  is followed by at least 310 pages of RAM and the embedded user program, \<open>len\<close> bytes of it, is part of the image.
\<close>

definition cold :: "('d, 'n, 'u, 'p) boot \<Rightarrow> bool" where
  "cold b \<longleftrightarrow> boot_taken b = 0 \<and> hart_starts b = [] \<and> bus b = [] \<and> length (rxbuf (net_queues b)) = 8 \<and>
     freelist (kern (mach b)) = 0 \<and> freecnt (kern (mach b)) = 0 \<and> refcnt (kern (mach b)) = (\<lambda>_. 0) \<and>
     length (proctable (kern (mach b))) = NPROC \<and> length (log_blk (files (mach b))) = LOGN"

definition linked :: "ksyms \<Rightarrow> boot_env \<Rightarrow> nat \<Rightarrow> memory \<Rightarrow> bool" where
  "linked lk env len m \<longleftrightarrow> RAMBASE \<le> kend env \<and> unat (kend env) + 4096 * 310 \<le> 0x88000000 \<and> text_end (etext lk) \<and>
     elf_ok m (initcode lk) len \<and> (\<forall>k < len. initcode lk + of_nat k < kend env)"

lemma below_pages:
  assumes "a < e" "ram_page q" "e \<le> q"
  shows "page_no a \<noteq> page_no q"
proof
  assume "page_no a = page_no q"
  then have "in_page q a" using assms(2) by (simp add: in_page_no)
  moreover have "a < q" using assms(1,3) by simp
  then have "unat (a - q) = 2 ^ 64 + unat a - unat q" by (simp add: unat_sub_if' word_less_nat_alt)
  moreover have "unat q < 0x88000000" using assms(2) by (simp add: ram_page_def PHYSTOP_def word_less_nat_alt)
  ultimately show False by (simp add: in_page_unat)
qed

definition kernel_up :: "u64 \<Rightarrow> 'a kvm_scheme \<Rightarrow> bool" where
  "kernel_up et k \<longleftrightarrow> kmem_good k \<and> owned 2 (kernel_pagetable k) k \<and> (\<forall>va. leaf (mem k) 2 (kernel_pagetable k) va = kernel_entry et va) \<and>
     satp k = MAKE_SATP (kernel_pagetable k)"

lemma kernel_up_took:
  "kernel_up et k \<Longrightarrow> took ys zs k k' \<Longrightarrow> kernel_pagetable k' = kernel_pagetable k \<Longrightarrow> satp k' = satp k \<Longrightarrow> kernel_up et k'"
  using took_table [of ys zs k k' "kernel_pagetable k"] by (auto simp: kernel_up_def kmem_good_def took_def)

text \<open>Memory and paging: the kernel with its page table, and the pages left.\<close>

lemma paging_ok:
  fixes k :: kproc
  assumes l: "linked lk env len (mem k)" and z: "freelist k = 0" "freecnt k = 0" "refcnt k = (\<lambda>_. 0)"
  obtains k' xs where "kvminit (etext lk) (kinit (kend env) k) = Some k'" "kmem_ok k' xs" "172 \<le> length xs"
    "kernel_up (etext lk) (kvminithart k')" "proctable k' = proctable k" "next_pid k' = next_pid k"
    "\<forall>j < len. mem k' (initcode lk + of_nat j) = mem k (initcode lk + of_nat j)" "\<forall>q \<in> set xs. clear_of (initcode lk) len q"
proof -
  let ?k = "kinit (kend env) k"
  have kend: "RAMBASE \<le> kend env" "kend env \<le> PHYSTOP" and t: "text_end (etext lk)" and img: "\<forall>j < len. initcode lk + of_nat j < kend env"
    using l by (auto simp: linked_def PHYSTOP_def word_le_nat_alt)
  obtain xs where xs: "kmem_ok ?k xs" "set xs = {q. ram_page q \<and> kend env \<le> q}" using kinit_ok(1) [OF kend z] by blast
  have "310 \<le> Finite_Set.card (set xs)" unfolding xs(2) by (rule pages_above) (use l in \<open>auto simp: linked_def\<close>)
  then have len: "310 \<le> length xs" using card_length [of xs] by linarith
  then have room: "kernel_tables + 1 < length xs" by (simp add: kernel_tables_def)
  from kvminit_ok [OF xs(1) room t] obtain k' where k': "kvminit (etext lk) ?k = Some k'" "kernel_pagetable k' = hd xs" "kvm.more k' = kvm.more ?k"
    "new_table (hd xs) (kernel_entry (etext lk)) (kernel_tables + 1) xs ?k k'" by blast
  obtain ys zs where y: "xs = ys @ zs" "length ys \<le> kernel_tables + 1" "took ys zs ?k k'" using new_table_took [OF k'(4) xs(1)] by blast
  show thesis
  proof (rule that [OF k'(1)])
    show kz: "kmem_ok k' zs" using y(3) by (simp add: took_def)
    show "172 \<le> length zs" using y(1,2) len by (simp add: kernel_tables_def)
    have "refs (kvminithart k') = refs k'" by (rule refs_more) (simp add: kvminithart_def)
    moreover have "kmem_ok (kvminithart k') zs" using kz by (simp add: kmem_ok_def kvminithart_def)
    ultimately show "kernel_up (etext lk) (kvminithart k')"
      using k'(2,4) by (auto simp: kernel_up_def kmem_good_def new_table_def owned_def kvminithart_def)
    have "kvm.more k' = kvm.more k" using k'(3) kinit_keeps [of "kend env" k] by (cases "kinit (kend env) k"; cases k) simp
    then show "proctable k' = proctable k" "next_pid k' = next_pid k" by (cases k'; cases k; simp)+
    have far: "page_no (initcode lk + of_nat j) \<noteq> page_no q" if "j < len" "q \<in> set xs" for j q
      using that img xs(2) by (intro below_pages [of _ "kend env"]) auto
    show "\<forall>j < len. mem k' (initcode lk + of_nat j) = mem k (initcode lk + of_nat j)"
    proof (intro allI impI)
      fix j assume j: "j < len"
      have "mem k' (initcode lk + of_nat j) = mem ?k (initcode lk + of_nat j)" using y(1,3) far [OF j] by (auto simp: took_def)
      also have "\<dots> = mem k (initcode lk + of_nat j)" by (rule kinit_ok(2) [OF kend z]) (use far [OF j] xs(2) in auto)
      finally show "mem k' (initcode lk + of_nat j) = mem k (initcode lk + of_nat j)" .
    qed
    show "\<forall>q \<in> set zs. clear_of (initcode lk) len q"
      using far y(1) by (auto simp: clear_of_def in_page_no kmem_ok_D(3) [OF kz])
  qed
qed

text \<open>Disk, file system and network.\<close>

lemma drivers_ok:
  fixes b :: "('d, 'n, 'u, 'p) boot" and hw :: "('d, 'n, 'u, 'p) hw" and env :: boot_env
  defines "d \<equiv> disk_start env b"
  assumes k: "kmem_ok (kern (mach b)) xs" "18 \<le> length xs" and io: "bus b = []" "usable (virtio_io env)"
    and q: "length (rxbuf (net_queues b)) = 8" "length (log_blk (files (mach b))) = LOGN"
    and dev: "blk_device (blk hw) content cap False" and disk: "mountable cap (content (device (disk (files (mach b)))))"
  obtains fl n ys zs where "fs_init (blk hw) (files (mach d)) = Inr fl" "n = boot_net hw env (d\<lparr>mach := flush ((mach d)\<lparr>files := fl\<rparr>)\<rparr>)"
    "xs = ys @ zs" "length ys \<le> 18" "took ys zs (kern (mach b)) (kern (mach n))" "same_kproc (kern (mach b)) (kern (mach n))"
    "fs_ok content cap (files (mach n))" "fs_files content (files (mach n)) = disk_files (recovered (content (device (disk (files (mach b))))))"
proof -
  obtain x y w xs1 where xs: "xs = [x, y, w] @ xs1" using k(2) by (auto simp: numeral_eq_Suc Suc_le_length_iff)
  from disk_start_ok [OF k(1) [unfolded xs] io, folded d_def] obtain v where
    d: "took [x, y, w] xs1 (kern (mach b)) (kern (mach d))" "same_kproc (kern (mach b)) (kern (mach d))" "net_queues d = net_queues b"
      "files (mach d) = (files (mach b))\<lparr>disk := v\<rparr>" "vdisk_ok v" "device v = device (disk (files (mach b)))" by auto
  obtain fl where fl: "fs_init (blk hw) (files (mach d)) = Inr fl" "fs_ok content cap fl"
    "fs_files content fl = disk_files (recovered (content (device (disk (files (mach b))))))"
    using blk_device.fs_init_ok [OF dev, where s = "files (mach d)" and c = "content (device (disk (files (mach b))))"] d(4-6) q(2) disk
    by (auto simp: io_post_def split: sum.splits)
  define f where "f = d\<lparr>mach := flush ((mach d)\<lparr>files := fl\<rparr>)\<rparr>"
  have f: "kern (mach f) = (kern (mach d))\<lparr>vout := []\<rparr>" "files (mach f) = fl\<lparr>out := []\<rparr>" "net_queues f = net_queues b"
    using d(3) by (simp_all add: f_def)
  have tf: "took [x, y, w] xs1 (kern (mach b)) (kern (mach f))" using d(1) by (rule took_more) (simp_all add: f)
  have "15 \<le> length xs1" using k(2) xs by simp
  then obtain ps xs2 where ps: "xs1 = ps @ xs2" "length ps = 15" using append_take_drop_id [of 15 xs1] by (metis length_take min.absorb2)
  define n where "n = boot_net hw env f"
  have "kmem_ok (kern (mach f)) (ps @ xs2)" using tf ps(1) by (simp add: took_def)
  from boot_net_ok [OF this ps(2), of hw env, folded n_def] f(3) q(1) obtain us ws where
    n: "xs1 = us @ ws" "length us \<le> 15" "took us ws (kern (mach f)) (kern (mach n))" "same_kproc (kern (mach f)) (kern (mach n))"
      "files (mach n) = (files (mach f))\<lparr>out := []\<rparr>" unfolding ps(1) by auto
  show thesis
  proof (rule that [OF fl(1) n_def [unfolded f_def]])
    show "xs = ([x, y, w] @ us) @ ws" "length ([x, y, w] @ us) \<le> 18" using xs n(1,2) by simp_all
    show "took ([x, y, w] @ us) ws (kern (mach b)) (kern (mach n))" using took_trans tf n(1,3) by blast
    show "same_kproc (kern (mach b)) (kern (mach n))" using same_kproc_trans d(2) n(4) by (simp add: f(1) same_kproc_def)
    show "fs_ok content cap (files (mach n))" using fl(2) by (simp add: n(5) f(2))
    show "fs_files content (files (mach n)) = disk_files (recovered (content (device (disk (files (mach b))))))" using fl(3) by (simp add: n(5) f(2))
  qed
qed

lemma clear_pages:
  "\<forall>q \<in> set ys. clear_of i len q \<Longrightarrow> \<forall>q \<in> set ys. ram_page q \<Longrightarrow> j < len \<Longrightarrow> page_no (i + of_nat j) \<notin> page_no ` set ys"
  by (auto simp: clear_of_def in_page_no)

lemma boot_hart_ok:
  fixes b :: "('d, 'n, 'u, 'p) boot" and hw :: "('d, 'n, 'u, 'p) hw"
  defines "k \<equiv> kern (mach b)" and "lk \<equiv> syms hw"
  assumes c: "cold (b\<lparr>boot_taken := 0\<rparr>)" and l: "linked lk env len (mem k)" and io: "usable (virtio_io env)"
    and dev: "blk_device (blk hw) content cap False" and disk: "mountable cap (content (device (disk (files (mach b)))))"
  shows "\<exists>d p. boot_hart hw env h b = ret d \<and> kernel_up (etext lk) (kern (mach d)) \<and>
    proctable (kern (mach d)) = (map (\<lambda>p. p\<lparr>state := UNUSED\<rparr>) (proctable k))[0 := p] \<and>
    fresh_user lk (bytes_of ''sh'') (next_pid k) (mem k) p (kern (mach d)) \<and>
    fs_ok content cap (files (mach d)) \<and> fs_files content (files (mach d)) = disk_files (recovered (content (device (disk (files (mach b))))))"
proof -
  have cold: "bus b = []" "length (rxbuf (net_queues b)) = 8" "length (proctable k) = NPROC" "length (log_blk (files (mach b))) = LOGN"
    and z: "freelist k = 0" "freecnt k = 0" "refcnt k = (\<lambda>_. 0)" using c by (simp_all add: cold_def k_def)
  obtain k1 xs where p: "kvminit (etext lk) (kinit (kend env) k) = Some k1" "kmem_ok k1 xs" "172 \<le> length xs"
    "kernel_up (etext lk) (kvminithart k1)" "proctable k1 = proctable k" "next_pid k1 = next_pid k"
    "\<forall>j < len. mem k1 (initcode lk + of_nat j) = mem k (initcode lk + of_nat j)" "\<forall>q \<in> set xs. clear_of (initcode lk) len q"
    using paging_ok [OF l z] by metis
  define e where "e = boot_early hw env h b"
  have ke: "kern (mach e) = kinit (kend env) k" by (simp add: e_def early_fields k_def)
  define e1 where "e1 = e\<lparr>mach := say ''[ok] paging enabled (Sv39 kernel page table)\<newline>'' ((mach e)\<lparr>kern := kvminithart k1\<rparr>)\<rparr>"
  have e1: "kern (mach e1) = kvminithart k1" "files (mach e1) = files (mach b)" "bus e1 = []" "net_queues e1 = net_queues b"
    using cold(1) by (simp_all add: e1_def e_def early_fields)
  define d where "d = disk_start env e1"
  have "kmem_ok (kern (mach e1)) xs" "18 \<le> length xs" using p(2,3) by (simp_all add: e1(1) kmem_ok_def kvminithart_def)
  moreover have "length (rxbuf (net_queues e1)) = 8" "length (log_blk (files (mach e1))) = LOGN" "mountable cap (content (device (disk (files (mach e1)))))"
    using e1 cold disk by simp_all
  ultimately obtain fl n ys zs where
    f: "fs_init (blk hw) (files (mach d)) = Inr fl" "n = boot_net hw env (d\<lparr>mach := flush ((mach d)\<lparr>files := fl\<rparr>)\<rparr>)"
    "xs = ys @ zs" "length ys \<le> 18" "took ys zs (kvminithart k1) (kern (mach n))" "same_kproc (kvminithart k1) (kern (mach n))"
    "fs_ok content cap (files (mach n))" "fs_files content (files (mach n)) = disk_files (recovered (content (device (disk (files (mach b))))))"
    using drivers_ok [OF _ _ e1(3) io _ _ dev, of xs, folded d_def] unfolding e1(1,2) by blast
  have len: "kernel_tables + 8 < length zs" using p(3) f(3,4) by (simp add: kernel_tables_def)
  have kn: "kmem_ok (kern (mach n)) zs" "length (proctable (kern (mach n))) = NPROC" "next_pid (kern (mach n)) = next_pid k" "proctable (kern (mach n)) = proctable k"
    using f(5,6) p(5,6) cold(3) by (simp_all add: took_def same_kproc_def kvminithart_def)
  have still: "\<forall>j < len. mem (kern (mach n)) (initcode lk + of_nat j) = mem k (initcode lk + of_nat j)"
  proof (intro allI impI)
    fix j assume j: "j < len"
    have "page_no (initcode lk + of_nat j) \<notin> page_no ` set ys"
      using p(8) kmem_ok_D(3) [OF p(2)] f(3) j by (intro clear_pages) auto
    then show "mem (kern (mach n)) (initcode lk + of_nat j) = mem k (initcode lk + of_nat j)"
      using f(5) p(7) j by (simp add: took_def kvminithart_def)
  qed
  have clear: "\<forall>q \<in> set zs. clear_of (initcode lk) len q" using p(8) f(3) by auto
  have t: "text_end (etext lk)" "elf_ok (mem k) (initcode lk) len" using l by (simp_all add: linked_def)
  obtain g q us ws where g: "boot_shell hw env h n = Some g" "took us ws (kern (mach n)) (kern (mach g))"
    "proctable (kern (mach g)) = (map (\<lambda>p. p\<lparr>state := UNUSED\<rparr>) (proctable k))[0 := q]"
    "fresh_user lk (bytes_of ''sh'') (next_pid k) (mem k) q (kern (mach g))" "kernel_pagetable (kern (mach g)) = kernel_pagetable (kern (mach n))"
    "satp (kern (mach g)) = satp (kern (mach n))" "files (mach g) = (files (mach n))\<lparr>out := []\<rparr>"
    using boot_shell_ok [where b = n and hw = hw and env = env and h = h, folded lk_def, OF kn(1) len kn(2) t(2) still clear t(1)] kn(3,4) by auto
  have "boot_hart hw env h b = ret g"
    using p(1) f(1) g(1) ke by (simp add: boot_hart_def Let_def e_def [symmetric] lk_def [symmetric] e1_def [symmetric] d_def [symmetric] f(2) [symmetric])
  moreover have "kernel_up (etext lk) (kern (mach n))" using kernel_up_took [OF p(4) f(5)] f(6) by (simp add: same_kproc_def)
  then have "kernel_up (etext lk) (kern (mach g))" using kernel_up_took [OF _ g(2)] g(5,6) by blast
  ultimately show ?thesis using g(3,4,7) f(7,8) by (intro exI [of _ g] exI [of _ q]) simp
qed

text \<open>
  Claim C19. Power-on to the first process. From the state the loader leaves, with a usable disk that holds a
  mountable file system and whether or not there is a network card, the first hart to enter \<^verbatim>\<open>kmain\<close> comes
  through to \<^verbatim>\<open>scheduler\<close>: paging is on with the kernel's table, which still maps exactly the devices, the text and
  the RAM; the file system is mounted with the files of the disk, a committed journal replayed; and the process
  table holds one process, \<^verbatim>\<open>sh\<close>, runnable, whose code page is the program embedded in the kernel, zeros
  elsewhere, and whose table opens only its code and its stack to user mode. The other harts have been
  started once each, and when they enter, in any order, they only join: files, memory and
  processes stay as they are and every hart has its trap vector and timer.
\<close>
theorem boot_starts_shell:
  fixes b :: "('d, 'n, 'u, 'p) boot" and hw :: "('d, 'n, 'u, 'p) hw"
  assumes "cold b" "linked (syms hw) env len (mem (kern (mach b)))" "usable (virtio_io env)" "h < 3"
    and "blk_device (blk hw) content cap False" "mountable cap (content (device (disk (files (mach b)))))"
  shows "\<exists>c d p. kmain hw env h b = ret c \<and> kernel_up (etext (syms hw)) (kern (mach c)) \<and>
    proctable (kern (mach c)) = (map (\<lambda>p. p\<lparr>state := UNUSED\<rparr>) (proctable (kern (mach b))))[0 := p] \<and>
    fresh_user (syms hw) (bytes_of ''sh'') (next_pid (kern (mach b))) (mem (kern (mach b))) p (kern (mach c)) \<and>
    fs_ok content cap (files (mach c)) \<and> fs_files content (files (mach c)) = disk_files (recovered (content (device (disk (files (mach b)))))) \<and>
    enter hw env (h # hs) b = ret d \<and> joined c d \<and> (\<forall>h' \<in> set (h # hs). set_up env h' d) \<and>
    hart_starts d = map (\<lambda>h. (of_nat h, entry_pc env)) (filter (\<lambda>h'. h' \<noteq> h) [0..<3])"
proof -
  let ?b = "b\<lparr>boot_taken := 1\<rparr>"
  have "cold (?b\<lparr>boot_taken := 0\<rparr>)" using assms(1) by (simp add: cold_def)
  from boot_hart_ok [where b = ?b and hw = hw and h = h, simplified, OF this [simplified] assms(2,3,5,6)]
  obtain c p where r: "boot_hart hw env h ?b = ret c" "kernel_up (etext (syms hw)) (kern (mach c))"
    "proctable (kern (mach c)) = (map (\<lambda>p. p\<lparr>state := UNUSED\<rparr>) (proctable (kern (mach b))))[0 := p]"
    "fresh_user (syms hw) (bytes_of ''sh'') (next_pid (kern (mach b))) (mem (kern (mach b))) p (kern (mach c))"
    "fs_ok content cap (files (mach c))" "fs_files content (files (mach c)) = disk_files (recovered (content (device (disk (files (mach b))))))"
    by auto
  have zero: "boot_taken b = 0" "hart_starts b = []" using assms(1) by (simp_all add: cold_def)
  have "kmain hw env h b = ret c" using r(1) zero(1) by (simp add: kmain_def)
  then show ?thesis using r boot_once [OF zero assms(4), of hw env c hs] by blast
qed

text \<open>A machine at power-on: a small program at address 0, an empty file system on the disk, no network card.\<close>

definition bare_hw :: "(image, unit, unit, unit) hw" where
  "bare_hw = \<lparr>syms = \<lparr>etext = 0x80208000, thread_start = 0x80201000, enter_user = 0x80202000, forkret = 0x80203000, initcode = 0, elfbuf = 0x80209000\<rparr>,
     blk = ram_dev, card = \<lparr>ntx = (\<lambda>_ d. (d, 0)), nrx = (\<lambda>d. (d, None)), nback = (\<lambda>_ _ d. d)\<rparr>, uart_rd = (\<lambda>_ u. (0, u)), uart_wr = (\<lambda>_ _ u. u),
     plic_rd = (\<lambda>_ p. (0, p)), plic_wr = (\<lambda>_ _ p. p)\<rparr>"

definition bare_env :: boot_env where
  "bare_env = \<lparr>virtio_io = ready_dev, virtio_cfg = (\<lambda>_ _. 0), kernelvec = 0x80204000, kend = 0x80234567, entry_pc = 0x80200000, clock = (\<lambda>_. 0)\<rparr>"

definition zero_proc :: proc where
  "zero_proc = \<lparr>state = UNUSED, ctx = zero_context, kstack = 0, fn = 0, counter = 0, pname = replicate 8 0, pagetable = 0, is_user = False, pid = 0,
     ucode = 0, ustack = 0, chan = No_chan, parent = None, tf_va = 0, heap_top = 0, mmap_base = 0, mmap_start = 0, mmap_size = 0\<rparr>"

definition bare_machine :: "(image, unit, unit, unit) machine" where
  "bare_machine = \<lparr>kern = \<lparr>mem = mem_of small_elf, freelist = 0, freecnt = 0, refcnt = (\<lambda>_. 0), kernel_pagetable = 0, satp = 0, vout = [],
       proctable = replicate NPROC zero_proc, cpu_proc = (\<lambda>_. None), next_pid = 1\<rparr>,
     files = boot_fs blank_image, nets = net_off, cons = \<lparr>inbuf = replicate 128 0, in_w = 0, in_r = 0, wakes = 0, uart = ()\<rparr>, plics = (),
     ticks = 0, stimecmp = (\<lambda>_. 0), tty = []\<rparr>"

definition power_on :: "(image, unit, unit, unit) boot" where
  "power_on = \<lparr>mach = bare_machine, csrs = (\<lambda>_. \<lparr>stvec = 0, sie = 0, sstatus_r = 0\<rparr>), bus = [], disk_rings = (0, 0, 0), net_queues = net_boot,
     boot_taken = 0, hart_starts = []\<rparr>"

lemma power_on_ok: "cold power_on" "linked (syms bare_hw) bare_env 179 (mem (kern (mach power_on)))" "device (disk (files (mach power_on))) = blank_image"
proof -
  show "cold power_on" "device (disk (files (mach power_on))) = blank_image"
    by (simp_all add: cold_def power_on_def bare_machine_def net_boot_def Let_def boot_fs_def)
  have "of_nat k < (0x80234567 :: u64)" if "k < 179" for k
  proof -
    have "unat (of_nat k :: u64) = k" using that by (simp add: unat_of_nat)
    then show ?thesis using that by (simp add: word_less_nat_alt)
  qed
  then show "linked (syms bare_hw) bare_env 179 (mem (kern (mach power_on)))"
    using small_elf_ok by (simp add: linked_def power_on_def bare_machine_def bare_hw_def bare_env_def text_end_def places RAMBASE_def)
qed

theorem boot_starts_shell_witness:
  "\<exists>c d. kmain bare_hw bare_env 0 power_on = ret c \<and> enter bare_hw bare_env [0, 2, 1] power_on = ret d \<and> hart_starts d = [(1, 0x80200000), (2, 0x80200000)] \<and>
     map state (proctable (kern (mach c))) = RUNNABLE # replicate 7 UNUSED \<and> mem (kern (mach c)) (ucode (proctable (kern (mach c)) ! 0)) = 0x13 \<and>
     fs_files ram_content (files (mach c)) = Map.empty"
proof -
  have m: "mountable 256 (ram_content (device (disk (files (mach power_on)))))" using blank_mountable(1) by (simp add: power_on_ok(3))
  have us: "usable (virtio_io bare_env)" "(0 :: nat) < 3" by (simp_all add: bare_env_def ready_usable)
  have dev: "blk_device (blk bare_hw) ram_content 256 False" using ram.blk_device_axioms by (simp add: bare_hw_def)
  from boot_starts_shell [where content = ram_content, OF power_on_ok(1,2) us dev m, of "[2, 1]"] obtain c d p where b: "kmain bare_hw bare_env 0 power_on = ret c"
    "proctable (kern (mach c)) = (map (\<lambda>p. p\<lparr>state := UNUSED\<rparr>) (proctable (kern (mach power_on))))[0 := p]"
    "fresh_user (syms bare_hw) (bytes_of ''sh'') (next_pid (kern (mach power_on))) (mem (kern (mach power_on))) p (kern (mach c))"
    "fs_files ram_content (files (mach c)) = disk_files (recovered (ram_content (device (disk (files (mach power_on))))))"
    "enter bare_hw bare_env (0 # [2, 1]) power_on = ret d"
    "hart_starts d = map (\<lambda>h. (of_nat h, entry_pc bare_env)) (filter (\<lambda>h'. h' \<noteq> 0) [0..<3])"
    by blast
  have tbl: "proctable (kern (mach power_on)) = replicate 8 zero_proc" by (simp add: power_on_def bare_machine_def NPROC_def)
  have "\<forall>k < 4096. mem (kern (mach c)) (ucode p + of_nat k) = image_byte (mem_of small_elf) 0 (loads (mem_of small_elf) 0 0) k 0"
    using b(3) by (simp add: fresh_user_def power_on_def bare_machine_def bare_hw_def)
  then have "mem (kern (mach c)) (ucode p + of_nat 0) = image_byte (mem_of small_elf) 0 (loads (mem_of small_elf) 0 0) 0 0"
    by (rule allE [where x = 0]) (simp del: of_nat_0)
  also have "\<dots> = 0x13" using small_elf_bytes by (simp add: small_elf_loads image_byte_def covers_def seg_off_def dec_enc_hdr USERVA_def mem_of_def)
  finally have code: "mem (kern (mach c)) (ucode p) = 0x13" by simp
  have "state p = RUNNABLE" using b(3) by (simp add: fresh_user_def)
  then have "map state (proctable (kern (mach c))) = RUNNABLE # replicate 7 UNUSED" "proctable (kern (mach c)) ! 0 = p"
    unfolding b(2) tbl by (simp_all add: numeral_eq_Suc)
  then show ?thesis using b(1,5) code b(4) [unfolded power_on_ok(3) blank_mountable(2)] b(6)
    by (intro exI [of _ c] exI [of _ d]) (simp add: bare_env_def upt_rec)
qed

end
