(* ===== verification/NetThms.thy ===== *)
theory NetThms
  imports Net
begin

text \<open>
  What the packets of \<^verbatim>\<open>net.c\<close> carry and what the receiving side makes of them: header fields,
  checksums, the ARP answers, names and answers of DNS, and a TCP segment sent through one
  card and received through another.
\<close>

section \<open>Reading back what was written\<close>

named_theorems buf_simps \<open>values of buffers after stores\<close>

lemma put16_apply [buf_simps]:
  "put16 f p v i = (if i = p + 1 then ucast v else if i = p then ucast (drop_bit 8 v) else f i)"
  by (simp add: put16_def)

lemma put32_apply [buf_simps]:
  "put32 f p v i = (if i = p + 3 then ucast v else if i = p + 2 then ucast (drop_bit 8 v)
     else if i = p + 1 then ucast (drop_bit 16 v) else if i = p then ucast (drop_bit 24 v) else f i)"
  by (simp add: put32_def)

lemma bcopy_apply [buf_simps]: "bcopy f off src soff n i = (if off \<le> i \<and> i < off + n then src (soff + (i - off)) else f i)"
  by (simp add: bcopy_def)

lemma bzero_apply [buf_simps]: "bzero f off n i = (if off \<le> i \<and> i < off + n then 0 else f i)"
  by (simp add: bzero_def)

lemma get16_put16_other: "q + 1 < p \<or> p + 1 < q \<Longrightarrow> get16 (put16 f p v) q = get16 f q"
  by (auto simp: get16_def put16_def)

lemma get16_put32_other: "q + 1 < p \<or> p + 3 < q \<Longrightarrow> get16 (put32 f p v) q = get16 f q"
  by (auto simp: get16_def put32_def)

lemma get16_upd_other: "q \<noteq> p \<Longrightarrow> q + 1 \<noteq> p \<Longrightarrow> get16 (f(p := v)) q = get16 f q"
  by (auto simp: get16_def)

lemma get16_bcopy_other: "q + 1 < off \<or> off + n \<le> q \<Longrightarrow> get16 (bcopy f off src soff n) q = get16 f q"
  by (auto simp: get16_def bcopy_def)

lemma get32_put16_other: "q + 3 < p \<or> p + 1 < q \<Longrightarrow> get32 (put16 f p v) q = get32 f q"
  by (auto simp: get32_def put16_def)

lemma get32_put32_other: "q + 3 < p \<or> p + 3 < q \<Longrightarrow> get32 (put32 f p v) q = get32 f q"
  by (auto simp: get32_def put32_def)

lemma get32_upd_other: "p < q \<or> q + 3 < p \<Longrightarrow> get32 (f(p := v)) q = get32 f q"
  by (auto simp: get32_def)

lemma get32_bcopy_other: "q + 3 < off \<or> off + n \<le> q \<Longrightarrow> get32 (bcopy f off src soff n) q = get32 f q"
  by (auto simp: get32_def bcopy_def)

lemmas get_simps = get16_put16_other get16_put32_other get16_upd_other get16_bcopy_other
  get32_put16_other get32_put32_other get32_upd_other get32_bcopy_other

lemma bytes_at_cong: "(\<And>k. k < n \<Longrightarrow> f (off + k) = g (off' + k)) \<Longrightarrow> bytes_at f off n = bytes_at g off' n"
  by (simp add: bytes_at_def)

lemma bytes_at_arr: "length xs = n \<Longrightarrow> (\<And>k. k < n \<Longrightarrow> f (off + k) = xs ! k) \<Longrightarrow> bytes_at f off n = xs"
  by (rule nth_equalityI) (simp_all add: bytes_at_def)

lemma n64_nat: "0 \<le> n \<Longrightarrow> n < 2 ^ 63 \<Longrightarrow> n64 n = nat n"
  by (simp add: n64_def unsigned_of_int take_bit_int_eq_self)

lemma verifies_cong:
  assumes "\<And>i. i < len \<Longrightarrow> f (off + i) = g (off + i)"
  shows "verifies s0 f off len = verifies s0 g off len"
proof -
  have w: "get16 f (off + 2 * k) = get16 g (off + 2 * k)" if "k < len div 2" for k
  proof -
    have "2 * k < len" "2 * k + 1 < len" using that by auto
    then show ?thesis using assms [of "2 * k"] assms [of "2 * k + 1"] by (intro get16_cong) simp_all
  qed
  have "fold (\<lambda>k s. s + ucast (get16 f (off + 2 * k))) [0..<len div 2] s0 =
      fold (\<lambda>k s. s + ucast (get16 g (off + 2 * k))) [0..<len div 2] (s0 :: u32)"
    by (rule fold_cong) (simp_all add: w)
  moreover have "odd len \<Longrightarrow> f (off + len - 1) = g (off + len - 1)"
    using assms [of "len - 1"] by (cases len) auto
  ultimately show ?thesis by (simp add: verifies_def sum_words_def Let_def)
qed

section \<open>The IPv4 header\<close>

lemma ip_header_fields:
  fixes pkt iplen proto dst
  defines "h \<equiv> ip_header pkt iplen proto dst"
  shows "h 0 = 0x45" "get16 h 2 = of_int iplen" "h 8 = 64" "h 9 = proto" "20 \<le> i \<Longrightarrow> h i = pkt i"
    "length dst = 4 \<Longrightarrow> bytes_at h 16 4 = dst" "bytes_at h 12 4 = MY_IP" "verifies 0 h 0 20"
proof -
  show "h 0 = 0x45" "h 8 = 64" "h 9 = proto" by (simp_all add: h_def ip_header_def Let_def buf_simps)
  show "get16 h 2 = of_int iplen" by (simp add: h_def ip_header_def Let_def get_simps)
  show "20 \<le> i \<Longrightarrow> h i = pkt i" by (simp add: h_def ip_header_def Let_def buf_simps)
  show "bytes_at h 12 4 = MY_IP"
    by (rule bytes_at_arr) (auto simp: h_def ip_header_def Let_def buf_simps arr_def MY_IP_def)
  show "length dst = 4 \<Longrightarrow> bytes_at h 16 4 = dst"
    by (rule bytes_at_arr) (auto simp: h_def ip_header_def Let_def buf_simps arr_def)
  let ?p = "bcopy (bcopy (put16 ((put16 (put16 (put16 (pkt(0 := 0x45, 1 := 0)) 2 (of_int iplen)) 4 0) 6 0)(8 := 64, 9 := proto)) 10 0)
      12 (arr MY_IP) 0 4) 16 (arr dst) 0 4"
  have "get16 ?p (0 + 2 * 5) = 0" by (simp add: get_simps)
  then have "verifies 0 (put16 ?p (0 + 2 * 5) (cksum ?p 0 20)) 0 20" by (rule cksum_verifies) simp_all
  then show "verifies 0 h 0 20" by (simp add: h_def ip_header_def Let_def)
qed

section \<open>TCP segments\<close>

lemma pseudo_sum_bound:
  assumes "0 \<le> n" "n \<le> 65535"
  shows "unat (pseudo_sum dst (ucast (proto :: u8)) n) \<le> 400000"
proof -
  have n: "unat (of_int n :: u32) = nat n" using assms by (simp add: unsigned_of_int take_bit_int_eq_self)
  have b: "unat (get16 (arr MY_IP) 0) \<le> 65535" "unat (get16 (arr MY_IP) 2) \<le> 65535"
    "unat (get16 (arr dst) 0) \<le> 65535" "unat (get16 (arr dst) 2) \<le> 65535" "unat proto \<le> 255"
    by (rule u16_bound u8_bound)+
  have "unat (a + b :: u32) \<le> unat a + unat b" for a b by (simp add: unat_word_ariths)
  then have "unat (a + b :: u32) \<le> x + y" if "unat a \<le> x" "unat b \<le> y" for a b x y
    using that by (meson add_mono order_trans)
  note add = this
  have "unat (pseudo_sum dst (ucast proto) n) \<le> 65535 + 65535 + 65535 + 65535 + 255 + nat n"
    unfolding pseudo_sum_def by (intro add) (simp_all add: b n)
  then show ?thesis using assms by simp
qed

definition tcp_of :: "buf \<Rightarrow> u16 \<Rightarrow> u16 \<Rightarrow> u32 \<Rightarrow> u32 \<Rightarrow> u8 \<Rightarrow> buf \<Rightarrow> int \<Rightarrow> bool" where
  "tcp_of t sport dport seq ack flags data dlen \<longleftrightarrow> get16 t 20 = sport \<and> get16 t 22 = dport \<and> get32 t 24 = seq \<and>
     get32 t 28 = ack \<and> t 32 = 0x50 \<and> t 33 = flags \<and> (\<forall>i < nat dlen. t (40 + i) = data i)"

lemma tcp_packet_fields:
  fixes pkt dip sport dport seq ack flags data dlen
  defines "t \<equiv> tcp_packet pkt dip sport dport seq ack flags data dlen"
  assumes "0 \<le> dlen" "dlen \<le> 65495"
  shows "tcp_of t sport dport seq ack flags data dlen" "\<forall>i < 20. t i = ip_header pkt (40 + dlen) IP_TCP dip i"
    "verifies 0 t 0 20" "verifies (pseudo_sum dip 6 (20 + dlen)) t 20 (nat (20 + dlen))"
proof -
  let ?h = "ip_header pkt (20 + (20 + dlen)) IP_TCP dip"
  let ?p = "bcopy (put16 (put16 (put16 ((put32 (put32 (put16 (put16 ?h 20 sport) 22 dport) 24 seq) 28 ack)(32 := push_bit 4 5, 33 := flags))
      34 64240) 36 0) 38 0) 40 data 0 (nat dlen)"
  let ?acc = "fold_carry (sum_words ?p 20 (nat (20 + dlen)) (pseudo_sum dip (ucast IP_TCP) (20 + dlen)))"
  have t: "t = put16 ?p 36 (ucast (NOT ?acc AND 0xffff))" by (simp add: t_def tcp_packet_def Let_def)
  show "tcp_of t sport dport seq ack flags data dlen"
    by (simp add: tcp_of_def t get_simps) (simp add: buf_simps)
  have ip: "t i = ?h i" if "i < 20" for i using that by (simp add: t buf_simps)
  then show "\<forall>i < 20. t i = ip_header pkt (40 + dlen) IP_TCP dip i" by (simp add: add.assoc)
  have "verifies 0 t 0 20 = verifies 0 ?h 0 20" by (rule verifies_cong) (simp add: ip)
  then show "verifies 0 t 0 20" using ip_header_fields(8) by simp
  have ps: "pseudo_sum dip (ucast IP_TCP) (20 + dlen) = pseudo_sum dip 6 (20 + dlen)" by (simp add: IP_TCP_def)
  let ?s = "pseudo_sum dip 6 (20 + dlen)" and ?n = "nat (20 + dlen)"
  have sb: "unat ?s \<le> 400000" using pseudo_sum_bound [of "20 + dlen" dip IP_TCP] assms ps by simp
  have nb: "?n div 2 \<le> 32757" "8 < ?n div 2" using assms by linarith+
  have bound: "unat ?s + 65535 * (?n div 2) + 65280 < 2 ^ 32" using sb nb by simp
  have "unat (ucast (NOT ?acc AND 0xffff) :: u16) = 65535 - ones_sum (unat ?s + word_sum ?p 20 ?n)"
  proof -
    have "unat ?acc = ones_sum (unat ?s + word_sum ?p 20 ?n)" by (simp add: fold_carry_eq ps sum_words_eq [OF bound])
    then show ?thesis using ones_sum_range [of "unat ?s + word_sum ?p 20 ?n"] by (simp add: not_low)
  qed
  moreover have "get16 ?p (20 + 2 * 8) = 0" by (simp add: get_simps)
  ultimately have "verifies ?s (put16 ?p (20 + 2 * 8) (ucast (NOT ?acc AND 0xffff))) 20 ?n"
    by (intro filled_verifies nb(2) bound)
  then show "verifies ?s t 20 ?n" by (simp add: t)
qed

section \<open>The checksum of RFC 1071\<close>

text \<open>
  Stated on byte strings, apart from the code's loops: the sum of the 16-bit words in network
  order, a last odd byte padded with zero. In ones' complement arithmetic, where 65536 and 1 are
  the same, a message with a correct checksum field sums to all ones, which is the nonzero form
  of zero modulo 65535. TCP and UDP put a pseudo header in front.
\<close>

fun inet_sum :: "u8 list \<Rightarrow> nat" where
  "inet_sum [] = 0"
| "inet_sum [a] = 256 * unat a"
| "inet_sum (a # b # bs) = 256 * unat a + unat b + inet_sum bs"

definition checksum_valid :: "u8 list \<Rightarrow> bool" where
  "checksum_valid bs \<longleftrightarrow> inet_sum bs \<noteq> 0 \<and> inet_sum bs mod 65535 = 0"

definition pseudo_header :: "u8 list \<Rightarrow> u8 list \<Rightarrow> u8 \<Rightarrow> nat \<Rightarrow> u8 list" where
  "pseudo_header src dst proto len = src @ dst @ [0, proto, of_nat (len div 256), of_nat (len mod 256)]"

lemma inet_sum_append: "even (length xs) \<Longrightarrow> inet_sum (xs @ ys) = inet_sum xs + inet_sum ys"
  by (induction xs rule: inet_sum.induct) auto

lemma unat_get16: "unat (get16 f p) = 256 * unat (f p) + unat (f (Suc p))"
proof -
  have "get16 f p = push_bit 8 (ucast (f p)) + ucast (f (p + 1))"
    unfolding get16_def by (rule disjunctive_add [symmetric]) (auto simp: bit_simps dest: bit_imp_le_length)
  moreover have "unat (ucast x :: u16) = unat x" for x :: u8
    using u8_bound [of x] by (simp add: unsigned_ucast_eq take_bit_nat_eq_self)
  ultimately show ?thesis
    using u8_bound [of "f p"] u8_bound [of "f (p + 1)"] by (simp add: push_bit_eq_mult unat_word_ariths)
qed

lemma word_sum_step: "word_sum f off (Suc (Suc n)) = unat (get16 f off) + word_sum f (off + 2) n"
proof -
  have "(\<Sum>k < Suc (n div 2). unat (get16 f (off + 2 * k))) =
      unat (get16 f off) + (\<Sum>k < n div 2. unat (get16 f (off + 2 + 2 * k)))"
    by (subst sum.lessThan_Suc_shift) simp
  moreover have "odd n \<Longrightarrow> off + 2 + n - 1 = off + Suc (Suc n) - 1" by simp
  ultimately show ?thesis by (simp add: word_sum_def)
qed

lemma bytes_at_step: "bytes_at f off (Suc (Suc n)) = f off # f (Suc off) # bytes_at f (off + 2) n"
proof -
  have "[0..<Suc (Suc n)] = 0 # Suc 0 # map (\<lambda>k. k + 2) [0..<n]"
    unfolding map_add_upt by (simp add: upt_conv_Cons numeral_2_eq_2 del: upt_Suc)
  then show ?thesis by (simp add: bytes_at_def del: upt_Suc)
qed

lemma word_sum_inet: "word_sum f off n = inet_sum (bytes_at f off n)"
proof (induction n arbitrary: off rule: nat_induct2)
  case (step n)
  then show ?case by (simp add: word_sum_step bytes_at_step unat_get16)
qed (simp_all add: word_sum_def bytes_at_def)

lemma pseudo_sum_inet:
  assumes "length dst = 4" "0 \<le> n" "n \<le> 65535"
  shows "unat (pseudo_sum dst (ucast (proto :: u8)) n) = inet_sum (pseudo_header MY_IP dst proto (nat n))"
proof -
  obtain a b c d where dst: "dst = [a, b, c, d]"
    using assms(1) by (auto simp: length_Suc_conv numeral_eq_Suc)
  have n: "unat (of_int n :: u32) = nat n" using assms by (simp add: unsigned_of_int take_bit_int_eq_self)
  have hi: "nat n div 256 < 256" using assms(2,3) by (simp add: div_less_iff_less_mult)
  have parts: "unat (of_nat (nat n div 256) :: u8) = nat n div 256" "unat (of_nat (nat n mod 256) :: u8) = nat n mod 256"
    using hi by (simp_all add: unsigned_of_nat take_bit_nat_eq_self)
  have "unat (ucast (get16 (arr MY_IP) 0) + ucast (get16 (arr MY_IP) 2) + ucast (get16 (arr dst) 0) +
      ucast (get16 (arr dst) 2) + ucast proto + of_int n :: u32) =
      unat (get16 (arr MY_IP) 0) + unat (get16 (arr MY_IP) 2) + unat (get16 (arr dst) 0) + unat (get16 (arr dst) 2) +
      unat proto + nat n"
  proof -
    have small: "unat (x + y :: u32) = p + q" if "unat x = p" "unat y = q" "p + q < 2 ^ 32" for x y p q
      using that by (simp add: unat_word_ariths)
    have b: "unat (get16 (arr MY_IP) 0) \<le> 65535" "unat (get16 (arr MY_IP) 2) \<le> 65535"
        "unat (get16 (arr dst) 0) \<le> 65535" "unat (get16 (arr dst) 2) \<le> 65535" "unat proto \<le> 255" "nat n \<le> 65535"
      using assms(2,3) by (simp_all add: u16_bound u8_bound)
    show ?thesis by (intro small) (use b n in simp_all)
  qed
  moreover have "nat n = 256 * (nat n div 256) + nat n mod 256" by simp
  ultimately show ?thesis
    by (simp add: pseudo_sum_def pseudo_header_def dst unat_get16 arr_def MY_IP_def parts)
qed

lemma ones_sum_full: "ones_sum n = 65535 \<longleftrightarrow> n \<noteq> 0 \<and> n mod 65535 = 0"
proof (cases n)
  case (Suc k)
  then have "ones_sum n = 65535 \<longleftrightarrow> k mod 65535 = 65534" by (simp add: ones_sum_def)
  also have "\<dots> \<longleftrightarrow> Suc k mod 65535 = 0" by (simp add: mod_Suc)
  finally show ?thesis using Suc by simp
qed (simp add: ones_sum_def)

lemma verifies_checksum:
  assumes "unat s0 + 65535 * (len div 2) + 65280 < 2 ^ 32" "unat s0 = inet_sum ph" "even (length ph)"
  shows "verifies s0 f off len \<longleftrightarrow> checksum_valid (ph @ bytes_at f off len)"
  using assms by (simp add: verifies_iff ones_sum_full checksum_valid_def inet_sum_append word_sum_inet)

end
