(* ===== verification/NetWire.thy ===== *)
theory NetWire
  imports NetThms
begin

text \<open>
  From one network card to another: the frame that \<^verbatim>\<open>eth_tx\<close> hands to the card, what \<^verbatim>\<open>eth_rx\<close>
  makes of a frame the card has received, and the two together for a TCP segment and for an ARP
  request and its answer.
\<close>

section \<open>Frames on the wire\<close>

text \<open>The buffer \<^verbatim>\<open>txframe\<close> as \<^verbatim>\<open>eth_tx\<close> fills it and the submission it makes of it.\<close>

definition wire :: "u8 list \<Rightarrow> u16 \<Rightarrow> buf \<Rightarrow> int \<Rightarrow> 'd net \<Rightarrow> buf" where
  "wire dst et payload plen s =
     bcopy (put16 (bcopy (bcopy (bzero (txframe s) 0 NETHDR) NETHDR (arr dst) 0 6) (NETHDR + 6) (arr (my_mac s)) 0 6) (NETHDR + 12) et)
       (NETHDR + 14) payload 0 (n64 plen)"

definition submission :: "'d net \<Rightarrow> u8 list \<Rightarrow> tx_sub" where
  "submission s F = \<lparr>ts_ring = (tx_ring s)[unat (tx_idx s mod NUM) := 0], ts_idx = tx_idx s + 1, ts_flags = 0, ts_frame = F\<rparr>"

lemma eth_tx_sends:
  assumes "net_ok s" "0 \<le> plen" "plen < 65536"
  shows "nic (snd (eth_tx dev dst et payload plen s)) =
    fst (ntx dev (submission s (bytes_at (wire dst et payload plen s) 0 (nat (26 + plen)))) (nic s))"
proof -
  have "unat (of_int (int NETHDR + 14 + plen) :: u32) = nat (int NETHDR + 14 + plen)"
    using assms(2,3) by (simp only: unsigned_of_int NETHDR_def) (simp add: take_bit_int_eq_self)
  then have "unat (of_int (int NETHDR + 14 + plen) :: u32) = nat (26 + plen)" by (simp add: NETHDR_def)
  then show ?thesis
    using assms(1) by (simp add: eth_tx_def Let_def submission_def wire_def [symmetric] del: of_int_add split: prod.splits)
qed

lemma wire_fields:
  assumes "0 \<le> plen" "plen < 65536" "length (my_mac s) = 6"
  shows "i < nat plen \<Longrightarrow> wire dst et payload plen s (26 + i) = payload i" "get16 (wire dst et payload plen s) 24 = et"
    "bytes_at (wire dst et payload plen s) 18 6 = my_mac s" "length dst = 6 \<Longrightarrow> bytes_at (wire dst et payload plen s) 12 6 = dst"
proof -
  have n: "n64 plen = nat plen" using assms(1,2) by (simp add: n64_nat)
  show "i < nat plen \<Longrightarrow> wire dst et payload plen s (26 + i) = payload i" by (simp add: wire_def buf_simps NETHDR_def n)
  show "get16 (wire dst et payload plen s) 24 = et" by (simp add: wire_def NETHDR_def get16_bcopy_other)
  show "bytes_at (wire dst et payload plen s) 18 6 = my_mac s"
    by (rule bytes_at_arr) (auto simp: wire_def NETHDR_def buf_simps assms arr_def)
  show "length dst = 6 \<Longrightarrow> bytes_at (wire dst et payload plen s) 12 6 = dst"
    by (rule bytes_at_arr) (auto simp: wire_def NETHDR_def buf_simps arr_def)
qed

text \<open>The frame arrives at a card: the bytes behind the virtio header.\<close>

lemma eth_rx_gets:
  assumes "net_ok r" "nrx dev (nic r) = (d, Some (bid, of_nat (length F), arr F))" "26 \<le> length F" "length F \<le> 2048 + 12"
  obtains fr r' where "eth_rx dev out BUFSZ r = (int (length F) - 12, fr, r')" "\<forall>i < length F - 12. fr i = F ! (12 + i)"
proof -
  have u: "unat (of_nat (length F) :: u32) = length F" using assms(4) by (simp add: unsigned_of_nat take_bit_nat_eq_self)
  then have gt: "(of_nat NETHDR :: u32) < of_nat (length F)" using assms(3) by (simp add: word_less_nat_alt NETHDR_def)
  have n: "of_nat (length F) - of_nat NETHDR = (of_nat (length F - 12) :: u32)" using assms(3) by (simp add: NETHDR_def of_nat_diff)
  have "length F - 12 < 2 ^ 31" using assms(4) by simp
  then have "sint (of_nat (length F) - of_nat NETHDR :: u32) = int (length F - 12)"
    unfolding n by (simp add: signed_of_nat signed_take_bit_int_eq_self)
  then have s: "sint (of_nat (length F) - of_nat NETHDR :: u32) = int (length F) - 12" using assms(3) by simp
  have k: "n64 (int (length F) - 12) = length F - 12" using assms(3,4) by (simp add: n64_nat nat_diff_distrib)
  have "\<not> BUFSZ < int (length F) - 12" using assms(4) by (simp add: BUFSZ_def)
  then have "\<exists>r'. eth_rx dev out BUFSZ r = (int (length F) - 12, bcopy out 0 (arr F) NETHDR (length F - 12), r')"
    using assms(1,2) gt by (simp add: eth_rx_def Let_def s k)
  then obtain r' where "eth_rx dev out BUFSZ r = (int (length F) - 12, bcopy out 0 (arr F) NETHDR (length F - 12), r')" ..
  then show ?thesis by (rule that) (auto simp: buf_simps NETHDR_def arr_def)
qed

lemma bytes_at_nth: "i < n \<Longrightarrow> bytes_at f off n ! i = f (off + i)"
  by (simp add: bytes_at_def)

lemma length_bytes_at: "length (bytes_at f off n) = n"
  by (simp add: bytes_at_def)

text \<open>A machine whose card reports the frame next, and the segment a receiver is to see.\<close>

definition delivers :: "'d nicdev \<Rightarrow> u8 list \<Rightarrow> 'd net \<Rightarrow> bool" where
  "delivers dev F r \<longleftrightarrow> net_ok r \<and> (\<exists>d bid. nrx dev (nic r) = (d, Some (bid, of_nat (length F), arr F)))"

definition segment_is :: "u8 list \<Rightarrow> u16 \<Rightarrow> u32 \<Rightarrow> u32 \<Rightarrow> u8 \<Rightarrow> buf \<Rightarrow> int \<Rightarrow> segment \<Rightarrow> bool" where
  "segment_is mac sport seq ack flags data dlen g \<longleftrightarrow> g_mac g = mac \<and> g_ip g = MY_IP \<and> g_port g = sport \<and> g_seq g = seq \<and>
     g_ack g = ack \<and> g_flags g = flags \<and> g_len g = dlen \<and> (\<forall>i < nat dlen. g_data g i = data i)"

text \<open>
  The frame one machine sent reaches another: what \<^verbatim>\<open>eth_rx\<close> copies out is the Ethernet frame,
  source address, type and payload.
\<close>

lemma frame_crosses:
  assumes "0 \<le> plen" "plen \<le> 2022" "length (my_mac s) = 6"
    and F: "F = bytes_at (wire dst et payload plen s) 0 (nat (26 + plen))"
    and "delivers dev F r"
  obtains fr r' where "eth_rx dev out BUFSZ r = (14 + plen, fr, r')" "get16 fr 12 = et" "bytes_at fr 6 6 = my_mac s"
    "length dst = 6 \<longrightarrow> bytes_at fr 0 6 = dst" "\<forall>i < nat plen. fr (14 + i) = payload i"
proof -
  have len: "length F = nat (26 + plen)" by (simp add: F length_bytes_at)
  then have "26 \<le> length F" "length F \<le> 2048 + 12" using assms(1,2) by linarith+
  moreover obtain d bid where "net_ok r" "nrx dev (nic r) = (d, Some (bid, of_nat (length F), arr F))"
    using assms(5) by (auto simp: delivers_def)
  ultimately obtain fr r' where rx: "eth_rx dev out BUFSZ r = (int (length F) - 12, fr, r')"
    and "\<forall>i < length F - 12. fr i = F ! (12 + i)" by (meson eth_rx_gets)
  then have fr: "fr i = wire dst et payload plen s (12 + i)" if "i < 14 + nat plen" for i
    using that assms(1) by (simp add: F bytes_at_nth length_bytes_at nat_add_distrib)
  have b: "0 \<le> plen" "plen < 65536" using assms(1,2) by simp_all
  note w = wire_fields [OF b assms(3)]
  show thesis
  proof (rule that)
    show "eth_rx dev out BUFSZ r = (14 + plen, fr, r')" using rx len assms(1) by simp
    have "get16 fr 12 = get16 (wire dst et payload plen s) 24" by (rule get16_cong) (simp_all add: fr)
    then show "get16 fr 12 = et" by (simp add: w)
    have "bytes_at fr 6 6 = bytes_at (wire dst et payload plen s) 18 6"
      by (rule bytes_at_cong) (simp add: fr)
    then show "bytes_at fr 6 6 = my_mac s" by (simp add: w)
    have "bytes_at fr 0 6 = bytes_at (wire dst et payload plen s) 12 6"
      by (rule bytes_at_cong) (simp add: fr)
    then show "length dst = 6 \<longrightarrow> bytes_at fr 0 6 = dst" by (simp add: w)
    show "\<forall>i < nat plen. fr (14 + i) = payload i" by (auto simp: fr w(1) [simplified])
  qed
qed

section \<open>A TCP segment from one machine to another\<close>

text \<open>
  A received frame whose payload is a packet of \<^verbatim>\<open>tcp_send\<close> parses back into the segment.
\<close>

lemma tcp_parse_packet:
  fixes pkt dip sport dport seq ack flags data dlen
  defines "t \<equiv> tcp_packet pkt dip sport dport seq ack flags data dlen"
  assumes d: "0 \<le> dlen" "dlen \<le> 1982" and et: "get16 fr 12 = ETH_IP"
    and fr: "\<And>i. i < nat (40 + dlen) \<Longrightarrow> fr (14 + i) = t i"
  shows "\<exists>g. tcp_parse dport BUFSZ out fr = Some g \<and> segment_is (bytes_at fr 6 6) sport seq ack flags data dlen g"
proof -
  have b: "dlen \<le> 65495" using d by simp
  note tp = tcp_packet_fields [OF d(1) b, where pkt = pkt and dip = dip and sport = sport and dport = dport and seq = seq
      and ack = ack and flags = flags and data = data, folded t_def]
  note iph = ip_header_fields [where pkt = pkt and iplen = "40 + dlen" and proto = IP_TCP and dst = dip]
  have f: "fr (14 + i) = t i" if "i < 40" for i using that d by (intro fr) linarith
  have ip: "t i = ip_header pkt (40 + dlen) IP_TCP dip i" if "i < 20" for i using tp(2) that by blast
  have v: "fr 14 = 0x45" "fr 23 = IP_TCP" "fr 46 = 0x50" "fr 47 = flags"
    using f [of 0] f [of 9] f [of 32] f [of 33] ip [of 0] ip [of 9] iph(1,4) tp(1) by (simp_all add: tcp_of_def)
  have g16: "get16 fr (14 + k) = get16 t k" if "k < 39" for k
    using f [of k] f [of "Suc k"] that by (intro get16_cong) simp_all
  have g32: "get32 fr (14 + k) = get32 t k" if "k < 37" for k
    using f [of k] f [of "k + 1"] f [of "k + 2"] f [of "k + 3"] that by (simp add: get32_def add.assoc)
  have "get16 t 2 = get16 (ip_header pkt (40 + dlen) IP_TCP dip) 2" by (rule get16_cong) (simp_all add: ip)
  then have len: "get16 fr 16 = of_int (40 + dlen)" using g16 [of 2] iph(2) by simp
  have "unat (of_int (40 + dlen) :: u16) = nat (40 + dlen)"
    using d by (simp only: unsigned_of_int) (simp add: take_bit_int_eq_self)
  then have dl: "uint (get16 fr 16) = 40 + dlen" using d len by (simp only: uint_nat)
  have "bytes_at fr 26 4 = bytes_at (ip_header pkt (40 + dlen) IP_TCP dip) 12 4"
  proof (rule bytes_at_cong)
    fix k :: nat assume "k < 4"
    then show "fr (26 + k) = ip_header pkt (40 + dlen) IP_TCP dip (12 + k)" using f [of "12 + k"] ip [of "12 + k"] by simp
  qed
  then have src: "bytes_at fr 26 4 = MY_IP" by (simp add: iph(7))
  have h: "get16 fr 34 = sport" "get16 fr 36 = dport" "get32 fr 38 = seq" "get32 fr 42 = ack"
    using g16 [of 20] g16 [of 22] g32 [of 24] g32 [of 28] tp(1) by (simp_all add: tcp_of_def)
  have data: "fr (54 + i) = data i" if "i < nat dlen" for i
    using fr [of "40 + i"] tp(1) that d by (simp add: tcp_of_def)
  have n: "n64 dlen = nat dlen" using d by (simp add: n64_nat)
  have "0x45 AND 0xf = (5 :: u8)" "drop_bit 4 0x45 = (4 :: u8)" "drop_bit 4 0x50 = (5 :: u8)" by simp_all
  then show ?thesis
    using d by (simp add: tcp_parse_def segment_is_def Let_def et v h dl src n BUFSZ_def buf_simps data)
qed

text \<open>The IP packet in a frame given to the card, behind the virtio and Ethernet headers.\<close>

definition ip_part :: "u8 list \<Rightarrow> u8 list" where
  "ip_part F = drop 26 F"

lemma tcp_checksums:
  assumes d: "0 \<le> dlen" "dlen \<le> 1982" and mac: "length (my_mac s) = 6" and dip: "length dip = 4"
    and F: "F = bytes_at (wire dst ETH_IP (tcp_packet pkt dip sport dport seq ack flags data dlen) (40 + dlen) s) 0 (nat (66 + dlen))"
  shows "length (ip_part F) = nat (40 + dlen)" "take 4 (drop 12 (ip_part F)) = MY_IP" "take 4 (drop 16 (ip_part F)) = dip"
    "checksum_valid (take 20 (ip_part F))"
    "checksum_valid (pseudo_header MY_IP dip 6 (nat (20 + dlen)) @ drop 20 (ip_part F))"
proof -
  let ?t = "tcp_packet pkt dip sport dport seq ack flags data dlen" and ?n = "nat (20 + dlen)"
  have b: "dlen \<le> 65495" "0 \<le> 40 + dlen" "40 + dlen < 65536" using d by simp_all
  note tp = tcp_packet_fields(2-4) [OF d(1) b(1), where pkt = pkt and dip = dip and sport = sport and dport = dport and seq = seq
      and ack = ack and flags = flags and data = data]
  have len: "length (ip_part F) = nat (40 + dlen)"
    using d by (simp add: ip_part_def F length_bytes_at)
  then show "length (ip_part F) = nat (40 + dlen)" .
  have p: "ip_part F ! i = ?t i" if "i < nat (40 + dlen)" for i
  proof -
    have "26 + i < nat (66 + dlen)" using that d by linarith
    then show ?thesis
      using wire_fields(1) [OF b(2,3) mac that, of dst ETH_IP ?t] by (simp add: ip_part_def F length_bytes_at bytes_at_nth)
  qed
  have part: "take k (drop off (ip_part F)) = bytes_at ?t off k" if "off + k \<le> nat (40 + dlen)" for off k
    using that by (intro nth_equalityI) (simp_all add: len length_bytes_at bytes_at_nth p)
  have n: "40 \<le> nat (40 + dlen)" "nat (40 + dlen) = 20 + ?n" using d by simp_all
  note iph = ip_header_fields(6,7) [where pkt = pkt and iplen = "40 + dlen" and proto = IP_TCP and dst = dip]
  have hdr: "bytes_at ?t off 4 = bytes_at (ip_header pkt (40 + dlen) IP_TCP dip) off 4" if "off + 4 \<le> 20" for off
    using that by (intro bytes_at_cong) (use tp(1) in simp)
  show "take 4 (drop 12 (ip_part F)) = MY_IP" "take 4 (drop 16 (ip_part F)) = dip"
    using part [of 12 4] part [of 16 4] n(1) hdr [of 12] hdr [of 16] iph dip by simp_all
  have "take 20 (ip_part F) = bytes_at ?t 0 20" using part [of 0 20] n(1) by simp
  then show "checksum_valid (take 20 (ip_part F))"
    using tp(2) verifies_checksum [of 0 20 "[]" ?t 0] by simp
  have rest: "drop 20 (ip_part F) = bytes_at ?t 20 ?n" using part [of 20 ?n] n(2) len by simp
  have six: "ucast (6 :: u8) = (6 :: u32)" by simp
  have ps: "unat (pseudo_sum dip 6 (20 + dlen)) = inet_sum (pseudo_header MY_IP dip 6 ?n)"
    using pseudo_sum_inet [OF dip, of "20 + dlen" 6] d unfolding six by simp
  have "unat (pseudo_sum dip 6 (20 + dlen)) \<le> 400000"
    using pseudo_sum_bound [of "20 + dlen" dip 6] d unfolding six by simp
  moreover have "?n div 2 \<le> 32757" using d by linarith
  ultimately have "unat (pseudo_sum dip 6 (20 + dlen)) + 65535 * (?n div 2) + 65280 < 2 ^ 32" by simp
  from verifies_checksum [OF this ps] tp(3)
  show "checksum_valid (pseudo_header MY_IP dip 6 ?n @ drop 20 (ip_part F))"
    by (simp add: rest pseudo_header_def dip MY_IP_def)
qed

text \<open>
  Claim C34. \<^verbatim>\<open>tcp_send\<close> on one machine and \<^verbatim>\<open>tcp_recv\<close> on another fit together. For a segment of
  at most 1982 bytes (what a receive buffer of 2048 bytes holds behind the headers) \<^verbatim>\<open>tcp_send\<close>
  gives its card one frame with a packet from \<^verbatim>\<open>MY_IP\<close> to the destination, whose IP header and
  whose TCP segment behind its pseudo header have correct checksums as RFC 1071 defines them on
  the bytes. On every machine whose card next reports that frame as received, \<^verbatim>\<open>tcp_recv\<close> on
  the destination port returns at its first poll with the sender's hardware and IP addresses, its
  port, the sequence and acknowledgement numbers, the flags and exactly the data sent.
\<close>

theorem tcp_send_recv:
  assumes "net_ok s" "length (my_mac s) = 6" "0 \<le> dlen" "dlen \<le> 1982" "length dip = 4"
  shows "\<exists>F. (\<forall>dev. nic (snd (tcp_send dev mac dip sport dport seq ack flags data dlen s)) = fst (ntx dev (submission s F) (nic s))) \<and>
    length (ip_part F) = nat (40 + dlen) \<and> take 4 (drop 12 (ip_part F)) = MY_IP \<and> take 4 (drop 16 (ip_part F)) = dip \<and>
    checksum_valid (take 20 (ip_part F)) \<and>
    checksum_valid (pseudo_header MY_IP dip 6 (nat (20 + dlen)) @ drop 20 (ip_part F)) \<and>
    (\<forall>dev' (r :: 'e net) spin out fr. delivers dev' F r \<longrightarrow>
      (\<exists>g r'. tcp_recv (Suc spin) dev' dport BUFSZ out fr r = (Some g, r') \<and> segment_is (my_mac s) sport seq ack flags data dlen g))"
proof -
  let ?t = "tcp_packet (stk s) dip sport dport seq ack flags data dlen"
  have b: "0 \<le> 40 + dlen" "40 + dlen < 65536" "40 + dlen \<le> 2022" using assms(3,4) by simp_all
  define F where F: "F = bytes_at (wire mac ETH_IP ?t (40 + dlen) s) 0 (nat (26 + (40 + dlen)))"
  have F': "F = bytes_at (wire mac ETH_IP ?t (40 + dlen) s) 0 (nat (66 + dlen))" by (simp add: F)
  have "nic (snd (tcp_send dev mac dip sport dport seq ack flags data dlen s)) = fst (ntx dev (submission s F) (nic s))" for dev
    using eth_tx_sends [OF assms(1) b(1,2)] by (simp add: tcp_send_def F)
  moreover have "\<exists>g r'. tcp_recv (Suc spin) dev' dport BUFSZ out fr r = (Some g, r') \<and> segment_is (my_mac s) sport seq ack flags data dlen g"
    if r: "delivers dev' F r" for dev' and r :: "'e net" and spin out fr
  proof -
    obtain fr' r' where rx: "eth_rx dev' fr BUFSZ r = (14 + (40 + dlen), fr', r')" and et: "get16 fr' 12 = ETH_IP"
      and src: "bytes_at fr' 6 6 = my_mac s" and "length mac = 6 \<longrightarrow> bytes_at fr' 0 6 = mac"
      and pl: "\<forall>i < nat (40 + dlen). fr' (14 + i) = ?t i"
      by (rule frame_crosses [OF b(1,3) assms(2) F r])
    have pl': "fr' (14 + i) = ?t i" if "i < nat (40 + dlen)" for i using pl that by blast
    obtain g where "tcp_parse dport BUFSZ out fr' = Some g" "segment_is (bytes_at fr' 6 6) sport seq ack flags data dlen g"
      using tcp_parse_packet [OF assms(3,4) et pl'] by blast
    then show ?thesis using assms(3) et by (simp add: rx src ETH_IP_def ETH_ARP_def)
  qed
  ultimately show ?thesis using tcp_checksums [OF assms(3,4,2,5) F'] by blast
qed

text \<open>Two machines of the network, the second with a card that holds one received frame.\<close>

definition lab_net :: "u8 list \<Rightarrow> 'd \<Rightarrow> 'd net" where
  "lab_net mac d = \<lparr>net_ok = True, my_mac = mac, tx_ring = replicate 8 0, tx_idx = 0, tx_seen = 0, rx_ring = [0, 1, 2, 3, 4, 5, 6, 7],
     rx_idx = 8, rx_seen = 0, txframe = (\<lambda>_. 0), stk = (\<lambda>_. 0), nic = d, nout = []\<rparr>"

definition lab_card :: "(u8 list) nicdev" where
  "lab_card = \<lparr>ntx = (\<lambda>q d. (d, ts_idx q)), nrx = (\<lambda>d. (d, Some (0, of_nat (length d), arr d))), nback = (\<lambda>_ _ d. d)\<rparr>"

lemma lab_delivers: "delivers lab_card F (lab_net mac F)"
  by (simp add: delivers_def lab_net_def lab_card_def)

lemma tcp_send_recv_witness:
  "\<exists>F g r'. nic (snd (tcp_send lab_card (replicate 6 2) [10, 0, 2, 2] 5599 4000 20000 7 TH_ACK (arr [104, 105]) 2 (lab_net [1, 2, 3, 4, 5, 6] [])))
      = fst (ntx lab_card (submission (lab_net [1, 2, 3, 4, 5, 6] ([] :: u8 list)) F) []) \<and>
    checksum_valid (pseudo_header MY_IP [10, 0, 2, 2] 6 22 @ drop 20 (ip_part F)) \<and>
    tcp_recv (Suc 0) lab_card 4000 BUFSZ (\<lambda>_. 0) (\<lambda>_. 0) (lab_net [9, 9, 9, 9, 9, 9] F) = (Some g, r') \<and>
    segment_is [1, 2, 3, 4, 5, 6] 5599 20000 7 TH_ACK (arr [104, 105]) 2 g"
proof -
  let ?s = "lab_net [1, 2, 3, 4, 5, 6] ([] :: u8 list)"
  have "net_ok ?s" "length (my_mac ?s) = 6" "(0 :: int) \<le> 2" "(2 :: int) \<le> 1982" "length [10, 0, 2, 2 :: u8] = 4" and mac: "my_mac ?s = [1, 2, 3, 4, 5, 6]" and nic: "nic ?s = []"
    by (simp_all add: lab_net_def)
  from tcp_send_recv [where 'e = "u8 list", OF this(1-5), of "replicate 6 2" 5599 4000 20000 7 TH_ACK "arr [104, 105]", unfolded mac nic]
  show ?thesis using lab_delivers by (simp add: nat_numeral) blast
qed

section \<open>An ARP request and its answer\<close>

lemma eth_rx_keeps: "eth_rx dev out mx s = (n, fr, s') \<Longrightarrow> net_ok s' = net_ok s \<and> my_mac s' = my_mac s"
  by (auto simp: eth_rx_def Let_def split: if_splits prod.splits option.splits)

lemma eq4_arr: "length xs = 4 \<Longrightarrow> eq4 f p (arr xs) 0 = (bytes_at f p 4 = xs)"
  by (auto simp: eq4_def bytes_at_def arr_def list_all_iff list_eq_iff_nth_eq)

lemma MY_IP_length [simp]: "length MY_IP = 4"
  by (simp add: MY_IP_def)

text \<open>The payload of a request and of an answer, as \<^verbatim>\<open>arp_request\<close> and \<^verbatim>\<open>arp_maybe_reply\<close> fill it.\<close>

definition arp_fields :: "buf \<Rightarrow> u16 \<Rightarrow> u8 list \<Rightarrow> u8 list \<Rightarrow> u8 list \<Rightarrow> bool" where
  "arp_fields a oper sha spa tpa \<longleftrightarrow> get16 a 6 = oper \<and> bytes_at a 8 6 = sha \<and> bytes_at a 14 4 = spa \<and> bytes_at a 24 4 = tpa"

lemma arp_fields_cong:
  assumes "arp_fields a oper sha spa tpa" "\<forall>i < nat 28. fr (14 + i) = a i"
  shows "get16 fr 20 = oper" "bytes_at fr 22 6 = sha" "bytes_at fr 28 4 = spa" "bytes_at fr 38 4 = tpa"
proof -
  have f: "fr (14 + i) = a i" if "i < 28" for i using assms(2) that by simp
  have "get16 fr 20 = get16 a 6" using f [of 6] f [of 7] by (intro get16_cong) simp_all
  then show "get16 fr 20 = oper" using assms(1) by (simp add: arp_fields_def)
  have b: "bytes_at fr (14 + p) n = bytes_at a p n" if "p + n \<le> 28" for p n
    using f [of "p + k" for k] that by (intro bytes_at_cong) (simp add: add.assoc)
  show "bytes_at fr 22 6 = sha" "bytes_at fr 28 4 = spa" "bytes_at fr 38 4 = tpa"
    using b [of 8 6] b [of 14 4] b [of 24 4] assms(1) by (simp_all add: arp_fields_def)
qed

lemma arp_request_sends:
  assumes "net_ok s" "length (my_mac s) = 6" "length ip = 4"
  obtains a where "arp_fields a 1 (my_mac s) MY_IP ip"
    "\<forall>dev. nic (arp_request dev ip s) = fst (ntx dev (submission s (bytes_at (wire (replicate 6 0xff) ETH_ARP a 28 s) 0 54)) (nic s))"
proof
  let ?a = "bcopy (bzero (bcopy (bcopy (put16 ((put16 (put16 (stk s) 0 1) 2 ETH_IP)(4 := 6, 5 := 4)) 6 1) 8 (arr (my_mac s)) 0 6) 14 (arr MY_IP) 0 4) 18 6)
    24 (arr ip) 0 4"
  have "get16 ?a 6 = 1" by (simp add: get16_def buf_simps)
  moreover have "bytes_at ?a 8 6 = my_mac s" "bytes_at ?a 14 4 = MY_IP" "bytes_at ?a 24 4 = ip"
    by (rule bytes_at_arr, use assms in \<open>auto simp: buf_simps arr_def\<close>)+
  ultimately show "arp_fields ?a 1 (my_mac s) MY_IP ip" by (simp add: arp_fields_def)
  show "\<forall>dev. nic (arp_request dev ip s) = fst (ntx dev (submission s (bytes_at (wire (replicate 6 0xff) ETH_ARP ?a 28 s) 0 54)) (nic s))"
    using eth_tx_sends [OF assms(1), of 28] by (simp add: arp_request_def Let_def)
qed

lemma arp_reply_sends:
  assumes "net_ok s" "length (my_mac s) = 6" "get16 fr 12 = ETH_ARP" "get16 fr 20 = 1" "bytes_at fr 38 4 = MY_IP"
  obtains a where "arp_fields a 2 (my_mac s) MY_IP (bytes_at fr 28 4)"
    "nic (arp_maybe_reply dev fr 42 s) = fst (ntx dev (submission s (bytes_at (wire (bytes_at fr 22 6) ETH_ARP a 28 s) 0 54)) (nic s))"
proof
  let ?a = "bcopy (bcopy (bcopy (bcopy (put16 ((put16 (put16 (stk s) 0 1) 2 ETH_IP)(4 := 6, 5 := 4)) 6 2) 8 (arr (my_mac s)) 0 6) 14 (arr MY_IP) 0 4) 18 fr 22 6)
    24 fr 28 4"
  have "get16 ?a 6 = 2" by (simp add: get16_def buf_simps)
  moreover have "bytes_at ?a 8 6 = my_mac s" "bytes_at ?a 14 4 = MY_IP"
    by (rule bytes_at_arr, use assms in \<open>auto simp: buf_simps arr_def\<close>)+
  moreover have "bytes_at ?a 24 4 = bytes_at fr 28 4" by (rule bytes_at_cong) (simp add: buf_simps)
  ultimately show "arp_fields ?a 2 (my_mac s) MY_IP (bytes_at fr 28 4)" by (simp add: arp_fields_def)
  show "nic (arp_maybe_reply dev fr 42 s) = fst (ntx dev (submission s (bytes_at (wire (bytes_at fr 22 6) ETH_ARP ?a 28 s) 0 54)) (nic s))"
    using eth_tx_sends [OF assms(1), of 28] assms(3-5) by (simp add: arp_maybe_reply_def eq4_arr Let_def)
qed

text \<open>
  Claim C35. Address resolution between two machines. A machine that asks for the address of a
  machine with the IP address \<^verbatim>\<open>MY_IP\<close> broadcasts one frame. A machine of this kernel whose card reports that
  frame reads it whole and \<^verbatim>\<open>arp_maybe_reply\<close> sends one frame, and the waiting loop of
  \<^verbatim>\<open>arp_resolve\<close> returns, as soon as the card of its machine reports that answer, the hardware
  address of the machine that answered. A frame that is not a whole ARP request for \<^verbatim>\<open>MY_IP\<close> is
  never answered.
\<close>

theorem arp_exchange:
  assumes "net_ok a" "length (my_mac a) = 6"
  shows "\<exists>F. (\<forall>dev. nic (arp_request dev MY_IP a) = fst (ntx dev (submission a F) (nic a))) \<and>
    (\<forall>dev (b :: 'e net) out. delivers dev F b \<and> length (my_mac b) = 6 \<longrightarrow>
      (\<exists>fr b' G. eth_rx dev out BUFSZ b = (42, fr, b') \<and>
        nic (arp_maybe_reply dev fr 42 b') = fst (ntx dev (submission b' G) (nic b')) \<and>
        (\<forall>dev' (c :: 'f net) spin fr'. delivers dev' G c \<longrightarrow> fst (arp_wait (Suc spin) dev' MY_IP fr' c) = Some (my_mac b)))) \<and>
    (\<forall>dev fr len (s :: 'e net). \<not> (42 \<le> len \<and> get16 fr 12 = ETH_ARP \<and> get16 fr 20 = 1 \<and> bytes_at fr 38 4 = MY_IP) \<longrightarrow>
      arp_maybe_reply dev fr len s = s)"
proof -
  have p: "(0 :: int) \<le> 28" "(28 :: int) \<le> 2022" by simp_all
  obtain q where q: "arp_fields q 1 (my_mac a) MY_IP MY_IP"
    and tx: "\<forall>dev. nic (arp_request dev MY_IP a) = fst (ntx dev (submission a (bytes_at (wire (replicate 6 0xff) ETH_ARP q 28 a) 0 54)) (nic a))"
    by (rule arp_request_sends [OF assms MY_IP_length])
  define F where F: "F = bytes_at (wire (replicate 6 0xff) ETH_ARP q 28 a) 0 (nat (26 + 28))"
  have rx: "\<exists>fr b' G. eth_rx dev out BUFSZ b = (42, fr, b') \<and>
        nic (arp_maybe_reply dev fr 42 b') = fst (ntx dev (submission b' G) (nic b')) \<and>
        (\<forall>dev' (c :: 'f net) spin fr'. delivers dev' G c \<longrightarrow> fst (arp_wait (Suc spin) dev' MY_IP fr' c) = Some (my_mac b))"
    if b: "delivers dev F b" "length (my_mac b) = 6" for dev and b :: "'e net" and out
  proof -
    obtain fr b' where fr: "eth_rx dev out BUFSZ b = (14 + 28, fr, b')" "get16 fr 12 = ETH_ARP" "\<forall>i < nat 28. fr (14 + i) = q i"
      by (rule frame_crosses [OF p assms(2) F b(1)])
    have b': "net_ok b'" "length (my_mac b') = 6" "my_mac b' = my_mac b"
      using eth_rx_keeps [OF fr(1)] b by (simp_all add: delivers_def)
    note r = arp_fields_cong [OF q fr(3)]
    obtain w where w: "arp_fields w 2 (my_mac b') MY_IP (bytes_at fr 28 4)"
      and tx: "nic (arp_maybe_reply dev fr 42 b') = fst (ntx dev (submission b' (bytes_at (wire (bytes_at fr 22 6) ETH_ARP w 28 b') 0 54)) (nic b'))"
      using b'(1,2) fr(2) r(1,4) by (rule arp_reply_sends)
    define G where G: "G = bytes_at (wire (bytes_at fr 22 6) ETH_ARP w 28 b') 0 (nat (26 + 28))"
    have "fst (arp_wait (Suc spin) dev' MY_IP fr' c) = Some (my_mac b)" if c: "delivers dev' G c" for dev' and c :: "'f net" and spin fr'
    proof -
      obtain fc c' where "eth_rx dev' fr' BUFSZ c = (14 + 28, fc, c')" "get16 fc 12 = ETH_ARP" "\<forall>i < nat 28. fc (14 + i) = w i"
        by (rule frame_crosses [OF p b'(2) G c])
      then show ?thesis using arp_fields_cong [OF w] b'(3) by (simp add: eq4_arr)
    qed
    then show ?thesis using fr(1) tx by (intro exI [of _ fr] exI [of _ b'] exI [of _ G]) (simp add: G)
  qed
  show ?thesis
    using tx rx by (intro exI [of _ F] conjI) (auto simp: F arp_maybe_reply_def eq4_arr)
qed


lemma arp_exchange_witness:
  "\<exists>F fr b' G. nic (arp_request lab_card MY_IP (lab_net [1, 2, 3, 4, 5, 6] [])) =
      fst (ntx lab_card (submission (lab_net [1, 2, 3, 4, 5, 6] ([] :: u8 list)) F) []) \<and>
    eth_rx lab_card (\<lambda>_. 0) BUFSZ (lab_net [9, 8, 7, 6, 5, 4] F) = (42, fr, b') \<and>
    nic (arp_maybe_reply lab_card fr 42 b') = fst (ntx lab_card (submission b' G) (nic b')) \<and>
    fst (arp_wait (Suc 0) lab_card MY_IP (\<lambda>_. 0) (lab_net [1, 2, 3, 4, 5, 6] G)) = Some [9, 8, 7, 6, 5, 4]"
proof -
  let ?s = "lab_net [1, 2, 3, 4, 5, 6] ([] :: u8 list)"
  have mac: "my_mac (lab_net m d) = m" for m and d :: "u8 list" by (simp add: lab_net_def)
  have "net_ok ?s" "length (my_mac ?s) = 6" and nic: "nic ?s = []" by (simp_all add: lab_net_def)
  from arp_exchange [where 'e = "u8 list" and 'f = "u8 list", OF this(1,2), unfolded nic]
  obtain F where tx: "nic (arp_request lab_card MY_IP ?s) = fst (ntx lab_card (submission ?s F) [])"
    and rx: "\<And>(b :: u8 list net) out. delivers lab_card F b \<and> length (my_mac b) = 6 \<longrightarrow>
      (\<exists>fr b' G. eth_rx lab_card out BUFSZ b = (42, fr, b') \<and>
        nic (arp_maybe_reply lab_card fr 42 b') = fst (ntx lab_card (submission b' G) (nic b')) \<and>
        (\<forall>dev' (c :: u8 list net) spin fr'. delivers dev' G c \<longrightarrow> fst (arp_wait (Suc spin) dev' MY_IP fr' c) = Some (my_mac b)))"
    by blast
  have "delivers lab_card F (lab_net [9, 8, 7, 6, 5, 4] F) \<and> length (my_mac (lab_net [9, 8, 7, 6, 5, 4] F)) = 6"
    by (simp add: lab_delivers mac)
  from rx [rule_format, OF this, unfolded mac] show ?thesis using tx lab_delivers by blast
qed

end
