(* ===== verification/Shell.thy ===== *)
theory Shell
  imports Trap "HOL-Library.Sublist"
begin

text \<open>
  \<^verbatim>\<open>src/src/shell.c\<close>: the shell inside the kernel. It collects a line character by character in an array of 128 bytes and
  runs it at the end of the line. It refines an editor on lists.
\<close>

section \<open>Commands\<close>

text \<open>A C string is the list of its bytes before the zero.\<close>

fun str_eq :: "u8 list \<Rightarrow> u8 list \<Rightarrow> bool" where
  "str_eq (a # as) (b # bs) = (if a \<noteq> b then False else str_eq as bs)"
| "str_eq as bs = (as = [] \<and> bs = [])"

fun starts_with :: "u8 list \<Rightarrow> u8 list \<Rightarrow> bool" where
  "starts_with s [] = True"
| "starts_with [] (p # ps) = False"
| "starts_with (c # s) (p # ps) = (if c \<noteq> p then False else starts_with s ps)"

definition prompt :: "('d, 'n, 'u, 'p) machine \<Rightarrow> ('d, 'n, 'u, 'p) machine" where
  "prompt m = say ''hobby> '' m"

definition execute :: "('d, 'n, 'u, 'p) hw \<Rightarrow> u8 list \<Rightarrow> ('d, 'n, 'u, 'p) machine \<Rightarrow> ('d, ('d, 'n, 'u, 'p) machine) io" where
  "execute hw cmd m =
     (if cmd = [] then Inr m
      else if str_eq cmd (bytes_of ''help'') then
        Inr (say ''commands: help, about, uptime, mem, ps, ls, cat <file>, clear, whoami, echo <text>\<newline>'' m)
      else if str_eq cmd (bytes_of ''about'') then
        Inr (say ''kernel-hobby (C / RISC-V) -- a from-scratch learning kernel\<newline>'' m)
      else if str_eq cmd (bytes_of ''uptime'') then
        Inr (say '' sec\<newline>'' (print (dec_bytes (clock_ticks m div 10)) (say ''uptime: '' m)))
      else if str_eq cmd (bytes_of ''clear'') then
        Inr (print (puts_bytes [0x1b, 0x5b, 0x32, 0x4a, 0x1b, 0x5b, 0x48]) m)
      else if str_eq cmd (bytes_of ''whoami'') then
        Inr (say ''a kernel hacker building their own OS\<newline>'' m)
      else if str_eq cmd (bytes_of ''mem'') then
        let pages = kfreecount (kern m) in
        Inr (say '' MB free)\<newline>'' (print (dec_bytes (pages * 4096 div 1024 div 1024)) (say ''  (~'' (print (dec_bytes pages) (say ''free pages: '' m)))))
      else if str_eq cmd (bytes_of ''ps'') then
        let m = say ''threads (preemptively scheduled):\<newline>'' m in Inr (flush (m\<lparr>kern := proc_dump (kern m)\<rparr>))
      else if str_eq cmd (bytes_of ''ls'') then Inr (flush (m\<lparr>files := fs_ls (files m)\<rparr>))
      else if starts_with cmd (bytes_of ''cat '') then
        io_bind (fs_cat (blk hw) (drop 4 cmd) (files m)) (\<lambda>fl. Inr (flush (m\<lparr>files := fl\<rparr>)))
      else if starts_with cmd (bytes_of ''echo '') then Inr (print [10] (print (puts_bytes (drop 5 cmd)) m))
      else Inr (say ''  (try 'help')\<newline>'' (print (puts_bytes cmd) (say ''unknown command: '' m))))"

section \<open>Line editing\<close>

record kshell =
  sh_line :: "u8 list"
  sh_len :: int

definition shell_init :: "('d, 'n, 'u, 'p) machine \<Rightarrow> ('d, 'n, 'u, 'p) machine" where
  "shell_init m = prompt (say ''\<newline>type 'help' for commands.\<newline>'' m)"

definition shell_input :: "('d, 'n, 'u, 'p) hw \<Rightarrow> u8 \<Rightarrow> kshell \<Rightarrow> ('d, 'n, 'u, 'p) machine \<Rightarrow>
    ('d, kshell \<times> ('d, 'n, 'u, 'p) machine) io" where
  "shell_input hw c s m =
     (if c = 13 \<or> c = 10 then
        let m = print [10] m; s = s\<lparr>sh_line := (sh_line s)[nat (sh_len s) := 0]\<rparr> in
        io_bind (execute hw (takeWhile (\<lambda>c. c \<noteq> 0) (sh_line s)) m) (\<lambda>m. Inr (s\<lparr>sh_len := 0\<rparr>, prompt m))
      else if c = 0x7f \<or> c = 0x08 then
        (if sh_len s > 0 then Inr (s\<lparr>sh_len := sh_len s - 1\<rparr>, print (puts_bytes [8, 32, 8]) m) else Inr (s, m))
      else if sh_len s < 128 - 1 then
        Inr (s\<lparr>sh_line := (sh_line s)[nat (sh_len s) := c], sh_len := sh_len s + 1\<rparr>, print [c] m)
      else Inr (s, m))"

fun shell_type :: "('d, 'n, 'u, 'p) hw \<Rightarrow> u8 list \<Rightarrow> kshell \<Rightarrow> ('d, 'n, 'u, 'p) machine \<Rightarrow>
    ('d, kshell \<times> ('d, 'n, 'u, 'p) machine) io" where
  "shell_type hw [] s m = Inr (s, m)"
| "shell_type hw (c # cs) s m = io_bind (shell_input hw c s m) (\<lambda>(s, m). shell_type hw cs s m)"

section \<open>The editor it implements\<close>

definition ked :: "u8 \<Rightarrow> u8 list \<Rightarrow> u8 list" where
  "ked c t = (if c = 0x7f \<or> c = 0x08 then butlast t else if length t < 127 then t @ [c] else t)"

definition kecho :: "u8 \<Rightarrow> u8 list \<Rightarrow> u8 list" where
  "kecho c t = (if c = 0x7f \<or> c = 0x08 then if t = [] then [] else [8, 32, 8] else if length t < 127 then [c] else [])"

fun kedits :: "u8 list \<Rightarrow> u8 list \<Rightarrow> u8 list \<times> u8 list" where
  "kedits [] t = (t, [])"
| "kedits (c # cs) t = (let (t', e) = kedits cs (ked c t) in (t', kecho c t @ e))"

definition sh_ok :: "kshell \<Rightarrow> bool" where
  "sh_ok s \<longleftrightarrow> length (sh_line s) = 128 \<and> 0 \<le> sh_len s \<and> sh_len s \<le> 127"

definition sh_text :: "kshell \<Rightarrow> u8 list" where
  "sh_text s = take (nat (sh_len s)) (sh_line s)"

lemma str_eq_iff: "str_eq a b \<longleftrightarrow> a = b"
  by (induction a b rule: str_eq.induct) auto

lemma starts_with_iff: "starts_with s p \<longleftrightarrow> prefix p s"
  by (induction s p rule: starts_with.induct) auto


lemma shell_input_edits:
  assumes s: "sh_ok s" and c: "c \<noteq> 13" "c \<noteq> 10"
  obtains s' where "shell_input hw c s m = Inr (s', print (kecho c (sh_text s)) m)" "sh_ok s'" "sh_text s' = ked c (sh_text s)"
proof -
  have l: "length (sh_line s) = 128" "0 \<le> sh_len s" "sh_len s \<le> 127" using s by (auto simp: sh_ok_def)
  have e: "sh_text s = [] \<longleftrightarrow> sh_len s \<le> 0" "length (sh_text s) = nat (sh_len s)" using l by (auto simp: sh_text_def)
  consider (del) "c = 0x7f \<or> c = 0x08" "sh_len s > 0" | (none) "c = 0x7f \<or> c = 0x08" "sh_len s = 0"
    | (put) "\<not> (c = 0x7f \<or> c = 0x08)" "sh_len s < 127" | (full) "\<not> (c = 0x7f \<or> c = 0x08)" "sh_len s = 127"
    using l by linarith
  then show ?thesis
  proof cases
    case del
    have "sh_text (s\<lparr>sh_len := sh_len s - 1\<rparr>) = ked c (sh_text s)"
      using del l by (auto simp: sh_text_def ked_def butlast_take nat_diff_distrib)
    then show ?thesis using del c e l by (intro that [of "s\<lparr>sh_len := sh_len s - 1\<rparr>"]) (auto simp: shell_input_def kecho_def sh_ok_def)
  next
    case none
    then show ?thesis using c e s by (intro that [of s]) (auto simp: shell_input_def kecho_def ked_def print_def)
  next
    case put
    let ?s = "s\<lparr>sh_line := (sh_line s)[nat (sh_len s) := c], sh_len := sh_len s + 1\<rparr>"
    have "nat (sh_len s + 1) = Suc (nat (sh_len s))" "nat (sh_len s) < length (sh_line s)" using l put by auto
    then have "sh_text ?s = ked c (sh_text s)"
      using put l by (auto simp: sh_text_def ked_def take_Suc_conv_app_nth)
    then show ?thesis using put c e l by (intro that [of ?s]) (auto simp: shell_input_def kecho_def sh_ok_def)
  next
    case full
    then show ?thesis using c e s by (intro that [of s]) (auto simp: shell_input_def kecho_def ked_def print_def)
  qed
qed

lemma print_print [simp]: "print b (print a m) = print (a @ b) m"
  by (simp add: print_def)

lemma shell_type_edits:
  assumes "sh_ok s" "13 \<notin> set cs" "10 \<notin> set cs"
  obtains s' where "shell_type hw cs s m = Inr (s', print (snd (kedits cs (sh_text s))) m)" "sh_ok s'" "sh_text s' = fst (kedits cs (sh_text s))"
  using assms
proof (induction cs arbitrary: s m thesis)
  case Nil
  then show ?case by (simp add: print_def)
next
  case (Cons c cs)
  have c: "c \<noteq> 13" "c \<noteq> 10" "13 \<notin> set cs" "10 \<notin> set cs" using Cons.prems(3,4) by auto
  obtain s1 where s1: "shell_input hw c s m = Inr (s1, print (kecho c (sh_text s)) m)" "sh_ok s1" "sh_text s1 = ked c (sh_text s)"
    using shell_input_edits [OF Cons.prems(2) c(1,2)] by blast
  obtain s2 where s2: "shell_type hw cs s1 (print (kecho c (sh_text s)) m) = Inr (s2, print (snd (kedits cs (sh_text s1))) (print (kecho c (sh_text s)) m))"
      "sh_ok s2" "sh_text s2 = fst (kedits cs (sh_text s1))"
    using Cons.IH [OF _ s1(2) c(3,4)] by blast
  show ?case using Cons.prems(1) [of s2] s1 s2 by (simp add: case_prod_beta)
qed

text \<open>
  Claim C36. The kernel shell is a line editor over a 128-byte array that it never overruns: for any characters typed before Enter, it runs exactly
  the text the editor on lists gives (each character appended while there is room for 127, each
  backspace removing the last), cut at a zero byte, after echoing exactly what the editor echoes; then it prompts and the line is empty.
\<close>

theorem shell_runs_edited_line:
  assumes "sh_ok s" "13 \<notin> set cs" "10 \<notin> set cs" "c \<in> {10, 13}"
  shows "\<exists>s'. sh_ok s' \<and> sh_text s' = [] \<and>
    shell_type hw (cs @ [c]) s m =
      io_bind (execute hw (takeWhile (\<lambda>c. c \<noteq> 0) (fst (kedits cs (sh_text s)))) (print (snd (kedits cs (sh_text s)) @ [10]) m))
        (\<lambda>m. Inr (s', prompt m))"
proof -
  obtain s1 where s1: "shell_type hw cs s m = Inr (s1, print (snd (kedits cs (sh_text s))) m)" "sh_ok s1" "sh_text s1 = fst (kedits cs (sh_text s))"
    by (rule shell_type_edits [OF assms(1-3)])
  have app: "shell_type hw (as @ bs) s m = io_bind (shell_type hw as s m) (\<lambda>(s, m). shell_type hw bs s m)" for as bs s m
    by (induction as arbitrary: s m) (auto simp: io_bind_def split: sum.splits prod.splits)
  let ?l = "(sh_line s1)[nat (sh_len s1) := 0]"
  let ?s = "s1\<lparr>sh_line := ?l, sh_len := 0\<rparr>"
  have l: "length (sh_line s1) = 128" "0 \<le> sh_len s1" "sh_len s1 \<le> 127" using s1(2) by (auto simp: sh_ok_def)
  have "?l = sh_text s1 @ 0 # drop (Suc (nat (sh_len s1))) (sh_line s1)"
    using l by (simp add: sh_text_def upd_conv_take_nth_drop)
  then have "takeWhile (\<lambda>c. c \<noteq> 0) ?l = takeWhile (\<lambda>c. c \<noteq> 0) (sh_text s1)"
    by (simp add: takeWhile_tail)
  then have "shell_input hw c s1 (print (snd (kedits cs (sh_text s))) m) =
      io_bind (execute hw (takeWhile (\<lambda>c. c \<noteq> 0) (sh_text s1)) (print (snd (kedits cs (sh_text s)) @ [10]) m)) (\<lambda>m. Inr (?s, prompt m))"
    using assms(4) by (auto simp: shell_input_def Let_def)
  moreover have "sh_ok ?s" "sh_text ?s = []" using l by (simp_all add: sh_ok_def sh_text_def)
  ultimately show ?thesis
    unfolding app s1(1) by (intro exI [of _ ?s]) (auto simp: s1(3) io_bind_def split: sum.splits)
qed

theorem shell_runs_edited_line_witness:
  "\<forall>hw (m :: (unit, unit, unit, unit) machine). \<exists>s'. sh_text s' = [] \<and> shell_type hw [104, 105, 8, 13] \<lparr>sh_line = replicate 128 0, sh_len = 0\<rparr> m =
     io_bind (execute hw [104] (print [104, 105, 8, 32, 8, 10] m)) (\<lambda>m. Inr (s', prompt m))"
proof (intro allI)
  fix hw and m :: "(unit, unit, unit, unit) machine"
  let ?s = "\<lparr>sh_line = replicate 128 0, sh_len = 0\<rparr>"
  have "sh_ok ?s" by (simp add: sh_ok_def)
  moreover have "sh_text ?s = []" by (simp add: sh_text_def)
  ultimately show "\<exists>s'. sh_text s' = [] \<and> shell_type hw [104, 105, 8, 13] ?s m =
     io_bind (execute hw [104] (print [104, 105, 8, 32, 8, 10] m)) (\<lambda>m. Inr (s', prompt m))"
    using shell_runs_edited_line [of ?s "[104, 105, 8]" 13 hw m] by (auto simp: ked_def kecho_def simp del: replicate.simps)
qed

end
