(* ===== verification/UserProgs.thy ===== *)
theory UserProgs
  imports Shell
begin

text \<open>
  The command interpreter of the user shell \<^verbatim>\<open>src/user/init.c\<close>, as a function from the line read to the system calls it makes.
\<close>

section \<open>The user shell\<close>

fun streq_u :: "u8 list \<Rightarrow> u8 list \<Rightarrow> bool" where
  "streq_u (a # as) (b # bs) = (if a \<noteq> b then False else streq_u as bs)"
| "streq_u as bs = (as = [] \<and> bs = [])"

fun startswith :: "u8 list \<Rightarrow> u8 list \<Rightarrow> bool" where
  "startswith s [] = True"
| "startswith [] (p # ps) = False"
| "startswith (c # s) (p # ps) = (if c \<noteq> p then False else startswith s ps)"

text \<open>What one round of the loop does with a line: nothing, a built-in, or fork, exec and wait.\<close>

datatype action = Again | Help | Rm "u8 list" | Ls | Mem | Tcp | Cat "u8 list" | Create "u8 list" "u8 list" | Spawn "u8 list"

text \<open>
  \<open>inp\<close> is the array of 128 bytes after \<^verbatim>\<open>sys_read\<close> has returned \<open>n\<close>; the newline, or the byte after the
  last, becomes the terminating zero.
\<close>

definition terminate :: "u8 list \<Rightarrow> int \<Rightarrow> u8 list" where
  "terminate inp n = takeWhile (\<lambda>c. c \<noteq> 0) (if inp ! nat (n - 1) = 10 then inp[nat (n - 1) := 0] else inp[nat n := 0])"

text \<open>The loop that looks for the blank after the file name, then the split.\<close>

definition split_write :: "u8 list \<Rightarrow> u8 list \<times> u8 list" where
  "split_write arg =
     (let nm = takeWhile (\<lambda>c. c \<noteq> 0x20) arg in
      case drop (length nm) arg of (_ # text) \<Rightarrow> (nm, text) | [] \<Rightarrow> (arg, []))"

definition shell_line :: "u8 list \<Rightarrow> int \<Rightarrow> action" where
  "shell_line inp n =
     (if n \<le> 0 then Again
      else
        let s = terminate inp n in
        if s = [] then Again
        else if streq_u s (bytes_of ''help'') then Help
        else if startswith s (bytes_of ''rm '') then Rm (drop 3 s)
        else if streq_u s (bytes_of ''ls'') then Ls
        else if streq_u s (bytes_of ''mem'') then Mem
        else if streq_u s (bytes_of ''tcp'') then Tcp
        else if startswith s (bytes_of ''cat '') then Cat (drop 4 s)
        else if startswith s (bytes_of ''write '') then (case split_write (drop 6 s) of (nm, text) \<Rightarrow> Create nm text)
        else Spawn s)"

lemma streq_u_iff: "streq_u a b \<longleftrightarrow> a = b"
  by (induction a b rule: streq_u.induct) auto

lemma startswith_iff: "startswith s p \<longleftrightarrow> prefix p s"
  by (induction s p rule: startswith.induct) auto

text \<open>The text of a command and the line a user types for it.\<close>

fun command :: "action \<Rightarrow> u8 list" where
  "command Again = []"
| "command Help = bytes_of ''help''"
| "command (Rm f) = bytes_of ''rm '' @ f"
| "command Ls = bytes_of ''ls''"
| "command Mem = bytes_of ''mem''"
| "command Tcp = bytes_of ''tcp''"
| "command (Cat f) = bytes_of ''cat '' @ f"
| "command (Create f t) = bytes_of ''write '' @ f @ 0x20 # t"
| "command (Spawn p) = p"

text \<open>Actions a command line can name: no zero, no newline, a blank only where one is meant.\<close>

fun plain :: "action \<Rightarrow> bool" where
  "plain (Create f t) = (0x20 \<notin> set f)"
| "plain (Spawn p) = (p \<noteq> [] \<and> p \<notin> {bytes_of ''help'', bytes_of ''ls'', bytes_of ''mem'', bytes_of ''tcp''} \<and>
     \<not> prefix (bytes_of ''rm '') p \<and> \<not> prefix (bytes_of ''cat '') p \<and> \<not> prefix (bytes_of ''write '') p)"
| "plain _ = True"

lemma terminate_line:
  assumes "0 \<notin> set t" "10 \<notin> set t" "length t < 127" "take (Suc (length t)) inp = t @ [10]" "length inp = 128"
  shows "terminate inp (int (Suc (length t))) = t"
proof -
  have l: "inp = t @ 10 # drop (Suc (length t)) inp" using assms(4) by (metis append_take_drop_id append.assoc append_Cons append_Nil)
  then have "inp ! length t = 10" by (metis nth_append_length)
  moreover have "inp[length t := 0] = t @ 0 # drop (Suc (length t)) inp" using l by (metis list_update_length)
  moreover have "takeWhile (\<lambda>c. c \<noteq> 0) (t @ 0 # r) = t" for r using assms(1) by (auto simp: takeWhile_tail)
  ultimately show ?thesis by (simp add: terminate_def)
qed

text \<open>
  Claim C37. The user shell understands what is typed: for every action, the line that spells it, ended by
  a newline, makes the shell do exactly that action with exactly those arguments; \<^verbatim>\<open>write\<close> splits at the first blank, and any
  other text that is no built-in is run as a program.
\<close>

theorem shell_line_roundtrip:
  assumes "plain a" "t = command a" "0 \<notin> set t" "10 \<notin> set t" "length t < 127" "length inp = 128" "take (Suc (length t)) inp = t @ [10]"
  shows "shell_line inp (int (Suc (length t))) = a"
proof -
  have t: "terminate inp (int (Suc (length t))) = t" by (rule terminate_line [OF assms(3-5,7,6)])
  have D: "shell_line inp (int (Suc (length t))) = (if t = [] then Again else if t = bytes_of ''help'' then Help
      else if prefix (bytes_of ''rm '') t then Rm (drop 3 t) else if t = bytes_of ''ls'' then Ls else if t = bytes_of ''mem'' then Mem
      else if t = bytes_of ''tcp'' then Tcp else if prefix (bytes_of ''cat '') t then Cat (drop 4 t)
      else if prefix (bytes_of ''write '') t then (case split_write (drop 6 t) of (nm, x) \<Rightarrow> Create nm x) else Spawn t)"
    unfolding shell_line_def Let_def t streq_u_iff startswith_iff by simp
  show ?thesis
  proof (cases a)
    case (Create f x)
    then have "takeWhile (\<lambda>c. c \<noteq> 0x20) f = f" using assms(1) by (auto simp: takeWhile_eq_all_conv)
    then have s: "split_write (f @ 0x20 # x) = (f, x)" by (simp add: split_write_def takeWhile_tail)
    then show ?thesis using assms(2) Create unfolding D by (simp add: bytes_of_def)
  next
    case (Spawn p)
    then show ?thesis using assms(1,2) unfolding D by (auto simp: bytes_of_def)
  qed (unfold D, simp_all add: assms(2) bytes_of_def)
qed

theorem shell_line_roundtrip_witness:
  "shell_line (bytes_of ''write a hi'' @ [10] @ replicate 117 0) 11 = Create (bytes_of ''a'') (bytes_of ''hi'')"
proof -
  let ?t = "bytes_of ''write a hi''"
  have "shell_line (?t @ [10] @ replicate 117 0) (int (Suc (length ?t))) = Create (bytes_of ''a'') (bytes_of ''hi'')"
    by (rule shell_line_roundtrip [where t = ?t]) (simp_all add: bytes_of_def del: replicate.simps)
  then show ?thesis by (simp add: bytes_of_def del: replicate.simps)
qed

end
