(* ===== verification/UserCode.thy ===== *)
theory UserCode
  imports UserProgs
begin

text \<open>
  The programs under \<^verbatim>\<open>src/user\<close> as sequences of what the kernel can see of them: system calls through the stubs of
  \<^verbatim>\<open>usys.h\<close>, and the loads and stores to their heap, to mapped files and to the line buffer. Computation in registers is the HOL
  function between two such events. String literals lie in the program's own read-only page and are constants
  here; where a program passes the address of one to the kernel, that address is an argument of the program.
\<close>

section \<open>Programs and system calls\<close>

text \<open>
  A system call has its number in \<^verbatim>\<open>a7\<close>, an argument in \<^verbatim>\<open>a0\<close>, perhaps a second one in \<^verbatim>\<open>a1\<close>; the program goes on with the
  value it finds in \<^verbatim>\<open>a0\<close>. \<open>Stop\<close> is the end of what is considered.
\<close>

datatype uprog = Ecall u64 u64 "u64 option" "u64 \<Rightarrow> uprog" | Load u64 "u8 \<Rightarrow> uprog" | Store u64 u8 uprog | Stop

definition usyscall :: "u64 \<Rightarrow> u64 \<Rightarrow> (u64 \<Rightarrow> uprog) \<Rightarrow> uprog" where
  "usyscall num arg0 k = Ecall num arg0 None k"

definition usyscall2 :: "u64 \<Rightarrow> u64 \<Rightarrow> u64 \<Rightarrow> (u64 \<Rightarrow> uprog) \<Rightarrow> uprog" where
  "usyscall2 num arg0 arg1 k = Ecall num arg0 (Some arg1) k"

text \<open>The numbers are defined a second time for user programs; \<open>call_numbers_agree\<close> below compares them with the kernel's.\<close>

definition USYS_putchar :: u64 where "USYS_putchar = 1"
definition USYS_print :: u64 where "USYS_print = 2"
definition USYS_tick :: u64 where "USYS_tick = 3"
definition USYS_exit :: u64 where "USYS_exit = 4"
definition USYS_fork :: u64 where "USYS_fork = 5"
definition USYS_exec :: u64 where "USYS_exec = 6"
definition USYS_read :: u64 where "USYS_read = 7"
definition USYS_wait :: u64 where "USYS_wait = 8"
definition USYS_ls :: u64 where "USYS_ls = 9"
definition USYS_cat :: u64 where "USYS_cat = 10"
definition USYS_mem :: u64 where "USYS_mem = 11"
definition USYS_sbrk :: u64 where "USYS_sbrk = 12"
definition USYS_mmap :: u64 where "USYS_mmap = 13"
definition USYS_create :: u64 where "USYS_create = 14"
definition USYS_rm :: u64 where "USYS_rm = 15"
definition USYS_tcp :: u64 where "USYS_tcp = 16"

lemmas USYS_defs = USYS_putchar_def USYS_print_def USYS_tick_def USYS_exit_def USYS_fork_def USYS_exec_def USYS_read_def USYS_wait_def
  USYS_ls_def USYS_cat_def USYS_mem_def USYS_sbrk_def USYS_mmap_def USYS_create_def USYS_rm_def USYS_tcp_def

definition usys_fork :: "(u64 \<Rightarrow> uprog) \<Rightarrow> uprog" where "usys_fork k = usyscall USYS_fork 0 k"
definition usys_exec :: "u64 \<Rightarrow> (u64 \<Rightarrow> uprog) \<Rightarrow> uprog" where "usys_exec p k = usyscall USYS_exec p k"
definition usys_read :: "u64 \<Rightarrow> u64 \<Rightarrow> (u64 \<Rightarrow> uprog) \<Rightarrow> uprog" where "usys_read buf n k = usyscall2 USYS_read buf n k"
definition usys_wait :: "(u64 \<Rightarrow> uprog) \<Rightarrow> uprog" where "usys_wait k = usyscall USYS_wait 0 k"
definition usys_ls :: "uprog \<Rightarrow> uprog" where "usys_ls p = usyscall USYS_ls 0 (\<lambda>_. p)"
definition usys_cat :: "u64 \<Rightarrow> uprog \<Rightarrow> uprog" where "usys_cat f p = usyscall USYS_cat f (\<lambda>_. p)"
definition usys_mem :: "uprog \<Rightarrow> uprog" where "usys_mem p = usyscall USYS_mem 0 (\<lambda>_. p)"
definition usys_sbrk :: "u64 \<Rightarrow> (u64 \<Rightarrow> uprog) \<Rightarrow> uprog" where "usys_sbrk n k = usyscall USYS_sbrk n k"
definition usys_mmap :: "u64 \<Rightarrow> (u64 \<Rightarrow> uprog) \<Rightarrow> uprog" where "usys_mmap p k = usyscall USYS_mmap p k"
definition usys_create :: "u64 \<Rightarrow> u64 \<Rightarrow> (u64 \<Rightarrow> uprog) \<Rightarrow> uprog" where "usys_create nm data k = usyscall2 USYS_create nm data k"
definition usys_rm :: "u64 \<Rightarrow> (u64 \<Rightarrow> uprog) \<Rightarrow> uprog" where "usys_rm nm k = usyscall USYS_rm nm k"
definition usys_tcp :: "uprog \<Rightarrow> uprog" where "usys_tcp p = usyscall USYS_tcp 0 (\<lambda>_. p)"
definition usys_print :: "u64 \<Rightarrow> uprog \<Rightarrow> uprog" where "usys_print who p = usyscall USYS_print who (\<lambda>_. p)"
definition usys_tick :: "uprog \<Rightarrow> uprog" where "usys_tick p = usyscall USYS_tick 0 (\<lambda>_. p)"
definition usys_exit :: "uprog \<Rightarrow> uprog" where "usys_exit p = usyscall USYS_exit 0 (\<lambda>_. p)"
definition usys_putchar :: "u64 \<Rightarrow> uprog \<Rightarrow> uprog" where "usys_putchar c p = usyscall USYS_putchar c (\<lambda>_. p)"

lemmas usys_defs = usyscall_def usyscall2_def usys_fork_def usys_exec_def usys_read_def usys_wait_def usys_ls_def usys_cat_def usys_mem_def
  usys_sbrk_def usys_mmap_def usys_create_def usys_rm_def usys_tcp_def usys_print_def usys_tick_def usys_exit_def usys_putchar_def

lemma call_numbers_agree:
  "USYS_putchar = SYS_putchar" "USYS_print = SYS_print" "USYS_tick = SYS_tick" "USYS_exit = SYS_exit" "USYS_fork = SYS_fork" "USYS_exec = SYS_exec"
  "USYS_read = SYS_read" "USYS_wait = SYS_wait" "USYS_ls = SYS_ls" "USYS_cat = SYS_cat" "USYS_mem = SYS_mem" "USYS_sbrk = SYS_sbrk"
  "USYS_mmap = SYS_mmap" "USYS_create = SYS_create" "USYS_rm = SYS_rm" "USYS_tcp = SYS_tcp"
  by (simp_all add: USYS_defs SYS_defs)

text \<open>\<^verbatim>\<open>puts\<close>, the same in every program: the bytes before the terminating zero, one call each.\<close>

fun uputs :: "u8 list \<Rightarrow> uprog \<Rightarrow> uprog" where
  "uputs [] p = p"
| "uputs (c # s) p = usys_putchar (ucast c) (uputs s p)"

abbreviation usay :: "string \<Rightarrow> uprog \<Rightarrow> uprog" where
  "usay t \<equiv> uputs (bytes_of t)"

section \<open>The test programs\<close>

definition hello_start :: uprog where
  "hello_start = uputs (bytes_of ''  [hello] I am a separate program, exec'' @ [0x27] @ bytes_of ''d from disk!\<newline>'') (usys_exit Stop)"

definition lazytest_start :: uprog where
  "lazytest_start =
     usay ''lazytest: sbrk(8192) -- grow heap by 2 pages\<newline>'' (
     usys_sbrk 8192 (\<lambda>p.
     usay ''touching page 0 and page 1 (each triggers a page fault)...\<newline>'' (
     Store p 42 (
     Store (p + 4096) 99 (
     usay ''read back: '' (
     let fin = (\<lambda>c. usys_putchar c (usys_putchar 0x4b (usys_putchar 10 (usys_exit Stop)))) in
     Load p (\<lambda>a. if a = 42 then Load (p + 4096) (\<lambda>b. fin (if b = 99 then 0x4f else 0x58)) else fin 0x58)))))))"

text \<open>\<open>lit\<close> is the address of the string \<^verbatim>\<open>motd.txt\<close> in the program's page.\<close>

fun mmap_loop :: "nat \<Rightarrow> u64 \<Rightarrow> uprog \<Rightarrow> uprog" where
  "mmap_loop 0 a p = p"
| "mmap_loop (Suc n) a p = Load a (\<lambda>c. if c = 0 then p else Load a (\<lambda>c. usys_putchar (ucast c) (mmap_loop n (a + 1) p)))"

definition mmaptest_start :: "u64 \<Rightarrow> uprog" where
  "mmaptest_start lit =
     uputs (bytes_of ''mmaptest: mmap('' @ [0x22] @ bytes_of ''motd.txt'' @ [0x22] @ bytes_of '')\<newline>'') (
     usys_mmap lit (\<lambda>p.
     let go = usay ''reading the file as memory (no read() -- page faults load it):\<newline>'' (mmap_loop 4096 p (usys_exit Stop)) in
     if sint p < 0 then usay ''mmap failed\<newline>'' (usys_exit go) else go))"

text \<open>A \<^verbatim>\<open>char\<close> is unsigned on this machine.\<close>

definition put2 :: "int \<Rightarrow> uprog \<Rightarrow> uprog" where
  "put2 v p = usys_putchar (of_int (0x30 + v div 10 mod 10)) (usys_putchar (of_int (0x30 + v mod 10)) p)"

definition cowtest_child :: "u64 \<Rightarrow> uprog" where
  "cowtest_child p =
     uputs (bytes_of ''  child: '' @ [0xea, 0xb3, 0xb5, 0xec, 0x9c, 0xa0, 0xeb, 0x90, 0x9c] @ bytes_of '' p[0]='') (
     Load p (\<lambda>c. put2 (uint c) (
     Store p 99 (
     uputs (bytes_of '' -> 99 '' @ [0xea, 0xb8, 0xb0, 0xeb, 0xa1, 0x9d] @ bytes_of '' '' @ [0xed, 0x9b, 0x84] @ bytes_of '' p[0]='') (
     Load p (\<lambda>c. put2 (uint c) (usys_putchar 10 (usys_exit Stop))))))))"

definition cowtest_parent :: "u64 \<Rightarrow> uprog" where
  "cowtest_parent p =
     usys_wait (\<lambda>_.
     usay ''  parent: p[0]='' (
     Load p (\<lambda>c. put2 (uint c) (
     uputs (bytes_of '' (42'' @ [0xec, 0x97, 0xac, 0xec, 0x95, 0xbc] @ bytes_of '' '' @ [0xea, 0xb2, 0xa9, 0xeb, 0xa6, 0xac] @ bytes_of '' '' @
       [0xec, 0x84, 0xb1, 0xea, 0xb3, 0xb5] @ bytes_of '')\<newline>'') (usys_exit Stop)))))"

definition cowtest_start :: uprog where
  "cowtest_start =
     uputs (bytes_of ''cowtest: heap'' @ [0xec, 0x97, 0x90] @ bytes_of '' 42'' @ [0xeb, 0xa5, 0xbc] @ bytes_of '' '' @
       [0xec, 0x93, 0xb0, 0xea, 0xb3, 0xa0] @ bytes_of '' fork\<newline>'') (
     usys_sbrk 4096 (\<lambda>p.
     Store p 42 (
     usys_fork (\<lambda>pid. if pid = 0 then cowtest_child p else cowtest_parent p))))"

section \<open>The user shell\<close>

text \<open>
  The shell keeps its line in an array of 128 bytes on its stack, at address \<open>la\<close>. The commands with an argument hand the
  kernel a pointer into that array.
\<close>

fun load_bytes :: "nat \<Rightarrow> u64 \<Rightarrow> (u8 list \<Rightarrow> uprog) \<Rightarrow> uprog" where
  "load_bytes 0 a k = k []"
| "load_bytes (Suc n) a k = Load a (\<lambda>c. load_bytes n (a + 1) (\<lambda>cs. k (c # cs)))"

definition shell_write :: "u64 \<Rightarrow> u8 list \<Rightarrow> uprog \<Rightarrow> uprog" where
  "shell_write la s next1 =
     (let arg = drop 6 s; n = length (takeWhile (\<lambda>c. c \<noteq> 0x20) arg); sp = la + 6 + of_nat n;
          create = (\<lambda>sp. usys_create (la + 6) sp (\<lambda>r. if r \<noteq> 0 then usay ''write: failed (exists? full?)\<newline>'' next1 else next1))
      in if n < length arg then Store sp 0 (create (sp + 1)) else create sp)"

definition shell_spawn :: "u64 \<Rightarrow> u8 list \<Rightarrow> uprog \<Rightarrow> uprog" where
  "shell_spawn la s next1 =
     usys_fork (\<lambda>pid.
       let go = usys_wait (\<lambda>_. next1)
       in if pid = 0 then usys_exec la (\<lambda>_. uputs s (usay '': command not found\<newline>'' (usys_exit go))) else go)"

definition shell_do :: "u64 \<Rightarrow> u8 list \<Rightarrow> action \<Rightarrow> uprog \<Rightarrow> uprog" where
  "shell_do la s act next1 =
     (case act of
        Again \<Rightarrow> next1
      | Help \<Rightarrow> usay ''builtins: ls, cat <file>, write <file> <text>, rm <file>, mem, help.  others = disk programs.\<newline>'' next1
      | Rm _ \<Rightarrow> usys_rm (la + 3) (\<lambda>r. if r \<noteq> 0 then usay ''rm: no such file\<newline>'' next1 else next1)
      | Ls \<Rightarrow> usys_ls next1
      | Mem \<Rightarrow> usys_mem next1
      | Tcp \<Rightarrow> usys_tcp next1
      | Cat _ \<Rightarrow> usys_cat (la + 4) next1
      | Create _ _ \<Rightarrow> shell_write la s next1
      | Spawn _ \<Rightarrow> shell_spawn la s next1)"

definition shell_round :: "u64 \<Rightarrow> uprog \<Rightarrow> uprog" where
  "shell_round la next1 =
     usay ''$ '' (
     usys_read la 127 (\<lambda>r.
       let n = sint r in
       if n \<le> 0 then next1
       else load_bytes 128 la (\<lambda>inp.
         Store (la + of_int (if inp ! nat (n - 1) = 10 then n - 1 else n)) 0 (shell_do la (terminate inp n) (shell_line inp n) next1))))"

text \<open>The first \<open>n\<close> rounds of the endless loop.\<close>

fun shell_rounds :: "nat \<Rightarrow> u64 \<Rightarrow> uprog" where
  "shell_rounds 0 la = Stop"
| "shell_rounds (Suc n) la = shell_round la (shell_rounds n la)"

definition init_start :: "nat \<Rightarrow> u64 \<Rightarrow> uprog" where
  "init_start n la = usay ''\<newline>kernel-hobby userspace shell. try: ls, cat motd.txt, hello\<newline>'' (shell_rounds n la)"

end
