(* ===== verification/Mmap.thy ===== *)
theory Mmap
  imports PageFault FsThms
begin

text \<open>
  Files mapped into memory (\<^verbatim>\<open>fs_read_page\<close> in \<^verbatim>\<open>src/src/fs.c\<close>, the second half of \<^verbatim>\<open>proc_pagefault\<close> in
  \<^verbatim>\<open>src/src/proc.c\<close>): a page fault in the mapped range brings in the page of the file, and the process reads
  the file's bytes as memory.
\<close>

section \<open>One page of a file\<close>

text \<open>What is left of a page at position \<open>d\<close>, and the part of it that the next block fills.\<close>

lemma page_rest:
  fixes sz off d :: nat
  assumes "512 dvd d" "d < 4096" "R = min (4096 - d) (sz - (off + d))"
  shows "min 512 (sz - (off + d)) = min 512 R" "min (4096 - (d + 512)) (sz - (off + (d + 512))) = R - min 512 R"
    "R - min 512 R = 0 \<or> min 512 R = 512"
proof -
  obtain q where "d = 512 * q" using assms(1) by blast
  then have "d + 512 \<le> 4096" using assms(2) by simp
  then show "min 512 (sz - (off + d)) = min 512 R" "min (4096 - (d + 512)) (sz - (off + (d + 512))) = R - min 512 R"
    "R - min 512 R = 0 \<or> min 512 R = 512"
    using assms(3) by (auto simp: min_def)
qed

lemma page_glue:
  fixes c :: "nat \<Rightarrow> u8 list"
  assumes N: "N = min 512 R" and last: "R - N = 0 \<or> N = 512"
  shows "(\<lambda>k. if d + 512 \<le> k \<and> k < d + 512 + (R - N) then c (Suc b + (k - (d + 512)) div 512) ! ((k - (d + 512)) mod 512)
      else if d \<le> k \<and> k < d + N then c b ! (k - d) else buf k) =
    (\<lambda>k. if d \<le> k \<and> k < d + R then c (b + (k - d) div 512) ! ((k - d) mod 512) else buf k)" (is "?f = ?g")
proof -
  have "?f = (\<lambda>k. if d + N \<le> k \<and> k < d + N + (R - N) then c (Suc b + (k - (d + N)) div 512) ! ((k - (d + N)) mod 512)
      else if d \<le> k \<and> k < d + N then c b ! (k - d) else buf k)"
    using last by (elim disjE) (auto simp only: fun_eq_iff add_0_right not_le [symmetric] split: if_splits)
  also have "\<dots> = ?g" by (rule blocks_glue [OF N])
  finally show ?thesis .
qed

text \<open>The bytes of a file that fall into the page at \<open>off\<close>, zeros behind its end.\<close>

definition file_page :: "u8 list \<Rightarrow> nat \<Rightarrow> nat \<Rightarrow> u8" where
  "file_page data off k = (if off + k < length data then data ! (off + k) else 0)"

context blk_device
begin

lemma page_blocks_ok:
  assumes "vdisk_ok (disk s)" "512 dvd unat done1" "unat done1 \<le> 4096" "unat offset + 4096 < 2 ^ 32"
    "R = min (4096 - unat done1) (unat sz - (unat offset + unat done1))"
    "unat b + (R + 511) div 512 \<le> cap" "unat b + (R + 511) div 512 < 2 ^ 32"
  shows "io_post (\<lambda>d. dies \<and> content d = img content s)
    (\<lambda>(buf', s'). same_disk content s s' \<and> out s' = out s \<and> buf' = (\<lambda>k. if unat done1 \<le> k \<and> k < unat done1 + R
        then img content s (unat b + (k - unat done1) div 512) ! ((k - unat done1) mod 512) else buf k))
    (page_blocks dev b sz offset done1 buf s)"
  using assms
proof (induction "4096 - unat done1" arbitrary: b done1 buf s R rule: less_induct)
  case less
  have o: "unat (offset + done1) = unat offset + unat done1" using less.prems(3,4) by (simp add: unat_word_ariths)
  have go: "done1 < 4096 \<and> offset + done1 < sz \<longleftrightarrow> 0 < R" using less.prems(5) by (auto simp: word_less_nat_alt o)
  show ?case
  proof (cases "0 < R")
    case False
    then have "page_blocks dev b sz offset done1 buf s = Inr (buf, s)" unfolding page_blocks.simps [of _ b] go by simp
    with False less.prems(1) show ?thesis by (auto simp: same_disk_def fun_eq_iff)
  next
    case True
    then have d: "unat done1 < 4096" "done1 < 4096" using go by (auto simp: word_less_nat_alt)
    note r = page_rest [OF less.prems(2) d(1) less.prems(5)]
    define n where "n = (if sz - (offset + done1) > of_nat BSIZE then of_nat BSIZE else sz - (offset + done1))"
    have le: "offset + done1 \<le> sz" using go True by (simp add: less_imp_le)
    have n: "unat n = min 512 R" unfolding n_def min_block using r(1) le by (simp add: unat_sub word_le_nat_alt o)
    have q: "(R + 511) div 512 = Suc ((R - min 512 R + 511) div 512)"
      using True by (cases "R \<le> 512") (auto simp: div_add_self2 [symmetric] min_def)
    have b1: "unat (b + 1) = Suc (unat b)" using less.prems(7) q by (simp add: unat_word_ariths)
    note d1 = page_step [OF d(2)]
    show ?thesis
      unfolding page_blocks.simps [of _ b] go using True
    proof (simp add: Let_def flip: n_def, intro io_post_bind [OF io_read_same])
      show "vdisk_ok (disk s)" "unat b < cap" using less.prems(1,6) q by auto
    next
      fix s1 assume s1: "same_disk content s s1 \<and> fsbuf s1 = img content s (unat b) \<and> out s1 = out s"
      let ?buf = "fold (\<lambda>j m. m(unat (done1 + of_nat j) := fsbuf s1 ! j)) [0..<unat n] buf"
      let ?R = "R - min 512 R"
      have IH: "io_post (\<lambda>d. dies \<and> content d = img content s1)
        (\<lambda>(buf', s'). same_disk content s1 s' \<and> out s' = out s1 \<and> buf' = (\<lambda>k. if unat (done1 + of_nat BSIZE) \<le> k \<and> k < unat (done1 + of_nat BSIZE) + ?R
            then img content s1 (unat (b + 1) + (k - unat (done1 + of_nat BSIZE)) div 512) ! ((k - unat (done1 + of_nat BSIZE)) mod 512)
            else ?buf k)) (page_blocks dev (b + 1) sz offset (done1 + of_nat BSIZE) ?buf s1)"
      proof (rule less.hyps)
        show "unat (done1 + of_nat BSIZE) \<le> 4096" "512 dvd unat (done1 + of_nat BSIZE)"
          using less.prems(2) d(1) unfolding d1 by (auto elim!: dvdE)
        show "4096 - unat (done1 + of_nat BSIZE) < 4096 - unat done1" using d(1) by (simp add: d1)
        show "vdisk_ok (disk s1)" using s1 by (simp add: same_disk_def)
        show "unat offset + 4096 < 2 ^ 32" by (rule less.prems(4))
        show "?R = min (4096 - unat (done1 + of_nat BSIZE)) (unat sz - (unat offset + unat (done1 + of_nat BSIZE)))" unfolding d1 using r(2) by simp
        show "unat (b + 1) + (?R + 511) div 512 \<le> cap" "unat (b + 1) + (?R + 511) div 512 < 2 ^ 32"
          using less.prems(6,7) unfolding b1 q by simp_all
      qed
      have buf: "?buf = (\<lambda>k. if unat done1 \<le> k \<and> k < unat done1 + min 512 R then img content s (unat b) ! (k - unat done1) else buf k)"
        using s1 d(1) by (subst fold_upd_word) (auto simp: n)
      have i1: "img content s1 = img content s" using s1 by (simp add: same_disk_def)
      have full: "(\<lambda>k. if unat (done1 + of_nat BSIZE) \<le> k \<and> k < unat (done1 + of_nat BSIZE) + ?R
            then img content s1 (unat (b + 1) + (k - unat (done1 + of_nat BSIZE)) div 512) ! ((k - unat (done1 + of_nat BSIZE)) mod 512)
            else ?buf k) = (\<lambda>k. if unat done1 \<le> k \<and> k < unat done1 + R
          then img content s (unat b + (k - unat done1) div 512) ! ((k - unat done1) mod 512) else buf k)"
        unfolding d1 b1 i1 buf by (rule page_glue [OF refl r(3)])
      show "io_post (\<lambda>d. dies \<and> content d = img content s)
        (\<lambda>(buf', s'). same_disk content s s' \<and> out s' = out s \<and> buf' = (\<lambda>k. if unat done1 \<le> k \<and> k < unat done1 + R
          then img content s (unat b + (k - unat done1) div 512) ! ((k - unat done1) mod 512) else buf k))
        (page_blocks dev (b + 1) sz offset (done1 + of_nat BSIZE) ?buf s1)"
        by (rule io_post_mono [OF IH [unfolded full]]) (use s1 i1 in \<open>auto intro: same_disk_trans\<close>)
    qed
  qed
qed

lemma fs_stat_data:
  assumes s: "fs_ok content cap s" and st: "fs_stat nm s = Some (b, sz)"
  obtains e where "e \<in> set (live s)" "start e = b" "fsize e = sz" "fs_files content s (cstr nm) = Some (file_data (img content s) e)"
proof -
  have m: "mem_ok cap s" "mounted s" "sorted_wrt apart (live s)" using s by (auto simp: fs_ok_def mem_ok_def layout_ok_def)
  obtain i where i: "lookup s nm = Some i" "start (dir s ! i) = b" "fsize (dir s ! i) = sz" using st m(2) by (auto simp: fs_stat_def)
  note l = lookup_Some [OF m(1) i(1)]
  show ?thesis
    by (rule that [of "live s ! i"]) (use l i(2,3) files_of_nth [OF m(3) l(1)] in \<open>simp_all add: fs_files_def\<close>)
qed

lemma fs_read_page_ok:
  assumes s: "fs_ok content cap s" and st: "fs_stat nm s = Some (b, sz)" and data: "fs_files content s (cstr nm) = Some data"
    and off: "512 dvd unat offset" "unat offset < unat sz"
  shows "io_post (\<lambda>d. dies \<and> content d = img content s)
    (\<lambda>(buf', s'). same_disk content s s' \<and> out s' = out s \<and> (\<forall>k < 4096. buf' k = file_page data (unat offset) k) \<and> (\<forall>k \<ge> 4096. buf' k = buf k))
    (fs_read_page dev b sz offset buf s)"
proof -
  obtain e where e: "e \<in> set (live s)" "start e = b" "fsize e = sz" "fs_files content s (cstr nm) = Some (file_data (img content s) e)"
    by (rule fs_stat_data [OF s st])
  note B = entry_blocks [OF s e(1), unfolded e(2,3)]
  obtain q where q: "unat offset = 512 * q" using off(1) by blast
  define R where "R = min 4096 (unat sz - unat offset)"
  have dv: "unat (offset div of_nat BSIZE) = q" using q by (simp add: BSIZE_def unat_div)
  have R: "q + (R + 511) div 512 \<le> (unat sz + 511) div 512"
  proof -
    have "q + (R + 511) div 512 = (R + 511 + 512 * q) div 512" by simp
    also have "\<dots> \<le> (unat sz + 511) div 512" using off(2) by (intro div_le_mono) (simp add: R_def q)
    finally show ?thesis .
  qed
  have b: "unat (b + offset div of_nat BSIZE) = unat b + q" using B(3) R dv by (simp add: unat_word_ariths)
  have d1: "data = file_data (img content s) e" using data e(4) by simp
  have d2: "length data = unat sz" unfolding d1 using e(3) by (simp add: file_data_def)
  have ok: "io_post (\<lambda>d. dies \<and> content d = img content s)
    (\<lambda>(buf', s'). same_disk content s s' \<and> out s' = out s \<and> buf' = (\<lambda>k. if unat (0 :: u32) \<le> k \<and> k < unat (0 :: u32) + R
        then img content s (unat (b + offset div of_nat BSIZE) + (k - unat (0 :: u32)) div 512) ! ((k - unat (0 :: u32)) mod 512)
        else (fold (\<lambda>i m. m(i := 0)) [0..<4096] buf) k))
    (fs_read_page dev b sz offset buf s)"
    unfolding fs_read_page_def by (rule page_blocks_ok) (use s off(2) B R in \<open>auto simp: fs_ok_def b R_def\<close>)
  have z: "fold (\<lambda>i m. m(i := 0)) [0..<4096] buf = (\<lambda>k. if k < 4096 then 0 else buf k)" using fold_upd [of 0 "\<lambda>_. 0" 4096 buf] by simp
  have byte: "img content s (unat b + q + k div 512) ! (k mod 512) = data ! (unat offset + k)" if "k < R" for k
  proof -
    have "512 * q + k < unat sz" using that q by (auto simp: R_def)
    then show ?thesis using e(2,3) by (simp add: d1 file_data_def q add.assoc)
  qed
  show ?thesis
    by (rule io_post_mono [OF ok]) (use byte in \<open>auto simp: b z file_page_def d2 R_def\<close>)
qed

end

section \<open>The fault\<close>

text \<open>An address of the mapped range: how far the file reaches, rounded up to pages.\<close>

lemma mmap_round:
  fixes sz :: u32
  assumes "unat sz < 2 ^ 31"
  shows "unat (ucast (sz + 4096 - 1) AND NOT 0xfff :: u64) = (unat sz + 4095) div 4096 * 4096"
proof -
  have "sz + 4096 - 1 = sz + 4095" by simp
  then have s: "unat (sz + 4096 - 1) = unat sz + 4095" using assms by (simp only:) (simp add: unat_word_ariths)
  have "unat (ucast (sz + 4096 - 1) :: u64) = unat sz + 4095" using s assms by (simp add: unsigned_ucast_eq take_bit_nat_eq_self)
  then show ?thesis using unat_round_down [of "ucast (sz + 4096 - 1)"] by simp
qed

lemma mmap_offset:
  fixes sz :: u32 and a base :: u64
  assumes "unat sz < 2 ^ 31" "take_bit 12 a = 0" "take_bit 12 base = 0" "base \<le> a" "a < base + (ucast (sz + 4096 - 1) AND NOT 0xfff)"
    "unat base < 2 ^ 38"
  shows "unat (ucast (a - base) :: u32) = unat (a - base)" "unat (a - base) < unat sz" "4096 dvd unat (a - base)"
proof -
  let ?e = "ucast (sz + 4096 - 1) AND NOT 0xfff :: u64"
  note e = mmap_round [OF assms(1)]
  have be: "unat (base + ?e) = unat base + unat ?e" using assms(1,6) unfolding unat_word_ariths e by (intro mod_less) simp
  have lt: "unat (a - base) < unat ?e" using assms(4,5) be by (simp add: unat_sub word_less_nat_alt word_le_nat_alt)
  have d: "4096 dvd unat a" "4096 dvd unat base" using assms(2,3) by (simp_all add: aligned_iff_dvd)
  then show dv: "4096 dvd unat (a - base)" using assms(4) by (simp add: unat_sub word_le_nat_alt)
  then obtain q where q: "unat (a - base) = 4096 * q" by blast
  then have "Suc q \<le> (unat sz + 4095) div 4096" using lt e by simp
  then have "Suc q * 4096 \<le> unat sz + 4095" by (subst (asm) less_eq_div_iff_mult_less_eq) simp_all
  then show sz: "unat (a - base) < unat sz" using q by simp
  then show "unat (ucast (a - base) :: u32) = unat (a - base)"
    using assms(1) by (simp add: unsigned_ucast_eq take_bit_nat_eq_self)
qed

abbreviation mmap_note :: string where
  "mmap_note \<equiv> ''[pagefault] mmap loaded a file page at va=''"

lemma put_page:
  assumes "take_bit 12 x = 0"
  shows "put_buffer x 4096 b m = (\<lambda>c. if page_no c = page_no x then b (unat (c - x)) else m c)"
  using aligned_range [OF assms] by (simp add: put_buffer_def fun_eq_iff)

text \<open>
  A fault of a user process in the range of a mapped file, on a page that is not mapped yet. Unless the disk stops,
  \<^verbatim>\<open>proc_pagefault\<close> returns; with three more free pages it reports success, and then the page of the address is mapped to the
  fresh page \<open>x\<close>, for reading only, and \<open>x\<close> holds the bytes of the file at that place, zeros behind its end.
\<close>

context blk_device
begin

lemma mmap_fault_handled:
  fixes s :: "'a kproc_scheme" and f :: "'d fs"
  assumes k: "kmem_ok s (x # xs)" and p: "current_proc hart s = Some i" "is_user (proc_at i s)" "pt = pagetable (proc_at i s)"
    and o: "owned 2 pt s" and n: "\<not> bit (leaf (mem s) 2 pt va) 0"
    and a: "a = va AND NOT 0xfff" "\<not> (HEAPBASE \<le> a \<and> a < heap_top (proc_at i s))"
    and b: "base = mmap_base (proc_at i s)" "0 < base" "take_bit 12 base = 0" "unat base < 2 ^ 38" "base \<le> a" "a < mmap_end (proc_at i s)"
    and f: "fs_ok content cap f" "fs_stat nm f = Some (mmap_start (proc_at i s), mmap_size (proc_at i s))" "fs_files content f (cstr nm) = Some data"
  shows "(\<exists>d. dies \<and> content d = img content f \<and> proc_pagefault dev hart va store f s = Some (Inl d)) \<or>
    (\<exists>g s' f' m. proc_pagefault dev hart va store f s = Some (Inr (g, f', s')) \<and> (2 < length xs \<longrightarrow> g) \<and> same_view s s' \<and>
       same_disk content f f' \<and> out f' = out f \<and> paged pt a x (PTE_R OR PTE_U) mmap_note m xs s g s' \<and>
       (\<forall>c. page_no c = page_no x \<longrightarrow> m c = file_page data (unat (a - base)) (unat (c - x))))"
proof -
  let ?p = "proc_at i s"
  obtain e where "e \<in> set (live f)" "fsize e = mmap_size ?p" by (rule fs_stat_data [OF f(1,2)])
  then have sz: "unat (mmap_size ?p) < 2 ^ 31" using entry_blocks(1) [OF f(1), of e] by simp
  have al: "take_bit 12 a = 0" unfolding a(1) by (rule page_align(1))
  note off = mmap_offset [OF sz al b(3,5) b(6) [unfolded mmap_end_def b(1) [symmetric]] b(4)]
  have x: "ram_page x" using k by (simp add: kmem_ok_def)
  have na: "\<not> bit (leaf (mem s) 2 pt a) 0" using n leaf_vpn [of a va] page_align(2) [of va] a(1) by simp
  have top: "unat a + 4096 \<le> 2 ^ 39"
  proof -
    have "unat a = unat base + unat (a - base)" using b(5) by (simp add: unat_sub word_le_nat_alt)
    then show ?thesis using off(2) sz b(4) by simp
  qed
  note rd = fs_read_page_ok [OF f, of "ucast (a - base)" "buffer (mem s) x", unfolded off(1)]
  have rd: "io_post (\<lambda>d. dies \<and> content d = img content f)
    (\<lambda>(buf', s'). same_disk content f s' \<and> out s' = out f \<and> (\<forall>k < 4096. buf' k = file_page data (unat (a - base)) k) \<and> (\<forall>k \<ge> 4096. buf' k = buffer (mem s) x k))
    (fs_read_page dev (mmap_start ?p) (mmap_size ?p) (ucast (a - base)) (buffer (mem s) x) f)"
    using rd off(2,3) by (auto elim!: dvdE)
  have run: "proc_pagefault dev hart va store f s =
    (case fs_read_page dev (mmap_start ?p) (mmap_size ?p) (ucast (a - base)) (buffer (mem s) x) f of
       Inl d \<Rightarrow> Some (Inl d)
     | Inr (b, f) \<Rightarrow> map_option (\<lambda>(r, s). Inr (r, f, s)) (install_page pt a x (PTE_R OR PTE_U) mmap_note (fresh s x (put_buffer x 4096 b (mem s)))))"
  proof -
    have "(HEAPBASE \<le> a \<and> a < heap_top ?p) = False" "(mmap_base ?p \<noteq> 0 \<and> mmap_base ?p \<le> a \<and> a < mmap_end ?p) = True"
      using a(2) b(1,2,5,6) by auto
    then show ?thesis
      using p cow_fault_unmapped [OF na al] kalloc_fresh [OF k] ram_page_nonzero [OF x]
      unfolding proc_pagefault_def Let_def a(1) [symmetric] b(1) by (auto split: sum.split)
  qed
  show ?thesis
  proof (cases "fs_read_page dev (mmap_start ?p) (mmap_size ?p) (ucast (a - base)) (buffer (mem s) x) f")
    case (Inl d)
    then show ?thesis using rd run by auto
  next
    case (Inr bf)
    obtain buf f' where bf: "bf = (buf, f')" by (cases bf)
    have R: "same_disk content f f'" "out f' = out f" "\<forall>k < 4096. buf k = file_page data (unat (a - base)) k" using rd Inr bf by auto
    let ?m = "put_buffer x 4096 buf (mem s)"
    note m = put_page [OF ram_page_aligned [OF x], of buf "mem s"]
    obtain g s' where I: "install_page pt a x (PTE_R OR PTE_U) mmap_note (fresh s x ?m) = Some (g, s')" "paged pt a x (PTE_R OR PTE_U) mmap_note ?m xs s g s'"
      by (rule install_fresh [OF k o _ al top na, of ?m]) (simp add: m)
    have r: "proc_pagefault dev hart va store f s = Some (Inr (g, f', s'))" using run Inr bf I(1) by simp
    moreover have "?m c = file_page data (unat (a - base)) (unat (c - x))" if "page_no c = page_no x" for c
      using R(3) aligned_range [OF ram_page_aligned [OF x], of c] that by (simp add: m)
    moreover have "2 < length xs \<longrightarrow> g" using I(2) by (auto simp: paged_def split: if_splits)
    ultimately show ?thesis using I(2) R(1,2) pagefault_same_view [OF r] by blast
  qed
qed

end

end
