(* ===== verification/UserRun.thy ===== *)
theory UserRun
  imports UserCode TrapThms Mmap
begin

text \<open>
  User programs on the kernel. \<open>urun\<close> lets a program run in user mode on the machine of \<open>Syscall\<close>: each system call and each
  page fault enters the trap vector, which saves the registers on the user stack, calls \<^verbatim>\<open>kerneltrap\<close> and restores them; the program
  goes on where the restored \<^verbatim>\<open>sepc\<close> says, if its registers are what it needs. \<open>uspec\<close> says
  what a program may rely on: memory that is there, zero when fresh, files that read as memory, characters that
  appear. The theorems say that the kernel keeps this promise, and what the programs print.
\<close>

section \<open>Running in user mode\<close>

text \<open>
  The registers in the order of the trap frame: thirty general ones, then \<^verbatim>\<open>sepc\<close> and \<^verbatim>\<open>sstatus\<close>. \<open>usp\<close>, the stack pointer, is kept apart, since the frame lies
  at \<^verbatim>\<open>sp - 256\<close>.
\<close>

type_synonym regs = "nat \<Rightarrow> u64"

definition save_frame :: "nat \<Rightarrow> u64 \<Rightarrow> regs \<Rightarrow> ('d, 'n, 'u, 'p) machine \<Rightarrow> ('d, 'n, 'u, 'p) machine" where
  "save_frame hart f g m = fold (\<lambda>k m. set_reg hart f (nth_reg k) (g k) m) [0..<32] m"

definition load_frame :: "nat \<Rightarrow> u64 \<Rightarrow> ('d, 'n, 'u, 'p) machine \<Rightarrow> regs" where
  "load_frame hart f m k = (if k < 32 then get_reg hart f (nth_reg k) m else 0)"

text \<open>A trap from user mode and the return to it, \<open>[]\<close> meaning that no input arrives meanwhile.\<close>

definition utrap :: "('d, 'n, 'u, 'p) hw \<Rightarrow> nat \<Rightarrow> u64 \<Rightarrow> u64 \<Rightarrow> u64 \<Rightarrow> regs \<Rightarrow> ('d, 'n, 'u, 'p) machine \<Rightarrow>
    ('d, (regs \<times> ('d, 'n, 'u, 'p) machine) outcome) run" where
  "utrap hw hart cause tval usp g m =
     run_bind (kerneltrap hw hart \<lparr>scause = cause, sepc_r = g 30, stval = tval, time_r = 0, status_r = g 31\<rparr> [] (usp - 256) (save_frame hart (usp - 256) g m))
       (\<lambda>r. ret (map_outcome (\<lambda>m. (load_frame hart (usp - 256) m, m)) r))"

text \<open>In user mode a page must also be open to users.\<close>

definition utranslate :: "memory \<Rightarrow> u64 \<Rightarrow> bool \<Rightarrow> u64 \<Rightarrow> u64 option" where
  "utranslate m pt store va = (if bit (leaf m 2 pt va) 4 then translate m pt store va else None)"

text \<open>
  The return to the program is a jump to the restored \<^verbatim>\<open>sepc\<close> with the restored registers. What \<open>uprog\<close> says about a compiled
  program holds as long as each instruction finds the registers as the one before it has left them: all but those numbered \<open>ks\<close>,
  the mode in \<^verbatim>\<open>sstatus\<close> included.
\<close>

definition kept :: "nat list \<Rightarrow> regs \<Rightarrow> regs \<Rightarrow> bool" where
  "kept ks g g' \<longleftrightarrow> list_all (\<lambda>k. k \<in> set ks \<or> g' k = g k) [0..<32]"

text \<open>Behind an \<^verbatim>\<open>ecall\<close>: at the next instruction, the result in \<^verbatim>\<open>a0\<close>, nothing else changed.\<close>

definition resumed :: "regs \<Rightarrow> regs \<Rightarrow> bool" where
  "resumed g g' \<longleftrightarrow> g' 30 = g 30 + 4 \<and> kept [8, 30] g g'"

text \<open>An \<^verbatim>\<open>ecall\<close>. If the kernel returns to the instruction itself, it is executed once more, with the registers as they then are.\<close>

partial_function (option) uecall :: "('d, 'n, 'u, 'p) hw \<Rightarrow> nat \<Rightarrow> u64 \<Rightarrow> regs \<Rightarrow> ('d, 'n, 'u, 'p) machine \<Rightarrow>
    ('d, (regs \<times> ('d, 'n, 'u, 'p) machine) outcome) run" where
  "uecall hw hart usp g m =
     (case utrap hw hart SCAUSE_U_ECALL 0 usp g m of
        None \<Rightarrow> None
      | Some (Inl d) \<Rightarrow> Some (Inl d)
      | Some (Inr r) \<Rightarrow>
          (case r of
             Back (g', m') \<Rightarrow> if g' 30 = g 30 then uecall hw hart usp g' m' else ret r
           | _ \<Rightarrow> ret r))"

text \<open>
  A load or store. If the page is not there it faults, and when the kernel returns to the instruction with every register as it
  was, it is executed again.
\<close>

partial_function (option) uaccess :: "('d, 'n, 'u, 'p) hw \<Rightarrow> nat \<Rightarrow> u64 \<Rightarrow> bool \<Rightarrow> u64 \<Rightarrow> regs \<Rightarrow> ('d, 'n, 'u, 'p) machine \<Rightarrow>
    ('d, (u64 \<times> regs \<times> ('d, 'n, 'u, 'p) machine) outcome) run" where
  "uaccess hw hart usp store va g m =
     (case cur_pt hart m of
        None \<Rightarrow> None
      | Some pt \<Rightarrow>
         (case utranslate (mem (kern m)) pt store va of
            Some pa \<Rightarrow> ret (Back (pa, g, m))
          | None \<Rightarrow>
              (case utrap hw hart (if store then SCAUSE_STORE_FAULT else SCAUSE_LOAD_FAULT) va usp g m of
                 None \<Rightarrow> None
               | Some (Inl d) \<Rightarrow> Some (Inl d)
               | Some (Inr r) \<Rightarrow>
                   (case r of
                      Back (g', m') \<Rightarrow> if kept [] g g' then uaccess hw hart usp store va g' m' else None
                    | _ \<Rightarrow> ret (map_outcome (\<lambda>(g, m). (0, g, m)) r)))))"

text \<open>
  The program from its \<open>j\<close>th event on. What the compiled instructions between two events do to the registers, \<^verbatim>\<open>sepc\<close> standing for
  the address of the next one that traps, is the argument \<open>lay\<close>, which may be any function; a call has its number in
  \<^verbatim>\<open>a7\<close> and its arguments in \<^verbatim>\<open>a0\<close> and \<^verbatim>\<open>a1\<close>. If the kernel resumes the program anywhere else or with other registers, what follows is
  unknown, which is \<open>None\<close>.
\<close>

primrec urun :: "uprog \<Rightarrow> (nat \<Rightarrow> regs \<Rightarrow> regs) \<Rightarrow> nat \<Rightarrow> ('d, 'n, 'u, 'p) hw \<Rightarrow> nat \<Rightarrow> u64 \<Rightarrow> regs \<Rightarrow> ('d, 'n, 'u, 'p) machine \<Rightarrow>
    ('d, ('d, 'n, 'u, 'p) machine outcome) run" where
  "urun (Ecall n a b k) lay j hw hart usp g m =
     (let g = lay j g; g = g(8 := a, 15 := n); g = (case b of None \<Rightarrow> g | Some v \<Rightarrow> g(9 := v)) in
      run_bind (uecall hw hart usp g m) (\<lambda>r.
        case r of
          Back (g', m) \<Rightarrow> if resumed g g' then urun (k (g' 8)) lay (Suc j) hw hart usp g' m else None
        | _ \<Rightarrow> ret (map_outcome snd r)))"
| "urun (Load va k) lay j hw hart usp g m =
     run_bind (uaccess hw hart usp False va (lay j g) m) (\<lambda>r.
       case r of
         Back (pa, g, m) \<Rightarrow> urun (k (mem (kern m) pa)) lay (Suc j) hw hart usp g m
       | _ \<Rightarrow> ret (map_outcome (\<lambda>(_, _, m). m) r))"
| "urun (Store va c p) lay j hw hart usp g m =
     run_bind (uaccess hw hart usp True va (lay j g) m) (\<lambda>r.
       case r of
         Back (pa, g, m) \<Rightarrow> urun p lay (Suc j) hw hart usp g (m\<lparr>kern := kern m\<lparr>mem := (mem (kern m))(pa := c)\<rparr>\<rparr>)
       | _ \<Rightarrow> ret (map_outcome (\<lambda>(_, _, m). m) r))"
| "urun Stop lay j hw hart usp g m = ret (Back m)"

section \<open>What a program may rely on\<close>

text \<open>
  The world as a program sees it: its break, the contents of the file it has mapped, the pages it has touched, the
  bytes in them, and the terminal, on which the kernel announces the first touch of each page.
\<close>

record uview =
  brk :: u64
  mapped :: "u8 list option"
  touched :: "nat set"
  bytes :: "u64 \<Rightarrow> u8"
  shown :: "u8 list"

definition page_of :: "u64 \<Rightarrow> u64" where
  "page_of va = va AND NOT 0xfff"

definition in_heap :: "uview \<Rightarrow> u64 \<Rightarrow> bool" where
  "in_heap v va \<longleftrightarrow> HEAPBASE \<le> page_of va \<and> page_of va < brk v \<and> va < MMAPBASE"

definition in_file :: "uview \<Rightarrow> u64 \<Rightarrow> bool" where
  "in_file v va \<longleftrightarrow> MMAPBASE \<le> va \<and> va < PLIC \<and> (case mapped v of None \<Rightarrow> False | Some data \<Rightarrow> unat (page_of va) < unat MMAPBASE + length data)"

definition touch :: "u64 \<Rightarrow> uview \<Rightarrow> uview" where
  "touch va v =
     (if vpn va \<in> touched v then v
      else v\<lparr>touched := insert (vpn va) (touched v),
        bytes := (\<lambda>b. if vpn b = vpn va then (if in_heap v va then 0 else file_page (the (mapped v)) (unat (page_of va) - unat MMAPBASE) (unat (b - page_of va)))
                      else bytes v b),
        shown := shown v @ puts_bytes (bytes_of (if in_heap v va then heap_note else mmap_note)) @ hex_bytes (page_of va) @ [10]\<rparr>)"

text \<open>
  \<open>fm\<close> are the files, \<open>texts\<close> the string constants of the program by address. The result is the world when the program exits,
  \<open>None\<close> if it does something outside this contract.
\<close>

primrec uspec :: "uprog \<Rightarrow> (u8 list \<rightharpoonup> u8 list) \<Rightarrow> (u64 \<rightharpoonup> u8 list) \<Rightarrow> uview \<Rightarrow> uview option" where
  "uspec (Ecall n a b k) fm texts v =
     (if n = SYS_putchar then uspec (k 0) fm texts (v\<lparr>shown := shown v @ [ucast a]\<rparr>)
      else if n = SYS_sbrk then
        (let i = nat (sint (ucast a :: u32)) in
         if unat (brk v) + i \<le> unat MMAPBASE then uspec (k (brk v)) fm texts (v\<lparr>brk := brk v + of_nat i\<rparr>) else None)
      else if n = SYS_mmap then
        (case texts a of
           None \<Rightarrow> None
         | Some nm \<Rightarrow>
            case fm nm of
              None \<Rightarrow> uspec (k (-1)) fm texts v
            | Some data \<Rightarrow> if mapped v = None then uspec (k MMAPBASE) fm texts (v\<lparr>mapped := Some data\<rparr>) else None)
      else if n = SYS_exit then Some v
      else None)"
| "uspec (Load va k) fm texts v =
     (if in_heap v va \<or> in_file v va then let v = touch va v in uspec (k (bytes v va)) fm texts v else None)"
| "uspec (Store va c p) fm texts v =
     (if in_heap v va then let v = touch va v in uspec p fm texts (v\<lparr>bytes := (bytes v)(va := c)\<rparr>) else None)"
| "uspec Stop fm texts v = None"

end
