(* ===== verification/UserSim.thy ===== *)
theory UserSim
  imports UserRun
begin

text \<open>
  The kernel keeps the promise of \<open>uspec\<close>: a simulation between the machine and the world a program sees. Every system call of
  the contract and every page fault takes a machine that represents a view to one that represents the view after it.
\<close>

section \<open>The address space of a running program\<close>

text \<open>
  The pages of the heap and of mapped files, by page number: from \<^verbatim>\<open>HEAPBASE\<close> up to the first device. \<open>pg\<close> gives the physical page of
  each touched one; \<open>F\<close> is the page of the stack that holds the trap frame, \<open>C\<close> the page of the code with its string
  constants. All these pages are different, are held, and are no page tables.
\<close>

definition arena :: "nat set" where
  "arena = {16..<0xc000}"

definition uperm :: "nat \<Rightarrow> u64" where
  "uperm n = (if n < 256 then PTE_R OR PTE_W OR PTE_U else PTE_R OR PTE_U)"

definition uspace :: "u64 list \<Rightarrow> u64 \<Rightarrow> u64 \<Rightarrow> u64 \<Rightarrow> (nat \<Rightarrow> u64) \<Rightarrow> nat set \<Rightarrow> 'a kmem_scheme \<Rightarrow> bool" where
  "uspace xs pt F C pg T s \<longleftrightarrow> kmem_ok s xs \<and> owned 2 pt s \<and> T \<subseteq> arena \<and> inj_on pg T \<and> F \<noteq> C \<and> F \<notin> pg ` T \<and> C \<notin> pg ` T \<and>
     (\<forall>q \<in> insert F (insert C (pg ` T)). ram_page q \<and> 0 < refs s q \<and> q \<notin> tabs (mem s) 2 pt) \<and>
     (\<forall>va. vpn va \<in> T \<longrightarrow> leaf (mem s) 2 pt va = PA2PTE (pg (vpn va)) OR uperm (vpn va) OR PTE_V) \<and>
     (\<forall>va. vpn va \<in> arena - T \<longrightarrow> \<not> bit (leaf (mem s) 2 pt va) 0)"

text \<open>Writing to one of the held pages changes nothing of the address space.\<close>

lemma uspace_write:
  assumes u: "uspace xs pt F C pg T s" and q: "q \<in> insert F (insert C (pg ` T))" and off: "\<And>c. page_no c \<noteq> page_no q \<Longrightarrow> \<mu> c = mem s c"
  shows "uspace xs pt F C pg T (s\<lparr>mem := \<mu>\<rparr>)" "leaf \<mu> 2 pt va = leaf (mem s) 2 pt va"
proof -
  have h: "ram_page q" "0 < refs s q" "q \<notin> tabs (mem s) 2 pt" and o: "owned 2 pt s" and k: "kmem_ok s xs"
    using u q unfolding uspace_def by blast+
  have wf: "wf_tab (mem s) 2 pt" using o by (simp add: owned_def)
  have off': "\<forall>c. page_no c \<notin> page_no ` {q} \<longrightarrow> \<mu> c = mem s c" using off by simp
  note t = other_table [OF wf off']
  have t': "tabs \<mu> 2 pt = tabs (mem s) 2 pt" "wf_tab \<mu> 2 pt" "\<And>x. leaf \<mu> 2 pt x = leaf (mem s) 2 pt x" using t h by auto
  show "leaf \<mu> 2 pt va = leaf (mem s) 2 pt va" by (rule t'(3))
  have "q \<notin> set xs" using kmem_ok_free_iff [OF k, of q] h(1,2) by auto
  then have "kmem_ok (s\<lparr>mem := \<mu>\<rparr>) xs" by (intro kmem_ok_mem [OF k off']) (use h in auto)
  moreover have "refs (s\<lparr>mem := \<mu>\<rparr>) = refs s" by (simp add: refs_def fun_eq_iff)
  ultimately show "uspace xs pt F C pg T (s\<lparr>mem := \<mu>\<rparr>)" using u t' by (simp add: uspace_def owned_def)
qed

lemma page_no_offset: "take_bit 12 q = 0 \<Longrightarrow> page_no (q + (va AND 0xfff)) = page_no (q :: u64)"
proof -
  assume q: "take_bit 12 q = 0"
  have "unat ((q + (va AND 0xfff)) - q) < 2 ^ 12"
    by (simp add: page_offset_mod unat_of_nat)
  then show ?thesis using aligned_range [OF q, of "q + (va AND 0xfff)"] by simp
qed

text \<open>What the program finds in its pages, and its string constants.\<close>

definition holds :: "(nat \<Rightarrow> u64) \<Rightarrow> uview \<Rightarrow> memory \<Rightarrow> bool" where
  "holds pg v \<mu> \<longleftrightarrow> (\<forall>va < PLIC. vpn va \<in> touched v \<longrightarrow> \<mu> (pg (vpn va) + (va AND 0xfff)) = bytes v va)"

definition says :: "(u64 \<rightharpoonup> u8 list) \<Rightarrow> u64 \<Rightarrow> u64 \<Rightarrow> memory \<Rightarrow> bool" where
  "says texts C pt \<mu> \<longleftrightarrow> (\<forall>a nm. texts a = Some nm \<longrightarrow> 0 \<notin> set nm \<and> length nm < 64 \<and>
     (\<forall>j \<le> length nm. vpn (a + of_nat j) < 16 \<and> PTE2PA (leaf \<mu> 2 pt (a + of_nat j)) = C \<and> user_byte \<mu> pt (a + of_nat j) = Some ((nm @ [0]) ! j)))"

definition frame_at :: "u64 \<Rightarrow> u64 \<Rightarrow> u64 \<Rightarrow> memory \<Rightarrow> bool" where
  "frame_at f F pt \<mu> \<longleftrightarrow> 8 dvd unat f \<and> unat f mod 4096 + 256 \<le> 4096 \<and> vpn f < 16 \<and> PTE2PA (leaf \<mu> 2 pt f) = F"

text \<open>Leaves below the arena and bytes outside the page \<open>C\<close>: what \<open>says\<close> and \<open>frame_at\<close> depend on.\<close>

lemma says_cong:
  assumes "says texts C pt \<mu>" "ram_page C" "\<And>va. vpn va < 16 \<Longrightarrow> leaf \<mu>' 2 pt va = leaf \<mu> 2 pt va" "\<And>c. page_no c = page_no C \<Longrightarrow> \<mu>' c = \<mu> c"
  shows "says texts C pt \<mu>'"
proof -
  have "user_byte \<mu>' pt va = user_byte \<mu> pt va" if "vpn va < 16" "PTE2PA (leaf \<mu> 2 pt va) = C" for va
    using assms(3) [OF that(1)] assms(4) [of "C + (va AND 0xfff)"] page_no_offset [OF ram_page_aligned [OF assms(2)]] that(2)
    by (simp add: user_byte_def translate_def Let_def)
  then show ?thesis using assms(1,3) by (simp add: says_def)
qed

lemma frame_at_cong:
  "frame_at f F pt \<mu> \<Longrightarrow> (\<And>va. vpn va < 16 \<Longrightarrow> leaf \<mu>' 2 pt va = leaf \<mu> 2 pt va) \<Longrightarrow> frame_at f F pt \<mu>'"
  by (simp add: frame_at_def)

section \<open>The simulation relation\<close>

text \<open>The process \<open>i\<close> that runs on the hart, its files, and the terminal.\<close>

definition running :: "nat \<Rightarrow> nat \<Rightarrow> uview \<Rightarrow> kproc \<Rightarrow> bool" where
  "running hart i v s \<longleftrightarrow> current_proc hart s = Some i \<and> i < length (proctable s) \<and> is_user (proc_at i s) \<and> heap_top (proc_at i s) = brk v \<and> brk v \<le> MMAPBASE"

definition filed :: "('d \<Rightarrow> image) \<Rightarrow> nat \<Rightarrow> (u8 list \<rightharpoonup> u8 list) \<Rightarrow> proc \<Rightarrow> uview \<Rightarrow> 'd fs \<Rightarrow> bool" where
  "filed content cap fm p v fl \<longleftrightarrow> fs_ok content cap fl \<and> fs_files content fl = fm \<and>
     (\<forall>data. mapped v = Some data \<longrightarrow> mmap_base p = MMAPBASE \<and> (\<exists>nm. fs_stat nm fl = Some (mmap_start p, mmap_size p) \<and> fm (cstr nm) = Some data))"

definition printed :: "u8 list \<Rightarrow> ('d, 'n, 'u, 'p) machine \<Rightarrow> bool" where
  "printed t m \<longleftrightarrow> vout (kern m) = [] \<and> out (files m) = [] \<and> nout (nets m) = [] \<and> tty m = t"

definition rep :: "('d \<Rightarrow> image) \<Rightarrow> nat \<Rightarrow> nat \<Rightarrow> nat \<Rightarrow> u64 \<Rightarrow> (u8 list \<rightharpoonup> u8 list) \<Rightarrow> (u64 \<rightharpoonup> u8 list) \<Rightarrow> u8 list \<Rightarrow> u64 list \<Rightarrow> u64 \<Rightarrow> u64 \<Rightarrow> (nat \<Rightarrow> u64) \<Rightarrow>
    uview \<Rightarrow> ('d, 'n, 'u, 'p) machine \<Rightarrow> bool" where
  "rep content cap hart i f fm texts t xs F C pg v m \<longleftrightarrow>
     (let s = kern m; pt = pagetable (proc_at i s) in
      running hart i v s \<and> uspace xs pt F C pg (touched v) s \<and> frame_at f F pt (mem s) \<and> holds pg v (mem s) \<and> says texts C pt (mem s) \<and>
      filed content cap fm (proc_at i s) v (files m) \<and> printed (t @ shown v) m)"

lemma rep_frame:
  assumes "rep content cap hart i f fm texts t xs F C pg v m"
  shows "frame_ok hart f m" "frame_page hart f m = F" "cur_pt hart m = Some (pagetable (proc_at i (kern m)))"
proof -
  show c: "cur_pt hart m = Some (pagetable (proc_at i (kern m)))" using assms by (simp add: rep_def Let_def running_def cur_pt_def)
  show p: "frame_page hart f m = F" using assms by (simp add: rep_def Let_def frame_page_def c frame_at_def)
  show "frame_ok hart f m" using assms by (simp add: rep_def Let_def frame_ok_def p c frame_at_def uspace_def owned_def)
qed

text \<open>Writing the trap frame, or a page of the heap when the program's view is adjusted.\<close>

lemma rep_write:
  assumes R: "rep content cap hart i f fm texts t xs F C pg v m" and q: "q \<in> insert F (pg ` touched v)"
    and off: "\<And>c. page_no c \<noteq> page_no q \<Longrightarrow> \<mu> c = mem (kern m) c" and h: "holds pg (v\<lparr>bytes := \<beta>\<rparr>) \<mu>"
  shows "rep content cap hart i f fm texts t xs F C pg (v\<lparr>bytes := \<beta>\<rparr>) (m\<lparr>kern := kern m\<lparr>mem := \<mu>\<rparr>\<rparr>)"
proof -
  let ?s = "kern m" and ?pt = "pagetable (proc_at i (kern m))"
  have u: "uspace xs ?pt F C pg (touched v) ?s" and r: "running hart i v ?s" "frame_at f F ?pt (mem ?s)" "says texts C ?pt (mem ?s)"
      "filed content cap fm (proc_at i ?s) v (files m)" "printed (t @ shown v) m"
    using R by (simp_all add: rep_def Let_def)
  have C: "ram_page C" "ram_page q" "q \<noteq> C" using u q unfolding uspace_def by blast+
  note w = uspace_write [OF u, of q, OF _ off]
  have q': "q \<in> insert F (insert C (pg ` touched v))" using q by blast
  have "says texts C ?pt \<mu>"
    by (rule says_cong [OF r(3) C(1) w(2) [OF q']]) (use off C page_no_inject [of C q] in \<open>auto intro!: off\<close>)
  moreover have "frame_at f F ?pt \<mu>" by (rule frame_at_cong [OF r(2) w(2) [OF q']])
  moreover have "running hart i (v\<lparr>bytes := \<beta>\<rparr>) (?s\<lparr>mem := \<mu>\<rparr>)" using r(1) by (simp add: running_def current_proc_def)
  moreover have "filed content cap fm (proc_at i ?s) (v\<lparr>bytes := \<beta>\<rparr>) (files m)" using r(4) by (simp add: filed_def)
  ultimately show ?thesis using w(1) [OF q'] h r(5) by (simp add: rep_def Let_def printed_def)
qed

lemma rep_set_reg:
  assumes R: "rep content cap hart i f fm texts t xs F C pg v m" and k: "k < 32"
  shows "rep content cap hart i f fm texts t xs F C pg v (set_reg hart f (nth_reg k) x m)"
proof -
  note F = rep_frame [OF R] and A = frame_addr(1,2) [OF rep_frame(1) [OF R] k, unfolded rep_frame(2) [OF R]]
  let ?\<mu> = "st64 (mem (kern m)) (frame_pa hart f (nth_reg k) m) x"
  have off: "?\<mu> c = mem (kern m) c" if "page_no c \<noteq> page_no F" for c using that A by (intro st64_page) simp_all
  have u: "uspace xs (pagetable (proc_at i (kern m))) F C pg (touched v) (kern m)" and h: "holds pg v (mem (kern m))"
    using R by (simp_all add: rep_def Let_def)
  have "?\<mu> (pg n + (va AND 0xfff)) = mem (kern m) (pg n + (va AND 0xfff))" if "n \<in> touched v" for n va
  proof (rule off)
    have p: "ram_page (pg n)" "ram_page F" "pg n \<noteq> F" using u that unfolding uspace_def by blast+
    then show "page_no (pg n + (va AND 0xfff)) \<noteq> page_no F" using page_no_offset [OF ram_page_aligned] page_no_inject [of "pg n" F] by auto
  qed
  then have "holds pg (v\<lparr>bytes := bytes v\<rparr>) ?\<mu>" using h by (simp add: holds_def)
  from rep_write [OF R, of F, OF _ off this] show ?thesis by (simp add: set_reg_def)
qed

section \<open>System calls\<close>

lemma save_frame_ok:
  assumes R: "rep content cap hart i f fm texts t xs F C pg v m"
  shows "rep content cap hart i f fm texts t xs F C pg v (save_frame hart f g m)" "k < 32 \<Longrightarrow> get_reg hart f (nth_reg k) (save_frame hart f g m) = g k"
proof -
  have "rep content cap hart i f fm texts t xs F C pg v (fold (\<lambda>k m. set_reg hart f (nth_reg k) (g k) m) [0..<n] m) \<and>
      (\<forall>k < n. get_reg hart f (nth_reg k) (fold (\<lambda>k m. set_reg hart f (nth_reg k) (g k) m) [0..<n] m) = g k)" if "n \<le> 32" for n
    using that
  proof (induction n)
    case (Suc n)
    let ?m = "fold (\<lambda>k m. set_reg hart f (nth_reg k) (g k) m) [0..<n] m"
    have n: "n < 32" and I: "rep content cap hart i f fm texts t xs F C pg v ?m" "\<forall>k < n. get_reg hart f (nth_reg k) ?m = g k" using Suc by auto
    show ?case using rep_set_reg [OF I(1) n] set_reg_frame(4) [OF rep_frame(1) [OF I(1)] n] I(2) n by (auto simp: less_Suc_eq)
  qed (use R in simp)
  from this [of 32] show "rep content cap hart i f fm texts t xs F C pg v (save_frame hart f g m)"
      "k < 32 \<Longrightarrow> get_reg hart f (nth_reg k) (save_frame hart f g m) = g k" by (simp_all add: save_frame_def)
qed

lemma save_frame_procs: "proc_at j (kern (save_frame hart f g m)) = proc_at j (kern m)"
proof -
  have "proc_at j (kern (fold (\<lambda>k m. set_reg hart f (nth_reg k) (g k) m) ks m)) = proc_at j (kern m)" for ks
    by (induction ks arbitrary: m) simp_all
  then show ?thesis by (simp add: save_frame_def)
qed

lemma kept_I: "(\<And>k. k < 32 \<Longrightarrow> k \<notin> set ks \<Longrightarrow> g' k = g k) \<Longrightarrow> kept ks g g'"
proof -
  assume a: "\<And>k. k < 32 \<Longrightarrow> k \<notin> set ks \<Longrightarrow> g' k = g k"
  have "k \<in> set ks \<or> g' k = g k" if "k < 32" for k using a [OF that] by blast
  then show ?thesis by (simp add: kept_def list_all_iff)
qed

text \<open>
  A call that the kernel answers with \<open>r\<close> in a state that represents \<open>v'\<close> and in which the frame still holds the registers.
\<close>

lemma utrap_reply:
  assumes R: "rep content cap hart i (usp - 256) fm texts t xs F C pg v' m2"
    and s: "syscall hw hart (g 31) [] (usp - 256) (save_frame hart (usp - 256) g m) = ret (Back (set_reg hart (usp - 256) FR_a0 r m2))"
    and keep: "\<And>k. k < 32 \<Longrightarrow> get_reg hart (usp - 256) (nth_reg k) m2 = g k"
  shows "\<exists>g' m'. utrap hw hart SCAUSE_U_ECALL 0 usp g m = ret (Back (g', m')) \<and> resumed g g' \<and> g' 8 = r \<and> rep content cap hart i (usp - 256) fm texts t xs F C pg v' m'"
proof -
  let ?f = "usp - 256" and ?m3 = "set_reg hart (usp - 256) FR_a0 r m2"
  let ?m4 = "set_reg hart ?f FR_sepc (get_reg hart ?f FR_sepc ?m3 + 4) ?m3"
  have R3: "rep content cap hart i ?f fm texts t xs F C pg v' ?m3" unfolding FR_nth by (rule rep_set_reg [OF R]) simp
  have R4: "rep content cap hart i ?f fm texts t xs F C pg v' ?m4" unfolding FR_nth by (rule rep_set_reg [OF R3 [unfolded FR_nth]]) simp
  have g3: "get_reg hart ?f (nth_reg k) ?m3 = (if k = 8 then r else g k)" if "k < 32" for k
    using set_reg_frame(4) [OF rep_frame(1) [OF R], of 8 k] keep [OF that] that by (simp add: FR_nth)
  have g4: "get_reg hart ?f (nth_reg k) ?m4 = (if k = 30 then g 30 + 4 else if k = 8 then r else g k)" if "k < 32" for k
    using set_reg_frame(4) [OF rep_frame(1) [OF R3], of 30 k] g3 [OF that] g3 [of 30] that by (simp add: FR_nth)
  have "resumed g (load_frame hart ?f ?m4)"
    unfolding resumed_def by (intro conjI kept_I) (simp_all add: load_frame_def g4)
  moreover have "get_reg hart ?f (nth_reg 8) ?m4 = r" using g4 [of 8] by simp
  moreover have "utrap hw hart SCAUSE_U_ECALL 0 usp g m = ret (Back (load_frame hart ?f ?m4, ?m4))"
    using s by (simp add: utrap_def kerneltrap_def ecall_def SCAUSE_defs)
  ultimately show ?thesis using R4 by (simp add: load_frame_def)
qed

lemma rep_print:
  "rep content cap hart i f fm texts t xs F C pg v m \<Longrightarrow> rep content cap hart i f fm texts t xs F C pg (v\<lparr>shown := shown v @ bs\<rparr>) (print bs m)"
  by (simp add: rep_def Let_def print_def running_def holds_def filed_def printed_def)

lemma uspace_set_proc [simp]: "uspace xs pt F C pg T (set_proc i p s) = uspace xs pt F C pg T s"
proof -
  have "refs (set_proc i p s) = refs s" by (simp add: set_proc_def refs_def fun_eq_iff)
  then show ?thesis by (simp add: uspace_def set_proc_def kmem_ok_def owned_def)
qed

lemma rep_set_proc:
  assumes R: "rep content cap hart i f fm texts t xs F C pg v m" and p: "pagetable p = pagetable (proc_at i (kern m))"
    and v: "touched v' = touched v" "bytes v' = bytes v" "shown v' = shown v"
    and r: "running hart i v' (set_proc i p (kern m))" and fl: "filed content cap fm p v' (files m)"
  shows "rep content cap hart i f fm texts t xs F C pg v' (m\<lparr>kern := set_proc i p (kern m)\<rparr>)"
proof -
  have "i < length (proctable (kern m))" using r by (simp add: running_def)
  then show ?thesis using R p v r fl by (simp add: rep_def Let_def holds_def printed_def) (simp add: set_proc_def)
qed

lemma set_proc_regs:
  assumes "pagetable p = pagetable (proc_at i (kern m))"
  shows "get_reg hart f off (m\<lparr>kern := set_proc i p (kern m)\<rparr>) = get_reg hart f off m"
proof (rule frame_cong(2))
  show "mem (kern (m\<lparr>kern := set_proc i p (kern m)\<rparr>)) = mem (kern m)" by (simp add: set_proc_def)
  show "cur_pt hart (m\<lparr>kern := set_proc i p (kern m)\<rparr>) = cur_pt hart m"
  proof -
    have "pagetable ((proctable (kern m))[i := p] ! k) = pagetable (proctable (kern m) ! k)" for k
      using assms by (cases "i < length (proctable (kern m))") (auto simp: proc_at_def nth_list_update list_update_beyond)
    then show ?thesis by (simp add: cur_pt_def current_proc_def set_proc_def proc_at_def)
  qed
qed

lemma print_regs: "get_reg hart f off (print bs m) = get_reg hart f off m"
  by (rule frame_cong(2)) (simp_all add: print_def cur_pt_def)

lemma sys_putchar_step:
  assumes R: "rep content cap hart i (usp - 256) fm texts t xs F C pg v m" and g: "g 15 = SYS_putchar"
  shows "\<exists>g' m'. utrap hw hart SCAUSE_U_ECALL 0 usp g m = ret (Back (g', m')) \<and> resumed g g' \<and> g' 8 = 0 \<and>
    rep content cap hart i (usp - 256) fm texts t xs F C pg (v\<lparr>shown := shown v @ [ucast (g 8)]\<rparr>) m'"
proof -
  note S = save_frame_ok [OF R, where g = g]
  have c: "current_proc hart (kern (save_frame hart (usp - 256) g m)) = Some i" using S(1) by (simp add: rep_def Let_def running_def)
  show ?thesis
    by (rule utrap_reply [OF rep_print [OF S(1)]]) (simp_all add: syscall_def FR_nth S(2) c g print_regs)
qed

lemma sys_sbrk_step:
  assumes R: "rep content cap hart i (usp - 256) fm texts t xs F C pg v m" and g: "g 15 = SYS_sbrk"
    and n: "n = nat (sint (ucast (g 8) :: u32))" "unat (brk v) + n \<le> unat MMAPBASE"
  shows "\<exists>g' m'. utrap hw hart SCAUSE_U_ECALL 0 usp g m = ret (Back (g', m')) \<and> resumed g g' \<and> g' 8 = brk v \<and>
    rep content cap hart i (usp - 256) fm texts t xs F C pg (v\<lparr>brk := brk v + of_nat n\<rparr>) m'"
proof -
  note S = save_frame_ok [OF R, where g = g]
  let ?m = "save_frame hart (usp - 256) g m"
  let ?p = "proc_at i (kern ?m)\<lparr>heap_top := brk v + of_nat n\<rparr>"
  have c: "running hart i v (kern ?m)" "filed content cap fm (proc_at i (kern ?m)) v (files ?m)" using S(1) by (simp_all add: rep_def Let_def)
  have top: "brk v + of_nat n \<le> MMAPBASE"
    using n(2) by (simp add: word_le_nat_alt MMAPBASE_def unat_word_ariths unat_of_nat)
  have R': "rep content cap hart i (usp - 256) fm texts t xs F C pg (v\<lparr>brk := brk v + of_nat n\<rparr>) (?m\<lparr>kern := set_proc i ?p (kern ?m)\<rparr>)"
    by (rule rep_set_proc [OF S(1)]) (use c top in \<open>simp_all add: running_def filed_def current_proc_def\<close>)
  have e: "(if 0 < sint (ucast (g 8) :: u32) then set_proc i (proc_at i (kern ?m)\<lparr>heap_top := brk v + of_int (sint (ucast (g 8) :: u32))\<rparr>) (kern ?m) else kern ?m) =
      set_proc i ?p (kern ?m)"
  proof (cases "0 < sint (ucast (g 8) :: u32)")
    case False
    have "set_proc i (proc_at i (kern ?m)\<lparr>heap_top := heap_top (proc_at i (kern ?m))\<rparr>) (kern ?m) = kern ?m" by (simp add: set_proc_def proc_at_def)
    moreover have "heap_top (proc_at i (kern ?m)) = brk v" "n = 0" using False c(1) n(1) by (simp_all add: running_def)
    ultimately show ?thesis using False by (simp del: proc.simps)
  qed (simp add: n(1))
  have "current_proc hart (kern ?m) = Some i" "heap_top (proc_at i (kern ?m)) = brk v" using c(1) by (simp_all add: running_def)
  moreover from this have "proc_sbrk hart (sint (ucast (g 8) :: u32)) (kern ?m) = Some (brk v, set_proc i ?p (kern ?m))"
    unfolding proc_sbrk_def Let_def by (simp only: bind.bind_lunit e)
  ultimately have "syscall hw hart (g 31) [] (usp - 256) ?m = ret (Back (set_reg hart (usp - 256) FR_a0 (brk v) (?m\<lparr>kern := set_proc i ?p (kern ?m)\<rparr>)))"
    by (simp add: syscall_def FR_nth S(2) g SYS_defs)
  then show ?thesis by (rule utrap_reply [OF R']) (simp add: set_proc_regs S(2))
qed

lemma fs_stat_None:
  assumes "fs_ok content cap s"
  shows "fs_stat nm s = None \<longleftrightarrow> fs_files content s (cstr nm) = None"
proof -
  have m: "mem_ok cap s" "mounted s" using assms by (auto simp: fs_ok_def mem_ok_def)
  have "fs_stat nm s = None \<longleftrightarrow> lookup s nm = None" using m(2) by (simp add: fs_stat_def)
  also have "\<dots> \<longleftrightarrow> cstr nm \<notin> dom (fs_files content s)" using lookup_None [OF m(1)] by (simp add: fs_files_def files_of_dom)
  finally show ?thesis by auto
qed

lemma cstr_plain: "0 \<notin> set nm \<Longrightarrow> cstr nm = nm"
  by (auto simp: cstr_def takeWhile_eq_all_conv)

lemma copy_path_text:
  assumes "rep content cap hart i f fm texts t xs F C pg v m" "texts a = Some nm"
  shows "copy_path hw hart a 64 m = ret (nm, m)"
proof -
  have s: "says texts C (pagetable (proc_at i (kern m))) (mem (kern m))" using assms(1) by (simp add: rep_def Let_def)
  then have n: "0 \<notin> set nm" "length nm < 64" "\<And>j. j \<le> length nm \<Longrightarrow> user_byte (mem (kern m)) (pagetable (proc_at i (kern m))) (a + of_nat j) = Some ((nm @ [0]) ! j)"
    using assms(2) by (auto simp: says_def)
  have "copy_loop_path hw hart 63 a m = ret (take 63 nm, m)"
    by (rule copy_loop_path_mapped [OF rep_frame(3) [OF assms(1)] n(1)]) (use n(3) in \<open>auto simp: nth_append\<close>)
  then show ?thesis using n(2) by (simp add: copy_path_def)
qed

lemma sys_mmap_step:
  assumes R: "rep content cap hart i (usp - 256) fm texts t xs F C pg v m" and g: "g 15 = SYS_mmap" and nm: "texts (g 8) = Some nm"
  shows "\<exists>g' m'. utrap hw hart SCAUSE_U_ECALL 0 usp g m = ret (Back (g', m')) \<and> resumed g g' \<and>
    (case fm nm of
       None \<Rightarrow> g' 8 = -1 \<and> rep content cap hart i (usp - 256) fm texts t xs F C pg v m'
     | Some data \<Rightarrow> g' 8 = MMAPBASE \<and> (mapped v = None \<longrightarrow> rep content cap hart i (usp - 256) fm texts t xs F C pg (v\<lparr>mapped := Some data\<rparr>) m'))"
proof -
  note S = save_frame_ok [OF R, where g = g]
  let ?f = "usp - 256" and ?m = "save_frame hart (usp - 256) g m" and ?p = "proc_at i (kern (save_frame hart (usp - 256) g m))"
  have c: "running hart i v (kern ?m)" "filed content cap fm ?p v (files ?m)" "says texts C (pagetable ?p) (mem (kern ?m))"
    using S(1) by (simp_all add: rep_def Let_def)
  have n: "cstr nm = nm" using c(3) nm by (auto simp: says_def intro: cstr_plain)
  have ok: "fs_ok content cap (files ?m)" "fs_files content (files ?m) = fm" using c(2) by (simp_all add: filed_def)
  have sys: "syscall hw hart (g 31) [] ?f ?m =
      (case proc_mmap hart nm (files ?m) (kern ?m) of None \<Rightarrow> None | Some (r, k) \<Rightarrow> ret (Back (set_reg hart ?f FR_a0 r (?m\<lparr>kern := k\<rparr>))))"
    using c(1) copy_path_text [OF S(1) nm] by (simp add: syscall_def FR_nth S(2) g SYS_defs sys_mmap_def running_def)
  show ?thesis
  proof (cases "fm nm")
    case None
    then have "fs_stat nm (files ?m) = None" using fs_stat_None [OF ok(1)] ok(2) n by simp
    then have "syscall hw hart (g 31) [] ?f ?m = ret (Back (set_reg hart ?f FR_a0 (-1) ?m))"
      using c(1) by (simp add: sys proc_mmap_def running_def)
    from utrap_reply [OF S(1) this S(2)] show ?thesis by (auto simp: None)
  next
    case (Some data)
    then obtain st sz where st: "fs_stat nm (files ?m) = Some (st, sz)" using fs_stat_None [OF ok(1), of nm] ok(2) n by fastforce
    let ?p' = "?p\<lparr>mmap_base := MMAPBASE, mmap_start := st, mmap_size := sz\<rparr>"
    have s: "syscall hw hart (g 31) [] ?f ?m = ret (Back (set_reg hart ?f FR_a0 MMAPBASE (?m\<lparr>kern := set_proc i ?p' (kern ?m)\<rparr>)))"
      using c(1) by (simp add: sys proc_mmap_def running_def st)
    have R': "rep content cap hart i ?f fm texts t xs F C pg (v\<lparr>mapped := Some data\<rparr>) (?m\<lparr>kern := set_proc i ?p' (kern ?m)\<rparr>)"
      by (rule rep_set_proc [OF S(1)]) (use c ok st Some n in \<open>auto simp: running_def filed_def current_proc_def\<close>)
    from utrap_reply [OF R' s] show ?thesis by (auto simp: Some set_proc_regs S(2))
  qed
qed

section \<open>Page faults\<close>

lemma page_of_facts:
  "take_bit 12 (page_of va) = 0" "vpn (page_of va) = vpn va" "unat (page_of va) = unat va div 4096 * 4096" "va = page_of va + (va AND 0xfff)"
proof -
  show "take_bit 12 (page_of va) = 0" "vpn (page_of va) = vpn va" unfolding page_of_def by (rule page_align)+
  show u: "unat (page_of va) = unat va div 4096 * 4096" unfolding page_of_def using unat_round_down [of va] by simp
  have "unat (page_of va) mod 4096 + unat va mod 4096 < 4096" unfolding u by simp
  then have "unat (page_of va + of_nat (unat va mod 4096)) = unat (page_of va) + unat va mod 4096" by (rule unat_add_page)
  then show "va = page_of va + (va AND 0xfff)" unfolding page_offset_mod u by (simp add: word_unat_eq_iff)
qed

lemma vpn_low: "va < PLIC \<Longrightarrow> vpn va = unat va div 4096" "va < PLIC \<Longrightarrow> vpn va < 0xc000"
proof -
  assume "va < PLIC"
  then have "unat va < 0xc000000" by (simp add: word_less_nat_alt PLIC_def)
  then have "unat va div 4096 < 0xc000" by (intro less_mult_imp_div_less) simp
  then show "vpn va = unat va div 4096" "vpn va < 0xc000" by (simp_all add: vpn_def)
qed

lemma in_arena:
  assumes "in_heap v va \<or> in_file v va"
  shows "vpn va \<in> arena" "va < PLIC" "in_heap v va \<longleftrightarrow> vpn va < 256"
proof -
  have M: "MMAPBASE < PLIC" by (simp add: MMAPBASE_def PLIC_def)
  have h: "HEAPBASE \<le> page_of va" if "in_heap v va" using that by (simp add: in_heap_def)
  show lt: "va < PLIC" using assms less_trans [OF _ M] by (auto simp: in_heap_def in_file_def)
  have w: "MMAPBASE \<le> va" if "\<not> in_heap v va" using assms that by (auto simp: in_file_def)
  show "in_heap v va \<longleftrightarrow> vpn va < 256"
  proof
    assume "in_heap v va"
    then have "unat va < 256 * 4096" by (simp add: in_heap_def word_less_nat_alt MMAPBASE_def)
    then show "vpn va < 256" unfolding vpn_low(1) [OF lt] by (rule less_mult_imp_div_less)
  next
    assume "vpn va < 256"
    then have "unat va < 1048576" unfolding vpn_low(1) [OF lt] by (simp add: div_less_iff_less_mult)
    then show "in_heap v va" using w by (auto simp: word_le_nat_alt MMAPBASE_def)
  qed
  have "16 \<le> unat va div 4096"
  proof (cases "in_heap v va")
    case True
    then have "65536 \<le> unat va div 4096 * 4096" using h page_of_facts(3) [of va] by (simp add: word_le_nat_alt HEAPBASE_def)
    then show ?thesis by simp
  next
    case False
    then have "1048576 \<le> unat va" using w by (simp add: word_le_nat_alt MMAPBASE_def)
    then have "1048576 div 4096 \<le> unat va div 4096" by (rule div_le_mono)
    then show ?thesis by simp
  qed
  then show "vpn va \<in> arena" using vpn_low [OF lt] by (simp add: arena_def)
qed

lemma same_page_offset:
  assumes "vpn b = vpn va" "va < PLIC" "b < PLIC"
  shows "b - page_of va = b AND 0xfff"
proof -
  have "unat (page_of b) = unat (page_of va)" unfolding page_of_facts(3) using assms vpn_low(1) by simp
  then have "page_of b = page_of va" by (simp add: word_unat_eq_iff)
  then show ?thesis using page_of_facts(4) [of b] by (metis add_diff_cancel_left')
qed

lemma fs_stat_same: "same_disk content f f' \<Longrightarrow> fs_stat nm f' = fs_stat nm f"
proof -
  assume "same_disk content f f'"
  then have o: "dir f' = dir f" "nfiles f' = nfiles f" "mounted f' = mounted f" by (auto simp: same_disk_def only_log_def)
  then have "lookup f' nm = lookup f nm" by (simp add: lookup_def name_at_def)
  then show ?thesis by (simp add: fs_stat_def o)
qed

lemma paged_space:
  fixes s :: "'a kvm_scheme"
  assumes u: "uspace (x # xs) pt F C pg T s" and p: "paged_in pt a x (uperm (vpn a)) msg \<mu> xs s s'" and a: "vpn a \<in> arena - T"
  obtains zs where "uspace zs pt F C (pg(vpn a := x)) (insert (vpn a) T) s'" "length xs \<le> length zs + 2"
    "\<And>q c. q \<in> insert F (insert C (pg ` T)) \<Longrightarrow> page_no c = page_no q \<Longrightarrow> mem s' c = mem s c"
    "\<And>va. vpn va < 16 \<Longrightarrow> leaf (mem s') 2 pt va = leaf (mem s) 2 pt va"
proof -
  let ?H = "insert F (insert C (pg ` T))"
  obtain ys zs where p: "xs = ys @ zs" "length ys \<le> 2" "kmem_ok s' zs" "owned 2 pt s'" "tabs (mem s') 2 pt = tabs (mem s) 2 pt \<union> set ys"
      "refs s' = (\<lambda>q. if q = x \<or> q \<in> set ys then 1 else refs s q)"
      "\<And>c. page_no c \<notin> page_no ` (insert x (tabs (mem s) 2 pt \<union> set ys)) \<Longrightarrow> mem s' c = mem s c"
      "\<And>y. leaf (mem s') 2 pt y = (if vpn y = vpn a then PA2PTE x OR uperm (vpn a) OR PTE_V else leaf (mem s) 2 pt y)"
    using p unfolding paged_in_def by blast
  have k: "kmem_ok s (x # xs)" "owned 2 pt s" and H: "\<And>q. q \<in> ?H \<Longrightarrow> ram_page q \<and> 0 < refs s q \<and> q \<notin> tabs (mem s) 2 pt"
    using u unfolding uspace_def by blast+
  have x: "ram_page x" "x \<notin> set xs" "refs s x = 0" "x \<notin> tabs (mem s) 2 pt" "\<And>q. q \<in> set ys \<Longrightarrow> refs s q = 0 \<and> ram_page q"
    using k(1) owned_not_free [OF k] kmem_ok_free_iff [OF k(1)] p(1) by (auto simp: kmem_ok_def)
  have Hn: "q \<noteq> x" "q \<notin> set ys" if "q \<in> ?H" for q using H [OF that] x(3,5) by auto
  have keep: "mem s' c = mem s c" if q: "q \<in> ?H" "page_no c = page_no q" for q c
  proof (rule p(7), rule)
    assume "page_no c \<in> page_no ` insert x (tabs (mem s) 2 pt \<union> set ys)"
    then obtain r where "r \<in> insert x (tabs (mem s) 2 pt \<union> set ys)" "page_no q = page_no r" using q(2) by auto
    moreover have "ram_page r" using calculation(1) x(1,5) wf_tab_ram k(2) by (auto simp: owned_def)
    ultimately show False using page_no_inject [of q r] H [OF q(1)] Hn [OF q(1)] by auto
  qed
  have low: "leaf (mem s') 2 pt va = leaf (mem s) 2 pt va" if "vpn va < 16" for va using p(8) that a by (auto simp: arena_def)
  have "uspace zs pt F C (pg(vpn a := x)) (insert (vpn a) T) s'"
    unfolding uspace_def
  proof (intro conjI ballI allI impI)
    show "kmem_ok s' zs" "owned 2 pt s'" by fact+
    show "insert (vpn a) T \<subseteq> arena" "F \<noteq> C" using u a by (auto simp: uspace_def)
    have img: "(pg(vpn a := x)) ` insert (vpn a) T = insert x (pg ` T)" using a by auto
    show "inj_on (pg(vpn a := x)) (insert (vpn a) T)" using u a Hn(1) by (auto simp: uspace_def inj_on_def)
    show "F \<notin> (pg(vpn a := x)) ` insert (vpn a) T" "C \<notin> (pg(vpn a := x)) ` insert (vpn a) T"
      unfolding img using u Hn(1) [of F] Hn(1) [of C] by (auto simp: uspace_def)
    fix q assume "q \<in> insert F (insert C ((pg(vpn a := x)) ` insert (vpn a) T))"
    then have "q = x \<or> q \<in> ?H" unfolding img by blast
    then show "ram_page q" "0 < refs s' q" "q \<notin> tabs (mem s') 2 pt" using H [of q] Hn [of q] x p(1) by (auto simp: p(5,6))
  next
    fix va assume "vpn va \<in> insert (vpn a) T"
    then show "leaf (mem s') 2 pt va = PA2PTE ((pg(vpn a := x)) (vpn va)) OR uperm (vpn va) OR PTE_V"
      using u a by (auto simp: p(8) uspace_def)
  next
    fix va assume "vpn va \<in> arena - insert (vpn a) T"
    then show "\<not> bit (leaf (mem s') 2 pt va) 0" using u by (auto simp: p(8) uspace_def)
  qed
  then show thesis using that p(1,2) keep low by simp
qed

text \<open>What the fresh page holds, as the program will see it.\<close>

definition first_bytes :: "u64 \<Rightarrow> uview \<Rightarrow> nat \<Rightarrow> u8" where
  "first_bytes va v k = (if in_heap v va then 0 else file_page (the (mapped v)) (unat (page_of va) - unat MMAPBASE) k)"

abbreviation touch_note :: "uview \<Rightarrow> u64 \<Rightarrow> string" where
  "touch_note v va \<equiv> if in_heap v va then heap_note else mmap_note"

lemma touch_fresh:
  assumes "vpn va \<notin> touched v"
  shows "touch va v = v\<lparr>touched := insert (vpn va) (touched v), bytes := (\<lambda>b. if vpn b = vpn va then first_bytes va v (unat (b - page_of va)) else bytes v b),
    shown := shown v @ puts_bytes (bytes_of (touch_note v va)) @ hex_bytes (page_of va) @ [10]\<rparr>"
  unfolding touch_def first_bytes_def using assms by simp

lemma rep_paged:
  assumes R: "rep content cap hart i f fm texts t (x # xs) F C pg v m" and va: "in_heap v va \<or> in_file v va" "vpn va \<notin> touched v"
    and p: "paged_in (pagetable (proc_at i (kern m))) (page_of va) x (uperm (vpn va)) (touch_note v va) \<mu> xs (kern m) s'"
    and \<mu>: "\<And>c. page_no c = page_no x \<Longrightarrow> \<mu> c = first_bytes va v (unat (c - x))"
    and fl: "same_disk content (files m) f'" "out f' = out (files m)"
  shows "\<exists>zs pg'. rep content cap hart i f fm texts t zs F C pg' (touch va v) (flush (m\<lparr>files := f', kern := s'\<rparr>)) \<and> length xs \<le> length zs + 2 \<and>
    proc_at i s' = proc_at i (kern m) \<and> (\<forall>c. page_no c = page_no F \<longrightarrow> mem s' c = mem (kern m) c)"
proof -
  let ?s = "kern m" and ?p = "proc_at i (kern m)" and ?pt = "pagetable (proc_at i (kern m))" and ?n = "vpn va"
  have r: "running hart i v ?s" "uspace (x # xs) ?pt F C pg (touched v) ?s" "frame_at f F ?pt (mem ?s)" "holds pg v (mem ?s)" "says texts C ?pt (mem ?s)"
      "filed content cap fm ?p v (files m)" "printed (t @ shown v) m"
    using R by (simp_all add: rep_def Let_def)
  note A = in_arena [OF va(1)]
  have p': "paged_in ?pt (page_of va) x (uperm (vpn (page_of va))) (touch_note v va) \<mu> xs ?s s'" using p by (simp add: page_of_facts(2))
  have ar: "vpn (page_of va) \<in> arena - touched v" using A(1) va(2) by (simp add: page_of_facts(2))
  obtain zs where z: "uspace zs ?pt F C (pg(?n := x)) (insert ?n (touched v)) s'" "length xs \<le> length zs + 2"
      "\<And>q c. q \<in> insert F (insert C (pg ` touched v)) \<Longrightarrow> page_no c = page_no q \<Longrightarrow> mem s' c = mem ?s c"
      "\<And>va. vpn va < 16 \<Longrightarrow> leaf (mem s') 2 ?pt va = leaf (mem ?s) 2 ?pt va"
    using paged_space [OF r(2) p' ar] unfolding page_of_facts(2) by metis
  have more: "kvm.more s' = kvm.more ?s" "vout s' = vout ?s @ puts_bytes (bytes_of (touch_note v va)) @ hex_bytes (page_of va) @ [10]"
      and mx: "\<And>c. page_no c = page_no x \<Longrightarrow> mem s' c = \<mu> c" using p by (simp_all add: paged_in_def)
  note P = kproc_more(1,2) [OF more(1)]
  have C: "ram_page C" "ram_page x" using r(2) by (auto simp: uspace_def kmem_ok_def)
  have pa: "proc_at j s' = proc_at j ?s" for j using P(1) by (simp add: proc_at_def)
  let ?m = "flush (m\<lparr>files := f', kern := s'\<rparr>)"
  have "running hart i (touch va v) (kern ?m)"
    using r(1) P by (simp add: running_def flush_def touch_fresh [OF va(2)] current_proc_def proc_at_def)
  moreover have "uspace zs ?pt F C (pg(?n := x)) (touched (touch va v)) (kern ?m)"
  proof -
    have "refs (s'\<lparr>vout := []\<rparr>) = refs s'" by (simp add: refs_def fun_eq_iff)
    then show ?thesis using z(1) by (simp add: uspace_def flush_def touch_fresh [OF va(2)] kmem_ok_def owned_def)
  qed
  moreover have "frame_at f F ?pt (mem s')" by (rule frame_at_cong [OF r(3) z(4)])
  moreover have "says texts C ?pt (mem s')" by (rule says_cong [OF r(5) C(1) z(4) z(3)]) simp_all
  moreover have "holds (pg(?n := x)) (touch va v) (mem s')"
    unfolding holds_def
  proof (intro allI impI)
    fix b assume b: "b < PLIC" "vpn b \<in> touched (touch va v)"
    show "mem s' ((pg(?n := x)) (vpn b) + (b AND 0xfff)) = bytes (touch va v) b"
    proof (cases "vpn b = ?n")
      case True
      have "page_no (x + (b AND 0xfff)) = page_no x" by (rule page_no_offset [OF ram_page_aligned [OF C(2)]])
      then show ?thesis using mx \<mu> same_page_offset [OF True A(2) b(1)] True by (simp add: touch_fresh [OF va(2)])
    next
      case False
      then have t: "vpn b \<in> touched v" using b(2) by (simp add: touch_fresh [OF va(2)])
      then have "ram_page (pg (vpn b))" using r(2) by (auto simp: uspace_def)
      then have "mem s' (pg (vpn b) + (b AND 0xfff)) = mem ?s (pg (vpn b) + (b AND 0xfff))"
        by (intro z(3) [of "pg (vpn b)"] page_no_offset ram_page_aligned) (use t in auto)
      then show ?thesis using r(4) b(1) t False by (simp add: holds_def touch_fresh [OF va(2)])
    qed
  qed
  moreover have "filed content cap fm ?p (touch va v) (files ?m)"
  proof -
    have "same_disk content (files m) (files ?m)" using fl(1) by (simp add: flush_def same_disk_def only_log_def)
    then show ?thesis
      using r(6) same_disk_fs [of content "files m" "files ?m" cap] fs_stat_same [of content "files m" "files ?m"] by (auto simp: filed_def touch_fresh [OF va(2)])
  qed
  moreover have "printed (t @ shown (touch va v)) ?m" using r(7) more(2) fl(2) by (simp add: printed_def flush_def touch_fresh [OF va(2)])
  moreover have "proc_at i (kern ?m) = ?p" by (simp add: pa)
  moreover have "\<forall>c. page_no c = page_no F \<longrightarrow> mem s' c = mem ?s c" using z(3) [of F] by simp
  ultimately show ?thesis using z(2) by (intro exI [of _ zs] exI [of _ "pg(?n := x)"]) (simp add: rep_def Let_def pa)
qed

lemma frame_page_regs:
  assumes R: "rep content cap hart i f fm texts t xs F C pg v m" and R': "rep content cap hart i f fm texts t' xs' F C pg' v' m'"
    and keep: "\<And>c. page_no c = page_no F \<Longrightarrow> mem (kern m') c = mem (kern m) c" and k: "k < 32"
  shows "get_reg hart f (nth_reg k) m' = get_reg hart f (nth_reg k) m"
proof -
  note F = rep_frame(1,2) [OF R] and F' = rep_frame(1,2) [OF R']
  have l: "unat f mod 4096 + 256 \<le> 4096" using F(1) by (simp add: frame_ok_def)
  have a: "frame_pa hart f (nth_reg k) m' = frame_pa hart f (nth_reg k) m"
    unfolding frame_pa_eq [OF l k] F(2) F'(2) ..
  have "ld64 (mem (kern m')) (frame_pa hart f (nth_reg k) m) = ld64 (mem (kern m)) (frame_pa hart f (nth_reg k) m)"
    by (rule ld64_same_page) (use frame_addr(1,2) [OF F(1) k] keep F(2) in simp_all)
  then show ?thesis by (simp add: get_reg_def a)
qed

lemma mmap_reach:
  fixes sz :: u32
  assumes "unat sz < 2 ^ 31" "unat a < unat MMAPBASE + unat sz"
  shows "a < MMAPBASE + (ucast (sz + 4096 - 1) AND NOT 0xfff)"
proof -
  let ?e = "ucast (sz + 4096 - 1) AND NOT 0xfff :: u64"
  note e = mmap_round [OF assms(1)]
  have "unat (MMAPBASE + ?e) = unat MMAPBASE + unat ?e" using assms(1) unfolding unat_word_ariths e by (intro mod_less) (simp add: MMAPBASE_def)
  moreover have "unat sz \<le> unat ?e" unfolding e using div_mult_mod_eq [of "unat sz + 4095" 4096] mod_less_divisor [of 4096 "unat sz + 4095"] by linarith
  ultimately show ?thesis using assms(2) by (simp add: word_less_nat_alt)
qed

lemma fault_step:
  assumes R: "rep content cap hart i (usp - 256) fm texts t (x # xs) F C pg v m" and va: "in_heap v va \<or> in_file v va" "vpn va \<notin> touched v"
    and room: "2 < length xs" and dev: "blk_device (blk hw) content cap dies" and c: "cause = (if store then SCAUSE_STORE_FAULT else SCAUSE_LOAD_FAULT)"
  shows "dies \<and> (\<exists>d. utrap hw hart cause va usp g m = Some (Inl d)) \<or>
    (\<exists>g' m' zs pg'. utrap hw hart cause va usp g m = ret (Back (g', m')) \<and> kept [] g g' \<and>
       rep content cap hart i (usp - 256) fm texts t zs F C pg' (touch va v) m' \<and> length xs \<le> length zs + 2 \<and> proc_at i (kern m') = proc_at i (kern m))"
proof -
  note S = save_frame_ok(1) [OF R, where g = g]
  let ?m = "save_frame hart (usp - 256) g m"
  let ?s = "kern ?m" and ?p = "proc_at i (kern ?m)" and ?a = "page_of va"
  have r: "running hart i v ?s" "uspace (x # xs) (pagetable ?p) F C pg (touched v) ?s" "filed content cap fm ?p v (files ?m)"
    using S by (simp_all add: rep_def Let_def)
  note A = in_arena [OF va(1)]
  have k: "kmem_ok ?s (x # xs)" "current_proc hart ?s = Some i" "is_user ?p" "owned 2 (pagetable ?p) ?s" and n: "\<not> bit (leaf (mem ?s) 2 (pagetable ?p) va) 0"
    using r(1,2) A(1) va(2) by (auto simp: uspace_def running_def)
  have trap: "utrap hw hart cause va usp g m =
      run_bind (proc_pagefault (blk hw) hart va store (files ?m) ?s) (\<lambda>(b, fl, k).
        let m' = flush (?m\<lparr>files := fl, kern := k\<rparr>) in
        ret (map_outcome (\<lambda>m. (load_frame hart (usp - 256) m, m)) (if b then Back m' else Halted (print (exception_text \<lparr>scause = cause, sepc_r = g 30, stval = va, time_r = 0, status_r = g 31\<rparr>) m'))))"
    using c by (simp add: utrap_def kerneltrap_def fault_def SCAUSE_defs run_bind_def Let_def split: option.splits sum.splits prod.splits)
  have done1: ?thesis if h: "proc_pagefault (blk hw) hart va store (files ?m) ?s = Some (Inr (True, f', s'))" "same_disk content (files ?m) f'" "out f' = out (files ?m)"
      "paged_in (pagetable ?p) ?a x (uperm (vpn va)) (touch_note v va) \<mu> xs ?s s'" "\<And>c. page_no c = page_no x \<Longrightarrow> \<mu> c = first_bytes va v (unat (c - x))" for f' s' \<mu>
  proof -
    let ?m' = "flush (?m\<lparr>files := f', kern := s'\<rparr>)"
    obtain zs pg' where z: "rep content cap hart i (usp - 256) fm texts t zs F C pg' (touch va v) ?m'" "length xs \<le> length zs + 2"
        "proc_at i s' = ?p" "\<forall>c. page_no c = page_no F \<longrightarrow> mem s' c = mem ?s c" using rep_paged [OF S va h(4,5,2,3)] by blast
    have "get_reg hart (usp - 256) (nth_reg k) ?m' = g k" if "k < 32" for k
      using frame_page_regs [OF S z(1) _ that] z(4) save_frame_ok(2) [OF R that, of g] by (simp add: flush_def)
    then have "kept [] g (load_frame hart (usp - 256) ?m')" by (intro kept_I) (simp add: load_frame_def)
    then show ?thesis using h(1) z by (auto simp: trap Let_def save_frame_procs)
  qed
  show ?thesis
  proof (cases "in_heap v va")
    case True
    have a: "?a = va AND NOT 0xfff" "HEAPBASE \<le> ?a" "?a < heap_top ?p" "unat ?a + 4096 \<le> 2 ^ 39"
      using True r(1) page_of_facts(3) [of va] A(2) by (auto simp: in_heap_def running_def page_of_def word_less_nat_alt PLIC_def)
    obtain b s' where h: "proc_pagefault (blk hw) hart va store (files ?m) ?s = Some (Inr (b, files ?m, s'))" "2 < length xs \<longrightarrow> b"
        "paged (pagetable ?p) ?a x (PTE_R OR PTE_W OR PTE_U) heap_note (set_loop (mem ?s) x 0 4096) xs ?s b s'"
        "\<forall>c. page_no c = page_no x \<longrightarrow> set_loop (mem ?s) x 0 4096 c = 0"
      by (rule heap_fault_handled [OF k(1-3) refl k(4) a n, where dev = "blk hw" and store = store and f = "files ?m"])
    have sd: "same_disk content (files ?m) (files ?m)" using r(3) by (simp add: filed_def fs_ok_def same_disk_def)
    show ?thesis
      by (rule done1 [OF _ sd refl, of s' "set_loop (mem ?s) x 0 4096"]) (use h room True A(3) in \<open>auto simp: paged_def uperm_def first_bytes_def\<close>)
  next
    case False
    then obtain data where d: "mapped v = Some data" "MMAPBASE \<le> va" "va < PLIC" "unat ?a < unat MMAPBASE + length data"
      using va(1) by (auto simp: in_file_def split: option.splits)
    obtain nm where st: "mmap_base ?p = MMAPBASE" "fs_ok content cap (files ?m)" "fs_stat nm (files ?m) = Some (mmap_start ?p, mmap_size ?p)"
        "fs_files content (files ?m) (cstr nm) = Some data" using r(3) d(1) by (auto simp: filed_def)
    obtain e where e: "e \<in> set (live (files ?m))" "fsize e = mmap_size ?p" "fs_files content (files ?m) (cstr nm) = Some (file_data (img content (files ?m)) e)"
      by (rule blk_device.fs_stat_data [OF dev st(2,3)])
    have sz: "unat (mmap_size ?p) < 2 ^ 31" "length data = unat (mmap_size ?p)"
      using blk_device.entry_blocks(1) [OF dev st(2) e(1)] e(2,3) st(4) by (simp_all add: file_data_def)
    have ge: "MMAPBASE \<le> ?a"
    proof -
      have "1048576 div 4096 \<le> unat va div 4096" using d(2) by (intro div_le_mono) (simp add: word_le_nat_alt MMAPBASE_def)
      then show ?thesis using page_of_facts(3) [of va] by (simp add: word_le_nat_alt MMAPBASE_def)
    qed
    have a: "?a = va AND NOT 0xfff" "\<not> (HEAPBASE \<le> ?a \<and> ?a < heap_top ?p)" using ge r(1) by (auto simp: page_of_def running_def)
    have b: "MMAPBASE = mmap_base ?p" "0 < MMAPBASE" "take_bit 12 MMAPBASE = 0" "unat MMAPBASE < 2 ^ 38" "MMAPBASE \<le> ?a" "?a < mmap_end ?p"
      using st(1) ge mmap_reach [OF sz(1), of ?a] d(4) sz(2) by (simp_all add: mmap_end_def) (simp_all add: MMAPBASE_def)
    note M = blk_device.mmap_fault_handled [OF dev k(1-3) refl k(4) n a b st(2-4), where store = store]
    then show ?thesis
    proof (elim disjE exE conjE)
      fix d assume "dies" "proc_pagefault (blk hw) hart va store (files ?m) ?s = Some (Inl d)"
      then show ?thesis by (simp add: trap)
    next
      fix g1 s' f' \<mu>
      assume h: "proc_pagefault (blk hw) hart va store (files ?m) ?s = Some (Inr (g1, f', s'))" "2 < length xs \<longrightarrow> g1" "same_disk content (files ?m) f'" "out f' = out (files ?m)"
        "paged (pagetable ?p) ?a x (PTE_R OR PTE_U) mmap_note \<mu> xs ?s g1 s'" "\<forall>c. page_no c = page_no x \<longrightarrow> \<mu> c = file_page data (unat (?a - MMAPBASE)) (unat (c - x))"
      have "unat (?a - MMAPBASE) = unat ?a - unat MMAPBASE" using ge by (simp add: unat_sub word_le_nat_alt)
      then show ?thesis
        by (intro done1 [OF _ h(3,4), of s' \<mu>]) (use h room False A(3) d(1) in \<open>auto simp: paged_def uperm_def first_bytes_def\<close>)
    qed
  qed
qed

section \<open>Loads and stores\<close>

lemma utranslate_touched:
  assumes u: "uspace xs pt F C pg T s" and n: "vpn va \<in> T" "store \<longrightarrow> vpn va < 256"
  shows "utranslate (mem s) pt store va = Some (pg (vpn va) + (va AND 0xfff))"
proof -
  let ?q = "pg (vpn va)"
  have l: "leaf (mem s) 2 pt va = PA2PTE ?q OR (uperm (vpn va) OR PTE_V)" and q: "take_bit 12 ?q = 0"
    using u n(1) ram_page_aligned unfolding uspace_def by (auto simp: or.assoc)
  have p: "take_bit 10 (uperm (vpn va) OR PTE_V) = uperm (vpn va) OR PTE_V" by (simp add: uperm_def PTE_R_def PTE_W_def PTE_U_def PTE_V_def)
  have "PTE2PA (leaf (mem s) 2 pt va) = ?q" unfolding l by (rule PTE2PA_make [OF q p])
  moreover have "bit (leaf (mem s) 2 pt va) 0" "bit (leaf (mem s) 2 pt va) 1" "bit (leaf (mem s) 2 pt va) 4" "store \<Longrightarrow> bit (leaf (mem s) 2 pt va) 2"
    using n(2) unfolding l uperm_def by (simp_all add: bit_simps PTE_R_def PTE_W_def PTE_U_def PTE_V_def)
  ultimately show ?thesis by (simp add: utranslate_def translate_def Let_def)
qed

lemma access_step:
  assumes R: "rep content cap hart i (usp - 256) fm texts t xs F C pg v m" and va: "in_heap v va \<or> in_file v va" "store \<longrightarrow> in_heap v va"
    and room: "vpn va \<notin> touched v \<longrightarrow> 3 < length xs" and dev: "blk_device (blk hw) content cap dies"
  shows "dies \<and> (\<exists>d. uaccess hw hart usp store va g m = Some (Inl d)) \<or>
    (\<exists>g' m' zs pg'. uaccess hw hart usp store va g m = ret (Back (pg' (vpn va) + (va AND 0xfff), g', m')) \<and>
       rep content cap hart i (usp - 256) fm texts t zs F C pg' (touch va v) m' \<and> length xs \<le> length zs + (if vpn va \<in> touched v then 0 else 3))"
proof -
  let ?pt = "pagetable (proc_at i (kern m))"
  have u: "uspace xs ?pt F C pg (touched v) (kern m)" using R by (simp add: rep_def Let_def)
  note A = in_arena [OF va(1)] and cp = rep_frame(3) [OF R]
  have st: "store \<longrightarrow> vpn va < 256" using va(2) A(3) by blast
  show ?thesis
  proof (cases "vpn va \<in> touched v")
    case True
    then have "uaccess hw hart usp store va g m = ret (Back (pg (vpn va) + (va AND 0xfff), g, m))"
      using utranslate_touched [OF u True st] by (simp add: uaccess.simps cp)
    then show ?thesis using R True by (auto simp: touch_def)
  next
    case False
    then have "\<not> bit (leaf (mem (kern m)) 2 ?pt va) 0" using u A(1) by (auto simp: uspace_def)
    then have none: "utranslate (mem (kern m)) ?pt store va = None" by (simp add: utranslate_def translate_def)
    obtain x ys where xs: "xs = x # ys" "2 < length ys" using room False by (cases xs) auto
    let ?c = "if store then SCAUSE_STORE_FAULT else SCAUSE_LOAD_FAULT"
    from fault_step [OF R [unfolded xs(1)] va(1) False xs(2) dev refl, where store = store and g = g] show ?thesis
    proof (elim disjE exE conjE)
      fix d assume "dies" "utrap hw hart ?c va usp g m = Some (Inl d)"
      then show ?thesis by (simp add: uaccess.simps [of _ _ _ _ _ _ m] cp none)
    next
      fix g' m' zs pg'
      assume kg: "kept [] g g'" and f: "utrap hw hart ?c va usp g m = ret (Back (g', m'))" "rep content cap hart i (usp - 256) fm texts t zs F C pg' (touch va v) m'"
        "length ys \<le> length zs + 2" "proc_at i (kern m') = proc_at i (kern m)"
      have "uspace zs ?pt F C pg' (touched (touch va v)) (kern m')" using f(2,4) by (simp add: rep_def Let_def)
      moreover have "vpn va \<in> touched (touch va v)" by (simp add: touch_fresh [OF False])
      ultimately have "utranslate (mem (kern m')) ?pt store va = Some (pg' (vpn va) + (va AND 0xfff))" using utranslate_touched st by blast
      moreover have "cur_pt hart m' = Some ?pt" using rep_frame(3) [OF f(2)] f(4) by simp
      ultimately have "uaccess hw hart usp store va g' m' = ret (Back (pg' (vpn va) + (va AND 0xfff), g', m'))" by (simp add: uaccess.simps)
      then have "uaccess hw hart usp store va g m = ret (Back (pg' (vpn va) + (va AND 0xfff), g', m'))"
        using f(1) kg by (simp add: uaccess.simps [of _ _ _ _ _ _ m] cp none)
      then show ?thesis using f(2,3) xs(1) False by (intro disjI2 exI [of _ g'] exI [of _ m'] exI [of _ zs] exI [of _ pg']) simp
    qed
  qed
qed

text \<open>The byte that is loaded, and the effect of storing one.\<close>

lemma load_byte:
  assumes "rep content cap hart i f fm texts t xs F C pg v m" "vpn va \<in> touched v" "va < PLIC"
  shows "mem (kern m) (pg (vpn va) + (va AND 0xfff)) = bytes v va"
  using assms by (simp add: rep_def Let_def holds_def)

lemma store_byte:
  assumes R: "rep content cap hart i f fm texts t xs F C pg v m" and va: "vpn va \<in> touched v" "va < PLIC"
  shows "rep content cap hart i f fm texts t xs F C pg (v\<lparr>bytes := (bytes v)(va := c)\<rparr>)
    (m\<lparr>kern := kern m\<lparr>mem := (mem (kern m))(pg (vpn va) + (va AND 0xfff) := c)\<rparr>\<rparr>)"
proof (rule rep_write [OF R, of "pg (vpn va)"])
  have u: "uspace xs (pagetable (proc_at i (kern m))) F C pg (touched v) (kern m)" and h: "holds pg v (mem (kern m))" using R by (simp_all add: rep_def Let_def)
  have rp: "ram_page (pg n)" if "n \<in> touched v" for n using u that by (auto simp: uspace_def)
  note pn = page_no_offset [OF ram_page_aligned [OF rp]]
  let ?\<mu> = "(mem (kern m))(pg (vpn va) + (va AND 0xfff) := c)"
  show "pg (vpn va) \<in> insert F (pg ` touched v)" using va(1) by blast
  show "?\<mu> d = mem (kern m) d" if "page_no d \<noteq> page_no (pg (vpn va))" for d using that pn [OF va(1)] by auto
  show "holds pg (v\<lparr>bytes := (bytes v)(va := c)\<rparr>) ?\<mu>"
    unfolding holds_def
  proof (intro allI impI)
    fix b assume b: "b < PLIC" "vpn b \<in> touched (v\<lparr>bytes := (bytes v)(va := c)\<rparr>)"
    have "b = va" if e: "pg (vpn b) + (b AND 0xfff) = pg (vpn va) + (va AND 0xfff)"
    proof -
      have "page_no (pg (vpn b)) = page_no (pg (vpn va))" using pn [of "vpn b" b] pn [OF va(1), of va] b(2) e by simp
      then have "pg (vpn b) = pg (vpn va)" using page_no_inject [OF rp rp] b(2) va(1) by simp
      then have v: "vpn b = vpn va" using u b(2) va(1) by (auto simp: uspace_def inj_on_def)
      then have "b - page_of va = va - page_of va" using e same_page_offset [OF v va(2) b(1)] same_page_offset [OF refl va(2) va(2)] by simp
      then show ?thesis by simp
    qed
    then show "?\<mu> (pg (vpn b) + (b AND 0xfff)) = bytes (v\<lparr>bytes := (bytes v)(va := c)\<rparr>) b"
      using h b by (auto simp: holds_def)
  qed
qed

section \<open>The simulation\<close>

lemma touch_touched: "touched (touch va v) = insert (vpn va) (touched v)"
  by (auto simp: touch_def)

lemma uspec_touched: "uspec p fm texts v = Some v' \<Longrightarrow> touched v \<subseteq> touched v' \<and> (touched v \<subseteq> arena \<longrightarrow> touched v' \<subseteq> arena)"
proof (induction p arbitrary: v)
  case (Ecall n a b k)
  show ?case
    using Ecall.prems by (auto simp: Let_def split: if_splits option.splits dest!: Ecall.IH [OF rangeI])
next
  case (Load va k)
  then have "in_heap v va \<or> in_file v va" and u: "uspec (k (bytes (touch va v) va)) fm texts (touch va v) = Some v'"
    by (auto simp: Let_def split: if_splits)
  then show ?case using Load.IH [OF rangeI u] in_arena(1) by (auto simp: touch_touched)
next
  case (Store va c p)
  then have "in_heap v va \<or> in_file v va" and u: "uspec p fm texts ((touch va v)\<lparr>bytes := (bytes (touch va v))(va := c)\<rparr>) = Some v'"
    by (auto simp: Let_def split: if_splits)
  then show ?case using Store.IH [OF u] in_arena(1) by (auto simp: touch_touched)
qed simp

lemma wakeup_length: "length (proctable (wakeup c s)) = length (proctable s)"
proof -
  have "length (proctable (fold (\<lambda>i s. if state (proc_at i s) = SLEEPING \<and> chan (proc_at i s) = c then set_state i RUNNABLE s else s) js s)) = length (proctable s)" for js
    by (induction js arbitrary: s) (auto simp: set_state_def)
  then show ?thesis by (simp add: wakeup_def)
qed

lemma proc_exit_zombie: "i < length (proctable s) \<Longrightarrow> state (proc_at i (proc_exit i s)) = ZOMBIE"
  by (simp add: proc_exit_def Let_def set_state_def wakeup_length split: option.split)

lemma sys_exit_step:
  assumes R: "rep content cap hart i (usp - 256) fm texts t xs F C pg v m" and g: "g 15 = SYS_exit"
  shows "\<exists>g' m'. utrap hw hart SCAUSE_U_ECALL 0 usp g m = ret (Exited (g', m')) \<and> tty m' = t @ shown v \<and> state (proc_at i (kern m')) = ZOMBIE \<and>
    fs_files content (files m') = fm"
proof -
  note S = save_frame_ok [OF R, where g = g]
  let ?m = "save_frame hart (usp - 256) g m"
  have c: "running hart i v (kern ?m)" "printed (t @ shown v) ?m" "filed content cap fm (proc_at i (kern ?m)) v (files ?m)" using S(1) by (simp_all add: rep_def Let_def)
  have "syscall hw hart (g 31) [] (usp - 256) ?m = ret (Exited (?m\<lparr>kern := proc_exit i (kern ?m)\<rparr>))"
    using c(1) by (simp add: syscall_def FR_nth S(2) g SYS_defs running_def)
  then have "utrap hw hart SCAUSE_U_ECALL 0 usp g m = ret (Exited (load_frame hart (usp - 256) (?m\<lparr>kern := proc_exit i (kern ?m)\<rparr>), ?m\<lparr>kern := proc_exit i (kern ?m)\<rparr>))"
    by (simp add: utrap_def kerneltrap_def ecall_def SCAUSE_defs)
  then show ?thesis using c proc_exit_zombie [of i "kern ?m"] by (simp add: running_def printed_def filed_def)
qed

definition ends_as :: "bool \<Rightarrow> ('d \<Rightarrow> image) \<Rightarrow> nat \<Rightarrow> (u8 list \<rightharpoonup> u8 list) \<Rightarrow> u8 list \<Rightarrow> ('d, ('d, 'n, 'u, 'p) machine outcome) run \<Rightarrow> bool" where
  "ends_as dies content i fm t r \<longleftrightarrow>
     dies \<and> (\<exists>d. r = Some (Inl d)) \<or>
     (\<exists>m'. r = ret (Exited m') \<and> tty m' = t \<and> state (proc_at i (kern m')) = ZOMBIE \<and> fs_files content (files m') = fm)"

lemma touch_within:
  assumes "rep content cap hart i f fm texts t xs F C pg v m" "in_heap v va \<or> in_file v va" "uspec p fm texts ((touch va v)\<lparr>bytes := \<beta>\<rparr>) = Some v'"
  shows "touched (touch va v) \<subseteq> touched v'" "finite (touched v')"
proof -
  have "touched (touch va v) \<subseteq> arena" using assms(1) in_arena(1) [OF assms(2)] by (auto simp: rep_def Let_def uspace_def touch_touched)
  then show "touched (touch va v) \<subseteq> touched v'" "finite (touched v')"
    using uspec_touched [OF assms(3)] finite_subset [of "touched v'" arena] by (auto simp: arena_def)
qed

lemma touch_room:
  assumes "touched (touch va v) \<subseteq> touched v'" "finite (touched v')" "3 * Finite_Set.card (touched v' - touched v) < n"
  shows "vpn va \<notin> touched v \<longrightarrow> 3 < n" "n \<le> z + (if vpn va \<in> touched v then 0 else 3) \<Longrightarrow> 3 * Finite_Set.card (touched v' - touched (touch va v)) < z"
proof -
  have "3 < n" "3 * Finite_Set.card (touched v' - touched (touch va v)) + 3 < n" if "vpn va \<notin> touched v"
  proof -
    have e: "touched v' - touched v = insert (vpn va) (touched v' - touched (touch va v))" using assms(1) that by (auto simp: touch_touched)
    have "Finite_Set.card (touched v' - touched v) = Suc (Finite_Set.card (touched v' - touched (touch va v)))"
      unfolding e using assms(2) by (subst card_insert_disjoint) (auto simp: touch_touched)
    then show "3 < n" "3 * Finite_Set.card (touched v' - touched (touch va v)) + 3 < n" using assms(3) by simp_all
  qed
  moreover have "touched (touch va v) = touched v" if "vpn va \<in> touched v" using that by (auto simp: touch_touched)
  ultimately show "vpn va \<notin> touched v \<longrightarrow> 3 < n" "n \<le> z + (if vpn va \<in> touched v then 0 else 3) \<Longrightarrow> 3 * Finite_Set.card (touched v' - touched (touch va v)) < z"
    using assms(3) by (auto split: if_splits)
qed

lemma uecall_back:
  assumes "utrap hw hart SCAUSE_U_ECALL 0 usp g m = ret (Back (g', m'))" "resumed g g'"
  shows "uecall hw hart usp g m = ret (Back (g', m'))"
  using assms by (simp add: uecall.simps [of _ _ _ _ m] resumed_def)

lemma uecall_exit: "utrap hw hart SCAUSE_U_ECALL 0 usp g m = ret (Exited x) \<Longrightarrow> uecall hw hart usp g m = ret (Exited x)"
  by (simp add: uecall.simps [of _ _ _ _ m])

lemma urun_sim:
  assumes dev: "blk_device (blk hw) content cap dies"
  shows "uspec p fm texts v = Some v' \<Longrightarrow> rep content cap hart i (usp - 256) fm texts t xs F C pg v m \<Longrightarrow>
    3 * Finite_Set.card (touched v' - touched v) < length xs \<Longrightarrow> ends_as dies content i fm (t @ shown v') (urun p lay j hw hart usp g m)"
proof (induction p arbitrary: v m g j xs pg)
  case (Ecall n a b k)
  note R = Ecall.prems(2) and IH = Ecall.IH [OF rangeI]
  define G where "G = (case b of None \<Rightarrow> (lay j g)(8 := a, 15 := n) | Some w \<Rightarrow> ((lay j g)(8 := a, 15 := n))(9 := w))"
  have G: "G 8 = a" "G 15 = n" by (simp_all add: G_def split: option.split)
  have run: "urun (Ecall n a b k) lay j hw hart usp g m = run_bind (uecall hw hart usp G m) (\<lambda>r.
        case r of Back (g', m) \<Rightarrow> if resumed G g' then urun (k (g' 8)) lay (Suc j) hw hart usp g' m else None | _ \<Rightarrow> ret (map_outcome snd r))"
    by (simp only: urun.simps Let_def G_def)
  have next1: ?case if s: "\<exists>g' m'. utrap hw hart SCAUSE_U_ECALL 0 usp G m = ret (Back (g', m')) \<and> resumed G g' \<and> g' 8 = r \<and> rep content cap hart i (usp - 256) fm texts t xs F C pg w m'"
      "uspec (k r) fm texts w = Some v'" "touched w = touched v" for r w
  proof -
    obtain g' m' where b: "utrap hw hart SCAUSE_U_ECALL 0 usp G m = ret (Back (g', m'))" "resumed G g'" "g' 8 = r"
        "rep content cap hart i (usp - 256) fm texts t xs F C pg w m'"
      using s(1) by blast
    then show ?thesis using IH [OF s(2)] Ecall.prems(3) s(3) uecall_back [OF b(1,2)] unfolding run by simp
  qed
  consider "n = SYS_putchar" | "n = SYS_sbrk" | "n = SYS_mmap" | "n = SYS_exit" | "n \<notin> {SYS_putchar, SYS_sbrk, SYS_mmap, SYS_exit}" by blast
  then show ?case
  proof cases
    case 1
    then show ?thesis using sys_putchar_step [OF R, of G hw] Ecall.prems(1) G by (intro next1 [of 0 "v\<lparr>shown := shown v @ [ucast a]\<rparr>"]) simp_all
  next
    case 2
    let ?i = "nat (sint (ucast a :: u32))"
    have u: "unat (brk v) + ?i \<le> unat MMAPBASE" "uspec (k (brk v)) fm texts (v\<lparr>brk := brk v + of_nat ?i\<rparr>) = Some v'"
      using Ecall.prems(1) 2 by (auto simp: SYS_defs Let_def split: if_splits)
    show ?thesis by (rule next1 [OF _ u(2)]) (use sys_sbrk_step [OF R, of G ?i hw] u(1) 2 G in simp_all)
  next
    case 3
    obtain nm where nm: "texts a = Some nm" using Ecall.prems(1) 3 by (auto simp: SYS_defs split: option.splits)
    have s: "\<exists>g' m'. utrap hw hart SCAUSE_U_ECALL 0 usp G m = ret (Back (g', m')) \<and> resumed G g' \<and>
      (case fm nm of
         None \<Rightarrow> g' 8 = -1 \<and> rep content cap hart i (usp - 256) fm texts t xs F C pg v m'
       | Some data \<Rightarrow> g' 8 = MMAPBASE \<and> (mapped v = None \<longrightarrow> rep content cap hart i (usp - 256) fm texts t xs F C pg (v\<lparr>mapped := Some data\<rparr>) m'))"
      by (rule sys_mmap_step [OF R]) (use 3 G nm in simp_all)
    show ?thesis
    proof (cases "fm nm")
      case None
      then show ?thesis using s Ecall.prems(1) 3 nm by (intro next1 [of "-1" v]) (auto simp: SYS_defs)
    next
      case (Some data)
      then have "mapped v = None" "uspec (k MMAPBASE) fm texts (v\<lparr>mapped := Some data\<rparr>) = Some v'" using Ecall.prems(1) 3 nm by (auto simp: SYS_defs split: if_splits)
      then show ?thesis using s Some by (intro next1 [of MMAPBASE "v\<lparr>mapped := Some data\<rparr>"]) auto
    qed
  next
    case 4
    then have "v' = v" using Ecall.prems(1) by (simp add: SYS_defs)
    moreover obtain g' m' where x: "utrap hw hart SCAUSE_U_ECALL 0 usp G m = ret (Exited (g', m'))" "tty m' = t @ shown v" "state (proc_at i (kern m')) = ZOMBIE"
        "fs_files content (files m') = fm" using sys_exit_step [OF R, of G hw] 4 G by auto
    ultimately show ?thesis unfolding run uecall_exit [OF x(1)] by (simp add: ends_as_def)
  next
    case 5
    then show ?thesis using Ecall.prems(1) by simp
  qed
next
  case (Load va k)
  then have va: "in_heap v va \<or> in_file v va" and u: "uspec (k (bytes (touch va v) va)) fm texts (touch va v) = Some v'" by (auto simp: Let_def split: if_splits)
  note R = Load.prems(2) and va' = va
  have "uspec (k (bytes (touch va v) va)) fm texts ((touch va v)\<lparr>bytes := bytes (touch va v)\<rparr>) = Some v'" using u by simp
  note fin = touch_within [OF R va' this]
  note room = touch_room [OF fin Load.prems(3)]
  have "False \<longrightarrow> in_heap v va" by simp
  from access_step [OF R va this room(1) dev, where g = "lay j g"] show ?case
  proof (elim disjE exE conjE)
    fix d assume "dies" "uaccess hw hart usp False va (lay j g) m = Some (Inl d)"
    then show ?case by (simp add: ends_as_def)
  next
    fix g' m' zs pg'
    assume a: "uaccess hw hart usp False va (lay j g) m = ret (Back (pg' (vpn va) + (va AND 0xfff), g', m'))"
      "rep content cap hart i (usp - 256) fm texts t zs F C pg' (touch va v) m'" "length xs \<le> length zs + (if vpn va \<in> touched v then 0 else 3)"
    have "mem (kern m') (pg' (vpn va) + (va AND 0xfff)) = bytes (touch va v) va"
      by (rule load_byte [OF a(2)]) (use in_arena(2) [OF va] in \<open>simp_all add: touch_touched\<close>)
    then show ?case using Load.IH [OF rangeI u a(2) room(2) [OF a(3)]] a(1) by simp
  qed
next
  case (Store va c p)
  then have va: "in_heap v va" and u: "uspec p fm texts ((touch va v)\<lparr>bytes := (bytes (touch va v))(va := c)\<rparr>) = Some v'" by (auto simp: Let_def split: if_splits)
  note R = Store.prems(2)
  have va': "in_heap v va \<or> in_file v va" using va by simp
  note room = touch_room [OF touch_within [OF R va' u] Store.prems(3)]
  have "True \<longrightarrow> in_heap v va" using va by simp
  from access_step [OF R va' this room(1) dev, where g = "lay j g"] show ?case
  proof (elim disjE exE conjE)
    fix d assume "dies" "uaccess hw hart usp True va (lay j g) m = Some (Inl d)"
    then show ?case by (simp add: ends_as_def)
  next
    fix g' m' zs pg'
    assume a: "uaccess hw hart usp True va (lay j g) m = ret (Back (pg' (vpn va) + (va AND 0xfff), g', m'))"
      "rep content cap hart i (usp - 256) fm texts t zs F C pg' (touch va v) m'" "length xs \<le> length zs + (if vpn va \<in> touched v then 0 else 3)"
    have "vpn va \<in> touched (touch va v)" by (simp add: touch_touched)
    note s = store_byte [OF a(2) this in_arena(2) [OF va'], where c = c]
    show ?case using Store.IH [OF u s] room(2) [OF a(3)] a(1) by simp
  qed
qed simp

end
