(* ===== verification/UserThms.thy ===== *)
theory UserThms
  imports UserSim VmKernel
begin

text \<open>
  What the programs of \<^verbatim>\<open>src/user\<close> print when a new process runs them on the kernel: their specification is evaluated, a process with
  the table of \<^verbatim>\<open>proc_pagetable\<close> is shown to be a start of the simulation of \<open>UserSim\<close>, and so the kernel does what is specified.
\<close>

section \<open>The programs\<close>

lemma char_long [simp]: "ucast (ucast (c :: u8) :: u64) = c"
  by (rule bit_word_eqI) (simp add: bit_simps)

lemma uspec_puts: "uspec (uputs s p) fm texts v = uspec p fm texts (v\<lparr>shown := shown v @ s\<rparr>)"
  by (induction s arbitrary: v) (simp_all add: usys_putchar_def usyscall_def call_numbers_agree)

lemma uspec_calls:
  "uspec (usys_putchar c p) fm texts v = uspec p fm texts (v\<lparr>shown := shown v @ [ucast c]\<rparr>)"
  "uspec (usys_exit p) fm texts v = Some v"
  "uspec (usys_sbrk n k) fm texts v = (let i = nat (sint (ucast n :: u32)) in
     if unat (brk v) + i \<le> unat MMAPBASE then uspec (k (brk v)) fm texts (v\<lparr>brk := brk v + of_nat i\<rparr>) else None)"
  "texts a = Some nm \<Longrightarrow> uspec (usys_mmap a k) fm texts v = (case fm nm of None \<Rightarrow> uspec (k (-1)) fm texts v
     | Some data \<Rightarrow> if mapped v = None then uspec (k MMAPBASE) fm texts (v\<lparr>mapped := Some data\<rparr>) else None)"
  by (simp_all add: usys_defs call_numbers_agree) (simp_all add: SYS_defs)

text \<open>A process that has just been started: an empty heap, nothing mapped, nothing printed.\<close>

definition new_view :: uview where
  "new_view = \<lparr>brk = HEAPBASE, mapped = None, touched = {}, bytes = (\<lambda>_. 0), shown = []\<rparr>"

abbreviation note_at :: "string \<Rightarrow> u64 \<Rightarrow> u8 list" where
  "note_at t a \<equiv> puts_bytes (bytes_of t) @ hex_bytes a @ [10]"


definition lazytest_text :: "u8 list" where
  "lazytest_text = bytes_of ''lazytest: sbrk(8192) -- grow heap by 2 pages\<newline>touching page 0 and page 1 (each triggers a page fault)...\<newline>'' @
     note_at heap_note HEAPBASE @ note_at heap_note (HEAPBASE + 4096) @ bytes_of ''read back: OK\<newline>''"



lemma heap_addresses:
  "page_of 0x10000 = 0x10000" "page_of 0x11000 = 0x11000" "vpn 0x10000 = 16" "vpn 0x11000 = 17"
  by (simp_all add: page_of_def vpn_def)

lemma lazytest_spec: "\<exists>v. uspec lazytest_start fm texts new_view = Some v \<and> touched v = {16, 17} \<and> shown v = lazytest_text"
  by (simp add: lazytest_start_def uspec_puts uspec_calls new_view_def in_heap_def touch_def heap_addresses HEAPBASE_def MMAPBASE_def
      lazytest_text_def bytes_of_def insert_commute)






text \<open>
  The pointers of \<^verbatim>\<open>write\<close>: with the blank overwritten by a zero, the two addresses handed to \<^verbatim>\<open>sys_create\<close> are those of the file name and of
  the text that \<open>split_write\<close> finds.
\<close>

lemma shell_write_strings:
  assumes "0 \<notin> set s" "arg = drop 6 s" "n = length (takeWhile (\<lambda>c. c \<noteq> 0x20) arg)" "6 \<le> length s"
    and "L = (if n < length arg then (s @ [0])[6 + n := 0] else s @ [0])"
  shows "(cstr (drop 6 L), cstr (drop (6 + n + (if n < length arg then 1 else 0)) L)) = split_write arg"
proof -
  let ?nm = "takeWhile (\<lambda>c. c \<noteq> 0x20) arg"
  have z: "0 \<notin> set arg" using assms(1,2) by (meson in_set_dropD)
  then have z': "0 \<notin> set ?nm" using set_takeWhileD by fast
  have s: "s = take 6 s @ arg" "length (take 6 s) = 6" using assms(2,4) by simp_all
  show ?thesis
  proof (cases "n < length arg")
    case True
    then obtain b tx where b: "drop n arg = b # tx" by (cases "drop n arg") auto
    then have a: "arg = ?nm @ b # tx" using assms(3) by (metis append_take_drop_id takeWhile_eq_take)
    have "L = take 6 s @ ?nm @ 0 # tx @ [0]"
      using s(2) True unfolding assms(5) by (subst s(1), subst (2) a) (simp add: list_update_append assms(3))
    moreover have "0 \<notin> set tx" using z a by (metis in_set_conv_decomp append_Cons append.assoc)
    ultimately show ?thesis
      using s(2) z' True b assms(3) by (simp add: cstr_terminated split_write_def)
  next
    case False
    then have n: "?nm = arg" using assms(3) by (metis length_takeWhile_le le_less takeWhile_eq_take take_all order_refl)
    have "length arg = length s - 6" by (simp add: assms(2))
    then have "6 + n = length s" using assms(4) unfolding assms(3) n by simp
    then have "drop (6 + n) L = [0]" "drop 6 L = arg @ [0]" using False assms(2,4,5) by simp_all
    then have "cstr (drop 6 L) = arg" "cstr (drop (6 + n) L) = []" using cstr_terminated [OF z, of "[]"] by (simp_all add: cstr_def)
    moreover have "split_write arg = (arg, [])" unfolding split_write_def n Let_def by simp
    ultimately show ?thesis using False by simp
  qed
qed

section \<open>A new process\<close>

text \<open>
  The table that \<^verbatim>\<open>proc_pagetable\<close> builds for a new process is one from which the simulation can start. \<open>texts\<close> are strings in the
  code page; the stack is empty.
\<close>

definition in_code :: "(u64 \<rightharpoonup> u8 list) \<Rightarrow> u64 \<Rightarrow> memory \<Rightarrow> bool" where
  "in_code texts C \<mu> \<longleftrightarrow> (\<forall>a nm. texts a = Some nm \<longrightarrow> 0 \<notin> set nm \<and> length nm < 64 \<and> USERVA \<le> a \<and> unat a + length nm < 0x2000 \<and>
     (\<forall>j \<le> length nm. \<mu> (C + (a - USERVA + of_nat j)) = (nm @ [0]) ! j))"

lemma proc_entry_cases:
  "vpn va = 1 \<Longrightarrow> proc_entry te code stack va = PA2PTE code OR (PTE_R OR PTE_X OR PTE_U OR PTE_V)"
  "vpn va = 4 \<Longrightarrow> proc_entry te code stack va = PA2PTE stack OR (PTE_R OR PTE_W OR PTE_U OR PTE_V)"
  "text_end te \<Longrightarrow> vpn va \<in> arena \<Longrightarrow> proc_entry te code stack va = 0"
proof -
  have u: "PGROUNDDOWN (low39 va) = USERVA \<longleftrightarrow> vpn va = 1" "PGROUNDDOWN (low39 va) = USERSTACK \<longleftrightarrow> vpn va = 4"
    using page_vpn [of USERVA va] page_vpn [of USERSTACK va] by (simp_all add: USERVA_def USERSTACK_def vpn_def)
  show "vpn va = 1 \<Longrightarrow> proc_entry te code stack va = PA2PTE code OR (PTE_R OR PTE_X OR PTE_U OR PTE_V)"
    "vpn va = 4 \<Longrightarrow> proc_entry te code stack va = PA2PTE stack OR (PTE_R OR PTE_W OR PTE_U OR PTE_V)"
    unfolding proc_entry_def u by (simp_all add: or.assoc)
  assume t: "text_end te" and a: "vpn va \<in> arena"
  then have "unat (low39 va) div 4096 < 0xc000" by (simp add: vpn_low39 arena_def)
  then have l: "unat (low39 va) < 0xc000000" by (simp add: div_less_iff_less_mult)
  have "\<not> UART0 \<le> low39 va" "\<not> PLIC \<le> low39 va" "\<not> KERNBASE \<le> low39 va" "\<not> te \<le> low39 va"
    using l text_end_unat(1) [OF t] by (simp_all add: word_le_nat_alt places)
  then have "kernel_entry te va = 0" by (simp add: kernel_entry_def kernel_perm_def)
  then show "proc_entry te code stack va = 0" unfolding proc_entry_def u using a by (auto simp: arena_def)
qed

lemma code_address:
  assumes "USERVA \<le> a" "unat a + k < 0x2000" "j \<le> k"
  shows "vpn (a + of_nat j) = 1" "(a + of_nat j) AND 0xfff = a - USERVA + of_nat j"
proof -
  have a: "4096 \<le> unat a" "unat a + j < 8192" using assms by (simp_all add: word_le_nat_alt USERVA_def)
  have "unat (of_nat j :: u64) = j" using a by (simp add: unat_of_nat)
  then have u: "unat (a + of_nat j) = unat a + j" using a by (simp add: unat_word_ariths)
  have d: "(unat a + j) div 4096 = 1" using a by (intro div_nat_eqI) simp_all
  then show "vpn (a + of_nat j) = 1" by (simp add: vpn_def u)
  have "(unat a + j) mod 4096 = unat a + j - 4096" using d div_mult_mod_eq [of "unat a + j" 4096] by simp
  then have "(a + of_nat j) AND 0xfff = of_nat (unat a + j - 4096)" unfolding page_offset_mod u by simp
  also have "\<dots> = a + of_nat j - 0x1000" using a by (simp add: of_nat_diff)
  finally show "(a + of_nat j) AND 0xfff = a - USERVA + of_nat j" by (simp add: USERVA_def)
qed

lemma new_process_rep:
  fixes m :: "('d, 'n, 'u, 'p) machine"
  assumes t: "new_table pt (proc_entry te C F) b xs s0 (kern m)" "text_end te" "kmem_ok s0 xs"
    and h: "ram_page C" "ram_page F" "C \<noteq> F" "0 < refs s0 C" "0 < refs s0 F" and tx: "in_code texts C (mem s0)"
    and p: "current_proc hart (kern m) = Some i" "i < length (proctable (kern m))" "is_user (proc_at i (kern m))"
      "heap_top (proc_at i (kern m)) = HEAPBASE" "pagetable (proc_at i (kern m)) = pt"
    and fl: "fs_ok content cap (files m)" "vout (kern m) = []" "out (files m) = []" "nout (nets m) = []"
  shows "\<exists>zs. rep content cap hart i (USERSTACKTOP - 256) (fs_files content (files m)) texts (tty m) zs F C pg new_view m \<and> length xs \<le> length zs + b"
proof -
  let ?\<mu> = "mem (kern m)"
  obtain ys zs where z: "xs = ys @ zs" "length ys \<le> b" "kmem_ok (kern m) zs" "owned 2 pt (kern m)" "tabs ?\<mu> 2 pt = set ys"
      "\<And>va. leaf ?\<mu> 2 pt va = proc_entry te C F va" "refs (kern m) = (\<lambda>q. if q \<in> set ys then 1 else refs s0 q)"
      "\<And>a. page_no a \<notin> page_no ` set ys \<Longrightarrow> ?\<mu> a = mem s0 a"
    using t(1) unfolding new_table_def by blast
  have ny: "q \<notin> set ys" if "0 < refs s0 q" for q using that z(1) kmem_ok_free_iff [OF t(3), of q] by auto
  have ram: "ram_page q" if "q \<in> set ys" for q using that z(1) t(3) by (simp add: kmem_ok_def)
  have "uspace zs pt F C pg {} (kern m)"
    unfolding uspace_def using z h ny proc_entry_cases(3) [OF t(2)] by auto
  moreover have "frame_at (USERSTACKTOP - 256) F pt ?\<mu>"
  proof -
    have v: "vpn (USERSTACKTOP - 256) = 4" by (simp add: vpn_def USERSTACKTOP_def USERSTACK_def)
    have "PTE2PA (leaf ?\<mu> 2 pt (USERSTACKTOP - 256)) = F"
      unfolding z(6) proc_entry_cases(2) [OF v] using ram_page_aligned [OF h(2)] by (intro PTE2PA_make) (simp_all add: PTE_R_def PTE_W_def PTE_U_def PTE_V_def)
    then show ?thesis by (simp add: frame_at_def v) (simp add: USERSTACKTOP_def USERSTACK_def)
  qed
  moreover have "says texts C pt ?\<mu>"
    unfolding says_def
  proof (intro allI impI conjI)
    fix a nm j assume a: "texts a = Some nm"
    then have x: "0 \<notin> set nm" "length nm < 64" "USERVA \<le> a" "unat a + length nm < 0x2000" "\<forall>j \<le> length nm. mem s0 (C + (a - USERVA + of_nat j)) = (nm @ [0]) ! j"
      using tx by (auto simp: in_code_def)
    show "0 \<notin> set nm" "length nm < 64" by fact+
    assume j: "j \<le> length nm"
    note A = code_address [OF x(3,4) j]
    have l: "leaf ?\<mu> 2 pt (a + of_nat j) = PA2PTE C OR (PTE_R OR PTE_X OR PTE_U OR PTE_V)" unfolding z(6) by (rule proc_entry_cases(1) [OF A(1)])
    show "vpn (a + of_nat j) < 16" using A(1) by simp
    show P: "PTE2PA (leaf ?\<mu> 2 pt (a + of_nat j)) = C"
      unfolding l using ram_page_aligned [OF h(1)] by (intro PTE2PA_make) (simp_all add: PTE_R_def PTE_X_def PTE_U_def PTE_V_def)
    have "page_no (C + ((a + of_nat j) AND 0xfff)) \<notin> page_no ` set ys"
      using page_no_offset [OF ram_page_aligned [OF h(1)]] page_no_inject [OF h(1) ram] ny [OF h(4)] by auto
    then have "?\<mu> (C + ((a + of_nat j) AND 0xfff)) = (nm @ [0]) ! j" using z(8) x(5) j A(2) by simp
    moreover have "bit (leaf ?\<mu> 2 pt (a + of_nat j)) 0" "bit (leaf ?\<mu> 2 pt (a + of_nat j)) 1" unfolding l by (simp_all add: bit_simps PTE_R_def PTE_X_def PTE_U_def PTE_V_def)
    ultimately show "user_byte ?\<mu> pt (a + of_nat j) = Some ((nm @ [0]) ! j)" using P by (simp add: user_byte_def translate_def Let_def)
  qed
  moreover have "running hart i new_view (kern m)" using p by (simp add: running_def new_view_def HEAPBASE_def MMAPBASE_def)
  ultimately have "rep content cap hart i (USERSTACKTOP - 256) (fs_files content (files m)) texts (tty m) zs F C pg new_view m"
    using fl p(5) by (simp add: rep_def Let_def holds_def filed_def printed_def new_view_def)
  then show ?thesis using z(1,2) by (intro exI [of _ zs]) simp
qed

section \<open>Properties\<close>

text \<open>
  A process on which the first instruction is about to run: its table comes from \<^verbatim>\<open>proc_pagetable\<close>, its strings are in its code page,
  the file system is mounted, and \<open>n\<close> pages are free.
\<close>

definition new_process :: "('d \<Rightarrow> image) \<Rightarrow> nat \<Rightarrow> nat \<Rightarrow> nat \<Rightarrow> u64 \<Rightarrow> (u64 \<rightharpoonup> u8 list) \<Rightarrow> nat \<Rightarrow> ('d, 'n, 'u, 'p) machine \<Rightarrow> bool" where
  "new_process content cap hart i te texts n m \<longleftrightarrow>
     (\<exists>s0 xs C F b. new_table (pagetable (proc_at i (kern m))) (proc_entry te C F) b xs s0 (kern m) \<and> text_end te \<and> kmem_ok s0 xs \<and> b + n \<le> length xs \<and>
        ram_page C \<and> ram_page F \<and> C \<noteq> F \<and> 0 < refs s0 C \<and> 0 < refs s0 F \<and> in_code texts C (mem s0)) \<and>
     current_proc hart (kern m) = Some i \<and> i < length (proctable (kern m)) \<and> is_user (proc_at i (kern m)) \<and> heap_top (proc_at i (kern m)) = HEAPBASE \<and>
     fs_ok content cap (files m) \<and> vout (kern m) = [] \<and> out (files m) = [] \<and> nout (nets m) = []"

lemma new_process_start:
  assumes "new_process content cap hart i te texts n m" "fm = fs_files content (files m)"
  obtains zs F C where "rep content cap hart i (USERSTACKTOP - 256) fm texts (tty m) zs F C (\<lambda>_. 0) new_view m" "n \<le> length zs"
proof -
  obtain s0 xs C F b where t: "new_table (pagetable (proc_at i (kern m))) (proc_entry te C F) b xs s0 (kern m)" "text_end te" "kmem_ok s0 xs" "b + n \<le> length xs"
      "ram_page C" "ram_page F" "C \<noteq> F" "0 < refs s0 C" "0 < refs s0 F" "in_code texts C (mem s0)"
    and p: "current_proc hart (kern m) = Some i" "i < length (proctable (kern m))" "is_user (proc_at i (kern m))" "heap_top (proc_at i (kern m)) = HEAPBASE"
      "fs_ok content cap (files m)" "vout (kern m) = []" "out (files m) = []" "nout (nets m) = []"
    using assms(1) unfolding new_process_def by blast
  obtain zs where z: "rep content cap hart i (USERSTACKTOP - 256) fm texts (tty m) zs F C (\<lambda>_. 0) new_view m" "length xs \<le> length zs + b"
    using new_process_rep [OF t(1-3,5-10) p(1-4) refl p(5-8), of "\<lambda>_. 0"] assms(2) by blast
  then show thesis using that t(4) by simp
qed


text \<open>
  Claim C20. User programs run as specified. Let a program and a world it sees be given, on a machine that represents that world (its
  page table, its pages and their contents, the mapped file, the terminal), and let the specification take the
  program to its exit. Then the kernel takes it there too, through every system call and every page fault: each call is resumed once, at the instruction
  behind its \<^verbatim>\<open>ecall\<close> with every register but \<^verbatim>\<open>a0\<close> as it was, each faulting access is retried with all registers as they were and
  succeeds, the program prints exactly what is specified,
  the process ends as a zombie and the files are untouched. The program counter and the registers that the compiled code has at each of these points
  (\<^term>\<open>lay\<close>) may be any. The only other outcome is that the disk stops, if it may. Three free pages for each page that
  is touched for the first time are enough.
\<close>

theorem user_program_refines:
  assumes "blk_device (blk hw) content cap dies" "rep content cap hart i (usp - 256) fm texts t xs F C pg v m"
    and "uspec p fm texts v = Some v'" "3 * Finite_Set.card (touched v' - touched v) < length xs"
  shows "ends_as dies content i fm (t @ shown v') (urun p lay j hw hart usp g m)"
  by (rule urun_sim [OF assms(1,3,2,4)])


text \<open>A machine with one process, on the pool that \<^verbatim>\<open>kinit\<close> builds.\<close>

lemma fresh_kmem:
  assumes "kmem_ok s (x # xs)" "\<And>c. page_no c \<noteq> page_no x \<Longrightarrow> \<mu> c = mem s c"
  shows "kmem_ok (fresh s x \<mu>) xs" "refs (fresh s x \<mu>) = (refs s)(x := 1)" "mem (fresh s x \<mu>) = \<mu>" "kmem.more (fresh s x \<mu>) = kmem.more s"
proof -
  note ka = kalloc_Cons(2,3) [OF assms(1)]
  have x: "ram_page x" "x \<notin> set xs" using assms(1) by (auto simp: kmem_ok_def)
  have "kmem_ok (s\<lparr>freelist := ld64 (mem s) x, freecnt := freecnt s - 1, refcnt := (refcnt s)(refidx x := 1)\<rparr>\<lparr>mem := \<mu>\<rparr>) xs"
    by (rule kmem_ok_mem [OF ka(1), where T = "{x}"]) (use assms(2) x in auto)
  then show "kmem_ok (fresh s x \<mu>) xs" by (simp add: fresh_def)
  show "refs (fresh s x \<mu>) = (refs s)(x := 1)" using ka(2) by (simp add: fresh_def refs_def fun_eq_iff)
qed simp_all

definition one_proc :: "u64 \<Rightarrow> kproc" where
  "one_proc root = (kvm.extend booted \<lparr>proctable = [\<lparr>state = RUNNING, ctx = zero_context, kstack = 0, fn = 0, counter = 0, pname = replicate 8 0,
       pagetable = root, is_user = True, pid = 1, ucode = 0, ustack = 0, chan = No_chan, parent = None, tf_va = 0,
       heap_top = HEAPBASE, mmap_base = 0, mmap_start = 0, mmap_size = 0\<rparr>],
     cpu_proc = (\<lambda>h. Some 0), next_pid = 2\<rparr>)\<lparr>vout := []\<rparr>"

lemma new_process_exists:
  "\<exists>m :: (nat \<Rightarrow> u8 list, unit, unit, unit) machine. new_process ram_content 256 0 0 0x80208000 [0x1010 \<mapsto> bytes_of ''motd.txt''] 50 m \<and>
     fs_files ram_content (files m) = [bytes_of ''motd.txt'' \<mapsto> bytes_of ''hi''] \<and> tty m = []"
proof -
  obtain xs where xs: "kmem_ok booted xs" "200 \<le> length xs" using booted_ok by blast
  obtain C F root ys where ys: "xs = C # F # root # ys" using xs(2) by (cases xs; cases "tl xs"; cases "tl (tl xs)") auto
  let ?k = "one_proc root" and ?nm = "bytes_of ''motd.txt''"
  have k: "kmem_ok ?k xs" "vout ?k = []" using xs(1) by (simp_all add: one_proc_def kvm.defs kmem_ok_def)
  have D: "ram_page C" "ram_page F" "C \<noteq> F" using k(1) by (auto simp: ys kmem_ok_def)
  define \<mu> where "\<mu> = put_buffer C 4096 (\<lambda>j. if 16 \<le> j \<and> j < 24 then ?nm ! (j - 16) else 0) (mem ?k)"
  note \<mu> = put_page [OF ram_page_aligned [OF D(1)], of "\<lambda>j. if 16 \<le> j \<and> j < 24 then ?nm ! (j - 16) else 0" "mem ?k", folded \<mu>_def]
  let ?s1 = "fresh ?k C \<mu>" 
  let ?s2 = "fresh ?s1 F \<mu>"
  note f1 = fresh_kmem [OF k(1) [unfolded ys], of \<mu>]
  have f1: "kmem_ok ?s1 (F # root # ys)" "refs ?s1 = (refs ?k)(C := 1)" "kmem.more ?s1 = kmem.more ?k" using f1 by (simp_all add: \<mu>)
  have f2: "kmem_ok ?s2 (root # ys)" "refs ?s2 = (refs ?s1)(F := 1)" "kmem.more ?s2 = kmem.more ?s1" using fresh_kmem [OF f1(1), of \<mu>] by simp_all
  have te: "text_end 0x80208000" by (simp add: text_end_def places)
  have len: "kernel_tables + 5 < length (root # ys)" "kernel_tables + 5 + 50 \<le> length (root # ys)" using xs(2) by (simp_all add: ys kernel_tables_def)
  obtain s where s: "same_kvm ?s2 s" "new_table root (proc_entry 0x80208000 C F) (kernel_tables + 5) (root # ys) ?s2 s"
    using proc_pagetable_ok [OF f2(1) len(1) te, of C F] by auto
  have sk: "vout s = []" "proctable s = proctable ?k" "cpu_proc s = cpu_proc ?k"
    using s(1) k(2) kproc_more(1,2) [of s ?s2] by (simp_all add: same_kvm_def fresh_def)
  have byte: "\<mu> (C + of_nat j) = (if 16 \<le> j \<and> j < 24 then ?nm ! (j - 16) else 0)" if "j < 4096" for j
    using that aligned_range [OF ram_page_aligned [OF D(1)], of "C + of_nat j"] by (simp add: \<mu> unat_of_nat)
  have "\<mu> (C + (0x1010 - USERVA + of_nat j)) = (?nm @ [0]) ! j" if "j \<le> 8" for j
  proof -
    have e: "C + (0x1010 - USERVA + of_nat j) = C + of_nat (16 + j)" by (simp add: USERVA_def)
    have "length ?nm = 8" by (simp add: bytes_of_def)
    then show ?thesis unfolding e using byte [of "16 + j"] that by (auto simp: nth_append simp del: of_nat_add)
  qed
  then have code: "in_code [0x1010 \<mapsto> ?nm] C (mem ?s2)" by (simp add: in_code_def USERVA_def) (simp add: bytes_of_def)
  obtain fl where fl: "fs_ok ram_content 256 fl" "fs_files ram_content fl = [?nm \<mapsto> bytes_of ''hi'']"
  proof -
    have n: "cstr ?nm = ?nm" by (rule cstr_plain) (simp add: bytes_of_def)
    have "length (cstr ?nm) < NAMELEN" "length (bytes_of ''hi'') \<le> 512" unfolding n by (simp_all add: bytes_of_def NAMELEN_def)
    then show thesis using created_fs [of ?nm "bytes_of ''hi''"] that unfolding n by blast
  qed
  define M :: "(nat \<Rightarrow> u8 list, unit, unit, unit) machine" where
    "M = \<lparr>kern = s, files = fl\<lparr>out := []\<rparr>, nets = undefined\<lparr>nout := []\<rparr>, cons = undefined, plics = (), ticks = 0, stimecmp = (\<lambda>_. 0), tty = []\<rparr>"
  have "new_process ram_content 256 0 0 0x80208000 [0x1010 \<mapsto> ?nm] 50 M"
    unfolding new_process_def
  proof (intro conjI)
    have root: "pagetable (proc_at 0 (kern M)) = root" by (simp add: M_def proc_at_def sk one_proc_def kvm.defs)
    show "\<exists>s0 xs C F b. new_table (pagetable (proc_at 0 (kern M))) (proc_entry 0x80208000 C F) b xs s0 (kern M) \<and> text_end 0x80208000 \<and> kmem_ok s0 xs \<and>
        b + 50 \<le> length xs \<and> ram_page C \<and> ram_page F \<and> C \<noteq> F \<and> 0 < refs s0 C \<and> 0 < refs s0 F \<and> in_code [0x1010 \<mapsto> ?nm] C (mem s0)"
      unfolding root using s(2) te f2(1) len(2) D f1(2) f2(2) code
      by (intro exI [of _ ?s2] exI [of _ "root # ys"] exI [of _ C] exI [of _ F] exI [of _ "kernel_tables + 5"]) (simp add: M_def)
    show "fs_ok ram_content 256 (files M)" using fl(1) by (simp add: M_def fs_ok_def mem_ok_def live_def used_exact_def sb_of_def)
  qed (simp_all add: M_def proc_at_def sk one_proc_def kvm.defs current_proc_def)
  moreover have "fs_files ram_content (files M) = [?nm \<mapsto> bytes_of ''hi'']" using fl(2) by (simp add: M_def fs_files_def live_def)
  moreover have "tty M = []" by (simp add: M_def)
  ultimately show ?thesis by blast
qed


theorem user_program_refines_witness:
  "\<exists>hw m m'. urun lazytest_start (\<lambda>_ g. g) 0 hw 0 USERSTACKTOP (\<lambda>_. 0) (m :: (nat \<Rightarrow> u8 list, unit, unit, unit) machine) = ret (Exited m') \<and> tty m' = tty m @ lazytest_text"
proof -
  obtain m :: "(nat \<Rightarrow> u8 list, unit, unit, unit) machine" where m: "new_process ram_content 256 0 0 0x80208000 [0x1010 \<mapsto> bytes_of ''motd.txt''] 50 m"
    using new_process_exists by blast
  obtain zs F C where z: "rep ram_content 256 0 0 (USERSTACKTOP - 256) (fs_files ram_content (files m)) [0x1010 \<mapsto> bytes_of ''motd.txt''] (tty m) zs F C (\<lambda>_. 0) new_view m" "50 \<le> length zs"
    using new_process_start [OF m refl] by blast
  have d: "blk_device (blk (undefined\<lparr>blk := ram_dev\<rparr>)) ram_content 256 False" using ram.blk_device_axioms by simp
  let ?fm = "fs_files ram_content (files m)" and ?texts = "[0x1010 \<mapsto> bytes_of ''motd.txt''] :: u64 \<rightharpoonup> u8 list"
  obtain v where v: "uspec lazytest_start ?fm ?texts new_view = Some v" "touched v = {16, 17}" "shown v = lazytest_text" using lazytest_spec by blast
  have "3 * Finite_Set.card (touched v - touched new_view) < length zs" using z(2) v(2) by (simp add: new_view_def)
  from user_program_refines [OF d z(1) v(1) this, where lay = "\<lambda>_ g. g" and j = 0 and g = "\<lambda>_. 0"] v(3) show ?thesis
    by - (rule exI [of _ "undefined\<lparr>blk := ram_dev\<rparr>"], rule exI [of _ m], auto simp: ends_as_def)
qed

end
