(* ===== verification/Uthread.thy ===== *)
theory Uthread
  imports Uart
begin

text \<open>
  \<^verbatim>\<open>src/user/uthread.c\<close>: cooperative threads of a user program. The program is a machine with
  a program counter, the registers that \<^verbatim>\<open>uswitch\<close> saves and restores, the words it stores on the
  threads' stacks, and the structure \<^verbatim>\<open>S\<close> on the heap; a thread is nothing but its saved context,
  and which context is used is decided by \<^verbatim>\<open>S->current\<close>, as in the source. The theorem is that
  the scheduler ends and has run the threads in turn.
\<close>

section \<open>The state\<close>

text \<open>
  The places at which the machine can go on: the pieces of \<^verbatim>\<open>_start\<close>, of \<^verbatim>\<open>worker\<close>, of \<^verbatim>\<open>uyield\<close> and of
  \<^verbatim>\<open>texit\<close>, cut at their loops and calls. \<open>S_ran\<close> is behind the \<^verbatim>\<open>uswitch\<close> of the scheduler, \<open>Y_back\<close>
  and \<open>X_back\<close> are behind those of \<^verbatim>\<open>uyield\<close> and \<^verbatim>\<open>texit\<close>, \<open>W_next\<close> is behind the call of \<^verbatim>\<open>uyield\<close> in
  the loop of \<^verbatim>\<open>worker\<close>, and \<open>W_end\<close> behind its call of \<^verbatim>\<open>texit\<close>, where \<^verbatim>\<open>worker\<close> has no caller to return to.
\<close>

datatype uaddr = S_start | S_head | S_scan | S_ran | S_finish | W_start | W_loop | W_next | W_end
  | Y_start | Y_back | X_start | X_back | Halted

text \<open>\<^verbatim>\<open>struct ctx\<close>, also the registers themselves. \<open>u_s\<close> are \<^verbatim>\<open>s0\<close> to \<^verbatim>\<open>s11\<close>.\<close>

record uctx =
  u_ra :: uaddr
  u_sp :: nat
  u_s :: "int list"

record uthread =
  u_ctx :: uctx
  u_state :: int

record usys =
  u_sched :: uctx
  u_t :: "uthread list"
  u_current :: int

datatype uevent = Sys_sbrk int | Touch nat | Sys_putchar u8 | Sys_exit

record umach =
  u_pc :: uaddr
  u_regs :: uctx
  u_stack :: "nat \<Rightarrow> uaddr"
  u_S :: usys
  u_out :: "uevent list"

section \<open>The code\<close>

definition NTHREAD :: nat where "NTHREAD = 3"
definition STACKSZ :: nat where "STACKSZ = 2048"
definition UHEAPBASE :: nat where "UHEAPBASE = 0x10000"

text \<open>A \<^verbatim>\<open>struct ctx *\<close>: the scheduler's context or that of a thread, by its index.\<close>

datatype ctx_ptr = Sched_ctx | Thread_ctx int

definition get_ctx :: "ctx_ptr \<Rightarrow> usys \<Rightarrow> uctx" where
  "get_ctx p s = (case p of Sched_ctx \<Rightarrow> u_sched s | Thread_ctx c \<Rightarrow> u_ctx (u_t s ! nat c))"

definition put_ctx :: "ctx_ptr \<Rightarrow> uctx \<Rightarrow> usys \<Rightarrow> usys" where
  "put_ctx p x s = (case p of Sched_ctx \<Rightarrow> s\<lparr>u_sched := x\<rparr>
     | Thread_ctx c \<Rightarrow> s\<lparr>u_t := (u_t s)[nat c := (u_t s ! nat c)\<lparr>u_ctx := x\<rparr>]\<rparr>)"

text \<open>
  A call of \<^verbatim>\<open>uswitch\<close> whose return address is \<open>ret\<close>: \<^verbatim>\<open>ra\<close>, \<^verbatim>\<open>sp\<close> and the \<^verbatim>\<open>s\<close> registers go to \<open>old\<close>, those
  of \<open>neu\<close> are loaded, and \<^verbatim>\<open>ret\<close> jumps to the loaded \<^verbatim>\<open>ra\<close>.
\<close>

definition uswitch :: "uaddr \<Rightarrow> ctx_ptr \<Rightarrow> ctx_ptr \<Rightarrow> umach \<Rightarrow> umach" where
  "uswitch ret old neu m =
     (let s = put_ctx old ((u_regs m)\<lparr>u_ra := ret\<rparr>) (u_S m); r = get_ctx neu s
      in m\<lparr>u_S := s, u_regs := r, u_pc := u_ra r\<rparr>)"

text \<open>
  A function that calls another keeps its return address in its frame: the entry of \<^verbatim>\<open>uyield\<close> and
  \<^verbatim>\<open>texit\<close> stores \<^verbatim>\<open>ra\<close> below the caller's \<^verbatim>\<open>sp\<close>, and their end loads it from where \<^verbatim>\<open>sp\<close> then points.
\<close>

definition ucall :: "uaddr \<Rightarrow> uaddr \<Rightarrow> umach \<Rightarrow> umach" where
  "ucall f ret m = m\<lparr>u_pc := f, u_regs := (u_regs m)\<lparr>u_ra := ret\<rparr>\<rparr>"

definition uenter :: "umach \<Rightarrow> umach" where
  "uenter m = (let sp = u_sp (u_regs m) - 16
     in m\<lparr>u_stack := (u_stack m)(sp := u_ra (u_regs m)), u_regs := (u_regs m)\<lparr>u_sp := sp\<rparr>\<rparr>)"

definition uleave :: "umach \<Rightarrow> umach" where
  "uleave m = (let sp = u_sp (u_regs m); ra = u_stack m sp
     in m\<lparr>u_pc := ra, u_regs := (u_regs m)\<lparr>u_ra := ra, u_sp := sp + 16\<rparr>\<rparr>)"

definition set_s :: "nat \<Rightarrow> int \<Rightarrow> umach \<Rightarrow> umach" where
  "set_s k v m = m\<lparr>u_regs := (u_regs m)\<lparr>u_s := (u_s (u_regs m))[k := v]\<rparr>\<rparr>"

abbreviation get_s :: "nat \<Rightarrow> umach \<Rightarrow> int" where
  "get_s k m \<equiv> u_s (u_regs m) ! k"

definition uemit :: "uevent list \<Rightarrow> umach \<Rightarrow> umach" where
  "uemit es m = m\<lparr>u_out := u_out m @ es\<rparr>"

definition uputs_ev :: "u8 list \<Rightarrow> uevent list" where
  "uputs_ev s = map Sys_putchar s"

definition ugoto :: "uaddr \<Rightarrow> umach \<Rightarrow> umach" where
  "ugoto a m = m\<lparr>u_pc := a\<rparr>"

definition with_S :: "(usys \<Rightarrow> usys) \<Rightarrow> umach \<Rightarrow> umach" where
  "with_S f m = m\<lparr>u_S := f (u_S m)\<rparr>"

definition uyield :: "umach \<Rightarrow> umach" where
  "uyield m = (let c = u_current (u_S m) in uswitch Y_back (Thread_ctx c) Sched_ctx (uenter m))"

definition set_tstate :: "int \<Rightarrow> int \<Rightarrow> usys \<Rightarrow> usys" where
  "set_tstate c v s = s\<lparr>u_t := (u_t s)[nat c := (u_t s ! nat c)\<lparr>u_state := v\<rparr>]\<rparr>"

definition texit :: "umach \<Rightarrow> umach" where
  "texit m = (let c = u_current (u_S m)
     in uswitch X_back (Thread_ctx c) Sched_ctx (with_S (set_tstate c 0) (uenter m)))"

text \<open>
  \<^verbatim>\<open>worker\<close> keeps \<^verbatim>\<open>id\<close> in \<^verbatim>\<open>s0\<close> and \<^verbatim>\<open>i\<close> in \<^verbatim>\<open>s1\<close>, registers that live across calls. \<open>W_loop\<close> is the
  head of its loop.
\<close>

definition worker_loop :: "umach \<Rightarrow> umach" where
  "worker_loop m =
     (let id = get_s 0 m; i = get_s 1 m in
      if i < 3 then
        ucall Y_start W_next (uemit (uputs_ev (bytes_of ''  [thread '') @ [Sys_putchar (0x41 + of_int id)] @ uputs_ev (bytes_of ''] step '') @
          [Sys_putchar (0x31 + of_int i), Sys_putchar 10]) m)
      else
        ucall X_start W_end (uemit (uputs_ev (bytes_of ''  [thread '') @ [Sys_putchar (0x41 + of_int id)] @ uputs_ev (bytes_of ''] done\<newline>'')) m))"

text \<open>
  The offset of \<^verbatim>\<open>stacks\<close> in \<^verbatim>\<open>struct sys\<close> with \<open>n\<close> threads: a context has 112 bytes, a thread with
  its state and padding 120, \<^verbatim>\<open>current\<close> four.
\<close>

definition stack_top :: "nat \<Rightarrow> nat \<Rightarrow> nat" where
  "stack_top n i = (let a = UHEAPBASE + 112 + 120 * n + 4 + STACKSZ * (i + 1) in a - a mod 16)"

definition tcreate :: "nat \<Rightarrow> nat \<Rightarrow> uaddr \<Rightarrow> usys \<Rightarrow> usys" where
  "tcreate n i fn s = s\<lparr>u_t := (u_t s)[i := \<lparr>u_ctx = \<lparr>u_ra = fn, u_sp = stack_top n i, u_s = replicate 12 0\<rparr>, u_state = 1\<rparr>]\<rparr>"

definition uinit :: "nat \<Rightarrow> umach \<Rightarrow> umach" where
  "uinit n m =
     (let m = uemit (Sys_sbrk 16384 # map (\<lambda>k. Touch (UHEAPBASE + 4096 * k)) [0..<4]) m;
          m = with_S (fold (\<lambda>i. set_tstate (int i) 0) [0..<n]) m;
          m = with_S (\<lambda>s. s\<lparr>u_current := -1\<rparr>) m;
          m = uemit (uputs_ev (bytes_of ''uthread: cooperative user threads (state on heap, no kernel changes)\<newline>'')) m
      in ugoto S_head (with_S (fold (\<lambda>i. tcreate n i W_start) [0..<n]) m))"

text \<open>
  The two loops of the scheduler, which keeps \<^verbatim>\<open>i\<close> in \<^verbatim>\<open>s0\<close> and \<^verbatim>\<open>ran\<close> in \<^verbatim>\<open>s1\<close>. \<^verbatim>\<open>uswitch\<close> leaves for the thread: what the
  code has behind it is done at \<open>S_ran\<close>, when a thread switches back.
\<close>

definition sched_loop :: "nat \<Rightarrow> umach \<Rightarrow> umach" where
  "sched_loop n m =
     (let i = get_s 0 m in
      if u_pc m = S_head then ugoto S_scan (set_s 0 0 (set_s 1 0 m))
      else if u_pc m = S_ran then ugoto S_scan (set_s 0 (i + 1) (set_s 1 1 m))
      else if i < int n then
        if u_state (u_t (u_S m) ! nat i) = 1 then
          uswitch S_ran Sched_ctx (Thread_ctx i) (with_S (\<lambda>s. s\<lparr>u_current := i\<rparr>) m)
        else set_s 0 (i + 1) m
      else if get_s 1 m = 0 then ugoto S_finish m else ugoto S_head m)"

definition uth_step :: "nat \<Rightarrow> umach \<Rightarrow> umach option" where
  "uth_step n m =
     (case u_pc m of
        S_start \<Rightarrow> Some (uinit n m)
      | S_head \<Rightarrow> Some (sched_loop n m)
      | S_scan \<Rightarrow> Some (sched_loop n m)
      | S_ran \<Rightarrow> Some (sched_loop n m)
      | S_finish \<Rightarrow> Some (ugoto Halted (uemit (uputs_ev (bytes_of ''uthread: all threads finished\<newline>'') @ [Sys_exit]) m))
      | W_start \<Rightarrow> Some (ugoto W_loop (set_s 1 0 (set_s 0 (u_current (u_S m)) m)))
      | W_loop \<Rightarrow> Some (worker_loop m)
      | W_next \<Rightarrow> Some (ugoto W_loop (set_s 1 (get_s 1 m + 1) m))
      | W_end \<Rightarrow> None
      | Y_start \<Rightarrow> Some (uyield m)
      | Y_back \<Rightarrow> Some (uleave m)
      | X_start \<Rightarrow> Some (texit m)
      | X_back \<Rightarrow> Some (uleave m)
      | Halted \<Rightarrow> None)"

partial_function (option) uth_run :: "nat \<Rightarrow> umach \<Rightarrow> umach option" where
  "uth_run n m = (if u_pc m = Halted then Some m else Option.bind (uth_step n m) (uth_run n))"

text \<open>The program as the kernel starts it: nothing on the heap is initialised, the registers hold anything.\<close>

definition ustart :: "uctx \<Rightarrow> (nat \<Rightarrow> uaddr) \<Rightarrow> usys \<Rightarrow> umach" where
  "ustart r k s = \<lparr>u_pc = S_start, u_regs = r, u_stack = k, u_S = s, u_out = []\<rparr>"

section \<open>Where a thread stands\<close>

lemma uth_run_step: "uth_step n m = Some m' \<Longrightarrow> u_pc m \<noteq> Halted \<Longrightarrow> uth_run n m = uth_run n m'"
  by (subst uth_run.simps) simp

lemmas code_defs = ugoto_def uemit_def with_S_def set_s_def ucall_def uenter_def uleave_def uswitch_def get_ctx_def put_ctx_def Let_def

lemma stack_top_gap:
  assumes "i < j"
  shows "stack_top n i < stack_top n j" "16 \<le> stack_top n i"
proof -
  define a where "a i = UHEAPBASE + 112 + 120 * n + 4 + STACKSZ * (i + 1)" for i
  have t: "stack_top n i = a i - a i mod 16" for i by (simp add: stack_top_def a_def Let_def)
  have m: "a i mod 16 < 16" for i by simp
  have le: "a i mod 16 \<le> a i" for i by simp
  have "a i + 2048 \<le> a j" using assms by (simp add: a_def STACKSZ_def)
  then show "stack_top n i < stack_top n j" using m [of i] m [of j] le [of i] le [of j] unfolding t by linarith
  have "2048 \<le> a i" by (simp add: a_def STACKSZ_def)
  then show "16 \<le> stack_top n i" using m [of i] unfolding t by linarith
qed

lemma frame_inj: "stack_top n i - 16 = stack_top n j - 16 \<longleftrightarrow> i = j"
proof (cases i j rule: linorder_cases)
  case less
  then show ?thesis using stack_top_gap [OF less, of n] by simp
next
  case greater
  then show ?thesis using stack_top_gap [OF greater, of n] by simp
qed simp

text \<open>Thread \<open>k\<close> before its turn in round \<open>r\<close>: fresh, asleep in \<^verbatim>\<open>uyield\<close> after \<open>r\<close> steps, or, from round 4 on, exited.\<close>

definition thread_at :: "nat \<Rightarrow> umach \<Rightarrow> nat \<Rightarrow> nat \<Rightarrow> bool" where
  "thread_at n m k r \<longleftrightarrow>
     (let th = u_t (u_S m) ! k; x = u_ctx th in
      if r = 0 then th = \<lparr>u_ctx = \<lparr>u_ra = W_start, u_sp = stack_top n k, u_s = replicate 12 0\<rparr>, u_state = 1\<rparr>
      else if r < 4 then u_state th = 1 \<and> u_ra x = Y_back \<and> u_sp x = stack_top n k - 16 \<and> length (u_s x) = 12 \<and>
        u_s x ! 0 = int k \<and> u_s x ! 1 = int r - 1 \<and> u_stack m (stack_top n k - 16) = W_next
      else u_state th = 0)"

text \<open>The scheduler in round \<open>r\<close>, about to look at thread \<open>j\<close>.\<close>

definition scanning :: "nat \<Rightarrow> nat \<Rightarrow> nat \<Rightarrow> umach \<Rightarrow> bool" where
  "scanning n r j m \<longleftrightarrow> u_pc m = S_scan \<and> length (u_s (u_regs m)) = 12 \<and> get_s 0 m = int j \<and>
     get_s 1 m = (if j = 0 \<or> 4 \<le> r then 0 else 1) \<and> length (u_t (u_S m)) = n \<and>
     (\<forall>k < n. thread_at n m k (if k < j then Suc r else r))"

lemma scanning_thread: "scanning n r j m \<Longrightarrow> k < n \<Longrightarrow> thread_at n m k (if k < j then Suc r else r)"
  unfolding scanning_def by blast

lemma scanning_runnable: "scanning n r j m \<Longrightarrow> j < n \<Longrightarrow> r < 4 \<Longrightarrow> u_state (u_t (u_S m) ! j) = 1"
  by (drule scanning_thread [of n r j m j]) (auto simp: thread_at_def Let_def split: if_splits)

text \<open>Inside thread \<open>k\<close> at the head of its loop in round \<open>r\<close>; the other threads are as in \<open>m0\<close>.\<close>

definition in_thread :: "nat \<Rightarrow> nat \<Rightarrow> nat \<Rightarrow> umach \<Rightarrow> umach \<Rightarrow> bool" where
  "in_thread n k r m0 m \<longleftrightarrow> u_pc m = W_loop \<and> length (u_s (u_regs m)) = 12 \<and> get_s 0 m = int k \<and> get_s 1 m = int r \<and>
     u_sp (u_regs m) = stack_top n k \<and> u_current (u_S m) = int k \<and> u_sched (u_S m) = (u_regs m0)\<lparr>u_ra := S_ran\<rparr> \<and>
     u_t (u_S m) = u_t (u_S m0) \<and> u_stack m = u_stack m0 \<and> u_out m = u_out m0"

lemma enter_thread:
  assumes "scanning n r k m" "k < n" "r < 4"
  obtains m1 where "uth_run n m = uth_run n m1" "in_thread n k r m m1"
proof -
  let ?x = "u_ctx (u_t (u_S m) ! k)"
  let ?s = "(u_S m)\<lparr>u_current := int k, u_sched := (u_regs m)\<lparr>u_ra := S_ran\<rparr>\<rparr>"
  define m1 where "m1 = m\<lparr>u_S := ?s, u_regs := ?x, u_pc := u_ra ?x\<rparr>"
  have t: "thread_at n m k r" using scanning_thread [OF assms(1,2)] by simp
  have st: "u_state (u_t (u_S m) ! k) = 1" using scanning_runnable [OF assms] .
  have "uth_step n m = Some m1"
    using assms(1,2) st by (simp add: uth_step_def scanning_def sched_loop_def m1_def code_defs)
  then have 1: "uth_run n m = uth_run n m1"
    by (rule uth_run_step) (use assms(1) in \<open>simp add: scanning_def\<close>)
  show thesis
  proof (cases "r = 0")
    case True
    then have x: "?x = \<lparr>u_ra = W_start, u_sp = stack_top n k, u_s = replicate 12 0\<rparr>"
      using t by (simp add: thread_at_def Let_def)
    define m2 where "m2 = ugoto W_loop (set_s 1 0 (set_s 0 (u_current (u_S m1)) m1))"
    have "uth_run n m1 = uth_run n m2"
      by (rule uth_run_step) (simp_all add: uth_step_def m1_def m2_def x)
    moreover have "in_thread n k r m m2"
      using True by (simp add: in_thread_def m2_def m1_def x code_defs)
    ultimately show thesis using that 1 by simp
  next
    case False
    then have x: "u_ra ?x = Y_back" "u_sp ?x = stack_top n k - 16" "length (u_s ?x) = 12" "u_s ?x ! 0 = int k"
        "u_s ?x ! 1 = int r - 1" "u_stack m (stack_top n k - 16) = W_next"
      using t assms(3) by (simp_all add: thread_at_def Let_def)
    define m2 where "m2 = uleave m1"
    define m3 where "m3 = ugoto W_loop (set_s 1 (get_s 1 m2 + 1) m2)"
    have "uth_run n m1 = uth_run n m2"
      by (rule uth_run_step) (simp_all add: uth_step_def m1_def m2_def x)
    moreover have "uth_run n m2 = uth_run n m3"
      by (rule uth_run_step) (simp_all add: uth_step_def m1_def m2_def m3_def code_defs x)
    moreover have "in_thread n k r m m3"
      using x stack_top_gap(2) [of k "Suc k" n] by (simp add: in_thread_def m3_def m2_def m1_def code_defs)
    ultimately show thesis using that 1 by simp
  qed
qed

text \<open>What a thread prints in its turn of round \<open>r\<close>.\<close>

definition turn_text :: "nat \<Rightarrow> nat \<Rightarrow> u8 list" where
  "turn_text r k = bytes_of ''  [thread '' @ [0x41 + of_nat k] @
     (if r < 3 then bytes_of ''] step '' @ [0x31 + of_nat r, 10] else bytes_of ''] done\<newline>'')"

lemma leave_thread:
  assumes "in_thread n k r m0 m" "scanning n r k m0" "k < n" "r < 4"
  obtains m1 where "uth_run n m = uth_run n m1" "scanning n r (Suc k) m1"
    "u_out m1 = u_out m0 @ map Sys_putchar (turn_text r k)" "u_current (u_S m1) = int k"
proof -
  note i = assms(1) [unfolded in_thread_def]
  have s: "u_pc m0 = S_scan" "length (u_s (u_regs m0)) = 12" "get_s 0 m0 = int k"
      "get_s 1 m0 = (if k = 0 \<or> 4 \<le> r then 0 else 1)" "length (u_t (u_S m0)) = n"
    using assms(2) unfolding scanning_def by blast+
  define m1 where "m1 = worker_loop m"
  define m2 where "m2 = (if r < 3 then uyield m1 else texit m1)"
  define m3 where "m3 = ugoto S_scan (set_s 0 (get_s 0 m2 + 1) (set_s 1 1 m2))"
  have 1: "uth_run n m = uth_run n m1" by (rule uth_run_step) (use i in \<open>simp_all add: uth_step_def m1_def\<close>)
  have 2: "uth_run n m1 = uth_run n m2"
    by (rule uth_run_step) (use i in \<open>simp_all add: uth_step_def m1_def m2_def worker_loop_def code_defs\<close>)
  have pc2: "u_pc m2 = S_ran" using i s assms(3) by (simp add: m2_def m1_def worker_loop_def uyield_def texit_def set_tstate_def code_defs)
  have 3: "uth_run n m2 = uth_run n m3" by (rule uth_run_step) (use pc2 in \<open>simp_all add: uth_step_def sched_loop_def m3_def\<close>)
  have out: "u_out m3 = u_out m0 @ map Sys_putchar (turn_text r k)"
    using i by (simp add: m3_def m2_def m1_def worker_loop_def uyield_def texit_def turn_text_def uputs_ev_def code_defs)
  have cur: "u_current (u_S m3) = int k"
    using i by (simp add: m3_def m2_def m1_def worker_loop_def uyield_def texit_def set_tstate_def code_defs)
  have regs: "u_pc m3 = S_scan" "length (u_s (u_regs m3)) = 12" "get_s 0 m3 = int (Suc k)" "get_s 1 m3 = 1"
    using i s by (simp_all add: m3_def m2_def m1_def worker_loop_def uyield_def texit_def set_tstate_def code_defs)
  have len: "length (u_t (u_S m3)) = n"
    using i s by (simp add: m3_def m2_def m1_def worker_loop_def uyield_def texit_def set_tstate_def code_defs)
  have "thread_at n m3 j (if j < Suc k then Suc r else r)" if "j < n" for j
  proof (cases "j = k")
    case True
    then show ?thesis
      using i s(5) assms(3,4) scanning_runnable [OF assms(2-4)]
      by (cases "r < 3") (simp_all add: thread_at_def m3_def m2_def m1_def worker_loop_def uyield_def texit_def set_tstate_def code_defs)
  next
    case False
    have "thread_at n m0 j (if j < k then Suc r else r)" using scanning_thread [OF assms(2) that] .
    moreover have "u_t (u_S m3) ! j = u_t (u_S m0) ! j"
      using i s False by (simp add: m3_def m2_def m1_def worker_loop_def uyield_def texit_def set_tstate_def code_defs)
    moreover have "u_stack m3 (stack_top n j - 16) = u_stack m0 (stack_top n j - 16)"
      using i False frame_inj [of n k j] by (simp add: m3_def m2_def m1_def worker_loop_def uyield_def texit_def code_defs)
    ultimately have "thread_at n m3 j (if j < k then Suc r else r)" by (simp only: thread_at_def)
    then show ?thesis using False by (simp add: less_Suc_eq)
  qed
  then have "scanning n r (Suc k) m3" using regs len assms(4) by (simp add: scanning_def)
  then show thesis using that [of m3] 1 2 3 out cur by simp
qed

section \<open>Rounds\<close>

definition round_text :: "nat \<Rightarrow> nat \<Rightarrow> nat \<Rightarrow> u8 list" where
  "round_text r j n = concat (map (turn_text r) [j..<n])"

lemma round_ends:
  assumes "scanning n r j m" "j \<le> n" "r < 4"
  obtains m1 where "uth_run n m = uth_run n m1" "scanning n r n m1"
    "u_out m1 = u_out m @ map Sys_putchar (round_text r j n)" "j < n \<Longrightarrow> u_current (u_S m1) = int n - 1"
  using assms
proof (induction "n - j" arbitrary: j m thesis)
  case 0
  then show ?case by (auto simp: round_text_def)
next
  case (Suc d)
  then have j: "j < n" by simp
  obtain m1 where 1: "uth_run n m = uth_run n m1" "in_thread n j r m m1"
    using enter_thread [OF Suc.prems(2) j Suc.prems(4)] by blast
  obtain m2 where 2: "uth_run n m1 = uth_run n m2" "scanning n r (Suc j) m2"
      "u_out m2 = u_out m @ map Sys_putchar (turn_text r j)" "u_current (u_S m2) = int j"
    using leave_thread [OF 1(2) Suc.prems(2) j Suc.prems(4)] by blast
  show ?case
  proof (cases "Suc j = n")
    case True
    then show ?thesis using Suc.prems(1) [of m2] 1 2 by (auto simp: round_text_def)
  next
    case False
    then have "d = n - Suc j" "Suc j \<le> n" "Suc j < n" using Suc.hyps(2) j by auto
    then obtain m3 where "uth_run n m2 = uth_run n m3" "scanning n r n m3"
        "u_out m3 = u_out m2 @ map Sys_putchar (round_text r (Suc j) n)" "u_current (u_S m3) = int n - 1"
      using Suc.hyps(1) [OF _ _ 2(2) _ Suc.prems(4)] by blast
    then show ?thesis
      using Suc.prems(1) [of m3] 1 2 j by (simp add: round_text_def upt_conv_Cons)
  qed
qed

lemma next_round:
  assumes "scanning n r n m" "0 < n" "r < 4"
  obtains m1 where "uth_run n m = uth_run n m1" "scanning n (Suc r) 0 m1" "u_out m1 = u_out m" "u_S m1 = u_S m"
proof -
  define m1 where "m1 = ugoto S_head m"
  define m2 where "m2 = ugoto S_scan (set_s 0 0 (set_s 1 0 m1))"
  have s: "u_pc m = S_scan" "length (u_s (u_regs m)) = 12" "get_s 0 m = int n" "get_s 1 m = 1" "length (u_t (u_S m)) = n"
    using assms by (simp_all add: scanning_def)
  have "uth_run n m = uth_run n m1"
    by (rule uth_run_step) (use s in \<open>simp_all add: uth_step_def sched_loop_def m1_def Let_def\<close>)
  moreover have "uth_run n m1 = uth_run n m2"
    by (rule uth_run_step) (simp_all add: uth_step_def sched_loop_def m1_def m2_def ugoto_def)
  moreover have same: "u_S m2 = u_S m" "u_stack m2 = u_stack m" "u_out m2 = u_out m"
    by (simp_all add: m2_def m1_def code_defs)
  have "thread_at n m2 k (Suc r)" if "k < n" for k
    using scanning_thread [OF assms(1) that] that by (simp only: thread_at_def same if_True)
  then have "scanning n (Suc r) 0 m2"
    using s by (simp add: scanning_def m2_def m1_def code_defs)
  ultimately show thesis using that same by simp
qed

text \<open>Once every thread has exited, a last pass finds nothing to run.\<close>

lemma last_pass:
  assumes "scanning n 4 j m" "j \<le> n"
  shows "\<exists>m1. uth_run n m = uth_run n m1 \<and> scanning n 4 n m1 \<and> u_out m1 = u_out m \<and> u_S m1 = u_S m"
  using assms
proof (induction "n - j" arbitrary: j m)
  case (Suc d)
  then have j: "j < n" by simp
  define m1 where "m1 = set_s 0 (int j + 1) m"
  have s: "u_pc m = S_scan" "length (u_s (u_regs m)) = 12" "get_s 0 m = int j" "get_s 1 m = 0" "length (u_t (u_S m)) = n"
    using Suc.prems(1) by (simp_all add: scanning_def)
  have off: "u_state (u_t (u_S m) ! k) = 0" if "k < n" for k
    using scanning_thread [OF Suc.prems(1) that] by (simp add: thread_at_def Let_def split: if_splits)
  have "uth_run n m = uth_run n m1"
    by (rule uth_run_step) (use s j off in \<open>simp_all add: uth_step_def sched_loop_def m1_def Let_def\<close>)
  moreover have "scanning n 4 (Suc j) m1"
    using s off by (simp add: scanning_def m1_def set_s_def thread_at_def Let_def)
  moreover have "u_out m1 = u_out m" "u_S m1 = u_S m" by (simp_all add: m1_def set_s_def)
  ultimately show ?case
    using Suc.hyps(1) [of "Suc j" m1] Suc.hyps(2) j by auto
qed auto

lemma finish:
  assumes "scanning n 4 n m"
  shows "\<exists>m'. uth_run n m = Some m' \<and> u_S m' = u_S m \<and>
    u_out m' = u_out m @ map Sys_putchar (bytes_of ''uthread: all threads finished\<newline>'') @ [Sys_exit]"
proof -
  define m1 where "m1 = ugoto S_finish m"
  define m2 where "m2 = ugoto Halted (uemit (uputs_ev (bytes_of ''uthread: all threads finished\<newline>'') @ [Sys_exit]) m1)"
  have s: "u_pc m = S_scan" "get_s 0 m = int n" "get_s 1 m = 0" using assms by (simp_all add: scanning_def)
  have "uth_run n m = uth_run n m1"
    by (rule uth_run_step) (use s in \<open>simp_all add: uth_step_def sched_loop_def m1_def Let_def\<close>)
  also have "\<dots> = uth_run n m2"
    by (rule uth_run_step) (simp_all add: uth_step_def m1_def m2_def ugoto_def)
  also have "\<dots> = Some m2" by (subst uth_run.simps) (simp add: m2_def ugoto_def)
  finally show ?thesis by (auto simp: m2_def m1_def ugoto_def uemit_def uputs_ev_def)
qed

lemma tcreate_all:
  assumes "length (u_t s) = n" "k \<le> n"
  shows "fold (\<lambda>i. tcreate n i W_start) [0..<k] s = s\<lparr>u_t := map (\<lambda>i.
    if i < k then \<lparr>u_ctx = \<lparr>u_ra = W_start, u_sp = stack_top n i, u_s = replicate 12 0\<rparr>, u_state = 1\<rparr> else u_t s ! i) [0..<n]\<rparr>"
  using assms(2)
proof (induction k)
  case 0
  then show ?case using assms(1) map_nth [of "u_t s"] by simp
next
  case (Suc k)
  then have "fold (\<lambda>i. tcreate n i W_start) [0..<Suc k] s = tcreate n k W_start (s\<lparr>u_t := map (\<lambda>i.
    if i < k then \<lparr>u_ctx = \<lparr>u_ra = W_start, u_sp = stack_top n i, u_s = replicate 12 0\<rparr>, u_state = 1\<rparr> else u_t s ! i) [0..<n]\<rparr>)"
    by simp
  also have "\<dots> = s\<lparr>u_t := map (\<lambda>i.
    if i < Suc k then \<lparr>u_ctx = \<lparr>u_ra = W_start, u_sp = stack_top n i, u_s = replicate 12 0\<rparr>, u_state = 1\<rparr> else u_t s ! i) [0..<n]\<rparr>"
  proof -
    have "(map (\<lambda>i. if i < k then f i else u_t s ! i) [0..<n])[k := f k] = map (\<lambda>i. if i < Suc k then f i else u_t s ! i) [0..<n]" for f
      by (rule nth_equalityI) (auto simp: nth_list_update less_Suc_eq)
    from this [of "\<lambda>i. \<lparr>u_ctx = \<lparr>u_ra = W_start, u_sp = stack_top n i, u_s = replicate 12 0\<rparr>, u_state = 1\<rparr>"]
    show ?thesis by (simp add: tcreate_def)
  qed
  finally show ?case .
qed

lemma set_tstate_length: "length (u_t (fold (\<lambda>i. set_tstate (int i) 0) is s)) = length (u_t s)"
  by (induction "is" arbitrary: s) (simp_all add: set_tstate_def)

definition prologue :: "uevent list" where
  "prologue = Sys_sbrk 16384 # map (\<lambda>k. Touch (0x10000 + 4096 * k)) [0..<4] @
     map Sys_putchar (bytes_of ''uthread: cooperative user threads (state on heap, no kernel changes)\<newline>'')"

lemma start_scanning:
  assumes "length (u_t s) = n" "length (u_s r) = 12"
  obtains m where "uth_run n (ustart r k s) = uth_run n m" "scanning n 0 0 m" "u_out m = prologue"
proof -
  define m1 where "m1 = uinit n (ustart r k s)"
  define m2 where "m2 = ugoto S_scan (set_s 0 0 (set_s 1 0 m1))"
  have "uth_run n (ustart r k s) = uth_run n m1"
    by (rule uth_run_step) (simp_all add: uth_step_def ustart_def m1_def)
  moreover have "uth_run n m1 = uth_run n m2"
    by (rule uth_run_step) (simp_all add: uth_step_def sched_loop_def m1_def m2_def uinit_def ugoto_def Let_def)
  moreover have "scanning n 0 0 m2"
    using assms by (simp add: scanning_def m2_def m1_def uinit_def ustart_def code_defs thread_at_def tcreate_all set_tstate_length)
  moreover have "u_out m2 = prologue"
    by (simp add: m2_def m1_def uinit_def ustart_def code_defs prologue_def UHEAPBASE_def uputs_ev_def)
  ultimately show thesis using that by simp
qed

section \<open>Properties\<close>

text \<open>What should be printed: round by round every thread its line, three steps and then that it is done.\<close>

definition round_robin :: "nat \<Rightarrow> u8 list" where
  "round_robin n = concat (map (\<lambda>r. round_text r 0 n) [0..<4])"

lemma rounds:
  assumes "scanning n r 0 m" "0 < n" "r < 4"
  obtains m1 where "uth_run n m = uth_run n m1" "scanning n (Suc r) 0 m1"
    "u_out m1 = u_out m @ map Sys_putchar (round_text r 0 n)" "u_current (u_S m1) = int n - 1"
proof -
  obtain m1 where 1: "uth_run n m = uth_run n m1" "scanning n r n m1"
      "u_out m1 = u_out m @ map Sys_putchar (round_text r 0 n)" "u_current (u_S m1) = int n - 1"
    using round_ends [OF assms(1) _ assms(3)] assms(2) by blast
  obtain m2 where "uth_run n m1 = uth_run n m2" "scanning n (Suc r) 0 m2" "u_out m2 = u_out m1" "u_S m2 = u_S m1"
    using next_round [OF 1(2) assms(2,3)] by blast
  with 1 show thesis using that by simp
qed

text \<open>The stacks of the three threads lie in the four heap pages that \<^verbatim>\<open>_start\<close> has touched.\<close>

lemma stacks_on_heap:
  "i < NTHREAD \<Longrightarrow> UHEAPBASE + 112 + 120 * NTHREAD + 4 + STACKSZ * i \<le> stack_top NTHREAD i \<and>
     stack_top NTHREAD i \<le> UHEAPBASE + 16384"
  by (auto simp: stack_top_def NTHREAD_def STACKSZ_def UHEAPBASE_def Let_def numeral_3_eq_3 less_Suc_eq)

text \<open>
  Claim C38. The cooperative scheduler of \<^verbatim>\<open>uthread\<close> ends, for any number of threads, whatever is in the registers and on
  the heap when it starts, and is a round robin: the threads print their first steps in order, then their second, then their
  third, then that they are done, between the program's first and last line; then the program exits, with every thread's state
  0. Each thread works with its own number and step counter, which it keeps over its \<^verbatim>\<open>uyield\<close>s only through its saved context.
\<close>

theorem uthread_round_robin:
  assumes "0 < n" "length (u_t s) = n" "length (u_s r) = 12"
  shows "\<exists>m. uth_run n (ustart r k s) = Some m \<and>
    u_out m = prologue @ map Sys_putchar (round_robin n @ bytes_of ''uthread: all threads finished\<newline>'') @ [Sys_exit] \<and>
    list_all (\<lambda>t. u_state t = 0) (u_t (u_S m)) \<and> u_current (u_S m) = int n - 1"
proof -
  obtain m0 where 0: "uth_run n (ustart r k s) = uth_run n m0" "scanning n 0 0 m0" "u_out m0 = prologue"
    using start_scanning [OF assms(2,3)] by blast
  obtain m1 where 1: "uth_run n m0 = uth_run n m1" "scanning n (Suc 0) 0 m1" "u_out m1 = u_out m0 @ map Sys_putchar (round_text 0 0 n)"
    by (rule rounds [OF 0(2) assms(1)]) simp
  obtain m2 where 2: "uth_run n m1 = uth_run n m2" "scanning n (Suc (Suc 0)) 0 m2"
      "u_out m2 = u_out m1 @ map Sys_putchar (round_text (Suc 0) 0 n)"
    by (rule rounds [OF 1(2) assms(1)]) simp
  obtain m3 where 3: "uth_run n m2 = uth_run n m3" "scanning n (Suc (Suc (Suc 0))) 0 m3"
      "u_out m3 = u_out m2 @ map Sys_putchar (round_text (Suc (Suc 0)) 0 n)"
    by (rule rounds [OF 2(2) assms(1)]) simp
  obtain m4 where 4: "uth_run n m3 = uth_run n m4" "scanning n (Suc (Suc (Suc (Suc 0)))) 0 m4"
      "u_out m4 = u_out m3 @ map Sys_putchar (round_text (Suc (Suc (Suc 0))) 0 n)" "u_current (u_S m4) = int n - 1"
    by (rule rounds [OF 3(2) assms(1)]) simp
  have "scanning n 4 0 m4" using 4(2) by (simp add: numeral_eq_Suc)
  from last_pass [OF this] obtain m5 where 5: "uth_run n m4 = uth_run n m5" "scanning n 4 n m5" "u_out m5 = u_out m4" "u_S m5 = u_S m4"
    by blast
  obtain m where m: "uth_run n m5 = Some m" "u_S m = u_S m5"
      "u_out m = u_out m5 @ map Sys_putchar (bytes_of ''uthread: all threads finished\<newline>'') @ [Sys_exit]"
    using finish [OF 5(2)] by blast
  have off: "u_state (u_t (u_S m5) ! j) = 0" if "j < n" for j
    using scanning_thread [OF 5(2) that] that by (simp add: thread_at_def Let_def)
  have len: "length (u_t (u_S m5)) = n" using 5(2) by (simp add: scanning_def)
  have "[0..<4] = [0, Suc 0, Suc (Suc 0), Suc (Suc (Suc 0))]" by (simp add: upt_rec)
  then have "round_robin n = round_text 0 0 n @ round_text (Suc 0) 0 n @ round_text (Suc (Suc 0)) 0 n @ round_text (Suc (Suc (Suc 0))) 0 n"
    by (simp add: round_robin_def)
  with 0 1 2 3 4 5 m off len show ?thesis by (simp add: list_all_length)
qed

theorem uthread_round_robin_witness:
  "\<exists>m. uth_run NTHREAD (ustart \<lparr>u_ra = Halted, u_sp = 0x5000, u_s = replicate 12 7\<rparr> (\<lambda>_. Halted)
       \<lparr>u_sched = \<lparr>u_ra = Halted, u_sp = 0, u_s = []\<rparr>,
        u_t = replicate 3 \<lparr>u_ctx = \<lparr>u_ra = Halted, u_sp = 0, u_s = []\<rparr>, u_state = 0\<rparr>, u_current = 0\<rparr>) = Some m \<and>
     take 60 (drop (length prologue) (u_out m)) = map Sys_putchar (bytes_of
       ''  [thread A] step 1\<newline>  [thread B] step 1\<newline>  [thread C] step 1\<newline>'') \<and>
     list_all (\<lambda>t. u_state t = 0) (u_t (u_S m))"
proof -
  let ?r = "\<lparr>u_ra = Halted, u_sp = 0x5000, u_s = replicate 12 (7 :: int)\<rparr>"
  let ?s = "\<lparr>u_sched = \<lparr>u_ra = Halted, u_sp = 0, u_s = []\<rparr>,
        u_t = replicate 3 \<lparr>u_ctx = \<lparr>u_ra = Halted, u_sp = 0, u_s = []\<rparr>, u_state = 0\<rparr>, u_current = 0\<rparr>"
  have t: "take 60 (round_robin 3) = bytes_of ''  [thread A] step 1\<newline>  [thread B] step 1\<newline>  [thread C] step 1\<newline>''" by code_simp
  have l: "60 \<le> length (round_robin 3)" by code_simp
  have "\<exists>m. uth_run NTHREAD (ustart ?r (\<lambda>_. Halted) ?s) = Some m \<and>
    u_out m = prologue @ map Sys_putchar (round_robin NTHREAD @ bytes_of ''uthread: all threads finished\<newline>'') @ [Sys_exit] \<and>
    list_all (\<lambda>t. u_state t = 0) (u_t (u_S m)) \<and> u_current (u_S m) = int NTHREAD - 1"
    by (rule uthread_round_robin) (simp_all add: NTHREAD_def)
  then show ?thesis using t l by (auto simp: NTHREAD_def take_map)
qed

end
