(* ===== verification/Spec2Isabelle.thy ===== *)
theory Spec2Isabelle
  imports Prelude Spinlock Kalloc KallocSmp Uart Console FsThms TrapThms FsSession Mkfs Elf Mmio BootThms NetWire UserThms Uthread
begin

text \<open>
  A verification of \<^verbatim>\<open>kernel-hobby\<close>, a small RISC-V kernel in C for several harts, of the programs that
  run on it and of the tool that builds its disk image.

  \<^bold>\<open>The program.\<close> \<^verbatim>\<open>main.c\<close> boots: the UART, traps, the page allocator, the kernel page table, the virtio
  disk, the file system, the network card, and the first user process; then every hart enters the
  scheduler. Below everything are spin locks that turn interrupts off (\<^verbatim>\<open>spinlock.c\<close>) and the
  allocator, a free list threaded through the free pages with a reference count per page
  (\<^verbatim>\<open>kalloc.c\<close>). Page tables (\<^verbatim>\<open>vm.c\<close>) are built from those pages and share pages copy-on-write.
  Processes (\<^verbatim>\<open>proc.c\<close>) own a page table; fork shares the heap, exit and wait hand a zombie to
  the parent, a page fault fills in heap and mapped files on demand. The file system (\<^verbatim>\<open>fs.c\<close>)
  writes directory and superblock through a journal on the block driver (\<^verbatim>\<open>virtio.c\<close>). A trap
  (\<^verbatim>\<open>trap.c\<close>) is a timer tick, an interrupt of the UART that feeds the console ring (\<^verbatim>\<open>console.c\<close>), a
  system call (\<^verbatim>\<open>user.c\<close>) or a page fault. The network stack (\<^verbatim>\<open>net.c\<close>) polls its card.

  \<^bold>\<open>Conventions.\<close> Integers keep their width (\<open>u8\<close> to \<open>u64\<close>); a C \<^verbatim>\<open>int\<close> is an \<open>int\<close>, with the wrap written
  out where it can occur. Memory is a function from 64-bit addresses to bytes; page tables, the
  free list and trap frames are stored in it byte by byte. Records extend each other as the
  components build on each other: \<open>kmem\<close> (allocator), \<open>kvm\<close> (page tables), \<open>kproc\<close> (processes), and
  \<open>machine\<close> puts the kernel, the file system, the network, the console and the interrupt controller
  side by side. A function that may loop for ever is a \<^verbatim>\<open>partial_function\<close> into \<open>option\<close>, \<open>None\<close> being
  that it does not return; a disk that stops in the middle of a request is the outcome \<open>Inl d\<close>,
  which is how a power failure appears. A critical section is one step, which
  \<open>Spinlock.spinlock_serializes\<close> justifies: under any interleaving of harts the protected data
  are those of a serial run of whole sections.

  \<^bold>\<open>Parameters.\<close> Devices and the host are not code of the repository. Each is an argument of the
  definitions that use it, and what is relied on is a named hypothesis: the locale \<open>ns16550\<close> for the
  UART chip (a transmitter that drains, a receive queue), the locale \<open>blk_device\<close> for the disk (a
  well-formed request reads or writes one block, or the device dies before or after it), \<open>usable\<close> and
  \<open>card_at\<close> for the virtio registers, \<open>delivers\<close> for a network card that reports a frame, the files of
  the host for \<^verbatim>\<open>mkfs\<close>. Simulated devices show that the hypotheses can be met. Linker symbols are
  fields of \<open>ksyms\<close> and \<open>boot_env\<close>.

  \<^bold>\<open>The theories.\<close>

  \<^item> \<open>Prelude\<close>: C integers, bytes in memory, loops of \<^verbatim>\<open>copy\<close> and \<^verbatim>\<open>zero\<close>, whole pages, and the locale
    \<open>codec\<close> of encodings that read back, interpreted for the little-endian words here and for the
    on-disk structures in \<open>FsFormat\<close>.
  \<^item> \<open>Spinlock\<close> (\<^verbatim>\<open>spinlock.c\<close>): nested \<^verbatim>\<open>push_off\<close> and \<^verbatim>\<open>pop_off\<close> restore the interrupt state; mutual
    exclusion and serialisability over a step relation of harts.
  \<^item> \<open>Kalloc\<close> (\<^verbatim>\<open>kalloc.c\<close>): \<^verbatim>\<open>kinit\<close> builds the pool; the locale \<open>page_pool\<close> states what a client relies
    on and \<open>kalloc\<close>, \<open>kfree\<close>, \<open>kref_inc\<close> are shown to provide it; no page is handed out twice.
  \<^item> \<open>KallocSmp\<close> (\<^verbatim>\<open>kalloc.c\<close>, \<^verbatim>\<open>spinlock.c\<close>): the three bodies cut at every access to shared data and run by any number of harts on the
    machine of \<open>Spinlock\<close>, each hart sharing and freeing pages it refers to; references, free pages and counters stay exact.
  \<^item> \<open>Uart\<close>, \<open>Console\<close> (\<^verbatim>\<open>uart.c\<close>, \<^verbatim>\<open>console.c\<close>): numbers are printed as decimal and hexadecimal numerals, which are specified apart from the code; the input ring refines a line editor on
    lists; a reader that sleeps is woken by a newline and by nothing else, and then gets the line typed meanwhile; a full ring drops the newline and so
    never wakes its reader.
  \<^item> \<open>FsFormat\<close>, \<open>Virtio\<close>, \<open>Fs\<close>, \<open>FsLog\<close>, \<open>FsSpec\<close>, \<open>FsOps\<close>, \<open>FsThms\<close> (\<^verbatim>\<open>fsformat.h\<close>, \<^verbatim>\<open>virtio.c\<close>, \<^verbatim>\<open>fs.c\<close>): the
    driver, the file system function by function, the journal, the abstract file map, and the
    theorems: creating and deleting implement the map operations and are atomic under a failure at
    any disk write, reading and mounting are correct, the block allocator is first-fit.
  \<^item> \<open>FsSession\<close>: the life of a disk as a labelled transition system of calls, power failures (also inside a
    call or inside recovery) and mounts; every state is sound and the files evolve as the file map
    allows, so a file whose creation was acknowledged is there until its deletion is begun. A file is stored under the first 55 bytes of its name;
    the creations left out (\<open>no_clash\<close>) are those of a longer name whose first 55 bytes are the name of a file, which \<^verbatim>\<open>fs_create\<close> wrongly accepts.
  \<^item> \<open>Mmio\<close>, \<open>NetInit\<close> (\<^verbatim>\<open>virtio.c\<close>, \<^verbatim>\<open>net.c\<close>): bringing up disk and card through their registers.
  \<^item> \<open>Vm\<close>, \<open>VmWalk\<close>, \<open>VmMap\<close>, \<open>VmCow\<close>, \<open>VmFree\<close> (\<^verbatim>\<open>vm.c\<close>): three-level tables in memory as trees of owned
    pages; mapping, copy-on-write isolation between parent and child, freeing without leak.
  \<^item> \<open>VmKernel\<close> (\<^verbatim>\<open>vm.c\<close>): the tables of the kernel and of a process, entry by entry: devices, text and RAM mapped to
    themselves, nothing both writable and executable, only code and stack open to user mode.
  \<^item> \<open>Elf\<close> (\<^verbatim>\<open>elf.c\<close>): the loader, its correctness for images that fit and the images that escape its check.
  \<^item> \<open>Proc\<close>, \<open>ProcFrame\<close>, \<open>Sched\<close>, \<open>PageFault\<close> (\<^verbatim>\<open>proc.c\<close>): the process table and its operations, what they leave
    alone, the scheduler as a step relation of any number of harts that carries \<^verbatim>\<open>pt_lock\<close> across the
    context switch, demand paging.
  \<^item> \<open>Syscall\<close>, \<open>Trap\<close>, \<open>TrapThms\<close> (\<^verbatim>\<open>user.c\<close>, \<^verbatim>\<open>trap.c\<close>, \<^verbatim>\<open>plic.c\<close>): all system calls and traps on the whole machine;
    the saved registers after a call, the retried access after a fault, bounded strings from users.
  \<^item> \<open>NetBytes\<close>, \<open>Net\<close>, \<open>NetThms\<close>, \<open>NetWire\<close> (\<^verbatim>\<open>net.c\<close>): byte order, checksums, ARP, IPv4, UDP, DNS, ICMP, TCP; a
    TCP segment and an ARP exchange from one machine to another. Checksums are judged by the one's-complement sum of RFC 1071 over the bytes
    (\<open>checksum_valid\<close>), for TCP with the pseudo header, which is specified apart from the code.
  \<^item> \<open>Mmap\<close> (\<^verbatim>\<open>fs.c\<close>, \<^verbatim>\<open>proc.c\<close>): a fault in the range of a mapped file brings in that page of the file.
  \<^item> \<open>Shell\<close> (\<^verbatim>\<open>shell.c\<close>), \<open>UserProgs\<close> (\<^verbatim>\<open>user/init.c\<close>): the kernel shell refines a line editor;
    the user shell parses what it should.
  \<^item> \<open>Uthread\<close> (\<^verbatim>\<open>user/uthread.c\<close>): the cooperative threads on a machine with a program counter, registers, stacks and \<^verbatim>\<open>struct sys\<close>, cut at the calls
    and loops of the code; \<^verbatim>\<open>uswitch\<close> saves and loads registers and jumps to the loaded \<^verbatim>\<open>ra\<close>. The program ends and prints its lines round robin.
  \<^item> \<open>UserCode\<close> (\<^verbatim>\<open>user/usys.h\<close> and the programs), \<open>UserRun\<close> (\<^verbatim>\<open>kernelvec.S\<close>), \<open>UserSim\<close>, \<open>UserThms\<close>: programs as sequences of calls, loads
    and stores; user mode on the kernel, with the registers saved and restored around each trap and the program resumed at the restored \<^verbatim>\<open>sepc\<close>: an \<^verbatim>\<open>ecall\<close> to
    which the kernel returns is made again, a faulting access is repeated, and a program whose registers were not kept has no run; what a program may rely on; a simulation that
    says the kernel keeps that promise; and so what \<^verbatim>\<open>hello\<close>, \<^verbatim>\<open>lazytest\<close> and \<^verbatim>\<open>mmaptest\<close> print.
  \<^item> \<open>Mkfs\<close> (\<^verbatim>\<open>tools/mkfs.c\<close>): the bytes handed to \<^verbatim>\<open>fwrite\<close>, whose result the tool does not check, mount to the files given; the failures.
  \<^item> \<open>Boot\<close>, \<open>BootThms\<close> (\<^verbatim>\<open>main.c\<close>): the initialisations composed; from power-on the first hart comes through to the
    scheduler with paging on, the disk mounted and the user shell runnable, and the others only join.

  \<^bold>\<open>Bounds and fuel.\<close> Loops that end are \<open>fun\<close> or \<open>function\<close> with a measure. The polling loops of the network
  stack count the source's own number of rounds down (400000000, 800000000), so no fuel is
  invented; \<open>tcp_listen\<close> waits without bound, as the source does. The wait for the UART, the draining of its
  input, \<open>mappages\<close>, \<open>uvm_cow_share\<close>, \<open>vm_free_range\<close>, \<open>free_pagetable\<close>, a call or an access in user mode and the run of the user-level threads are
  partial functions, and the theorems about them state that they return. A TCP
  segment is bounded by 1982 bytes, what a receive buffer of 2048 bytes holds behind the headers;
  files by the 14 blocks a transaction logs. A range of pages takes at most two table pages for every 2 MB
  it touches (\<open>new_tables\<close>), which gives 137 pages for the kernel's table (\<open>kernel_tables\<close> and the root) and the 310 free pages that the theorem
  on booting asks for.

  \<^bold>\<open>Not modelled.\<close> The assembly files instruction by instruction: the context switch appears as the
  control point at which a hart goes on, the trap vector as the frame of saved registers in memory. The instructions a C compiler makes of a user
  program: what they do to registers between two traps is an arbitrary argument (\<open>lay\<close>), and \<open>Uthread\<close> names the callee-saved registers that hold the locals
  of \<^verbatim>\<open>worker\<close> and \<^verbatim>\<open>_start\<close>.
  The translation buffer of the hardware; \<^verbatim>\<open>sfence.vma\<close> has no effect in the model. Memory order
  between harts: steps are sequentially consistent, and the fences of the drivers are no-ops. The
  \<^verbatim>\<open>satp\<close> register is one field, not one per hart; it is stated only of the hart that boots, alone at that time. In the
  runs of user programs no interrupt arrives between two instructions; a preempted process is the subject of \<open>Sched\<close>. \<^verbatim>\<open>cowtest\<close> and the user
  shell are given as programs but not run, since they fork: what fork and a write after it do to the address spaces is in \<open>VmCow\<close>.
\<close>

end
